(* ===== verification/Prelude.thy ===== *)
theory Prelude
  imports Main "HOL-Library.Word" "HOL-Library.AList"
begin

text \<open>
  Shared vocabulary of the development: the machine integers of the Rust sources, the
  \<open>Result\<close> type and its sequencing, ordered maps as association lists, and the list
  facts that several components use.

  Counters, lengths and byte offsets of the sources are \<open>u64\<close> or \<open>usize\<close> values that the
  code only combines with checked or saturating operations. They are natural numbers here, and
  every such operation is a definition of this theory that writes the bound \<open>2 ^ 64 - 1\<close> out
  (\<open>usize\<close> is taken at the width of the 64-bit targets). Bytes and the bit buffers that the
  decoders shift and mask are words.
\<close>

unbundle bit_operations_syntax

named_theorems rust_arith \<open>unfolding rules for checked and saturating arithmetic\<close>

type_synonym u8 = "8 word"
type_synonym u16 = "16 word"
type_synonym u32 = "32 word"

subsection \<open>Unsigned 64-bit arithmetic on natural numbers\<close>

definition u64_max :: nat where
  "u64_max = 18446744073709551615"

definition checked_add :: "nat \<Rightarrow> nat \<Rightarrow> nat option" where
  [rust_arith]: "checked_add a b = (if a + b \<le> u64_max then Some (a + b) else None)"

definition checked_sub :: "nat \<Rightarrow> nat \<Rightarrow> nat option" where
  [rust_arith]: "checked_sub a b = (if b \<le> a then Some (a - b) else None)"

definition checked_mul :: "nat \<Rightarrow> nat \<Rightarrow> nat option" where
  [rust_arith]: "checked_mul a b = (if a * b \<le> u64_max then Some (a * b) else None)"

definition saturating_add :: "nat \<Rightarrow> nat \<Rightarrow> nat" where
  [rust_arith]: "saturating_add a b = min (a + b) u64_max"

definition saturating_sub :: "nat \<Rightarrow> nat \<Rightarrow> nat" where
  [rust_arith]: "saturating_sub a b = a - b"

definition saturating_mul :: "nat \<Rightarrow> nat \<Rightarrow> nat" where
  [rust_arith]: "saturating_mul a b = min (a * b) u64_max"

lemma checked_add_SomeD: "checked_add a b = Some c \<Longrightarrow> c = a + b \<and> c \<le> u64_max"
  by (auto simp: rust_arith split: if_splits)

lemma checked_sub_SomeD: "checked_sub a b = Some c \<Longrightarrow> b \<le> a \<and> c = a - b"
  by (auto simp: rust_arith split: if_splits)

subsection \<open>Results\<close>

text \<open>
  \<open>Result<T, E>\<close> is the sum \<open>'e + 'a\<close> with \<open>Inl\<close> for \<open>Err\<close>; \<open>and_then\<close> is what the
  \<open>?\<close> operator does: an error leaves the function at once.
\<close>

definition and_then :: "'e + 'a \<Rightarrow> ('a \<Rightarrow> 'e + 'b) \<Rightarrow> 'e + 'b" where
  "and_then m k = (case m of Inl e \<Rightarrow> Inl e | Inr x \<Rightarrow> k x)"

definition ok_or :: "'a option \<Rightarrow> 'e \<Rightarrow> 'e + 'a" where
  "ok_or m e = (case m of None \<Rightarrow> Inl e | Some x \<Rightarrow> Inr x)"

lemma and_then_simps [simp]:
  "and_then (Inl e) k = Inl e"
  "and_then (Inr x) k = k x"
  by (simp_all add: and_then_def)

lemma and_then_Inr_iff: "and_then m k = Inr y \<longleftrightarrow> (\<exists>x. m = Inr x \<and> k x = Inr y)"
  by (cases m) auto

lemma and_then_Inl_iff: "and_then m k = Inl e \<longleftrightarrow> m = Inl e \<or> (\<exists>x. m = Inr x \<and> k x = Inl e)"
  by (cases m) auto

lemma and_then_InrE:
  assumes "and_then m k = Inr y"
  obtains x where "m = Inr x" "k x = Inr y"
  using assms by (auto simp: and_then_Inr_iff)

lemma and_then_assoc: "and_then (and_then m k) h = and_then m (\<lambda>x. and_then (k x) h)"
  by (cases m) auto

lemma and_then_cong [fundef_cong]:
  "m = m' \<Longrightarrow> (\<And>x. m' = Inr x \<Longrightarrow> k x = k' x) \<Longrightarrow> and_then m k = and_then m' k'"
  by (cases m') auto

lemma ok_or_simps [simp]:
  "ok_or None e = Inl e"
  "ok_or (Some x) e = Inr x"
  by (simp_all add: ok_or_def)

lemma ok_or_Inr_iff: "ok_or m e = Inr x \<longleftrightarrow> m = Some x"
  by (cases m) auto

subsection \<open>Ordered maps as association lists\<close>

text \<open>
  A \<open>BTreeMap\<close> is an association list with distinct keys: \<open>map_of\<close> reads it,
  \<open>AList.update\<close> is \<open>insert\<close>, \<open>AList.delete\<close> is \<open>remove\<close> and \<open>length\<close> is \<open>len\<close>. The
  sources only fold these maps with operations that do not depend on the order of the keys.
\<close>

abbreviation wf_map :: "('k \<times> 'v) list \<Rightarrow> bool" where
  "wf_map m \<equiv> distinct (map fst m)"

declare map_of_eq_Some_iff [simp del]

lemma map_of_update [simp]: "map_of (AList.update k v m) = (map_of m)(k \<mapsto> v)"
  by (simp add: update_conv')

lemma wf_map_same_length:
  "wf_map m \<Longrightarrow> wf_map m' \<Longrightarrow> fst ` set m = fst ` set m' \<Longrightarrow> length m = length m'"
  by (metis distinct_card length_map list.set_map)

lemma wf_map_update [simp]: "wf_map m \<Longrightarrow> wf_map (AList.update k v m)"
  by (rule distinct_update)

lemma wf_map_delete [simp]: "wf_map m \<Longrightarrow> wf_map (AList.delete k m)"
  by (rule distinct_delete)

lemma map_of_delete [simp]: "map_of (AList.delete k m) = (map_of m)(k := None)"
  by (rule delete_conv')

lemma length_update_present: "map_of m k = Some w \<Longrightarrow> length (AList.update k v m) = length m"
  by (induction m) (auto split: if_splits)

lemma length_update_absent: "map_of m k = None \<Longrightarrow> length (AList.update k v m) = Suc (length m)"
  by (induction m) (auto split: if_splits)

lemma keys_update: "fst ` set (AList.update k v m) = insert k (fst ` set m)"
  by (simp add: dom_update)

lemma keys_update_present: "map_of m k = Some w \<Longrightarrow> map fst (AList.update k v m) = map fst m"
  by (induction m) (auto split: if_splits)

lemma key_set_update_present:
  "map_of m k = Some w \<Longrightarrow> fst ` set (AList.update k v m) = fst ` set m"
  by (metis keys_update_present list.set_map)

lemma keys_delete: "fst ` set (AList.delete k m) = fst ` set m - {k}"
  by (rule delete_keys [THEN arg_cong[where f = set], simplified, THEN trans]) auto

lemma length_delete_le: "length (AList.delete k m) \<le> length m"
  by (induction m) (auto split: if_splits)

lemma length_delete_present:
  "wf_map m \<Longrightarrow> map_of m k = Some w \<Longrightarrow> Suc (length (AList.delete k m)) = length m"
proof (induction m)
  case (Cons a m)
  then show ?case
    by (cases a) (auto split: if_splits simp: delete_idem rev_image_eqI)
qed simp

lemma in_keys_iff: "k \<in> fst ` set m \<longleftrightarrow> map_of m k \<noteq> None"
  by (simp add: map_of_eq_None_iff)

lemma map_of_map_values: "map_of (map (\<lambda>(k, v). (k, f v)) m) k = map_option f (map_of m k)"
  by (induction m) auto

lemma map_of_mem: "map_of m k = Some v \<Longrightarrow> (k, v) \<in> set m"
  by (rule map_of_SomeD)

lemma filter_update_other:
  "filter (\<lambda>(k', v'). Some k' \<noteq> Some k) (AList.update k v m) =
   filter (\<lambda>(k', v'). Some k' \<noteq> Some k) m"
  by (induction m) auto

lemma sum_list_update_present:
  fixes g :: "'k \<times> 'v \<Rightarrow> nat"
  assumes "map_of m k = Some w" "wf_map m"
  shows "sum_list (map g (AList.update k v m)) + g (k, w) = sum_list (map g m) + g (k, v)"
  using assms
proof (induction m)
  case (Cons a m)
  then show ?case by (cases a) (auto split: if_splits)
qed simp

lemma sum_list_update_absent:
  fixes g :: "'k \<times> 'v \<Rightarrow> nat"
  assumes "map_of m k = None"
  shows "sum_list (map g (AList.update k v m)) = sum_list (map g m) + g (k, v)"
  using assms by (induction m) (auto split: if_splits)

subsection \<open>Lists\<close>

definition remove_at :: "nat \<Rightarrow> 'a list \<Rightarrow> 'a list" where
  "remove_at i xs = take i xs @ drop (Suc i) xs"

lemma remove_at_simps [simp]:
  "remove_at 0 (x # xs) = xs"
  "remove_at (Suc i) (x # xs) = x # remove_at i xs"
  by (simp_all add: remove_at_def)

lemma length_remove_at: "i < length xs \<Longrightarrow> Suc (length (remove_at i xs)) = length xs"
  by (auto simp: remove_at_def)

lemma set_remove_at: "set (remove_at i xs) \<subseteq> set xs"
  by (auto simp: remove_at_def dest: in_set_takeD in_set_dropD)

lemma mset_split_at: "i < length xs \<Longrightarrow> xs = take i xs @ xs ! i # drop (Suc i) xs"
  by (rule id_take_nth_drop)

lemma sorted_wrt_remove_at: "sorted_wrt P xs \<Longrightarrow> sorted_wrt P (remove_at i xs)"
proof (induction xs arbitrary: i)
  case (Cons x xs)
  then show ?case
    using set_remove_at [of "i - 1" xs] by (cases i) auto
qed (simp add: remove_at_def)

lemma distinct_map_remove_at:
  assumes "distinct (map f xs)" "i < length xs"
  shows "distinct (map f (remove_at i xs)) \<and> f (xs ! i) \<notin> f ` set (remove_at i xs)"
proof -
  have "map f xs = map f (take i xs) @ f (xs ! i) # map f (drop (Suc i) xs)"
    using mset_split_at [OF assms(2)] by (metis list.simps(9) map_append)
  with assms(1) show ?thesis
    by (auto simp: remove_at_def)
qed

lemma filter_remove_at:
  assumes "i < length xs"
  shows "length (filter P xs) = length (filter P (remove_at i xs)) + (if P (xs ! i) then 1 else 0)"
proof -
  have "length (filter P xs) = length (filter P (take i xs @ xs ! i # drop (Suc i) xs))"
    using mset_split_at [OF assms] by simp
  then show ?thesis by (simp add: remove_at_def)
qed

fun position :: "('a \<Rightarrow> bool) \<Rightarrow> 'a list \<Rightarrow> nat option" where
  "position P [] = None"
| "position P (x # xs) = (if P x then Some 0 else map_option Suc (position P xs))"

lemma position_SomeD: "position P xs = Some i \<Longrightarrow> i < length xs \<and> P (xs ! i)"
  by (induction xs arbitrary: i) (auto split: if_splits)

lemma position_None_iff: "position P xs = None \<longleftrightarrow> (\<forall>x \<in> set xs. \<not> P x)"
  by (induction xs) auto

subsection \<open>Machines driven by a list of commands\<close>

fun run_machine :: "('s \<Rightarrow> 'e \<Rightarrow> 's \<times> 'o) \<Rightarrow> 's \<Rightarrow> 'e list \<Rightarrow> 's \<times> 'o list" where
  "run_machine step s [] = (s, [])"
| "run_machine step s (e # es) =
     (let (s', out) = step s e; (s'', outs) = run_machine step s' es in (s'', out # outs))"

lemma run_machine_Cons:
  "fst (run_machine step s (e # es)) = fst (run_machine step (fst (step s e)) es)"
  "snd (run_machine step s (e # es)) = snd (step s e) # snd (run_machine step (fst (step s e)) es)"
  by (simp_all add: split_def Let_def)

declare run_machine.simps(2) [simp del]
declare run_machine_Cons [simp]

lemma run_machine_append:
  "fst (run_machine step s (es @ es')) = fst (run_machine step (fst (run_machine step s es)) es')"
  by (induction es arbitrary: s) auto

lemma length_run_machine: "length (snd (run_machine step s es)) = length es"
  by (induction es arbitrary: s) auto

text \<open>
  The contract of a machine that hands something out at most once: a condition \<open>spent\<close> that
  no step undoes, that silences the outputs in question, and that each such output brings about.
\<close>

locale one_shot =
  fixes step :: "'s \<Rightarrow> 'e \<Rightarrow> 's \<times> 'o"
    and inv :: "'s \<Rightarrow> bool"
    and spent :: "'s \<Rightarrow> bool"
    and fires :: "'o \<Rightarrow> bool"
  assumes inv_step: "inv s \<Longrightarrow> inv (fst (step s e))"
    and spent_step: "inv s \<Longrightarrow> spent s \<Longrightarrow> spent (fst (step s e))"
    and spent_quiet: "inv s \<Longrightarrow> spent s \<Longrightarrow> \<not> fires (snd (step s e))"
    and fires_spends: "inv s \<Longrightarrow> fires (snd (step s e)) \<Longrightarrow> spent (fst (step s e))"
begin

lemma run_inv: "inv s \<Longrightarrow> inv (fst (run_machine step s es))"
  by (induction es arbitrary: s) (auto intro: inv_step)

lemma run_spent_quiet:
  "inv s \<Longrightarrow> spent s \<Longrightarrow> filter fires (snd (run_machine step s es)) = []"
  by (induction es arbitrary: s) (auto intro: inv_step spent_step dest: spent_quiet)

lemma run_fires_once:
  "inv s \<Longrightarrow> length (filter fires (snd (run_machine step s es))) \<le> 1"
proof (induction es arbitrary: s)
  case (Cons e es)
  show ?case
  proof (cases "fires (snd (step s e))")
    case True
    then have "filter fires (snd (run_machine step (fst (step s e)) es)) = []"
      using Cons.prems by (auto intro: run_spent_quiet inv_step fires_spends)
    with True show ?thesis by simp
  next
    case False
    then show ?thesis using Cons by (simp add: inv_step)
  qed
qed simp

end

end
