(* ===== verification/Sched_Types.thy ===== *)
theory Sched_Types
  imports Prelude "HOL-Library.List_Lexorder"
begin

text \<open>
  Data of the viewport scheduler (\<open>runtime/scheduler\<close>): identities, work metadata, the
  lexicographic scheduling key, limits, errors, critical traffic and terminal decisions
  (\<open>id.rs\<close>, \<open>work.rs\<close>, \<open>limits.rs\<close>, \<open>error.rs\<close>). The last section shows what the order of
  scheduling keys means for aging.
\<close>

section \<open>Identities\<close>

text \<open>Identities are nonzero \<open>u64\<close> values; the constructor refuses the reserved zero.\<close>

type_synonym session_id = nat
type_synonym work_id = nat
type_synonym resource_id = nat
type_synonym generation = nat

definition nonzero_id_new :: "nat \<Rightarrow> nat option" where
  "nonzero_id_new value = (if value = 0 then None else Some value)"

section \<open>Work metadata\<close>

datatype priority = P0 | P1 | P2 | P3 | P4

fun priority_rank :: "priority \<Rightarrow> nat" where
  "priority_rank P0 = 0"
| "priority_rank P1 = 1"
| "priority_rank P2 = 2"
| "priority_rank P3 = 3"
| "priority_rank P4 = 4"

datatype scroll_relation = Ahead | Neutral | Behind

fun scroll_rank :: "scroll_relation \<Rightarrow> nat" where
  "scroll_rank Ahead = 0"
| "scroll_rank Neutral = 1"
| "scroll_rank Behind = 2"

datatype replaceable_kind = Viewport | Tile

record replace_key =
  rk_kind :: replaceable_kind
  rk_identity :: nat

record work_request =
  work_id :: work_id
  session_id :: session_id
  generation :: generation
  replace_key :: replace_key
  priority :: priority
  center_distance :: nat
  edge_distance :: nat
  scroll_relation :: scroll_relation

text \<open>
  The scheduling key is a tuple compared field by field in declaration order
  (the derived \<open>Ord\<close>); \<open>key_fields\<close> lists the fields in that order.
\<close>

datatype scheduling_key = SchedulingKey
  (aging_lane: nat)
  (effective_priority: nat)
  (capped_enqueue_order: nat)
  (key_scroll_relation: nat)
  (key_center_distance: nat)
  (key_edge_distance: nat)
  (base_priority: nat)
  (key_enqueue_order: nat)
  (key_session_id: nat)
  (key_work_id: nat)

fun key_fields :: "scheduling_key \<Rightarrow> nat list" where
  "key_fields (SchedulingKey a b c d e f g h i j) = [a, b, c, d, e, f, g, h, i, j]"

lemma key_fields_inject: "key_fields k = key_fields k' \<longleftrightarrow> k = k'"
  by (cases k; cases k') auto

instantiation scheduling_key :: linorder
begin

definition less_eq_scheduling_key :: "scheduling_key \<Rightarrow> scheduling_key \<Rightarrow> bool" where
  "k \<le> k' \<longleftrightarrow> key_fields k \<le> key_fields k'"

definition less_scheduling_key :: "scheduling_key \<Rightarrow> scheduling_key \<Rightarrow> bool" where
  "k < k' \<longleftrightarrow> key_fields k < key_fields k'"

instance
  by standard
    (auto simp: less_eq_scheduling_key_def less_scheduling_key_def less_le_not_le
      key_fields_inject [symmetric])

end

definition for_request ::
  "work_request \<Rightarrow> nat \<Rightarrow> nat \<Rightarrow> nat \<Rightarrow> nat \<Rightarrow> nat \<Rightarrow> scheduling_key" where
  "for_request req enqueue_order enqueue_tick current_tick aging_quantum_ticks max_aging_steps =
     (let age = saturating_sub current_tick enqueue_tick;
          raw_steps = age div aging_quantum_ticks;
          bounded = min raw_steps max_aging_steps;
          steps = (if bounded \<le> 255 then bounded else max_aging_steps);
          capped = (steps = max_aging_steps)
      in SchedulingKey
           (if capped then 0 else 1)
           (saturating_sub (priority_rank (priority req)) steps)
           (if capped then enqueue_order else 0)
           (scroll_rank (scroll_relation req))
           (center_distance req)
           (edge_distance req)
           (priority_rank (priority req))
           enqueue_order
           (session_id req)
           (work_id req))"

record fairness_evidence =
  minimum_last_service_turn :: nat
  session_last_service_turn :: nat
  exclusive_turn_limit :: nat

record scheduled_work =
  sw_request :: work_request
  sw_scheduling_key :: scheduling_key
  sw_fairness :: fairness_evidence

section \<open>Critical traffic and terminal decisions\<close>

record terminal_signal =
  sig_work_id :: work_id
  sig_session_id :: session_id
  sig_generation :: generation

datatype critical_kind =
  KCancel | KClose | KRelease | KFailure | KCompletion | KShutdown

datatype critical_ingress =
  Cancel terminal_signal
| Close session_id
| Release session_id resource_id
| Failure terminal_signal
| Completion terminal_signal resource_id
| Shutdown

fun ingress_kind :: "critical_ingress \<Rightarrow> critical_kind" where
  "ingress_kind (Cancel _) = KCancel"
| "ingress_kind (Close _) = KClose"
| "ingress_kind (Release _ _) = KRelease"
| "ingress_kind (Failure _) = KFailure"
| "ingress_kind (Completion _ _) = KCompletion"
| "ingress_kind Shutdown = KShutdown"

fun ingress_session_id :: "critical_ingress \<Rightarrow> session_id option" where
  "ingress_session_id (Cancel sg) = Some (sig_session_id sg)"
| "ingress_session_id (Failure sg) = Some (sig_session_id sg)"
| "ingress_session_id (Completion sg _) = Some (sig_session_id sg)"
| "ingress_session_id (Close sid) = Some sid"
| "ingress_session_id (Release sid _) = Some sid"
| "ingress_session_id Shutdown = None"

datatype discard_reason =
  UnknownOrAlreadyTerminal
| IdentityMismatch
| StaleGeneration
| DiscardSessionClosing
| DiscardSchedulerShuttingDown

datatype terminal_decision =
  Publish work_id resource_id
| DiscardAndRelease work_id resource_id discard_reason
| Cancelled work_id
| Failed work_id
| Ignored work_id discard_reason

datatype critical_dispatch =
  DCancel terminal_decision
| DClose session_id
| DRelease session_id resource_id
| DFailure terminal_decision
| DCompletion terminal_decision
| DShutdown

section \<open>Errors\<close>

datatype limit_config_error =
  ZeroNormalCapacity
| ZeroSessionReservation
| ZeroSessionCapacity
| ZeroCriticalCapacity
| ZeroInFlightCapacity
| ZeroSessionLimit
| ZeroWorkIdCapacity
| ZeroAgingQuantum
| ZeroAgingSteps
| ZeroFairnessBurst
| ReservationExceedsSessionCapacity
| ReservationsExceedNormalCapacity
| WorkIdCapacityBelowLiveBound
| CapacityArithmeticOverflow

datatype session_registration_error =
  RegDuplicateSession session_id
| RegSessionLimitReached
| RegReservationUnavailable
| RegSchedulerShuttingDown

datatype work_admission_error =
  UnknownSession session_id
| SessionClosing session_id
| SchedulerShuttingDown
| SupersededGeneration generation generation
| NonIncreasingGeneration generation generation
| DuplicateWorkId work_id
| WorkIdHistoryFull
| SessionQueueFull session_id
| ReservedNormalCapacity
| AdmissionCounterExhausted

datatype critical_admission_error =
  QueueFull critical_ingress
| CriticalUnknownSession critical_ingress
| SchedulerTerminated critical_ingress
| CriticalCounterExhausted critical_ingress

datatype terminal_arbiter_error =
  ArbDuplicateSession session_id
| ArbSessionLimitReached
| ArbUnknownSession session_id
| ArbNonIncreasingGeneration generation generation
| ArbSessionClosing session_id
| ArbSchedulerShuttingDown
| ArbInFlightCapacityReached
| ArbDuplicateInFlightWork work_id

datatype scheduler_error = CounterExhausted | InvariantViolation

section \<open>Limits\<close>

record scheduler_limits =
  normal_capacity :: nat
  per_session_reservation :: nat
  per_session_capacity :: nat
  critical_capacity :: nat
  in_flight_capacity :: nat
  max_sessions :: nat
  max_work_ids_per_epoch :: nat
  aging_quantum_ticks :: nat
  max_aging_steps :: nat
  fairness_burst :: nat

definition scheduler_limits_new ::
  "nat \<Rightarrow> nat \<Rightarrow> nat \<Rightarrow> nat \<Rightarrow> nat \<Rightarrow> nat \<Rightarrow> nat \<Rightarrow> nat \<Rightarrow> nat \<Rightarrow> nat
     \<Rightarrow> limit_config_error + scheduler_limits" where
  "scheduler_limits_new normal reservation session_cap critical in_flight sessions work_ids
       quantum steps burst =
     (if normal = 0 then Inl ZeroNormalCapacity
      else if reservation = 0 then Inl ZeroSessionReservation
      else if session_cap = 0 then Inl ZeroSessionCapacity
      else if critical = 0 then Inl ZeroCriticalCapacity
      else if in_flight = 0 then Inl ZeroInFlightCapacity
      else if sessions = 0 then Inl ZeroSessionLimit
      else if work_ids = 0 then Inl ZeroWorkIdCapacity
      else if quantum = 0 then Inl ZeroAgingQuantum
      else if steps = 0 then Inl ZeroAgingSteps
      else if burst = 0 then Inl ZeroFairnessBurst
      else if reservation > session_cap then Inl ReservationExceedsSessionCapacity
      else and_then (ok_or (checked_mul reservation sessions) CapacityArithmeticOverflow)
        (\<lambda>reserved.
          if reserved > normal then Inl ReservationsExceedNormalCapacity
          else and_then (ok_or (checked_add normal in_flight) CapacityArithmeticOverflow)
            (\<lambda>live_bound.
              if work_ids < live_bound then Inl WorkIdCapacityBelowLiveBound
              else Inr \<lparr>normal_capacity = normal, per_session_reservation = reservation,
                        per_session_capacity = session_cap, critical_capacity = critical,
                        in_flight_capacity = in_flight, max_sessions = sessions,
                        max_work_ids_per_epoch = work_ids, aging_quantum_ticks = quantum,
                        max_aging_steps = steps, fairness_burst = burst\<rparr>)))"

text \<open>The relation between the limits that the constructor establishes.\<close>

definition limits_ok :: "scheduler_limits \<Rightarrow> bool" where
  "limits_ok l \<longleftrightarrow>
     0 < normal_capacity l \<and> 0 < per_session_reservation l \<and> 0 < per_session_capacity l \<and>
     0 < critical_capacity l \<and> 0 < in_flight_capacity l \<and> 0 < max_sessions l \<and>
     0 < max_work_ids_per_epoch l \<and> 0 < aging_quantum_ticks l \<and> 0 < max_aging_steps l \<and>
     0 < fairness_burst l \<and>
     per_session_reservation l \<le> per_session_capacity l \<and>
     per_session_reservation l * max_sessions l \<le> normal_capacity l \<and>
     normal_capacity l + in_flight_capacity l \<le> max_work_ids_per_epoch l \<and>
     normal_capacity l + in_flight_capacity l \<le> u64_max"

lemma scheduler_limits_new_ok:
  "scheduler_limits_new n r sc c i s w q st b = Inr l \<Longrightarrow>
     limits_ok l \<and> normal_capacity l = n \<and> per_session_reservation l = r \<and>
     per_session_capacity l = sc \<and> critical_capacity l = c \<and> in_flight_capacity l = i \<and>
     max_sessions l = s \<and> max_work_ids_per_epoch l = w \<and> aging_quantum_ticks l = q \<and>
     max_aging_steps l = st \<and> fairness_burst l = b"
  by (auto simp: scheduler_limits_new_def limits_ok_def rust_arith ok_or_def and_then_Inr_iff
      split: if_splits)

section \<open>What the order of scheduling keys means\<close>

lemma for_request_fields [simp]:
  "key_work_id (for_request req eo et t q m) = work_id req"
  "key_session_id (for_request req eo et t q m) = session_id req"
  "key_enqueue_order (for_request req eo et t q m) = eo"
  by (simp_all add: for_request_def Let_def)

lemma for_request_capped_iff:
  assumes "0 < m" "m \<le> 255"
  shows "aging_lane (for_request req eo et t q m) = 0 \<longleftrightarrow> m \<le> (t - et) div q"
  using assms by (auto simp: for_request_def Let_def saturating_sub_def min_def)

end
