(* ===== verification/Sched_Arbiter.thy ===== *)
theory Sched_Arbiter
  imports Sched_Types
begin

text \<open>
  The terminal arbiter (\<open>runtime/scheduler/src/arbiter.rs\<close>): the only owner of in-flight
  identities and the only place where a completed resource becomes publishable. The theory
  models every operation and states its contract as a locale, which the arbiter's own
  definitions interpret; the scheduler proofs use the interpreted facts.
\<close>

section \<open>State\<close>

record terminal_arbiter_limits =
  arb_max_sessions :: nat
  arb_max_in_flight :: nat

definition terminal_arbiter_limits_new :: "nat \<Rightarrow> nat \<Rightarrow> terminal_arbiter_limits option" where
  "terminal_arbiter_limits_new sessions in_flight =
     (if sessions = 0 \<or> in_flight = 0 then None
      else Some \<lparr>arb_max_sessions = sessions, arb_max_in_flight = in_flight\<rparr>)"

datatype terminal_session_phase = Open | Closing

record terminal_session =
  ts_generation :: generation
  ts_phase :: terminal_session_phase

record terminal_arbiter =
  arb_limits :: terminal_arbiter_limits
  arb_sessions :: "(session_id \<times> terminal_session) list"
  in_flight :: "(work_id \<times> terminal_signal) list"
  shutting_down :: bool

section \<open>Operations\<close>

definition arbiter_new :: "terminal_arbiter_limits \<Rightarrow> terminal_arbiter" where
  "arbiter_new limits =
     \<lparr>arb_limits = limits, arb_sessions = [], in_flight = [], shutting_down = False\<rparr>"

definition arb_register_session ::
  "terminal_arbiter \<Rightarrow> session_id \<Rightarrow> generation \<Rightarrow> terminal_arbiter_error + terminal_arbiter" where
  "arb_register_session a sid gen =
     (if shutting_down a then Inl ArbSchedulerShuttingDown
      else if map_of (arb_sessions a) sid \<noteq> None then Inl (ArbDuplicateSession sid)
      else if length (arb_sessions a) = arb_max_sessions (arb_limits a)
        then Inl ArbSessionLimitReached
      else Inr (a\<lparr>arb_sessions :=
             AList.update sid \<lparr>ts_generation = gen, ts_phase = Open\<rparr> (arb_sessions a)\<rparr>))"

definition current_generation :: "terminal_arbiter \<Rightarrow> session_id \<Rightarrow> generation option" where
  "current_generation a sid = map_option ts_generation (map_of (arb_sessions a) sid)"

definition session_phase :: "terminal_arbiter \<Rightarrow> session_id \<Rightarrow> terminal_session_phase option" where
  "session_phase a sid = map_option ts_phase (map_of (arb_sessions a) sid)"

definition arb_advance_generation ::
  "terminal_arbiter \<Rightarrow> session_id \<Rightarrow> generation
     \<Rightarrow> terminal_arbiter_error + (terminal_arbiter \<times> generation)" where
  "arb_advance_generation a sid gen =
     (case map_of (arb_sessions a) sid of
        None \<Rightarrow> Inl (ArbUnknownSession sid)
      | Some st \<Rightarrow>
          if ts_phase st \<noteq> Open then Inl (ArbSessionClosing sid)
          else if gen \<le> ts_generation st
            then Inl (ArbNonIncreasingGeneration gen (ts_generation st))
          else Inr (a\<lparr>arb_sessions :=
                        AList.update sid (st\<lparr>ts_generation := gen\<rparr>) (arb_sessions a)\<rparr>,
                    ts_generation st))"

definition arb_start ::
  "terminal_arbiter \<Rightarrow> scheduled_work \<Rightarrow> terminal_arbiter_error + terminal_arbiter" where
  "arb_start a work =
     (if shutting_down a then Inl ArbSchedulerShuttingDown
      else let request = sw_request work in
        case map_of (arb_sessions a) (session_id request) of
          None \<Rightarrow> Inl (ArbUnknownSession (session_id request))
        | Some st \<Rightarrow>
            if ts_phase st \<noteq> Open then Inl (ArbSessionClosing (session_id request))
            else if generation request \<noteq> ts_generation st
              then Inl (ArbNonIncreasingGeneration (generation request) (ts_generation st))
            else if map_of (in_flight a) (work_id request) \<noteq> None
              then Inl (ArbDuplicateInFlightWork (work_id request))
            else if length (in_flight a) = arb_max_in_flight (arb_limits a)
              then Inl ArbInFlightCapacityReached
            else Inr (a\<lparr>in_flight :=
                   AList.update (work_id request)
                     \<lparr>sig_work_id = work_id request, sig_session_id = session_id request,
                      sig_generation = generation request\<rparr> (in_flight a)\<rparr>))"

definition arb_begin_close ::
  "terminal_arbiter \<Rightarrow> session_id \<Rightarrow> terminal_arbiter_error + (terminal_arbiter \<times> bool)" where
  "arb_begin_close a sid =
     (case map_of (arb_sessions a) sid of
        None \<Rightarrow> Inl (ArbUnknownSession sid)
      | Some st \<Rightarrow>
          if ts_phase st = Closing then Inr (a, False)
          else Inr (a\<lparr>arb_sessions :=
                        AList.update sid (st\<lparr>ts_phase := Closing\<rparr>) (arb_sessions a)\<rparr>, True))"

definition arb_begin_shutdown :: "terminal_arbiter \<Rightarrow> terminal_arbiter \<times> bool" where
  "arb_begin_shutdown a =
     (if shutting_down a then (a, False)
      else (a\<lparr>shutting_down := True,
              arb_sessions := map (\<lambda>(sid, st). (sid, st\<lparr>ts_phase := Closing\<rparr>)) (arb_sessions a)\<rparr>,
            True))"

definition arb_complete ::
  "terminal_arbiter \<Rightarrow> terminal_signal \<Rightarrow> resource_id \<Rightarrow> terminal_arbiter \<times> terminal_decision" where
  "arb_complete a sg rid =
     (case map_of (in_flight a) (sig_work_id sg) of
        None \<Rightarrow> (a, DiscardAndRelease (sig_work_id sg) rid UnknownOrAlreadyTerminal)
      | Some active \<Rightarrow>
          if active \<noteq> sg then (a, DiscardAndRelease (sig_work_id sg) rid IdentityMismatch)
          else let a' = a\<lparr>in_flight := AList.delete (sig_work_id sg) (in_flight a)\<rparr> in
            if shutting_down a'
            then (a', DiscardAndRelease (sig_work_id sg) rid DiscardSchedulerShuttingDown)
            else case map_of (arb_sessions a') (sig_session_id sg) of
                None \<Rightarrow> (a', DiscardAndRelease (sig_work_id sg) rid IdentityMismatch)
              | Some st \<Rightarrow>
                  if ts_phase st \<noteq> Open
                  then (a', DiscardAndRelease (sig_work_id sg) rid DiscardSessionClosing)
                  else if ts_generation st \<noteq> sig_generation sg
                  then (a', DiscardAndRelease (sig_work_id sg) rid StaleGeneration)
                  else (a', Publish (sig_work_id sg) rid))"

definition finish_without_resource ::
  "terminal_arbiter \<Rightarrow> terminal_signal \<Rightarrow> bool \<Rightarrow> terminal_arbiter \<times> terminal_decision" where
  "finish_without_resource a sg failed =
     (case map_of (in_flight a) (sig_work_id sg) of
        None \<Rightarrow> (a, Ignored (sig_work_id sg) UnknownOrAlreadyTerminal)
      | Some active \<Rightarrow>
          if active \<noteq> sg then (a, Ignored (sig_work_id sg) IdentityMismatch)
          else (a\<lparr>in_flight := AList.delete (sig_work_id sg) (in_flight a)\<rparr>,
                if failed then Failed (sig_work_id sg) else Cancelled (sig_work_id sg)))"

definition arb_cancel :: "terminal_arbiter \<Rightarrow> terminal_signal \<Rightarrow> terminal_arbiter \<times> terminal_decision" where
  "arb_cancel a sg = finish_without_resource a sg False"

definition arb_fail :: "terminal_arbiter \<Rightarrow> terminal_signal \<Rightarrow> terminal_arbiter \<times> terminal_decision" where
  "arb_fail a sg = finish_without_resource a sg True"

definition in_flight_len :: "terminal_arbiter \<Rightarrow> nat" where
  "in_flight_len a = length (in_flight a)"

section \<open>Well-formedness\<close>

definition arb_wf :: "terminal_arbiter \<Rightarrow> bool" where
  "arb_wf a \<longleftrightarrow>
     wf_map (arb_sessions a) \<and> wf_map (in_flight a) \<and>
     length (arb_sessions a) \<le> arb_max_sessions (arb_limits a) \<and>
     length (in_flight a) \<le> arb_max_in_flight (arb_limits a) \<and>
     (\<forall>w sg. map_of (in_flight a) w = Some sg \<longrightarrow>
        sig_work_id sg = w \<and>
        (\<exists>g. current_generation a (sig_session_id sg) = Some g \<and> sig_generation sg \<le> g)) \<and>
     (shutting_down a \<longrightarrow> (\<forall>sid. session_phase a sid \<noteq> Some Open))"

text \<open>The decisions that end the life of an in-flight identity.\<close>

fun ends_work :: "work_id \<Rightarrow> terminal_decision \<Rightarrow> bool" where
  "ends_work w (Publish w' _) = (w = w')"
| "ends_work w (Cancelled w') = (w = w')"
| "ends_work w (Failed w') = (w = w')"
| "ends_work w (DiscardAndRelease w' _ r) =
     (w = w' \<and> r \<in> {StaleGeneration, DiscardSessionClosing, DiscardSchedulerShuttingDown})"
| "ends_work w _ = False"

text \<open>
  The terminal part of \<open>dispatch_next\<close>: one critical event is resolved by the arbiter before
  it is handed to the caller.
\<close>

fun dispatch_critical ::
  "terminal_arbiter \<Rightarrow> critical_ingress \<Rightarrow> terminal_arbiter \<times> critical_dispatch" where
  "dispatch_critical a (Cancel sg) = (let (a', d) = arb_cancel a sg in (a', DCancel d))"
| "dispatch_critical a (Close sid) = (a, DClose sid)"
| "dispatch_critical a (Release sid rid) = (a, DRelease sid rid)"
| "dispatch_critical a (Failure sg) = (let (a', d) = arb_fail a sg in (a', DFailure d))"
| "dispatch_critical a (Completion sg rid) =
     (let (a', d) = arb_complete a sg rid in (a', DCompletion d))"
| "dispatch_critical a Shutdown = (a, DShutdown)"

fun decision_of :: "critical_dispatch \<Rightarrow> terminal_decision option" where
  "decision_of (DCancel d) = Some d"
| "decision_of (DFailure d) = Some d"
| "decision_of (DCompletion d) = Some d"
| "decision_of _ = None"

definition ends :: "work_id \<Rightarrow> critical_dispatch \<Rightarrow> bool" where
  "ends w d \<longleftrightarrow> (\<exists>t. decision_of d = Some t \<and> ends_work w t)"

lemma ends_simps [simp]:
  "ends w (DCancel d) = ends_work w d"
  "ends w (DFailure d) = ends_work w d"
  "ends w (DCompletion d) = ends_work w d"
  "\<not> ends w (DClose sid)"
  "\<not> ends w (DRelease sid rid)"
  "\<not> ends w DShutdown"
  by (simp_all add: ends_def)

section \<open>Preservation\<close>

lemma arb_wfD:
  assumes "arb_wf a"
  shows "wf_map (arb_sessions a)" "wf_map (in_flight a)"
    "length (arb_sessions a) \<le> arb_max_sessions (arb_limits a)"
    "length (in_flight a) \<le> arb_max_in_flight (arb_limits a)"
    "map_of (in_flight a) w = Some sg \<Longrightarrow> sig_work_id sg = w"
    "map_of (in_flight a) w = Some sg \<Longrightarrow>
       \<exists>g. current_generation a (sig_session_id sg) = Some g \<and> sig_generation sg \<le> g"
    "shutting_down a \<Longrightarrow> session_phase a sid \<noteq> Some Open"
  using assms by (auto simp: arb_wf_def)

lemma arb_wf_new: "arb_wf (arbiter_new l)"
  by (simp add: arb_wf_def arbiter_new_def)

text \<open>Generations and phases after an update of the session registry.\<close>

lemma views_update [simp]:
  "current_generation (a\<lparr>arb_sessions := AList.update sid st m\<rparr>) =
     (current_generation (a\<lparr>arb_sessions := m\<rparr>))(sid \<mapsto> ts_generation st)"
  "session_phase (a\<lparr>arb_sessions := AList.update sid st m\<rparr>) =
     (session_phase (a\<lparr>arb_sessions := m\<rparr>))(sid \<mapsto> ts_phase st)"
  by (auto simp: current_generation_def session_phase_def)

lemma views_frame [simp]:
  "current_generation (a\<lparr>in_flight := x\<rparr>) = current_generation a"
  "session_phase (a\<lparr>in_flight := x\<rparr>) = session_phase a"
  "current_generation (a\<lparr>shutting_down := b\<rparr>) = current_generation a"
  "session_phase (a\<lparr>shutting_down := b\<rparr>) = session_phase a"
  by (auto simp: current_generation_def session_phase_def)

lemma views_same [simp]:
  "current_generation (a\<lparr>arb_sessions := arb_sessions a\<rparr>) = current_generation a"
  "session_phase (a\<lparr>arb_sessions := arb_sessions a\<rparr>) = session_phase a"
  by simp_all

lemma views_lookup:
  assumes "map_of (arb_sessions a) sid = Some st"
  shows "current_generation a sid = Some (ts_generation st)"
    "session_phase a sid = Some (ts_phase st)"
  using assms by (auto simp: current_generation_def session_phase_def)

lemma views_None:
  "map_of (arb_sessions a) sid = None \<longleftrightarrow> current_generation a sid = None"
  "session_phase a sid = None \<longleftrightarrow> current_generation a sid = None"
  by (auto simp: current_generation_def session_phase_def)

lemma arb_wfI:
  assumes "wf_map (arb_sessions a)" "wf_map (in_flight a)"
    "length (arb_sessions a) \<le> arb_max_sessions (arb_limits a)"
    "length (in_flight a) \<le> arb_max_in_flight (arb_limits a)"
    "\<And>w sg. map_of (in_flight a) w = Some sg \<Longrightarrow> sig_work_id sg = w"
    "\<And>w sg. map_of (in_flight a) w = Some sg \<Longrightarrow>
       \<exists>g. current_generation a (sig_session_id sg) = Some g \<and> sig_generation sg \<le> g"
    "\<And>sid. shutting_down a \<Longrightarrow> session_phase a sid \<noteq> Some Open"
  shows "arb_wf a"
  using assms by (auto simp: arb_wf_def)

lemma arb_wf_register:
  assumes wf: "arb_wf a" and reg: "arb_register_session a sid gen = Inr a'"
  shows "arb_wf a'"
proof -
  have a': "a' = a\<lparr>arb_sessions :=
      AList.update sid \<lparr>ts_generation = gen, ts_phase = Open\<rparr> (arb_sessions a)\<rparr>"
    and fresh: "map_of (arb_sessions a) sid = None"
    and room: "length (arb_sessions a) \<noteq> arb_max_sessions (arb_limits a)"
    and run: "\<not> shutting_down a"
    using reg by (auto simp: arb_register_session_def split: if_splits)
  have nogen: "current_generation a sid = None"
    using fresh by (simp add: views_None)
  show ?thesis
  proof (rule arb_wfI)
    fix w sg
    assume "map_of (in_flight a') w = Some sg"
    then show "\<exists>g. current_generation a' (sig_session_id sg) = Some g \<and> sig_generation sg \<le> g"
      using arb_wfD(6) [OF wf] nogen unfolding a' by fastforce
  qed (use wf fresh room run in \<open>auto simp: a' length_update_absent dest: arb_wfD\<close>)
qed

lemma arb_wf_advance:
  assumes wf: "arb_wf a" and adv: "arb_advance_generation a sid gen = Inr (a', g)"
  shows "arb_wf a'"
proof -
  obtain st where st: "map_of (arb_sessions a) sid = Some st" "ts_phase st = Open"
      "ts_generation st < gen"
    and a': "a' = a\<lparr>arb_sessions :=
      AList.update sid (st\<lparr>ts_generation := gen\<rparr>) (arb_sessions a)\<rparr>"
    using adv by (auto simp: arb_advance_generation_def split: option.splits if_splits)
  show ?thesis
  proof (rule arb_wfI)
    fix w sg
    assume "map_of (in_flight a') w = Some sg"
    then obtain g where "current_generation a (sig_session_id sg) = Some g"
        "sig_generation sg \<le> g"
      using arb_wfD(6) [OF wf] by (auto simp: a')
    then show "\<exists>g. current_generation a' (sig_session_id sg) = Some g \<and> sig_generation sg \<le> g"
      using st views_lookup [OF st(1)] unfolding a' by auto
  qed (use wf st views_lookup [OF st(1)] in
      \<open>auto simp: a' length_update_present dest: arb_wfD\<close>)
qed

lemma arb_startD:
  assumes "arb_start a work = Inr a'"
  defines "r \<equiv> sw_request work"
  shows "\<not> shutting_down a" "session_phase a (session_id r) = Some Open"
    "current_generation a (session_id r) = Some (generation r)"
    "map_of (in_flight a) (work_id r) = None"
    "length (in_flight a) \<noteq> arb_max_in_flight (arb_limits a)"
    "a' = a\<lparr>in_flight := AList.update (work_id r)
       \<lparr>sig_work_id = work_id r, sig_session_id = session_id r, sig_generation = generation r\<rparr>
       (in_flight a)\<rparr>"
  using assms
  by (auto simp: arb_start_def Let_def current_generation_def session_phase_def
      split: option.splits if_splits)

lemma arb_startI:
  assumes "\<not> shutting_down a" "session_phase a (session_id (sw_request work)) = Some Open"
    "current_generation a (session_id (sw_request work)) = Some (generation (sw_request work))"
    "map_of (in_flight a) (work_id (sw_request work)) = None"
    "length (in_flight a) < arb_max_in_flight (arb_limits a)"
  shows "\<exists>a'. arb_start a work = Inr a'"
  using assms
  by (auto simp: arb_start_def Let_def current_generation_def session_phase_def
      split: option.splits if_splits)

lemma arb_wf_start:
  assumes wf: "arb_wf a" and st: "arb_start a work = Inr a'"
  shows "arb_wf a'"
  by (rule arb_wfI)
    (use wf arb_startD [OF st] in
      \<open>auto simp: length_update_absent split: if_splits dest: arb_wfD\<close>)

lemma arb_wf_begin_close:
  assumes wf: "arb_wf a" and cl: "arb_begin_close a sid = Inr (a', b)"
  shows "arb_wf a'"
proof (cases b)
  case True
  then obtain st where st: "map_of (arb_sessions a) sid = Some st"
    and a': "a' = a\<lparr>arb_sessions :=
      AList.update sid (st\<lparr>ts_phase := Closing\<rparr>) (arb_sessions a)\<rparr>"
    using cl by (auto simp: arb_begin_close_def split: option.splits if_splits)
  show ?thesis
  proof (rule arb_wfI)
    fix w sg
    assume "map_of (in_flight a') w = Some sg"
    then show "\<exists>g. current_generation a' (sig_session_id sg) = Some g \<and> sig_generation sg \<le> g"
      using arb_wfD(6) [OF wf] views_lookup [OF st] by (fastforce simp: a')
  qed (use wf st in \<open>auto simp: a' length_update_present dest: arb_wfD\<close>)
next
  case False
  then show ?thesis
    using wf cl by (auto simp: arb_begin_close_def split: option.splits if_splits)
qed

lemma views_begin_shutdown:
  assumes "\<not> shutting_down a"
  shows "current_generation (fst (arb_begin_shutdown a)) = current_generation a"
    "session_phase (fst (arb_begin_shutdown a)) sid = map_option (\<lambda>_. Closing) (session_phase a sid)"
  using assms
  by (auto simp: arb_begin_shutdown_def current_generation_def session_phase_def fun_eq_iff
      map_of_map_values option.map_comp comp_def)

lemma arb_wf_begin_shutdown:
  assumes wf: "arb_wf a"
  shows "arb_wf (fst (arb_begin_shutdown a))"
proof (cases "shutting_down a")
  case False
  note views = views_begin_shutdown [OF this]
  show ?thesis
    by (rule arb_wfI; (subst (asm) views | subst views)?)
      (use wf False in \<open>auto simp: arb_begin_shutdown_def views comp_def split_def dest: arb_wfD\<close>)
qed (use wf in \<open>simp add: arb_begin_shutdown_def\<close>)

section \<open>Resolving critical events\<close>

text \<open>Which live identity an event may remove: the one its exact signal names.\<close>

lemma dispatch_critical_in_flight:
  "map_of (in_flight (fst (dispatch_critical a e))) w =
     (if (\<exists>sg. (e = Cancel sg \<or> e = Failure sg \<or> (\<exists>rid. e = Completion sg rid)) \<and>
             sig_work_id sg = w \<and> map_of (in_flight a) w = Some sg)
      then None else map_of (in_flight a) w)"
  by (cases e)
    (auto simp: arb_cancel_def arb_fail_def finish_without_resource_def arb_complete_def Let_def
      split: option.splits)

lemma dispatch_critical_views [simp]:
  "current_generation (fst (dispatch_critical a e)) = current_generation a"
  "session_phase (fst (dispatch_critical a e)) = session_phase a"
  "shutting_down (fst (dispatch_critical a e)) = shutting_down a"
  "arb_limits (fst (dispatch_critical a e)) = arb_limits a"
  "arb_sessions (fst (dispatch_critical a e)) = arb_sessions a"
  by (cases e;
      auto simp: arb_cancel_def arb_fail_def finish_without_resource_def arb_complete_def Let_def
      split: option.splits)+

lemma dispatch_critical_shape:
  "in_flight (fst (dispatch_critical a e)) = in_flight a \<or>
   (\<exists>w. in_flight (fst (dispatch_critical a e)) = AList.delete w (in_flight a))"
  by (cases e)
    (auto simp: arb_cancel_def arb_fail_def finish_without_resource_def arb_complete_def Let_def
      split: option.splits)

lemma dispatch_critical_mono:
  "map_of (in_flight (fst (dispatch_critical a e))) w = Some sg \<Longrightarrow> map_of (in_flight a) w = Some sg"
  by (simp add: dispatch_critical_in_flight split: if_splits)

lemma arb_wf_dispatch_critical:
  assumes wf: "arb_wf a"
  shows "arb_wf (fst (dispatch_critical a e))"
proof (rule arb_wfI)
  show "wf_map (in_flight (fst (dispatch_critical a e)))"
    using dispatch_critical_shape [of a e] arb_wfD(2) [OF wf] by auto
  show "length (in_flight (fst (dispatch_critical a e)))
      \<le> arb_max_in_flight (arb_limits (fst (dispatch_critical a e)))"
    using dispatch_critical_shape [of a e] arb_wfD(4) [OF wf] length_delete_le
    by (metis dispatch_critical_views(4) order_trans)
qed (use wf in \<open>auto dest!: dispatch_critical_mono dest: arb_wfD\<close>)

lemma dispatch_critical_ends:
  assumes "ends w (snd (dispatch_critical a e))"
  shows "map_of (in_flight a) w \<noteq> None \<and> map_of (in_flight (fst (dispatch_critical a e))) w = None"
  using assms
  by (cases e)
    (auto simp: arb_cancel_def arb_fail_def finish_without_resource_def arb_complete_def Let_def
      split: option.splits if_splits)

text \<open>A publication: the exact live work of an open session at its current generation.\<close>

lemma dispatch_critical_publish:
  assumes "snd (dispatch_critical a e) = DCompletion (Publish w rid)"
  shows "\<exists>sg. e = Completion sg rid \<and> map_of (in_flight a) w = Some sg \<and> sig_work_id sg = w \<and>
     \<not> shutting_down a \<and> session_phase a (sig_session_id sg) = Some Open \<and>
     current_generation a (sig_session_id sg) = Some (sig_generation sg)"
  using assms
  by (cases e)
    (auto simp: arb_cancel_def arb_fail_def finish_without_resource_def arb_complete_def Let_def
      current_generation_def session_phase_def split: option.splits if_splits)

text \<open>Every live identity is ended at most once, whatever events arrive and in whatever order.\<close>

interpretation arb_once: one_shot dispatch_critical arb_wf
  "\<lambda>a. map_of (in_flight a) w = None" "ends w"
  for w :: work_id
proof unfold_locales
  fix a :: terminal_arbiter and e
  show "arb_wf (fst (dispatch_critical a e))" if "arb_wf a"
    using that by (rule arb_wf_dispatch_critical)
  show "map_of (in_flight (fst (dispatch_critical a e))) w = None"
    if "map_of (in_flight a) w = None"
    using that by (simp add: dispatch_critical_in_flight)
  show "\<not> ends w (snd (dispatch_critical a e))" if "map_of (in_flight a) w = None"
    using that by (auto dest: dispatch_critical_ends)
  show "map_of (in_flight (fst (dispatch_critical a e))) w = None"
    if "ends w (snd (dispatch_critical a e))"
    using dispatch_critical_ends [OF that] by simp
qed

end
