(* ===== verification/Sched_Queue.thy ===== *)
theory Sched_Queue
  imports Sched_Arbiter
begin

text \<open>
  The viewport scheduler (\<open>runtime/scheduler/src/scheduler.rs\<close>): one definition per method of
  \<open>ViewportScheduler\<close>. A method that may fail after it changed the state returns the state
  beside its result, so that what an error leaves behind is part of the model.
\<close>

section \<open>State\<close>

record queue_session =
  queued :: nat
  last_service_turn :: nat

record queued_work =
  request :: work_request
  enqueue_order :: nat
  enqueue_tick :: nat

datatype scheduler_phase = Running | ShuttingDown | Terminated

datatype critical_admission = CriticalEnqueued nat | AlreadyPending

record generation_advance =
  ga_previous :: generation
  ga_current :: generation
  superseded_queued :: "work_id list"

datatype submit_outcome =
  Enqueued "generation_advance option"
| Coalesced work_id work_id "generation_advance option"

record close_receipt =
  close_critical :: critical_admission
  close_superseded :: "work_id list"

record shutdown_receipt =
  shutdown_critical :: critical_admission
  shutdown_superseded :: "work_id list"

datatype scheduler_dispatch = Critical critical_dispatch | Normal scheduled_work

record scheduler =
  limits :: scheduler_limits
  phase :: scheduler_phase
  tick :: nat
  next_enqueue_order :: nat
  next_critical_order :: nat
  next_service_turn :: nat
  sessions :: "(session_id \<times> queue_session) list"
  normal :: "queued_work list"
  critical :: "(nat \<times> critical_ingress) list"
  seen_work_ids :: "work_id set"
  terminal :: terminal_arbiter

definition scheduler_new :: "scheduler_limits \<Rightarrow> scheduler" where
  "scheduler_new l =
     \<lparr>limits = l, phase = Running, tick = 0, next_enqueue_order = 0, next_critical_order = 0,
      next_service_turn = 1, sessions = [], normal = [], critical = [], seen_work_ids = {},
      terminal = arbiter_new \<lparr>arb_max_sessions = max_sessions l,
                               arb_max_in_flight = in_flight_capacity l\<rparr>\<rparr>"

section \<open>Internal helpers\<close>

definition unused_open_reservations :: "scheduler \<Rightarrow> session_id option \<Rightarrow> nat" where
  "unused_open_reservations s excluded =
     sum_list (map (\<lambda>(sid, q). saturating_sub (per_session_reservation (limits s)) (queued q))
       (filter (\<lambda>(sid, q). session_phase (terminal s) sid = Some Open)
         (filter (\<lambda>(sid, q). Some sid \<noteq> excluded) (sessions s))))"

definition remove_queued_for_session :: "scheduler \<Rightarrow> session_id \<Rightarrow> scheduler \<times> work_id list" where
  "remove_queued_for_session s sid =
     (let removed = map (\<lambda>e. work_id (request e))
            (filter (\<lambda>e. session_id (request e) = sid) (normal s));
          s' = s\<lparr>normal := filter (\<lambda>e. session_id (request e) \<noteq> sid) (normal s)\<rparr>
      in (case map_of (sessions s') sid of
            None \<Rightarrow> s'
          | Some q \<Rightarrow> s'\<lparr>sessions := AList.update sid (q\<lparr>queued := 0\<rparr>) (sessions s')\<rparr>,
          removed))"

definition reserve_work_id :: "scheduler \<Rightarrow> work_id \<Rightarrow> work_admission_error + scheduler" where
  "reserve_work_id s w =
     (if w \<in> seen_work_ids s then Inl (DuplicateWorkId w)
      else if card (seen_work_ids s) = max_work_ids_per_epoch (limits s) then Inl WorkIdHistoryFull
      else Inr (s\<lparr>seen_work_ids := insert w (seen_work_ids s)\<rparr>))"

definition enqueue_critical ::
  "scheduler \<Rightarrow> critical_ingress \<Rightarrow> scheduler \<times> (critical_admission_error + critical_admission)" where
  "enqueue_critical s event =
     (if phase s = Terminated then (s, Inl (SchedulerTerminated event))
      else if (case ingress_session_id event of
                 None \<Rightarrow> False | Some sid \<Rightarrow> map_of (sessions s) sid = None)
        then (s, Inl (CriticalUnknownSession event))
      else if length (critical s) = critical_capacity (limits s) then (s, Inl (QueueFull event))
      else if next_critical_order s = u64_max then (s, Inl (CriticalCounterExhausted event))
      else (s\<lparr>next_critical_order := next_critical_order s + 1,
              critical := critical s @ [(next_critical_order s, event)]\<rparr>,
            Inr (CriticalEnqueued (next_critical_order s))))"

section \<open>Sessions, time and generations\<close>

definition register_session ::
  "scheduler \<Rightarrow> session_id \<Rightarrow> generation \<Rightarrow> scheduler \<times> (session_registration_error + unit)" where
  "register_session s sid initial_generation =
     (if phase s \<noteq> Running then (s, Inl RegSchedulerShuttingDown)
      else if map_of (sessions s) sid \<noteq> None then (s, Inl (RegDuplicateSession sid))
      else if length (sessions s) = max_sessions (limits s) then (s, Inl RegSessionLimitReached)
      else
        let unused_existing = unused_open_reservations s None in
        case Option.bind (checked_add (length (normal s)) unused_existing)
               (\<lambda>v. checked_add v (per_session_reservation (limits s))) of
          None \<Rightarrow> (s, Inl RegReservationUnavailable)
        | Some required \<Rightarrow>
            if required > normal_capacity (limits s) then (s, Inl RegReservationUnavailable)
            else case arb_register_session (terminal s) sid initial_generation of
                Inl (ArbDuplicateSession d) \<Rightarrow> (s, Inl (RegDuplicateSession d))
              | Inl ArbSessionLimitReached \<Rightarrow> (s, Inl RegSessionLimitReached)
              | Inl _ \<Rightarrow> (s, Inl RegSchedulerShuttingDown)
              | Inr a \<Rightarrow>
                  (s\<lparr>terminal := a,
                     sessions := AList.update sid \<lparr>queued = 0, last_service_turn = 0\<rparr> (sessions s)\<rparr>,
                   Inr ()))"

definition advance_tick :: "scheduler \<Rightarrow> nat \<Rightarrow> scheduler \<times> (scheduler_error + nat)" where
  "advance_tick s delta =
     (case checked_add (tick s) delta of
        None \<Rightarrow> (s, Inl CounterExhausted)
      | Some t \<Rightarrow> (s\<lparr>tick := t\<rparr>, Inr t))"

definition advance_generation ::
  "scheduler \<Rightarrow> session_id \<Rightarrow> generation
     \<Rightarrow> scheduler \<times> (work_admission_error + generation_advance)" where
  "advance_generation s sid gen =
     (if phase s \<noteq> Running then (s, Inl SchedulerShuttingDown)
      else case current_generation (terminal s) sid of
          None \<Rightarrow> (s, Inl (UnknownSession sid))
        | Some current \<Rightarrow>
            if session_phase (terminal s) sid \<noteq> Some Open then (s, Inl (SessionClosing sid))
            else if gen \<le> current then (s, Inl (NonIncreasingGeneration gen current))
            else case arb_advance_generation (terminal s) sid gen of
                Inl _ \<Rightarrow> (s, Inl (SessionClosing sid))
              | Inr (a, _) \<Rightarrow>
                  let (s', removed) = remove_queued_for_session (s\<lparr>terminal := a\<rparr>) sid
                  in (s', Inr \<lparr>ga_previous = current, ga_current = gen, superseded_queued = removed\<rparr>))"

section \<open>Normal admission\<close>

definition same_slot :: "work_request \<Rightarrow> queued_work \<Rightarrow> bool" where
  "same_slot req e \<longleftrightarrow>
     session_id (request e) = session_id req \<and> generation (request e) = generation req \<and>
     replace_key (request e) = replace_key req"

text \<open>Admission once the generation of the session is the generation of the request.\<close>

definition coalesce ::
  "scheduler \<Rightarrow> nat \<Rightarrow> work_request \<Rightarrow> generation_advance option
     \<Rightarrow> scheduler \<times> (work_admission_error + submit_outcome)" where
  "coalesce s i req adv =
     (let replaced = work_id (request (normal s ! i)) in
      case (if work_id req \<noteq> replaced then reserve_work_id s (work_id req) else Inr s) of
        Inl e \<Rightarrow> (s, Inl e)
      | Inr s' \<Rightarrow>
          (s'\<lparr>normal := (normal s')[i := (normal s' ! i)\<lparr>request := req\<rparr>]\<rparr>,
           Inr (Coalesced replaced (work_id req) adv)))"

definition enqueue_new ::
  "scheduler \<Rightarrow> work_request \<Rightarrow> generation_advance option
     \<Rightarrow> scheduler \<times> (work_admission_error + submit_outcome)" where
  "enqueue_new s req adv =
     (if work_id req \<in> seen_work_ids s then (s, Inl (DuplicateWorkId (work_id req)))
      else case map_of (sessions s) (session_id req) of
          None \<Rightarrow> (s, Inl (UnknownSession (session_id req)))
        | Some session \<Rightarrow>
            if queued session = per_session_capacity (limits s)
            then (s, Inl (SessionQueueFull (session_id req)))
            else
              let reserved_for_others = unused_open_reservations s (Some (session_id req)) in
              case Option.bind (checked_add (length (normal s)) 1)
                     (\<lambda>v. checked_add v reserved_for_others) of
                None \<Rightarrow> (s, Inl ReservedNormalCapacity)
              | Some charged \<Rightarrow>
                  if charged > normal_capacity (limits s) then (s, Inl ReservedNormalCapacity)
                  else if next_enqueue_order s = u64_max then (s, Inl AdmissionCounterExhausted)
                  else case reserve_work_id s (work_id req) of
                      Inl e \<Rightarrow> (s, Inl e)
                    | Inr s' \<Rightarrow>
                        (case map_of (sessions s') (session_id req) of
                           None \<Rightarrow> (s'\<lparr>seen_work_ids := seen_work_ids s' - {work_id req}\<rparr>,
                                    Inl (UnknownSession (session_id req)))
                         | Some session' \<Rightarrow>
                             (s'\<lparr>sessions := AList.update (session_id req)
                                   (session'\<lparr>queued := queued session' + 1\<rparr>) (sessions s'),
                                 next_enqueue_order := next_enqueue_order s' + 1,
                                 normal := normal s' @
                                   [\<lparr>request = req, enqueue_order = next_enqueue_order s',
                                     enqueue_tick = tick s'\<rparr>]\<rparr>,
                              Inr (Enqueued adv))))"

definition admit ::
  "scheduler \<Rightarrow> work_request \<Rightarrow> generation_advance option
     \<Rightarrow> scheduler \<times> (work_admission_error + submit_outcome)" where
  "admit s req adv =
     (case position (same_slot req) (normal s) of
        Some i \<Rightarrow> coalesce s i req adv
      | None \<Rightarrow> enqueue_new s req adv)"

definition submit ::
  "scheduler \<Rightarrow> work_request \<Rightarrow> scheduler \<times> (work_admission_error + submit_outcome)" where
  "submit s req =
     (if phase s \<noteq> Running then (s, Inl SchedulerShuttingDown)
      else case current_generation (terminal s) (session_id req) of
          None \<Rightarrow> (s, Inl (UnknownSession (session_id req)))
        | Some current \<Rightarrow>
            if session_phase (terminal s) (session_id req) \<noteq> Some Open
            then (s, Inl (SessionClosing (session_id req)))
            else if generation req < current
            then (s, Inl (SupersededGeneration (generation req) current))
            else if generation req > current
            then (case advance_generation s (session_id req) (generation req) of
                    (s', Inl e) \<Rightarrow> (s', Inl e)
                  | (s', Inr adv) \<Rightarrow> admit s' req (Some adv))
            else admit s req None)"

section \<open>Critical admission\<close>

definition enqueue_cancel where
  "enqueue_cancel s sg = enqueue_critical s (Cancel sg)"

definition enqueue_release where
  "enqueue_release s sid rid = enqueue_critical s (Release sid rid)"

definition enqueue_failure where
  "enqueue_failure s sg = enqueue_critical s (Failure sg)"

definition enqueue_completion where
  "enqueue_completion s sg rid = enqueue_critical s (Completion sg rid)"

definition close_session ::
  "scheduler \<Rightarrow> session_id \<Rightarrow> scheduler \<times> (critical_admission_error + close_receipt)" where
  "close_session s sid =
     (if phase s = Terminated then (s, Inl (SchedulerTerminated (Close sid)))
      else case session_phase (terminal s) sid of
          None \<Rightarrow> (s, Inl (CriticalUnknownSession (Close sid)))
        | Some ph \<Rightarrow>
            if ph = Closing
            then (s, Inr \<lparr>close_critical = AlreadyPending, close_superseded = []\<rparr>)
            else case enqueue_critical s (Close sid) of
                (s', Inl e) \<Rightarrow> (s', Inl e)
              | (s', Inr adm) \<Rightarrow>
                  (case arb_begin_close (terminal s') sid of
                     Inl _ \<Rightarrow>
                       (s'\<lparr>critical := butlast (critical s'),
                           next_critical_order := saturating_sub (next_critical_order s') 1\<rparr>,
                        Inl (CriticalUnknownSession (Close sid)))
                   | Inr (a, _) \<Rightarrow>
                       let (s'', removed) = remove_queued_for_session (s'\<lparr>terminal := a\<rparr>) sid
                       in (s'', Inr \<lparr>close_critical = adm, close_superseded = removed\<rparr>)))"

definition begin_shutdown ::
  "scheduler \<Rightarrow> scheduler \<times> (critical_admission_error + shutdown_receipt)" where
  "begin_shutdown s =
     (if phase s \<noteq> Running
      then (s, Inr \<lparr>shutdown_critical = AlreadyPending, shutdown_superseded = []\<rparr>)
      else case enqueue_critical s Shutdown of
          (s', Inl e) \<Rightarrow> (s', Inl e)
        | (s', Inr adm) \<Rightarrow>
            (s'\<lparr>phase := ShuttingDown,
                terminal := fst (arb_begin_shutdown (terminal s')),
                normal := [],
                sessions := map (\<lambda>(sid, q). (sid, q\<lparr>queued := 0\<rparr>)) (sessions s')\<rparr>,
             Inr \<lparr>shutdown_critical = adm,
                  shutdown_superseded = map (\<lambda>e. work_id (request e)) (normal s')\<rparr>))"

section \<open>Dispatch\<close>

definition entry_key :: "scheduler \<Rightarrow> queued_work \<Rightarrow> scheduling_key" where
  "entry_key s e =
     for_request (request e) (enqueue_order e) (enqueue_tick e) (tick s)
       (aging_quantum_ticks (limits s)) (max_aging_steps (limits s))"

definition pick_candidate ::
  "nat \<Rightarrow> scheduling_key \<Rightarrow> nat \<Rightarrow> (nat \<times> scheduling_key \<times> nat) option
     \<Rightarrow> (nat \<times> scheduling_key \<times> nat) option" where
  "pick_candidate index key turn selected =
     (if (case selected of None \<Rightarrow> True | Some (_, current_key, _) \<Rightarrow> key < current_key)
      then Some (index, key, turn) else selected)"

fun select_normal ::
  "scheduler \<Rightarrow> nat \<Rightarrow> nat \<Rightarrow> queued_work list \<Rightarrow> (nat \<times> scheduling_key \<times> nat) option
     \<Rightarrow> scheduler_error + (nat \<times> scheduling_key \<times> nat) option" where
  "select_normal s turn_limit index [] selected = Inr selected"
| "select_normal s turn_limit index (e # es) selected =
     (case map_of (sessions s) (session_id (request e)) of
        None \<Rightarrow> Inl InvariantViolation
      | Some session \<Rightarrow>
          if last_service_turn session \<ge> turn_limit
          then select_normal s turn_limit (Suc index) es selected
          else select_normal s turn_limit (Suc index) es
                 (pick_candidate index (entry_key s e) (last_service_turn session) selected))"

fun min_of :: "nat list \<Rightarrow> nat option" where
  "min_of [] = None"
| "min_of (x # xs) = Some (fold min xs x)"

definition backlog_turns :: "scheduler \<Rightarrow> nat list" where
  "backlog_turns s =
     List.map_filter (\<lambda>e. map_option last_service_turn (map_of (sessions s) (session_id (request e))))
       (normal s)"

definition dispatch_normal :: "scheduler \<Rightarrow> scheduler \<times> (scheduler_error + scheduler_dispatch option)" where
  "dispatch_normal s =
     (case min_of (backlog_turns s) of
        None \<Rightarrow> (s, Inl InvariantViolation)
      | Some minimum \<Rightarrow>
          (case checked_add minimum (fairness_burst (limits s)) of
             None \<Rightarrow> (s, Inl CounterExhausted)
           | Some turn_limit \<Rightarrow>
               if next_service_turn s = u64_max then (s, Inl CounterExhausted)
               else (case select_normal s turn_limit 0 (normal s) None of
                       Inl err \<Rightarrow> (s, Inl err)
                     | Inr None \<Rightarrow> (s, Inl InvariantViolation)
                     | Inr (Some (index, key, session_turn)) \<Rightarrow>
                         let e = normal s ! index;
                             work = \<lparr>sw_request = request e, sw_scheduling_key = key,
                                     sw_fairness =
                                       \<lparr>minimum_last_service_turn = minimum,
                                        session_last_service_turn = session_turn,
                                        exclusive_turn_limit = turn_limit\<rparr>\<rparr>
                         in case arb_start (terminal s) work of
                              Inl _ \<Rightarrow> (s, Inl InvariantViolation)
                            | Inr a \<Rightarrow>
                                let s' = s\<lparr>terminal := a, normal := remove_at index (normal s)\<rparr> in
                                (case map_of (sessions s') (session_id (request e)) of
                                   None \<Rightarrow> (s', Inl InvariantViolation)
                                 | Some session \<Rightarrow>
                                     (case checked_sub (queued session) 1 of
                                        None \<Rightarrow> (s', Inl InvariantViolation)
                                      | Some remaining \<Rightarrow>
                                          (s'\<lparr>sessions := AList.update (session_id (request e))
                                                \<lparr>queued = remaining,
                                                 last_service_turn = next_service_turn s'\<rparr>
                                                (sessions s'),
                                              next_service_turn := next_service_turn s' + 1\<rparr>,
                                           Inr (Some (Normal work))))))))"

definition dispatch_next :: "scheduler \<Rightarrow> scheduler \<times> (scheduler_error + scheduler_dispatch option)" where
  "dispatch_next s =
     (case critical s of
        (_, event) # rest \<Rightarrow>
          let (a, d) = dispatch_critical (terminal s) event
          in (s\<lparr>critical := rest, terminal := a\<rparr>, Inr (Some (Critical d)))
      | [] \<Rightarrow>
          if phase s \<noteq> Running \<or> in_flight_len (terminal s) = in_flight_capacity (limits s) \<or>
             normal s = []
          then (s, Inr None)
          else dispatch_normal s)"

definition try_finish_shutdown :: "scheduler \<Rightarrow> scheduler \<times> bool" where
  "try_finish_shutdown s =
     (if phase s = ShuttingDown \<and> normal s = [] \<and> critical s = [] \<and>
         in_flight_len (terminal s) = 0
      then (s\<lparr>phase := Terminated\<rparr>, True)
      else (s, False))"

end
