(* ===== verification/Sched_Inv.thy ===== *)
theory Sched_Inv
  imports Sched_Queue
begin

text \<open>
  The invariant of the viewport scheduler and its preservation by every method, errors
  included; the step relation of the scheduler and its reachable states.
\<close>

section \<open>The invariant\<close>

definition queued_for :: "scheduler \<Rightarrow> session_id \<Rightarrow> queued_work list" where
  "queued_for s sid = filter (\<lambda>e. session_id (request e) = sid) (normal s)"

definition normal_ids :: "scheduler \<Rightarrow> work_id list" where
  "normal_ids s = map (\<lambda>e. work_id (request e)) (normal s)"

definition slot_of :: "queued_work \<Rightarrow> session_id \<times> replace_key" where
  "slot_of e = (session_id (request e), replace_key (request e))"

text \<open>The session registries of the queue and of the arbiter agree.\<close>

definition inv_registry :: "scheduler \<Rightarrow> bool" where
  "inv_registry s \<longleftrightarrow>
     limits_ok (limits s) \<and> arb_wf (terminal s) \<and>
     arb_limits (terminal s) =
       \<lparr>arb_max_sessions = max_sessions (limits s),
        arb_max_in_flight = in_flight_capacity (limits s)\<rparr> \<and>
     wf_map (sessions s) \<and>
     fst ` set (sessions s) = fst ` set (arb_sessions (terminal s)) \<and>
     (\<forall>sid q. map_of (sessions s) sid = Some q \<longrightarrow> last_service_turn q < next_service_turn s) \<and>
     0 < next_service_turn s \<and> next_service_turn s \<le> u64_max \<and> tick s \<le> u64_max"

text \<open>Queued work belongs to open sessions at their current generation, one entry per slot.\<close>

definition inv_queue :: "scheduler \<Rightarrow> bool" where
  "inv_queue s \<longleftrightarrow>
     (\<forall>e \<in> set (normal s).
        session_phase (terminal s) (session_id (request e)) = Some Open \<and>
        current_generation (terminal s) (session_id (request e)) = Some (generation (request e)) \<and>
        enqueue_order e < next_enqueue_order s) \<and>
     distinct (map slot_of (normal s)) \<and>
     sorted_wrt (<) (map enqueue_order (normal s)) \<and>
     next_enqueue_order s \<le> u64_max"

text \<open>The per-session counters are exact and bounded, and every open session's unused
  reservation still fits beside what is queued.\<close>

definition inv_room :: "scheduler \<Rightarrow> bool" where
  "inv_room s \<longleftrightarrow>
     (\<forall>sid q. map_of (sessions s) sid = Some q \<longrightarrow> queued q = length (queued_for s sid)) \<and>
     (\<forall>sid. length (queued_for s sid) \<le> per_session_capacity (limits s)) \<and>
     length (normal s) + unused_open_reservations s None \<le> normal_capacity (limits s)"

text \<open>Work identities are never shared or reused.\<close>

definition inv_ids :: "scheduler \<Rightarrow> bool" where
  "inv_ids s \<longleftrightarrow>
     distinct (normal_ids s) \<and>
     set (normal_ids s) \<subseteq> seen_work_ids s \<and>
     fst ` set (in_flight (terminal s)) \<subseteq> seen_work_ids s \<and>
     set (normal_ids s) \<inter> fst ` set (in_flight (terminal s)) = {} \<and>
     finite (seen_work_ids s) \<and>
     card (seen_work_ids s) \<le> max_work_ids_per_epoch (limits s)"

definition inv_critical :: "scheduler \<Rightarrow> bool" where
  "inv_critical s \<longleftrightarrow>
     length (critical s) \<le> critical_capacity (limits s) \<and>
     sorted_wrt (<) (map fst (critical s)) \<and>
     (\<forall>x \<in> set (critical s). fst x < next_critical_order s) \<and>
     next_critical_order s \<le> u64_max"

definition inv_phase :: "scheduler \<Rightarrow> bool" where
  "inv_phase s \<longleftrightarrow>
     (phase s = Running \<longleftrightarrow> \<not> shutting_down (terminal s)) \<and>
     (phase s \<noteq> Running \<longrightarrow> normal s = []) \<and>
     (phase s = Terminated \<longrightarrow> critical s = [] \<and> in_flight (terminal s) = [])"

definition sched_inv :: "scheduler \<Rightarrow> bool" where
  "sched_inv s \<longleftrightarrow>
     inv_registry s \<and> inv_queue s \<and> inv_room s \<and> inv_ids s \<and> inv_critical s \<and> inv_phase s"

lemmas inv_defs =
  sched_inv_def inv_registry_def inv_queue_def inv_room_def inv_ids_def inv_critical_def inv_phase_def

lemma sched_invD:
  assumes "sched_inv s"
  shows "inv_registry s" "inv_queue s" "inv_room s" "inv_ids s" "inv_critical s" "inv_phase s"
  using assms by (auto simp: sched_inv_def)

text \<open>Fields that the derived notions do not read.\<close>

lemma derived_frame [simp]:
  "queued_for (s\<lparr>tick := t\<rparr>) sid = queued_for s sid"
  "queued_for (s\<lparr>critical := c\<rparr>) sid = queued_for s sid"
  "queued_for (s\<lparr>next_critical_order := n\<rparr>) sid = queued_for s sid"
  "queued_for (s\<lparr>next_enqueue_order := n\<rparr>) sid = queued_for s sid"
  "queued_for (s\<lparr>next_service_turn := n\<rparr>) sid = queued_for s sid"
  "queued_for (s\<lparr>seen_work_ids := w\<rparr>) sid = queued_for s sid"
  "queued_for (s\<lparr>sessions := q\<rparr>) sid = queued_for s sid"
  "queued_for (s\<lparr>terminal := a\<rparr>) sid = queued_for s sid"
  "queued_for (s\<lparr>phase := p\<rparr>) sid = queued_for s sid"
  "normal_ids (s\<lparr>tick := t\<rparr>) = normal_ids s"
  "normal_ids (s\<lparr>critical := c\<rparr>) = normal_ids s"
  "normal_ids (s\<lparr>next_critical_order := n\<rparr>) = normal_ids s"
  "normal_ids (s\<lparr>next_enqueue_order := n\<rparr>) = normal_ids s"
  "normal_ids (s\<lparr>next_service_turn := n\<rparr>) = normal_ids s"
  "normal_ids (s\<lparr>seen_work_ids := w\<rparr>) = normal_ids s"
  "normal_ids (s\<lparr>sessions := q\<rparr>) = normal_ids s"
  "normal_ids (s\<lparr>terminal := a\<rparr>) = normal_ids s"
  "normal_ids (s\<lparr>phase := p\<rparr>) = normal_ids s"
  "unused_open_reservations (s\<lparr>tick := t\<rparr>) x = unused_open_reservations s x"
  "unused_open_reservations (s\<lparr>critical := c\<rparr>) x = unused_open_reservations s x"
  "unused_open_reservations (s\<lparr>next_critical_order := n\<rparr>) x = unused_open_reservations s x"
  "unused_open_reservations (s\<lparr>next_enqueue_order := n\<rparr>) x = unused_open_reservations s x"
  "unused_open_reservations (s\<lparr>next_service_turn := n\<rparr>) x = unused_open_reservations s x"
  "unused_open_reservations (s\<lparr>seen_work_ids := w\<rparr>) x = unused_open_reservations s x"
  "unused_open_reservations (s\<lparr>normal := l\<rparr>) x = unused_open_reservations s x"
  "unused_open_reservations (s\<lparr>phase := p\<rparr>) x = unused_open_reservations s x"
  by (simp_all add: queued_for_def normal_ids_def unused_open_reservations_def)

section \<open>Reservations\<close>

definition reserve_of :: "scheduler \<Rightarrow> session_id \<times> queue_session \<Rightarrow> nat" where
  "reserve_of s x =
     (if session_phase (terminal s) (fst x) = Some Open
      then per_session_reservation (limits s) - queued (snd x) else 0)"

lemma open_reserve_sum:
  "sum_list (map (\<lambda>(sid, q). saturating_sub (per_session_reservation (limits s)) (queued q))
     (filter (\<lambda>(sid, q). session_phase (terminal s) sid = Some Open) m)) =
   sum_list (map (reserve_of s) m)"
  by (induction m) (auto simp: reserve_of_def saturating_sub_def)

lemma unused_open_reservations_filter:
  "unused_open_reservations s ex =
     sum_list (map (reserve_of s) (filter (\<lambda>(sid, q). Some sid \<noteq> ex) (sessions s)))"
  by (simp only: unused_open_reservations_def open_reserve_sum)

lemma unused_open_reservations_eq:
  "unused_open_reservations s None = sum_list (map (reserve_of s) (sessions s))"
  by (simp add: unused_open_reservations_filter split_def)

lemma sum_without_key:
  fixes g :: "'k \<times> 'v \<Rightarrow> nat"
  assumes "map_of m k = Some v" "wf_map m"
  shows "sum_list (map g m) = sum_list (map g (filter (\<lambda>(k', v'). Some k' \<noteq> Some k) m)) + g (k, v)"
  using assms
proof (induction m)
  case (Cons a m)
  show ?case
  proof (cases "fst a = k")
    case True
    then have "filter (\<lambda>(k', v'). Some k' \<noteq> Some k) m = m"
      using Cons.prems by (auto simp: filter_id_conv image_iff split: if_splits)
    then show ?thesis using True Cons.prems by (cases a) auto
  next
    case False
    then show ?thesis using Cons by (cases a) auto
  qed
qed simp

lemma unused_open_reservations_split:
  assumes "map_of (sessions s) sid = Some q" "wf_map (sessions s)"
  shows "unused_open_reservations s None =
           unused_open_reservations s (Some sid) + reserve_of s (sid, q)"
  using sum_without_key [OF assms, of "reserve_of s"]
  by (simp add: unused_open_reservations_filter split_def)

lemma unused_others:
  assumes "sessions t = AList.update sid q' (sessions s)" "limits t = limits s"
    and "\<And>x. x \<noteq> sid \<Longrightarrow> session_phase (terminal t) x = session_phase (terminal s) x"
  shows "unused_open_reservations t (Some sid) = unused_open_reservations s (Some sid)"
proof -
  have "map (reserve_of t) (filter (\<lambda>(k, v). Some k \<noteq> Some sid) (sessions s)) =
        map (reserve_of s) (filter (\<lambda>(k, v). Some k \<noteq> Some sid) (sessions s))"
    using assms(2,3) by (auto simp: reserve_of_def)
  then show ?thesis
    unfolding unused_open_reservations_filter assms(1) filter_update_other by (rule arg_cong)
qed

lemma sum_reserve_cong:
  assumes "\<And>x. x \<in> set m \<Longrightarrow> reserve_of s x = reserve_of t x"
  shows "sum_list (map (reserve_of s) m) = sum_list (map (reserve_of t) m)"
  using assms by (induction m) auto

lemma unused_le_all_reservations:
  "unused_open_reservations s None \<le> per_session_reservation (limits s) * length (sessions s)"
proof -
  have "sum_list (map (reserve_of s) m) \<le> per_session_reservation (limits s) * length m" for m
    by (induction m) (auto simp: reserve_of_def)
  then show ?thesis by (simp add: unused_open_reservations_eq)
qed

lemma registry_lookup:
  assumes "inv_registry s"
  shows "map_of (sessions s) sid = None \<longleftrightarrow> current_generation (terminal s) sid = None"
proof -
  have "map_of (sessions s) sid = None \<longleftrightarrow> map_of (arb_sessions (terminal s)) sid = None"
    using assms by (simp add: inv_registry_def map_of_eq_None_iff)
  then show ?thesis by (simp add: views_None)
qed

lemma queue_entry:
  assumes "inv_queue s" "e \<in> set (normal s)"
  shows "session_phase (terminal s) (session_id (request e)) = Some Open"
    "current_generation (terminal s) (session_id (request e)) = Some (generation (request e))"
    "enqueue_order e < next_enqueue_order s"
  using assms by (auto simp: inv_queue_def)

lemma no_entry_of_unknown:
  assumes "inv_queue s" "current_generation (terminal s) sid = None"
  shows "queued_for s sid = []" "\<And>e. e \<in> set (normal s) \<Longrightarrow> session_id (request e) \<noteq> sid"
  using assms queue_entry by (fastforce simp: queued_for_def filter_empty_conv)+

section \<open>Preservation, one method at a time\<close>

lemma sched_inv_new: "limits_ok l \<Longrightarrow> sched_inv (scheduler_new l)"
  by (simp add: inv_defs scheduler_new_def arb_wf_new unused_open_reservations_def)
    (simp add: arbiter_new_def u64_max_def normal_ids_def queued_for_def)

lemma register_session_cases:
  obtains err where "register_session s sid gen = (s, Inl err)"
  | a where "register_session s sid gen =
        (s\<lparr>terminal := a,
           sessions := AList.update sid \<lparr>queued = 0, last_service_turn = 0\<rparr> (sessions s)\<rparr>, Inr ())"
      "phase s = Running" "map_of (sessions s) sid = None"
      "length (normal s) + unused_open_reservations s None + per_session_reservation (limits s)
         \<le> normal_capacity (limits s)"
      "arb_register_session (terminal s) sid gen = Inr a"
proof (cases "\<exists>err. register_session s sid gen = (s, Inl err)")
  case False
  then obtain a where
    "register_session s sid gen =
        (s\<lparr>terminal := a,
           sessions := AList.update sid \<lparr>queued = 0, last_service_turn = 0\<rparr> (sessions s)\<rparr>, Inr ())"
    "phase s = Running" "map_of (sessions s) sid = None"
    "length (normal s) + unused_open_reservations s None + per_session_reservation (limits s)
       \<le> normal_capacity (limits s)"
    "arb_register_session (terminal s) sid gen = Inr a"
    by (auto simp: register_session_def Let_def rust_arith split: if_splits option.splits sum.splits
        terminal_arbiter_error.splits Option.bind_splits)
  then show thesis by (rule that(2))
qed (use that(1) in blast)

lemma sched_inv_register_session:
  assumes inv: "sched_inv s"
  shows "sched_inv (fst (register_session s sid gen))"
proof (cases rule: register_session_cases [of s sid gen])
  case (2 a)
  let ?q = "\<lparr>queued = 0, last_service_turn = 0\<rparr>"
  define t where "t = s\<lparr>terminal := a, sessions := AList.update sid ?q (sessions s)\<rparr>"
  note reg = sched_invD(1) [OF inv]
  have a: "a = (terminal s)\<lparr>arb_sessions :=
      AList.update sid \<lparr>ts_generation = gen, ts_phase = Open\<rparr> (arb_sessions (terminal s))\<rparr>"
    using 2(5) by (auto simp: arb_register_session_def split: if_splits)
  have wf: "arb_wf a"
    using arb_wf_register [OF _ 2(5)] reg by (simp add: inv_registry_def)
  have nogen: "current_generation (terminal s) sid = None"
    using 2(3) registry_lookup [OF reg] by simp
  note noent = no_entry_of_unknown [OF sched_invD(2) [OF inv] nogen]
  have "inv_registry t"
    using reg wf by (auto simp: t_def inv_registry_def keys_update a)
  moreover have "inv_queue t"
    using sched_invD(2) [OF inv] noent(2) by (auto simp: t_def inv_queue_def a)
  moreover have "inv_room t"
  proof -
    have "reserve_of t x = reserve_of s x" if "x \<in> set (sessions s)" for x
      using that 2(3) by (auto simp: reserve_of_def t_def a map_of_eq_None_iff)
    then have "sum_list (map (reserve_of t) (sessions s)) = unused_open_reservations s None"
      unfolding unused_open_reservations_eq by (rule sum_reserve_cong)
    moreover have "sessions t = AList.update sid ?q (sessions s)"
      by (simp add: t_def)
    ultimately have "unused_open_reservations t None =
        unused_open_reservations s None + reserve_of t (sid, ?q)"
      unfolding unused_open_reservations_eq [of t]
      by (simp add: sum_list_update_absent [OF 2(3)])
    then show ?thesis
      using sched_invD(3) [OF inv] 2(4) noent(1)
      by (auto simp: inv_room_def t_def reserve_of_def)
  qed
  moreover have "inv_ids t"
    using sched_invD(4) [OF inv] by (simp add: t_def inv_ids_def normal_ids_def a)
  moreover have "inv_critical t"
    using sched_invD(5) [OF inv] by (simp add: t_def inv_critical_def)
  moreover have "inv_phase t"
    using sched_invD(6) [OF inv] by (simp add: t_def inv_phase_def a)
  ultimately have "sched_inv t" by (simp add: sched_inv_def)
  then show ?thesis using 2(1) by (simp add: t_def)
qed (use inv in simp)

lemma sched_inv_advance_tick: "sched_inv s \<Longrightarrow> sched_inv (fst (advance_tick s d))"
  by (auto simp: advance_tick_def inv_defs rust_arith)

subsection \<open>Removing a session's queued work\<close>

lemma remove_queued_for_session_eq:
  "remove_queued_for_session s sid =
     (s\<lparr>normal := filter (\<lambda>e. session_id (request e) \<noteq> sid) (normal s),
        sessions := (case map_of (sessions s) sid of None \<Rightarrow> sessions s
                     | Some q \<Rightarrow> AList.update sid (q\<lparr>queued := 0\<rparr>) (sessions s))\<rparr>,
      map (\<lambda>e. work_id (request e)) (queued_for s sid))"
  by (simp add: remove_queued_for_session_def queued_for_def Let_def split: option.splits)

lemma sched_inv_purge:
  assumes inv: "sched_inv s"
    and open_s: "session_phase (terminal s) sid = Some Open"
    and wf: "arb_wf a"
    and same: "arb_limits a = arb_limits (terminal s)" "in_flight a = in_flight (terminal s)"
      "shutting_down a = shutting_down (terminal s)"
      "fst ` set (arb_sessions a) = fst ` set (arb_sessions (terminal s))"
    and views: "\<And>x. x \<noteq> sid \<Longrightarrow> current_generation a x = current_generation (terminal s) x"
      "\<And>x. x \<noteq> sid \<Longrightarrow> session_phase a x = session_phase (terminal s) x"
  shows "sched_inv (fst (remove_queued_for_session (s\<lparr>terminal := a\<rparr>) sid))"
proof -
  note reg = sched_invD(1) [OF inv] and room = sched_invD(3) [OF inv]
  obtain q where q: "map_of (sessions s) sid = Some q"
    using registry_lookup [OF reg, of sid] open_s views_None(2) [of "terminal s" sid] by auto
  define t where "t = fst (remove_queued_for_session (s\<lparr>terminal := a\<rparr>) sid)"
  have t: "t = s\<lparr>terminal := a, normal := filter (\<lambda>e. session_id (request e) \<noteq> sid) (normal s),
                 sessions := AList.update sid (q\<lparr>queued := 0\<rparr>) (sessions s)\<rparr>"
    by (simp add: t_def remove_queued_for_session_eq q)
  have wfm: "wf_map (sessions s)"
    using reg by (simp add: inv_registry_def)
  have "inv_registry t"
    using reg wf same q by (auto simp: t inv_registry_def key_set_update_present [OF q])
  moreover have "inv_queue t"
  proof -
    have "sorted_wrt (<) (map enqueue_order (normal s))" "distinct (map slot_of (normal s))"
      using sched_invD(2) [OF inv] by (auto simp: inv_queue_def)
    then have "sorted_wrt (<) (map enqueue_order (normal t))" "distinct (map slot_of (normal t))"
      by (auto simp: t sorted_wrt_map sorted_wrt_filter distinct_map inj_on_def)
    then show ?thesis
      using sched_invD(2) [OF inv] views by (auto simp: inv_queue_def t)
  qed
  moreover have "inv_room t"
  proof -
    have qf: "queued_for t x = (if x = sid then [] else queued_for s x)" for x
      by (auto simp: t queued_for_def filter_empty_conv intro!: filter_cong)
    have others: "unused_open_reservations t (Some sid) = unused_open_reservations s (Some sid)"
      by (rule unused_others) (auto simp: t views)
    have split_s: "unused_open_reservations s None =
        unused_open_reservations s (Some sid) + (per_session_reservation (limits s) - queued q)"
      using unused_open_reservations_split [OF q wfm] open_s by (simp add: reserve_of_def)
    have "map_of (sessions t) sid = Some (q\<lparr>queued := 0\<rparr>)" "wf_map (sessions t)"
      using wfm by (simp_all add: t)
    then have split_t: "unused_open_reservations t None \<le>
        unused_open_reservations s (Some sid) + per_session_reservation (limits s)"
      using unused_open_reservations_split [of t sid] others by (auto simp: reserve_of_def t)
    have "length (normal s) = length (queued_for s sid) + length (normal t)"
      using sum_length_filter_compl [of "\<lambda>e. session_id (request e) = sid" "normal s"]
      by (simp add: t queued_for_def)
    moreover have "queued q = length (queued_for s sid)"
      using room q by (simp add: inv_room_def)
    ultimately have "length (normal t) + unused_open_reservations t None \<le> normal_capacity (limits s)"
      using room split_s split_t unfolding inv_room_def by linarith
    then show ?thesis
      using room qf by (auto simp: inv_room_def t)
  qed
  moreover have "inv_ids t"
    using sched_invD(4) [OF inv] same(2)
    by (auto simp: inv_ids_def t normal_ids_def intro: distinct_map_filter)
  moreover have "inv_critical t"
    using sched_invD(5) [OF inv] by (simp add: t inv_critical_def)
  moreover have "inv_phase t"
    using sched_invD(6) [OF inv] same by (auto simp: t inv_phase_def)
  ultimately show ?thesis by (simp add: sched_inv_def t_def)
qed

lemma sched_inv_advance_generation:
  assumes inv: "sched_inv s"
  shows "sched_inv (fst (advance_generation s sid gen))"
proof (cases "\<exists>err. snd (advance_generation s sid gen) = Inl err")
  case True
  then have "fst (advance_generation s sid gen) = s"
    by (auto simp: advance_generation_def split_def Let_def split: if_splits option.splits sum.splits)
  then show ?thesis using inv by simp
next
  case False
  then obtain a g where
    res: "fst (advance_generation s sid gen) = fst (remove_queued_for_session (s\<lparr>terminal := a\<rparr>) sid)"
    and op: "session_phase (terminal s) sid = Some Open"
    and adv: "arb_advance_generation (terminal s) sid gen = Inr (a, g)"
    by (auto simp: advance_generation_def split_def Let_def split: if_splits option.splits sum.splits)
  obtain st where st: "map_of (arb_sessions (terminal s)) sid = Some st"
    and a: "a = (terminal s)\<lparr>arb_sessions :=
      AList.update sid (st\<lparr>ts_generation := gen\<rparr>) (arb_sessions (terminal s))\<rparr>"
    using adv by (auto simp: arb_advance_generation_def split: option.splits if_splits)
  have "arb_wf a"
    using arb_wf_advance [OF _ adv] sched_invD(1) [OF inv] by (simp add: inv_registry_def)
  then show ?thesis
    unfolding res
    by (rule sched_inv_purge [OF inv op])
      (use st in \<open>auto simp: a key_set_update_present [OF st]\<close>)
qed

subsection \<open>Admission\<close>

lemma reserve_work_idD:
  assumes "reserve_work_id s w = Inr s'"
  shows "w \<notin> seen_work_ids s" "card (seen_work_ids s) \<noteq> max_work_ids_per_epoch (limits s)"
    "s' = s\<lparr>seen_work_ids := insert w (seen_work_ids s)\<rparr>"
  using assms by (auto simp: reserve_work_id_def split: if_splits)

text \<open>The entry that coalescing writes, and the two ways it can succeed.\<close>

definition replaced_at :: "scheduler \<Rightarrow> nat \<Rightarrow> work_request \<Rightarrow> queued_work list" where
  "replaced_at s i req = (normal s)[i := (normal s ! i)\<lparr>request := req\<rparr>]"

lemma coalesce_cases:
  obtains err where "coalesce s i req adv = (s, Inl err)"
  | "work_id req = work_id (request (normal s ! i))"
    "coalesce s i req adv = (s\<lparr>normal := replaced_at s i req\<rparr>,
       Inr (Coalesced (work_id req) (work_id req) adv))"
  | "work_id req \<notin> seen_work_ids s" "card (seen_work_ids s) \<noteq> max_work_ids_per_epoch (limits s)"
    "coalesce s i req adv =
       (s\<lparr>seen_work_ids := insert (work_id req) (seen_work_ids s), normal := replaced_at s i req\<rparr>,
        Inr (Coalesced (work_id (request (normal s ! i))) (work_id req) adv))"
proof (cases "work_id req = work_id (request (normal s ! i))")
  case True
  then show thesis by (intro that(2)) (auto simp: coalesce_def replaced_at_def Let_def)
next
  case False
  show thesis
  proof (cases "reserve_work_id s (work_id req)")
    case (Inl e)
    with False show thesis by (intro that(1) [of e]) (auto simp: coalesce_def Let_def)
  next
    case (Inr s')
    with False reserve_work_idD [OF Inr] show thesis
      by (intro that(3)) (auto simp: coalesce_def replaced_at_def)
  qed
qed

lemma map_list_update_same: "f y = f (xs ! i) \<Longrightarrow> map f (xs[i := y]) = map f xs"
  by (metis list_update_beyond list_update_id linorder_not_less map_update)

lemma replaced_at_facts:
  assumes i: "i < length (normal s)" and slot: "same_slot req (normal s ! i)"
  shows "map slot_of (replaced_at s i req) = map slot_of (normal s)"
    "map enqueue_order (replaced_at s i req) = map enqueue_order (normal s)"
    "length (filter (\<lambda>e. session_id (request e) = x) (replaced_at s i req)) =
       length (filter (\<lambda>e. session_id (request e) = x) (normal s))"
    "e \<in> set (replaced_at s i req) \<Longrightarrow>
       e = (normal s ! i)\<lparr>request := req\<rparr> \<or> e \<in> set (normal s)"
    "map (\<lambda>e. work_id (request e)) (replaced_at s i req) = (normal_ids s)[i := work_id req]"
    "length (replaced_at s i req) = length (normal s)"
proof -
  have sid: "session_id (request (normal s ! i)) = session_id req"
      "replace_key (request (normal s ! i)) = replace_key req"
    using slot by (auto simp: same_slot_def)
  show "map slot_of (replaced_at s i req) = map slot_of (normal s)"
    "map enqueue_order (replaced_at s i req) = map enqueue_order (normal s)"
    using sid by (auto intro!: map_list_update_same simp: slot_of_def replaced_at_def)
  have "map (\<lambda>e. session_id (request e)) (replaced_at s i req) =
        map (\<lambda>e. session_id (request e)) (normal s)"
    using sid by (auto intro!: map_list_update_same simp: replaced_at_def)
  then show "length (filter (\<lambda>e. session_id (request e) = x) (replaced_at s i req)) =
       length (filter (\<lambda>e. session_id (request e) = x) (normal s))"
    by (metis (mono_tags, lifting) comp_def filter_cong filter_map length_map)
  show "e \<in> set (replaced_at s i req) \<Longrightarrow>
       e = (normal s ! i)\<lparr>request := req\<rparr> \<or> e \<in> set (normal s)"
    unfolding replaced_at_def by (meson insert_iff set_update_subset_insert subset_iff)
  show "map (\<lambda>e. work_id (request e)) (replaced_at s i req) = (normal_ids s)[i := work_id req]"
    by (simp add: normal_ids_def map_update replaced_at_def)
qed (simp add: replaced_at_def)

lemma sched_inv_replace:
  assumes inv: "sched_inv s" and i: "i < length (normal s)" and slot: "same_slot req (normal s ! i)"
    and ids: "inv_ids (s\<lparr>seen_work_ids := w, normal := replaced_at s i req\<rparr>)"
  shows "sched_inv (s\<lparr>seen_work_ids := w, normal := replaced_at s i req\<rparr>)"
proof -
  note facts = replaced_at_facts [OF i slot]
  have e: "normal s ! i \<in> set (normal s)" using i by simp
  have sid: "session_id (request (normal s ! i)) = session_id req"
      "generation (request (normal s ! i)) = generation req"
    using slot by (auto simp: same_slot_def)
  have "inv_queue (s\<lparr>seen_work_ids := w, normal := replaced_at s i req\<rparr>)"
    using sched_invD(2) [OF inv] e sid facts(1,2)
    by (fastforce simp: inv_queue_def dest: facts(4))
  moreover have "inv_room (s\<lparr>seen_work_ids := w, normal := replaced_at s i req\<rparr>)"
    using sched_invD(3) [OF inv] by (auto simp: inv_room_def queued_for_def facts)
  moreover have "inv_phase (s\<lparr>seen_work_ids := w, normal := replaced_at s i req\<rparr>)"
    using sched_invD(6) [OF inv] i by (auto simp: inv_phase_def)
  ultimately show ?thesis
    using sched_invD(1,5) [OF inv] ids
    by (simp add: sched_inv_def inv_registry_def inv_critical_def)
qed

lemma inv_ids_fresh:
  assumes old: "inv_ids s"
    and fresh: "w \<notin> seen_work_ids s" "card (seen_work_ids s) \<noteq> max_work_ids_per_epoch (limits s)"
    and new: "distinct (normal_ids t)" "set (normal_ids t) \<subseteq> insert w (set (normal_ids s))"
      "seen_work_ids t = insert w (seen_work_ids s)" "limits t = limits s"
      "in_flight (terminal t) = in_flight (terminal s)"
  shows "inv_ids t"
proof -
  have ids: "set (normal_ids s) \<subseteq> seen_work_ids s" "fst ` set (in_flight (terminal s)) \<subseteq> seen_work_ids s"
      "set (normal_ids s) \<inter> fst ` set (in_flight (terminal s)) = {}"
    using old by (auto simp: inv_ids_def)
  have "set (normal_ids t) \<inter> fst ` set (in_flight (terminal t)) = {}"
    using ids fresh(1) new(2) unfolding new(5) by blast
  moreover have "set (normal_ids t) \<subseteq> seen_work_ids t"
    using ids(1) new(2) unfolding new(3) by blast
  moreover have "card (seen_work_ids t) \<le> max_work_ids_per_epoch (limits t)" "finite (seen_work_ids t)"
    using old fresh unfolding new(3,4) by (auto simp: inv_ids_def)
  ultimately show ?thesis
    using ids(2) new(1) by (auto simp: inv_ids_def new(3,5))
qed

lemma sched_inv_coalesce:
  assumes inv: "sched_inv s" and i: "i < length (normal s)" and slot: "same_slot req (normal s ! i)"
  shows "sched_inv (fst (coalesce s i req adv))"
proof (cases rule: coalesce_cases [of s i req adv])
  case 2
  then have "normal_ids s ! i = work_id req"
    using i by (simp add: normal_ids_def)
  then have "(normal_ids s)[i := work_id req] = normal_ids s"
    by (metis list_update_id)
  then have "normal_ids (s\<lparr>normal := replaced_at s i req\<rparr>) = normal_ids s"
    using replaced_at_facts(5) [OF i slot] by (simp add: normal_ids_def)
  then have "inv_ids (s\<lparr>seen_work_ids := seen_work_ids s, normal := replaced_at s i req\<rparr>)"
    using sched_invD(4) [OF inv] by (simp add: inv_ids_def)
  then show ?thesis
    using sched_inv_replace [OF inv i slot, of "seen_work_ids s"] 2 by simp
next
  case 3
  let ?t = "s\<lparr>seen_work_ids := insert (work_id req) (seen_work_ids s), normal := replaced_at s i req\<rparr>"
  have ids: "normal_ids ?t = (normal_ids s)[i := work_id req]"
    using replaced_at_facts(5) [OF i slot] by (simp add: normal_ids_def)
  have "distinct ((normal_ids s)[i := work_id req])"
    using sched_invD(4) [OF inv] 3(1) by (auto simp: inv_ids_def intro!: distinct_list_update)
  then have "inv_ids ?t"
    by (intro inv_ids_fresh [OF sched_invD(4) [OF inv] 3(1,2)])
      (auto simp: ids set_update_subset_insert simp del: derived_frame)
  then show ?thesis
    using sched_inv_replace [OF inv i slot] 3(3) by simp
qed (use inv in simp)

lemma enqueue_new_cases:
  obtains err where "enqueue_new s req adv = (s, Inl err)"
  | q where "enqueue_new s req adv =
       (s\<lparr>seen_work_ids := insert (work_id req) (seen_work_ids s),
          sessions := AList.update (session_id req) (q\<lparr>queued := queued q + 1\<rparr>) (sessions s),
          next_enqueue_order := next_enqueue_order s + 1,
          normal := normal s @ [\<lparr>request = req, enqueue_order = next_enqueue_order s,
                                 enqueue_tick = tick s\<rparr>]\<rparr>, Inr (Enqueued adv))"
      "work_id req \<notin> seen_work_ids s" "map_of (sessions s) (session_id req) = Some q"
      "queued q \<noteq> per_session_capacity (limits s)"
      "length (normal s) + 1 + unused_open_reservations s (Some (session_id req))
         \<le> normal_capacity (limits s)"
      "next_enqueue_order s \<noteq> u64_max"
      "card (seen_work_ids s) \<noteq> max_work_ids_per_epoch (limits s)"
proof (cases "\<exists>err. enqueue_new s req adv = (s, Inl err)")
  case False
  then show thesis
    by (intro that(2) [of "the (map_of (sessions s) (session_id req))"])
      (auto simp: enqueue_new_def Let_def rust_arith reserve_work_id_def
        split: if_splits option.splits sum.splits Option.bind_splits)
qed (use that(1) in blast)

lemma sched_inv_enqueue_new:
  assumes inv: "sched_inv s"
    and op: "session_phase (terminal s) (session_id req) = Some Open"
    and gen: "current_generation (terminal s) (session_id req) = Some (generation req)"
    and free: "position (same_slot req) (normal s) = None"
  shows "sched_inv (fst (enqueue_new s req adv))"
proof (cases rule: enqueue_new_cases [of s req adv])
  case (2 q)
  let ?sid = "session_id req"
  let ?e = "\<lparr>request = req, enqueue_order = next_enqueue_order s, enqueue_tick = tick s\<rparr>"
  define t where "t = fst (enqueue_new s req adv)"
  have t: "t = s\<lparr>seen_work_ids := insert (work_id req) (seen_work_ids s),
          sessions := AList.update ?sid (q\<lparr>queued := queued q + 1\<rparr>) (sessions s),
          next_enqueue_order := next_enqueue_order s + 1, normal := normal s @ [?e]\<rparr>"
    by (simp add: t_def 2(1))
  note reg = sched_invD(1) [OF inv] and que = sched_invD(2) [OF inv]
    and room = sched_invD(3) [OF inv] and ids = sched_invD(4) [OF inv]
  have wfm: "wf_map (sessions s)"
    using reg by (simp add: inv_registry_def)
  have "inv_registry t"
    using reg 2(3) by (auto simp: t inv_registry_def key_set_update_present [OF 2(3)])
  moreover have "inv_queue t"
  proof -
    have "slot_of ?e \<notin> slot_of ` set (normal s)"
      using free gen queue_entry(2) [OF que]
      by (fastforce simp: slot_of_def position_None_iff same_slot_def)
    then show ?thesis
      using que op gen 2(6) by (fastforce simp: inv_queue_def t sorted_wrt_append)
  qed
  moreover have "inv_room t"
  proof -
    have qf: "length (queued_for t x) = length (queued_for s x) + (if x = ?sid then 1 else 0)" for x
      by (simp add: t queued_for_def)
    have others: "unused_open_reservations t (Some ?sid) = unused_open_reservations s (Some ?sid)"
      by (rule unused_others) (auto simp: t)
    have "map_of (sessions t) ?sid = Some (q\<lparr>queued := queued q + 1\<rparr>)" "wf_map (sessions t)"
      using wfm by (simp_all add: t)
    then have "unused_open_reservations t None =
        unused_open_reservations s (Some ?sid) +
        (per_session_reservation (limits s) - (queued q + 1))"
      using unused_open_reservations_split [of t ?sid] others op by (simp add: reserve_of_def t)
    moreover have "unused_open_reservations s None =
        unused_open_reservations s (Some ?sid) + (per_session_reservation (limits s) - queued q)"
      using unused_open_reservations_split [OF 2(3) wfm] op by (simp add: reserve_of_def)
    moreover have "length (normal t) = length (normal s) + 1"
      by (simp add: t)
    ultimately have cap: "length (normal t) + unused_open_reservations t None \<le> normal_capacity (limits s)"
      using 2(5) room unfolding inv_room_def by linarith
    have "queued q < per_session_capacity (limits s)"
      using 2(3,4) room by (auto simp: inv_room_def order.order_iff_strict)
    then show ?thesis
      using cap room 2(3) qf by (auto simp: inv_room_def t)
  qed
  moreover have "inv_ids t"
    by (rule inv_ids_fresh [OF ids 2(2,7)])
      (use ids 2(2) in \<open>auto simp: inv_ids_def t normal_ids_def\<close>)
  moreover have "inv_critical t"
    using sched_invD(5) [OF inv] by (simp add: t inv_critical_def)
  moreover have "inv_phase t"
  proof -
    have "\<not> shutting_down (terminal s)"
      using op reg arb_wfD(7) by (auto simp: inv_registry_def)
    then show ?thesis using sched_invD(6) [OF inv] by (simp add: t inv_phase_def)
  qed
  ultimately show ?thesis by (simp add: sched_inv_def t_def)
qed (use inv in simp)

lemma sched_inv_admit:
  assumes inv: "sched_inv s"
    and "session_phase (terminal s) (session_id req) = Some Open"
    and "current_generation (terminal s) (session_id req) = Some (generation req)"
  shows "sched_inv (fst (admit s req adv))"
  using assms sched_inv_coalesce [OF inv] sched_inv_enqueue_new [OF inv]
  by (auto simp: admit_def split: option.splits dest: position_SomeD)

text \<open>What a successful generation change does to the registry.\<close>

lemma advance_generation_success:
  assumes "advance_generation s sid gen = (s', Inr adv)"
  shows "phase s = Running" "session_phase (terminal s) sid = Some Open"
    "current_generation (terminal s') = (current_generation (terminal s))(sid \<mapsto> gen)"
    "session_phase (terminal s') = session_phase (terminal s)"
    "normal s' = filter (\<lambda>e. session_id (request e) \<noteq> sid) (normal s)"
    "superseded_queued adv = map (\<lambda>e. work_id (request e)) (queued_for s sid)"
    "in_flight (terminal s') = in_flight (terminal s)"
    "seen_work_ids s' = seen_work_ids s" "limits s' = limits s"
    "critical s' = critical s"
proof -
  obtain a g where op: "session_phase (terminal s) sid = Some Open" "phase s = Running"
    and adv: "arb_advance_generation (terminal s) sid gen = Inr (a, g)"
    and res: "(s', superseded_queued adv) = remove_queued_for_session (s\<lparr>terminal := a\<rparr>) sid"
    using assms
    by (auto simp: advance_generation_def split_def Let_def split: if_splits option.splits sum.splits)
  obtain st where st: "map_of (arb_sessions (terminal s)) sid = Some st"
    and a: "a = (terminal s)\<lparr>arb_sessions :=
      AList.update sid (st\<lparr>ts_generation := gen\<rparr>) (arb_sessions (terminal s))\<rparr>"
    using adv by (auto simp: arb_advance_generation_def split: option.splits if_splits)
  have "session_phase a = session_phase (terminal s)"
    using views_lookup(2) [OF st] by (auto simp: a fun_eq_iff)
  then show "phase s = Running" "session_phase (terminal s) sid = Some Open"
    "current_generation (terminal s') = (current_generation (terminal s))(sid \<mapsto> gen)"
    "session_phase (terminal s') = session_phase (terminal s)"
    "normal s' = filter (\<lambda>e. session_id (request e) \<noteq> sid) (normal s)"
    "superseded_queued adv = map (\<lambda>e. work_id (request e)) (queued_for s sid)"
    "in_flight (terminal s') = in_flight (terminal s)"
    "seen_work_ids s' = seen_work_ids s" "limits s' = limits s"
    "critical s' = critical s"
    using res op by (auto simp: remove_queued_for_session_eq a)
qed

lemma sched_inv_submit:
  assumes inv: "sched_inv s"
  shows "sched_inv (fst (submit s req))"
proof -
  have adv: "sched_inv s'" if "advance_generation s sid g = (s', r)" for s' sid g r
    using sched_inv_advance_generation [OF inv, of sid g] that by simp
  show ?thesis
    using inv adv
    by (auto simp: submit_def split: option.splits prod.splits sum.splits
        intro!: sched_inv_admit dest: advance_generation_success)
qed

subsection \<open>Critical admission, close and shutdown\<close>

lemma enqueue_critical_cases:
  obtains err where "enqueue_critical s ev = (s, Inl err)"
  | "enqueue_critical s ev =
       (s\<lparr>next_critical_order := next_critical_order s + 1,
          critical := critical s @ [(next_critical_order s, ev)]\<rparr>,
        Inr (CriticalEnqueued (next_critical_order s)))"
    "phase s \<noteq> Terminated" "length (critical s) \<noteq> critical_capacity (limits s)"
    "next_critical_order s \<noteq> u64_max"
    "\<And>sid. ingress_session_id ev = Some sid \<Longrightarrow> map_of (sessions s) sid \<noteq> None"
  by (cases "\<exists>err. enqueue_critical s ev = (s, Inl err)")
    (auto simp: enqueue_critical_def split: if_splits option.splits)

lemma sched_inv_enqueue_critical:
  assumes inv: "sched_inv s"
  shows "sched_inv (fst (enqueue_critical s ev))"
proof (cases rule: enqueue_critical_cases [of s ev])
  case 2
  let ?t = "s\<lparr>next_critical_order := next_critical_order s + 1,
              critical := critical s @ [(next_critical_order s, ev)]\<rparr>"
  have "inv_critical ?t"
    using sched_invD(5) [OF inv] 2(3,4) by (fastforce simp: inv_critical_def sorted_wrt_append)
  moreover have "inv_registry ?t" "inv_queue ?t" "inv_room ?t" "inv_ids ?t" "inv_phase ?t"
    using sched_invD [OF inv] 2(2)
    by (simp_all add: inv_registry_def inv_queue_def inv_room_def inv_ids_def inv_phase_def)
  ultimately show ?thesis
    using 2(1) by (simp add: sched_inv_def)
qed (use inv in simp)

lemma close_session_cases:
  obtains r where "close_session s sid = (s, r)"
  | a b where "fst (close_session s sid) =
       fst (remove_queued_for_session ((fst (enqueue_critical s (Close sid)))\<lparr>terminal := a\<rparr>) sid)"
      "session_phase (terminal s) sid = Some Open" "arb_begin_close (terminal s) sid = Inr (a, b)"
      "\<exists>adm. snd (enqueue_critical s (Close sid)) = Inr adm"
      "snd (close_session s sid) = Inr \<lparr>close_critical = CriticalEnqueued (next_critical_order s),
         close_superseded = map (\<lambda>e. work_id (request e)) (queued_for s sid)\<rparr>"
proof (cases "\<exists>r. close_session s sid = (s, r)")
  case False
  then have op: "session_phase (terminal s) sid = Some Open" and ph: "phase s \<noteq> Terminated"
    by (auto simp: close_session_def split: if_splits option.splits)
      (metis terminal_session_phase.exhaust)
  show thesis
  proof (cases rule: enqueue_critical_cases [of s "Close sid"])
    case (1 err)
    then show thesis using False op ph by (simp add: close_session_def)
  next
    case 2
    obtain a b where ab: "arb_begin_close (terminal s) sid = Inr (a, b)"
      using op by (auto simp: arb_begin_close_def session_phase_def split: option.splits)
    then show thesis
      using 2(1) op ph
      by (intro that(2) [of a b])
        (auto simp: close_session_def split_def Let_def remove_queued_for_session_eq
          split: option.splits)
  qed
qed (use that(1) in blast)

lemma sched_inv_close_session:
  assumes inv: "sched_inv s"
  shows "sched_inv (fst (close_session s sid))"
proof (cases rule: close_session_cases [of s sid])
  case (2 a b)
  let ?u = "fst (enqueue_critical s (Close sid))"
  have u: "sched_inv ?u" "terminal ?u = terminal s"
    using sched_inv_enqueue_critical [OF inv] by (auto simp: enqueue_critical_def)
  have wf: "arb_wf a"
    using arb_wf_begin_close [OF _ 2(3)] sched_invD(1) [OF inv] by (simp add: inv_registry_def)
  obtain st where st: "map_of (arb_sessions (terminal s)) sid = Some st"
    and a: "a = (terminal s)\<lparr>arb_sessions :=
      AList.update sid (st\<lparr>ts_phase := Closing\<rparr>) (arb_sessions (terminal s))\<rparr>"
    using 2(2,3) by (auto simp: arb_begin_close_def session_phase_def split: option.splits if_splits)
  show ?thesis
    unfolding 2(1)
    by (rule sched_inv_purge [OF u(1)])
      (use st wf 2(2) u(2) in \<open>auto simp: a key_set_update_present [OF st]\<close>)
qed (use inv in simp)

lemma begin_shutdown_cases:
  obtains r where "begin_shutdown s = (s, r)"
  | "phase s = Running" "length (critical s) \<noteq> critical_capacity (limits s)"
    "next_critical_order s \<noteq> u64_max"
    "begin_shutdown s =
       (s\<lparr>next_critical_order := next_critical_order s + 1,
          critical := critical s @ [(next_critical_order s, Shutdown)],
          phase := ShuttingDown, terminal := fst (arb_begin_shutdown (terminal s)), normal := [],
          sessions := map (\<lambda>(sid, q). (sid, q\<lparr>queued := 0\<rparr>)) (sessions s)\<rparr>,
        Inr \<lparr>shutdown_critical = CriticalEnqueued (next_critical_order s),
             shutdown_superseded = map (\<lambda>e. work_id (request e)) (normal s)\<rparr>)"
  by (cases rule: enqueue_critical_cases [of s Shutdown]; cases "phase s = Running")
    (auto simp: begin_shutdown_def)

lemma sched_inv_begin_shutdown:
  assumes inv: "sched_inv s"
  shows "sched_inv (fst (begin_shutdown s))"
proof (cases rule: begin_shutdown_cases [of s])
  case 2
  define t where "t = fst (begin_shutdown s)"
  have t: "t = s\<lparr>next_critical_order := next_critical_order s + 1,
          critical := critical s @ [(next_critical_order s, Shutdown)],
          phase := ShuttingDown, terminal := fst (arb_begin_shutdown (terminal s)), normal := [],
          sessions := map (\<lambda>(sid, q). (sid, q\<lparr>queued := 0\<rparr>)) (sessions s)\<rparr>"
    by (simp add: t_def 2(4))
  have run: "\<not> shutting_down (terminal s)"
    using sched_invD(6) [OF inv] 2(1) by (simp add: inv_phase_def)
  have wf: "arb_wf (fst (arb_begin_shutdown (terminal s)))"
    using arb_wf_begin_shutdown sched_invD(1) [OF inv] by (simp add: inv_registry_def)
  have arb: "arb_limits (terminal t) = arb_limits (terminal s)"
      "in_flight (terminal t) = in_flight (terminal s)" "shutting_down (terminal t)"
      "fst ` set (arb_sessions (terminal t)) = fst ` set (arb_sessions (terminal s))"
    using run by (auto simp: t arb_begin_shutdown_def rev_image_eqI image_image split_def)
  have keys: "map fst (sessions t) = map fst (sessions s)"
    by (auto simp: t)
  have "inv_registry t"
  proof -
    have "fst ` set (sessions t) = fst ` set (arb_sessions (terminal t))" "wf_map (sessions t)"
      using keys arb(4) sched_invD(1) [OF inv] unfolding inv_registry_def
      by (metis list.set_map, metis)
    then show ?thesis
      using sched_invD(1) [OF inv] wf arb
      by (auto simp: inv_registry_def t map_of_map_values)
  qed
  moreover have "inv_room t"
  proof -
    have "session_phase (terminal t) x \<noteq> Some Open" for x
      using views_begin_shutdown(2) [OF run, of x] by (auto simp: t)
    then have "reserve_of t x = 0" for x
      by (simp add: reserve_of_def)
    then have "unused_open_reservations t None = 0"
      by (simp add: unused_open_reservations_eq)
    then show ?thesis
      by (auto simp: inv_room_def t queued_for_def map_of_map_values)
  qed
  moreover have "inv_critical t"
    using sched_invD(5) [OF inv] 2(2,3) by (fastforce simp: t inv_critical_def sorted_wrt_append)
  moreover have "inv_queue t" "inv_ids t" "inv_phase t"
    using sched_invD(2,4) [OF inv] arb
    by (auto simp: t inv_queue_def inv_ids_def inv_phase_def normal_ids_def)
  ultimately show ?thesis by (simp add: sched_inv_def t_def)
qed (use inv in simp)

lemma sched_inv_try_finish_shutdown: "sched_inv s \<Longrightarrow> sched_inv (fst (try_finish_shutdown s))"
  by (auto simp: try_finish_shutdown_def inv_defs in_flight_len_def)

section \<open>Selection\<close>

definition eligible :: "scheduler \<Rightarrow> nat \<Rightarrow> queued_work \<Rightarrow> bool" where
  "eligible s turn_limit e \<longleftrightarrow>
     (\<exists>q. map_of (sessions s) (session_id (request e)) = Some q \<and> last_service_turn q < turn_limit)"

lemma pick_candidate_Some [simp]: "pick_candidate i k t sel \<noteq> None"
  by (auto simp: pick_candidate_def split: option.splits)

lemma select_normal_total:
  assumes "\<And>e. e \<in> set es \<Longrightarrow> map_of (sessions s) (session_id (request e)) \<noteq> None"
    "sel \<noteq> None \<or> (\<exists>e \<in> set es. eligible s lim e)"
  shows "\<exists>r. select_normal s lim i es sel = Inr (Some r)"
  using assms
proof (induction es arbitrary: i sel)
  case (Cons e es)
  obtain q where q: "map_of (sessions s) (session_id (request e)) = Some q"
    using Cons.prems(1) [of e] by auto
  show ?case
  proof (cases "last_service_turn q < lim")
    case True
    then show ?thesis
      using q Cons.prems(1) Cons.IH [of "pick_candidate i (entry_key s e) (last_service_turn q) sel" "Suc i"]
      by simp
  next
    case False
    then have "\<not> eligible s lim e" using q by (simp add: eligible_def)
    then show ?thesis
      using q False Cons.prems Cons.IH [of sel "Suc i"] by simp
  qed
qed auto

lemma select_normal_sound:
  assumes "select_normal s lim i es sel = Inr (Some (j, k, t))"
  shows "sel = Some (j, k, t) \<or>
     (i \<le> j \<and> j < i + length es \<and> k = entry_key s (es ! (j - i)) \<and>
      (\<exists>q. map_of (sessions s) (session_id (request (es ! (j - i)))) = Some q \<and>
           last_service_turn q = t \<and> t < lim))"
  using assms
proof (induction es arbitrary: i sel)
  case (Cons e es)
  obtain q where q: "map_of (sessions s) (session_id (request e)) = Some q"
    using Cons.prems by (auto split: option.splits)
  have shift: "(e # es) ! (j - i) = es ! (j - Suc i)" if "Suc i \<le> j"
    using that by (simp add: nth_Cons' Suc_diff_Suc)
  show ?case
  proof (cases "last_service_turn q < lim")
    case True
    define sel' where "sel' = pick_candidate i (entry_key s e) (last_service_turn q) sel"
    have "select_normal s lim (Suc i) es sel' = Inr (Some (j, k, t))"
      using Cons.prems q True by (simp add: sel'_def)
    note IH = Cons.IH [OF this]
    show ?thesis
    proof (cases "sel' = Some (j, k, t)")
      case sel: True
      then show ?thesis
        using q True by (auto simp: sel'_def pick_candidate_def split: if_splits)
    next
      case False
      then show ?thesis using IH shift by auto
    qed
  next
    case False
    then have "select_normal s lim (Suc i) es sel = Inr (Some (j, k, t))"
      using Cons.prems q by simp
    from Cons.IH [OF this] show ?thesis using shift by auto
  qed
qed simp

lemma select_normal_minimal:
  assumes "select_normal s lim i es sel = Inr (Some (j, k, t))"
  shows "(\<forall>e \<in> set es. eligible s lim e \<longrightarrow> k \<le> entry_key s e) \<and>
     (\<forall>j' k' t'. sel = Some (j', k', t') \<longrightarrow> k \<le> k')"
  using assms
proof (induction es arbitrary: i sel)
  case (Cons e es)
  obtain q where q: "map_of (sessions s) (session_id (request e)) = Some q"
    using Cons.prems by (auto split: option.splits)
  show ?case
  proof (cases "last_service_turn q < lim")
    case True
    define sel' where "sel' = pick_candidate i (entry_key s e) (last_service_turn q) sel"
    have "select_normal s lim (Suc i) es sel' = Inr (Some (j, k, t))"
      using Cons.prems q True by (simp add: sel'_def)
    note IH = Cons.IH [OF this]
    have "k \<le> entry_key s e" "sel = Some (j', k', t') \<Longrightarrow> k \<le> k'" for j' k' t'
      using IH by (auto simp: sel'_def pick_candidate_def split: if_splits option.splits)
    then show ?thesis using IH by auto
  next
    case False
    then have "select_normal s lim (Suc i) es sel = Inr (Some (j, k, t))" "\<not> eligible s lim e"
      using Cons.prems q by (auto simp: eligible_def)
    then show ?thesis using Cons.IH by fastforce
  qed
qed auto

lemma min_of_Some: "min_of xs = Some m \<Longrightarrow> m \<in> set xs \<and> (\<forall>x \<in> set xs. m \<le> x)"
proof (cases xs)
  case (Cons x xs')
  have "fold min ys y \<in> insert y (set ys) \<and> (\<forall>z \<in> insert y (set ys). fold min ys y \<le> z)"
    for y :: nat and ys
    by (induction ys arbitrary: y) (auto simp: min_def, (meson order_trans linorder_le_cases)+)
  then show "min_of xs = Some m \<Longrightarrow> ?thesis"
    using Cons by auto
qed simp

lemma backlog_turns_set:
  "set (backlog_turns s) =
     {last_service_turn q | q e. e \<in> set (normal s) \<and>
        map_of (sessions s) (session_id (request e)) = Some q}"
  by (force simp: backlog_turns_def map_filter_def)

section \<open>Dispatch\<close>

text \<open>
  The state after entry \<open>i\<close> was handed to the arbiter, and the two outcomes of \<open>dispatch_normal\<close>
  in a state that satisfies the invariant: it never reports an invariant violation.
\<close>

definition started :: "scheduler \<Rightarrow> nat \<Rightarrow> terminal_arbiter \<Rightarrow> queue_session \<Rightarrow> scheduler" where
  "started s i a q =
     s\<lparr>terminal := a, normal := remove_at i (normal s),
       sessions := AList.update (session_id (request (normal s ! i)))
         \<lparr>queued = queued q - 1, last_service_turn = next_service_turn s\<rparr> (sessions s),
       next_service_turn := next_service_turn s + 1\<rparr>"

lemma entry_registered:
  assumes "sched_inv s" "e \<in> set (normal s)"
  shows "\<exists>q. map_of (sessions s) (session_id (request e)) = Some q \<and>
           queued q = length (queued_for s (session_id (request e))) \<and> 0 < queued q"
proof -
  have "current_generation (terminal s) (session_id (request e)) \<noteq> None"
    using queue_entry(2) [OF sched_invD(2) [OF assms(1)] assms(2)] by simp
  then obtain q where q: "map_of (sessions s) (session_id (request e)) = Some q"
    using registry_lookup [OF sched_invD(1) [OF assms(1)], of "session_id (request e)"] by auto
  have "queued q = length (queued_for s (session_id (request e)))"
    using q sched_invD(3) [OF assms(1)] by (simp add: inv_room_def)
  moreover have "e \<in> set (queued_for s (session_id (request e)))"
    using assms(2) by (simp add: queued_for_def)
  ultimately show ?thesis
    using q by (auto dest: length_pos_if_in_set)
qed

text \<open>The service turns run out when the next turn is the largest u64, or when the window of
  every backlogged session would end past it.\<close>

definition turns_exhausted :: "scheduler \<Rightarrow> bool" where
  "turns_exhausted s \<longleftrightarrow> next_service_turn s = u64_max \<or>
     (\<forall>e \<in> set (normal s). \<forall>q. map_of (sessions s) (session_id (request e)) = Some q \<longrightarrow>
        u64_max < last_service_turn q + fairness_burst (limits s))"

lemma dispatch_normal_cases:
  assumes inv: "sched_inv s" and ne: "normal s \<noteq> []" and run: "phase s = Running"
    and room: "in_flight_len (terminal s) \<noteq> in_flight_capacity (limits s)"
  obtains (exhausted) "dispatch_normal s = (s, Inl CounterExhausted)"
      "turns_exhausted s"
  | (started) i q a m where
      "i < length (normal s)"
      "map_of (sessions s) (session_id (request (normal s ! i))) = Some q"
      "min_of (backlog_turns s) = Some m"
      "last_service_turn q < m + fairness_burst (limits s)"
      "\<forall>e \<in> set (normal s). eligible s (m + fairness_burst (limits s)) e \<longrightarrow>
         entry_key s (normal s ! i) \<le> entry_key s e"
      "a = (terminal s)\<lparr>in_flight := AList.update (work_id (request (normal s ! i)))
         \<lparr>sig_work_id = work_id (request (normal s ! i)),
          sig_session_id = session_id (request (normal s ! i)),
          sig_generation = generation (request (normal s ! i))\<rparr> (in_flight (terminal s))\<rparr>"
      "arb_wf a" "\<not> turns_exhausted s"
      "dispatch_normal s = (started s i a q,
         Inr (Some (Normal \<lparr>sw_request = request (normal s ! i),
           sw_scheduling_key = entry_key s (normal s ! i),
           sw_fairness = \<lparr>minimum_last_service_turn = m,
             session_last_service_turn = last_service_turn q,
             exclusive_turn_limit = m + fairness_burst (limits s)\<rparr>\<rparr>)))"
proof -
  note reg = sched_invD(1) [OF inv] and que = sched_invD(2) [OF inv]
  have "backlog_turns s \<noteq> []"
  proof -
    obtain e where "e \<in> set (normal s)" using ne by (cases "normal s") auto
    then show ?thesis
      using entry_registered [OF inv] backlog_turns_set [of s] by (metis (mono_tags, lifting)
          empty_iff empty_set mem_Collect_eq)
  qed
  then obtain m where m: "min_of (backlog_turns s) = Some m"
    by (cases "backlog_turns s") auto
  obtain qm em where qm: "em \<in> set (normal s)"
      "map_of (sessions s) (session_id (request em)) = Some qm" "last_service_turn qm = m"
    using min_of_Some [OF m] backlog_turns_set [of s] by auto
  consider (over) "u64_max < m + fairness_burst (limits s)"
    | (full) "next_service_turn s = u64_max"
    | (go) "m + fairness_burst (limits s) \<le> u64_max" "next_service_turn s \<noteq> u64_max"
    by linarith
  then show thesis
  proof cases
    case over
    then have "turns_exhausted s"
      using min_of_Some [OF m] backlog_turns_set [of s] by (fastforce simp: turns_exhausted_def)
    with over show thesis
      by (intro exhausted) (auto simp: dispatch_normal_def m rust_arith)
  next
    case full
    then show thesis
      by (intro exhausted) (auto simp: dispatch_normal_def turns_exhausted_def m rust_arith)
  next
    case go
    let ?lim = "m + fairness_burst (limits s)"
    have "0 < fairness_burst (limits s)"
      using reg by (simp add: inv_registry_def limits_ok_def)
    then have "\<exists>e \<in> set (normal s). eligible s ?lim e"
      using qm by (intro bexI [of _ em]) (auto simp: eligible_def)
    moreover have "map_of (sessions s) (session_id (request e)) \<noteq> None" if "e \<in> set (normal s)" for e
      using entry_registered [OF inv that] by auto
    ultimately obtain r where "select_normal s ?lim 0 (normal s) None = Inr (Some r)"
      using select_normal_total [of "normal s" s None ?lim 0] by blast
    then obtain i k t where sel: "select_normal s ?lim 0 (normal s) None = Inr (Some (i, k, t))"
      by (cases r) auto
    let ?e = "normal s ! i"
    from select_normal_sound [OF sel] obtain q where i: "i < length (normal s)"
      and k: "k = entry_key s ?e"
      and q: "map_of (sessions s) (session_id (request ?e)) = Some q" "last_service_turn q = t" "t < ?lim"
      by auto
    have e: "?e \<in> set (normal s)" using i by simp
    define work where "work = \<lparr>sw_request = request ?e, sw_scheduling_key = k,
      sw_fairness = \<lparr>minimum_last_service_turn = m, session_last_service_turn = t,
        exclusive_turn_limit = ?lim\<rparr>\<rparr>"
    have len: "length (in_flight (terminal s)) < arb_max_in_flight (arb_limits (terminal s))"
      using reg room arb_wfD(4) [of "terminal s"] by (simp add: inv_registry_def in_flight_len_def)
    have "work_id (request ?e) \<notin> fst ` set (in_flight (terminal s))"
      using sched_invD(4) [OF inv] e by (auto simp: inv_ids_def normal_ids_def)
    then have "map_of (in_flight (terminal s)) (work_id (request ?e)) = None"
      by (simp add: map_of_eq_None_iff)
    moreover have "\<not> shutting_down (terminal s)"
      using sched_invD(6) [OF inv] run by (simp add: inv_phase_def)
    ultimately obtain a where a: "arb_start (terminal s) work = Inr a"
      using arb_startI [of "terminal s" work] queue_entry [OF que e] len by (auto simp: work_def)
    have wfa: "arb_wf a"
      using arb_wf_start [OF _ a] reg by (simp add: inv_registry_def)
    have "0 < queued q"
      using entry_registered [OF inv e] q(1) by auto
    then have arith: "checked_sub (queued q) 1 = Some (queued q - 1)"
        "checked_add m (fairness_burst (limits s)) = Some ?lim"
      using go(1) by (simp_all add: rust_arith)
    have disp: "dispatch_normal s = (started s i a q, Inr (Some (Normal work)))"
      by (simp add: dispatch_normal_def m arith go(2) sel Let_def q(1)
          started_def work_def [symmetric] a del: One_nat_def)
    have w: "work = \<lparr>sw_request = request ?e, sw_scheduling_key = entry_key s ?e,
      sw_fairness = \<lparr>minimum_last_service_turn = m, session_last_service_turn = last_service_turn q,
        exclusive_turn_limit = ?lim\<rparr>\<rparr>"
      by (simp add: work_def k q(2))
    have aeq: "a = (terminal s)\<lparr>in_flight := AList.update (work_id (request ?e))
         \<lparr>sig_work_id = work_id (request ?e), sig_session_id = session_id (request ?e),
          sig_generation = generation (request ?e)\<rparr> (in_flight (terminal s))\<rparr>"
      using arb_startD(6) [OF a] by (simp add: work_def)
    have min: "\<forall>e \<in> set (normal s). eligible s ?lim e \<longrightarrow> entry_key s ?e \<le> entry_key s e"
      using select_normal_minimal [OF sel] k by blast
    have lt: "last_service_turn q < ?lim" using q by simp
    have turns: "\<not> turns_exhausted s"
      using go qm by (fastforce simp: turns_exhausted_def)
    show thesis
      by (rule started [OF i q(1) m lt min aeq wfa turns disp [unfolded w]])
  qed
qed

lemma queue_remove_at:
  assumes que: "inv_queue s" and i: "i < length (normal s)"
  shows "distinct (map slot_of (remove_at i (normal s)))"
    "sorted_wrt (<) (map enqueue_order (remove_at i (normal s)))"
  using que distinct_map_remove_at [OF _ i, of slot_of]
    sorted_wrt_remove_at [of "\<lambda>x y. enqueue_order x < enqueue_order y" "normal s" i]
  by (auto simp: inv_queue_def sorted_wrt_map)

lemma sched_inv_started:
  assumes inv: "sched_inv s" and run: "phase s = Running" and i: "i < length (normal s)"
    and q: "map_of (sessions s) (session_id (request (normal s ! i))) = Some q"
    and a: "a = (terminal s)\<lparr>in_flight := AList.update (work_id (request (normal s ! i))) sg
              (in_flight (terminal s))\<rparr>"
    and wf: "arb_wf a" and turn: "next_service_turn s \<noteq> u64_max"
  shows "sched_inv (started s i a q)"
proof -
  let ?e = "normal s ! i" and ?t = "started s i a q"
  let ?sid = "session_id (request ?e)"
  note reg = sched_invD(1) [OF inv] and que = sched_invD(2) [OF inv]
    and room = sched_invD(3) [OF inv] and ids = sched_invD(4) [OF inv]
  have e: "?e \<in> set (normal s)" using i by simp
  have wfm: "wf_map (sessions s)" using reg by (simp add: inv_registry_def)
  have "inv_registry ?t"
    using reg q turn wf
    by (auto simp: inv_registry_def started_def a key_set_update_present [OF q] less_Suc_eq)
  moreover have "inv_queue ?t"
    using que queue_remove_at [OF que i] set_remove_at [of i "normal s"]
    by (auto simp: inv_queue_def started_def a)
  moreover have "inv_room ?t"
  proof -
    have qf: "length (queued_for s x) = length (queued_for ?t x) + (if x = ?sid then 1 else 0)" for x
      using filter_remove_at [OF i, of "\<lambda>e. session_id (request e) = x"]
      by (auto simp: queued_for_def started_def)
    have others: "unused_open_reservations ?t (Some ?sid) = unused_open_reservations s (Some ?sid)"
      by (rule unused_others) (auto simp: started_def a)
    have op: "session_phase (terminal s) ?sid = Some Open"
      by (rule queue_entry(1) [OF que e])
    have "map_of (sessions ?t) ?sid =
        Some \<lparr>queued = queued q - 1, last_service_turn = next_service_turn s\<rparr>" "wf_map (sessions ?t)"
      using wfm by (simp_all add: started_def)
    then have "unused_open_reservations ?t None = unused_open_reservations s (Some ?sid) +
        (per_session_reservation (limits s) - (queued q - 1))"
      using unused_open_reservations_split [of ?t ?sid] others op
      by (simp add: reserve_of_def started_def a)
    moreover have "unused_open_reservations s None =
        unused_open_reservations s (Some ?sid) + (per_session_reservation (limits s) - queued q)"
      using unused_open_reservations_split [OF q wfm] op by (simp add: reserve_of_def)
    moreover have "length (normal s) = length (normal ?t) + 1"
      using length_remove_at [OF i] by (simp add: started_def)
    ultimately have "length (normal ?t) + unused_open_reservations ?t None \<le> normal_capacity (limits s)"
      using room unfolding inv_room_def by linarith
    moreover have "queued q = length (queued_for s ?sid)"
      using room q by (simp add: inv_room_def)
    moreover have "length (queued_for ?t x) \<le> per_session_capacity (limits s)" for x
      using room qf [of x] unfolding inv_room_def by (metis add_leD1)
    moreover have "queued q' = length (queued_for ?t x)"
      if "map_of (sessions ?t) x = Some q'" for x q'
      using that room qf [of x] q by (auto simp: inv_room_def started_def split: if_splits)
    moreover have frame: "limits ?t = limits s"
      by (simp add: started_def)
    ultimately show ?thesis
      unfolding inv_room_def frame by blast
  qed
  moreover have "inv_ids ?t"
  proof -
    have flight: "fst ` set (in_flight (terminal ?t)) =
        insert (work_id (request ?e)) (fst ` set (in_flight (terminal s)))"
      and frame: "seen_work_ids ?t = seen_work_ids s" "limits ?t = limits s"
      by (simp_all add: started_def a keys_update)
    have norm: "distinct (normal_ids ?t)" "work_id (request ?e) \<notin> set (normal_ids ?t)"
        "set (normal_ids ?t) \<subseteq> set (normal_ids s)" "work_id (request ?e) \<in> set (normal_ids s)"
      using ids e distinct_map_remove_at [OF _ i, of "\<lambda>e. work_id (request e)"]
        set_remove_at [of i "normal s"]
      by (auto simp: inv_ids_def started_def normal_ids_def)
    show ?thesis
      using ids norm unfolding inv_ids_def flight frame by blast
  qed
  moreover have "inv_critical ?t" "inv_phase ?t"
    using sched_invD(5,6) [OF inv] run by (auto simp: inv_critical_def inv_phase_def started_def a)
  ultimately show ?thesis by (simp add: sched_inv_def)
qed

lemma sched_inv_dispatch_critical:
  assumes inv: "sched_inv s" and c: "critical s = (n, ev) # rest"
  shows "sched_inv (s\<lparr>critical := rest, terminal := fst (dispatch_critical (terminal s) ev)\<rparr>)"
proof -
  let ?a = "fst (dispatch_critical (terminal s) ev)"
  let ?t = "s\<lparr>critical := rest, terminal := ?a\<rparr>"
  have wf: "arb_wf ?a"
    using sched_invD(1) [OF inv] by (auto simp: inv_registry_def arb_wf_dispatch_critical)
  have sub: "fst ` set (in_flight ?a) \<subseteq> fst ` set (in_flight (terminal s))"
  proof
    fix w
    assume "w \<in> fst ` set (in_flight ?a)"
    then show "w \<in> fst ` set (in_flight (terminal s))"
      using dispatch_critical_mono [of "terminal s" ev w] unfolding in_keys_iff by fastforce
  qed
  have "inv_registry ?t" "inv_queue ?t"
    using sched_invD(1,2) [OF inv] wf by (auto simp: inv_registry_def inv_queue_def)
  moreover have "inv_room ?t"
  proof -
    have "unused_open_reservations ?t None = unused_open_reservations s None"
      by (simp add: unused_open_reservations_def)
    then show ?thesis using sched_invD(3) [OF inv] by (auto simp: inv_room_def)
  qed
  moreover have "inv_ids ?t"
  proof -
    have "set (normal_ids s) \<inter> fst ` set (in_flight (terminal s)) = {}"
        "fst ` set (in_flight (terminal s)) \<subseteq> seen_work_ids s"
      using sched_invD(4) [OF inv] by (simp_all add: inv_ids_def)
    then have "set (normal_ids s) \<inter> fst ` set (in_flight ?a) = {}"
        "fst ` set (in_flight ?a) \<subseteq> seen_work_ids s"
      using Int_mono [OF subset_refl sub, of "set (normal_ids s)"] subset_trans [OF sub] by simp_all
    then show ?thesis using sched_invD(4) [OF inv] by (simp add: inv_ids_def)
  qed
  moreover have "inv_critical ?t" "inv_phase ?t"
    using sched_invD(5,6) [OF inv] c by (auto simp: inv_critical_def inv_phase_def)
  ultimately show ?thesis by (simp add: sched_inv_def)
qed

lemma sched_inv_dispatch_next:
  assumes inv: "sched_inv s"
  shows "sched_inv (fst (dispatch_next s))"
proof (cases "critical s")
  case (Cons c rest)
  then show ?thesis
    using sched_inv_dispatch_critical [OF inv, of "fst c" "snd c" rest]
    by (cases c) (simp add: dispatch_next_def split_def Let_def)
next
  case Nil
  show ?thesis
  proof (cases "phase s \<noteq> Running \<or> in_flight_len (terminal s) = in_flight_capacity (limits s) \<or>
             normal s = []")
    case False
    then have d: "dispatch_next s = dispatch_normal s"
      using Nil by (simp add: dispatch_next_def)
    from False have go: "normal s \<noteq> []" "phase s = Running"
        "in_flight_len (terminal s) \<noteq> in_flight_capacity (limits s)" by auto
    show ?thesis
    proof (cases rule: dispatch_normal_cases [OF inv go])
      case 1
      then show ?thesis using d inv by simp
    next
      case (2 i q a m)
      then show ?thesis
        using d sched_inv_started [OF inv go(2) 2(1,2,6,7)] 2(8)
        by (simp add: turns_exhausted_def)
    qed
  qed (use Nil inv in \<open>simp add: dispatch_next_def\<close>)
qed

end
