(* ===== verification/Sched_Props.thy ===== *)
theory Sched_Props
  imports Sched_Run
begin

text \<open>
  The properties of the viewport scheduler in every reachable state and over every run of
  commands, each with a witness on a small concrete configuration: two sessions, a handful of
  requests and the commands that queue, dispatch, cancel and complete them.
\<close>

section \<open>A concrete configuration\<close>

definition demo_limits :: scheduler_limits where
  "demo_limits = \<lparr>normal_capacity = 4, per_session_reservation = 1, per_session_capacity = 3,
     critical_capacity = 4, in_flight_capacity = 2, max_sessions = 2, max_work_ids_per_epoch = 16,
     aging_quantum_ticks = 5, max_aging_steps = 2, fairness_burst = 2\<rparr>"

definition demo_request :: "nat \<Rightarrow> session_id \<Rightarrow> generation \<Rightarrow> nat \<Rightarrow> priority \<Rightarrow> work_request" where
  "demo_request w sid g slot p = \<lparr>work_id = w, session_id = sid, generation = g,
     replace_key = \<lparr>rk_kind = Tile, rk_identity = slot\<rparr>, priority = p, center_distance = 0,
     edge_distance = 0, scroll_relation = Neutral\<rparr>"

definition run_from_new :: "scheduler_limits \<Rightarrow> command list \<Rightarrow> scheduler" where
  "run_from_new l cmds = fst (run_machine sched_step (scheduler_new l) cmds)"

lemma run_machine_reachable:
  "sched_reachable l s \<Longrightarrow> sched_reachable l (fst (run_machine sched_step s cmds))"
  by (induction cmds arbitrary: s) (auto intro: sched_reachable.step)

lemma demo_reachable: "sched_reachable demo_limits (run_from_new demo_limits cmds)"
proof -
  have "scheduler_limits_new 4 1 3 4 2 2 16 5 2 2 = Inr demo_limits"
    by (simp add: scheduler_limits_new_def demo_limits_def rust_arith ok_or_def u64_max_def)
  then show ?thesis
    unfolding run_from_new_def
    by (intro run_machine_reachable sched_reachable.start [of 4 1 3 4 2 2 16 5 2 2]) auto
qed

lemma limits_submit: "limits (fst (submit s req)) = limits s"
proof -
  have adv: "limits (fst (advance_generation s sid g)) = limits s" for s :: scheduler and sid g
    by (auto simp: advance_generation_def split_def Let_def split: option.splits sum.splits)
  have adm: "limits (fst (admit s req adv)) = limits s" for s :: scheduler and adv
    by (auto simp: admit_def coalesce_def enqueue_new_def reserve_work_id_def Let_def
        split: option.splits sum.splits if_splits)
  show ?thesis
    using adv [of s "session_id req" "generation req"] adm
    by (auto simp: submit_def split: option.splits prod.splits sum.splits)
qed

lemma limits_step: "limits (fst (sched_step s cmd)) = limits s"
proof (cases cmd)
  case (RegisterSession sid g)
  then show ?thesis by (cases rule: register_session_cases [of s sid g]) auto
next
  case (CloseSession sid)
  then show ?thesis by (cases rule: close_session_cases [of s sid]) auto
next
  case BeginShutdown
  then show ?thesis by (cases rule: begin_shutdown_cases [of s]) auto
next
  case (AdvanceGeneration sid g)
  then show ?thesis
    by (auto simp: advance_generation_def split_def Let_def split: option.splits sum.splits)
qed (auto simp: limits_submit advance_tick_def enqueue_cancel_def enqueue_release_def
    enqueue_failure_def enqueue_completion_def try_finish_shutdown_def split: option.splits)

lemma reachable_inv:
  "sched_reachable l s \<Longrightarrow> sched_inv s \<and> limits s = l \<and> max_aging_steps l \<le> 255"
proof (induction rule: sched_reachable.induct)
  case (start n r sc c i ms w q st b l)
  then show ?case
    using scheduler_limits_new_ok [OF start(1)] sched_inv_new [of l] by (auto simp: scheduler_new_def)
next
  case (step l s cmd)
  then show ?case by (simp add: sched_inv_step limits_step)
qed

definition demo_cmds :: "command list" where
  "demo_cmds = [RegisterSession 1 1, RegisterSession 2 1,
     Submit (demo_request 10 1 1 0 P3), Submit (demo_request 11 1 1 1 P1),
     Submit (demo_request 20 2 1 0 P2)]"

lemmas sched_exec =
  run_from_new_def scheduler_new_def arbiter_new_def demo_limits_def demo_request_def
  register_session_def advance_tick_def advance_generation_def submit_def enqueue_cancel_def
  enqueue_release_def enqueue_failure_def enqueue_completion_def close_session_def
  begin_shutdown_def dispatch_next_def try_finish_shutdown_def unused_open_reservations_def
  remove_queued_for_session_def reserve_work_id_def enqueue_critical_def same_slot_def
  coalesce_def enqueue_new_def admit_def entry_key_def pick_candidate_def backlog_turns_def
  dispatch_normal_def arb_register_session_def current_generation_def session_phase_def
  arb_advance_generation_def arb_start_def arb_begin_close_def arb_begin_shutdown_def
  arb_complete_def finish_without_resource_def arb_cancel_def arb_fail_def in_flight_len_def
  for_request_def checked_add_def checked_sub_def saturating_sub_def saturating_add_def
  u64_max_def Let_def less_scheduling_key_def remove_at_def map_filter_simps

section \<open>State invariant and bounds\<close>

text \<open>C1: the scheduler invariant holds in every reachable state: the queue's and the
  arbiter's registries agree, every queued request belongs to an open session at its current
  generation and occupies its own replace slot, enqueue orders increase along the queue, the
  per-session counters are exact, unused reservations still fit, work identities are distinct
  and never both queued and in flight, critical orders increase, and the phase of the scheduler
  agrees with the arbiter and with what is left to drain.\<close>

theorem reachable_sched_inv:
  assumes "sched_reachable l s"
  shows "sched_inv s \<and> limits s = l"
  using reachable_inv [OF assms] by simp

theorem reachable_sched_inv_witness:
  "sched_inv (run_from_new demo_limits (demo_cmds @ [DispatchNext])) \<and>
   length (normal (run_from_new demo_limits (demo_cmds @ [DispatchNext]))) = 2"
  using reachable_sched_inv [OF demo_reachable, of "demo_cmds @ [DispatchNext]"]
  by (simp add: sched_exec demo_cmds_def)

text \<open>C14: every queue of the scheduler stays within the capacity that the limits give it,
  after any sequence of commands.\<close>

theorem reachable_bounds:
  assumes "sched_reachable l s"
  shows "length (normal s) \<le> normal_capacity l \<and> length (critical s) \<le> critical_capacity l \<and>
    length (sessions s) \<le> max_sessions l \<and> in_flight_len (terminal s) \<le> in_flight_capacity l \<and>
    card (seen_work_ids s) \<le> max_work_ids_per_epoch l \<and>
    length (queued_for s sid) \<le> per_session_capacity l"
proof -
  have inv: "sched_inv s" and l: "limits s = l" using reachable_inv [OF assms] by auto
  note reg = sched_invD(1) [OF inv]
  have "length (sessions s) = length (arb_sessions (terminal s))"
    using reg by (intro wf_map_same_length) (auto simp: inv_registry_def arb_wf_def)
  moreover have "length (arb_sessions (terminal s)) \<le> max_sessions l"
    "in_flight_len (terminal s) \<le> in_flight_capacity l"
    using reg l arb_wfD(3,4) [of "terminal s"] by (auto simp: inv_registry_def in_flight_len_def)
  ultimately show ?thesis
    using sched_invD(3-5) [OF inv] l by (auto simp: inv_room_def inv_ids_def inv_critical_def)
qed

theorem reachable_bounds_witness:
  "length (normal (run_from_new demo_limits demo_cmds)) \<le> 4 \<and>
   normal (run_from_new demo_limits demo_cmds) \<noteq> []"
  using reachable_bounds [OF demo_reachable, of demo_cmds 1]
  by (simp add: sched_exec demo_cmds_def)

section \<open>Dispatch\<close>

text \<open>What the start of the request at position \<open>i\<close> does to the queue, the flight and the
  session's account.\<close>

definition dispatched_at :: "nat \<Rightarrow> scheduler \<Rightarrow> scheduled_work \<Rightarrow> scheduler \<Rightarrow> bool" where
  "dispatched_at i s work t \<longleftrightarrow>
     (let req = request (normal s ! i) in
      sw_request work = req \<and>
      normal t = take i (normal s) @ drop (Suc i) (normal s) \<and>
      map_of (in_flight (terminal t)) = (map_of (in_flight (terminal s)))(work_id req \<mapsto>
        \<lparr>sig_work_id = work_id req, sig_session_id = session_id req,
         sig_generation = generation req\<rparr>) \<and>
      in_flight_len (terminal t) = Suc (in_flight_len (terminal s)) \<and>
      map_option last_service_turn (map_of (sessions t) (session_id req)) = Some (next_service_turn s) \<and>
      next_service_turn t = Suc (next_service_turn s))"

text \<open>C5: dispatch is total and never finds an inconsistent state; what it answers is decided by
  the state. With a critical event pending it returns the decision on the oldest one. Otherwise
  it returns nothing exactly when the scheduler does not run, has no in-flight room or has no
  queued work. Otherwise it fails with an exhausted counter, leaving the state as it was, exactly
  when the service turns are exhausted: the next turn is the largest u64, or the largest u64 lies
  below the last turn plus \<open>fairness_burst\<close> of every session with queued work (so a burst near the
  largest u64, which the limits admit, exhausts the turns at once). In every other case it returns
  one of the queued requests, that request leaves the queue, the others keep their order, it
  enters flight under its own identity, and its session is charged the service turn.\<close>

theorem dispatch_next_total:
  assumes "sched_reachable l s"
  shows "case snd (dispatch_next s) of
      Inl e \<Rightarrow> e = CounterExhausted \<and> fst (dispatch_next s) = s \<and> critical s = [] \<and>
        phase s = Running \<and> in_flight_len (terminal s) < in_flight_capacity l \<and> normal s \<noteq> [] \<and>
        (next_service_turn s = u64_max \<or>
         (\<forall>e \<in> set (normal s). \<forall>q. map_of (sessions s) (session_id (request e)) = Some q \<longrightarrow>
            u64_max < last_service_turn q + fairness_burst l))
    | Inr None \<Rightarrow> critical s = [] \<and> fst (dispatch_next s) = s \<and>
        (phase s \<noteq> Running \<or> in_flight_len (terminal s) = in_flight_capacity l \<or> normal s = [])
    | Inr (Some (Critical d)) \<Rightarrow> critical s \<noteq> [] \<and>
        d = snd (dispatch_critical (terminal s) (snd (hd (critical s)))) \<and>
        critical (fst (dispatch_next s)) = tl (critical s)
    | Inr (Some (Normal work)) \<Rightarrow> critical s = [] \<and> phase s = Running \<and>
        in_flight_len (terminal s) < in_flight_capacity l \<and> next_service_turn s < u64_max \<and>
        (\<exists>e \<in> set (normal s). \<exists>q. map_of (sessions s) (session_id (request e)) = Some q \<and>
            last_service_turn q + fairness_burst l \<le> u64_max) \<and>
        (\<exists>i < length (normal s). dispatched_at i s work (fst (dispatch_next s)))"
proof -
  have inv: "sched_inv s" and l: "limits s = l" using reachable_inv [OF assms] by auto
  have room: "in_flight_len (terminal s) \<le> in_flight_capacity l"
    using sched_invD(1) [OF inv] l arb_wfD(4) [of "terminal s"]
    by (auto simp: inv_registry_def in_flight_len_def)
  have turn: "next_service_turn s \<le> u64_max"
    using sched_invD(1) [OF inv] by (simp add: inv_registry_def)
  from inv show ?thesis
  proof (cases rule: dispatch_next_cases)
    case exhausted
    then show ?thesis using l room by (auto simp: turns_exhausted_def)
  next
    case (started i q a m)
    have "work_id (request (normal s ! i)) \<notin> flight s"
      using sched_invD(4) [OF inv] dispatched_id_seen [OF inv started(3)]
      unfolding inv_ids_def by blast
    then have "map_of (in_flight (terminal s)) (work_id (request (normal s ! i))) = None"
      by (simp add: map_of_eq_None_iff)
    then have "dispatched_at i s \<lparr>sw_request = request (normal s ! i),
           sw_scheduling_key = entry_key s (normal s ! i),
           sw_fairness = \<lparr>minimum_last_service_turn = m,
             session_last_service_turn = last_service_turn q,
             exclusive_turn_limit = m + fairness_burst (limits s)\<rparr>\<rparr> (started s i a q)"
      using started(4,8)
      by (simp add: dispatched_at_def started_def in_flight_len_def length_update_absent remove_at_def
          update_conv')
    then show ?thesis
      using started(1-3,10-12) l room turn
      by (auto simp: turns_exhausted_def linorder_not_less order_neq_le_trans)
  qed (use l in auto)
qed

theorem dispatch_next_total_witness:
  "snd (dispatch_next (run_from_new demo_limits demo_cmds)) \<noteq> Inl InvariantViolation \<and>
   (case snd (dispatch_next (run_from_new demo_limits demo_cmds)) of
      Inr (Some (Normal w)) \<Rightarrow> work_id (sw_request w) = 11 \<and>
        (\<exists>i < 3. dispatched_at i (run_from_new demo_limits demo_cmds) w
           (fst (dispatch_next (run_from_new demo_limits demo_cmds))))
    | _ \<Rightarrow> False)"
proof -
  let ?s = "run_from_new demo_limits demo_cmds"
  obtain w where w: "snd (dispatch_next ?s) = Inr (Some (Normal w))" "work_id (sw_request w) = 11"
    and n: "length (normal ?s) = 3"
    by (simp add: sched_exec demo_cmds_def)
  show ?thesis using dispatch_next_total [OF demo_reachable, of demo_cmds] w n by auto
qed

text \<open>C6: a normal dispatch takes the queued request with the least scheduling key among the
  requests whose session is less than \<open>fairness_burst\<close> service turns ahead of the most
  starved backlogged session, and records the evidence for it.\<close>

theorem dispatch_selects_least_eligible:
  assumes reach: "sched_reachable l s"
    and disp: "dispatch_next s = (s', Inr (Some (Normal work)))"
  shows "\<exists>e q m. e \<in> set (normal s) \<and> sw_request work = request e \<and>
     sw_scheduling_key work = entry_key s e \<and>
     map_of (sessions s) (session_id (request e)) = Some q \<and>
     m \<in> set (backlog_turns s) \<and> (\<forall>t \<in> set (backlog_turns s). m \<le> t) \<and>
     sw_fairness work = \<lparr>minimum_last_service_turn = m,
       session_last_service_turn = last_service_turn q,
       exclusive_turn_limit = m + fairness_burst l\<rparr> \<and>
     last_service_turn q < m + fairness_burst l \<and>
     (\<forall>e' \<in> set (normal s). eligible s (m + fairness_burst l) e' \<longrightarrow> entry_key s e \<le> entry_key s e')"
proof -
  have inv: "sched_inv s" and l: "limits s = l" using reachable_inv [OF reach] by auto
  from inv show ?thesis
  proof (cases rule: dispatch_next_cases)
    case (started i q a m)
    then show ?thesis
      using disp l min_of_Some [OF started(5)]
      by (intro exI [of _ "normal s ! i"] exI [of _ q] exI [of _ m]) auto
  qed (use disp in auto)
qed

theorem dispatch_selects_least_eligible_witness:
  "\<exists>e \<in> set (normal (run_from_new demo_limits demo_cmds)). work_id (request e) = 11 \<and>
     (\<forall>e' \<in> set (normal (run_from_new demo_limits demo_cmds)).
        eligible (run_from_new demo_limits demo_cmds) 2 e' \<longrightarrow>
        entry_key (run_from_new demo_limits demo_cmds) e \<le>
        entry_key (run_from_new demo_limits demo_cmds) e')"
proof -
  let ?s = "run_from_new demo_limits demo_cmds"
  obtain w where w: "dispatch_next ?s = (fst (dispatch_next ?s), Inr (Some (Normal w)))"
      "work_id (sw_request w) = 11" "exclusive_turn_limit (sw_fairness w) = 2"
    by (simp add: sched_exec demo_cmds_def)
  from dispatch_selects_least_eligible [OF demo_reachable w(1)] w(2,3)
  show ?thesis by auto
qed

section \<open>Identities over whole runs\<close>

text \<open>C3: over any sequence of commands a work identity is handed to a worker at most once and
  reaches at most one final decision (published, cancelled, failed, or discarded because its
  session moved on).\<close>

theorem work_runs_at_most_once:
  assumes "sched_reachable l s"
  shows "length (filter (starts_reply w) (snd (run_machine sched_step s cmds))) \<le> 1 \<and>
    length (filter (ends_reply w) (snd (run_machine sched_step s cmds))) \<le> 1"
  using reachable_inv [OF assms] dispatch_once.run_fires_once end_once.run_fires_once by blast

definition demo_signal :: "nat \<Rightarrow> session_id \<Rightarrow> generation \<Rightarrow> terminal_signal" where
  "demo_signal w sid g = \<lparr>sig_work_id = w, sig_session_id = sid, sig_generation = g\<rparr>"

definition demo_finish :: "command list" where
  "demo_finish = [DispatchNext, EnqueueCompletion (demo_signal 11 1 1) 7,
     EnqueueCancel (demo_signal 11 1 1), DispatchNext, DispatchNext]"

theorem work_runs_at_most_once_witness:
  "map (ends_reply 11) (snd (run_machine sched_step (run_from_new demo_limits demo_cmds) demo_finish))
     = [False, False, False, True, False] \<and>
   length (filter (ends_reply 11)
     (snd (run_machine sched_step (run_from_new demo_limits demo_cmds) (demo_finish @ demo_finish)))) \<le> 1"
  using work_runs_at_most_once [OF demo_reachable, of 11 demo_cmds "demo_finish @ demo_finish"]
  by (simp add: sched_exec demo_cmds_def demo_finish_def demo_signal_def ends_def)

text \<open>C8: a result is published only for the exact work that is in flight, while the scheduler
  runs, its session is open and still at the generation the work was dispatched for.\<close>

theorem publish_only_current:
  assumes reach: "sched_reachable l s"
    and disp: "snd (dispatch_next s) = Inr (Some (Critical (DCompletion (Publish w rid))))"
  shows "\<exists>sg. snd (hd (critical s)) = Completion sg rid \<and> sig_work_id sg = w \<and>
     map_of (in_flight (terminal s)) w = Some sg \<and> phase s = Running \<and>
     session_phase (terminal s) (sig_session_id sg) = Some Open \<and>
     current_generation (terminal s) (sig_session_id sg) = Some (sig_generation sg) \<and>
     map_of (in_flight (terminal (fst (dispatch_next s)))) w = None"
proof -
  have inv: "sched_inv s" using reachable_inv [OF reach] by simp
  then have run: "\<not> shutting_down (terminal s) \<Longrightarrow> phase s = Running"
    using sched_invD(6) by (auto simp: inv_phase_def)
  from inv show ?thesis
  proof (cases rule: dispatch_next_cases)
    case (critical n ev rest)
    then have pub: "snd (dispatch_critical (terminal s) ev) = DCompletion (Publish w rid)"
      using disp by simp
    then have "map_of (in_flight (fst (dispatch_critical (terminal s) ev))) w = None"
      using dispatch_critical_ends [of w "terminal s" ev] by simp
    with dispatch_critical_publish [OF pub] critical run show ?thesis by auto
  qed (use disp in auto)
qed

theorem publish_only_current_witness:
  "\<exists>sg. map_of (in_flight (terminal (run_from_new demo_limits
       (demo_cmds @ [DispatchNext, EnqueueCompletion (demo_signal 11 1 1) 7])))) 11 = Some sg \<and>
     sig_generation sg = 1"
proof -
  let ?s = "run_from_new demo_limits
    (demo_cmds @ [DispatchNext, EnqueueCompletion (demo_signal 11 1 1) 7])"
  have "snd (dispatch_next ?s) = Inr (Some (Critical (DCompletion (Publish 11 7))))"
    by (simp add: sched_exec demo_cmds_def demo_signal_def)
  from publish_only_current [OF demo_reachable this] show ?thesis
    by (auto simp: sched_exec demo_cmds_def demo_signal_def)
qed

text \<open>The signal of a live work is outdated once its session closes or moves to a newer
  generation, and stays so.\<close>

definition outdated :: "terminal_arbiter \<Rightarrow> terminal_signal \<Rightarrow> bool" where
  "outdated a sg \<longleftrightarrow>
     session_phase a (sig_session_id sg) = Some Closing \<or>
     (\<exists>g. current_generation a (sig_session_id sg) = Some g \<and> sig_generation sg < g)"

lemma outdated_forward: "forward a b \<Longrightarrow> outdated a sg \<Longrightarrow> outdated b sg"
  unfolding forward_def outdated_def by (meson order_less_le_trans)

fun publishes :: "work_id \<Rightarrow> reply \<Rightarrow> bool" where
  "publishes w (ODispatch (Inr (Some (Critical (DCompletion (Publish w' _)))))) = (w = w')"
| "publishes w _ = False"

lemma publishes_ends: "publishes w r \<Longrightarrow> ends_reply w r"
  by (induction w r rule: publishes.induct) auto

lemma publishes_dispatch:
  assumes "publishes w (snd (sched_step s cmd))"
  obtains rid where "cmd = DispatchNext"
    "snd (dispatch_next s) = Inr (Some (Critical (DCompletion (Publish w rid))))"
  using assms that
  by (cases cmd; simp)
    (auto elim!: publishes.elims)

text \<open>A work whose result must not appear any more: it is retired or its signal is outdated.\<close>

definition withdrawn :: "work_id \<Rightarrow> scheduler \<Rightarrow> bool" where
  "withdrawn w s \<longleftrightarrow> retired w s \<or>
     (\<exists>sg. map_of (in_flight (terminal s)) w = Some sg \<and> outdated (terminal s) sg)"

lemma withdrawn_step:
  assumes inv: "sched_inv s" and wd: "withdrawn w s"
  shows "withdrawn w (fst (sched_step s cmd))" "\<not> publishes w (snd (sched_step s cmd))"
proof -
  let ?t = "fst (sched_step s cmd)"
  note fwd = forward_step [OF inv, of cmd]
  show "withdrawn w ?t"
  proof (cases "retired w s")
    case True
    then show ?thesis using end_once.spent_step [OF inv True] by (simp add: withdrawn_def)
  next
    case False
    then obtain sg where sg: "map_of (in_flight (terminal s)) w = Some sg" "outdated (terminal s) sg"
      using wd by (auto simp: withdrawn_def)
    have out: "outdated (terminal ?t) sg" by (rule outdated_forward [OF fwd sg(2)])
    show ?thesis
    proof (cases "cmd = DispatchNext")
      case True
      from inv show ?thesis
      proof (cases rule: dispatch_next_cases)
        case (critical n ev rest)
        show ?thesis
        proof (cases "map_of (in_flight (terminal ?t)) w")
          case None
          have "w \<in> seen_work_ids s" "w \<notin> set (normal_ids s)"
            using sg(1) sched_invD(4) [OF inv] flight_iff [of w s] unfolding inv_ids_def by blast+
          then have "retired w ?t"
            using None critical True by (simp add: retired_def normal_ids_def map_of_eq_None_iff)
          then show ?thesis by (simp add: withdrawn_def)
        next
          case (Some sg')
          then have "sg' = sg"
            using dispatch_critical_mono [of "terminal s" ev w sg'] critical True sg(1) by simp
          then show ?thesis using Some out by (auto simp: withdrawn_def)
        qed
      next
        case (started i q a m)
        have "work_id (request (normal s ! i)) \<noteq> w"
          using sg(1) flight_iff [of w s] sched_invD(4) [OF inv] dispatched_id_seen [OF inv started(3)]
          unfolding inv_ids_def by blast
        then have "map_of (in_flight (terminal ?t)) w = Some sg"
          using started True sg(1) by (simp add: started_def)
        then show ?thesis using out by (auto simp: withdrawn_def)
      qed (use True sg out in \<open>auto simp: withdrawn_def\<close>)
    next
      case False
      then show ?thesis
        using quiet_step_other [OF False, of s] sg(1) out by (auto simp: quiet_step_def withdrawn_def)
    qed
  qed
  show "\<not> publishes w (snd (sched_step s cmd))"
  proof
    assume pub: "publishes w (snd (sched_step s cmd))"
    then obtain rid where cmd: "cmd = DispatchNext"
        "snd (dispatch_next s) = Inr (Some (Critical (DCompletion (Publish w rid))))"
      by (rule publishes_dispatch)
    from inv obtain n ev rest where "snd (dispatch_critical (terminal s) ev) = DCompletion (Publish w rid)"
      by (cases rule: dispatch_next_cases) (use cmd in auto)
    from dispatch_critical_publish [OF this] have "\<not> withdrawn w s"
      by (auto simp: withdrawn_def retired_def outdated_def map_of_eq_None_iff [symmetric]
          dest: map_of_SomeD)
    with wd show False by simp
  qed
qed

lemma withdrawn_run:
  assumes "sched_inv s" "withdrawn w s"
  shows "\<not> (\<exists>r \<in> set (snd (run_machine sched_step s cmds)). publishes w r)"
  using assms
proof (induction cmds arbitrary: s)
  case (Cons c cs)
  then show ?case
    using withdrawn_step [OF Cons.prems, of c] sched_inv_step [OF Cons.prems(1), of c] by auto
qed simp

text \<open>C4: once the session of an in-flight work closes or advances to a newer generation, no
  later command ever publishes the result of that work.\<close>

theorem stale_work_never_published:
  assumes reach: "sched_reachable l s"
    and live: "map_of (in_flight (terminal s)) w = Some sg"
    and out: "outdated (terminal s) sg"
  shows "\<not> (\<exists>r \<in> set (snd (run_machine sched_step s cmds)). publishes w r)"
  using withdrawn_run reachable_inv [OF reach] live out by (auto simp: withdrawn_def)

theorem stale_work_never_published_witness:
  "\<not> (\<exists>r \<in> set (snd (run_machine sched_step
        (run_from_new demo_limits (demo_cmds @ [DispatchNext, AdvanceGeneration 1 2]))
        [EnqueueCompletion (demo_signal 11 1 1) 7, DispatchNext])). publishes 11 r)"
proof (rule stale_work_never_published [OF demo_reachable, where sg = "demo_signal 11 1 1"])
  show "map_of (in_flight (terminal
      (run_from_new demo_limits (demo_cmds @ [DispatchNext, AdvanceGeneration 1 2])))) 11 =
    Some (demo_signal 11 1 1)"
    by (simp add: sched_exec demo_cmds_def demo_signal_def)
  show "outdated (terminal (run_from_new demo_limits (demo_cmds @ [DispatchNext, AdvanceGeneration 1 2])))
     (demo_signal 11 1 1)"
    by (simp add: sched_exec demo_cmds_def demo_signal_def outdated_def)
qed

section \<open>Admission\<close>

text \<open>C7: the reservation keeps queue capacity for its session. A request for a free slot of an
  open session at its current generation, while that session has fewer queued requests than its
  reservation, is never refused for lack of queue capacity, however full the other sessions have
  made the queue: it is queued last, unless its work identity was used before, the enqueue counter
  has reached the largest u64, or the work-id history of the epoch is full. That history is shared
  by all sessions and is never pruned, so it is the one resource that other sessions can use up.
  A refusal leaves the scheduler as it was.\<close>

theorem reservation_guarantee:
  assumes reach: "sched_reachable l s" and run: "phase s = Running"
    and op: "session_phase (terminal s) (session_id req) = Some Open"
    and gen: "current_generation (terminal s) (session_id req) = Some (generation req)"
    and few: "length (queued_for s (session_id req)) < per_session_reservation l"
    and slot: "\<forall>e \<in> set (queued_for s (session_id req)). replace_key (request e) \<noteq> replace_key req"
  shows "snd (submit s req) =
      (if work_id req \<in> seen_work_ids s then Inl (DuplicateWorkId (work_id req))
       else if next_enqueue_order s = u64_max then Inl AdmissionCounterExhausted
       else if card (seen_work_ids s) = max_work_ids_per_epoch l then Inl WorkIdHistoryFull
       else Inr (Enqueued None)) \<and>
    (if snd (submit s req) = Inr (Enqueued None)
     then normal (fst (submit s req)) =
       normal s @ [\<lparr>request = req, enqueue_order = next_enqueue_order s, enqueue_tick = tick s\<rparr>]
     else fst (submit s req) = s)"
proof -
  have inv: "sched_inv s" and l: "limits s = l" using reachable_inv [OF reach] by auto
  note reg = sched_invD(1) [OF inv] and room = sched_invD(3) [OF inv]
  have lim: "limits_ok l" and wf: "wf_map (sessions s)"
    using reg l by (auto simp: inv_registry_def)
  obtain q where q: "map_of (sessions s) (session_id req) = Some q"
    using registry_lookup [OF reg, of "session_id req"] gen by (cases "map_of (sessions s) (session_id req)") auto
  have queued: "queued q = length (queued_for s (session_id req))"
    using room q by (simp add: inv_room_def)
  have "unused_open_reservations s None =
      unused_open_reservations s (Some (session_id req)) + (per_session_reservation l - queued q)"
    using unused_open_reservations_split [OF q wf] op l by (simp add: reserve_of_def)
  moreover have "length (normal s) + unused_open_reservations s None \<le> normal_capacity l"
    using room l by (simp add: inv_room_def)
  ultimately have "length (normal s) + 1 + unused_open_reservations s (Some (session_id req))
      \<le> normal_capacity l"
    using few queued by linarith
  moreover have "normal_capacity l \<le> u64_max" "queued q \<noteq> per_session_capacity l"
    using lim few queued by (auto simp: limits_ok_def)
  moreover have "position (same_slot req) (normal s) = None"
    using slot by (auto simp: position_None_iff same_slot_def queued_for_def)
  ultimately show ?thesis
    using run op gen q l
    by (simp add: submit_def admit_def enqueue_new_def reserve_work_id_def checked_add_def)
qed

theorem reservation_guarantee_witness:
  "snd (submit (run_from_new demo_limits
       (butlast demo_cmds @ [Submit (demo_request 12 1 1 2 P4)])) (demo_request 20 2 1 0 P2)) =
     Inr (Enqueued None)"
proof -
  let ?s = "run_from_new demo_limits (butlast demo_cmds @ [Submit (demo_request 12 1 1 2 P4)])"
    and ?r = "demo_request 20 2 1 0 P2"
  have "phase ?s = Running" "session_phase (terminal ?s) (session_id ?r) = Some Open"
    "current_generation (terminal ?s) (session_id ?r) = Some (generation ?r)"
    "length (queued_for ?s (session_id ?r)) < per_session_reservation demo_limits"
    "\<forall>e \<in> set (queued_for ?s (session_id ?r)). replace_key (request e) \<noteq> replace_key ?r"
    by (simp_all add: sched_exec demo_cmds_def queued_for_def)
  note ok = reservation_guarantee [OF demo_reachable this]
  moreover have "work_id ?r \<notin> seen_work_ids ?s" "next_enqueue_order ?s \<noteq> u64_max"
    "card (seen_work_ids ?s) \<noteq> max_work_ids_per_epoch demo_limits"
    by (simp_all add: sched_exec demo_cmds_def)
  ultimately show ?thesis by simp
qed

text \<open>C9: a request for a newer generation supersedes everything its session has queued, even
  when the request itself is then refused: the session moves to the new generation, none of its
  older requests stays in the queue, and the other sessions' requests are untouched.\<close>

theorem submit_newer_generation_supersedes:
  assumes reach: "sched_reachable l s" and run: "phase s = Running"
    and op: "session_phase (terminal s) (session_id req) = Some Open"
    and gen: "current_generation (terminal s) (session_id req) = Some g" "g < generation req"
  shows "current_generation (terminal (fst (submit s req))) (session_id req) = Some (generation req) \<and>
    (\<forall>e \<in> set (queued_for (fst (submit s req)) (session_id req)). request e = req) \<and>
    filter (\<lambda>e. session_id (request e) \<noteq> session_id req) (normal (fst (submit s req))) =
    filter (\<lambda>e. session_id (request e) \<noteq> session_id req) (normal s)"
proof -
  have inv: "sched_inv s" using reachable_inv [OF reach] by simp
  obtain st where st: "map_of (arb_sessions (terminal s)) (session_id req) = Some st"
    using op by (auto simp: session_phase_def)
  then obtain s' adv where adv: "advance_generation s (session_id req) (generation req) = (s', Inr adv)"
    using run op gen views_lookup [OF st]
    by (simp add: advance_generation_def arb_advance_generation_def split_def Let_def)
  note eff = advance_generation_success [OF adv]
  have sub: "submit s req = admit s' req (Some adv)"
    using run op gen adv by (simp add: submit_def)
  have none: "\<not> same_slot req e" if "e \<in> set (normal s')" for e
    using that eff by (auto simp: same_slot_def)
  then have "position (same_slot req) (normal s') = None"
    by (simp add: position_None_iff)
  then have new: "submit s req = enqueue_new s' req (Some adv)"
    using sub by (simp add: admit_def)
  have fin: "normal (fst (submit s req)) = normal s' \<or>
      (\<exists>e. request e = req \<and> normal (fst (submit s req)) = normal s' @ [e])"
    and same: "current_generation (terminal (fst (submit s req))) = current_generation (terminal s')"
    by (cases rule: enqueue_new_cases [of s' req "Some adv"]; auto simp: new)+
  show ?thesis
    using fin same eff by (auto simp: queued_for_def)
qed

theorem submit_newer_generation_supersedes_witness:
  "current_generation (terminal (fst (submit (run_from_new demo_limits demo_cmds)
       (demo_request 10 1 2 0 P0)))) 1 = Some 2 \<and>
   snd (submit (run_from_new demo_limits demo_cmds) (demo_request 10 1 2 0 P0)) =
     Inl (DuplicateWorkId 10)"
proof -
  let ?s = "run_from_new demo_limits demo_cmds" and ?r = "demo_request 10 1 2 0 P0"
  have "phase ?s = Running" "session_phase (terminal ?s) (session_id ?r) = Some Open"
    "current_generation (terminal ?s) (session_id ?r) = Some 1" "1 < generation ?r"
    by (simp_all add: sched_exec demo_cmds_def)
  from submit_newer_generation_supersedes [OF demo_reachable this] show ?thesis
    by (simp add: sched_exec demo_cmds_def)
qed

lemma position_unique:
  assumes "i < length xs" "P (xs ! i)" "\<And>j. j < length xs \<Longrightarrow> P (xs ! j) \<Longrightarrow> j = i"
  shows "position P xs = Some i"
proof (cases "position P xs")
  case None
  then show ?thesis using assms(1,2) position_None_iff [of P xs] nth_mem by blast
next
  case (Some j)
  then show ?thesis using assms(3) position_SomeD [OF Some] by blast
qed

lemma occupied_slot_position:
  assumes inv: "sched_inv s" and i: "i < length (normal s)"
    and sid: "session_id (request (normal s ! i)) = session_id req"
    and key: "replace_key (request (normal s ! i)) = replace_key req"
    and gen: "current_generation (terminal s) (session_id req) = Some (generation req)"
  shows "position (same_slot req) (normal s) = Some i"
proof (rule position_unique [OF i])
  show "same_slot req (normal s ! i)"
    using queue_entry(2) [OF sched_invD(2) [OF inv], of "normal s ! i"] i sid key gen
    by (simp add: same_slot_def)
  fix j assume j: "j < length (normal s)" "same_slot req (normal s ! j)"
  then have "map slot_of (normal s) ! j = map slot_of (normal s) ! i"
    using i sid key by (simp add: slot_of_def same_slot_def)
  moreover have "distinct (map slot_of (normal s))"
    using sched_invD(2) [OF inv] by (simp add: inv_queue_def)
  ultimately show "j = i" using i j(1) by (metis length_map nth_eq_iff_index_eq)
qed

text \<open>Only a request that ends up in the queue is accepted, so an identity that was queued and
  is not any more stays refused for good.\<close>

lemma accepted_is_queued:
  assumes "sched_inv s" "snd (submit s req) = Inr out"
  shows "work_id req \<in> set (normal_ids (fst (submit s req)))"
proof -
  have adm: "work_id req \<in> set (normal_ids (fst (admit t req adv)))"
    if "snd (admit t req adv) = Inr out" for t adv
  proof (cases "position (same_slot req) (normal t)")
    case None
    then show ?thesis
      by (cases rule: enqueue_new_cases [of t req adv])
        (use that in \<open>auto simp: admit_def normal_ids_def\<close>)
  next
    case (Some i)
    note len = position_SomeD [OF Some]
    have "work_id req \<in> set (normal_ids (u\<lparr>normal := replaced_at t i req\<rparr>))" for u :: scheduler
      using len by (auto simp: normal_ids_def replaced_at_def map_update intro!: set_update_memI)
    then show ?thesis
      using Some that
      by (cases rule: coalesce_cases [of t i req adv]) (auto simp: admit_def)
  qed
  show ?thesis
    using assms(2) adm
    by (auto simp: submit_def split: option.splits prod.splits sum.splits if_splits)
qed

lemma launched_refused:
  assumes inv: "sched_inv s" and gone: "launched w s" and w: "work_id req = w"
  shows "snd (submit (fst (run_machine sched_step s cmds)) req) \<noteq> Inr out"
proof -
  have run: "launched w (fst (run_machine sched_step s cmds))"
    using inv gone
    by (induction cmds arbitrary: s) (auto intro: sched_inv_step dispatch_once.spent_step)
  then show ?thesis
    using accepted_is_queued [OF dispatch_once.run_inv [OF inv]] w
      launched_ids_step [OF ids_step_submit run] by (auto simp: launched_def)
qed

text \<open>C10: a request for an occupied slot (same session, same replace key) of the current
  generation replaces the queued request in place. It is refused, with the state unchanged, only
  when its work identity is a used one other than the identity it replaces, or is new and the
  work-id history is full. Otherwise it is answered with the displaced and the new identity; the
  entry keeps its position, enqueue order and tick, and nothing else of the scheduler changes
  but the history, which gains the new identity. The displaced identity, when it differs from the
  new one (a request may replace itself), is refused in every later submission.\<close>

theorem coalesce_replaces_in_place:
  assumes reach: "sched_reachable l s" and run: "phase s = Running"
    and i: "i < length (normal s)"
    and sid: "session_id (request (normal s ! i)) = session_id req"
    and key: "replace_key (request (normal s ! i)) = replace_key req"
    and gen: "current_generation (terminal s) (session_id req) = Some (generation req)"
    and old: "old = work_id (request (normal s ! i))"
  shows "submit s req =
      (if work_id req \<noteq> old \<and> work_id req \<in> seen_work_ids s
       then (s, Inl (DuplicateWorkId (work_id req)))
       else if work_id req \<noteq> old \<and> card (seen_work_ids s) = max_work_ids_per_epoch l
       then (s, Inl WorkIdHistoryFull)
       else (s\<lparr>seen_work_ids := insert (work_id req) (seen_work_ids s),
               normal := take i (normal s) @
                 \<lparr>request = req, enqueue_order = enqueue_order (normal s ! i),
                  enqueue_tick = enqueue_tick (normal s ! i)\<rparr> # drop (Suc i) (normal s)\<rparr>,
             Inr (Coalesced old (work_id req) None))) \<and>
    (work_id req \<noteq> old \<and> snd (submit s req) = Inr (Coalesced old (work_id req) None) \<longrightarrow>
     (\<forall>cmds req' out. work_id req' = old \<longrightarrow>
        snd (submit (fst (run_machine sched_step (fst (submit s req)) cmds)) req') \<noteq> Inr out))"
proof -
  have inv: "sched_inv s" and l: "limits s = l" using reachable_inv [OF reach] by auto
  have op: "session_phase (terminal s) (session_id req) = Some Open"
    using queue_entry(1) [OF sched_invD(2) [OF inv], of "normal s ! i"] i sid by simp
  have sub: "submit s req = coalesce s i req None"
    using run op gen occupied_slot_position [OF inv i sid key gen] by (simp add: submit_def admit_def)
  have seen: "old \<in> seen_work_ids s" using dispatched_id_seen(1) [OF inv i] old by simp
  have entry: "(normal s)[i := (normal s ! i)\<lparr>request := req\<rparr>] = take i (normal s) @
      \<lparr>request = req, enqueue_order = enqueue_order (normal s ! i),
       enqueue_tick = enqueue_tick (normal s ! i)\<rparr> # drop (Suc i) (normal s)"
    using i by (cases "normal s ! i") (simp add: upd_conv_take_nth_drop)
  have ans: "submit s req =
      (if work_id req \<noteq> old \<and> work_id req \<in> seen_work_ids s
       then (s, Inl (DuplicateWorkId (work_id req)))
       else if work_id req \<noteq> old \<and> card (seen_work_ids s) = max_work_ids_per_epoch l
       then (s, Inl WorkIdHistoryFull)
       else (s\<lparr>seen_work_ids := insert (work_id req) (seen_work_ids s),
               normal := (normal s)[i := (normal s ! i)\<lparr>request := req\<rparr>]\<rparr>,
             Inr (Coalesced old (work_id req) None)))"
    using seen l by (simp add: sub coalesce_def reserve_work_id_def old Let_def insert_absorb)
  have "snd (submit (fst (run_machine sched_step (fst (submit s req)) cmds)) req') \<noteq> Inr out"
    if "work_id req \<noteq> old" "snd (submit s req) = Inr (Coalesced old (work_id req) None)"
      "work_id req' = old" for cmds req' out
  proof (rule launched_refused [OF sched_inv_submit [OF inv] _ that(3)])
    have "distinct (normal_ids s)" using sched_invD(4) [OF inv] by (simp add: inv_ids_def)
    then have "old \<notin> set ((normal_ids s)[i := work_id req])"
      using i old that(1) by (simp add: normal_ids_def set_update_distinct)
    moreover have "normal_ids (fst (submit s req)) = (normal_ids s)[i := work_id req]"
      "old \<in> seen_work_ids (fst (submit s req))"
      using ans that(1,2) seen by (auto simp: normal_ids_def map_update split: if_splits)
    ultimately show "launched old (fst (submit s req))" by (simp add: launched_def)
  qed
  then show ?thesis using ans [unfolded entry] by blast
qed

theorem coalesce_replaces_in_place_witness:
  "map enqueue_order (normal (fst (submit (run_from_new demo_limits demo_cmds)
     (demo_request 15 1 1 0 P0)))) = [0, 1, 2] \<and>
   snd (submit (run_from_new demo_limits demo_cmds) (demo_request 15 1 1 0 P0)) =
     Inr (Coalesced 10 15 None) \<and>
   snd (submit (fst (run_machine sched_step (fst (submit (run_from_new demo_limits demo_cmds)
     (demo_request 15 1 1 0 P0))) [DispatchNext])) (demo_request 10 1 1 0 P0)) \<noteq> Inr (Enqueued None)"
proof -
  let ?s = "run_from_new demo_limits demo_cmds" and ?r = "demo_request 15 1 1 0 P0"
  have "phase ?s = Running" "0 < length (normal ?s)"
    "session_id (request (normal ?s ! 0)) = session_id ?r"
    "replace_key (request (normal ?s ! 0)) = replace_key ?r"
    "current_generation (terminal ?s) (session_id ?r) = Some (generation ?r)"
    "10 = work_id (request (normal ?s ! 0))"
    by (simp_all add: sched_exec demo_cmds_def)
  note ok = coalesce_replaces_in_place [OF demo_reachable this]
  have fresh: "work_id ?r \<notin> seen_work_ids ?s" "work_id ?r \<noteq> 10" "work_id ?r = 15"
      "work_id (demo_request 10 1 1 0 P0) = 10"
      "card (seen_work_ids ?s) \<noteq> max_work_ids_per_epoch demo_limits"
      "enqueue_order (normal ?s ! 0) = 0" "map enqueue_order (drop (Suc 0) (normal ?s)) = [1, 2]"
    by (simp_all add: sched_exec demo_cmds_def)
  then have ans: "snd (submit ?s ?r) = Inr (Coalesced 10 15 None)"
      "map enqueue_order (normal (fst (submit ?s ?r))) = [0, 1, 2]"
    using ok by simp_all
  moreover have "snd (submit (fst (run_machine sched_step (fst (submit ?s ?r)) [DispatchNext]))
      (demo_request 10 1 1 0 P0)) \<noteq> Inr (Enqueued None)"
    using conjunct2 [OF ok] ans(1) fresh(2-4) by metis
  ultimately show ?thesis by blast
qed

section \<open>Aging\<close>

text \<open>A queued request has aged to the cap once it waited \<open>max_aging_steps\<close> quanta.\<close>

definition aged :: "scheduler \<Rightarrow> queued_work \<Rightarrow> bool" where
  "aged s e \<longleftrightarrow>
     max_aging_steps (limits s) \<le> (tick s - enqueue_tick e) div aging_quantum_ticks (limits s)"

lemma aged_key_less:
  assumes l: "limits s = l" "max_aging_steps l \<le> 255" and e: "aged s e"
  shows "\<not> aged s e' \<Longrightarrow> entry_key s e < entry_key s e'"
    "aged s e' \<Longrightarrow> 4 \<le> max_aging_steps l \<Longrightarrow> enqueue_order e < enqueue_order e' \<Longrightarrow>
       entry_key s e < entry_key s e'"
proof -
  have rank: "priority_rank p \<le> 4" for p by (cases p) auto
  have steps: "min (n :: nat) (max_aging_steps l) \<le> 255" for n using l(2) by simp
  have capped: "(min ((tick s - enqueue_tick x) div aging_quantum_ticks l) (max_aging_steps l) =
      max_aging_steps l) = aged s x" for x
    by (auto simp: aged_def l(1) min_def)
  have zero: "priority_rank p - max_aging_steps l = 0" if "4 \<le> max_aging_steps l" for p
    using rank [of p] that by simp
  have full: "min ((tick s - enqueue_tick x) div aging_quantum_ticks l) (max_aging_steps l) =
      max_aging_steps l" if "aged s x" for x
    using that by (simp add: aged_def l(1))
  show "entry_key s e < entry_key s e'" if "\<not> aged s e'"
    using e steps that
    by (simp add: entry_key_def for_request_def Let_def less_scheduling_key_def saturating_sub_def
        l(1) capped)
  show "entry_key s e < entry_key s e'"
    if "aged s e'" "4 \<le> max_aging_steps l" "enqueue_order e < enqueue_order e'"
    using that l(2)
    by (simp add: entry_key_def for_request_def Let_def less_scheduling_key_def saturating_sub_def
        l(1) full [OF e] full [OF that(1)] zero)
qed

text \<open>C11: aging bounds starvation by priority. Take an aged request \<open>e\<close> that is queued when a
  normal dispatch happens and whose session is inside the fairness window of that dispatch, as it
  is when the dispatched request is of the same session. Then the dispatched request is aged too,
  whatever the priorities and distances are; and when the aging cap covers the whole priority
  range it was queued no later than \<open>e\<close>. So inside a session no request is served before an aged
  one that has not aged itself, and aged requests leave in the order in which they were queued.
  Between sessions the fairness window comes first: an aged request of a session outside the
  window can be passed by a later request of another session.\<close>

theorem aged_work_precedes:
  assumes reach: "sched_reachable l s"
    and disp: "dispatch_next s = (s', Inr (Some (Normal work)))"
    and e: "e \<in> set (normal s)" "aged s e"
    and window: "session_id (sw_request work) = session_id (request e) \<or>
      (\<exists>q. map_of (sessions s) (session_id (request e)) = Some q \<and>
         last_service_turn q < exclusive_turn_limit (sw_fairness work))"
  shows "\<exists>e0 \<in> set (normal s). sw_request work = request e0 \<and> aged s e0 \<and>
    (4 \<le> max_aging_steps l \<longrightarrow> enqueue_order e0 \<le> enqueue_order e)"
proof -
  have inv: "sched_inv s" and l: "limits s = l" "max_aging_steps l \<le> 255"
    using reachable_inv [OF reach] by auto
  from inv show ?thesis
  proof (cases rule: dispatch_next_cases)
    case (started i q a m)
    let ?e0 = "normal s ! i"
    have work: "sw_request work = request ?e0"
        "exclusive_turn_limit (sw_fairness work) = m + fairness_burst (limits s)"
      using disp started(11) by auto
    have "eligible s (m + fairness_burst (limits s)) e"
      using window work started(4,6) by (auto simp: eligible_def)
    then have le: "\<not> entry_key s e < entry_key s ?e0" using started(7) e(1) by (simp add: leD)
    then have "aged s ?e0" using aged_key_less(1) [OF l e(2)] by blast
    moreover have "enqueue_order ?e0 \<le> enqueue_order e" if "4 \<le> max_aging_steps l"
      using aged_key_less(2) [OF l e(2) calculation that] le by (meson linorder_not_less)
    ultimately show ?thesis using work(1) started(3) by (intro bexI [of _ ?e0]) auto
  qed (use disp in auto)
qed

definition demo_aged :: "command list" where
  "demo_aged = [RegisterSession 1 1, Submit (demo_request 10 1 1 0 P4), AdvanceTick 10,
     Submit (demo_request 11 1 1 1 P0)]"

theorem aged_work_precedes_witness:
  "\<exists>w. snd (dispatch_next (run_from_new demo_limits demo_aged)) = Inr (Some (Normal w)) \<and>
     work_id (sw_request w) = 10"
proof -
  let ?s = "run_from_new demo_limits demo_aged"
  have e: "normal ?s ! 0 \<in> set (normal ?s)" "aged ?s (normal ?s ! 0)"
    and one: "filter (aged ?s) (normal ?s) = [normal ?s ! 0]"
    and id: "work_id (request (normal ?s ! 0)) = 10"
    by (simp_all add: sched_exec demo_aged_def aged_def)
  obtain w where w: "dispatch_next ?s = (fst (dispatch_next ?s), Inr (Some (Normal w)))"
      "session_id (sw_request w) = session_id (request (normal ?s ! 0))"
    by (simp add: sched_exec demo_aged_def)
  obtain e0 where "e0 \<in> set (normal ?s)" "sw_request w = request e0" "aged ?s e0"
    using aged_work_precedes [OF demo_reachable w(1) e] w(2) by auto
  moreover have "e0 \<in> set (filter (aged ?s) (normal ?s))" using calculation by simp
  ultimately have "work_id (sw_request w) = 10" using one id by simp
  then show ?thesis using w(1) by (intro exI [of _ w]) (metis snd_conv)
qed

section \<open>Shutdown\<close>

lemma not_running_step:
  assumes "sched_inv s" "phase s \<noteq> Running"
  shows "phase (fst (sched_step s cmd)) \<noteq> Running" "\<not> starts_reply w (snd (sched_step s cmd))"
proof -
  have inv: "sched_inv (fst (sched_step s cmd))" using sched_inv_step [OF assms(1)] by simp
  have "shutting_down (terminal s)"
    using assms sched_invD(6) by (auto simp: inv_phase_def)
  then have "shutting_down (terminal (fst (sched_step s cmd)))"
    using forward_step [OF assms(1), of cmd] by (simp add: forward_def)
  then show "phase (fst (sched_step s cmd)) \<noteq> Running"
    using sched_invD(6) [OF inv] by (simp add: inv_phase_def)
  show "\<not> starts_reply w (snd (sched_step s cmd))"
  proof (cases "cmd = DispatchNext")
    case True
    from assms(1) show ?thesis
      by (cases rule: dispatch_next_cases) (use True assms(2) in auto)
  qed (simp add: ids_step_quiet)
qed

lemma not_running_unpublished:
  assumes "sched_inv s" "phase s \<noteq> Running"
  shows "\<not> publishes w (snd (sched_step s cmd))"
proof
  assume "publishes w (snd (sched_step s cmd))"
  then obtain rid where cmd: "cmd = DispatchNext"
      "snd (dispatch_next s) = Inr (Some (Critical (DCompletion (Publish w rid))))"
    by (rule publishes_dispatch)
  from assms(1) obtain n ev rest where
      "snd (dispatch_critical (terminal s) ev) = DCompletion (Publish w rid)"
    by (cases rule: dispatch_next_cases) (use cmd in auto)
  from dispatch_critical_publish [OF this] assms(2) sched_invD(6) [OF assms(1)] show False
    by (auto simp: inv_phase_def)
qed

text \<open>C12: from the moment a shutdown begins no further command starts a work or publishes a
  result, whatever is still queued, in flight or reported.\<close>

theorem shutdown_is_final:
  assumes reach: "sched_reachable l s" and down: "phase s \<noteq> Running"
  shows "\<not> (\<exists>r \<in> set (snd (run_machine sched_step s cmds)). \<exists>w. starts_reply w r \<or> publishes w r)"
proof -
  have "sched_inv s" using reachable_inv [OF reach] by simp
  then show ?thesis
    using down
  proof (induction cmds arbitrary: s)
    case (Cons c cs)
    then show ?case
      using sched_inv_step [OF Cons.prems(1), of c] not_running_step [OF Cons.prems, where cmd = c]
        not_running_unpublished [OF Cons.prems] by auto
  qed simp
qed

theorem shutdown_is_final_witness:
  "\<not> (\<exists>r \<in> set (snd (run_machine sched_step
         (run_from_new demo_limits (demo_cmds @ [DispatchNext, BeginShutdown]))
         [EnqueueCompletion (demo_signal 11 1 1) 7, DispatchNext, DispatchNext, DispatchNext])).
       \<exists>w. starts_reply w r \<or> publishes w r)"
  by (rule shutdown_is_final [OF demo_reachable]) (simp add: sched_exec demo_cmds_def)

end
