(* ===== verification/Sched_Live.thy ===== *)
theory Sched_Live
  imports Sched_Props
begin

text \<open>
  Progress of the scheduler: how long a backlogged session can be passed over, and that a
  shutdown can always be completed.
\<close>

section \<open>Fairness between sessions\<close>

text \<open>A session is ahead of a turn when its last service turn reached it.\<close>

definition ahead :: "session_id \<Rightarrow> nat \<Rightarrow> scheduler \<Rightarrow> session_id set" where
  "ahead x t s = {y. y \<noteq> x \<and> (\<exists>v \<ge> t. turn_of s y = Some v)}"

text \<open>The number of normal dispatches that can still pass over the session \<open>x\<close>, last served at
  turn \<open>turn\<close>: the turns left before its burst window closes and the other sessions that have not
  yet used their dispatch behind the window.\<close>

definition bypass_budget :: "session_id \<Rightarrow> nat \<Rightarrow> scheduler \<Rightarrow> nat" where
  "bypass_budget x turn s =
     (turn + fairness_burst (limits s) - next_service_turn s) +
     (max_sessions (limits s) - 1 - card (ahead x (turn + fairness_burst (limits s)) s))"

fun grants :: "reply \<Rightarrow> bool" where
  "grants (ODispatch (Inr (Some (Normal _)))) = True"
| "grants _ = False"

fun serves :: "session_id \<Rightarrow> reply \<Rightarrow> bool" where
  "serves x (ODispatch (Inr (Some (Normal work)))) = (session_id (sw_request work) = x)"
| "serves x _ = False"

text \<open>The session has queued work in every state of the run.\<close>

fun stays_backlogged :: "session_id \<Rightarrow> scheduler \<Rightarrow> command list \<Rightarrow> bool" where
  "stays_backlogged x s [] = (queued_for s x \<noteq> [])"
| "stays_backlogged x s (c # cs) =
     (queued_for s x \<noteq> [] \<and> stays_backlogged x (fst (sched_step s c)) cs)"

lemma turn_of_registered: "turn_of s y = Some v \<Longrightarrow> y \<in> fst ` set (sessions s)"
  by (auto simp: turn_of_def in_keys_iff)

lemma ahead_finite: "finite (ahead x t s)"
  by (rule finite_subset [of _ "fst ` set (sessions s)"])
    (auto simp: ahead_def dest: turn_of_registered)

lemma sessions_bound:
  assumes "sched_inv s"
  shows "card (fst ` set (sessions s)) \<le> max_sessions (limits s)"
proof -
  have reg: "inv_registry s" by (rule sched_invD(1) [OF assms])
  have "card (fst ` set (sessions s)) = length (arb_sessions (terminal s))"
    using reg arb_wfD(1) [of "terminal s"]
    by (metis distinct_card inv_registry_def length_map list.set_map)
  then show ?thesis
    using reg arb_wfD(3) [of "terminal s"] by (simp add: inv_registry_def)
qed

lemma ahead_room:
  assumes inv: "sched_inv s" and x: "turn_of s x = Some L"
    and y: "y \<notin> ahead x t s" "y \<noteq> x" "turn_of s y = Some v"
  shows "card (ahead x t s) < max_sessions (limits s) - 1"
proof -
  have sub: "insert x (insert y (ahead x t s)) \<subseteq> fst ` set (sessions s)"
    using turn_of_registered x y(3) by (auto simp: ahead_def)
  have "x \<notin> insert y (ahead x t s)" using y(2) by (auto simp: ahead_def)
  then have "card (insert x (insert y (ahead x t s))) = Suc (Suc (card (ahead x t s)))"
    using y(1) ahead_finite [of x t s] by simp
  then show ?thesis
    using card_mono [OF _ sub] sessions_bound [OF inv] by simp
qed

lemma budget_quiet:
  assumes "quiet_step s t" "limits t = limits s" "turn_of s x = Some L"
  shows "bypass_budget x L t \<le> bypass_budget x L s \<and> turn_of t x = Some L"
proof -
  have "ahead x n s \<subseteq> ahead x n t" for n
    using assms(1) by (auto simp: ahead_def quiet_step_def)
  then have "card (ahead x n s) \<le> card (ahead x n t)" for n
    by (rule card_mono [OF ahead_finite])
  then show ?thesis
    using assms by (auto simp: bypass_budget_def quiet_step_def intro!: add_left_mono diff_le_mono2)
qed

lemma backlog_minimum:
  assumes "min_of (backlog_turns s) = Some m" "queued_for s x \<noteq> []" "turn_of s x = Some L"
  shows "m \<le> L"
proof -
  obtain e where "e \<in> set (normal s)" "session_id (request e) = x"
    using assms(2) by (auto simp: queued_for_def filter_empty_conv)
  then have "L \<in> set (backlog_turns s)"
    using assms(3) by (fastforce simp: backlog_turns_set turn_of_def)
  then show ?thesis using min_of_Some [OF assms(1)] by blast
qed

lemma budget_served:
  assumes inv: "sched_inv s" and x: "turn_of s x = Some L" and y: "y \<noteq> x" "turn_of s y = Some v"
    and win: "v < L + fairness_burst (limits s)"
    and t: "turn_of t = (turn_of s)(y \<mapsto> next_service_turn s)"
      "next_service_turn t = next_service_turn s + 1" "limits t = limits s"
  shows "bypass_budget x L t < bypass_budget x L s"
proof (cases "next_service_turn s < L + fairness_burst (limits s)")
  case True
  have "ahead x (L + fairness_burst (limits s)) t = ahead x (L + fairness_burst (limits s)) s"
    using True y win by (auto simp: ahead_def t(1))
  then show ?thesis using True t by (simp add: bypass_budget_def)
next
  case False
  let ?A = "ahead x (L + fairness_burst (limits s))"
  have y': "y \<notin> ?A s" using y win by (auto simp: ahead_def)
  have "?A t = insert y (?A s)"
    using False y by (auto simp: ahead_def t(1))
  then have "card (?A t) = Suc (card (?A s))"
    using y' ahead_finite by simp
  then show ?thesis
    using False t ahead_room [OF inv x y' y] by (simp add: bypass_budget_def)
qed

lemma budget_step:
  assumes inv: "sched_inv s" and x: "turn_of s x = Some L" and wait: "queued_for s x \<noteq> []"
    and skip: "\<not> serves x (snd (sched_step s cmd))"
  shows "bypass_budget x L (fst (sched_step s cmd)) +
      (if grants (snd (sched_step s cmd)) then 1 else 0) \<le> bypass_budget x L s \<and>
    turn_of (fst (sched_step s cmd)) x = Some L"
proof (cases "cmd = DispatchNext")
  case True
  from inv show ?thesis
  proof (cases rule: dispatch_next_cases)
    case (critical n ev rest)
    then show ?thesis
      using True x by (simp add: bypass_budget_def ahead_def turn_of_def)
  next
    case (started i q a m)
    let ?y = "session_id (request (normal s ! i))" and ?t = "started s i a q"
    have y: "?y \<noteq> x" "turn_of s ?y = Some (last_service_turn q)"
      using started skip True by (auto simp: turn_of_def)
    have win: "last_service_turn q < L + fairness_burst (limits s)"
      using backlog_minimum [OF started(5) wait x] started(6) by linarith
    have t: "turn_of ?t = (turn_of s)(?y \<mapsto> next_service_turn s)"
      "next_service_turn ?t = next_service_turn s + 1" "limits ?t = limits s"
      by (auto simp: started_def turn_of_def)
    show ?thesis
      using budget_served [OF inv x y win t] started(11) True t(1) x y(1) by simp
  qed (use True x in auto)
next
  case False
  have "\<not> grants (snd (sched_step s cmd))"
    using False by (cases cmd) auto
  then show ?thesis
    using budget_quiet [OF quiet_step_other [OF False] limits_step x] by simp
qed

lemma bypass_run:
  assumes "sched_inv s" "turn_of s x = Some L" "stays_backlogged x s cmds"
    "\<not> (\<exists>r \<in> set (snd (run_machine sched_step s cmds)). serves x r)"
  shows "length (filter grants (snd (run_machine sched_step s cmds))) \<le> bypass_budget x L s"
  using assms
proof (induction cmds arbitrary: s)
  case (Cons c cs)
  then have wait: "queued_for s x \<noteq> []" and skip: "\<not> serves x (snd (sched_step s c))" by auto
  note step = budget_step [OF Cons.prems(1,2) wait skip]
  then have "length (filter grants (snd (run_machine sched_step (fst (sched_step s c)) cs)))
      \<le> bypass_budget x L (fst (sched_step s c))"
    using Cons sched_inv_step [OF Cons.prems(1)] by auto
  then show ?case using step by auto
qed simp

text \<open>C2: bounded bypass. While a session stays backlogged, at most
  \<open>fairness_burst + max_sessions - 2\<close> normal dispatches go to other sessions before it is served,
  whatever the other sessions submit, however they rank and whatever else happens meanwhile.\<close>

theorem bounded_bypass:
  assumes reach: "sched_reachable l s" and wait: "stays_backlogged x s cmds"
    and many: "fairness_burst l + max_sessions l - 2
       < length (filter grants (snd (run_machine sched_step s cmds)))"
  shows "\<exists>r \<in> set (snd (run_machine sched_step s cmds)). serves x r"
proof (rule ccontr)
  assume skip: "\<not> (\<exists>r \<in> set (snd (run_machine sched_step s cmds)). serves x r)"
  have inv: "sched_inv s" and l: "limits s = l" using reachable_inv [OF reach] by auto
  have "queued_for s x \<noteq> []" using wait by (cases cmds) auto
  then obtain e where "e \<in> set (normal s)" "session_id (request e) = x"
    by (auto simp: queued_for_def filter_empty_conv)
  then obtain q where q: "map_of (sessions s) x = Some q"
    using entry_registered [OF inv] by blast
  then have turn: "turn_of s x = Some (last_service_turn q)" "last_service_turn q < next_service_turn s"
    using sched_invD(1) [OF inv] by (auto simp: turn_of_def inv_registry_def)
  have "limits_ok l" using sched_invD(1) [OF inv] l by (simp add: inv_registry_def)
  then have "bypass_budget x (last_service_turn q) s \<le> fairness_burst l + max_sessions l - 2"
    using turn(2) l by (auto simp: bypass_budget_def limits_ok_def)
  then show False
    using bypass_run [OF inv turn(1) wait skip] many by simp
qed

definition demo_busy :: "command list" where
  "demo_busy = [RegisterSession 1 1, RegisterSession 2 1,
     Submit (demo_request 20 2 1 0 P4), Submit (demo_request 21 2 1 1 P4),
     Submit (demo_request 10 1 1 0 P0), Submit (demo_request 11 1 1 1 P0)]"

definition demo_serve :: "command list" where
  "demo_serve = [DispatchNext, DispatchNext, EnqueueFailure (demo_signal 10 1 1), DispatchNext,
     Submit (demo_request 12 1 1 0 P0), DispatchNext]"

theorem bounded_bypass_witness:
  "\<exists>r \<in> set (snd (run_machine sched_step (run_from_new demo_limits demo_busy) demo_serve)). serves 2 r"
proof (rule bounded_bypass [OF demo_reachable])
  show "stays_backlogged 2 (run_from_new demo_limits demo_busy) demo_serve"
    by (simp add: sched_exec demo_busy_def demo_serve_def demo_signal_def queued_for_def)
  show "fairness_burst demo_limits + max_sessions demo_limits - 2 <
    length (filter grants (snd (run_machine sched_step (run_from_new demo_limits demo_busy) demo_serve)))"
    by (simp add: sched_exec demo_busy_def demo_serve_def demo_signal_def)
qed

section \<open>Completing a shutdown\<close>

text \<open>The shutdown procedure of a caller: drain the pending critical events, cancel every work
  that was in flight, then ask the scheduler to finish.\<close>

definition drain :: "scheduler \<Rightarrow> command list" where
  "drain s = replicate (length (critical s)) DispatchNext @
     concat (map (\<lambda>(w, sg). [EnqueueCancel sg, DispatchNext]) (in_flight (terminal s)))"

abbreviation run_sched :: "scheduler \<Rightarrow> command list \<Rightarrow> scheduler" where
  "run_sched s cmds \<equiv> fst (run_machine sched_step s cmds)"

lemma drain_critical:
  assumes "n = length (critical s)"
  shows "critical (run_sched s (replicate n DispatchNext)) = [] \<and>
    phase (run_sched s (replicate n DispatchNext)) = phase s \<and>
    limits (run_sched s (replicate n DispatchNext)) = limits s \<and>
    sessions (run_sched s (replicate n DispatchNext)) = sessions s \<and>
    next_critical_order (run_sched s (replicate n DispatchNext)) = next_critical_order s \<and>
    (\<forall>w sg. map_of (in_flight (terminal (run_sched s (replicate n DispatchNext)))) w = Some sg \<longrightarrow>
       map_of (in_flight (terminal s)) w = Some sg)"
  using assms
proof (induction n arbitrary: s)
  case (Suc n)
  then obtain m ev rest where c: "critical s = (m, ev) # rest"
    by (metis Suc_length_conv prod.exhaust)
  let ?t = "s\<lparr>critical := rest, terminal := fst (dispatch_critical (terminal s) ev)\<rparr>"
  have step: "fst (sched_step s DispatchNext) = ?t"
    using c by (simp add: dispatch_next_def split_def Let_def)
  have "n = length (critical ?t)" using Suc.prems c by simp
  from Suc.IH [OF this] show ?case
    unfolding replicate_Suc run_machine_Cons step by (auto dest: dispatch_critical_mono)
qed simp

lemma drain_cancel_one:
  assumes "critical s = []" "phase s = ShuttingDown" "sched_inv s"
    "map_of (sessions s) (sig_session_id sg) \<noteq> None" "next_critical_order s < u64_max"
  defines "t \<equiv> run_sched s [EnqueueCancel sg, DispatchNext]"
  shows "critical t = []" "phase t = ShuttingDown" "sessions t = sessions s" "limits t = limits s"
    "next_critical_order t = next_critical_order s + 1" "sched_inv t"
    "map_of (in_flight (terminal s)) w = Some sg' \<Longrightarrow> sg' = sg \<Longrightarrow>
       map_of (in_flight (terminal t)) w = None"
    "map_of (in_flight (terminal t)) w = Some sg' \<Longrightarrow> map_of (in_flight (terminal s)) w = Some sg'"
proof -
  have "0 < critical_capacity (limits s)"
    using sched_invD(1) [OF assms(3)] by (simp add: inv_registry_def limits_ok_def)
  then have t: "t = s\<lparr>next_critical_order := next_critical_order s + 1,
      terminal := fst (arb_cancel (terminal s) sg)\<rparr>"
    using assms(1-5)
    by (auto simp: t_def enqueue_cancel_def enqueue_critical_def dispatch_next_def split_def Let_def)
  show "critical t = []" "phase t = ShuttingDown" "sessions t = sessions s" "limits t = limits s"
    "next_critical_order t = next_critical_order s + 1"
    using assms(1-5) by (simp_all add: t)
  show "sched_inv t"
    unfolding t_def by (rule dispatch_once.run_inv [OF assms(3)])
  have wf: "sig_work_id sg' = w" if "map_of (in_flight (terminal s)) w = Some sg'"
    using that sched_invD(1) [OF assms(3)] arb_wfD(5) by (auto simp: inv_registry_def)
  have fl: "map_of (in_flight (terminal t)) w =
      (if sig_work_id sg = w \<and> map_of (in_flight (terminal s)) w = Some sg then None
       else map_of (in_flight (terminal s)) w)"
    using dispatch_critical_in_flight [of "terminal s" "Cancel sg" w]
    by (auto simp: t split_def Let_def)
  show "map_of (in_flight (terminal t)) w = None"
    if "map_of (in_flight (terminal s)) w = Some sg'" "sg' = sg"
    using that wf fl by auto
  show "map_of (in_flight (terminal s)) w = Some sg'"
    if "map_of (in_flight (terminal t)) w = Some sg'"
    using that fl by (auto split: if_splits)
qed

lemma drain_cancel_all:
  assumes "critical s = []" "phase s = ShuttingDown" "sched_inv s"
    "\<And>w sg. (w, sg) \<in> set fl \<Longrightarrow> map_of (sessions s) (sig_session_id sg) \<noteq> None"
    "next_critical_order s + length fl \<le> u64_max"
    "\<And>w sg. map_of (in_flight (terminal s)) w = Some sg \<Longrightarrow> (w, sg) \<in> set fl"
  shows "critical (run_sched s (concat (map (\<lambda>(w, sg). [EnqueueCancel sg, DispatchNext]) fl))) = [] \<and>
    phase (run_sched s (concat (map (\<lambda>(w, sg). [EnqueueCancel sg, DispatchNext]) fl))) = ShuttingDown \<and>
    in_flight (terminal (run_sched s (concat (map (\<lambda>(w, sg). [EnqueueCancel sg, DispatchNext]) fl)))) = []"
  using assms
proof (induction fl arbitrary: s)
  case Nil
  then have "map_of (in_flight (terminal s)) w = None" for w
    by (metis empty_iff list.set(1) not_None_eq)
  then have "in_flight (terminal s) = []"
    by (metis list.set_intros(1) map_of_eq_None_iff neq_Nil_conv image_eqI)
  then show ?case using Nil by simp
next
  case (Cons x fl)
  obtain v sg where x: "x = (v, sg)" by (cases x)
  let ?t = "run_sched s [EnqueueCancel sg, DispatchNext]"
  have ses: "map_of (sessions s) (sig_session_id sg) \<noteq> None" using Cons.prems(4) x by auto
  have ord: "next_critical_order s < u64_max" using Cons.prems(5) by simp
  note one = drain_cancel_one [OF Cons.prems(1-3) ses ord]
  have "(w, sg') \<in> set fl" if "map_of (in_flight (terminal ?t)) w = Some sg'" for w sg'
  proof -
    have "map_of (in_flight (terminal s)) w = Some sg'" using one(8) [OF that] .
    moreover from this have "sg' \<noteq> sg" using one(7) that by fastforce
    ultimately show ?thesis using Cons.prems(6) x by fastforce
  qed
  moreover have "next_critical_order ?t + length fl \<le> u64_max"
    using one(5) Cons.prems(5) by simp
  moreover have "map_of (sessions ?t) (sig_session_id sg') \<noteq> None" if "(w, sg') \<in> set fl" for w sg'
    using that Cons.prems(4) one(3) by auto
  ultimately show ?case
    using Cons.IH [OF one(1,2,6)] by (simp add: x)
qed

text \<open>C13: a shutdown always completes. From any reachable state that is shutting down, draining
  the pending events and cancelling what is still in flight lets the scheduler terminate,
  provided the event counter has room for the cancellations.\<close>

theorem shutdown_completes:
  assumes reach: "sched_reachable l s" and down: "phase s = ShuttingDown"
    and counter: "next_critical_order s + in_flight_len (terminal s) \<le> u64_max"
  shows "snd (sched_step (fst (run_machine sched_step s (drain s))) TryFinishShutdown) = OFinish True \<and>
    phase (fst (run_machine sched_step s (drain s @ [TryFinishShutdown]))) = Terminated"
proof -
  have inv: "sched_inv s" using reachable_inv [OF reach] by simp
  define u where "u = run_sched s (replicate (length (critical s)) DispatchNext)"
  note dr = drain_critical [OF refl, of s, folded u_def]
  have inv_u: "sched_inv u" unfolding u_def by (rule dispatch_once.run_inv [OF inv])
  have reg: "map_of (sessions u) (sig_session_id sg) \<noteq> None"
    if "(w, sg) \<in> set (in_flight (terminal s))" for w sg
  proof -
    have wf: "arb_wf (terminal s)" using sched_invD(1) [OF inv] by (simp add: inv_registry_def)
    then have "map_of (in_flight (terminal s)) w = Some sg"
      using that arb_wfD(2) by simp
    then have "current_generation (terminal s) (sig_session_id sg) \<noteq> None"
      using arb_wfD(6) [OF wf] by auto
    then show ?thesis using registry_lookup [OF sched_invD(1) [OF inv]] dr by simp
  qed
  have live: "(w, sg) \<in> set (in_flight (terminal s))"
    if "map_of (in_flight (terminal u)) w = Some sg" for w sg
    using that dr by (auto intro: map_of_mem)
  have "critical (run_sched s (drain s)) = [] \<and> phase (run_sched s (drain s)) = ShuttingDown \<and>
      in_flight (terminal (run_sched s (drain s))) = []"
    unfolding drain_def run_machine_append u_def [symmetric]
    by (rule drain_cancel_all) (use dr down inv_u reg live counter in \<open>auto simp: in_flight_len_def\<close>)
  moreover have "normal (run_sched s (drain s)) = []"
    using sched_invD(6) [OF dispatch_once.run_inv [OF inv]] calculation by (auto simp: inv_phase_def)
  ultimately show ?thesis
    by (simp add: run_machine_append try_finish_shutdown_def in_flight_len_def)
qed

theorem shutdown_completes_witness:
  "phase (fst (run_machine sched_step (run_from_new demo_limits (demo_cmds @ [DispatchNext, BeginShutdown]))
     [DispatchNext, EnqueueCancel (demo_signal 11 1 1), DispatchNext, TryFinishShutdown])) = Terminated"
proof -
  let ?s = "run_from_new demo_limits (demo_cmds @ [DispatchNext, BeginShutdown])"
  have "drain ?s = [DispatchNext, EnqueueCancel (demo_signal 11 1 1), DispatchNext]"
    by (simp add: sched_exec demo_cmds_def demo_signal_def drain_def)
  moreover have "phase ?s = ShuttingDown"
    "next_critical_order ?s + in_flight_len (terminal ?s) \<le> u64_max"
    by (simp_all add: sched_exec demo_cmds_def)
  ultimately show ?thesis
    using shutdown_completes [OF demo_reachable, of "demo_cmds @ [DispatchNext, BeginShutdown]"] by simp
qed

end
