(* ===== verification/Filt_Types.thy ===== *)
theory Filt_Types
  imports Prelude
begin

text \<open>
  Errors, limits and value types of the stream filters (\<open>pdf-rs/filters/src/error.rs\<close>,
  \<open>limits.rs\<close> and the value types of \<open>model.rs\<close>). Sizes and counters are \<open>u64\<close> or a 64-bit
  \<open>usize\<close>, so the conversions between the two are the identity.
\<close>

section \<open>Errors\<close>

datatype decode_limit_kind =
  InputBytes | FilterCount | FilterPlanBytes | LayerOutputBytes | TotalOutputBytes
| FinalOutputBytes | RetainedCapacityBytes | FuelLimit | Allocation

record decode_limit =
  dl_kind :: decode_limit_kind
  dl_limit :: nat
  dl_consumed :: nat
  dl_attempted :: nat

datatype decode_error_code =
  InvalidLimits | InvalidRequest | UnsupportedFilter | MissingEndMarker | TrailingData
| InvalidAsciiHex | InvalidAscii85 | InvalidRunLength | InvalidFlate | UnsupportedFlateDictionary
| InvalidDecodeParameters | UnsupportedDecodeParameters | UnsupportedPredictor
| InvalidPredictorData | ResourceLimit | SourceChanged | CancelledCode | InternalState

datatype decode_error_category =
  Configuration | Syntax | Unsupported | Resource | Integrity | Cancellation | Internal

datatype decode_recoverability =
  CorrectConfiguration | CorrectInput | ReportUnsupported | ReduceWorkload | ReopenSource
| AbandonOperation | DoNotRetry

record decode_error =
  err_code :: decode_error_code
  err_category :: decode_error_category
  err_recoverability :: decode_recoverability
  err_diagnostic_id :: string
  err_filter_index :: "nat option"
  err_limit :: "decode_limit option"

fun error_policy :: "decode_error_code \<Rightarrow> decode_error_category \<times> decode_recoverability \<times> string" where
  "error_policy InvalidLimits = (Configuration, CorrectConfiguration, ''RPE-FILTERS-0001'')"
| "error_policy InvalidRequest = (Configuration, CorrectConfiguration, ''RPE-FILTERS-0002'')"
| "error_policy UnsupportedFilter = (Unsupported, ReportUnsupported, ''RPE-FILTERS-0003'')"
| "error_policy MissingEndMarker = (Syntax, CorrectInput, ''RPE-FILTERS-0004'')"
| "error_policy TrailingData = (Syntax, CorrectInput, ''RPE-FILTERS-0005'')"
| "error_policy InvalidAsciiHex = (Syntax, CorrectInput, ''RPE-FILTERS-0006'')"
| "error_policy InvalidAscii85 = (Syntax, CorrectInput, ''RPE-FILTERS-0007'')"
| "error_policy InvalidRunLength = (Syntax, CorrectInput, ''RPE-FILTERS-0008'')"
| "error_policy InvalidFlate = (Syntax, CorrectInput, ''RPE-FILTERS-0013'')"
| "error_policy UnsupportedFlateDictionary = (Unsupported, ReportUnsupported, ''RPE-FILTERS-0014'')"
| "error_policy InvalidDecodeParameters = (Syntax, CorrectInput, ''RPE-FILTERS-0015'')"
| "error_policy UnsupportedDecodeParameters = (Unsupported, ReportUnsupported, ''RPE-FILTERS-0016'')"
| "error_policy UnsupportedPredictor = (Unsupported, ReportUnsupported, ''RPE-FILTERS-0017'')"
| "error_policy InvalidPredictorData = (Syntax, CorrectInput, ''RPE-FILTERS-0018'')"
| "error_policy ResourceLimit = (Resource, ReduceWorkload, ''RPE-FILTERS-0009'')"
| "error_policy SourceChanged = (Integrity, ReopenSource, ''RPE-FILTERS-0010'')"
| "error_policy CancelledCode = (Cancellation, AbandonOperation, ''RPE-FILTERS-0011'')"
| "error_policy InternalState = (Internal, DoNotRetry, ''RPE-FILTERS-0012'')"

definition for_code :: "decode_error_code \<Rightarrow> nat option \<Rightarrow> decode_error" where
  "for_code code filter_index =
     (let (category, recoverability, diagnostic_id) = error_policy code in
      \<lparr>err_code = code, err_category = category, err_recoverability = recoverability,
       err_diagnostic_id = diagnostic_id, err_filter_index = filter_index, err_limit = None\<rparr>)"

definition resource_error ::
  "decode_limit_kind \<Rightarrow> nat \<Rightarrow> nat \<Rightarrow> nat \<Rightarrow> nat option \<Rightarrow> decode_error" where
  "resource_error kind limit consumed attempted filter_index =
     \<lparr>err_code = ResourceLimit, err_category = Resource, err_recoverability = ReduceWorkload,
      err_diagnostic_id = ''RPE-FILTERS-0009'', err_filter_index = filter_index,
      err_limit = Some \<lparr>dl_kind = kind, dl_limit = limit, dl_consumed = consumed,
                        dl_attempted = attempted\<rparr>\<rparr>"

lemma for_code_code [simp]: "err_code (for_code c i) = c" "err_filter_index (for_code c i) = i"
  by (simp_all add: for_code_def split_def Let_def)

lemma for_code_inject [simp]: "for_code c i = for_code c' i' \<longleftrightarrow> c = c' \<and> i = i'"
  by (metis for_code_code)

lemma resource_error_code [simp]: "err_code (resource_error k l c a i) = ResourceLimit"
  by (simp add: resource_error_def)

text \<open>The errors that the budget or the host raises, whatever the input bytes are.\<close>

definition is_host_error :: "decode_error \<Rightarrow> bool" where
  "is_host_error e \<longleftrightarrow> err_code e \<in> {ResourceLimit, CancelledCode}"

lemma is_host_error_simps [simp]:
  "is_host_error (resource_error k l c a i)"
  "is_host_error (for_code code i) \<longleftrightarrow> code \<in> {ResourceLimit, CancelledCode}"
  by (simp_all add: is_host_error_def)

section \<open>Limits\<close>

record decode_limit_config =
  max_input_bytes :: nat
  max_filters :: nat
  max_layer_output_bytes :: nat
  max_total_output_bytes :: nat
  max_final_output_bytes :: nat
  max_retained_capacity_bytes :: nat
  max_fuel :: nat
  cancellation_check_interval_fuel :: nat

type_synonym decode_limits = decode_limit_config

definition hard_max_filters :: nat where "hard_max_filters = 32"
definition mib :: "nat \<Rightarrow> nat" where "mib n = n * 1024 * 1024"

definition limits_default :: decode_limit_config where
  "limits_default =
     \<lparr>max_input_bytes = mib 16, max_filters = 8, max_layer_output_bytes = mib 64,
      max_total_output_bytes = mib 128, max_final_output_bytes = mib 64,
      max_retained_capacity_bytes = mib 96, max_fuel = mib 512,
      cancellation_check_interval_fuel = 256\<rparr>"

definition limits_validate :: "decode_limit_config \<Rightarrow> decode_error + decode_limits" where
  "limits_validate c =
     (if max_input_bytes c = 0 \<or> max_input_bytes c > mib 64
       \<or> max_filters c = 0 \<or> max_filters c > hard_max_filters
       \<or> max_layer_output_bytes c = 0 \<or> max_layer_output_bytes c > mib 256
       \<or> max_total_output_bytes c = 0 \<or> max_total_output_bytes c > mib 1024
       \<or> max_final_output_bytes c = 0 \<or> max_final_output_bytes c > mib 256
       \<or> max_final_output_bytes c > max_layer_output_bytes c
       \<or> max_final_output_bytes c > max_total_output_bytes c
       \<or> max_retained_capacity_bytes c = 0 \<or> max_retained_capacity_bytes c > mib 512
       \<or> max_retained_capacity_bytes c < max_final_output_bytes c
       \<or> max_fuel c = 0 \<or> max_fuel c > mib 8192
       \<or> cancellation_check_interval_fuel c = 0 \<or> cancellation_check_interval_fuel c > mib 1
       \<or> cancellation_check_interval_fuel c > max_fuel c
      then Inl (for_code InvalidLimits None)
      else Inr c)"

text \<open>What every validated limit profile satisfies.\<close>

definition decode_limits_ok :: "decode_limits \<Rightarrow> bool" where
  "decode_limits_ok l \<longleftrightarrow>
     0 < max_final_output_bytes l \<and> max_final_output_bytes l \<le> max_layer_output_bytes l \<and>
     max_final_output_bytes l \<le> max_total_output_bytes l \<and>
     max_final_output_bytes l \<le> max_retained_capacity_bytes l \<and>
     0 < max_fuel l \<and> 0 < cancellation_check_interval_fuel l \<and>
     0 < max_filters l \<and> max_filters l \<le> hard_max_filters \<and>
     max_layer_output_bytes l < u64_max \<and> max_total_output_bytes l < u64_max \<and>
     max_retained_capacity_bytes l * 16 < u64_max \<and> max_fuel l < u64_max \<and>
     max_input_bytes l * 128 < u64_max"

lemma limits_validate_ok: "limits_validate c = Inr l \<Longrightarrow> l = c \<and> decode_limits_ok l"
  by (auto simp: limits_validate_def decode_limits_ok_def mib_def u64_max_def split: if_splits)

lemma limits_default_valid: "limits_validate limits_default = Inr limits_default"
  by (simp add: limits_validate_def limits_default_def mib_def hard_max_filters_def)

section \<open>Filters, stages and schedules\<close>

datatype stream_filter = FlateDecode | AsciiHexDecode | Ascii85Decode | RunLengthDecode

fun canonical_pdf_name :: "stream_filter \<Rightarrow> string" where
  "canonical_pdf_name FlateDecode = ''FlateDecode''"
| "canonical_pdf_name AsciiHexDecode = ''ASCIIHexDecode''"
| "canonical_pdf_name Ascii85Decode = ''ASCII85Decode''"
| "canonical_pdf_name RunLengthDecode = ''RunLengthDecode''"

definition canonical_pdf_filter :: "string \<Rightarrow> nat \<Rightarrow> decode_error + stream_filter" where
  "canonical_pdf_filter name filter_index =
     (if name = ''FlateDecode'' then Inr FlateDecode
      else if name = ''ASCIIHexDecode'' then Inr AsciiHexDecode
      else if name = ''ASCII85Decode'' then Inr Ascii85Decode
      else if name = ''RunLengthDecode'' then Inr RunLengthDecode
      else Inl (for_code UnsupportedFilter (Some filter_index)))"

record predictor_parameters =
  pp_predictor :: int
  pp_colors :: nat
  pp_bits_per_component :: nat
  pp_columns :: nat

definition u32_try_from :: "int \<Rightarrow> nat option" where
  "u32_try_from v = (if 0 \<le> v \<and> v < 4294967296 then Some (nat v) else None)"

definition predictor_parameters_new ::
  "int \<Rightarrow> int \<Rightarrow> int \<Rightarrow> int \<Rightarrow> decode_error + predictor_parameters" where
  "predictor_parameters_new predictor colors bits_per_component columns =
     (if predictor \<le> 0 \<or> colors \<le> 0 \<or> columns \<le> 0 \<or> bits_per_component \<le> 0
      then Inl (for_code InvalidDecodeParameters None)
      else if (predictor \<noteq> 1 \<and> predictor \<noteq> 2 \<and> predictor < 10) \<or>
              bits_per_component \<notin> {1, 2, 4, 8, 16}
      then Inl (for_code UnsupportedPredictor None)
      else and_then (ok_or (u32_try_from colors) (for_code InvalidDecodeParameters None)) (\<lambda>colors.
           and_then (ok_or (u32_try_from columns) (for_code InvalidDecodeParameters None)) (\<lambda>columns.
           and_then (ok_or (Option.bind (checked_mul colors columns)
                             (\<lambda>v. checked_mul v (nat bits_per_component)))
                       (for_code InvalidDecodeParameters None)) (\<lambda>row_bits.
           and_then (ok_or (checked_add row_bits 7) (for_code InvalidDecodeParameters None)) (\<lambda>_.
           Inr \<lparr>pp_predictor = predictor, pp_colors = colors,
                pp_bits_per_component = nat bits_per_component, pp_columns = columns\<rparr>)))))"

definition predictor_ok :: "predictor_parameters \<Rightarrow> bool" where
  "predictor_ok p \<longleftrightarrow>
     (pp_predictor p = 1 \<or> pp_predictor p = 2 \<or> 10 \<le> pp_predictor p) \<and>
     0 < pp_colors p \<and> 0 < pp_columns p \<and> pp_bits_per_component p \<in> {1, 2, 4, 8, 16} \<and>
     pp_colors p * pp_columns p * pp_bits_per_component p + 7 \<le> u64_max"

lemma predictor_parameters_new_ok:
  assumes new: "predictor_parameters_new a b c d = Inr p"
  shows "predictor_ok p"
proof -
  have pos: "\<not> (a \<le> 0 \<or> b \<le> 0 \<or> d \<le> 0 \<or> c \<le> 0)"
  proof
    assume "a \<le> 0 \<or> b \<le> 0 \<or> d \<le> 0 \<or> c \<le> 0"
    then show False using new by (simp only: predictor_parameters_new_def if_P Inl_not_Inr)
  qed
  have sup: "\<not> ((a \<noteq> 1 \<and> a \<noteq> 2 \<and> a < 10) \<or> c \<notin> {1, 2, 4, 8, 16})"
  proof
    assume "(a \<noteq> 1 \<and> a \<noteq> 2 \<and> a < 10) \<or> c \<notin> {1, 2, 4, 8, 16}"
    then show False
      using new by (simp only: predictor_parameters_new_def if_not_P [OF pos] if_P Inl_not_Inr)
  qed
  obtain colors columns rb where u: "u32_try_from b = Some colors" "u32_try_from d = Some columns"
      "Option.bind (checked_mul colors columns) (\<lambda>v. checked_mul v (nat c)) = Some rb"
      "checked_add rb 7 \<noteq> None"
      "p = \<lparr>pp_predictor = a, pp_colors = colors, pp_bits_per_component = nat c, pp_columns = columns\<rparr>"
    using new unfolding predictor_parameters_new_def if_not_P [OF pos] if_not_P [OF sup]
    by (auto simp: and_then_Inr_iff ok_or_Inr_iff)
  have "nat c \<in> {1, 2, 4, 8, 16}" using sup by force
  moreover have "0 < colors" "0 < columns"
    using u(1,2) pos by (auto simp: u32_try_from_def split: if_splits)
  moreover have "colors * columns * nat c + 7 \<le> u64_max"
    using u(3,4) by (auto simp: bind_eq_Some_conv checked_mul_def checked_add_def split: if_splits)
  ultimately show ?thesis
    using sup unfolding predictor_ok_def u(5) by auto
qed

datatype filter_decode_parameters = NoParameters | Predictor predictor_parameters

record filter_stage =
  stage_filter :: stream_filter
  stage_parameters :: filter_decode_parameters

definition without_parameters :: "stream_filter \<Rightarrow> filter_stage" where
  "without_parameters f = \<lparr>stage_filter = f, stage_parameters = NoParameters\<rparr>"

definition stage_validate :: "filter_stage \<Rightarrow> nat option \<Rightarrow> decode_error + unit" where
  "stage_validate stage filter_index =
     (if stage_parameters stage \<noteq> NoParameters \<and> stage_filter stage \<noteq> FlateDecode
      then Inl (for_code UnsupportedDecodeParameters filter_index) else Inr ())"

definition filter_stage_new ::
  "stream_filter \<Rightarrow> filter_decode_parameters \<Rightarrow> decode_error + filter_stage" where
  "filter_stage_new flt parameters =
     (let stage = \<lparr>stage_filter = flt, stage_parameters = parameters\<rparr> in
      and_then (stage_validate stage None) (\<lambda>_. Inr stage))"

datatype fuel_schedule = M1V1

fun layer_setup_cost :: "fuel_schedule \<Rightarrow> nat" where "layer_setup_cost M1V1 = 1"
fun input_byte_cost :: "fuel_schedule \<Rightarrow> nat" where "input_byte_cost M1V1 = 1"
fun output_byte_cost :: "fuel_schedule \<Rightarrow> nat" where "output_byte_cost M1V1 = 1"
fun algorithm_step_cost :: "fuel_schedule \<Rightarrow> nat" where "algorithm_step_cost M1V1 = 1"

lemma cost_one [simp]:
  "layer_setup_cost s = 1" "input_byte_cost s = 1" "output_byte_cost s = 1"
  "algorithm_step_cost s = 1"
  by (cases s; simp)+

datatype decode_profile = M1StrictV1

fun profile_fuel_schedule :: "decode_profile \<Rightarrow> fuel_schedule" where
  "profile_fuel_schedule M1StrictV1 = M1V1"

end
