(* ===== verification/Filt_Budget.thy ===== *)
theory Filt_Budget
  imports Filt_Types
begin

text \<open>
  The decode budget and the output buffer (\<open>DecodeBudget\<close> and \<open>OutputBuffer\<close> of
  \<open>pdf-rs/filters/src/decode.rs\<close>), the only way a filter can spend fuel or emit bytes.

  What the host decides is a parameter: whether the \<open>k\<close>-th cancellation probe reports
  cancellation, and which capacity the \<open>k\<close>-th reservation of the allocator grants. The counters
  \<open>probes\<close> and \<open>reservations\<close> only number these calls. An error leaves every enclosing function,
  so the state behind an error is dropped, as the code drops it.
\<close>

section \<open>State\<close>

record host =
  is_cancelled :: "nat \<Rightarrow> bool"
  reserve :: "nat \<Rightarrow> nat \<Rightarrow> nat option"

text \<open>The documented contract of \<open>Vec::try_reserve_exact\<close>: a granted capacity covers the request.\<close>

definition host_ok :: "host \<Rightarrow> bool" where
  "host_ok h \<longleftrightarrow> (\<forall>k n c. reserve h k n = Some c \<longrightarrow> n \<le> c)"

record decode_budget =
  b_limits :: decode_limits
  b_schedule :: fuel_schedule
  fuel_consumed :: nat
  last_cancellation_probe_fuel :: nat
  cumulative_output_bytes :: nat
  peak_retained_capacity_bytes :: nat
  probes :: nat
  reservations :: nat

definition budget_new :: "decode_limits \<Rightarrow> fuel_schedule \<Rightarrow> nat \<Rightarrow> decode_budget" where
  "budget_new limits schedule probed =
     \<lparr>b_limits = limits, b_schedule = schedule, fuel_consumed = 0,
      last_cancellation_probe_fuel = 0, cumulative_output_bytes = 0,
      peak_retained_capacity_bytes = 0, probes = probed, reservations = 0\<rparr>"

record vec =
  vec_bytes :: "u8 list"
  vec_capacity :: nat

record output_buffer =
  ob_bytes :: "u8 list"
  ob_capacity :: nat
  input_capacity :: nat
  is_final :: bool
  filter_index :: "nat option"
  expected_output :: nat
  layer_output_bytes :: nat
  budget :: decode_budget

definition output_buffer_new ::
  "nat \<Rightarrow> bool \<Rightarrow> nat option \<Rightarrow> nat \<Rightarrow> decode_budget \<Rightarrow> output_buffer" where
  "output_buffer_new incap final idx expected b =
     \<lparr>ob_bytes = [], ob_capacity = 0, input_capacity = incap, is_final = final,
      filter_index = idx, expected_output = expected, layer_output_bytes = 0, budget = b\<rparr>"

definition finish :: "output_buffer \<Rightarrow> vec \<times> decode_budget" where
  "finish ob = (\<lparr>vec_bytes = ob_bytes ob, vec_capacity = ob_capacity ob\<rparr>, budget ob)"

definition initial_output_reserve :: nat where "initial_output_reserve = 4 * 1024"

section \<open>Budget operations\<close>

definition charge_fuel ::
  "host \<Rightarrow> nat \<Rightarrow> nat option \<Rightarrow> decode_budget \<Rightarrow> decode_error + decode_budget" where
  "charge_fuel h amount idx b =
     (let attempted = saturating_add (fuel_consumed b) amount in
      if attempted > max_fuel (b_limits b)
      then Inl (resource_error FuelLimit (max_fuel (b_limits b)) (fuel_consumed b) attempted idx)
      else let b = b\<lparr>fuel_consumed := attempted\<rparr> in
        if saturating_sub (fuel_consumed b) (last_cancellation_probe_fuel b)
             \<ge> cancellation_check_interval_fuel (b_limits b)
        then let b' = b\<lparr>last_cancellation_probe_fuel := fuel_consumed b, probes := Suc (probes b)\<rparr> in
          if is_cancelled h (probes b) then Inl (for_code CancelledCode idx) else Inr b'
        else Inr b)"

definition charge_setup :: "host \<Rightarrow> nat option \<Rightarrow> decode_budget \<Rightarrow> decode_error + decode_budget" where
  "charge_setup h idx b = charge_fuel h (layer_setup_cost (b_schedule b)) idx b"

definition b_charge_algorithm ::
  "host \<Rightarrow> nat \<Rightarrow> nat option \<Rightarrow> decode_budget \<Rightarrow> decode_error + decode_budget" where
  "b_charge_algorithm h amount idx b =
     charge_fuel h (saturating_mul (algorithm_step_cost (b_schedule b)) amount) idx b"

definition b_consume_input ::
  "host \<Rightarrow> nat option \<Rightarrow> decode_budget \<Rightarrow> decode_error + decode_budget" where
  "b_consume_input h idx b = charge_fuel h (input_byte_cost (b_schedule b)) idx b"

definition prepare_output ::
  "host \<Rightarrow> nat \<Rightarrow> bool \<Rightarrow> nat option \<Rightarrow> decode_budget
     \<Rightarrow> decode_error + ((nat \<times> nat) \<times> decode_budget)" where
  "prepare_output h layer final idx b =
     (let l = b_limits b in
      and_then (ok_or (checked_add layer 1)
        (resource_error LayerOutputBytes (max_layer_output_bytes l) layer u64_max idx))
      (\<lambda>attempted_layer.
        if attempted_layer > max_layer_output_bytes l
        then Inl (resource_error LayerOutputBytes (max_layer_output_bytes l) layer attempted_layer idx)
        else and_then (ok_or (checked_add (cumulative_output_bytes b) 1)
          (resource_error TotalOutputBytes (max_total_output_bytes l)
             (cumulative_output_bytes b) u64_max idx))
        (\<lambda>attempted_total.
          if attempted_total > max_total_output_bytes l
          then Inl (resource_error TotalOutputBytes (max_total_output_bytes l)
                      (cumulative_output_bytes b) attempted_total idx)
          else if final \<and> attempted_layer > max_final_output_bytes l
          then Inl (resource_error FinalOutputBytes (max_final_output_bytes l) layer
                      attempted_layer idx)
          else and_then (charge_fuel h (output_byte_cost (b_schedule b)) idx b)
            (\<lambda>b'. Inr ((attempted_layer, attempted_total), b')))))"

definition capacity_ceiling :: "decode_budget \<Rightarrow> bool \<Rightarrow> nat \<Rightarrow> nat" where
  "capacity_ceiling b final current_layer =
     (let l = b_limits b;
          final_limit = (if final then max_final_output_bytes l else u64_max);
          total_remaining = saturating_add
            (saturating_sub (max_total_output_bytes l) (cumulative_output_bytes b)) current_layer
      in min (min (max_layer_output_bytes l) final_limit) total_remaining)"

definition observe_retained_capacity :: "nat \<Rightarrow> decode_budget \<Rightarrow> decode_budget" where
  "observe_retained_capacity retained b =
     b\<lparr>peak_retained_capacity_bytes := max (peak_retained_capacity_bytes b) retained\<rparr>"

section \<open>Buffer operations\<close>

definition current_retained :: "output_buffer \<Rightarrow> nat" where
  "current_retained ob = saturating_add (input_capacity ob) (ob_capacity ob)"

definition retained_error :: "output_buffer \<Rightarrow> nat \<Rightarrow> decode_error" where
  "retained_error ob required =
     resource_error RetainedCapacityBytes (max_retained_capacity_bytes (b_limits (budget ob)))
       (current_retained ob) (saturating_add (input_capacity ob) required) (filter_index ob)"

type_synonym 'a decoding = "decode_error + ('a \<times> output_buffer)"

definition consume_input :: "host \<Rightarrow> output_buffer \<Rightarrow> unit decoding" where
  "consume_input h ob =
     and_then (b_consume_input h (filter_index ob) (budget ob)) (\<lambda>b. Inr ((), ob\<lparr>budget := b\<rparr>))"

definition charge_algorithm :: "host \<Rightarrow> nat \<Rightarrow> output_buffer \<Rightarrow> unit decoding" where
  "charge_algorithm h amount ob =
     and_then (b_charge_algorithm h amount (filter_index ob) (budget ob))
       (\<lambda>b. Inr ((), ob\<lparr>budget := b\<rparr>))"

definition available_capacity :: "output_buffer \<Rightarrow> nat" where
  "available_capacity ob =
     saturating_sub (max_retained_capacity_bytes (b_limits (budget ob))) (input_capacity ob)"

definition desired_capacity :: "output_buffer \<Rightarrow> nat \<Rightarrow> nat" where
  "desired_capacity ob required =
     (let logical_ceiling = min (capacity_ceiling (budget ob) (is_final ob) (layer_output_bytes ob))
            (available_capacity ob);
          hint = min (max (expected_output ob) required) initial_output_reserve
      in min (min (if ob_capacity ob = 0 then hint
                   else max (saturating_mul (ob_capacity ob) 2) required)
                logical_ceiling) (available_capacity ob))"

definition ensure_capacity :: "host \<Rightarrow> output_buffer \<Rightarrow> decode_error + output_buffer" where
  "ensure_capacity h ob =
     (let len = length (ob_bytes ob); limits = b_limits (budget ob) in
      if len < ob_capacity ob then Inr ob
      else and_then (ok_or (checked_add len 1) (for_code InternalState (filter_index ob)))
      (\<lambda>required.
        if required > available_capacity ob then Inl (retained_error ob required)
        else
          let desired = desired_capacity ob required
          in if desired < required then Inl (retained_error ob required)
             else and_then (ok_or (checked_sub desired len) (for_code InternalState (filter_index ob)))
             (\<lambda>additional.
               let consumed = current_retained ob;
                   attempted = saturating_add (input_capacity ob) desired;
                   b = budget ob
               in case reserve h (reservations b) (len + additional) of
                    None \<Rightarrow> Inl (resource_error Allocation (max_retained_capacity_bytes limits)
                                 consumed attempted (filter_index ob))
                  | Some capacity \<Rightarrow>
                      let ob' = ob\<lparr>ob_capacity := capacity,
                                   budget := b\<lparr>reservations := Suc (reservations b)\<rparr>\<rparr>;
                          retained = current_retained ob'
                      in if retained > max_retained_capacity_bytes limits
                         then Inl (resource_error RetainedCapacityBytes
                                (max_retained_capacity_bytes limits) consumed retained (filter_index ob))
                         else Inr (ob'\<lparr>budget := observe_retained_capacity retained (budget ob')\<rparr>))))"

definition push :: "host \<Rightarrow> u8 \<Rightarrow> output_buffer \<Rightarrow> unit decoding" where
  "push h byte ob =
     and_then (prepare_output h (layer_output_bytes ob) (is_final ob) (filter_index ob) (budget ob))
     (\<lambda>((attempted_layer, attempted_total), b).
       and_then (ensure_capacity h (ob\<lparr>budget := b\<rparr>))
       (\<lambda>ob'. Inr ((), ob'\<lparr>ob_bytes := ob_bytes ob' @ [byte],
                           layer_output_bytes := attempted_layer,
                           budget := (budget ob')\<lparr>cumulative_output_bytes := attempted_total\<rparr>\<rparr>)))"

text \<open>A loop that pushes the given bytes one after the other.\<close>

fun push_all :: "host \<Rightarrow> u8 list \<Rightarrow> output_buffer \<Rightarrow> unit decoding" where
  "push_all h [] ob = Inr ((), ob)"
| "push_all h (x # xs) ob = and_then (push h x ob) (\<lambda>(_, ob). push_all h xs ob)"

definition byte_at_distance :: "output_buffer \<Rightarrow> nat \<Rightarrow> u8 option" where
  "byte_at_distance ob distance =
     Option.bind (checked_sub (length (ob_bytes ob)) distance)
       (\<lambda>index. if index < length (ob_bytes ob) then Some (ob_bytes ob ! index) else None)"

definition bit_at :: "output_buffer \<Rightarrow> nat \<Rightarrow> u8 option" where
  "bit_at ob b =
     (if b div 8 < length (ob_bytes ob)
      then Option.bind (checked_sub 7 (b mod 8))
             (\<lambda>shift. Some (and (drop_bit shift (ob_bytes ob ! (b div 8))) 1))
      else None)"

definition replace_bit :: "output_buffer \<Rightarrow> nat \<Rightarrow> u8 \<Rightarrow> output_buffer \<times> bool" where
  "replace_bit ob b v =
     (let byte_index = b div 8 in
      if byte_index < length (ob_bytes ob)
      then case checked_sub 7 (b mod 8) of
             None \<Rightarrow> (ob, False)
           | Some shift \<Rightarrow>
               let mask = push_bit shift 1; byte = ob_bytes ob ! byte_index in
               (ob\<lparr>ob_bytes := (ob_bytes ob)[byte_index :=
                  or (and byte (not mask)) (push_bit shift (and v 1))]\<rparr>, True)
      else (ob, False))"

section \<open>What holds of every budget and buffer\<close>

definition budget_ok :: "decode_budget \<Rightarrow> bool" where
  "budget_ok b \<longleftrightarrow>
     decode_limits_ok (b_limits b) \<and> fuel_consumed b \<le> max_fuel (b_limits b) \<and>
     cumulative_output_bytes b \<le> max_total_output_bytes (b_limits b) \<and>
     peak_retained_capacity_bytes b \<le> max_retained_capacity_bytes (b_limits b) \<and>
     last_cancellation_probe_fuel b \<le> fuel_consumed b \<and>
     fuel_consumed b - last_cancellation_probe_fuel b < cancellation_check_interval_fuel (b_limits b)"

definition buf_ok :: "output_buffer \<Rightarrow> bool" where
  "buf_ok ob \<longleftrightarrow>
     budget_ok (budget ob) \<and> layer_output_bytes ob = length (ob_bytes ob) \<and>
     layer_output_bytes ob \<le> max_layer_output_bytes (b_limits (budget ob)) \<and>
     (is_final ob \<longrightarrow> layer_output_bytes ob \<le> max_final_output_bytes (b_limits (budget ob))) \<and>
     layer_output_bytes ob \<le> cumulative_output_bytes (budget ob) \<and>
     length (ob_bytes ob) \<le> ob_capacity ob \<and>
     input_capacity ob \<le> max_retained_capacity_bytes (b_limits (budget ob)) \<and>
     (ob_capacity ob \<noteq> 0 \<longrightarrow>
        input_capacity ob + ob_capacity ob \<le> peak_retained_capacity_bytes (budget ob))"

text \<open>What a step of a filter leaves alone and what it may only increase.\<close>

definition buf_frame :: "output_buffer \<Rightarrow> output_buffer \<Rightarrow> bool" where
  "buf_frame ob ob' \<longleftrightarrow>
     b_limits (budget ob') = b_limits (budget ob) \<and> b_schedule (budget ob') = b_schedule (budget ob) \<and>
     input_capacity ob' = input_capacity ob \<and> is_final ob' = is_final ob \<and>
     filter_index ob' = filter_index ob \<and>
     fuel_consumed (budget ob) \<le> fuel_consumed (budget ob') \<and>
     layer_output_bytes ob \<le> layer_output_bytes ob' \<and>
     cumulative_output_bytes (budget ob') + layer_output_bytes ob =
       cumulative_output_bytes (budget ob) + layer_output_bytes ob' \<and>
     peak_retained_capacity_bytes (budget ob) \<le> peak_retained_capacity_bytes (budget ob')"

lemma buf_frame_refl [simp]: "buf_frame ob ob"
  by (simp add: buf_frame_def)

lemma buf_frame_trans: "buf_frame a b \<Longrightarrow> buf_frame b c \<Longrightarrow> buf_frame a c"
  by (simp add: buf_frame_def)

text \<open>A host that neither cancels nor refuses memory, and a buffer with room for \<open>c\<close> units of
  fuel and \<open>n\<close> bytes.\<close>

definition generous :: "host \<Rightarrow> bool" where
  "generous h \<longleftrightarrow> (\<forall>k. \<not> is_cancelled h k) \<and> (\<forall>k n. reserve h k n = Some n)"

definition roomy :: "nat \<Rightarrow> nat \<Rightarrow> output_buffer \<Rightarrow> bool" where
  "roomy c n ob \<longleftrightarrow>
     (let l = b_limits (budget ob) in
      fuel_consumed (budget ob) + c \<le> max_fuel l \<and>
      layer_output_bytes ob + n \<le> max_layer_output_bytes l \<and>
      cumulative_output_bytes (budget ob) + n \<le> max_total_output_bytes l \<and>
      (is_final ob \<longrightarrow> layer_output_bytes ob + n \<le> max_final_output_bytes l) \<and>
      input_capacity ob + layer_output_bytes ob + n \<le> max_retained_capacity_bytes l)"

definition steps_to :: "nat \<Rightarrow> nat \<Rightarrow> output_buffer \<Rightarrow> output_buffer \<Rightarrow> bool" where
  "steps_to c n ob ob' \<longleftrightarrow>
     buf_ok ob' \<and> buf_frame ob ob' \<and> fuel_consumed (budget ob') \<le> fuel_consumed (budget ob) + c \<and>
     layer_output_bytes ob' \<le> layer_output_bytes ob + n"

text \<open>
  The judgement that relates a budgeted computation to the pure one: started in \<open>ob\<close>, the result
  \<open>r\<close> is the pure result \<open>p\<close>, except that the budget or the host may stop it first, which they do
  not when the host is generous and there is room for \<open>c\<close> fuel and \<open>n\<close> bytes.
\<close>

definition simulates ::
  "host \<Rightarrow> nat \<Rightarrow> nat \<Rightarrow> output_buffer \<Rightarrow> 'a decoding \<Rightarrow> decode_error + ('a \<times> u8 list) \<Rightarrow> bool" where
  "simulates h c n ob r p \<longleftrightarrow>
     (case r of
        Inl e \<Rightarrow> p = Inl e \<or> is_host_error e \<and> \<not> (generous h \<and> roomy c n ob)
      | Inr (x, ob') \<Rightarrow> p = Inr (x, ob_bytes ob') \<and> steps_to c n ob ob')"

lemma simulatesI_Inr:
  "r = Inr (x, ob') \<Longrightarrow> p = Inr (x, ob_bytes ob') \<Longrightarrow> steps_to c n ob ob' \<Longrightarrow> simulates h c n ob r p"
  by (simp add: simulates_def)

lemma steps_to_trans:
  "steps_to c n a b \<Longrightarrow> steps_to c' n' b d \<Longrightarrow> steps_to (c + c') (n + n') a d"
  by (auto simp: steps_to_def intro: buf_frame_trans)

lemma roomy_step:
  assumes "steps_to c n ob ob'" "roomy (c + c') (n + n') ob"
  shows "roomy c' n' ob'"
  using assms by (auto simp: roomy_def steps_to_def buf_frame_def Let_def)

lemma simulates_pure_error [simp]: "simulates h c n ob (Inl e) (Inl e)"
  by (simp add: simulates_def)

lemma simulates_return [simp]: "buf_ok ob \<Longrightarrow> simulates h c n ob (Inr (x, ob)) (Inr (x, ob_bytes ob))"
  by (simp add: simulates_def steps_to_def)

lemma simulates_bind:
  assumes r: "simulates h c n ob r p"
    and k: "\<And>x ob'. steps_to c n ob ob' \<Longrightarrow> r = Inr (x, ob') \<Longrightarrow>
      simulates h c' n' ob' (k x ob') (k' x (ob_bytes ob'))"
  shows "simulates h (c + c') (n + n') ob (and_then r (\<lambda>(x, ob'). k x ob'))
    (and_then p (\<lambda>(x, bs). k' x bs))"
proof (cases r)
  case (Inl e)
  have "roomy c n ob" if "roomy (c + c') (n + n') ob"
    using that by (auto simp: roomy_def Let_def)
  then show ?thesis using r Inl by (auto simp: simulates_def)
next
  case (Inr a)
  then obtain x ob' where a: "r = Inr (x, ob')" by (cases a) auto
  then have p: "p = Inr (x, ob_bytes ob')" and st: "steps_to c n ob ob'"
    using r by (auto simp: simulates_def)
  show ?thesis
    using k [OF st a] steps_to_trans [OF st] roomy_step [OF st]
    by (auto simp: a p simulates_def split: sum.splits)
qed

lemma simulates_mono:
  assumes "simulates h c n ob r p" "c \<le> c'" "n \<le> n'"
  shows "simulates h c' n' ob r p"
proof -
  have "roomy c n ob" if "roomy c' n' ob"
    using that assms(2,3) by (auto simp: roomy_def Let_def)
  moreover have "steps_to c' n' ob ob'" if "steps_to c n ob ob'" for ob'
    using that assms(2,3) by (auto simp: steps_to_def)
  ultimately show ?thesis
    using assms(1) by (auto simp: simulates_def split: sum.splits)
qed

section \<open>The primitives keep the contract\<close>

lemma charge_fuel_Inr:
  assumes "charge_fuel h amount idx b = Inr b'" "budget_ok b"
  shows "budget_ok b'" "fuel_consumed b' = fuel_consumed b + amount" "b_limits b' = b_limits b"
    "b_schedule b' = b_schedule b" "cumulative_output_bytes b' = cumulative_output_bytes b"
    "peak_retained_capacity_bytes b' = peak_retained_capacity_bytes b"
  using assms
  by (auto simp: charge_fuel_def Let_def budget_ok_def decode_limits_ok_def rust_arith min_def
      split: if_splits)

lemma charge_fuel_Inl:
  assumes "charge_fuel h amount idx b = Inl e" "budget_ok b"
  shows "is_host_error e" "generous h \<Longrightarrow> max_fuel (b_limits b) < fuel_consumed b + amount"
  using assms
  by (auto simp: charge_fuel_def Let_def rust_arith generous_def split: if_splits)

lemma charge_sim:
  assumes ok: "buf_ok ob"
  shows "simulates h amount 0 ob
    (and_then (charge_fuel h amount (filter_index ob) (budget ob)) (\<lambda>b. Inr ((), ob\<lparr>budget := b\<rparr>)))
    (Inr ((), ob_bytes ob))"
proof (cases "charge_fuel h amount (filter_index ob) (budget ob)")
  case (Inl e)
  then show ?thesis
    using ok charge_fuel_Inl [OF Inl] by (auto simp: simulates_def roomy_def buf_ok_def Let_def)
next
  case (Inr b')
  then have "budget_ok (budget ob)" using ok by (simp add: buf_ok_def)
  note eff = charge_fuel_Inr [OF Inr this]
  show ?thesis
    using ok eff Inr by (auto simp: simulates_def steps_to_def buf_ok_def buf_frame_def)
qed

lemma consume_input_sim:
  "buf_ok ob \<Longrightarrow> simulates h 1 0 ob (consume_input h ob) (Inr ((), ob_bytes ob))"
  using charge_sim [of ob h 1] by (simp add: consume_input_def b_consume_input_def)

lemma charge_algorithm_sim:
  "buf_ok ob \<Longrightarrow> simulates h amount 0 ob (charge_algorithm h amount ob) (Inr ((), ob_bytes ob))"
  using simulates_mono [OF charge_sim [of ob h "saturating_mul 1 amount"], of amount 0]
  by (simp add: charge_algorithm_def b_charge_algorithm_def saturating_mul_def)

lemma ensure_capacity_Inr:
  assumes "ensure_capacity h ob = Inr ob'" "buf_ok ob" "host_ok h"
  shows "\<exists>cap b. ob' = ob\<lparr>ob_capacity := cap, budget := b\<rparr> \<and> length (ob_bytes ob) < cap \<and>
    input_capacity ob + cap \<le> peak_retained_capacity_bytes b \<and>
    peak_retained_capacity_bytes (budget ob) \<le> peak_retained_capacity_bytes b \<and>
    peak_retained_capacity_bytes b \<le> max_retained_capacity_bytes (b_limits b) \<and>
    b_limits b = b_limits (budget ob) \<and> b_schedule b = b_schedule (budget ob) \<and>
    fuel_consumed b = fuel_consumed (budget ob) \<and>
    last_cancellation_probe_fuel b = last_cancellation_probe_fuel (budget ob) \<and>
    cumulative_output_bytes b = cumulative_output_bytes (budget ob)"
proof (cases "length (ob_bytes ob) < ob_capacity ob")
  case True
  then have "ob' = ob" using assms(1) by (simp add: ensure_capacity_def Let_def)
  then show ?thesis
    using True assms(2)
    by (intro exI [of _ "ob_capacity ob"] exI [of _ "budget ob"]) (auto simp: buf_ok_def budget_ok_def)
next
  case False
  let ?b = "budget ob" and ?l = "b_limits (budget ob)" and ?len = "length (ob_bytes ob)"
  let ?d = "desired_capacity ob (Suc (length (ob_bytes ob)))"
  obtain cap where d: "?len < ?d" "reserve h (reservations ?b) ?d = Some cap"
    and le: "saturating_add (input_capacity ob) cap \<le> max_retained_capacity_bytes ?l"
    and ob': "ob' = ob\<lparr>ob_capacity := cap, budget := observe_retained_capacity
        (saturating_add (input_capacity ob) cap) (?b\<lparr>reservations := Suc (reservations ?b)\<rparr>)\<rparr>"
    using assms(1) False
    by (auto simp: ensure_capacity_def Let_def current_retained_def and_then_Inr_iff ok_or_Inr_iff
        checked_add_def checked_sub_def split: if_splits option.splits)
  have "?d \<le> cap" using d(2) assms(3) by (auto simp: host_ok_def)
  moreover have "saturating_add (input_capacity ob) cap = input_capacity ob + cap"
  proof -
    have "max_retained_capacity_bytes ?l < u64_max"
      using assms(2) by (simp add: buf_ok_def budget_ok_def decode_limits_ok_def)
    then show ?thesis using le by (auto simp: saturating_add_def min_def split: if_splits)
  qed
  ultimately show ?thesis
    using d le assms(2) unfolding ob'
    by (intro exI [of _ cap] exI [of _ "budget ob'"])
      (auto simp: ob' observe_retained_capacity_def buf_ok_def budget_ok_def)
qed

lemma ensure_capacity_Inl:
  assumes "ensure_capacity h ob = Inl e" "buf_ok ob"
  shows "is_host_error e" "generous h \<Longrightarrow> \<not> roomy 0 1 ob"
proof -
  let ?l = "b_limits (budget ob)" and ?len = "length (ob_bytes ob)"
  have len: "?len < u64_max" "Suc ?len \<le> u64_max"
    using assms(2) by (auto simp: buf_ok_def budget_ok_def decode_limits_ok_def)
  show "is_host_error e"
    using assms(1) len
    by (auto simp: ensure_capacity_def Let_def retained_error_def and_then_Inl_iff checked_add_def
        checked_sub_def split: if_splits option.splits)
  show "\<not> roomy 0 1 ob" if gen: "generous h"
  proof
    assume room: "roomy 0 1 ob"
    have full: "\<not> ?len < ob_capacity ob"
      using assms(1) by (auto simp: ensure_capacity_def)
    have need: "Suc ?len \<le> available_capacity ob"
      "Suc ?len \<le> capacity_ceiling (budget ob) (is_final ob) (layer_output_bytes ob)"
      using room assms(2) len
      by (auto simp: roomy_def available_capacity_def capacity_ceiling_def Let_def buf_ok_def rust_arith)
    have "ob_capacity ob = 0 \<Longrightarrow> ?len = 0"
      using assms(2) by (simp add: buf_ok_def)
    then have des: "Suc ?len \<le> desired_capacity ob (Suc ?len)"
      using need by (auto simp: desired_capacity_def Let_def initial_output_reserve_def)
    have "desired_capacity ob (Suc ?len) \<le> available_capacity ob"
      by (simp add: desired_capacity_def Let_def)
    then have fits: "saturating_add (input_capacity ob) (desired_capacity ob (Suc ?len))
        \<le> max_retained_capacity_bytes ?l"
      using need(1) by (auto simp: rust_arith available_capacity_def)
    show False
      using assms(1) full gen len need(1) des fits
      by (simp add: ensure_capacity_def Let_def current_retained_def generous_def checked_add_def
          checked_sub_def)
  qed
qed

lemma prepare_output_Inr:
  assumes "prepare_output h layer final idx b = Inr ((al, at), b')" "budget_ok b"
  shows "al = Suc layer" "at = Suc (cumulative_output_bytes b)"
    "Suc layer \<le> max_layer_output_bytes (b_limits b)"
    "Suc (cumulative_output_bytes b) \<le> max_total_output_bytes (b_limits b)"
    "final \<Longrightarrow> Suc layer \<le> max_final_output_bytes (b_limits b)"
    "charge_fuel h 1 idx b = Inr b'"
  using assms
  by (auto simp: prepare_output_def Let_def and_then_Inr_iff ok_or_Inr_iff checked_add_def
      split: if_splits)

lemma prepare_output_Inl:
  assumes "prepare_output h layer final idx b = Inl e" "budget_ok b"
    "layer \<le> max_layer_output_bytes (b_limits b)"
  shows "is_host_error e"
    "generous h \<Longrightarrow> Suc layer \<le> max_layer_output_bytes (b_limits b) \<Longrightarrow>
     Suc (cumulative_output_bytes b) \<le> max_total_output_bytes (b_limits b) \<Longrightarrow>
     (final \<longrightarrow> Suc layer \<le> max_final_output_bytes (b_limits b)) \<Longrightarrow>
     max_fuel (b_limits b) < fuel_consumed b + 1"
proof -
  have small: "Suc layer \<le> u64_max" "Suc (cumulative_output_bytes b) \<le> u64_max"
    using assms(2,3) by (auto simp: budget_ok_def decode_limits_ok_def)
  show "is_host_error e"
    using assms(1) small charge_fuel_Inl(1) [OF _ assms(2)]
    by (auto simp: prepare_output_def Let_def checked_add_def and_then_Inl_iff split: if_splits)
  show "max_fuel (b_limits b) < fuel_consumed b + 1"
    if "generous h" "Suc layer \<le> max_layer_output_bytes (b_limits b)"
      "Suc (cumulative_output_bytes b) \<le> max_total_output_bytes (b_limits b)"
      "final \<longrightarrow> Suc layer \<le> max_final_output_bytes (b_limits b)"
    using that assms(1) small charge_fuel_Inl(2) [OF _ assms(2), of h 1 idx e]
    by (auto simp: prepare_output_def Let_def checked_add_def and_then_Inl_iff split: if_splits)
qed

lemma push_sim:
  assumes ok: "buf_ok ob" and h: "host_ok h"
  shows "simulates h 1 1 ob (push h byte ob) (Inr ((), ob_bytes ob @ [byte]))"
proof (cases "prepare_output h (layer_output_bytes ob) (is_final ob) (filter_index ob) (budget ob)")
  case (Inl e)
  have b: "budget_ok (budget ob)" "layer_output_bytes ob \<le> max_layer_output_bytes (b_limits (budget ob))"
    using ok by (auto simp: buf_ok_def)
  show ?thesis
  proof -
    have "max_fuel (b_limits (budget ob)) < fuel_consumed (budget ob) + 1"
      if "generous h" "roomy 1 1 ob"
      using that by (intro prepare_output_Inl(2) [OF Inl b]) (auto simp: roomy_def Let_def)
    then have "\<not> (generous h \<and> roomy 1 1 ob)" by (auto simp: roomy_def Let_def)
    then show ?thesis
      using Inl prepare_output_Inl(1) [OF Inl b] by (simp add: push_def simulates_def)
  qed
next
  case (Inr r)
  then obtain al at' b where prep: "prepare_output h (layer_output_bytes ob) (is_final ob)
      (filter_index ob) (budget ob) = Inr ((al, at'), b)"
    by (metis prod.exhaust)
  have bok: "budget_ok (budget ob)" using ok by (simp add: buf_ok_def)
  note p = prepare_output_Inr [OF prep bok]
  note c = charge_fuel_Inr [OF p(6) bok]
  let ?ob = "ob\<lparr>budget := b\<rparr>"
  have ok': "buf_ok ?ob" using ok c by (auto simp: buf_ok_def)
  show ?thesis
  proof (cases "ensure_capacity h ?ob")
    case (Inl e)
    have "roomy 0 1 ?ob" if "roomy 1 1 ob"
      using that c by (auto simp: roomy_def Let_def)
    then show ?thesis
      using Inl ensure_capacity_Inl [OF Inl ok'] by (auto simp: push_def prep simulates_def)
  next
    case (Inr ob')
    from ensure_capacity_Inr [OF Inr ok' h] obtain cap b2 where
      e: "ob' = ?ob\<lparr>ob_capacity := cap, budget := b2\<rparr>" "length (ob_bytes ob) < cap"
        "input_capacity ob + cap \<le> peak_retained_capacity_bytes b2"
        "peak_retained_capacity_bytes b \<le> peak_retained_capacity_bytes b2"
        "peak_retained_capacity_bytes b2 \<le> max_retained_capacity_bytes (b_limits b2)"
        "b_limits b2 = b_limits b" "b_schedule b2 = b_schedule b" "fuel_consumed b2 = fuel_consumed b"
        "last_cancellation_probe_fuel b2 = last_cancellation_probe_fuel b"
        "cumulative_output_bytes b2 = cumulative_output_bytes b"
      by auto
    have "push h byte ob = Inr ((), ob'\<lparr>ob_bytes := ob_bytes ob @ [byte], layer_output_bytes := al,
        budget := b2\<lparr>cumulative_output_bytes := at'\<rparr>\<rparr>)"
      using Inr by (simp add: push_def prep e(1))
    then show ?thesis
      by (rule simulatesI_Inr) (use ok ok' p c e in
        \<open>auto simp: steps_to_def buf_ok_def budget_ok_def buf_frame_def\<close>)
  qed
qed

lemma push_all_sim:
  assumes "buf_ok ob" "host_ok h"
  shows "simulates h (length xs) (length xs) ob (push_all h xs ob) (Inr ((), ob_bytes ob @ xs))"
  using assms(1)
proof (induction xs arbitrary: ob)
  case (Cons x xs)
  have "simulates h (1 + length xs) (1 + length xs) ob
      (and_then (push h x ob) (\<lambda>(_, ob). push_all h xs ob))
      (and_then (Inr ((), ob_bytes ob @ [x])) (\<lambda>(_, bs). Inr ((), bs @ xs)))"
    by (rule simulates_bind [OF push_sim [OF Cons.prems assms(2)]])
      (auto intro: Cons.IH simp: steps_to_def)
  then show ?case by simp
qed simp

text \<open>The same facts in the shape in which the loops of the filters use them: a primitive followed
  by the rest of the loop.\<close>

lemma steps_to_ok: "steps_to c n ob ob' \<Longrightarrow> buf_ok ob'"
  by (simp add: steps_to_def)

lemma sim_then:
  assumes "simulates h c n ob r (Inr (x, bs))"
    "\<And>ob'. buf_ok ob' \<Longrightarrow> ob_bytes ob' = bs \<Longrightarrow> simulates h c' n' ob' (k x ob') p"
  shows "simulates h (c + c') (n + n') ob (and_then r (\<lambda>(x, ob'). k x ob')) p"
proof -
  have "simulates h (c + c') (n + n') ob (and_then r (\<lambda>(x, ob'). k x ob'))
    (and_then (Inr (x, bs)) (\<lambda>(y, bs'). p))"
    by (rule simulates_bind [OF assms(1)])
      (use assms in \<open>auto simp: simulates_def steps_to_def\<close>)
  then show ?thesis by simp
qed

lemma sim_error: "simulates h c n ob r (Inl e) \<Longrightarrow> simulates h c n ob (and_then r k) (Inl e)"
  by (cases r) (auto simp: simulates_def)

lemma sim_consume:
  assumes "buf_ok ob"
    "\<And>ob'. buf_ok ob' \<Longrightarrow> ob_bytes ob' = ob_bytes ob \<Longrightarrow> simulates h c n ob' (k ob') p"
  shows "simulates h (1 + c) n ob (and_then (consume_input h ob) (\<lambda>(_, ob'). k ob')) p"
  using sim_then [OF consume_input_sim [OF assms(1)], where c' = c and n' = n and k = "\<lambda>_. k"] assms(2)
  by simp

lemma sim_charge:
  assumes "buf_ok ob"
    "\<And>ob'. buf_ok ob' \<Longrightarrow> ob_bytes ob' = ob_bytes ob \<Longrightarrow> simulates h c n ob' (k ob') p"
  shows "simulates h (a + c) n ob (and_then (charge_algorithm h a ob) (\<lambda>(_, ob'). k ob')) p"
  using sim_then [OF charge_algorithm_sim [OF assms(1)], where c' = c and n' = n and k = "\<lambda>_. k"] assms(2)
  by simp

lemma sim_push:
  assumes "buf_ok ob" "host_ok h"
    "\<And>ob'. buf_ok ob' \<Longrightarrow> ob_bytes ob' = ob_bytes ob @ [x] \<Longrightarrow> simulates h c n ob' (k ob') p"
  shows "simulates h (1 + c) (1 + n) ob (and_then (push h x ob) (\<lambda>(_, ob'). k ob')) p"
  by (rule sim_then [OF push_sim [OF assms(1,2)]]) (use assms(3) in auto)

lemma sim_push_all:
  assumes "buf_ok ob" "host_ok h"
    "\<And>ob'. buf_ok ob' \<Longrightarrow> ob_bytes ob' = ob_bytes ob @ xs \<Longrightarrow> simulates h c n ob' (k ob') p"
  shows "simulates h (length xs + c) (length xs + n) ob
    (and_then (push_all h xs ob) (\<lambda>(_, ob'). k ob')) p"
  by (rule sim_then [OF push_all_sim [OF assms(1,2)]]) (use assms(3) in auto)

section \<open>The interface of a filter layer\<close>

text \<open>What the pipeline relies on, whatever the filter is: a layer spends its own budget within
  the limits, accounts for every byte it emits, and retains no more than it may.\<close>

definition layer_done :: "nat \<Rightarrow> bool \<Rightarrow> decode_budget \<Rightarrow> vec \<Rightarrow> decode_budget \<Rightarrow> bool" where
  "layer_done incap final b v b' \<longleftrightarrow>
     budget_ok b' \<and> b_limits b' = b_limits b \<and> b_schedule b' = b_schedule b \<and>
     fuel_consumed b \<le> fuel_consumed b' \<and>
     cumulative_output_bytes b' = cumulative_output_bytes b + length (vec_bytes v) \<and>
     length (vec_bytes v) \<le> max_layer_output_bytes (b_limits b) \<and>
     (final \<longrightarrow> length (vec_bytes v) \<le> max_final_output_bytes (b_limits b)) \<and>
     length (vec_bytes v) \<le> vec_capacity v \<and>
     peak_retained_capacity_bytes b \<le> peak_retained_capacity_bytes b' \<and>
     (vec_capacity v \<noteq> 0 \<longrightarrow> incap + vec_capacity v \<le> peak_retained_capacity_bytes b')"

locale filter_layer =
  fixes layer :: "host \<Rightarrow> u8 list \<Rightarrow> nat \<Rightarrow> bool \<Rightarrow> nat \<Rightarrow> decode_budget
      \<Rightarrow> decode_error + (vec \<times> decode_budget)"
    and reference :: "nat \<Rightarrow> u8 list \<Rightarrow> decode_error + u8 list"
  assumes layer_accounts:
    "\<lbrakk>host_ok h; budget_ok b; incap \<le> max_retained_capacity_bytes (b_limits b);
      length input \<le> u64_max; layer h input incap final idx b = Inr (v, b')\<rbrakk>
     \<Longrightarrow> layer_done incap final b v b' \<and> reference idx input = Inr (vec_bytes v)"
    and layer_errors:
    "\<lbrakk>host_ok h; budget_ok b; incap \<le> max_retained_capacity_bytes (b_limits b);
      length input \<le> u64_max; layer h input incap final idx b = Inl e\<rbrakk>
     \<Longrightarrow> is_host_error e \<or> reference idx input = Inl e"
begin

lemma layer_retained:
  assumes "host_ok h" "budget_ok b" "incap \<le> max_retained_capacity_bytes (b_limits b)"
    "length input \<le> u64_max" "layer h input incap final idx b = Inr (v, b')"
  shows "vec_capacity v \<le> max_retained_capacity_bytes (b_limits b')" "budget_ok b'"
proof -
  have "layer_done incap final b v b'" using layer_accounts [OF assms] by simp
  then show "vec_capacity v \<le> max_retained_capacity_bytes (b_limits b')" "budget_ok b'"
    by (auto simp: layer_done_def budget_ok_def)
qed

text \<open>The outcome depends on the host only in whether the layer is stopped: two successful runs
  under any hosts and budgets give the same bytes.\<close>

lemma layer_deterministic:
  assumes "host_ok h" "budget_ok b" "incap \<le> max_retained_capacity_bytes (b_limits b)"
    "length input \<le> u64_max" "layer h input incap final idx b = Inr (v, b')"
    "host_ok h2" "budget_ok b2" "incap2 \<le> max_retained_capacity_bytes (b_limits b2)"
    "length input \<le> u64_max" "layer h2 input incap2 final2 idx b2 = Inr (v2, b2')"
  shows "vec_bytes v = vec_bytes v2"
  using layer_accounts [OF assms(1-5)] layer_accounts [OF assms(6-10)] by simp

end

text \<open>A simulation of the loop of a filter gives the contract of the layer.\<close>

lemma buf_ok_new:
  assumes "budget_ok b" "incap \<le> max_retained_capacity_bytes (b_limits b)"
  shows "buf_ok (output_buffer_new incap final idx hint b)"
  using assms by (simp add: buf_ok_def output_buffer_new_def)

lemma steps_to_layer_done:
  assumes "steps_to c n (output_buffer_new incap final idx hint b) ob"
  shows "layer_done incap final b (fst (finish ob)) (snd (finish ob))"
  using assms
  by (auto simp: steps_to_def buf_frame_def buf_ok_def layer_done_def finish_def output_buffer_new_def)

lemma layer_of_sim:
  assumes sim: "simulates h c n (output_buffer_new incap final idx hint b) r
      (and_then p (\<lambda>out. Inr (x, out)))"
  shows "and_then r (\<lambda>(_, ob). Inr (finish ob)) = Inr (v, b') \<Longrightarrow>
      layer_done incap final b v b' \<and> p = Inr (vec_bytes v)"
    "and_then r (\<lambda>(_, ob). Inr (finish ob)) = Inl e \<Longrightarrow> is_host_error e \<or> p = Inl e"
proof -
  show "layer_done incap final b v b' \<and> p = Inr (vec_bytes v)"
    if "and_then r (\<lambda>(_, ob). Inr (finish ob)) = Inr (v, b')"
  proof -
    from that obtain y ob where r: "r = Inr (y, ob)" "finish ob = (v, b')"
      by (auto simp: and_then_Inr_iff)
    then have "steps_to c n (output_buffer_new incap final idx hint b) ob"
      "and_then p (\<lambda>out. Inr (x, out)) = Inr (y, ob_bytes ob)"
      using sim by (auto simp: simulates_def)
    with steps_to_layer_done r(2) show ?thesis
      by (auto simp: and_then_Inr_iff finish_def)
  qed
  show "is_host_error e \<or> p = Inl e" if "and_then r (\<lambda>(_, ob). Inr (finish ob)) = Inl e"
    using that sim by (auto simp: simulates_def and_then_Inl_iff split: prod.splits)
qed

end
