(* ===== verification/Pdf_Chars.thy ===== *)
theory Pdf_Chars
  imports Prelude
begin

text \<open>
  The character classes of PDF as tables of bytes: the six white-space bytes, the ten other delimiters, the
  decimal, octal and hexadecimal digits with their values, and the escapes of literal strings. The
  specifications of the filters and of the syntax are written with these tables; the tests of the
  code, which are ranges and matches, are shown equal to them where they are used.
\<close>

definition white_bytes :: "u8 list" where
  "white_bytes = [0x00, 0x09, 0x0A, 0x0C, 0x0D, 0x20]"

text \<open>The delimiters \<open>( ) < > [ ] { } / %\<close>.\<close>

definition special_bytes :: "u8 list" where
  "special_bytes = [0x28, 0x29, 0x3C, 0x3E, 0x5B, 0x5D, 0x7B, 0x7D, 0x2F, 0x25]"

definition digit_bytes :: "u8 list" where
  "digit_bytes = [0x30, 0x31, 0x32, 0x33, 0x34, 0x35, 0x36, 0x37, 0x38, 0x39]"

definition octal_bytes :: "u8 list" where
  "octal_bytes = [0x30, 0x31, 0x32, 0x33, 0x34, 0x35, 0x36, 0x37]"

definition hex_table :: "(u8 \<times> u8) list" where
  "hex_table =
     [(0x30, 0), (0x31, 1), (0x32, 2), (0x33, 3), (0x34, 4), (0x35, 5), (0x36, 6), (0x37, 7), (0x38, 8), (0x39, 9),
      (0x41, 10), (0x42, 11), (0x43, 12), (0x44, 13), (0x45, 14), (0x46, 15),
      (0x61, 10), (0x62, 11), (0x63, 12), (0x64, 13), (0x65, 14), (0x66, 15)]"

text \<open>The letters n, r, t, b and f behind a backslash.\<close>

definition escape_table :: "(u8 \<times> u8) list" where
  "escape_table = [(0x6E, 0x0A), (0x72, 0x0D), (0x74, 0x09), (0x62, 0x08), (0x66, 0x0C)]"

section \<open>Ranges and tables\<close>

lemma byte_range: "(x :: u8) \<le> y \<and> y \<le> z \<longleftrightarrow> y \<in> word_of_nat ` {unat x..unat z}"
proof
  assume "x \<le> y \<and> y \<le> z"
  then have "unat y \<in> {unat x..unat z}" by (simp add: word_le_nat_alt)
  moreover have "y = word_of_nat (unat y)" by simp
  ultimately show "y \<in> word_of_nat ` {unat x..unat z}" by blast
next
  assume "y \<in> word_of_nat ` {unat x..unat z}"
  then obtain n where n: "y = word_of_nat n" "unat x \<le> n" "n \<le> unat z" by auto
  moreover have "unat (word_of_nat n :: u8) = n"
    using n(3) unsigned_less [of z, where ?'a = nat] by (simp add: unat_of_nat)
  ultimately show "x \<le> y \<and> y \<le> z" by (simp add: word_le_nat_alt)
qed

lemma digit_ranges:
  "48 \<le> b \<and> b \<le> 57 \<longleftrightarrow> (b :: u8) \<in> {48, 49, 50, 51, 52, 53, 54, 55, 56, 57}"
  "48 \<le> b \<and> b \<le> 55 \<longleftrightarrow> (b :: u8) \<in> {48, 49, 50, 51, 52, 53, 54, 55}"
  "97 \<le> b \<and> b \<le> 102 \<longleftrightarrow> (b :: u8) \<in> {97, 98, 99, 100, 101, 102}"
  "65 \<le> b \<and> b \<le> 70 \<longleftrightarrow> (b :: u8) \<in> {65, 66, 67, 68, 69, 70}"
  unfolding byte_range by (simp_all add: atLeastAtMost_upt upt_rec)

lemma hex_ranges_table:
  "(if 48 \<le> b \<and> b \<le> 57 then Some (b - 48)
    else if 97 \<le> b \<and> b \<le> 102 then Some (b - 97 + 10)
    else if 65 \<le> b \<and> b \<le> 70 then Some (b - 65 + 10)
    else None) = map_of hex_table b"
proof (cases "b \<in> set (map fst hex_table)")
  case True
  then show ?thesis by (auto simp: hex_table_def digit_ranges)
next
  case False
  then have "map_of hex_table b = None" by (simp add: map_of_eq_None_iff)
  with False show ?thesis by (simp add: digit_ranges hex_table_def)
qed

end
