(* ===== verification/Filt_Ascii.thy ===== *)
theory Filt_Ascii
  imports Filt_Budget Pdf_Chars
begin

text \<open>
  The identity layer and the ASCIIHex and ASCII85 decoders of \<open>pdf-rs/filters/src/decode.rs\<close>,
  each with a budget-free reference, the proof that the budgeted loop computes the reference, and
  the round trip with an encoder.
\<close>

section \<open>Characters\<close>

definition is_pdf_whitespace :: "u8 \<Rightarrow> bool" where
  "is_pdf_whitespace b \<longleftrightarrow> b \<in> {0, 9, 10, 12, 13, 32}"

definition hex_nibble :: "u8 \<Rightarrow> u8 option" where
  "hex_nibble b =
     (if 48 \<le> b \<and> b \<le> 57 then Some (b - 48)
      else if 97 \<le> b \<and> b \<le> 102 then Some (b - 97 + 10)
      else if 65 \<le> b \<and> b \<le> 70 then Some (b - 65 + 10)
      else None)"

section \<open>Identity\<close>

fun identity_loop :: "host \<Rightarrow> u8 list \<Rightarrow> output_buffer \<Rightarrow> unit decoding" where
  "identity_loop h [] ob = Inr ((), ob)"
| "identity_loop h (byte # rest) ob =
     and_then (consume_input h ob) (\<lambda>(_, ob).
     and_then (push h byte ob) (\<lambda>(_, ob). identity_loop h rest ob))"

definition decode_identity :: "host \<Rightarrow> u8 list \<Rightarrow> decode_budget \<Rightarrow> decode_error + (vec \<times> decode_budget)" where
  "decode_identity h input b =
     and_then (identity_loop h input (output_buffer_new 0 True None (length input) b))
       (\<lambda>(_, ob). Inr (finish ob))"

lemma identity_loop_sim:
  assumes "host_ok h" "buf_ok ob"
  shows "simulates h (2 * length input) (length input) ob (identity_loop h input ob)
    (Inr ((), ob_bytes ob @ input))"
  using assms(2)
proof (induction input arbitrary: ob)
  case (Cons x xs)
  have rest: "simulates h (2 * length xs) (length xs) ob' (identity_loop h xs ob')
      (Inr ((), ob_bytes ob @ x # xs))" if "buf_ok ob'" "ob_bytes ob' = ob_bytes ob @ [x]" for ob'
    using Cons.IH [OF that(1)] that(2) by simp
  have "simulates h (1 + (1 + 2 * length xs)) (1 + length xs) ob (identity_loop h (x # xs) ob)
      (Inr ((), ob_bytes ob @ x # xs))"
    unfolding identity_loop.simps
    by (rule sim_consume [OF Cons.prems], rule sim_push [OF _ assms(1)]) (auto intro: rest)
  then show ?case by simp
qed simp

section \<open>ASCIIHex\<close>

text \<open>The loop keeps the pending high nibble and whether the end marker was seen; it returns the
  latter.\<close>

fun hex_loop :: "host \<Rightarrow> nat \<Rightarrow> u8 option \<Rightarrow> bool \<Rightarrow> u8 list \<Rightarrow> output_buffer \<Rightarrow> bool decoding" where
  "hex_loop h idx high terminated [] ob = Inr (terminated, ob)"
| "hex_loop h idx high terminated (byte # rest) ob =
     and_then (consume_input h ob) (\<lambda>(_, ob).
       if terminated then
         if is_pdf_whitespace byte then hex_loop h idx high terminated rest ob
         else Inl (for_code TrailingData (Some idx))
       else if is_pdf_whitespace byte then hex_loop h idx high terminated rest ob
       else if byte = 62 then
         (case high of
            Some hi \<Rightarrow> and_then (push h (push_bit 4 hi) ob) (\<lambda>(_, ob). hex_loop h idx None True rest ob)
          | None \<Rightarrow> hex_loop h idx None True rest ob)
       else and_then (ok_or (hex_nibble byte) (for_code InvalidAsciiHex (Some idx))) (\<lambda>nibble.
         case high of
           Some hi \<Rightarrow> and_then (push h (or (push_bit 4 hi) nibble) ob)
                       (\<lambda>(_, ob). hex_loop h idx None terminated rest ob)
         | None \<Rightarrow> hex_loop h idx (Some nibble) terminated rest ob))"

definition decode_ascii_hex ::
  "host \<Rightarrow> u8 list \<Rightarrow> nat \<Rightarrow> bool \<Rightarrow> nat \<Rightarrow> decode_budget \<Rightarrow> decode_error + (vec \<times> decode_budget)" where
  "decode_ascii_hex h input incap final idx b =
     (let hint = saturating_add (length input) 1 div 2;
          ob = output_buffer_new incap final (Some idx) hint b
      in and_then (hex_loop h idx None False input ob) (\<lambda>(terminated, ob).
           if \<not> terminated then Inl (for_code MissingEndMarker (Some idx))
           else Inr (finish ob)))"

text \<open>The reference: the bytes that the rest of the input emits.\<close>

fun hex_ref :: "nat \<Rightarrow> u8 option \<Rightarrow> bool \<Rightarrow> u8 list \<Rightarrow> decode_error + (bool \<times> u8 list)" where
  "hex_ref idx high terminated [] = Inr (terminated, [])"
| "hex_ref idx high terminated (byte # rest) =
     (if is_pdf_whitespace byte then hex_ref idx high terminated rest
      else if terminated then Inl (for_code TrailingData (Some idx))
      else if byte = 62 then
        and_then (hex_ref idx None True rest) (\<lambda>(t, out).
          Inr (t, (case high of Some hi \<Rightarrow> [push_bit 4 hi] | None \<Rightarrow> []) @ out))
      else case hex_nibble byte of
             None \<Rightarrow> Inl (for_code InvalidAsciiHex (Some idx))
           | Some nibble \<Rightarrow>
               (case high of
                  None \<Rightarrow> hex_ref idx (Some nibble) False rest
                | Some hi \<Rightarrow> and_then (hex_ref idx None False rest) (\<lambda>(t, out).
                             Inr (t, or (push_bit 4 hi) nibble # out))))"

definition hex_reference :: "nat \<Rightarrow> u8 list \<Rightarrow> decode_error + u8 list" where
  "hex_reference idx input =
     and_then (hex_ref idx None False input) (\<lambda>(t, out).
       if t then Inr out else Inl (for_code MissingEndMarker (Some idx)))"

lemma hex_loop_sim:
  assumes "host_ok h" "buf_ok ob"
  shows "simulates h (2 * length input) (length input) ob (hex_loop h idx high terminated input ob)
    (and_then (hex_ref idx high terminated input) (\<lambda>(t, out). Inr (t, ob_bytes ob @ out)))"
  using assms(2)
proof (induction input arbitrary: ob high terminated)
  case (Cons x xs)
  have step: "simulates h (1 + 2 * length xs) (1 + length xs) ob' (hex_loop h idx hi t xs ob')
      (and_then (hex_ref idx hi t xs) (\<lambda>(t, out). Inr (t, ob_bytes ob @ out)))"
    if "buf_ok ob'" "ob_bytes ob' = ob_bytes ob" for ob' hi t
    using simulates_mono [OF Cons.IH [OF that(1)]] that(2) by simp
  have emit: "simulates h (1 + 2 * length xs) (1 + length xs) ob'
      (and_then (push h y ob') (\<lambda>(_, ob). hex_loop h idx None t xs ob))
      (and_then (hex_ref idx None t xs) (\<lambda>(t, out). Inr (t, ob_bytes ob @ y # out)))"
    if "buf_ok ob'" "ob_bytes ob' = ob_bytes ob" for ob' t y
    by (rule sim_push [OF that(1) assms(1)]) (use Cons.IH that(2) in \<open>fastforce\<close>)
  have "simulates h (1 + (1 + 2 * length xs)) (1 + length xs) ob
      (hex_loop h idx high terminated (x # xs) ob)
      (and_then (hex_ref idx high terminated (x # xs)) (\<lambda>(t, out). Inr (t, ob_bytes ob @ out)))"
    unfolding hex_loop.simps
    by (rule sim_consume [OF Cons.prems])
      (use step emit in \<open>auto simp: and_then_assoc split_def split: option.splits\<close>)
  then show ?case by simp
qed simp

lemma decode_identity_sim:
  assumes "host_ok h" "budget_ok b"
  shows "simulates h (2 * length input) (length input) (output_buffer_new 0 True None hint b)
    (identity_loop h input (output_buffer_new 0 True None hint b)) (and_then (Inr input) (\<lambda>out. Inr ((), out)))"
  using identity_loop_sim [OF assms(1) buf_ok_new [OF assms(2), of 0]]
  by (simp add: output_buffer_new_def)

text \<open>The whole decoder, in the shape of a layer: the end-marker test comes after the loop.\<close>

lemma marker_sim:
  assumes "simulates h c n ob r (and_then p (\<lambda>(t, out). Inr (t, bs @ out)))"
  shows "simulates h c n ob
    (and_then r (\<lambda>(t, ob'). if \<not> t then Inl e else Inr ((), ob')))
    (and_then (and_then p (\<lambda>(t, out). if t then Inr out else Inl e)) (\<lambda>out. Inr ((), bs @ out)))"
  using assms
  by (auto simp: simulates_def and_then_def split: sum.splits prod.splits if_splits)

lemma finish_after_marker:
  "and_then r (\<lambda>(t, ob). if \<not> t then Inl e else Inr (finish ob)) =
   and_then (and_then r (\<lambda>(t, ob). if \<not> t then Inl e else Inr ((), ob))) (\<lambda>(_, ob). Inr (finish ob))"
  by (cases r) auto

text \<open>A loop that reports whether it met its end marker, as a layer.\<close>

lemma layer_of_marked_sim:
  fixes final :: bool and idx :: "nat option" and hint :: nat
  assumes "\<And>ob. buf_ok ob \<Longrightarrow> simulates h c n ob (loop ob) (and_then p (\<lambda>(t, out). Inr (t, ob_bytes ob @ out)))"
    and "budget_ok b" "incap \<le> max_retained_capacity_bytes (b_limits b)"
  defines "ob \<equiv> output_buffer_new incap final idx hint b"
  shows "simulates h c n ob (and_then (loop ob) (\<lambda>(t, ob'). if \<not> t then Inl e else Inr ((), ob')))
      (and_then (and_then p (\<lambda>(t, out). if t then Inr out else Inl e)) (\<lambda>out. Inr ((), out)))"
    and "and_then (loop ob) (\<lambda>(t, ob). if \<not> t then Inl e else Inr (finish ob)) = Inr (v, b') \<Longrightarrow>
      layer_done incap final b v b' \<and>
      and_then p (\<lambda>(t, out). if t then Inr out else Inl e) = Inr (vec_bytes v)"
    and "and_then (loop ob) (\<lambda>(t, ob). if \<not> t then Inl e else Inr (finish ob)) = Inl e' \<Longrightarrow>
      is_host_error e' \<or> and_then p (\<lambda>(t, out). if t then Inr out else Inl e) = Inl e'"
proof -
  have "buf_ok ob" "ob_bytes ob = []"
    using buf_ok_new [OF assms(2,3)] by (simp_all add: ob_def output_buffer_new_def)
  then show sim: "simulates h c n ob
      (and_then (loop ob) (\<lambda>(t, ob'). if \<not> t then Inl e else Inr ((), ob')))
      (and_then (and_then p (\<lambda>(t, out). if t then Inr out else Inl e)) (\<lambda>out. Inr ((), out)))"
    using marker_sim [OF assms(1)] by fastforce
  note layer = layer_of_sim [OF sim [unfolded ob_def]]
  show "layer_done incap final b v b' \<and>
      and_then p (\<lambda>(t, out). if t then Inr out else Inl e) = Inr (vec_bytes v)"
    if "and_then (loop ob) (\<lambda>(t, ob). if \<not> t then Inl e else Inr (finish ob)) = Inr (v, b')"
    using layer(1) that unfolding finish_after_marker ob_def by blast
  show "is_host_error e' \<or> and_then p (\<lambda>(t, out). if t then Inr out else Inl e) = Inl e'"
    if "and_then (loop ob) (\<lambda>(t, ob). if \<not> t then Inl e else Inr (finish ob)) = Inl e'"
    using layer(2) that unfolding finish_after_marker ob_def by blast
qed

interpretation ascii_hex: filter_layer decode_ascii_hex hex_reference
  by unfold_locales
    (use layer_of_marked_sim(2,3) [OF hex_loop_sim] in
      \<open>(simp add: decode_ascii_hex_def hex_reference_def Let_def; blast)+\<close>)

section \<open>ASCII85\<close>

definition u32_try_from_u64 :: "nat \<Rightarrow> u32 option" where
  "u32_try_from_u64 v = (if v < 4294967296 then Some (of_nat v) else None)"

definition to_be_bytes :: "u32 \<Rightarrow> u8 list" where
  "to_be_bytes v = [ucast (drop_bit 24 v), ucast (drop_bit 16 v), ucast (drop_bit 8 v), ucast v]"

fun group_value_loop :: "nat \<Rightarrow> u32 list \<Rightarrow> nat option" where
  "group_value_loop acc [] = Some acc"
| "group_value_loop acc (d # ds) =
     Option.bind (checked_mul acc 85) (\<lambda>v. Option.bind (checked_add v (unat d)) (\<lambda>v. group_value_loop v ds))"

definition ascii85_group_value :: "u32 list \<Rightarrow> u32 option" where
  "ascii85_group_value digits = Option.bind (group_value_loop 0 digits) u32_try_from_u64"

definition emit_ascii85_partial ::
  "host \<Rightarrow> u32 list \<Rightarrow> nat \<Rightarrow> nat \<Rightarrow> output_buffer \<Rightarrow> unit decoding" where
  "emit_ascii85_partial h digits digit_count idx ob =
     (if digit_count = 0 then Inr ((), ob)
      else if digit_count = 1 then Inl (for_code InvalidAscii85 (Some idx))
      else let padded = take digit_count digits @ replicate (length digits - digit_count) 84 in
        and_then (ok_or (ascii85_group_value padded) (for_code InvalidAscii85 (Some idx)))
          (\<lambda>v. push_all h (take (digit_count - 1) (to_be_bytes v)) ob))"

fun ascii85_loop ::
  "host \<Rightarrow> nat \<Rightarrow> u32 list \<Rightarrow> nat \<Rightarrow> bool \<Rightarrow> bool \<Rightarrow> u8 list \<Rightarrow> output_buffer \<Rightarrow> bool decoding" where
  "ascii85_loop h idx digits digit_count pending terminated [] ob = Inr (terminated, ob)"
| "ascii85_loop h idx digits digit_count pending terminated (byte # rest) ob =
     and_then (consume_input h ob) (\<lambda>(_, ob).
       if terminated then
         if is_pdf_whitespace byte
         then ascii85_loop h idx digits digit_count pending terminated rest ob
         else Inl (for_code TrailingData (Some idx))
       else if pending then
         if byte \<noteq> 62 then Inl (for_code InvalidAscii85 (Some idx))
         else and_then (emit_ascii85_partial h digits digit_count idx ob)
                (\<lambda>(_, ob). ascii85_loop h idx digits digit_count False True rest ob)
       else if is_pdf_whitespace byte
       then ascii85_loop h idx digits digit_count pending terminated rest ob
       else if byte = 126 then ascii85_loop h idx digits digit_count True terminated rest ob
       else if byte = 122 \<and> digit_count = 0 then
         and_then (push_all h (replicate 4 0) ob)
           (\<lambda>(_, ob). ascii85_loop h idx digits digit_count pending terminated rest ob)
       else if byte = 122 then Inl (for_code InvalidAscii85 (Some idx))
       else if 33 \<le> byte \<and> byte \<le> 117 then
         let digits = digits[digit_count := ucast (byte - 33)]; digit_count = digit_count + 1 in
         if digit_count = 5 then
           and_then (ok_or (ascii85_group_value digits) (for_code InvalidAscii85 (Some idx))) (\<lambda>v.
           and_then (push_all h (to_be_bytes v) ob)
             (\<lambda>(_, ob). ascii85_loop h idx digits 0 pending terminated rest ob))
         else ascii85_loop h idx digits digit_count pending terminated rest ob
       else Inl (for_code InvalidAscii85 (Some idx)))"

definition decode_ascii85 ::
  "host \<Rightarrow> u8 list \<Rightarrow> nat \<Rightarrow> bool \<Rightarrow> nat \<Rightarrow> decode_budget \<Rightarrow> decode_error + (vec \<times> decode_budget)" where
  "decode_ascii85 h input incap final idx b =
     (let hint = saturating_add (saturating_mul (length input) 4 div 5) 4;
          ob = output_buffer_new incap final (Some idx) hint b
      in and_then (ascii85_loop h idx (replicate 5 0) 0 False False input ob) (\<lambda>(terminated, ob).
           if \<not> terminated then Inl (for_code MissingEndMarker (Some idx))
           else Inr (finish ob)))"

text \<open>The reference keeps just the digits of the open group.\<close>

definition ascii85_tail :: "nat \<Rightarrow> u32 list \<Rightarrow> decode_error + u8 list" where
  "ascii85_tail idx ds =
     (if ds = [] then Inr []
      else if length ds = 1 then Inl (for_code InvalidAscii85 (Some idx))
      else and_then (ok_or (ascii85_group_value (ds @ replicate (5 - length ds) 84))
             (for_code InvalidAscii85 (Some idx)))
           (\<lambda>v. Inr (take (length ds - 1) (to_be_bytes v))))"

fun ascii85_ref ::
  "nat \<Rightarrow> u32 list \<Rightarrow> bool \<Rightarrow> bool \<Rightarrow> u8 list \<Rightarrow> decode_error + (bool \<times> u8 list)" where
  "ascii85_ref idx ds pending terminated [] = Inr (terminated, [])"
| "ascii85_ref idx ds pending terminated (byte # rest) =
     (if terminated then
        if is_pdf_whitespace byte then ascii85_ref idx ds pending terminated rest
        else Inl (for_code TrailingData (Some idx))
      else if pending then
        if byte \<noteq> 62 then Inl (for_code InvalidAscii85 (Some idx))
        else and_then (ascii85_tail idx ds) (\<lambda>xs.
             and_then (ascii85_ref idx ds False True rest) (\<lambda>(t, out). Inr (t, xs @ out)))
      else if is_pdf_whitespace byte then ascii85_ref idx ds pending terminated rest
      else if byte = 126 then ascii85_ref idx ds True terminated rest
      else if byte = 122 then
        if ds = [] then and_then (ascii85_ref idx ds pending terminated rest)
                          (\<lambda>(t, out). Inr (t, replicate 4 0 @ out))
        else Inl (for_code InvalidAscii85 (Some idx))
      else if 33 \<le> byte \<and> byte \<le> 117 then
        let ds = ds @ [ucast (byte - 33)] in
        if length ds = 5 then
          and_then (ok_or (ascii85_group_value ds) (for_code InvalidAscii85 (Some idx))) (\<lambda>v.
          and_then (ascii85_ref idx [] pending terminated rest) (\<lambda>(t, out). Inr (t, to_be_bytes v @ out)))
        else ascii85_ref idx ds pending terminated rest
      else Inl (for_code InvalidAscii85 (Some idx)))"

definition ascii85_reference :: "nat \<Rightarrow> u8 list \<Rightarrow> decode_error + u8 list" where
  "ascii85_reference idx input =
     and_then (ascii85_ref idx [] False False input) (\<lambda>(t, out).
       if t then Inr out else Inl (for_code MissingEndMarker (Some idx)))"

lemma length_to_be_bytes [simp]: "length (to_be_bytes v) = 4"
  by (simp add: to_be_bytes_def)

lemma emit_partial_sim:
  assumes "buf_ok ob" "host_ok h" "length digits = 5" "n \<le> 4"
  shows "simulates h 4 4 ob (emit_ascii85_partial h digits n idx ob)
    (and_then (ascii85_tail idx (take n digits)) (\<lambda>xs. Inr ((), ob_bytes ob @ xs)))"
proof (cases "n < 2")
  case True
  then have "n = 0 \<or> n = 1" by auto
  then show ?thesis
    using assms by (auto simp: emit_ascii85_partial_def ascii85_tail_def take_Suc_conv_app_nth)
next
  case False
  let ?p = "take n digits @ replicate (5 - n) 84"
  have ref: "ascii85_tail idx (take n digits) =
      and_then (ok_or (ascii85_group_value ?p) (for_code InvalidAscii85 (Some idx)))
        (\<lambda>v. Inr (take (n - 1) (to_be_bytes v)))"
    using False assms(3,4) by (auto simp: ascii85_tail_def)
  show ?thesis
  proof (cases "ascii85_group_value ?p")
    case None
    then show ?thesis using False assms(3) by (simp add: ref emit_ascii85_partial_def)
  next
    case (Some v)
    have "simulates h 4 4 ob (push_all h (take (n - 1) (to_be_bytes v)) ob)
        (Inr ((), ob_bytes ob @ take (n - 1) (to_be_bytes v)))"
      by (rule simulates_mono [OF push_all_sim [OF assms(1,2)]]) auto
    then show ?thesis using Some False assms(3) by (simp add: ref emit_ascii85_partial_def)
  qed
qed

lemma ascii85_loop_sim:
  assumes "host_ok h" "buf_ok ob" "length digits = 5" "n \<le> 4"
  shows "simulates h (5 * length input) (4 * length input) ob
      (ascii85_loop h idx digits n pending terminated input ob)
    (and_then (ascii85_ref idx (take n digits) pending terminated input)
       (\<lambda>(t, out). Inr (t, ob_bytes ob @ out)))"
  using assms(2-4)
proof (induction input arbitrary: ob digits n pending terminated)
  case (Cons x xs)
  let ?c = "4 + 5 * length xs" and ?n = "4 + 4 * length xs"
  have step: "simulates h ?c ?n ob' (ascii85_loop h idx ds m pe t xs ob')
      (and_then (ascii85_ref idx (take m ds) pe t xs) (\<lambda>(t, out). Inr (t, ob_bytes ob @ out)))"
    if "buf_ok ob'" "ob_bytes ob' = ob_bytes ob" "length ds = 5" "m \<le> 4" for ob' ds m pe t
    using simulates_mono [OF Cons.IH [OF that(1,3,4)]] that(2) by simp
  have emit: "simulates h ?c ?n ob' (and_then (push_all h ys ob')
        (\<lambda>(_, ob). ascii85_loop h idx ds m pe t xs ob))
      (and_then (ascii85_ref idx (take m ds) pe t xs) (\<lambda>(t, out). Inr (t, ob_bytes ob @ ys @ out)))"
    if "buf_ok ob'" "ob_bytes ob' = ob_bytes ob" "length ds = 5" "m \<le> 4" "length ys = 4"
    for ob' ds m pe t ys
  proof -
    have "simulates h (length ys + 5 * length xs) (length ys + 4 * length xs) ob'
        (and_then (push_all h ys ob') (\<lambda>(_, ob). ascii85_loop h idx ds m pe t xs ob))
        (and_then (ascii85_ref idx (take m ds) pe t xs) (\<lambda>(t, out). Inr (t, ob_bytes ob @ ys @ out)))"
    proof (rule sim_push_all [OF that(1) assms(1)])
      fix ob2
      assume "buf_ok ob2" "ob_bytes ob2 = ob_bytes ob' @ ys"
      then show "simulates h (5 * length xs) (4 * length xs) ob2 (ascii85_loop h idx ds m pe t xs ob2)
        (and_then (ascii85_ref idx (take m ds) pe t xs) (\<lambda>(t, out). Inr (t, ob_bytes ob @ ys @ out)))"
        using Cons.IH [OF _ that(3,4), of ob2 pe t] that(2) by simp
    qed
    then show ?thesis using that(5) by simp
  qed
  have tail: "simulates h ?c ?n ob' (and_then (emit_ascii85_partial h digits n idx ob')
        (\<lambda>(_, ob). ascii85_loop h idx digits n False True xs ob))
      (and_then (ascii85_tail idx (take n digits)) (\<lambda>ys.
        and_then (ascii85_ref idx (take n digits) False True xs)
          (\<lambda>(t, out). Inr (t, ob_bytes ob @ ys @ out))))"
    if "buf_ok ob'" "ob_bytes ob' = ob_bytes ob" for ob'
    using simulates_bind [OF emit_partial_sim [OF that(1) assms(1) Cons.prems(2,3), of idx],
        of "5 * length xs" "4 * length xs" "\<lambda>_. ascii85_loop h idx digits n False True xs"
        "\<lambda>_ bs. and_then (ascii85_ref idx (take n digits) False True xs) (\<lambda>(t, out). Inr (t, bs @ out))"]
      Cons.IH [OF steps_to_ok Cons.prems(2,3)] that(2)
    by (simp add: and_then_assoc)
  have more: "take (Suc n) (digits[n := d]) = take n digits @ [d]" for d :: u32
    using Cons.prems(2,3) by (simp add: take_Suc_conv_app_nth)
  have full: "digits[n := d] = take n digits @ [d]" if "n = 4" for d :: u32
    using more [of d] that Cons.prems(2) by (metis eval_nat_numeral(3) length_list_update order_refl take_all)
  have "simulates h (1 + ?c) ?n ob (ascii85_loop h idx digits n pending terminated (x # xs) ob)
      (and_then (ascii85_ref idx (take n digits) pending terminated (x # xs))
        (\<lambda>(t, out). Inr (t, ob_bytes ob @ out)))"
    unfolding ascii85_loop.simps
  proof (rule sim_consume [OF Cons.prems(1)])
    fix ob'
    assume ob': "buf_ok ob'" "ob_bytes ob' = ob_bytes ob"
    note rest = step [OF ob'] emit [OF ob'] tail [OF ob']
    show "simulates h ?c ?n ob'
       (if terminated then
         if is_pdf_whitespace x then ascii85_loop h idx digits n pending terminated xs ob'
         else Inl (for_code TrailingData (Some idx))
       else if pending then
         if x \<noteq> 62 then Inl (for_code InvalidAscii85 (Some idx))
         else and_then (emit_ascii85_partial h digits n idx ob')
                (\<lambda>(_, ob). ascii85_loop h idx digits n False True xs ob)
       else if is_pdf_whitespace x then ascii85_loop h idx digits n pending terminated xs ob'
       else if x = 126 then ascii85_loop h idx digits n True terminated xs ob'
       else if x = 122 \<and> n = 0 then
         and_then (push_all h (replicate 4 0) ob')
           (\<lambda>(_, ob). ascii85_loop h idx digits n pending terminated xs ob)
       else if x = 122 then Inl (for_code InvalidAscii85 (Some idx))
       else if 33 \<le> x \<and> x \<le> 117 then
         let digits = digits[n := ucast (x - 33)]; n = n + 1 in
         if n = 5 then
           and_then (ok_or (ascii85_group_value digits) (for_code InvalidAscii85 (Some idx))) (\<lambda>v.
           and_then (push_all h (to_be_bytes v) ob')
             (\<lambda>(_, ob). ascii85_loop h idx digits 0 pending terminated xs ob))
         else ascii85_loop h idx digits n pending terminated xs ob'
       else Inl (for_code InvalidAscii85 (Some idx)))
      (and_then (ascii85_ref idx (take n digits) pending terminated (x # xs))
        (\<lambda>(t, out). Inr (t, ob_bytes ob @ out)))"
    proof (cases "\<not> terminated \<and> \<not> pending \<and> \<not> is_pdf_whitespace x \<and> x \<noteq> 126 \<and> x \<noteq> 122 \<and>
        33 \<le> x \<and> x \<le> 117")
      case True
      let ?d = "ucast (x - 33) :: u32"
      show ?thesis
      proof (cases "n = 4")
        case four: True
        then show ?thesis
          using True full [OF four, of ?d] rest(2) [of "take 4 digits @ [?d]" 0 "to_be_bytes _"]
            Cons.prems(2)
          by (cases "ascii85_group_value (take 4 digits @ [?d])")
            (auto simp: and_then_assoc split_def)
      next
        case False
        then show ?thesis
          using True rest(1) [of "digits[n := ?d]" "Suc n"] Cons.prems(2,3) more [of ?d] by simp
      qed
    next
      case False
      have z: "take n digits = [] \<longleftrightarrow> n = 0" using Cons.prems(2) by auto
      show ?thesis
        using False rest(1) [OF Cons.prems(2,3)] rest(3)
          rest(2) [OF Cons.prems(2,3), of "replicate 4 0"] z
        by (auto simp: and_then_assoc split_def)
    qed
  qed
  then show ?case by (simp add: add.commute)
qed simp

interpretation ascii85: filter_layer decode_ascii85 ascii85_reference
proof unfold_locales
  fix h b incap input final idx
  assume ok: "host_ok h" "budget_ok b" "incap \<le> max_retained_capacity_bytes (b_limits b)"
  have sim: "simulates h (5 * length input) (4 * length input) ob
      (ascii85_loop h idx (replicate 5 0) 0 False False input ob)
      (and_then (ascii85_ref idx [] False False input) (\<lambda>(t, out). Inr (t, ob_bytes ob @ out)))"
    if "buf_ok ob" for ob
    using ascii85_loop_sim [OF ok(1) that, of "replicate 5 0" 0] by simp
  note layer = layer_of_marked_sim(2,3) [OF sim ok(2,3)]
  show "layer_done incap final b v b' \<and> ascii85_reference idx input = Inr (vec_bytes v)"
    if "decode_ascii85 h input incap final idx b = Inr (v, b')" for v b'
    using that layer(1) by (simp add: decode_ascii85_def ascii85_reference_def Let_def)
  show "is_host_error e \<or> ascii85_reference idx input = Inl e"
    if "decode_ascii85 h input incap final idx b = Inl e" for e
    using that layer(2) by (simp add: decode_ascii85_def ascii85_reference_def Let_def)
qed

section \<open>What ASCIIHex accepts\<close>

fun hex_pairs :: "u8 list \<Rightarrow> u8 list" where
  "hex_pairs [] = []"
| "hex_pairs [a] = [push_bit 4 a]"
| "hex_pairs (a # b # rest) = or (push_bit 4 a) b # hex_pairs rest"

definition hex_digits :: "u8 list \<Rightarrow> u8 list" where
  "hex_digits body = List.map_filter (map_of hex_table) body"

definition hex_body :: "u8 list \<Rightarrow> bool" where
  "hex_body body \<longleftrightarrow> set body \<subseteq> set white_bytes \<union> set (map fst hex_table)"

lemma hex_nibble_table: "hex_nibble b = map_of hex_table b"
  unfolding hex_nibble_def by (rule hex_ranges_table)

lemma whitespace_table: "is_pdf_whitespace b \<longleftrightarrow> b \<in> set white_bytes"
  by (simp add: is_pdf_whitespace_def white_bytes_def)

lemma white_no_digit: "is_pdf_whitespace b \<Longrightarrow> hex_nibble b = None"
  by (auto simp: is_pdf_whitespace_def hex_nibble_table hex_table_def)

lemma hex_digits_code: "hex_digits body = List.map_filter hex_nibble (filter (\<lambda>b. \<not> is_pdf_whitespace b) body)"
  by (induction body)
    (auto simp: hex_digits_def map_filter_simps hex_nibble_table dest: white_no_digit [unfolded hex_nibble_table]
      split: option.split)

lemma hex_body_code: "hex_body body \<longleftrightarrow> (\<forall>b \<in> set body. is_pdf_whitespace b \<or> hex_nibble b \<noteq> None)"
  by (auto simp: hex_body_def whitespace_table hex_nibble_table map_of_eq_None_iff)

lemma hex_nibble_special: "hex_nibble 62 = None" "\<not> is_pdf_whitespace 62"
  by (simp_all add: hex_nibble_def is_pdf_whitespace_def word_le_nat_alt)

lemma hex_ref_terminated:
  "hex_ref idx high True input =
     (if \<forall>b \<in> set input. is_pdf_whitespace b then Inr (True, []) else Inl (for_code TrailingData (Some idx)))"
  by (induction input) auto

definition hex_spec :: "nat \<Rightarrow> u8 list \<Rightarrow> u8 list \<Rightarrow> decode_error + u8 list" where
  "hex_spec idx digits input =
     (let body = takeWhile (\<lambda>b. b \<noteq> 62) input; rest = dropWhile (\<lambda>b. b \<noteq> 62) input in
      if \<not> hex_body body then Inl (for_code InvalidAsciiHex (Some idx))
      else if rest = [] then Inl (for_code MissingEndMarker (Some idx))
      else if \<not> set (tl rest) \<subseteq> set white_bytes then Inl (for_code TrailingData (Some idx))
      else Inr (hex_pairs (digits @ hex_digits body)))"

lemma hex_spec_code:
  "hex_spec idx digits input =
     (let body = takeWhile (\<lambda>b. b \<noteq> 62) input; rest = dropWhile (\<lambda>b. b \<noteq> 62) input in
      if \<not> hex_body body then Inl (for_code InvalidAsciiHex (Some idx))
      else if rest = [] then Inl (for_code MissingEndMarker (Some idx))
      else if \<not> (\<forall>b \<in> set (tl rest). is_pdf_whitespace b) then Inl (for_code TrailingData (Some idx))
      else Inr (hex_pairs (digits @ hex_digits body)))"
  unfolding hex_spec_def whitespace_table subset_eq ..

lemma hex_spec_space: "is_pdf_whitespace x \<Longrightarrow> hex_spec idx ds (x # xs) = hex_spec idx ds xs"
proof -
  assume x: "is_pdf_whitespace x"
  then have "x \<noteq> 62" using hex_nibble_special(2) by blast
  with x show ?thesis by (auto simp: hex_spec_code hex_body_code hex_digits_code Let_def)
qed

lemma hex_spec_digit:
  "\<not> is_pdf_whitespace x \<Longrightarrow> x \<noteq> 62 \<Longrightarrow> hex_spec idx ds (x # xs) =
     (case hex_nibble x of None \<Rightarrow> Inl (for_code InvalidAsciiHex (Some idx))
      | Some n \<Rightarrow> hex_spec idx (ds @ [n]) xs)"
  by (auto simp: hex_spec_code hex_body_code hex_digits_code Let_def map_filter_simps split: option.splits)

lemma hex_spec_pair:
  "hex_spec idx (a # b # ds) input = and_then (hex_spec idx ds input) (\<lambda>out. Inr (or (push_bit 4 a) b # out))"
  by (auto simp: hex_spec_code Let_def)

lemma hex_ref_spec:
  "and_then (hex_ref idx high False input)
     (\<lambda>(t, out). if t then Inr out else Inl (for_code MissingEndMarker (Some idx))) =
   hex_spec idx (case high of None \<Rightarrow> [] | Some hi \<Rightarrow> [hi]) input"
proof (induction input arbitrary: high)
  case Nil
  then show ?case by (simp add: hex_spec_code hex_body_code)
next
  case (Cons x xs)
  consider "is_pdf_whitespace x" | "\<not> is_pdf_whitespace x" "x = 62"
    | "\<not> is_pdf_whitespace x" "x \<noteq> 62" by blast
  then show ?case
  proof cases
    case 1
    then show ?thesis using Cons.IH by (simp add: hex_spec_space)
  next
    case 2
    then show ?thesis
      by (auto simp: hex_ref_terminated hex_spec_code hex_body_code hex_digits_code map_filter_simps
          split: option.splits)
  next
    case 3
    have pull: "and_then (and_then r (\<lambda>(t, out). Inr (t, y # out)))
        (\<lambda>(t, out). if t then Inr out else Inl e) =
      and_then (and_then r (\<lambda>(t, out). if t then Inr out else Inl e)) (\<lambda>out. Inr (y # out))"
      for r :: "decode_error + (bool \<times> u8 list)" and y e
      by (cases r) auto
    show ?thesis
      using 3 Cons.IH [of None] Cons.IH [of "Some _"]
      by (auto simp: hex_spec_digit hex_spec_pair pull split: option.splits)
  qed
qed

lemma hex_reference_spec: "hex_reference idx input = hex_spec idx [] input"
  using hex_ref_spec [of idx None input] by (simp add: hex_reference_def)

section \<open>Round trips\<close>

definition hex_char :: "u8 \<Rightarrow> u8" where
  "hex_char n = (if n < 10 then n + 48 else n + 55)"

definition hex_encode :: "u8 list \<Rightarrow> u8 list" where
  "hex_encode xs = concat (map (\<lambda>x. [hex_char (drop_bit 4 x), hex_char (and x 15)]) xs) @ [62]"

lemma byte_cases: "x < of_nat n \<Longrightarrow> n < 256 \<Longrightarrow> (x :: u8) \<in> word_of_nat ` {..<n}"
proof -
  assume "x < of_nat n" "n < 256"
  then have "unat x < n" by (simp add: word_less_nat_alt unat_of_nat)
  moreover have "word_of_nat (unat x) = x" by simp
  ultimately show ?thesis by (metis image_eqI lessThan_iff)
qed

lemma hex_char_nibble:
  assumes "x < 16"
  shows "hex_nibble (hex_char x) = Some x \<and> \<not> is_pdf_whitespace (hex_char x) \<and> hex_char x \<noteq> 62"
proof -
  have all: "list_all (\<lambda>x. hex_nibble (hex_char x) = Some x \<and> \<not> is_pdf_whitespace (hex_char x) \<and>
      hex_char x \<noteq> 62) (map word_of_nat [0..<16])"
    by code_simp
  have "x \<in> word_of_nat ` {..<16}" using byte_cases [of x 16] assms by simp
  then have "x \<in> set (map word_of_nat [0..<16])" by (auto simp del: upt_Suc)
  then show ?thesis using all unfolding list_all_iff by blast
qed

lemma nibbles: "drop_bit 4 (x :: u8) < 16" "and x 15 < 16" "or (push_bit 4 (drop_bit 4 x)) (and x 15) = x"
proof -
  have "unat (drop_bit 4 x) < 16"
  proof -
    have "unat x < 256" using unsigned_less [of x, where ?'a = nat] by simp
    then show ?thesis by (simp add: drop_bit_eq_div unat_div_distrib less_mult_imp_div_less)
  qed
  then show "drop_bit 4 x < 16" by (simp add: word_less_nat_alt)
  have m: "and x 15 = take_bit 4 x" by (simp add: take_bit_eq_mask mask_eq_exp_minus_1)
  have "unat (take_bit 4 x) < 16"
    by (simp add: take_bit_eq_mod unat_mod_distrib)
  then show "and x 15 < 16" by (simp add: m word_less_nat_alt)
  show "or (push_bit 4 (drop_bit 4 x)) (and x 15) = x"
    unfolding m by (rule bit_word_eqI) (auto simp: bit_simps)
qed

lemma hex_spec_char:
  "x < 16 \<Longrightarrow> hex_spec idx ds (hex_char x # rest) = hex_spec idx (ds @ [x]) rest"
  using hex_char_nibble [of x] by (simp add: hex_spec_digit)

lemma hex_round_trip: "hex_spec idx [] (hex_encode xs) = Inr xs"
proof (induction xs)
  case Nil
  then show ?case by (simp add: hex_encode_def hex_spec_def hex_body_def hex_digits_def map_filter_simps)
next
  case (Cons x xs)
  have "hex_encode (x # xs) = hex_char (drop_bit 4 x) # hex_char (and x 15) # hex_encode xs"
    by (simp add: hex_encode_def)
  then show ?case
    using Cons by (simp add: hex_spec_char nibbles hex_spec_pair [of idx _ _ "[]", simplified])
qed

text \<open>ASCII85 on numbers: the digits of a 32-bit value and the value of five digits.\<close>

definition digits85 :: "nat \<Rightarrow> nat list" where
  "digits85 v = [v div 85 ^ 4, v div 85 ^ 3 mod 85, v div 85 ^ 2 mod 85, v div 85 mod 85, v mod 85]"

definition value85 :: "nat list \<Rightarrow> nat" where
  "value85 ds = fold (\<lambda>d acc. acc * 85 + d) ds 0"

lemma digits85_bound: "v < 2 ^ 32 \<Longrightarrow> d \<in> set (digits85 v) \<Longrightarrow> d < 85"
  by (auto simp: digits85_def less_mult_imp_div_less)

lemma value85_digits85: "value85 (digits85 v) = v"
proof -
  have "v div 85 ^ 4 = v div 85 div 85 div 85 div 85" "v div 85 ^ 3 = v div 85 div 85 div 85"
    "v div 85 ^ 2 = v div 85 div 85"
    by (simp_all add: div_mult2_eq [symmetric])
  then show ?thesis by (simp add: value85_def digits85_def)
qed

lemma unat_small: "d < 2 ^ 32 \<Longrightarrow> unat (word_of_nat d :: u32) = d"
  by (simp add: unat_of_nat)

lemma group_value:
  assumes "length ds = 5" "\<And>d. d \<in> set ds \<Longrightarrow> d < 85"
  shows "ascii85_group_value (map word_of_nat ds) =
    (if value85 ds < 2 ^ 32 then Some (word_of_nat (value85 ds)) else None)"
proof -
  obtain a b c d e where ds: "ds = [a, b, c, d, e]"
    using assms(1) by (auto simp: length_Suc_conv eval_nat_numeral)
  have small: "a < 85" "b < 85" "c < 85" "d < 85" "e < 85" using assms(2) ds by auto
  then have "unat (word_of_nat a :: u32) = a" "unat (word_of_nat b :: u32) = b"
    "unat (word_of_nat c :: u32) = c" "unat (word_of_nat d :: u32) = d"
    "unat (word_of_nat e :: u32) = e"
    by (simp_all add: unat_small)
  then show ?thesis
    using small
    by (simp add: ds ascii85_group_value_def checked_mul_def checked_add_def u64_max_def value85_def
        u32_try_from_u64_def)
qed

lemma to_be_bytes_nat:
  assumes "v < 2 ^ 32"
  shows "to_be_bytes (word_of_nat v) =
    map (\<lambda>k. word_of_nat (v div 2 ^ k)) [24, 16, 8, 0]"
proof -
  have "(ucast (drop_bit k (word_of_nat v :: u32)) :: u8) = word_of_nat (v div 2 ^ k)" for k
  proof (rule bit_word_eqI)
    fix n
    assume "n < LENGTH(8)"
    have "\<not> bit v (k + n)" if "32 \<le> k + n"
      using that assms by (metis bit_take_bit_iff linorder_not_less take_bit_nat_eq_self_iff)
    then show "bit (ucast (drop_bit k (word_of_nat v :: u32)) :: u8) n = bit (word_of_nat (v div 2 ^ k) :: u8) n"
      using \<open>n < LENGTH(8)\<close>
      by (auto simp: bit_simps drop_bit_eq_div [symmetric] simp flip: not_less)
  qed
  from this [of 24] this [of 16] this [of 8] this [of 0] show ?thesis
    by (simp add: to_be_bytes_def)
qed

definition be_value :: "u8 \<Rightarrow> u8 \<Rightarrow> u8 \<Rightarrow> u8 \<Rightarrow> nat" where
  "be_value a b c d = unat a * 2 ^ 24 + unat b * 2 ^ 16 + unat c * 2 ^ 8 + unat d"

lemma unat_byte: "unat (x :: u8) < 256"
  using unsigned_less [of x, where ?'a = nat] by simp

lemma be_value_bound: "be_value a b c d < 2 ^ 32"
  using unat_byte [of a] unat_byte [of b] unat_byte [of c] unat_byte [of d] by (simp add: be_value_def)

lemma byte_of_mod: "n mod 256 = unat x \<Longrightarrow> (word_of_nat n :: u8) = x"
  by (simp add: word_unat_eq_iff unat_of_nat)

lemma be_value_bytes:
  "map (\<lambda>k. word_of_nat (be_value a b c d div 2 ^ k)) [24, 16, 8, 0] = [a, b, c, d]"
proof -
  note small = unat_byte [of a] unat_byte [of b] unat_byte [of c] unat_byte [of d]
  let ?v = "be_value a b c d"
  have v: "?v = ((unat a * 256 + unat b) * 256 + unat c) * 256 + unat d"
    by (simp add: be_value_def)
  have 8: "?v div 256 = (unat a * 256 + unat b) * 256 + unat c" using small v by simp
  have 16: "?v div 256 div 256 = unat a * 256 + unat b" unfolding 8 using small by simp
  have 24: "?v div 256 div 256 div 256 = unat a" unfolding 16 using small by simp
  have p: "?v div 2 ^ 24 = ?v div 256 div 256 div 256" "?v div 2 ^ 16 = ?v div 256 div 256"
    by (simp_all add: div_mult2_eq [symmetric])
  have low: "y < 256 \<Longrightarrow> (x * 256 + y) mod 256 = y" for x y :: nat
    by simp
  have "?v div 2 ^ 24 mod 256 = unat a" using small p(1) 24 by simp
  moreover have "?v div 2 ^ 16 mod 256 = unat b" unfolding p(2) 16 by (rule low [OF small(2)])
  moreover have "?v div 2 ^ 8 mod 256 = unat c"
  proof -
    have "?v div 2 ^ 8 = ?v div 256" by simp
    then show ?thesis unfolding 8 using low [OF small(3)] by metis
  qed
  moreover have "?v mod 256 = unat d" unfolding v by (rule low [OF small(4)])
  ultimately show ?thesis using byte_of_mod by simp
qed

text \<open>A truncated group: the missing digits read as 84 change only the bytes that are not emitted.\<close>

lemma padded_value:
  assumes v: "v < 2 ^ 32" and n: "n \<in> {1, 2, 3}" and mult: "2 ^ (8 * (4 - n)) dvd v"
  defines "w \<equiv> value85 (take (n + 1) (digits85 v) @ replicate (4 - n) 84)"
  shows "w < 2 ^ 32" "w div 2 ^ (8 * (4 - n)) = v div 2 ^ (8 * (4 - n))"
proof -
  obtain a b c d e where ds: "digits85 v = [a, b, c, d, e]" by (simp add: digits85_def)
  then have small: "a < 85" "b < 85" "c < 85" "d < 85" "e < 85"
    using digits85_bound [OF v] by auto
  have v': "v = (((a * 85 + b) * 85 + c) * 85 + d) * 85 + e"
    using value85_digits85 [of v] by (simp add: ds value85_def)
  have w_eq: "w = value85 (take (n + 1) [a, b, c, d, e] @ replicate (4 - n) 84)"
    by (simp only: w_def ds)
  have "n = 1 \<Longrightarrow> w = (((a * 85 + b) * 85 + 84) * 85 + 84) * 85 + 84"
    "n = 2 \<Longrightarrow> w = (((a * 85 + b) * 85 + c) * 85 + 84) * 85 + 84"
    "n = 3 \<Longrightarrow> w = (((a * 85 + b) * 85 + c) * 85 + d) * 85 + 84"
    by (simp_all add: w_eq value85_def numeral_2_eq_2 numeral_3_eq_3)
  then have w: "v \<le> w" "w < v + 2 ^ (8 * (4 - n))"
    using n small v' by auto
  obtain m where m: "v = 2 ^ (8 * (4 - n)) * m" using mult by blast
  show "w < 2 ^ 32"
  proof -
    consider "n = 1" | "n = 2" | "n = 3" using n by blast
    then show ?thesis using w(2) v m by cases (simp; presburger)+
  qed
  show "w div 2 ^ (8 * (4 - n)) = v div 2 ^ (8 * (4 - n))"
    using w m by (metis add.commute div_nat_eqI div_mult_self_is_m mult.commute mult_Suc_right nat_zero_less_power_iff
        plus_1_eq_Suc zero_less_numeral)
qed

lemma padded_bytes:
  assumes v: "v < 2 ^ 32" and n: "n \<in> {1, 2, 3}" and mult: "2 ^ (8 * (4 - n)) dvd v"
  shows "ascii85_group_value (map word_of_nat (take (n + 1) (digits85 v)) @ replicate (4 - n) 84) =
      Some (word_of_nat (value85 (take (n + 1) (digits85 v) @ replicate (4 - n) 84)))"
    "take n (to_be_bytes (word_of_nat (value85 (take (n + 1) (digits85 v) @ replicate (4 - n) 84)))) =
     take n (map (\<lambda>k. word_of_nat (v div 2 ^ k)) [24, 16, 8, 0])"
proof -
  let ?ds = "take (n + 1) (digits85 v) @ replicate (4 - n) 84"
  note pad = padded_value [OF assms]
  have "map word_of_nat (take (n + 1) (digits85 v)) @ replicate (4 - n) (84 :: u32) = map word_of_nat ?ds"
    by simp
  moreover have "length ?ds = 5" using n by (auto simp: digits85_def)
  moreover have "d < 85" if "d \<in> set ?ds" for d
    using that digits85_bound [OF v] by (auto dest: in_set_takeD)
  ultimately show "ascii85_group_value (map word_of_nat (take (n + 1) (digits85 v)) @ replicate (4 - n) 84) =
      Some (word_of_nat (value85 ?ds))"
    using group_value [of ?ds] pad(1) by metis
  have "value85 ?ds div 2 ^ (8 * (4 - n) + j) = v div 2 ^ (8 * (4 - n) + j)" for j
    unfolding power_add div_mult2_eq pad(2) by simp
  note same = this [of 0] this [of 8] this [of 16]
  show "take n (to_be_bytes (word_of_nat (value85 ?ds))) =
      take n (map (\<lambda>k. word_of_nat (v div 2 ^ k)) [24, 16, 8, 0])"
    unfolding to_be_bytes_nat [OF pad(1)]
    using n same by (elim insertE emptyE) simp_all
qed

definition char85 :: "nat \<Rightarrow> u8" where
  "char85 d = word_of_nat (d + 33)"

fun ascii85_encode :: "u8 list \<Rightarrow> u8 list" where
  "ascii85_encode (a # b # c # d # rest) =
     map char85 (digits85 (be_value a b c d)) @ ascii85_encode rest"
| "ascii85_encode [] = [126, 62]"
| "ascii85_encode [a] = map char85 (take 2 (digits85 (be_value a 0 0 0))) @ [126, 62]"
| "ascii85_encode [a, b] = map char85 (take 3 (digits85 (be_value a b 0 0))) @ [126, 62]"
| "ascii85_encode [a, b, c] = map char85 (take 4 (digits85 (be_value a b c 0))) @ [126, 62]"

lemma char85_class:
  assumes "d < 85"
  shows "\<not> is_pdf_whitespace (char85 d)" "char85 d \<noteq> 126" "char85 d \<noteq> 122"
    "33 \<le> char85 d" "char85 d \<le> 117" "(ucast (char85 d - 33) :: u32) = word_of_nat d"
proof -
  have u: "unat (char85 d) = d + 33" using assms by (simp only: char85_def unat_of_nat) simp
  show "\<not> is_pdf_whitespace (char85 d)" "char85 d \<noteq> 126" "char85 d \<noteq> 122"
    "33 \<le> char85 d" "char85 d \<le> 117"
    using assms u by (auto simp: is_pdf_whitespace_def word_unat_eq_iff word_le_nat_alt)
  have "char85 d - 33 = word_of_nat d" by (simp add: char85_def)
  then show "(ucast (char85 d - 33) :: u32) = word_of_nat d"
    using assms by (simp add: word_unat_eq_iff unat_of_nat unsigned_ucast_eq take_bit_eq_mod)
qed

lemma ref_digits:
  assumes "\<And>d. d \<in> set ds \<Longrightarrow> d < 85" "length old + length ds \<le> 4"
  shows "ascii85_ref idx old False False (map char85 ds @ rest) =
    ascii85_ref idx (old @ map word_of_nat ds) False False rest"
  using assms
proof (induction ds arbitrary: old)
  case (Cons d ds)
  have "d < 85" using Cons.prems(1) by simp
  note c = char85_class [OF this]
  show ?case
    using Cons.IH [of "old @ [word_of_nat d]"] Cons.prems c by (auto simp: Let_def)
qed simp

lemma ref_group:
  assumes "v < 2 ^ 32"
  shows "ascii85_ref idx [] False False (map char85 (digits85 v) @ rest) =
    and_then (ascii85_ref idx [] False False rest) (\<lambda>(t, out). Inr (t, to_be_bytes (word_of_nat v) @ out))"
proof -
  obtain ds e where ds: "digits85 v = ds @ [e]" "length ds = 4" by (simp add: digits85_def)
  have small: "\<And>d. d \<in> set ds \<Longrightarrow> d < 85" "e < 85" using digits85_bound [OF assms] ds by auto
  note c = char85_class [OF small(2)]
  have g: "ascii85_group_value (map word_of_nat ds @ [word_of_nat e]) = Some (word_of_nat v)"
    using group_value [of "ds @ [e]"] small ds assms value85_digits85 [of v] by fastforce
  show ?thesis
    using ref_digits [OF small(1), where old = "[]" and rest = "char85 e # rest"] ds(2) c g
    by (simp add: ds(1) Let_def)
qed

lemma ref_tail:
  assumes v: "v < 2 ^ 32" and n: "n \<in> {1, 2, 3}" and mult: "2 ^ (8 * (4 - n)) dvd v"
  shows "ascii85_ref idx [] False False (map char85 (take (n + 1) (digits85 v)) @ [126, 62]) =
    Inr (True, take n (map (\<lambda>k. word_of_nat (v div 2 ^ k)) [24, 16, 8, 0]))"
proof -
  let ?ds = "take (n + 1) (digits85 v)"
  have small: "\<And>d. d \<in> set ?ds \<Longrightarrow> d < 85" using digits85_bound [OF v] by (auto dest: in_set_takeD)
  have len: "length ?ds = n + 1" using n by (auto simp: digits85_def)
  have "126 \<noteq> (62 :: u8)" "\<not> is_pdf_whitespace 126" by (simp_all add: is_pdf_whitespace_def)
  then have "ascii85_ref idx [] False False (map char85 ?ds @ [126, 62]) =
      and_then (ascii85_tail idx (map word_of_nat ?ds)) (\<lambda>xs. Inr (True, xs))"
    using ref_digits [OF small, where old = "[]" and rest = "[126, 62]"] len n by auto
  also have "ascii85_tail idx (map word_of_nat ?ds) =
      Inr (take n (to_be_bytes (word_of_nat (value85 (?ds @ replicate (4 - n) 84)))))"
    using padded_bytes(1) [OF assms] len n by (auto simp: ascii85_tail_def)
  finally show ?thesis using padded_bytes(2) [OF assms] by simp
qed

lemma be_value_dvd:
  "2 ^ (8 * (4 - 1)) dvd be_value a 0 0 0" "2 ^ (8 * (4 - 2)) dvd be_value a b 0 0"
  "2 ^ (8 * (4 - 3)) dvd be_value a b c 0"
  by (simp_all add: be_value_def)

lemma ascii85_round_trip: "ascii85_ref idx [] False False (ascii85_encode xs) = Inr (True, xs)"
proof (induction xs rule: ascii85_encode.induct)
  case (1 a b c d rest)
  then show ?case
    using ref_group [OF be_value_bound, of idx a b c d] be_value_bytes [of a b c d]
    by (simp add: to_be_bytes_nat [OF be_value_bound])
next
  case 2
  then show ?case by (simp add: is_pdf_whitespace_def ascii85_tail_def)
next
  case (3 a)
  then show ?case
    using ref_tail [OF be_value_bound, of 1 a 0 0 0 idx] be_value_dvd(1) be_value_bytes [of a 0 0 0]
    by (simp add: numeral_2_eq_2)
next
  case (4 a b)
  then show ?case
    using ref_tail [OF be_value_bound, of 2 a b 0 0 idx] be_value_dvd(2) be_value_bytes [of a b 0 0] by simp
next
  case (5 a b c)
  then show ?case
    using ref_tail [OF be_value_bound, of 3 a b c 0 idx] be_value_dvd(3) be_value_bytes [of a b c 0] by simp
qed

end
