(* ===== verification/Filt_RunLength.thy ===== *)
theory Filt_RunLength
  imports Filt_Ascii
begin

text \<open>
  The RunLength decoder of \<open>pdf-rs/filters/src/decode.rs\<close>: its cursor loop, a reference on the
  remaining bytes, and the packet grammar it accepts.
\<close>

section \<open>Decoder\<close>

text \<open>The literal arm copies \<open>count\<close> bytes with the same consume-and-push loop as the identity
  layer; the run arm pushes one byte \<open>257 - control\<close> times.\<close>

function run_length_loop :: "host \<Rightarrow> nat \<Rightarrow> u8 list \<Rightarrow> nat \<Rightarrow> output_buffer \<Rightarrow> unit decoding" where
  "run_length_loop h idx input cursor ob =
     (if cursor < length input then
        and_then (consume_input h ob) (\<lambda>(_, ob).
          let control = input ! cursor; cursor = cursor + 1 in
          if control = 128 then
            if cursor \<noteq> length input then Inl (for_code TrailingData (Some idx))
            else Inr ((), ob)
          else if control < 128 then
            let count = unat control + 1 in
            (case checked_add cursor count of
               None \<Rightarrow> Inl (for_code InvalidRunLength (Some idx))
             | Some end' \<Rightarrow>
                 if end' > length input then Inl (for_code InvalidRunLength (Some idx))
                 else and_then (identity_loop h (take count (drop cursor input)) ob)
                        (\<lambda>(_, ob). run_length_loop h idx input (cursor + count) ob))
          else
            if cursor = length input then Inl (for_code InvalidRunLength (Some idx))
            else and_then (consume_input h ob) (\<lambda>(_, ob).
              let byte = input ! cursor; cursor = cursor + 1;
                  count = 257 - unat control
              in and_then (push_all h (replicate count byte) ob)
                   (\<lambda>(_, ob). run_length_loop h idx input cursor ob)))
      else Inl (for_code MissingEndMarker (Some idx)))"
  by auto
termination
  by (relation "measure (\<lambda>(h, idx, input, cursor, ob). length input - cursor)") auto

declare run_length_loop.simps [simp del]

definition decode_run_length ::
  "host \<Rightarrow> u8 list \<Rightarrow> nat \<Rightarrow> bool \<Rightarrow> nat \<Rightarrow> decode_budget \<Rightarrow> decode_error + (vec \<times> decode_budget)" where
  "decode_run_length h input incap final idx b =
     (let hint = saturating_mul (length input) 128 in
      and_then (run_length_loop h idx input 0 (output_buffer_new incap final (Some idx) hint b))
        (\<lambda>(_, ob). Inr (finish ob)))"

section \<open>Reference\<close>

function run_length_reference :: "nat \<Rightarrow> u8 list \<Rightarrow> decode_error + u8 list" where
  "run_length_reference idx [] = Inl (for_code MissingEndMarker (Some idx))"
| "run_length_reference idx (control # rest) =
     (if control = 128 then
        if rest \<noteq> [] then Inl (for_code TrailingData (Some idx)) else Inr []
      else if control < 128 then
        let count = unat control + 1 in
        if count > length rest then Inl (for_code InvalidRunLength (Some idx))
        else and_then (run_length_reference idx (drop count rest)) (\<lambda>out. Inr (take count rest @ out))
      else case rest of
             [] \<Rightarrow> Inl (for_code InvalidRunLength (Some idx))
           | byte # rest' \<Rightarrow>
               and_then (run_length_reference idx rest')
                 (\<lambda>out. Inr (replicate (257 - unat control) byte @ out)))"
  by pat_completeness auto
termination
  by (relation "measure (\<lambda>(idx, input). length input)") auto

lemma run_length_loop_sim:
  assumes "host_ok h" "buf_ok ob" "cursor \<le> length input" "length input \<le> u64_max"
  shows "simulates h (129 * (length input - cursor)) (128 * (length input - cursor)) ob
      (run_length_loop h idx input cursor ob)
    (and_then (run_length_reference idx (drop cursor input)) (\<lambda>out. Inr ((), ob_bytes ob @ out)))"
  using assms(2,3)
proof (induction "length input - cursor" arbitrary: cursor ob rule: less_induct)
  case less
  show ?case
  proof (cases "cursor < length input")
    case False
    then show ?thesis by (simp add: run_length_loop.simps)
  next
    case True
    let ?k = "length input - Suc cursor" and ?rest = "drop (Suc cursor) input"
    define control where "control = input ! cursor"
    have d: "drop cursor input = control # ?rest"
      using True by (simp add: Cons_nth_drop_Suc control_def)
    have len: "length input - cursor = Suc ?k" "length ?rest = ?k" using True by auto
    have "simulates h (1 + (128 + 129 * ?k)) (128 + 128 * ?k) ob (run_length_loop h idx input cursor ob)
      (and_then (run_length_reference idx (drop cursor input)) (\<lambda>out. Inr ((), ob_bytes ob @ out)))"
      unfolding run_length_loop.simps [of h idx input cursor ob] if_P [OF True] d
        control_def [symmetric] Let_def
    proof (rule sim_consume [OF less.prems(1)], goal_cases)
      case (1 ob1)
      consider "control = 128" | "control < 128" "length ?rest < unat control + 1"
        | "control < 128" "unat control + 1 \<le> length ?rest"
        | "128 < control" "?rest = []" | byte rest' where "128 < control" "?rest = byte # rest'"
        by (metis list.exhaust linorder_cases linorder_not_le)
      then show ?case
      proof cases
        case 1
        then show ?thesis using \<open>buf_ok ob1\<close> \<open>ob_bytes ob1 = ob_bytes ob\<close> [symmetric] len(2) True by auto
      next
        case 2
        then show ?thesis using len(2) by (auto simp: checked_add_def)
      next
        case 3
        let ?n = "unat control + 1" and ?c = "cursor + 1 + (unat control + 1)"
        have fits: "?c \<le> length input" using 3(2) True by simp
        have rest: "simulates h (129 * (?k - ?n)) (128 * (?k - ?n)) ob2 (run_length_loop h idx input ?c ob2)
            (and_then (run_length_reference idx (drop ?n ?rest))
              (\<lambda>out. Inr ((), ob_bytes ob @ take ?n ?rest @ out)))"
          if "buf_ok ob2" "ob_bytes ob2 = ob_bytes ob1 @ take ?n ?rest" for ob2
          using less.hyps [of ?c ob2, OF _ that(1) fits] True that(2) \<open>ob_bytes ob1 = ob_bytes ob\<close>
          by (simp add: add.commute)
        have "simulates h (2 * length (take ?n ?rest) + 129 * (?k - ?n))
            (length (take ?n ?rest) + 128 * (?k - ?n)) ob1
            (and_then (identity_loop h (take ?n ?rest) ob1) (\<lambda>(_, ob). run_length_loop h idx input ?c ob))
            (and_then (run_length_reference idx (drop ?n ?rest))
              (\<lambda>out. Inr ((), ob_bytes ob @ take ?n ?rest @ out)))"
          by (rule sim_then [OF identity_loop_sim [OF assms(1) \<open>buf_ok ob1\<close>]]) (rule rest)
        then have "simulates h (128 + 129 * ?k) (128 + 128 * ?k) ob1
            (and_then (identity_loop h (take ?n ?rest) ob1) (\<lambda>(_, ob). run_length_loop h idx input ?c ob))
            (and_then (run_length_reference idx (drop ?n ?rest))
              (\<lambda>out. Inr ((), ob_bytes ob @ take ?n ?rest @ out)))"
          by (rule simulates_mono) (use 3(2) len(2) in auto)
        moreover have "control \<noteq> 128" using 3(1) by auto
        ultimately show ?thesis
          using 3 fits len(2) assms(4) by (simp add: checked_add_def and_then_assoc Let_def)
      next
        case 4
        then show ?thesis using True by auto
      next
        case 5
        then have more: "Suc cursor < length input" "byte = input ! Suc cursor"
            "rest' = drop (Suc (Suc cursor)) input"
          by (metis Cons_nth_drop_Suc drop_eq_Nil list.discI list.inject not_le)+
        let ?m = "257 - unat control"
        have m: "?m \<le> 128" using 5(1) by (simp add: word_less_nat_alt)
        have rest: "simulates h (129 * (?k - 1)) (128 * (?k - 1)) ob2
            (run_length_loop h idx input (cursor + 1 + 1) ob2)
            (and_then (run_length_reference idx rest')
              (\<lambda>out. Inr ((), ob_bytes ob @ replicate ?m byte @ out)))"
          if "buf_ok ob2" "ob_bytes ob2 = ob_bytes ob1 @ replicate ?m byte" for ob2
          using less.hyps [of "cursor + 1 + 1" ob2, OF _ that(1)] more that(2) \<open>ob_bytes ob1 = ob_bytes ob\<close>
          by simp
        have "simulates h (1 + (length (replicate ?m byte) + 129 * (?k - 1)))
            (length (replicate ?m byte) + 128 * (?k - 1)) ob1
            (and_then (consume_input h ob1) (\<lambda>(_, ob).
              and_then (push_all h (replicate ?m byte) ob)
                (\<lambda>(_, ob). run_length_loop h idx input (cursor + 1 + 1) ob)))
            (and_then (run_length_reference idx rest')
              (\<lambda>out. Inr ((), ob_bytes ob @ replicate ?m byte @ out)))"
        proof (rule sim_consume [OF \<open>buf_ok ob1\<close>], goal_cases)
          case (1 ob2)
          show ?case
            by (rule sim_push_all [OF 1(1) assms(1)], rule rest) (use 1(2) in simp_all)
        qed
        then have "simulates h (128 + 129 * ?k) (128 + 128 * ?k) ob1
            (and_then (consume_input h ob1) (\<lambda>(_, ob).
              and_then (push_all h (replicate ?m byte) ob)
                (\<lambda>(_, ob). run_length_loop h idx input (cursor + 1 + 1) ob)))
            (and_then (run_length_reference idx rest')
              (\<lambda>out. Inr ((), ob_bytes ob @ replicate ?m byte @ out)))"
          by (rule simulates_mono) (use m more(1) in auto)
        moreover have "control \<noteq> 128" "\<not> control < 128" using 5(1) by auto
        ultimately show ?thesis
          using 5(2) more by (simp add: and_then_assoc)
      qed
    qed
    then show ?thesis using len by simp
  qed
qed

interpretation run_length: filter_layer decode_run_length run_length_reference
proof unfold_locales
  fix h b incap and input :: "u8 list" and final idx
  assume ok: "host_ok h" "budget_ok b" "incap \<le> max_retained_capacity_bytes (b_limits b)"
    "length input \<le> u64_max"
  let ?ob = "output_buffer_new incap final (Some idx) (saturating_mul (length input) 128) b"
  have "ob_bytes ?ob = []" by (simp add: output_buffer_new_def)
  then have sim: "simulates h (129 * length input) (128 * length input) ?ob
      (run_length_loop h idx input 0 ?ob)
      (and_then (run_length_reference idx input) (\<lambda>out. Inr ((), out)))"
    using run_length_loop_sim [OF ok(1) buf_ok_new [OF ok(2,3)], of 0 input final "Some idx"] ok(4)
    by (simp add: output_buffer_new_def)
  note layer = layer_of_sim [OF sim]
  show "layer_done incap final b v b' \<and> run_length_reference idx input = Inr (vec_bytes v)"
    if "decode_run_length h input incap final idx b = Inr (v, b')" for v b'
    using that layer(1) by (simp add: decode_run_length_def)
  show "is_host_error e \<or> run_length_reference idx input = Inl e"
    if "decode_run_length h input incap final idx b = Inl e" for e
    using that layer(2) by (simp add: decode_run_length_def)
qed

section \<open>The packet grammar\<close>

datatype packet = Literal "u8 list" | Run nat u8

fun packet_ok :: "packet \<Rightarrow> bool" where
  "packet_ok (Literal xs) = (xs \<noteq> [] \<and> length xs \<le> 128)"
| "packet_ok (Run n b) = (2 \<le> n \<and> n \<le> 128)"

fun packet_bytes :: "packet \<Rightarrow> u8 list" where
  "packet_bytes (Literal xs) = word_of_nat (length xs - 1) # xs"
| "packet_bytes (Run n b) = [word_of_nat (257 - n), b]"

fun packet_output :: "packet \<Rightarrow> u8 list" where
  "packet_output (Literal xs) = xs"
| "packet_output (Run n b) = replicate n b"

lemma run_length_packet:
  assumes "packet_ok p"
  shows "run_length_reference idx (packet_bytes p @ rest) =
    and_then (run_length_reference idx rest) (\<lambda>out. Inr (packet_output p @ out))"
proof (cases p)
  case (Literal xs)
  then have "length xs - 1 < 256" using assms by auto
  then have u: "unat (word_of_nat (length xs - 1) :: u8) = length xs - 1"
    by (simp add: unat_of_nat)
  then have "(word_of_nat (length xs - 1) :: u8) < 128"
    using assms Literal by (simp add: word_less_nat_alt) arith
  moreover from this have "(word_of_nat (length xs - 1) :: u8) \<noteq> 128" by auto
  ultimately show ?thesis using assms Literal u by simp
next
  case (Run n b)
  then have "257 - n < 256" using assms by auto
  then have u: "unat (word_of_nat (257 - n) :: u8) = 257 - n"
    by (simp add: unat_of_nat del: of_nat_diff)
  then have "\<not> (word_of_nat (257 - n) :: u8) < 128" "(word_of_nat (257 - n) :: u8) \<noteq> 128"
    using assms Run by (auto simp: word_less_nat_alt word_unat_eq_iff simp del: of_nat_diff)
  then show ?thesis using assms Run u by (simp del: of_nat_diff)
qed

lemma run_length_packets:
  "\<forall>p \<in> set ps. packet_ok p \<Longrightarrow>
     run_length_reference idx (concat (map packet_bytes ps) @ [128]) = Inr (concat (map packet_output ps))"
  by (induction ps) (auto simp: run_length_packet)

lemma run_length_accepted:
  "run_length_reference idx input = Inr out \<Longrightarrow>
     \<exists>ps. (\<forall>p \<in> set ps. packet_ok p) \<and> input = concat (map packet_bytes ps) @ [128] \<and>
       out = concat (map packet_output ps)"
proof (induction idx input arbitrary: out rule: run_length_reference.induct)
  case (2 idx control rest)
  consider "control = 128" | "control < 128" | "128 < control" by fastforce
  then show ?case
  proof cases
    case 1
    then show ?thesis using 2(3) by (intro exI [of _ "[]"]) (auto split: if_splits)
  next
    case lit: 2
    let ?n = "unat control + 1"
    have n: "?n \<le> 128" "control \<noteq> 128" using lit by (auto simp: word_less_nat_alt)
    obtain out' where ref: "?n \<le> length rest" "run_length_reference idx (drop ?n rest) = Inr out'"
        "out = take ?n rest @ out'"
      using 2(3) lit n by (auto simp: Let_def and_then_Inr_iff split: if_splits)
    from 2(1) [OF n(2) lit refl _ ref(2)] ref(1) obtain ps where
      ps: "\<forall>p \<in> set ps. packet_ok p" "drop ?n rest = concat (map packet_bytes ps) @ [128]"
        "out' = concat (map packet_output ps)" by auto
    have "rest = take ?n rest @ concat (map packet_bytes ps) @ [128]"
      using ps(2) append_take_drop_id [of ?n rest] by metis
    moreover have "packet_bytes (Literal (take ?n rest)) = control # take ?n rest"
      using ref(1) by simp
    ultimately show ?thesis
      using ps ref n(1) by (intro exI [of _ "Literal (take ?n rest) # ps"]) (auto simp: min_def)
  next
    case run: 3
    have c: "control \<noteq> 128" "\<not> control < 128" using run by auto
    obtain byte rest' out' where ref: "rest = byte # rest'" "run_length_reference idx rest' = Inr out'"
        "out = replicate (257 - unat control) byte @ out'"
      using 2(3) c by (auto simp: and_then_Inr_iff split: list.splits)
    from 2(2) [OF c ref(1,2)] obtain ps where
      ps: "\<forall>p \<in> set ps. packet_ok p" "rest' = concat (map packet_bytes ps) @ [128]"
        "out' = concat (map packet_output ps)" by auto
    have u: "128 < unat control" "unat control < 256"
      using run unat_byte [of control] by (simp_all add: word_less_nat_alt)
    have "word_of_nat (257 - (257 - unat control)) = control" using u by simp
    then show ?thesis
      using ps ref u by (intro exI [of _ "Run (257 - unat control) byte # ps"]) auto
  qed
qed simp

end
