(* ===== verification/Filt_Predictor.thy ===== *)
theory Filt_Predictor
  imports Filt_RunLength
begin

text \<open>
  PNG and TIFF predictors (\<open>pdf-rs/filters/src/predictor.rs\<close>): the row geometry, the PNG row
  filters reconstructed byte by byte from the emitted output, and the TIFF component differences
  reconstructed bit by bit in place.
\<close>

section \<open>Geometry\<close>

record predictor_geometry =
  g_colors :: nat
  samples_per_row :: nat
  row_bytes :: nat
  bytes_per_pixel :: nat

definition invalid_parameters :: "nat \<Rightarrow> decode_error" where
  "invalid_parameters idx = for_code InvalidDecodeParameters (Some idx)"

definition invalid_data :: "nat \<Rightarrow> decode_error" where
  "invalid_data idx = for_code InvalidPredictorData (Some idx)"

definition geometry_new :: "predictor_parameters \<Rightarrow> nat \<Rightarrow> decode_error + predictor_geometry" where
  "geometry_new p idx =
     (let colors = pp_colors p in
      and_then (ok_or (checked_mul (pp_colors p) (pp_columns p)) (invalid_parameters idx)) (\<lambda>samples.
      and_then (ok_or (checked_mul samples (pp_bits_per_component p)) (invalid_parameters idx)) (\<lambda>row_bits.
      and_then (ok_or (map_option (\<lambda>v. v div 8) (checked_add row_bits 7)) (invalid_parameters idx)) (\<lambda>row_bytes.
      and_then (ok_or (checked_mul (pp_colors p) (pp_bits_per_component p)) (invalid_parameters idx)) (\<lambda>pixel_bits.
      and_then (ok_or (map_option (\<lambda>v. v div 8) (checked_add pixel_bits 7)) (invalid_parameters idx)) (\<lambda>pixel_bytes.
        if row_bytes = 0 \<or> pixel_bytes = 0 then Inl (invalid_parameters idx)
        else Inr \<lparr>g_colors = colors, samples_per_row = samples, row_bytes = row_bytes,
                  bytes_per_pixel = pixel_bytes\<rparr>))))))"

definition geometry_of :: "predictor_parameters \<Rightarrow> predictor_geometry" where
  "geometry_of p =
     \<lparr>g_colors = pp_colors p, samples_per_row = pp_colors p * pp_columns p,
      row_bytes = (pp_colors p * pp_columns p * pp_bits_per_component p + 7) div 8,
      bytes_per_pixel = (pp_colors p * pp_bits_per_component p + 7) div 8\<rparr>"

lemma geometry_new_ok:
  assumes "predictor_ok p"
  shows "geometry_new p idx = Inr (geometry_of p)" "0 < row_bytes (geometry_of p)"
    "0 < bytes_per_pixel (geometry_of p)" "row_bytes (geometry_of p) < u64_max"
proof -
  let ?c = "pp_colors p" and ?n = "pp_columns p" and ?w = "pp_bits_per_component p"
  have pos: "0 < ?c" "0 < ?n" "0 < ?w" and fits: "?c * ?n * ?w + 7 \<le> u64_max"
    using assms by (auto simp: predictor_ok_def)
  have "?c * ?n \<le> ?c * ?n * ?w" using pos by simp
  moreover have "?c * ?w \<le> ?c * ?n * ?w" using pos by simp
  ultimately have small: "?c * ?n \<le> u64_max" "?c * ?w + 7 \<le> u64_max" using fits by linarith+
  have up: "0 < (x + 7) div 8" if "0 < x" for x :: nat using that by simp
  have "0 < ?c * ?n * ?w" "0 < ?c * ?w" using pos by simp_all
  from up [OF this(1)] up [OF this(2)]
  show "0 < row_bytes (geometry_of p)" "0 < bytes_per_pixel (geometry_of p)"
    unfolding geometry_of_def by simp_all
  then show "geometry_new p idx = Inr (geometry_of p)"
    using small fits by (simp add: geometry_new_def geometry_of_def checked_mul_def checked_add_def)
  show "row_bytes (geometry_of p) < u64_max"
    using fits by (simp add: geometry_of_def u64_max_def)
qed

section \<open>PNG\<close>

definition tag_is_allowed :: "u8 \<Rightarrow> bool" where
  "tag_is_allowed tag \<longleftrightarrow> tag \<le> 4"

definition paeth :: "u8 \<Rightarrow> u8 \<Rightarrow> u8 \<Rightarrow> u8" where
  "paeth left upper upper_left =
     (let l = uint left; a = uint upper; u = uint upper_left;
          estimate = l + a - u;
          left_distance = \<bar>estimate - l\<bar>;
          upper_distance = \<bar>estimate - a\<bar>;
          upper_left_distance = \<bar>estimate - u\<bar>
      in if left_distance \<le> upper_distance \<and> left_distance \<le> upper_left_distance then left
         else if upper_distance \<le> upper_left_distance then upper
         else upper_left)"

definition png_predict :: "nat \<Rightarrow> u8 \<Rightarrow> u8 \<Rightarrow> u8 \<Rightarrow> u8 \<Rightarrow> decode_error + u8" where
  "png_predict idx tag left upper upper_left =
     (if tag = 0 then Inr 0
      else if tag = 1 then Inr left
      else if tag = 2 then Inr upper
      else if tag = 3 then Inr (ucast (((ucast left :: u16) + ucast upper) div 2))
      else if tag = 4 then Inr (paeth left upper upper_left)
      else Inl (invalid_data idx))"

text \<open>One row: the encoded bytes of the row are given, the column counts the bytes done.\<close>

fun png_columns ::
  "host \<Rightarrow> nat \<Rightarrow> predictor_geometry \<Rightarrow> u8 \<Rightarrow> nat \<Rightarrow> nat \<Rightarrow> u8 list \<Rightarrow> output_buffer \<Rightarrow> unit decoding" where
  "png_columns h idx g tag row_index column [] ob = Inr ((), ob)"
| "png_columns h idx g tag row_index column (encoded # rest) ob =
     and_then (consume_input h ob) (\<lambda>(_, ob).
     and_then (charge_algorithm h 1 ob) (\<lambda>(_, ob).
     and_then (if column \<ge> bytes_per_pixel g
               then ok_or (byte_at_distance ob (bytes_per_pixel g)) (invalid_data idx)
               else Inr 0) (\<lambda>left.
     and_then (charge_algorithm h 1 ob) (\<lambda>(_, ob).
     and_then (if row_index > 0
               then ok_or (byte_at_distance ob (row_bytes g)) (invalid_data idx)
               else Inr 0) (\<lambda>upper.
     and_then (charge_algorithm h 1 ob) (\<lambda>(_, ob).
     and_then (if row_index > 0 \<and> column \<ge> bytes_per_pixel g
               then and_then (ok_or (checked_add (row_bytes g) (bytes_per_pixel g)) (invalid_data idx))
                      (\<lambda>distance. ok_or (byte_at_distance ob distance) (invalid_data idx))
               else Inr 0) (\<lambda>upper_left.
     and_then (charge_algorithm h 1 ob) (\<lambda>(_, ob).
     and_then (png_predict idx tag left upper upper_left) (\<lambda>predicted.
     and_then (charge_algorithm h 1 ob) (\<lambda>(_, ob).
     and_then (push h (encoded + predicted) ob) (\<lambda>(_, ob).
       png_columns h idx g tag row_index (column + 1) rest ob)))))))))))"

text \<open>The rows: \<open>rest\<close> is the input from the cursor on; the length test before the loop makes it
  a whole number of rows.\<close>

function png_rows ::
  "host \<Rightarrow> nat \<Rightarrow> predictor_geometry \<Rightarrow> nat \<Rightarrow> u8 list \<Rightarrow> output_buffer \<Rightarrow> unit decoding" where
  "png_rows h idx g row_index [] ob = Inr ((), ob)"
| "png_rows h idx g row_index (tag # rest) ob =
     and_then (consume_input h ob) (\<lambda>(_, ob).
     and_then (charge_algorithm h 1 ob) (\<lambda>(_, ob).
       if \<not> tag_is_allowed tag then Inl (invalid_data idx)
       else and_then (png_columns h idx g tag row_index 0 (take (row_bytes g) rest) ob) (\<lambda>(_, ob).
            and_then (ok_or (checked_add row_index 1) (invalid_data idx)) (\<lambda>row_index.
              png_rows h idx g row_index (drop (row_bytes g) rest) ob))))"
  by pat_completeness auto
termination
  by (relation "measure (\<lambda>(h, idx, g, row_index, rest, ob). length rest)") auto

definition decode_png ::
  "host \<Rightarrow> predictor_parameters \<Rightarrow> u8 list \<Rightarrow> nat \<Rightarrow> bool \<Rightarrow> nat \<Rightarrow> decode_budget
     \<Rightarrow> decode_error + (vec \<times> decode_budget)" where
  "decode_png h p input incap final idx b =
     (let ob = output_buffer_new incap final (Some idx) (length input) b in
      and_then (and_then (charge_algorithm h 1 ob) (\<lambda>(_, ob).
        and_then (geometry_new p idx) (\<lambda>g.
        and_then (ok_or (checked_add (row_bytes g) 1) (invalid_data idx)) (\<lambda>encoded_row_bytes.
          if length input mod encoded_row_bytes \<noteq> 0 then Inl (invalid_data idx)
          else png_rows h idx g 0 input ob))))
      (\<lambda>(_, ob). Inr (finish ob)))"

section \<open>PNG reference: rows and their prior row\<close>

text \<open>The five row filters of the PNG specification. Filter 4 predicts the neighbour nearest to
  left plus upper minus upper left; among equally near ones the first in the order left, upper,
  upper left.\<close>

definition nearest :: "int \<Rightarrow> u8 list \<Rightarrow> u8" where
  "nearest estimate xs =
     hd (filter (\<lambda>x. list_all (\<lambda>y. \<bar>estimate - uint x\<bar> \<le> \<bar>estimate - uint y\<bar>) xs) xs)"

definition png_pred :: "u8 \<Rightarrow> u8 \<Rightarrow> u8 \<Rightarrow> u8 \<Rightarrow> u8" where
  "png_pred tag left upper upper_left =
     [0, left, upper, word_of_nat ((unat left + unat upper) div 2),
      nearest (uint left + uint upper - uint upper_left) [left, upper, upper_left]] ! unat tag"

lemma paeth_nearest:
  "paeth left upper upper_left =
     nearest (uint left + uint upper - uint upper_left) [left, upper, upper_left]"
  by (simp add: paeth_def nearest_def Let_def)

lemma average_bytes:
  "(ucast (((ucast left :: u16) + ucast upper) div 2) :: u8) =
     word_of_nat ((unat (left :: u8) + unat (upper :: u8)) div 2)"
proof -
  have small: "unat left < 256" "unat upper < 256"
    using unat_byte by auto
  then have "unat ((ucast left :: u16) + ucast upper) = unat left + unat upper"
    by (simp add: unat_word_ariths unsigned_ucast_eq take_bit_nat_eq_self)
  then have "unat (((ucast left :: u16) + ucast upper) div 2) = (unat left + unat upper) div 2"
    by (simp add: unat_div_distrib)
  moreover have "(ucast x :: u8) = word_of_nat (unat x)" for x :: u16 by simp
  ultimately show ?thesis by (simp only:)
qed

text \<open>The neighbours of the next byte of a row: \<open>done\<close> is the row so far, \<open>prior\<close> the row above.\<close>

definition neighbours :: "nat \<Rightarrow> u8 list \<Rightarrow> u8 list \<Rightarrow> u8 \<times> u8 \<times> u8" where
  "neighbours bpp prior sofar =
     (let x = length sofar in
      (if bpp \<le> x then sofar ! (x - bpp) else 0, prior ! x, if bpp \<le> x then prior ! (x - bpp) else 0))"

definition predict_next :: "nat \<Rightarrow> u8 \<Rightarrow> u8 list \<Rightarrow> u8 list \<Rightarrow> u8" where
  "predict_next bpp tag prior sofar = (case neighbours bpp prior sofar of (a, b, c) \<Rightarrow> png_pred tag a b c)"

fun unfilter_row :: "nat \<Rightarrow> u8 \<Rightarrow> u8 list \<Rightarrow> u8 list \<Rightarrow> u8 list \<Rightarrow> u8 list" where
  "unfilter_row bpp tag prior sofar [] = sofar"
| "unfilter_row bpp tag prior sofar (e # es) =
     unfilter_row bpp tag prior (sofar @ [e + predict_next bpp tag prior sofar]) es"

function png_rows_ref :: "nat \<Rightarrow> nat \<Rightarrow> nat \<Rightarrow> u8 list \<Rightarrow> u8 list \<Rightarrow> decode_error + u8 list" where
  "png_rows_ref idx rb bpp prior [] = Inr []"
| "png_rows_ref idx rb bpp prior (tag # rest) =
     (if 4 < tag then Inl (invalid_data idx)
      else let row = unfilter_row bpp tag prior [] (take rb rest) in
        and_then (png_rows_ref idx rb bpp row (drop rb rest)) (\<lambda>out. Inr (row @ out)))"
  by pat_completeness auto
termination
  by (relation "measure (\<lambda>(idx, rb, bpp, prior, rest). length rest)") auto

definition png_reference :: "predictor_parameters \<Rightarrow> nat \<Rightarrow> u8 list \<Rightarrow> decode_error + u8 list" where
  "png_reference p idx input =
     (let rb = row_bytes (geometry_of p) in
      if length input mod (rb + 1) \<noteq> 0 then Inl (invalid_data idx)
      else png_rows_ref idx rb (bytes_per_pixel (geometry_of p)) (replicate rb 0) input)"

lemma length_unfilter_row [simp]:
  "length (unfilter_row bpp tag prior sofar es) = length sofar + length es"
  by (induction es arbitrary: sofar) auto

lemma png_predict_allowed: "tag \<le> 4 \<Longrightarrow> png_predict idx tag a b c = Inr (png_pred tag a b c)"
proof -
  assume "tag \<le> 4"
  then have "unat tag \<in> {0, 1, 2, 3, 4}" by (auto simp: word_le_nat_alt)
  then have "tag \<in> {0, 1, 2, 3, 4}" by (auto simp: word_unat_eq_iff)
  then show ?thesis by (auto simp: png_predict_def png_pred_def paeth_nearest average_bytes)
qed

text \<open>Reading back from the emitted bytes gives the neighbours in the row and in the row above.\<close>

lemma byte_at_distance_append:
  assumes "ob_bytes ob = pre @ sofar" "0 < d" "d \<le> length pre + length sofar"
  shows "byte_at_distance ob d = Some ((pre @ sofar) ! (length pre + length sofar - d))"
  using assms by (simp add: byte_at_distance_def checked_sub_def)

lemma png_columns_sim:
  fixes g :: predictor_geometry
  defines "rb \<equiv> row_bytes g" and "bpp \<equiv> bytes_per_pixel g"
  assumes h: "host_ok h" and bpp: "0 < bpp" and add: "rb + bpp \<le> u64_max" and tag: "tag \<le> 4"
    and prior: "length prior = rb" "row_index > 0 \<Longrightarrow> \<exists>pre'. pre = pre' @ prior"
      "row_index = 0 \<Longrightarrow> prior = replicate rb 0"
    and ob: "buf_ok ob" "ob_bytes ob = pre @ sofar" "length sofar + length es = rb"
  shows "simulates h (7 * length es) (length es) ob
      (png_columns h idx g tag row_index (length sofar) es ob)
      (Inr ((), pre @ unfilter_row bpp tag prior sofar es))"
  using ob
proof (induction es arbitrary: ob sofar)
  case Nil
  then show ?case by (metis png_columns.simps(1) simulates_return unfilter_row.simps(1))
next
  case (Cons e es)
  let ?x = "length sofar" and ?rest = "png_columns h idx g tag row_index"
  obtain a b c where nb: "neighbours bpp prior sofar = (a, b, c)" by (cases "neighbours bpp prior sofar")
  have x: "?x < rb" using Cons.prems(3) by simp
  have L: "(if bytes_per_pixel g \<le> ?x then ok_or (byte_at_distance o' (bytes_per_pixel g)) (invalid_data idx)
      else Inr 0) = Inr a" if "ob_bytes o' = pre @ sofar" for o'
    using byte_at_distance_append [OF that, of bpp] nb bpp
    by (auto simp: neighbours_def bpp_def nth_append Let_def)
  have U: "(if 0 < row_index then ok_or (byte_at_distance o' (row_bytes g)) (invalid_data idx)
      else Inr 0) = Inr b" if "ob_bytes o' = pre @ sofar" for o'
    using byte_at_distance_append [OF that, of rb] nb x prior
    by (auto simp: neighbours_def rb_def nth_append Let_def)
  have C: "(if 0 < row_index \<and> bytes_per_pixel g \<le> ?x
      then and_then (ok_or (checked_add (row_bytes g) (bytes_per_pixel g)) (invalid_data idx))
             (\<lambda>distance. ok_or (byte_at_distance o' distance) (invalid_data idx))
      else Inr 0) = Inr c" if o': "ob_bytes o' = pre @ sofar" for o'
  proof (cases "0 < row_index \<and> bpp \<le> ?x")
    case True
    then obtain pre' where pre: "pre = pre' @ prior" using prior(2) by blast
    have i: "length pre + ?x - (rb + bpp) = length pre' + (?x - bpp)"
      using True pre prior(1) by simp
    have "?x - bpp < length prior" using x prior(1) by simp
    then have "(pre @ sofar) ! (length pre' + (?x - bpp)) = prior ! (?x - bpp)"
      unfolding pre append_assoc by (metis nth_append nth_append_length_plus)
    then have "byte_at_distance o' (rb + bpp) = Some (prior ! (?x - bpp))"
      using byte_at_distance_append [OF o', of "rb + bpp"] i True pre prior(1) bpp by simp
    then show ?thesis
      using True nb add by (simp add: neighbours_def rb_def bpp_def Let_def checked_add_def)
  next
    case False
    have "prior ! (?x - bpp) = 0" if "row_index = 0" using prior(3) [OF that] x by simp
    then show ?thesis using False nb by (auto simp: neighbours_def bpp_def Let_def)
  qed
  have P: "png_predict idx tag a b c = Inr (predict_next bpp tag prior sofar)"
    using png_predict_allowed [OF tag] nb by (simp add: predict_next_def)
  let ?y = "e + predict_next bpp tag prior sofar"
  have next_row: "simulates h (7 * length es) (length es) o' (?rest (?x + 1) es o')
      (Inr ((), pre @ unfilter_row bpp tag prior sofar (e # es)))"
    if "buf_ok o'" "ob_bytes o' = pre @ sofar @ [?y]" for o'
    using Cons.IH [of o' "sofar @ [?y]"] that Cons.prems(3) by simp
  note bytes = Cons.prems(2)
  have "simulates h (1 + (1 + (1 + (1 + (1 + (1 + (1 + 7 * length es))))))) (1 + length es) ob
      (?rest ?x (e # es) ob) (Inr ((), pre @ unfilter_row bpp tag prior sofar (e # es)))"
    unfolding png_columns.simps
    apply (rule sim_consume [OF Cons.prems(1)])
    apply (rule sim_charge, assumption)
    apply (simp only: L bytes and_then_simps)
    apply (rule sim_charge, assumption)
    apply (simp only: U bytes and_then_simps)
    apply (rule sim_charge, assumption)
    apply (simp only: C bytes and_then_simps)
    apply (rule sim_charge, assumption)
    apply (simp only: P bytes and_then_simps)
    apply (rule sim_charge, assumption)
    apply (rule sim_push [OF _ h], assumption)
    apply (rule next_row, assumption)
    apply (simp only: bytes append_assoc)
    done
  moreover have "1 + (1 + (1 + (1 + (1 + (1 + (1 + 7 * length es)))))) = 7 * length (e # es)"
    "1 + length es = length (e # es)" by simp_all
  ultimately show ?case by (simp only:)
qed

text \<open>The rows of an input that is a whole number of rows.\<close>

lemma png_rows_sim:
  fixes g :: predictor_geometry
  defines "rb \<equiv> row_bytes g" and "bpp \<equiv> bytes_per_pixel g"
  assumes h: "host_ok h" and bpp: "0 < bpp" and add: "rb + bpp \<le> u64_max"
    and prior: "length prior = rb" "row_index > 0 \<Longrightarrow> \<exists>pre'. ob_bytes ob = pre' @ prior"
      "row_index = 0 \<Longrightarrow> prior = replicate rb 0"
    and ob: "buf_ok ob" "length input mod (rb + 1) = 0" "row_index + length input \<le> u64_max"
  shows "simulates h (7 * length input) (length input) ob (png_rows h idx g row_index input ob)
      (and_then (png_rows_ref idx rb bpp prior input) (\<lambda>out. Inr ((), ob_bytes ob @ out)))"
  using prior ob
proof (induction "length input" arbitrary: input ob prior row_index rule: less_induct)
  case less
  show ?case
  proof (cases input)
    case Nil
    then show ?thesis using less.prems(4) by simp
  next
    case (Cons tag rest)
    have "rb + 1 dvd length input" using less.prems(5) by auto
    then obtain k where k: "length input = (rb + 1) * k" by blast
    then have "k \<noteq> 0" using Cons by (metis length_0_conv list.discI mult_0_right)
    then obtain j where j: "k = Suc j" using not0_implies_Suc by blast
    have len: "rb \<le> length rest" "length (drop rb rest) = (rb + 1) * j"
      using k j Cons by simp_all
    let ?row = "unfilter_row bpp tag prior [] (take rb rest)"
    have rows: "simulates h (7 * length (drop rb rest)) (length (drop rb rest)) o'
        (png_rows h idx g (row_index + 1) (drop rb rest) o')
        (and_then (png_rows_ref idx rb bpp ?row (drop rb rest)) (\<lambda>out. Inr ((), ob_bytes ob @ ?row @ out)))"
      if o': "buf_ok o'" "ob_bytes o' = ob_bytes ob @ ?row" for o'
    proof -
      have md: "length (drop rb rest) mod (rb + 1) = 0"
        unfolding len(2) by (rule mod_mult_self1_is_0)
      have "length (drop rb rest) < length input" "row_index + 1 + length (drop rb rest) \<le> u64_max"
        using less.prems(6) Cons by auto
      from less.hyps [OF this(1) _ _ _ o'(1) md this(2), of ?row] o' len(1)
      show ?thesis by simp
    qed
    have row: "simulates h (7 * rb) rb o' (png_columns h idx g tag row_index 0 (take rb rest) o')
        (Inr ((), ob_bytes ob @ ?row))"
      if o': "buf_ok o'" "ob_bytes o' = ob_bytes ob" "tag \<le> 4" for o'
      using png_columns_sim [of h g tag prior row_index "ob_bytes ob" o' "[]" "take rb rest" idx]
        h bpp add less.prems(1-3) o' len(1)
      by (simp add: rb_def bpp_def)
    have inc: "checked_add row_index 1 = Some (row_index + 1)"
      using less.prems(6) Cons by (simp add: checked_add_def)
    have "simulates h (1 + (1 + (7 * rb + 7 * length (drop rb rest)))) (rb + length (drop rb rest)) ob
        (png_rows h idx g row_index (tag # rest) ob)
        (and_then (png_rows_ref idx rb bpp prior (tag # rest)) (\<lambda>out. Inr ((), ob_bytes ob @ out)))"
      unfolding png_rows.simps
    proof (rule sim_consume [OF less.prems(4)], rule sim_charge, assumption, goal_cases)
      case (1 o1 o2)
      show ?case
      proof (cases "tag \<le> 4")
        case True
        have "simulates h (7 * rb + 7 * length (drop rb rest)) (rb + length (drop rb rest)) o2
            (and_then (png_columns h idx g tag row_index 0 (take rb rest) o2)
              (\<lambda>(_, ob). png_rows h idx g (row_index + 1) (drop rb rest) ob))
            (and_then (png_rows_ref idx rb bpp ?row (drop rb rest)) (\<lambda>out. Inr ((), ob_bytes ob @ ?row @ out)))"
          by (rule sim_then [OF row [OF 1(3) _ True]]) (use 1 rows in auto)
        moreover have "\<not> 4 < tag" using True by auto
        ultimately show ?thesis
          using True inc by (simp add: tag_is_allowed_def rb_def Let_def and_then_assoc)
      qed (simp add: tag_is_allowed_def not_le)
    qed
    then show ?thesis
      using Cons len(1) simulates_mono by fastforce
  qed
qed

lemma decode_png_sim:
  fixes final :: bool and idx :: nat and input :: "u8 list"
  assumes h: "host_ok h" and p: "predictor_ok p" and b: "budget_ok b"
    "incap \<le> max_retained_capacity_bytes (b_limits b)" and len: "length input \<le> u64_max"
  defines "ob \<equiv> output_buffer_new incap final (Some idx) (length input) b"
  shows "simulates h (1 + 7 * length input) (length input) ob
      (and_then (charge_algorithm h 1 ob) (\<lambda>(_, ob).
        and_then (geometry_new p idx) (\<lambda>g.
        and_then (ok_or (checked_add (row_bytes g) 1) (invalid_data idx)) (\<lambda>encoded_row_bytes.
          if length input mod encoded_row_bytes \<noteq> 0 then Inl (invalid_data idx)
          else png_rows h idx g 0 input ob))))
      (and_then (png_reference p idx input) (\<lambda>out. Inr ((), out)))"
proof -
  let ?g = "geometry_of p"
  note geo = geometry_new_ok [OF p]
  have ok: "buf_ok ob" "ob_bytes ob = []"
    using buf_ok_new [OF b] by (simp_all add: ob_def output_buffer_new_def)
  have fits: "row_bytes ?g + bytes_per_pixel ?g \<le> u64_max"
  proof -
    have "pp_colors p * pp_bits_per_component p \<le> pp_colors p * pp_columns p * pp_bits_per_component p"
      using p by (simp add: predictor_ok_def)
    then have "bytes_per_pixel ?g \<le> row_bytes ?g"
      by (simp add: geometry_of_def div_le_mono)
    moreover have "row_bytes ?g \<le> u64_max div 8"
      using p by (auto simp: geometry_of_def predictor_ok_def intro!: div_le_mono)
    ultimately show ?thesis by (simp add: u64_max_def)
  qed
  show ?thesis
  proof (rule sim_charge [OF ok(1)], goal_cases)
    case (1 o1)
    show ?case
    proof (cases "length input mod (row_bytes ?g + 1) = 0")
      case True
      have "simulates h (7 * length input) (length input) o1 (png_rows h idx ?g 0 input o1)
        (and_then (png_rows_ref idx (row_bytes ?g) (bytes_per_pixel ?g) (replicate (row_bytes ?g) 0) input)
          (\<lambda>out. Inr ((), ob_bytes o1 @ out)))"
        by (rule png_rows_sim [OF h geo(3) fits]) (use 1 True len in auto)
      then show ?thesis
        using True 1 ok(2) geo(1,4) by (simp add: png_reference_def checked_add_def Let_def)
    next
      case False
      then show ?thesis using geo(1,4) by (simp add: png_reference_def checked_add_def)
    qed
  qed
qed

section \<open>PNG round trip\<close>

fun filter_row :: "nat \<Rightarrow> u8 \<Rightarrow> u8 list \<Rightarrow> u8 list \<Rightarrow> u8 list \<Rightarrow> u8 list" where
  "filter_row bpp tag prior sofar [] = []"
| "filter_row bpp tag prior sofar (x # xs) =
     (x - predict_next bpp tag prior sofar) # filter_row bpp tag prior (sofar @ [x]) xs"

fun png_encode :: "nat \<Rightarrow> u8 list \<Rightarrow> (u8 \<times> u8 list) list \<Rightarrow> u8 list" where
  "png_encode bpp prior [] = []"
| "png_encode bpp prior ((tag, row) # rows) =
     tag # filter_row bpp tag prior [] row @ png_encode bpp row rows"

lemma length_filter_row [simp]: "length (filter_row bpp tag prior sofar xs) = length xs"
  by (induction xs arbitrary: sofar) auto

lemma unfilter_filter_row:
  "unfilter_row bpp tag prior sofar (filter_row bpp tag prior sofar xs) = sofar @ xs"
  by (induction xs arbitrary: sofar) auto

lemma png_rows_round_trip:
  assumes "\<And>tag row. (tag, row) \<in> set rows \<Longrightarrow> tag \<le> 4 \<and> length row = rb"
  shows "png_rows_ref idx rb bpp prior (png_encode bpp prior rows) = Inr (concat (map snd rows)) \<and>
    length (png_encode bpp prior rows) = (rb + 1) * length rows"
  using assms
proof (induction rows arbitrary: prior)
  case (Cons r rows)
  obtain tag row where r: "r = (tag, row)" by (cases r)
  then have tag: "\<not> 4 < tag" and row: "length row = rb" using Cons.prems by (auto simp: not_less)
  have split: "take rb (filter_row bpp tag prior [] row @ ys) = filter_row bpp tag prior [] row"
    "drop rb (filter_row bpp tag prior [] row @ ys) = ys" for ys using row by simp_all
  have IH: "png_rows_ref idx rb bpp row (png_encode bpp row rows) = Inr (concat (map snd rows))"
    "length (png_encode bpp row rows) = (rb + 1) * length rows"
    using Cons.IH [of row] Cons.prems by (metis list.set_intros(2))+
  have "png_rows_ref idx rb bpp prior (png_encode bpp prior (r # rows)) = Inr (concat (map snd (r # rows)))"
    unfolding r png_encode.simps png_rows_ref.simps split unfilter_filter_row Let_def IH(1) if_not_P [OF tag]
    by (simp add: IH)
  moreover have "length (png_encode bpp prior (r # rows)) = (rb + 1) * length (r # rows)"
    unfolding r png_encode.simps by (simp add: IH(2) row)
  ultimately show ?case ..
qed simp

lemma png_reference_round_trip:
  assumes "\<And>tag row. (tag, row) \<in> set rows \<Longrightarrow> tag \<le> 4 \<and> length row = row_bytes (geometry_of p)"
  shows "png_reference p idx (png_encode (bytes_per_pixel (geometry_of p))
      (replicate (row_bytes (geometry_of p)) 0) rows) = Inr (concat (map snd rows))"
proof -
  have "((n + 1) * k) mod (n + 1) = 0" for n k :: nat by (rule mod_mult_self1_is_0)
  then show ?thesis
    using png_rows_round_trip [OF assms, of rows idx "bytes_per_pixel (geometry_of p)"]
    by (simp add: png_reference_def Let_def del: mult_Suc)
qed

end
