(* ===== verification/Filt_Tiff.thy ===== *)
theory Filt_Tiff
  imports Filt_Predictor
begin

text \<open>
  The TIFF predictor and the dispatch on the predictor (\<open>pdf-rs/filters/src/predictor.rs\<close>): the rows
  are copied to the output and each sample after the first pixel is then rewritten in place, bit by
  bit, as the sum of its difference and the sample one pixel to the left.
\<close>

section \<open>Reading and writing bits\<close>

fun read_input_bits_loop ::
  "host \<Rightarrow> nat \<Rightarrow> u8 list \<Rightarrow> nat \<Rightarrow> nat list \<Rightarrow> u16 \<Rightarrow> output_buffer \<Rightarrow> u16 decoding" where
  "read_input_bits_loop h idx bytes start_bit [] v ob = Inr (v, ob)"
| "read_input_bits_loop h idx bytes start_bit (offset # offsets) v ob =
     and_then (charge_algorithm h 1 ob) (\<lambda>(_, ob).
     and_then (ok_or (checked_add start_bit offset) (invalid_data idx)) (\<lambda>b.
     and_then (if b div 8 < length bytes then Inr (bytes ! (b div 8)) else Inl (invalid_data idx)) (\<lambda>byte.
     and_then (ok_or (checked_sub 7 (b mod 8)) (invalid_data idx)) (\<lambda>shift.
       read_input_bits_loop h idx bytes start_bit offsets
         (or (push_bit 1 v) (ucast (and (drop_bit shift byte) 1))) ob))))"

definition read_input_bits ::
  "host \<Rightarrow> u8 list \<Rightarrow> nat \<Rightarrow> nat \<Rightarrow> nat \<Rightarrow> output_buffer \<Rightarrow> u16 decoding" where
  "read_input_bits h bytes start_bit width idx ob =
     read_input_bits_loop h idx bytes start_bit [0..<width] 0 ob"

fun read_output_bits_loop ::
  "host \<Rightarrow> nat \<Rightarrow> nat \<Rightarrow> nat list \<Rightarrow> u16 \<Rightarrow> output_buffer \<Rightarrow> u16 decoding" where
  "read_output_bits_loop h idx start_bit [] v ob = Inr (v, ob)"
| "read_output_bits_loop h idx start_bit (offset # offsets) v ob =
     and_then (charge_algorithm h 1 ob) (\<lambda>(_, ob).
     and_then (ok_or (checked_add start_bit offset) (invalid_data idx)) (\<lambda>b.
     and_then (ok_or (bit_at ob b) (invalid_data idx)) (\<lambda>current.
       read_output_bits_loop h idx start_bit offsets (or (push_bit 1 v) (ucast current)) ob)))"

definition read_output_bits :: "host \<Rightarrow> nat \<Rightarrow> nat \<Rightarrow> nat \<Rightarrow> output_buffer \<Rightarrow> u16 decoding" where
  "read_output_bits h start_bit width idx ob = read_output_bits_loop h idx start_bit [0..<width] 0 ob"

fun write_output_bits_loop ::
  "host \<Rightarrow> nat \<Rightarrow> nat \<Rightarrow> nat \<Rightarrow> u16 \<Rightarrow> nat list \<Rightarrow> output_buffer \<Rightarrow> unit decoding" where
  "write_output_bits_loop h idx start_bit width v [] ob = Inr ((), ob)"
| "write_output_bits_loop h idx start_bit width v (offset # offsets) ob =
     and_then (charge_algorithm h 1 ob) (\<lambda>(_, ob).
     and_then (ok_or (checked_add start_bit offset) (invalid_data idx)) (\<lambda>b.
       let source_shift = width - 1 - offset;
           source_bit = ucast (and (drop_bit source_shift v) 1)
       in case replace_bit ob b source_bit of
            (ob, replaced) \<Rightarrow>
              if \<not> replaced then Inl (invalid_data idx)
              else write_output_bits_loop h idx start_bit width v offsets ob))"

definition write_output_bits :: "host \<Rightarrow> nat \<Rightarrow> nat \<Rightarrow> u16 \<Rightarrow> nat \<Rightarrow> output_buffer \<Rightarrow> unit decoding" where
  "write_output_bits h start_bit width v idx ob =
     write_output_bits_loop h idx start_bit width v [0..<width] ob"

definition reconstruct_tiff_sample ::
  "host \<Rightarrow> u8 list \<Rightarrow> nat \<Rightarrow> nat \<Rightarrow> nat \<Rightarrow> nat \<Rightarrow> nat \<Rightarrow> output_buffer \<Rightarrow> unit decoding" where
  "reconstruct_tiff_sample h row row_output_start sample colors width idx ob =
     and_then (charge_algorithm h 1 ob) (\<lambda>(_, ob).
     and_then (ok_or (checked_mul sample width) (invalid_data idx)) (\<lambda>bit_offset.
     and_then (ok_or (checked_mul (sample - colors) width) (invalid_data idx)) (\<lambda>previous_bit_offset.
     and_then (ok_or (Option.bind (checked_mul row_output_start 8) (\<lambda>v. checked_add v bit_offset))
                 (invalid_data idx)) (\<lambda>output_row_bit.
     and_then (ok_or (Option.bind (checked_mul row_output_start 8) (\<lambda>v. checked_add v previous_bit_offset))
                 (invalid_data idx)) (\<lambda>previous_output_bit.
     and_then (read_input_bits h row bit_offset width idx ob) (\<lambda>(delta, ob).
     and_then (read_output_bits h previous_output_bit width idx ob) (\<lambda>(previous, ob).
     and_then (charge_algorithm h 1 ob) (\<lambda>(_, ob).
       let bits = (if width = 16 then 65535 else push_bit width 1 - 1);
           reconstructed = and (delta + previous) bits
       in write_output_bits h output_row_bit width reconstructed idx ob))))))))"

fun tiff_samples ::
  "host \<Rightarrow> nat \<Rightarrow> u8 list \<Rightarrow> nat \<Rightarrow> nat \<Rightarrow> nat \<Rightarrow> nat list \<Rightarrow> output_buffer \<Rightarrow> unit decoding" where
  "tiff_samples h idx row row_output_start colors width [] ob = Inr ((), ob)"
| "tiff_samples h idx row row_output_start colors width (sample # samples) ob =
     and_then (reconstruct_tiff_sample h row row_output_start sample colors width idx ob) (\<lambda>(_, ob).
       tiff_samples h idx row row_output_start colors width samples ob)"

fun tiff_copy :: "host \<Rightarrow> u8 list \<Rightarrow> output_buffer \<Rightarrow> unit decoding" where
  "tiff_copy h [] ob = Inr ((), ob)"
| "tiff_copy h (byte # row) ob =
     and_then (consume_input h ob) (\<lambda>(_, ob).
     and_then (push h byte ob) (\<lambda>(_, ob). tiff_copy h row ob))"

fun tiff_rows ::
  "host \<Rightarrow> nat \<Rightarrow> predictor_geometry \<Rightarrow> nat \<Rightarrow> u8 list list \<Rightarrow> output_buffer \<Rightarrow> unit decoding" where
  "tiff_rows h idx g width [] ob = Inr ((), ob)"
| "tiff_rows h idx g width (row # rows) ob =
     (let row_output_start = length (ob_bytes ob) in
      and_then (tiff_copy h row ob) (\<lambda>(_, ob).
      and_then (tiff_samples h idx row row_output_start (g_colors g) width
                  [g_colors g..<samples_per_row g] ob) (\<lambda>(_, ob).
        tiff_rows h idx g width rows ob)))"

text \<open>The chunks of a positive size, of an input that is a whole number of them.\<close>

function chunks_exact :: "nat \<Rightarrow> 'a list \<Rightarrow> 'a list list" where
  "chunks_exact n xs = (if n = 0 \<or> length xs < n then [] else take n xs # chunks_exact n (drop n xs))"
  by pat_completeness auto
termination
  by (relation "measure (\<lambda>(n, xs). length xs)") auto

definition decode_tiff ::
  "host \<Rightarrow> predictor_parameters \<Rightarrow> u8 list \<Rightarrow> nat \<Rightarrow> bool \<Rightarrow> nat \<Rightarrow> decode_budget
     \<Rightarrow> decode_error + (vec \<times> decode_budget)" where
  "decode_tiff h p input incap final idx b =
     (let ob = output_buffer_new incap final (Some idx) (length input) b in
      and_then (and_then (charge_algorithm h 1 ob) (\<lambda>(_, ob).
        and_then (geometry_new p idx) (\<lambda>g.
          if length input mod row_bytes g \<noteq> 0 then Inl (invalid_data idx)
          else tiff_rows h idx g (pp_bits_per_component p) (chunks_exact (row_bytes g) input) ob)))
      (\<lambda>(_, ob). Inr (finish ob)))"

definition decode_predictor ::
  "host \<Rightarrow> predictor_parameters \<Rightarrow> u8 list \<Rightarrow> nat \<Rightarrow> bool \<Rightarrow> nat \<Rightarrow> decode_budget
     \<Rightarrow> decode_error + (vec \<times> decode_budget)" where
  "decode_predictor h p input incap final idx b =
     (if pp_predictor p = 2 then decode_tiff h p input incap final idx b
      else if pp_predictor p \<ge> 10 then decode_png h p input incap final idx b
      else Inl (for_code InternalState (Some idx)))"

declare chunks_exact.simps [simp del]

section \<open>Bits of a byte string, most significant first\<close>

definition msb_bit :: "u8 list \<Rightarrow> nat \<Rightarrow> bool" where
  "msb_bit bs i = bit (bs ! (i div 8)) (7 - i mod 8)"

definition set_msb_bit :: "u8 list \<Rightarrow> nat \<Rightarrow> bool \<Rightarrow> u8 list" where
  "set_msb_bit bs i v =
     bs[i div 8 := (if v then set_bit else unset_bit) (7 - i mod 8) (bs ! (i div 8))]"

fun put_bits :: "u8 list \<Rightarrow> nat \<Rightarrow> bool list \<Rightarrow> u8 list" where
  "put_bits bs s [] = bs"
| "put_bits bs s (x # xs) = put_bits (set_msb_bit bs s x) (Suc s) xs"

definition word_of_bits :: "bool list \<Rightarrow> u16" where
  "word_of_bits = foldl (\<lambda>v x. 2 * v + of_bool x) 0"

definition bits_of_word :: "nat \<Rightarrow> u16 \<Rightarrow> bool list" where
  "bits_of_word w v = map (\<lambda>k. bit v (w - 1 - k)) [0..<w]"

definition tiff_sample :: "nat \<Rightarrow> u8 list \<Rightarrow> nat \<Rightarrow> u16" where
  "tiff_sample w bs i = word_of_bits (map (\<lambda>k. msb_bit bs (i * w + k)) [0..<w])"

lemma length_set_msb_bit [simp]: "length (set_msb_bit bs i v) = length bs"
  by (simp add: set_msb_bit_def)

lemma length_put_bits [simp]: "length (put_bits bs s xs) = length bs"
  by (induction xs arbitrary: bs s) auto

lemma length_bits_of_word [simp]: "length (bits_of_word w v) = w"
  by (simp add: bits_of_word_def)

lemma msb_bit_set_msb_bit:
  assumes "i < 8 * length bs"
  shows "msb_bit (set_msb_bit bs i v) j = (if j = i then v else msb_bit bs j)"
proof (cases "j div 8 = i div 8")
  case True
  have "i div 8 < length bs" using assms by (simp add: less_mult_imp_div_less mult.commute)
  moreover have "7 - j mod 8 = 7 - i mod 8 \<longleftrightarrow> j = i"
  proof -
    have "j mod 8 < 8" "i mod 8 < 8" by simp_all
    then have "7 - j mod 8 = 7 - i mod 8 \<longleftrightarrow> j mod 8 = i mod 8" by linarith
    also have "\<dots> \<longleftrightarrow> j = i" using True by (metis div_mod_decomp)
    finally show ?thesis .
  qed
  ultimately show ?thesis
    using True by (auto simp: msb_bit_def set_msb_bit_def bit_set_bit_iff bit_unset_bit_iff)
qed (auto simp: msb_bit_def set_msb_bit_def)

lemma msb_bit_put_bits:
  "s + length xs \<le> 8 * length bs \<Longrightarrow>
   msb_bit (put_bits bs s xs) j = (if s \<le> j \<and> j < s + length xs then xs ! (j - s) else msb_bit bs j)"
proof (induction xs arbitrary: bs s)
  case (Cons x xs)
  then show ?case
    using msb_bit_set_msb_bit [of s bs x j]
    by (cases "j = s") (auto simp: Suc_diff_le nth_Cons')
qed auto

lemma bytes_eqI:
  assumes "length xs = length ys" "\<And>i. i < 8 * length xs \<Longrightarrow> msb_bit xs i = msb_bit ys i"
  shows "xs = ys"
proof (rule nth_equalityI)
  fix i assume i: "i < length xs"
  show "xs ! i = ys ! i"
  proof (rule bit_word_eqI)
    fix n assume "n < LENGTH(8)"
    then have "7 - n < 8" "7 - (7 - n) = n" by simp_all
    then obtain m where m: "m < 8" "7 - m = n" by blast
    have "(8 * i + m) div 8 = i" "(8 * i + m) mod 8 = m" "8 * i + m < 8 * length xs" using m(1) i by simp_all
    then show "bit (xs ! i) n = bit (ys ! i) n"
      using assms(2) [of "8 * i + m"] m(2) by (simp add: msb_bit_def)
  qed
qed (use assms in simp)

lemma msb_bit_append:
  "msb_bit (pre @ row) (8 * length pre + i) = msb_bit row i"
  by (simp add: msb_bit_def nth_append)

lemma set_msb_bit_append:
  "set_msb_bit (pre @ row) (8 * length pre + i) v = pre @ set_msb_bit row i v"
  by (simp add: set_msb_bit_def nth_append list_update_append)

lemma put_bits_append:
  "put_bits (pre @ row) (8 * length pre + i) xs = pre @ put_bits row i xs"
proof (induction xs arbitrary: row i)
  case (Cons x xs)
  show ?case using Cons.IH [of "set_msb_bit row i x" "Suc i"] by (simp add: set_msb_bit_append)
qed simp

subsection \<open>Numbers and their bits\<close>

lemma shift_in_bit:
  "or (push_bit 1 v) (of_bool x) = 2 * v + (of_bool x :: u16)"
  by (cases x) (simp_all add: or_one_eq mult.commute)

lemma bit_of_byte: "ucast (and (drop_bit k (x :: u8)) 1) = (of_bool (bit x k) :: u16)"
  by (rule bit_word_eqI) (auto simp: bit_simps bit_of_bool_iff bit_1_iff)

lemma bit_shift_in:
  assumes "n < 16" shows "bit (2 * v + (of_bool x :: u16)) n = (if n = 0 then x else bit v (n - 1))"
  unfolding shift_in_bit [symmetric] bit_or_iff bit_push_bit_iff bit_of_bool_iff
  using assms by auto

lemma bit_foldl_word:
  assumes "n < 16"
  shows "bit (foldl (\<lambda>v x. 2 * v + of_bool x) (a :: u16) xs) n =
    (if n < length xs then xs ! (length xs - 1 - n) else bit a (n - length xs))"
  using assms
proof (induction xs arbitrary: n rule: rev_induct)
  case (snoc x xs)
  let ?v = "foldl (\<lambda>v x. 2 * v + of_bool x) a xs"
  show ?case
    using snoc.IH [of "n - 1"] snoc.prems bit_shift_in [of n ?v x] by (auto simp: nth_append)
qed simp

lemma word_of_bits_of_word:
  assumes "w \<le> 16" shows "word_of_bits (bits_of_word w v) = take_bit w v"
  by (rule bit_word_eqI)
    (use assms in \<open>auto simp: word_of_bits_def bit_foldl_word bits_of_word_def bit_take_bit_iff\<close>)

lemma bits_of_word_of_bits:
  assumes "w \<le> 16" "length xs = w" shows "bits_of_word w (word_of_bits xs) = xs"
  by (rule nth_equalityI)
    (use assms in \<open>auto simp: word_of_bits_def bit_foldl_word bits_of_word_def\<close>)

lemma bits_of_word_take_bit [simp]: "bits_of_word w (take_bit w v) = bits_of_word w v"
  by (auto simp: bits_of_word_def bit_take_bit_iff)

section \<open>The bit loops compute on the bytes\<close>

lemma read_input_bits_loop_sim:
  assumes "buf_ok ob" "\<And>k. k \<in> set offsets \<Longrightarrow> start + k < 8 * length bytes \<and> start + k \<le> u64_max"
  shows "simulates h (length offsets) 0 ob (read_input_bits_loop h idx bytes start offsets v ob)
    (Inr (foldl (\<lambda>v x. 2 * v + of_bool x) v (map (\<lambda>k. msb_bit bytes (start + k)) offsets), ob_bytes ob))"
  using assms
proof (induction offsets arbitrary: ob v)
  case (Cons k offsets)
  have k: "(start + k) div 8 < length bytes" "start + k \<le> u64_max" "(start + k) mod 8 \<le> 7"
    using Cons.prems(2) [of k] by (simp_all add: less_mult_imp_div_less mult.commute)
  let ?v = "2 * v + of_bool (msb_bit bytes (start + k))"
  have step: "or (push_bit 1 v) (ucast (and (drop_bit (7 - (start + k) mod 8) (bytes ! ((start + k) div 8))) 1))
      = ?v"
    unfolding bit_of_byte shift_in_bit msb_bit_def ..
  have "simulates h (1 + length offsets) 0 ob (read_input_bits_loop h idx bytes start (k # offsets) v ob)
    (Inr (foldl (\<lambda>v x. 2 * v + of_bool x) ?v (map (\<lambda>k. msb_bit bytes (start + k)) offsets), ob_bytes ob))"
    unfolding read_input_bits_loop.simps
  proof (rule sim_charge [OF Cons.prems(1)], goal_cases)
    case (1 o1)
    then show ?case
      using Cons.IH [OF 1(1), of ?v] Cons.prems(2) k
      by (simp only: checked_add_def checked_sub_def ok_or_simps and_then_simps if_True step list.set_intros)
  qed
  then show ?case by simp
qed simp

lemma read_output_bits_loop_sim:
  assumes "buf_ok ob"
    "\<And>k. k \<in> set offsets \<Longrightarrow> start + k < 8 * length (ob_bytes ob) \<and> start + k \<le> u64_max"
  shows "simulates h (length offsets) 0 ob (read_output_bits_loop h idx start offsets v ob)
    (Inr (foldl (\<lambda>v x. 2 * v + of_bool x) v (map (\<lambda>k. msb_bit (ob_bytes ob) (start + k)) offsets),
       ob_bytes ob))"
  using assms
proof (induction offsets arbitrary: ob v)
  case (Cons k offsets)
  have k: "(start + k) div 8 < length (ob_bytes ob)" "start + k \<le> u64_max" "(start + k) mod 8 \<le> 7"
    using Cons.prems(2) [of k] by (simp_all add: less_mult_imp_div_less mult.commute)
  let ?v = "2 * v + of_bool (msb_bit (ob_bytes ob) (start + k))"
  have step: "or (push_bit 1 v) (ucast (and (drop_bit (7 - (start + k) mod 8) (ob_bytes ob ! ((start + k) div 8))) 1))
      = ?v"
    unfolding bit_of_byte shift_in_bit msb_bit_def ..
  have "simulates h (1 + length offsets) 0 ob (read_output_bits_loop h idx start (k # offsets) v ob)
    (Inr (foldl (\<lambda>v x. 2 * v + of_bool x) ?v (map (\<lambda>k. msb_bit (ob_bytes ob) (start + k)) offsets),
      ob_bytes ob))"
    unfolding read_output_bits_loop.simps
  proof (rule sim_charge [OF Cons.prems(1)], goal_cases)
    case (1 o1)
    have "simulates h (length offsets) 0 o1 (read_output_bits_loop h idx start offsets ?v o1)
      (Inr (foldl (\<lambda>v x. 2 * v + of_bool x) ?v (map (\<lambda>k. msb_bit (ob_bytes o1) (start + k)) offsets),
       ob_bytes o1))"
      by (rule Cons.IH [OF 1(1)]) (use Cons.prems(2) 1(2) in auto)
    then show ?case
      using k 1(2)
      by (simp only: checked_add_def checked_sub_def bit_at_def Option.bind.simps ok_or_simps
          and_then_simps if_True step)
  qed
  then show ?case by simp
qed simp

lemma replace_bit_bytes:
  assumes "b < 8 * length (ob_bytes ob)"
  shows "replace_bit ob b (ucast (and (drop_bit k (v :: u16)) 1)) =
    (ob\<lparr>ob_bytes := set_msb_bit (ob_bytes ob) b (bit v k)\<rparr>, True)"
proof -
  have "b div 8 < length (ob_bytes ob)" "b mod 8 \<le> 7"
    using assms by (simp_all add: less_mult_imp_div_less mult.commute)
  moreover have "or (and byte (not (push_bit s 1))) (push_bit s (and (ucast (and (drop_bit k v) 1)) 1)) =
      (if bit v k then set_bit else unset_bit) s byte" if "s < 8" for s and byte :: u8
    by (rule bit_word_eqI)
      (use that in \<open>auto simp: bit_simps bit_1_iff bit_set_bit_iff bit_unset_bit_iff\<close>)
  ultimately show ?thesis
    by (simp add: replace_bit_def set_msb_bit_def checked_sub_def Let_def)
qed

lemma steps_to_bytes:
  "buf_ok ob \<Longrightarrow> length bs = length (ob_bytes ob) \<Longrightarrow> buf_ok (ob\<lparr>ob_bytes := bs\<rparr>)"
  by (auto simp: buf_ok_def)

lemma simulates_same_budget:
  assumes "simulates h c n (ob\<lparr>ob_bytes := bs\<rparr>) r p" "buf_ok ob" "length bs = length (ob_bytes ob)"
  shows "simulates h c n ob r p"
  using assms
  by (auto simp: simulates_def steps_to_def buf_frame_def roomy_def split: sum.splits)

lemma write_output_bits_loop_sim:
  assumes "buf_ok ob" "s + m = n" "m = length xs" "n \<le> 16"
    "start + n \<le> 8 * length (ob_bytes ob)" "start + n \<le> u64_max"
    "xs = map (\<lambda>k. bit v (n - 1 - k)) [s..<n]"
  shows "simulates h m 0 ob (write_output_bits_loop h idx start n v [s..<n] ob)
    (Inr ((), put_bits (ob_bytes ob) (start + s) xs))"
  using assms
proof (induction m arbitrary: ob s xs)
  case 0
  then show ?case by simp
next
  case (Suc m)
  have s: "s < n" "[s..<n] = s # [Suc s..<n]" using Suc.prems(2) by (auto simp: upt_conv_Cons)
  define ys where "ys = map (\<lambda>k. bit v (n - 1 - k)) [Suc s..<n]"
  have xs: "xs = bit v (n - 1 - s) # ys" using Suc.prems(7) s by (simp add: ys_def)
  have "simulates h (1 + m) 0 ob (write_output_bits_loop h idx start n v (s # [Suc s..<n]) ob)
    (Inr ((), put_bits (ob_bytes ob) (start + s) xs))"
    unfolding write_output_bits_loop.simps
  proof (rule sim_charge [OF Suc.prems(1)], goal_cases)
    case (1 o1)
    let ?o = "o1\<lparr>ob_bytes := set_msb_bit (ob_bytes ob) (start + s) (bit v (n - 1 - s))\<rparr>"
    have "simulates h m 0 ?o (write_output_bits_loop h idx start n v [Suc s..<n] ?o)
      (Inr ((), put_bits (ob_bytes ?o) (start + Suc s) ys))"
      by (rule Suc.IH) (use Suc.prems 1 xs in \<open>auto simp: ys_def steps_to_bytes\<close>)
    then have "simulates h m 0 o1 (write_output_bits_loop h idx start n v [Suc s..<n] ?o)
      (Inr ((), put_bits (ob_bytes ob) (start + s) xs))"
      unfolding xs by (intro simulates_same_budget [OF _ 1(1), where bs = "ob_bytes ?o"]) (simp_all add: 1(2))
    moreover have "start + s < 8 * length (ob_bytes o1)" "start + s \<le> u64_max"
      using 1 s Suc.prems(5,6) by auto
    ultimately show ?case
      using replace_bit_bytes [of "start + s" o1] 1
      by (simp add: checked_add_def Let_def)
  qed
  then show ?case using s(2) by simp
qed

section \<open>TIFF reference: samples of a row\<close>

definition tiff_step :: "nat \<Rightarrow> nat \<Rightarrow> u8 list \<Rightarrow> u8 list \<Rightarrow> nat \<Rightarrow> u8 list" where
  "tiff_step w colors row out i =
     put_bits out (i * w) (bits_of_word w (tiff_sample w row i + tiff_sample w out (i - colors)))"

definition tiff_row :: "nat \<Rightarrow> nat \<Rightarrow> nat \<Rightarrow> u8 list \<Rightarrow> u8 list" where
  "tiff_row w colors n row = foldl (tiff_step w colors row) row [colors..<n]"

definition tiff_reference :: "predictor_parameters \<Rightarrow> nat \<Rightarrow> u8 list \<Rightarrow> decode_error + u8 list" where
  "tiff_reference p idx input =
     (let g = geometry_of p in
      if length input mod row_bytes g \<noteq> 0 then Inl (invalid_data idx)
      else Inr (concat (map (tiff_row (pp_bits_per_component p) (g_colors g) (samples_per_row g))
                  (chunks_exact (row_bytes g) input))))"

lemma length_tiff_step [simp]: "length (tiff_step w colors row out i) = length out"
  by (simp add: tiff_step_def)

lemma length_foldl_tiff_step [simp]: "length (foldl (tiff_step w colors row) out is) = length out"
  by (induction "is" arbitrary: out) auto

lemma length_tiff_row [simp]: "length (tiff_row w colors n row) = length row"
  by (simp add: tiff_row_def)

lemma bits_of_word_mask:
  assumes "w \<le> 16"
  shows "bits_of_word w (and v (if w = 16 then 65535 else push_bit w 1 - 1)) = bits_of_word w v"
proof -
  have "(65535 :: u16) = mask 16" by (simp add: mask_eq_exp_minus_1)
  then have "(if w = 16 then 65535 else push_bit w 1 - 1) = (mask w :: u16)"
    by (simp add: mask_eq_exp_minus_1)
  then show ?thesis by (simp only: bits_of_word_take_bit take_bit_eq_mask [symmetric])
qed

lemma reconstruct_tiff_sample_sim:
  assumes ob: "buf_ok ob" "ob_bytes ob = pre @ out" "length out = length row"
    and w: "w \<le> 16" and i: "colors \<le> i" "(i + 1) * w \<le> 8 * length row"
    and fits: "8 * length (ob_bytes ob) + w \<le> u64_max"
  shows "simulates h (2 + 3 * w) 0 ob
    (reconstruct_tiff_sample h row (length pre) i colors w idx ob)
    (Inr ((), pre @ tiff_step w colors row out i))"
proof -
  have iw: "i * w + w \<le> 8 * length row" "(i - colors) * w + w \<le> 8 * length row"
  proof -
    show 1: "i * w + w \<le> 8 * length row" using i(2) by simp
    have "(i - colors) * w \<le> i * w" by simp
    with 1 show "(i - colors) * w + w \<le> 8 * length row" by linarith
  qed
  have small: "i * w \<le> u64_max" "(i - colors) * w \<le> u64_max" "length pre * 8 \<le> u64_max"
    "length pre * 8 + i * w + w \<le> u64_max" "length pre * 8 + (i - colors) * w + w \<le> u64_max"
    using iw fits ob(2,3) by simp_all
  have rin: "simulates h w 0 o1 (read_input_bits h row (i * w) w idx o1)
      (Inr (tiff_sample w row i, pre @ out))" if "buf_ok o1" "ob_bytes o1 = pre @ out" for o1
    using read_input_bits_loop_sim [OF that(1), of "[0..<w]" "i * w" row h idx 0] iw(1) small(4) that(2)
    by (simp add: read_input_bits_def tiff_sample_def word_of_bits_def)
  have prev: "map (\<lambda>k. msb_bit (pre @ out) (length pre * 8 + (i - colors) * w + k)) [0..<w] =
      map (\<lambda>k. msb_bit out ((i - colors) * w + k)) [0..<w]"
    using msb_bit_append [of pre out] by (simp add: mult.commute add.assoc)
  have rout: "simulates h w 0 o1 (read_output_bits h (length pre * 8 + (i - colors) * w) w idx o1)
      (Inr (tiff_sample w out (i - colors), pre @ out))" if "buf_ok o1" "ob_bytes o1 = pre @ out" for o1
    using read_output_bits_loop_sim [OF that(1), of "[0..<w]" "length pre * 8 + (i - colors) * w" h idx 0]
      iw(2) small(5) that(2) ob(3) prev
    by (simp add: read_output_bits_def tiff_sample_def word_of_bits_def)
  have wr: "simulates h w 0 o1 (write_output_bits h (length pre * 8 + i * w) w v idx o1)
      (Inr ((), pre @ put_bits out (i * w) (bits_of_word w v)))"
    if "buf_ok o1" "ob_bytes o1 = pre @ out" for o1 v
    using write_output_bits_loop_sim [OF that(1), of 0 w w "bits_of_word w v" "length pre * 8 + i * w" v h idx]
      that(2) ob(3) iw(1) small(4) w put_bits_append [of pre out "i * w" "bits_of_word w v"]
    by (simp add: write_output_bits_def bits_of_word_def mult.commute)
  have "simulates h (1 + (w + (w + (1 + w)))) (0 + (0 + 0)) ob
    (reconstruct_tiff_sample h row (length pre) i colors w idx ob)
    (Inr ((), pre @ tiff_step w colors row out i))"
    unfolding reconstruct_tiff_sample_def
    apply (rule sim_charge [OF ob(1)])
    apply (simp only: checked_mul_def checked_add_def small if_True ok_or_simps and_then_simps
        Option.bind.simps add_leD1 [OF small(4)] add_leD1 [OF small(5)] Let_def)
    apply (rule sim_then [OF rin], assumption, simp only: ob(2))
    apply (rule sim_then [OF rout], assumption, assumption)
    apply (rule sim_charge, assumption)
    apply (simp only: tiff_step_def)
    apply (subst bits_of_word_mask [OF w, symmetric])
    apply (rule wr, assumption, simp only:)
    done
  then show ?thesis by (rule simulates_mono) auto
qed

lemma tiff_copy_sim:
  assumes "buf_ok ob" "host_ok h"
  shows "simulates h (2 * length row) (length row) ob (tiff_copy h row ob) (Inr ((), ob_bytes ob @ row))"
  using assms(1)
proof (induction row arbitrary: ob)
  case (Cons x row)
  have "simulates h (1 + (1 + 2 * length row)) (1 + length row) ob (tiff_copy h (x # row) ob)
      (Inr ((), ob_bytes ob @ x # row))"
    unfolding tiff_copy.simps
    apply (rule sim_consume [OF Cons.prems])
    apply (rule sim_push [OF _ assms(2)], assumption)
    subgoal for o1 o2 using Cons.IH [of o2] by simp
    done
  then show ?case by simp
qed simp

lemma tiff_samples_sim:
  assumes "buf_ok ob" "ob_bytes ob = pre @ out" "length out = length row" "w \<le> 16"
    "8 * length (ob_bytes ob) + w \<le> u64_max"
    "\<And>i. i \<in> set is \<Longrightarrow> colors \<le> i \<and> (i + 1) * w \<le> 8 * length row"
  shows "simulates h ((2 + 3 * w) * length is) 0 ob
    (tiff_samples h idx row (length pre) colors w is ob)
    (Inr ((), pre @ foldl (tiff_step w colors row) out is))"
  using assms
proof (induction "is" arbitrary: ob out)
  case Nil
  then show ?case by (metis foldl_Nil simulates_return tiff_samples.simps(1))
next
  case (Cons i "is")
  have "simulates h ((2 + 3 * w) + (2 + 3 * w) * length is) (0 + 0) ob
      (tiff_samples h idx row (length pre) colors w (i # is) ob)
      (Inr ((), pre @ foldl (tiff_step w colors row) (tiff_step w colors row out i) is))"
    unfolding tiff_samples.simps
  proof (rule sim_then)
    show "simulates h (2 + 3 * w) 0 ob (reconstruct_tiff_sample h row (length pre) i colors w idx ob)
        (Inr ((), pre @ tiff_step w colors row out i))"
      by (rule reconstruct_tiff_sample_sim) (use Cons.prems in auto)
    fix o' assume "buf_ok o'" "ob_bytes o' = pre @ tiff_step w colors row out i"
    then show "simulates h ((2 + 3 * w) * length is) 0 o' (tiff_samples h idx row (length pre) colors w is o')
        (Inr ((), pre @ foldl (tiff_step w colors row) (tiff_step w colors row out i) is))"
      by (intro Cons.IH) (use Cons.prems in auto)
  qed
  then show ?case by simp
qed

lemma tiff_rows_sim:
  fixes g :: predictor_geometry
  defines "rb \<equiv> row_bytes g" and "n \<equiv> samples_per_row g" and "colors \<equiv> g_colors g"
  assumes h: "host_ok h" and w: "w \<le> 16" and nw: "n * w \<le> 8 * rb" "n \<le> 8 * rb"
    and ob: "buf_ok ob" and rows: "\<And>row. row \<in> set rows \<Longrightarrow> length row = rb"
  shows "simulates h (42 * rb * length rows) (rb * length rows) ob (tiff_rows h idx g w rows ob)
    (Inr ((), ob_bytes ob @ concat (map (tiff_row w colors n) rows)))"
  using ob rows
proof (induction rows arbitrary: ob)
  case (Cons row rows)
  have len: "length row = rb" using Cons.prems(2) by simp
  have samples: "simulates h (40 * rb) 0 o1
      (tiff_samples h idx row (length (ob_bytes ob)) colors w [colors..<n] o1)
      (Inr ((), ob_bytes ob @ tiff_row w colors n row))"
    if o1: "buf_ok o1" "ob_bytes o1 = ob_bytes ob @ row" for o1
  proof -
    have "length (ob_bytes o1) * 16 < u64_max"
      using o1(1) by (auto simp: buf_ok_def budget_ok_def decode_limits_ok_def)
    then have fits: "8 * length (ob_bytes o1) + w \<le> u64_max" using w by (simp add: u64_max_def)
    have in_row: "(i + 1) * w \<le> 8 * length row" if "i < n" for i
      using mult_le_mono1 [of "i + 1" n w] that nw(1) len by simp
    have "(2 + 3 * w) * (n - colors) \<le> (2 + 3 * w) * n" by (intro mult_le_mono2) simp
    also have "\<dots> = 2 * n + 3 * (n * w)" by (simp add: algebra_simps)
    also have "\<dots> \<le> 40 * rb" using nw by linarith
    finally have cost: "(2 + 3 * w) * (n - colors) \<le> 40 * rb" .
    have "simulates h ((2 + 3 * w) * length [colors..<n]) 0 o1
      (tiff_samples h idx row (length (ob_bytes ob)) colors w [colors..<n] o1)
      (Inr ((), ob_bytes ob @ foldl (tiff_step w colors row) row [colors..<n]))"
      by (rule tiff_samples_sim [OF o1 refl w fits]) (use in_row in auto)
    then show ?thesis unfolding tiff_row_def [symmetric]
      by (rule simulates_mono) (use cost in auto)
  qed
  have "simulates h (2 * length row + (40 * rb + 42 * rb * length rows)) (length row + (0 + rb * length rows)) ob
      (tiff_rows h idx g w (row # rows) ob)
      (Inr ((), ob_bytes ob @ concat (map (tiff_row w colors n) (row # rows))))"
    unfolding tiff_rows.simps Let_def colors_def [symmetric] n_def [symmetric]
  proof (rule sim_then [OF tiff_copy_sim [OF Cons.prems(1) h]], rule sim_then [OF samples], assumption,
      assumption, goal_cases)
    case (1 o1 o2)
    have "simulates h (42 * rb * length rows) (rb * length rows) o2 (tiff_rows h idx g w rows o2)
      (Inr ((), ob_bytes o2 @ concat (map (tiff_row w colors n) rows)))"
      by (rule Cons.IH [OF 1(3)]) (use Cons.prems(2) in auto)
    then show ?case using 1(4) by simp
  qed
  then show ?case
    by (rule simulates_mono) (simp_all add: len algebra_simps)
qed simp

lemma chunks_exact_facts:
  assumes "0 < n" "length xs mod n = 0"
  shows "(\<forall>c \<in> set (chunks_exact n xs). length c = n) \<and> concat (chunks_exact n xs) = xs \<and>
    n * length (chunks_exact n xs) = length xs"
  using assms(2)
proof (induction "length xs" arbitrary: xs rule: less_induct)
  case less
  show ?case
  proof (cases "length xs < n")
    case True
    then have "xs = []" using less.prems by simp
    then show ?thesis using assms(1) by (simp add: chunks_exact.simps [of n])
  next
    case False
    have "length (drop n xs) < length xs" "length (drop n xs) mod n = 0"
      using False assms(1) less.prems by (auto simp: le_mod_geq not_less)
    from less.hyps [OF this] have IH: "\<forall>c \<in> set (chunks_exact n (drop n xs)). length c = n"
      "concat (chunks_exact n (drop n xs)) = drop n xs"
      "n * length (chunks_exact n (drop n xs)) = length (drop n xs)" by auto
    have eq: "chunks_exact n xs = take n xs # chunks_exact n (drop n xs)"
      using False assms(1) by (subst chunks_exact.simps) simp
    have "n * length (take n xs # chunks_exact n (drop n xs)) = n + length (drop n xs)"
      by (simp only: length_Cons mult_Suc_right IH(3))
    also have "\<dots> = length xs" using False by simp
    finally have count: "n * length (chunks_exact n xs) = length xs" unfolding eq .
    have "concat (chunks_exact n xs) = xs" unfolding eq concat.simps IH(2) by (rule append_take_drop_id)
    moreover have "length (take n xs) = n" using False by simp
    ultimately show ?thesis using count IH(1) unfolding eq by (metis set_ConsD)
  qed
qed

lemma geometry_sample_bits:
  assumes "predictor_ok p"
  shows "samples_per_row (geometry_of p) * pp_bits_per_component p \<le> 8 * row_bytes (geometry_of p)"
    "samples_per_row (geometry_of p) \<le> 8 * row_bytes (geometry_of p)" "pp_bits_per_component p \<le> 16"
    "0 < pp_bits_per_component p"
proof -
  let ?s = "samples_per_row (geometry_of p)" and ?w = "pp_bits_per_component p"
  show w: "?w \<le> 16" "0 < ?w" using assms by (auto simp: predictor_ok_def)
  have up: "x \<le> 8 * ((x + 7) div 8)" for x :: nat by linarith
  from up [of "?s * ?w"] show 1: "?s * ?w \<le> 8 * row_bytes (geometry_of p)"
    by (simp add: geometry_of_def)
  have "?s * 1 \<le> ?s * ?w" using w(2) by (intro mult_le_mono2) simp
  with 1 show "?s \<le> 8 * row_bytes (geometry_of p)" by linarith
qed

lemma decode_tiff_sim:
  fixes final :: bool and idx :: nat and input :: "u8 list"
  assumes h: "host_ok h" and p: "predictor_ok p" and b: "budget_ok b"
    "incap \<le> max_retained_capacity_bytes (b_limits b)"
  defines "ob \<equiv> output_buffer_new incap final (Some idx) (length input) b"
  shows "simulates h (1 + 42 * length input) (length input) ob
      (and_then (charge_algorithm h 1 ob) (\<lambda>(_, ob).
        and_then (geometry_new p idx) (\<lambda>g.
          if length input mod row_bytes g \<noteq> 0 then Inl (invalid_data idx)
          else tiff_rows h idx g (pp_bits_per_component p) (chunks_exact (row_bytes g) input) ob)))
      (and_then (tiff_reference p idx input) (\<lambda>out. Inr ((), out)))"
proof -
  let ?g = "geometry_of p"
  note geo = geometry_new_ok [OF p] and bits = geometry_sample_bits [OF p]
  have ok: "buf_ok ob" "ob_bytes ob = []"
    using buf_ok_new [OF b] by (simp_all add: ob_def output_buffer_new_def)
  show ?thesis
  proof (rule sim_charge [OF ok(1)], goal_cases)
    case (1 o1)
    show ?case
    proof (cases "length input mod row_bytes ?g = 0")
      case True
      note ch = chunks_exact_facts [OF geo(2) True]
      let ?rows = "chunks_exact (row_bytes ?g) input"
      have "simulates h (42 * row_bytes ?g * length ?rows) (row_bytes ?g * length ?rows) o1
          (tiff_rows h idx ?g (pp_bits_per_component p) ?rows o1)
          (Inr ((), ob_bytes o1 @
            concat (map (tiff_row (pp_bits_per_component p) (g_colors ?g) (samples_per_row ?g)) ?rows)))"
        by (rule tiff_rows_sim [OF h bits(3,1,2) 1(1)]) (use ch in auto)
      moreover have "42 * row_bytes ?g * length ?rows = 42 * length input"
        "row_bytes ?g * length ?rows = length input" using ch by (simp_all add: mult.assoc)
      ultimately show ?thesis
        using True 1 ok(2) geo(1) by (simp add: tiff_reference_def Let_def)
    next
      case False
      then show ?thesis using geo(1) by (simp add: tiff_reference_def Let_def)
    qed
  qed
qed

section \<open>The samples of a decoded row\<close>

lemma tiff_sample_bits:
  assumes "w \<le> 16" "k < w"
  shows "msb_bit bs (i * w + k) = bit (tiff_sample w bs i) (w - 1 - k)"
proof -
  have "map (\<lambda>k. msb_bit bs (i * w + k)) [0..<w] = bits_of_word w (tiff_sample w bs i)"
    using assms(1) by (simp add: tiff_sample_def bits_of_word_of_bits)
  from arg_cong [OF this, of "\<lambda>xs. xs ! k"] show ?thesis
    using assms(2) by (simp add: bits_of_word_def)
qed

lemma slot_unique:
  assumes "i * w \<le> j * w + k" "j * w + k < i * w + w" "k < (w :: nat)"
  shows "i = j"
proof -
  have "i * w < (j + 1) * w" "j * w < (i + 1) * w" using assms by (simp_all add: algebra_simps)
  then have "i < j + 1" "j < i + 1" by (simp_all only: mult_less_cancel2)
  then show ?thesis by simp
qed

lemma tiff_sample_put:
  assumes "w \<le> 16" "(i + 1) * w \<le> 8 * length bs"
  shows "tiff_sample w (put_bits bs (i * w) (bits_of_word w v)) j =
    (if j = i then take_bit w v else tiff_sample w bs j)"
proof -
  have len: "i * w + length (bits_of_word w v) \<le> 8 * length bs" using assms(2) by simp
  have same: "map (\<lambda>k. msb_bit (put_bits bs (i * w) (bits_of_word w v)) (i * w + k)) [0..<w] = bits_of_word w v"
    by (rule nth_equalityI) (simp_all add: msb_bit_put_bits [OF len])
  have other: "map (\<lambda>k. msb_bit (put_bits bs (i * w) (bits_of_word w v)) (j * w + k)) [0..<w] =
      map (\<lambda>k. msb_bit bs (j * w + k)) [0..<w]" if "j \<noteq> i"
  proof (rule map_cong [OF refl])
    fix k assume "k \<in> set [0..<w]"
    then have "\<not> (i * w \<le> j * w + k \<and> j * w + k < i * w + w)"
      using slot_unique [of i w j k] that by auto
    then show "msb_bit (put_bits bs (i * w) (bits_of_word w v)) (j * w + k) = msb_bit bs (j * w + k)"
      unfolding msb_bit_put_bits [OF len] length_bits_of_word by (simp only: if_False)
  qed
  show ?thesis
    unfolding tiff_sample_def
    by (cases "j = i") (simp_all only: same other if_True if_False simp_thms word_of_bits_of_word [OF assms(1)])
qed

text \<open>Writing the samples of a row one after the other: only the sample bits change.\<close>

lemma msb_bit_tiff_step:
  assumes "(i + 1) * w \<le> 8 * length out" "(i + 1) * w \<le> b"
  shows "msb_bit (tiff_step w colors row out i) b = msb_bit out b"
  using assms by (simp add: tiff_step_def msb_bit_put_bits)

lemma tiff_row_prefix:
  assumes w: "w \<le> 16" and n: "n * w \<le> 8 * length row" and c: "0 < colors" and m: "colors \<le> m" "m \<le> n"
  defines "out \<equiv> foldl (tiff_step w colors row) row [colors..<m]"
  shows "\<forall>j < n. tiff_sample w out j =
      (if j < colors \<or> m \<le> j then tiff_sample w row j
       else take_bit w (tiff_sample w row j + tiff_sample w out (j - colors)))"
    and "\<And>b. n * w \<le> b \<Longrightarrow> msb_bit out b = msb_bit row b"
proof -
  let ?o = "\<lambda>m. foldl (tiff_step w colors row) row [colors..<m]"
  have "(\<forall>j < n. tiff_sample w (?o m) j =
      (if j < colors \<or> m \<le> j then tiff_sample w row j
       else take_bit w (tiff_sample w row j + tiff_sample w (?o m) (j - colors)))) \<and>
    (\<forall>b \<ge> n * w. msb_bit (?o m) b = msb_bit row b)"
    using m
  proof (induction m rule: dec_induct)
    case (step m)
    have fits: "(m + 1) * w \<le> 8 * length (?o m)" "(m + 1) * w \<le> n * w"
      using step.prems n mult_le_mono1 [of "m + 1" n w] by simp_all
    have next_out: "?o (Suc m) = tiff_step w colors row (?o m) m"
      using step.hyps by simp
    have put: "tiff_sample w (?o (Suc m)) j = (if j = m
        then take_bit w (tiff_sample w row m + tiff_sample w (?o m) (m - colors)) else tiff_sample w (?o m) j)" for j
      unfolding next_out tiff_step_def [of w colors row "?o m" m] by (rule tiff_sample_put [OF w fits(1)])
    have old: "tiff_sample w (?o (Suc m)) (j - colors) = tiff_sample w (?o m) (j - colors)"
      if "j \<le> m" "colors \<le> j" for j
    proof -
      have "j - colors \<noteq> m" using that c by linarith
      then show ?thesis using put [of "j - colors"] by (simp only: if_False)
    qed
    have bits: "msb_bit (?o (Suc m)) b = msb_bit row b" if "n * w \<le> b" for b
      unfolding next_out using msb_bit_tiff_step [OF fits(1), of b] fits(2) that step.IH step.prems by auto
    show ?case
    proof (intro conjI allI impI)
      fix j assume j: "j < n"
      show "tiff_sample w (?o (Suc m)) j = (if j < colors \<or> Suc m \<le> j then tiff_sample w row j
         else take_bit w (tiff_sample w row j + tiff_sample w (?o (Suc m)) (j - colors)))"
        using put [of j] old [of j] step.IH step.prems step.hyps(1) j
        by (cases "j = m") (auto simp: not_le)
    qed (rule bits)
  qed auto
  then show "\<forall>j < n. tiff_sample w out j =
      (if j < colors \<or> m \<le> j then tiff_sample w row j
       else take_bit w (tiff_sample w row j + tiff_sample w out (j - colors)))"
    "\<And>b. n * w \<le> b \<Longrightarrow> msb_bit out b = msb_bit row b"
    unfolding out_def by blast+
qed

lemma tiff_row_samples:
  assumes "w \<le> 16" "n * w \<le> 8 * length row" "0 < colors" "colors \<le> n" "j < n"
  shows "tiff_sample w (tiff_row w colors n row) j =
    (if j < colors then tiff_sample w row j
     else take_bit w (tiff_sample w row j + tiff_sample w (tiff_row w colors n row) (j - colors)))"
  using tiff_row_prefix(1) [OF assms(1-4) order_refl] assms(5) unfolding tiff_row_def by auto

text \<open>A row is determined by its samples and its padding bits.\<close>

lemma row_eqI:
  assumes "w \<le> 16" "length x = length y" "\<And>j. j < n \<Longrightarrow> tiff_sample w x j = tiff_sample w y j"
    "\<And>b. n * w \<le> b \<Longrightarrow> msb_bit x b = msb_bit y b" "0 < w"
  shows "x = y"
proof (rule bytes_eqI [OF assms(2)])
  fix b
  show "msb_bit x b = msb_bit y b"
  proof (cases "b < n * w")
    case True
    have b: "b = (b div w) * w + b mod w" "b mod w < w" "b div w < n"
      using True assms(5) by (simp_all add: less_mult_imp_div_less)
    then show ?thesis
      using tiff_sample_bits [OF assms(1) b(2)] assms(3) [OF b(3)] by metis
  qed (use assms(4) in simp)
qed

subsection \<open>Differences and their reconstruction\<close>

definition tiff_encode_row :: "nat \<Rightarrow> nat \<Rightarrow> nat \<Rightarrow> u8 list \<Rightarrow> u8 list" where
  "tiff_encode_row w colors n row =
     foldl (\<lambda>out i. put_bits out (i * w)
       (bits_of_word w (tiff_sample w row i - tiff_sample w row (i - colors)))) row [colors..<n]"

lemma tiff_encode_prefix:
  assumes w: "w \<le> 16" and n: "n * w \<le> 8 * length row" and m: "colors \<le> m" "m \<le> n"
  defines "out \<equiv> foldl (\<lambda>out i. put_bits out (i * w)
       (bits_of_word w (tiff_sample w row i - tiff_sample w row (i - colors)))) row [colors..<m]"
  shows "length out = length row \<and>
    (\<forall>j. tiff_sample w out j = (if j < colors \<or> m \<le> j then tiff_sample w row j
       else take_bit w (tiff_sample w row j - tiff_sample w row (j - colors)))) \<and>
    (\<forall>b \<ge> n * w. msb_bit out b = msb_bit row b)"
  unfolding out_def using m
proof (induction m rule: dec_induct)
  case (step m)
  let ?f = "\<lambda>out i. put_bits out (i * w)
       (bits_of_word w (tiff_sample w row i - tiff_sample w row (i - colors)))"
  let ?o = "foldl ?f row [colors..<m]"
  have IH: "length ?o = length row"
    "\<And>j. tiff_sample w ?o j = (if j < colors \<or> m \<le> j then tiff_sample w row j
       else take_bit w (tiff_sample w row j - tiff_sample w row (j - colors)))"
    "\<And>b. n * w \<le> b \<Longrightarrow> msb_bit ?o b = msb_bit row b"
    using step.IH step.prems by auto
  have fits: "(m + 1) * w \<le> 8 * length ?o" "(m + 1) * w \<le> n * w"
    using step.prems n mult_le_mono1 [of "m + 1" n w] IH(1) by simp_all
  have next_out: "foldl ?f row [colors..<Suc m] = ?f ?o m" using step.hyps by simp
  have "msb_bit (?f ?o m) b = msb_bit row b" if "n * w \<le> b" for b
    using fits that IH(3) [OF that] by (simp add: msb_bit_put_bits)
  moreover have "tiff_sample w (?f ?o m) j = (if j < colors \<or> Suc m \<le> j then tiff_sample w row j
       else take_bit w (tiff_sample w row j - tiff_sample w row (j - colors)))" for j
    using tiff_sample_put [OF w fits(1)] IH(2) [of j] step.hyps(1) by auto
  ultimately show ?case unfolding next_out using IH(1) by simp
qed auto

lemma length_tiff_encode_row [simp]: "length (tiff_encode_row w colors n row) = length row"
proof -
  have "length (foldl (\<lambda>out i. put_bits out (i * w) (f i)) bs is) = length bs" for f bs "is"
    by (induction "is" arbitrary: bs) auto
  then show ?thesis by (simp add: tiff_encode_row_def)
qed

lemma take_bit_add_u16:
  assumes "w \<le> 16" shows "take_bit w (take_bit w x + take_bit w y) = take_bit w (x + y :: u16)"
proof -
  have dvd: "(2 :: nat) ^ w dvd 2 ^ 16" using assms by (rule le_imp_power_dvd)
  have un: "unat (take_bit w (a + b :: u16)) = (unat a + unat b) mod 2 ^ w" for a b
  proof -
    have "unat (take_bit w (a + b)) = ((unat a + unat b) mod 2 ^ 16) mod 2 ^ w"
      unfolding unsigned_take_bit_eq unat_word_ariths take_bit_eq_mod [where 'a = nat] by simp
    also have "\<dots> = (unat a + unat b) mod 2 ^ w" by (rule mod_mod_cancel [OF dvd])
    finally show ?thesis .
  qed
  have tb: "unat (take_bit w x) = unat x mod 2 ^ w" for x :: u16
    unfolding unsigned_take_bit_eq take_bit_eq_mod [where 'a = nat] ..
  have "unat (take_bit w (take_bit w x + take_bit w y)) = unat (take_bit w (x + y))"
    unfolding un unfolding tb by (rule mod_add_eq)
  then show ?thesis by (simp only: word_unat_eq_iff)
qed

lemma take_bit_diff_add:
  assumes "w \<le> 16" shows "take_bit w (take_bit w (a - b) + (b :: u16)) = take_bit w a"
proof -
  have "take_bit w (take_bit w (a - b) + b) = take_bit w (take_bit w (take_bit w (a - b)) + take_bit w b)"
    by (rule take_bit_add_u16 [OF assms, symmetric])
  also have "\<dots> = take_bit w (a - b + b)" by (simp add: take_bit_add_u16 [OF assms])
  finally show ?thesis by simp
qed

lemma tiff_sample_bound: "w \<le> 16 \<Longrightarrow> take_bit w (tiff_sample w bs j) = tiff_sample w bs j"
  unfolding tiff_sample_def
  by (subst word_of_bits_of_word [symmetric], assumption, subst bits_of_word_of_bits) simp_all

lemma tiff_row_round_trip:
  assumes w: "w \<le> 16" "0 < w" and n: "n * w \<le> 8 * length row" and c: "0 < colors" "colors \<le> n"
  shows "tiff_row w colors n (tiff_encode_row w colors n row) = row"
proof (rule row_eqI [OF w(1) _ _ _ w(2), where n = n])
  let ?e = "tiff_encode_row w colors n row"
  note enc = tiff_encode_prefix [OF w(1) n c(2) order_refl, folded tiff_encode_row_def]
  have ne: "n * w \<le> 8 * length ?e" using n by simp
  have pad: "msb_bit (tiff_row w colors n ?e) b = msb_bit ?e b" if "n * w \<le> b" for b
    using tiff_row_prefix(2) [OF w(1) ne c order_refl that] by (simp add: tiff_row_def)
  show "msb_bit (tiff_row w colors n ?e) b = msb_bit row b" if "n * w \<le> b" for b
    using pad [OF that] enc that by simp
  show "tiff_sample w (tiff_row w colors n ?e) j = tiff_sample w row j" if "j < n" for j
    using that
  proof (induction j rule: less_induct)
    case (less j)
    show ?case
    proof (cases "j < colors")
      case True
      then show ?thesis using tiff_row_samples [OF w(1) ne c less.prems] enc by simp
    next
      case False
      have "tiff_sample w (tiff_row w colors n ?e) (j - colors) = tiff_sample w row (j - colors)"
        using less.IH [of "j - colors"] False c less.prems by simp
      then have "tiff_sample w (tiff_row w colors n ?e) j =
          take_bit w (take_bit w (tiff_sample w row j - tiff_sample w row (j - colors)) +
            tiff_sample w row (j - colors))"
        using tiff_row_samples [OF w(1) ne c less.prems] False enc less.prems by simp
      then show ?thesis by (simp add: take_bit_diff_add [OF w(1)] tiff_sample_bound [OF w(1)])
    qed
  qed
qed simp

section \<open>The predictor as a layer\<close>

definition predictor_reference :: "predictor_parameters \<Rightarrow> nat \<Rightarrow> u8 list \<Rightarrow> decode_error + u8 list" where
  "predictor_reference p idx input =
     (if pp_predictor p = 2 then tiff_reference p idx input
      else if pp_predictor p \<ge> 10 then png_reference p idx input
      else Inl (for_code InternalState (Some idx)))"

lemma predictor_layer:
  assumes p: "predictor_ok p"
  shows "filter_layer (\<lambda>h. decode_predictor h p) (predictor_reference p)"
proof
  fix h b incap and input :: "u8 list" and final idx
  assume ok: "host_ok h" "budget_ok b" "incap \<le> max_retained_capacity_bytes (b_limits b)"
    "length input \<le> u64_max"
  note tiff = layer_of_sim [OF decode_tiff_sim [OF ok(1) p ok(2,3)]]
    and png = layer_of_sim [OF decode_png_sim [OF ok(1) p ok(2-4)]]
  show "layer_done incap final b v b' \<and> predictor_reference p idx input = Inr (vec_bytes v)"
    if "decode_predictor h p input incap final idx b = Inr (v, b')" for v b'
    using that tiff(1) png(1)
    by (auto simp: decode_predictor_def predictor_reference_def decode_tiff_def decode_png_def Let_def
        split: if_splits)
  show "is_host_error e \<or> predictor_reference p idx input = Inl e"
    if "decode_predictor h p input incap final idx b = Inl e" for e
    using that tiff(2) png(2)
    by (auto simp: decode_predictor_def predictor_reference_def decode_tiff_def decode_png_def Let_def
        split: if_splits)
qed

end
