(* ===== verification/Filt_Prefix.thy ===== *)
theory Filt_Prefix
  imports Prelude "HOL-Library.Sublist"
begin

text \<open>
  Prefix codes over bits: the sets of code words that Huffman tables decode. A set of words no one
  of which is a prefix of another weighs at most one in the sense of Kraft, and when it weighs
  exactly one its prefix tree has one node less than twice the number of words.
\<close>

section \<open>Prefix-free sets of words\<close>

definition prefix_free :: "bool list set \<Rightarrow> bool" where
  "prefix_free C \<longleftrightarrow> (\<forall>x \<in> C. \<forall>y \<in> C. prefix x y \<longrightarrow> x = y)"

definition prefixes_of :: "bool list set \<Rightarrow> bool list set" where
  "prefixes_of C = {p. \<exists>c \<in> C. prefix p c}"

definition branch :: "bool \<Rightarrow> bool list set \<Rightarrow> bool list set" where
  "branch b C = {c. b # c \<in> C}"

definition weight :: "nat \<Rightarrow> bool list set \<Rightarrow> nat" where
  "weight n C = (\<Sum>c \<in> C. 2 ^ (n - length c))"

lemma prefix_freeD: "prefix_free C \<Longrightarrow> x \<in> C \<Longrightarrow> y \<in> C \<Longrightarrow> prefix x y \<Longrightarrow> x = y"
  by (simp add: prefix_free_def)

lemma prefix_free_branch: "prefix_free C \<Longrightarrow> prefix_free (branch b C)"
  unfolding prefix_free_def branch_def mem_Collect_eq
  by (intro ballI impI) (metis Cons_prefix_Cons list.inject mem_Collect_eq)

lemma prefix_free_Nil: "prefix_free C \<Longrightarrow> [] \<in> C \<Longrightarrow> C = {[]}"
  by (metis (no_types, lifting) Nil_prefix empty_iff insert_iff prefix_freeD subsetI subset_antisym)

lemma split_branches: "[] \<notin> C \<Longrightarrow> C = Cons False ` branch False C \<union> Cons True ` branch True C"
proof -
  assume no: "[] \<notin> C"
  have "x \<in> Cons False ` branch False C \<union> Cons True ` branch True C" if "x \<in> C" for x
    using that no by (cases x; cases "hd x") (auto simp: branch_def)
  then show ?thesis by (auto simp: branch_def)
qed

lemma finite_branch: "finite C \<Longrightarrow> finite (branch b C)"
  using finite_vimageI [of C "Cons b"] by (simp add: branch_def vimage_def inj_def)

lemma weight_split:
  assumes "finite C" "[] \<notin> C"
  shows "weight (Suc n) C = weight n (branch False C) + weight n (branch True C)"
    "card C = card (branch False C) + card (branch True C)"
proof -
  let ?F = "branch False C" and ?T = "branch True C"
  have inj: "inj_on (Cons b) S" for b :: bool and S by (simp add: inj_on_def)
  have disj: "Cons False ` ?F \<inter> Cons True ` ?T = {}" by auto
  have fin: "finite (Cons b ` branch b C)" for b using assms(1) by (simp add: finite_branch)
  have sums: "(\<Sum>c \<in> C. f c) = (\<Sum>c \<in> ?F. f (False # c)) + (\<Sum>c \<in> ?T. f (True # c))"
    for f :: "bool list \<Rightarrow> nat"
    by (subst split_branches [OF assms(2)])
      (simp add: sum.union_disjoint [OF fin fin disj] sum.reindex [OF inj])
  show "weight (Suc n) C = weight n ?F + weight n ?T" using sums by (simp add: weight_def)
  show "card C = card ?F + card ?T" using sums [of "\<lambda>_. 1"] by simp
qed

lemma branch_lengths: "\<forall>c \<in> C. length c \<le> Suc n \<Longrightarrow> \<forall>c \<in> branch b C. length c \<le> n"
  by (auto simp: branch_def)

text \<open>Kraft's inequality.\<close>

lemma kraft:
  assumes "finite C" "prefix_free C" "\<forall>c \<in> C. length c \<le> n"
  shows "weight n C \<le> 2 ^ n"
  using assms
proof (induction n arbitrary: C)
  case 0
  then have "C \<subseteq> {[]}" by auto
  then have "C = {} \<or> C = {[]}" by blast
  then show ?case by (auto simp: weight_def)
next
  case (Suc n)
  show ?case
  proof (cases "[] \<in> C")
    case True
    then show ?thesis using prefix_free_Nil [OF Suc.prems(2)] by (simp add: weight_def)
  next
    case False
    have "weight n (branch b C) \<le> 2 ^ n" for b
      using Suc.IH [OF finite_branch prefix_free_branch branch_lengths] Suc.prems by blast
    from this [of False] this [of True] show ?thesis
      using weight_split(1) [OF Suc.prems(1) False] by simp
  qed
qed

section \<open>Nodes of the prefix tree\<close>

lemma prefixes_of_split:
  assumes "[] \<notin> C" "C \<noteq> {}"
  shows "prefixes_of C = insert [] (Cons False ` prefixes_of (branch False C) \<union>
    Cons True ` prefixes_of (branch True C))"
proof (rule set_eqI)
  fix p
  show "p \<in> prefixes_of C \<longleftrightarrow> p \<in> insert [] (Cons False ` prefixes_of (branch False C) \<union>
    Cons True ` prefixes_of (branch True C))"
  proof (cases p)
    case Nil
    then show ?thesis using assms(2) by (auto simp: prefixes_of_def)
  next
    case (Cons b q)
    have "b # q \<in> prefixes_of C \<longleftrightarrow> q \<in> prefixes_of (branch b C)"
    proof
      assume "b # q \<in> prefixes_of C"
      then obtain c where "c \<in> C" "prefix (b # q) c" by (auto simp: prefixes_of_def)
      then show "q \<in> prefixes_of (branch b C)"
        by (cases c) (auto simp: prefixes_of_def branch_def)
    next
      assume "q \<in> prefixes_of (branch b C)"
      then obtain c where "b # c \<in> C" "prefix (b # q) (b # c)" by (auto simp: prefixes_of_def branch_def)
      then show "b # q \<in> prefixes_of C" unfolding prefixes_of_def by blast
    qed
    then show ?thesis using Cons by (cases b) auto
  qed
qed

lemma finite_prefixes_of: "finite C \<Longrightarrow> finite (prefixes_of C)"
proof -
  assume "finite C"
  moreover have "prefixes_of C = (\<Union>c \<in> C. set (prefixes c))" by (auto simp: prefixes_of_def)
  ultimately show ?thesis by simp
qed

lemma prefixes_of_mono: "C \<subseteq> D \<Longrightarrow> prefixes_of C \<subseteq> prefixes_of D"
  by (auto simp: prefixes_of_def)

lemma complete_nodes:
  assumes "finite C" "prefix_free C" "\<forall>c \<in> C. length c \<le> n" "weight n C = 2 ^ n"
  shows "C \<noteq> {} \<and> card (prefixes_of C) + 1 = 2 * card C"
  using assms
proof (induction n arbitrary: C)
  case 0
  then have "C \<subseteq> {[]}" by auto
  moreover have "C \<noteq> {}" using 0(4) by (auto simp: weight_def)
  ultimately have "C = {[]}" by blast
  moreover have "prefixes_of {[]} = {[]}" by (auto simp: prefixes_of_def)
  ultimately show ?case by simp
next
  case (Suc n)
  show ?case
  proof (cases "[] \<in> C")
    case True
    then have "C = {[]}" by (rule prefix_free_Nil [OF Suc.prems(2)])
    then show ?thesis by (auto simp: prefixes_of_def)
  next
    case False
    note split = weight_split [OF Suc.prems(1) False]
    note sub = finite_branch [OF Suc.prems(1)] prefix_free_branch [OF Suc.prems(2)]
      branch_lengths [OF Suc.prems(3)]
    have "weight n (branch b C) \<le> 2 ^ n" for b by (rule kraft [OF sub])
    from this [of False] this [of True]
    have full: "weight n (branch False C) = 2 ^ n" "weight n (branch True C) = 2 ^ n"
      using Suc.prems(4) split(1) by simp_all
    note IH = Suc.IH [OF sub full(1)] Suc.IH [OF sub full(2)]
    have ne: "C \<noteq> {}" using IH(1) by (auto simp: branch_def)
    have fin: "finite (prefixes_of (branch b C))" for b by (rule finite_prefixes_of [OF sub(1)])
    have inj: "inj_on (Cons b) S" for b :: bool and S by (simp add: inj_on_def)
    have "card (Cons False ` prefixes_of (branch False C) \<union> Cons True ` prefixes_of (branch True C)) =
        card (Cons False ` prefixes_of (branch False C)) + card (Cons True ` prefixes_of (branch True C))"
      by (rule card_Un_disjoint) (use fin in auto)
    then have "card (prefixes_of C) =
        Suc (card (prefixes_of (branch False C)) + card (prefixes_of (branch True C)))"
      unfolding prefixes_of_split [OF False ne]
      using fin by (subst card_insert_disjoint) (auto simp: card_image [OF inj])
    then show ?thesis using IH ne split(2) by simp
  qed
qed

end
