(* ===== verification/Filt_Huffman.thy ===== *)
theory Filt_Huffman
  imports Filt_Budget Filt_Prefix
begin

text \<open>
  Canonical Huffman tables (\<open>Huffman\<close> of \<open>pdf-rs/filters/src/flate.rs\<close>): the array of nodes, its
  construction from code lengths, and the proof that construction succeeds exactly on the code
  lengths of a complete code (or of one of the two exceptions) and then holds the canonical code
  words. Small machine integers (\<open>u16\<close>, \<open>i32\<close>) are numbers with their checks written out.
\<close>

section \<open>Tables\<close>

definition max_code_bits :: nat where "max_code_bits = 15"
definition max_huffman_symbols :: nat where "max_huffman_symbols = 288"
definition max_huffman_nodes :: nat where "max_huffman_nodes = max_huffman_symbols * 2"
definition no_child :: nat where "no_child = 65535"

record huffman_node =
  children :: "nat list"
  symbol :: "nat option"

definition empty_node :: huffman_node where
  "empty_node = \<lparr>children = [no_child, no_child], symbol = None\<rparr>"

record huffman =
  nodes :: "huffman_node list"
  is_empty :: bool

definition invalid_flate :: "nat \<Rightarrow> decode_error" where
  "invalid_flate idx = for_code InvalidFlate (Some idx)"

definition checked_add16 :: "nat \<Rightarrow> nat \<Rightarrow> nat option" where
  "checked_add16 a b = (if a + b \<le> 65535 then Some (a + b) else None)"

definition checked_mul16 :: "nat \<Rightarrow> nat \<Rightarrow> nat option" where
  "checked_mul16 a b = (if a * b \<le> 65535 then Some (a * b) else None)"

definition u16_try_from :: "nat \<Rightarrow> nat option" where
  "u16_try_from v = (if v \<le> 65535 then Some v else None)"

definition i32_checked :: "int \<Rightarrow> int option" where
  "i32_checked v = (if - 2147483648 \<le> v \<and> v \<le> 2147483647 then Some v else None)"

section \<open>Construction\<close>

fun count_lengths ::
  "host \<Rightarrow> nat \<Rightarrow> u8 list \<Rightarrow> nat list \<Rightarrow> nat \<Rightarrow> nat \<Rightarrow> output_buffer \<Rightarrow> (nat list \<times> nat \<times> nat) decoding" where
  "count_lengths h idx [] counts symbol_count max_length ob = Inr ((counts, symbol_count, max_length), ob)"
| "count_lengths h idx (len # lengths) counts symbol_count max_length ob =
     and_then (charge_algorithm h 1 ob) (\<lambda>(_, ob).
       if unat len > max_code_bits then Inl (invalid_flate idx)
       else if len \<noteq> 0
       then and_then (ok_or (if symbol_count + 1 \<le> 4294967295 then Some (symbol_count + 1) else None)
                (invalid_flate idx)) (\<lambda>symbol_count.
              count_lengths h idx lengths (counts[unat len := counts ! unat len + 1])
                symbol_count (max max_length (unat len)) ob)
       else count_lengths h idx lengths counts symbol_count max_length ob)"

fun kraft_loop :: "host \<Rightarrow> nat \<Rightarrow> nat list \<Rightarrow> int \<Rightarrow> output_buffer \<Rightarrow> int decoding" where
  "kraft_loop h idx [] remaining ob = Inr (remaining, ob)"
| "kraft_loop h idx (count # counts) remaining ob =
     and_then (charge_algorithm h 1 ob) (\<lambda>(_, ob).
     and_then (ok_or (Option.bind (i32_checked (remaining * 2)) (\<lambda>v. i32_checked (v - int count)))
        (invalid_flate idx)) (\<lambda>remaining.
       if remaining < 0 then Inl (invalid_flate idx)
       else kraft_loop h idx counts remaining ob))"

fun next_code_loop ::
  "host \<Rightarrow> nat \<Rightarrow> nat list \<Rightarrow> nat list \<Rightarrow> nat \<Rightarrow> nat list \<Rightarrow> output_buffer \<Rightarrow> nat list decoding" where
  "next_code_loop h idx counts [] code next_code ob = Inr (next_code, ob)"
| "next_code_loop h idx counts (bits # rest) code next_code ob =
     and_then (charge_algorithm h 1 ob) (\<lambda>(_, ob).
     and_then (ok_or (Option.bind (checked_add16 code (counts ! (bits - 1))) (\<lambda>v. checked_mul16 v 2))
        (invalid_flate idx)) (\<lambda>code.
       next_code_loop h idx counts rest code (next_code[bits := code]) ob))"

definition set_child :: "huffman_node list \<Rightarrow> nat \<Rightarrow> nat \<Rightarrow> nat \<Rightarrow> huffman_node list" where
  "set_child ns i b v = ns[i := (ns ! i)\<lparr>children := (children (ns ! i))[b := v]\<rparr>]"

definition set_symbol :: "huffman_node list \<Rightarrow> nat \<Rightarrow> nat \<Rightarrow> huffman_node list" where
  "set_symbol ns i s = ns[i := (ns ! i)\<lparr>symbol := Some s\<rparr>]"

definition insert_step ::
  "host \<Rightarrow> nat \<Rightarrow> nat \<Rightarrow> nat \<Rightarrow> nat \<Rightarrow> nat \<Rightarrow> huffman_node list \<Rightarrow> nat \<Rightarrow> nat \<Rightarrow> output_buffer
     \<Rightarrow> (huffman_node list \<times> nat \<times> nat) decoding" where
  "insert_step h idx symb canonical len depth ns node_count node_index ob =
     and_then (charge_algorithm h 1 ob) (\<lambda>(_, ob).
       let shift = len - depth - 1;
           b = (canonical div 2 ^ shift) mod 2;
           is_leaf = (depth + 1 = len);
           existing = children (ns ! node_index) ! b
       in if existing = no_child
          then if node_count \<ge> max_huffman_nodes then Inl (invalid_flate idx)
               else and_then (ok_or (u16_try_from node_count) (invalid_flate idx)) (\<lambda>new_index.
                 let ns' = set_child ns node_index b new_index in
                 and_then (if is_leaf
                   then and_then (ok_or (u16_try_from symb) (invalid_flate idx))
                          (\<lambda>leaf. Inr (set_symbol ns' node_count leaf))
                   else Inr ns') (\<lambda>ns'.
                 Inr ((ns', node_count + 1, node_count), ob)))
          else if is_leaf \<or> symbol (ns ! existing) \<noteq> None then Inl (invalid_flate idx)
          else Inr ((ns, node_count, existing), ob))"

fun insert_path ::
  "host \<Rightarrow> nat \<Rightarrow> nat \<Rightarrow> nat \<Rightarrow> nat \<Rightarrow> nat list \<Rightarrow> huffman_node list \<Rightarrow> nat \<Rightarrow> nat \<Rightarrow> output_buffer
     \<Rightarrow> (huffman_node list \<times> nat) decoding" where
  "insert_path h idx symb canonical len [] ns node_count node_index ob = Inr ((ns, node_count), ob)"
| "insert_path h idx symb canonical len (depth # depths) ns node_count node_index ob =
     and_then (insert_step h idx symb canonical len depth ns node_count node_index ob)
       (\<lambda>((ns, node_count, node_index), ob).
          insert_path h idx symb canonical len depths ns node_count node_index ob)"

fun insert_symbols ::
  "host \<Rightarrow> nat \<Rightarrow> nat \<Rightarrow> u8 list \<Rightarrow> nat list \<Rightarrow> huffman_node list \<Rightarrow> nat \<Rightarrow> output_buffer
     \<Rightarrow> (huffman_node list \<times> nat) decoding" where
  "insert_symbols h idx symb [] next_code ns node_count ob = Inr ((ns, node_count), ob)"
| "insert_symbols h idx symb (len # lengths) next_code ns node_count ob =
     (if len = 0 then insert_symbols h idx (symb + 1) lengths next_code ns node_count ob
      else let length_index = unat len; canonical = next_code ! length_index in
        and_then (ok_or (checked_add16 canonical 1) (invalid_flate idx)) (\<lambda>following.
        and_then (insert_path h idx symb canonical length_index [0..<length_index] ns node_count 0 ob)
          (\<lambda>((ns, node_count), ob).
            insert_symbols h idx (symb + 1) lengths (next_code[length_index := following]) ns node_count ob)))"

definition huffman_build ::
  "host \<Rightarrow> u8 list \<Rightarrow> bool \<Rightarrow> bool \<Rightarrow> nat \<Rightarrow> output_buffer \<Rightarrow> huffman decoding" where
  "huffman_build h lengths allow_empty allow_single_incomplete idx ob =
     (if length lengths > max_huffman_symbols then Inl (invalid_flate idx)
      else and_then (count_lengths h idx lengths (replicate (max_code_bits + 1) 0) 0 0 ob)
      (\<lambda>((counts, symbol_count, max_length), ob).
        if symbol_count = 0
        then if allow_empty
             then Inr (\<lparr>nodes = replicate max_huffman_nodes empty_node, is_empty = True\<rparr>, ob)
             else Inl (invalid_flate idx)
        else and_then (kraft_loop h idx (drop 1 counts) 1 ob) (\<lambda>(remaining, ob).
          if remaining > 0 \<and> \<not> (allow_single_incomplete \<and> symbol_count = 1 \<and> max_length = 1)
          then Inl (invalid_flate idx)
          else and_then (next_code_loop h idx counts [1..<max_code_bits + 1] 0
                 (replicate (max_code_bits + 1) 0) ob) (\<lambda>(next_code, ob).
            and_then (insert_symbols h idx 0 lengths next_code
                        (replicate max_huffman_nodes empty_node) 1 ob) (\<lambda>((ns, node_count), ob).
              Inr (\<lparr>nodes = ns, is_empty = False\<rparr>, ob))))))"

section \<open>The table as a tree of words\<close>

definition child :: "huffman_node list \<Rightarrow> nat \<Rightarrow> bool \<Rightarrow> nat" where
  "child ns i b = children (ns ! i) ! (if b then 1 else 0)"

fun walk :: "huffman_node list \<Rightarrow> nat \<Rightarrow> bool list \<Rightarrow> nat option" where
  "walk ns i [] = Some i"
| "walk ns i (b # bs) = (if child ns i b = no_child then None else walk ns (child ns i b) bs)"

definition tree_ok :: "huffman_node list \<Rightarrow> nat \<Rightarrow> bool" where
  "tree_ok ns n \<longleftrightarrow>
     length ns = max_huffman_nodes \<and> 0 < n \<and> n \<le> max_huffman_nodes \<and>
     (\<forall>i < max_huffman_nodes. length (children (ns ! i)) = 2) \<and>
     (\<forall>i < max_huffman_nodes. \<forall>b. child ns i b = no_child \<or> i < child ns i b \<and> child ns i b < n) \<and>
     (\<forall>i < max_huffman_nodes. \<forall>j < max_huffman_nodes. \<forall>b c.
        child ns i b = child ns j c \<longrightarrow> child ns i b \<noteq> no_child \<longrightarrow> i = j \<and> b = c) \<and>
     (\<forall>i. n \<le> i \<longrightarrow> i < max_huffman_nodes \<longrightarrow> ns ! i = empty_node) \<and>
     symbol (ns ! 0) = None \<and>
     (\<forall>i < max_huffman_nodes. \<forall>b. symbol (ns ! i) \<noteq> None \<longrightarrow> child ns i b = no_child)"

definition tree_paths :: "huffman_node list \<Rightarrow> bool list set" where
  "tree_paths ns = {bs. walk ns 0 bs \<noteq> None}"

definition tree_symbol :: "huffman_node list \<Rightarrow> bool list \<Rightarrow> nat option" where
  "tree_symbol ns bs = Option.bind (walk ns 0 bs) (\<lambda>i. symbol (ns ! i))"

text \<open>Placing one word: the pure content of the loop over the depths of a code word.\<close>

fun place ::
  "nat \<Rightarrow> bool list \<Rightarrow> huffman_node list \<Rightarrow> nat \<Rightarrow> nat \<Rightarrow> (huffman_node list \<times> nat) option" where
  "place s [] ns n i = Some (ns, n)"
| "place s (b # bs) ns n i =
     (if child ns i b = no_child
      then if max_huffman_nodes \<le> n then None
           else let ns = set_child ns i (if b then 1 else 0) n;
                    ns = (if bs = [] then set_symbol ns n s else ns)
                in place s bs ns (Suc n) n
      else if bs = [] \<or> symbol (ns ! child ns i b) \<noteq> None then None
      else place s bs ns n (child ns i b))"

lemma tree_ok_child:
  assumes "tree_ok ns n" "i < max_huffman_nodes"
  shows "child ns i b = no_child \<or> i < child ns i b \<and> child ns i b < n"
    "length (children (ns ! i)) = 2" "symbol (ns ! i) \<noteq> None \<Longrightarrow> child ns i b = no_child"
  using assms by (auto simp: tree_ok_def)

lemma tree_ok_bounds:
  assumes "tree_ok ns n"
  shows "length ns = max_huffman_nodes" "0 < n" "n \<le> max_huffman_nodes" "n < no_child"
    "symbol (ns ! 0) = None"
  using assms by (auto simp: tree_ok_def max_huffman_nodes_def max_huffman_symbols_def no_child_def)

lemma walk_append: "walk ns i (xs @ ys) = Option.bind (walk ns i xs) (\<lambda>j. walk ns j ys)"
  by (induction xs arbitrary: i) auto

lemma walk_lt: "tree_ok ns n \<Longrightarrow> i < n \<Longrightarrow> walk ns i bs = Some j \<Longrightarrow> j < n \<and> i \<le> j"
proof (induction bs arbitrary: i)
  case (Cons b bs)
  then have "i < max_huffman_nodes" using tree_ok_bounds(3) [OF Cons.prems(1)] by linarith
  with tree_ok_child(1) [OF Cons.prems(1) this, of b] Cons show ?case
    by (fastforce split: if_splits)
qed simp

text \<open>A node is reached by one word only.\<close>

lemma walk_snoc:
  "walk ns i (bs @ [b]) = Some k \<Longrightarrow> \<exists>j. walk ns i bs = Some j \<and> child ns j b = k \<and> k \<noteq> no_child"
  by (auto simp: walk_append bind_eq_Some_conv split: if_splits)

lemma walk_snoc_eq:
  "walk ns i xs = Some j \<Longrightarrow> walk ns i (xs @ [c]) = (if child ns j c = no_child then None else Some (child ns j c))"
  by (simp add: walk_append)

lemma walk_inj:
  assumes ok: "tree_ok ns n"
  shows "walk ns 0 xs = Some k \<Longrightarrow> walk ns 0 ys = Some k \<Longrightarrow> xs = ys"
proof (induction xs arbitrary: ys k rule: rev_induct)
  case Nil
  then show ?case
  proof (cases ys rule: rev_cases)
    case (snoc zs b)
    then obtain j where "walk ns 0 zs = Some j" "child ns j b = k" "k \<noteq> no_child"
      using Nil.prems walk_snoc by blast
    moreover from this(1) have "j < max_huffman_nodes"
      using walk_lt [OF ok tree_ok_bounds(2) [OF ok]] tree_ok_bounds(3) [OF ok] by fastforce
    ultimately have "0 < k" using tree_ok_child(1) [OF ok, of j b] by auto
    then show ?thesis using Nil.prems by simp
  qed simp
next
  case (snoc b xs)
  obtain j where j: "walk ns 0 xs = Some j" "child ns j b = k" "k \<noteq> no_child"
    using walk_snoc [OF snoc.prems(1)] by blast
  have node: "m < max_huffman_nodes" if "walk ns 0 zs = Some m" for zs m
    using walk_lt [OF ok tree_ok_bounds(2) [OF ok] that] tree_ok_bounds(3) [OF ok] by linarith
  have "ys \<noteq> []" using snoc.prems(2) j node [OF j(1)] tree_ok_child(1) [OF ok, of j b] by auto
  then obtain zs c where ys: "ys = zs @ [c]" by (metis rev_exhaust)
  obtain m where m: "walk ns 0 zs = Some m" "child ns m c = k"
    using walk_snoc snoc.prems(2) unfolding ys by blast
  have "j = m \<and> b = c" using ok node [OF j(1)] node [OF m(1)] j m unfolding tree_ok_def by metis
  then show ?case using snoc.IH [OF j(1)] m ys by simp
qed

subsection \<open>Adding one node\<close>

lemma child_set_child:
  assumes "tree_ok ns n" "i < max_huffman_nodes" "j < max_huffman_nodes"
  shows "child (set_child ns i (if b then 1 else 0) v) j c = (if j = i \<and> c = b then v else child ns j c)"
proof -
  have "length (children (ns ! i)) = 2" "length ns = max_huffman_nodes"
    using tree_ok_child(2) [OF assms(1,2)] tree_ok_bounds(1) [OF assms(1)] by auto
  then show ?thesis
    using assms(2,3) by (cases b; cases c; cases "j = i") (simp_all add: child_def set_child_def)
qed

lemma symbol_set_child:
  "tree_ok ns n \<Longrightarrow> j < max_huffman_nodes \<Longrightarrow> symbol (set_child ns i b v ! j) = symbol (ns ! j)"
  by (cases "i = j") (auto simp: set_child_def tree_ok_bounds(1))

lemma tree_ok_set_child:
  assumes ok: "tree_ok ns n" and i: "i < n" "symbol (ns ! i) = None" and n: "n < max_huffman_nodes"
  shows "tree_ok (set_child ns i (if b then 1 else 0) n) (Suc n)"
proof -
  let ?ns = "set_child ns i (if b then 1 else 0) n"
  have im: "i < max_huffman_nodes" using i n by simp
  note ch = child_set_child [OF ok im, where v = n]
  note old = tree_ok_child(1) [OF ok]
  have nc: "n \<noteq> no_child" using tree_ok_bounds(4) [OF ok] by simp
  have other: "?ns ! j = ns ! j" if "j \<noteq> i" for j using that by (simp add: set_child_def)
  have len: "length ?ns = max_huffman_nodes" by (simp add: set_child_def tree_ok_bounds(1) [OF ok])
  have "length (children (?ns ! j)) = 2" if "j < max_huffman_nodes" for j
    using tree_ok_child(2) [OF ok that] tree_ok_bounds(1) [OF ok] im by (cases "j = i") (simp_all add: set_child_def)
  moreover have "child ?ns j c = no_child \<or> j < child ?ns j c \<and> child ?ns j c < Suc n"
    if "j < max_huffman_nodes" for j c
    using ch [OF that, of b c] old [OF that, of c] i(1) by auto
  moreover have "j = k \<and> c = d" if "j < max_huffman_nodes" "k < max_huffman_nodes"
      "child ?ns j c = child ?ns k d" "child ?ns j c \<noteq> no_child" for j k c d
  proof -
    have inj: "child ns j c = child ns k d \<Longrightarrow> child ns j c \<noteq> no_child \<Longrightarrow> j = k \<and> c = d"
      using ok that(1,2) unfolding tree_ok_def by blast
    show ?thesis
      using that(3,4) ch [OF that(1), of b c] ch [OF that(2), of b d] old [OF that(1), of c]
        old [OF that(2), of d] inj nc
      by (auto split: if_splits)
  qed
  moreover have "?ns ! j = empty_node" if "Suc n \<le> j" "j < max_huffman_nodes" for j
    using ok that i(1) other [of j] unfolding tree_ok_def by auto
  moreover have "symbol (?ns ! 0) = None"
    using symbol_set_child [OF ok] tree_ok_bounds(5) [OF ok] n by simp
  moreover have "child ?ns j c = no_child" if "j < max_huffman_nodes" "symbol (?ns ! j) \<noteq> None" for j c
    using that i(2) ch [OF that(1), of b c] symbol_set_child [OF ok that(1)] tree_ok_child(3) [OF ok that(1)]
    by auto
  ultimately show ?thesis unfolding tree_ok_def using len n by auto
qed

lemma walk_set_child:
  assumes ok: "tree_ok ns n" and i: "walk ns 0 pre = Some i" "child ns i b = no_child"
    and n: "n < max_huffman_nodes"
  shows "walk (set_child ns i (if b then 1 else 0) n) 0 bs = (if bs = pre @ [b] then Some n else walk ns 0 bs)"
proof (induction bs rule: rev_induct)
  case (snoc c zs)
  let ?ns = "set_child ns i (if b then 1 else 0) n"
  have in_n: "j < n" if "walk ns 0 xs = Some j" for xs j
    using walk_lt [OF ok tree_ok_bounds(2) [OF ok] that] by simp
  note ch = child_set_child [OF ok less_trans [OF in_n [OF i(1)] n], where v = n]
  have nc: "n \<noteq> no_child" using tree_ok_bounds(4) [OF ok] by simp
  have gone: "walk ns 0 (pre @ [b]) = None" using i by (simp add: walk_append)
  show ?case
  proof (cases "zs = pre @ [b]")
    case True
    have "child ns n c = no_child"
      using ok n unfolding tree_ok_def by (auto simp: child_def empty_node_def)
    then have "child ?ns n c = no_child" using ch [OF n, of b c] in_n [OF i(1)] by simp
    moreover have "walk ?ns 0 zs = Some n" "walk ns 0 zs = None" using snoc True gone by simp_all
    ultimately have "walk ?ns 0 (zs @ [c]) = None" "walk ns 0 (zs @ [c]) = None"
      by (simp_all only: walk_append Option.bind.simps walk.simps if_True simp_thms)
    then show ?thesis using True by simp
  next
    case False
    then have zs: "walk ?ns 0 zs = walk ns 0 zs" using snoc by simp
    show ?thesis
    proof (cases "walk ns 0 zs")
      case None
      then have "zs \<noteq> pre" using i(1) by auto
      then show ?thesis using zs None by (simp add: walk_append)
    next
      case (Some j)
      have "zs = pre" if "j = i" using walk_inj [OF ok Some] i(1) that by simp
      moreover have "j = i" if "zs = pre" using Some i(1) that by simp
      ultimately have "j = i \<longleftrightarrow> zs = pre" by blast
      then have eq: "zs @ [c] = pre @ [b] \<longleftrightarrow> j = i \<and> c = b" by simp
      have "j < max_huffman_nodes" using in_n [OF Some] n by simp
      note ch = ch [OF this, of b c]
      have w: "walk ?ns 0 zs = Some j" using zs Some by simp
      show ?thesis
      proof (cases "j = i \<and> c = b")
        case True
        show ?thesis unfolding walk_snoc_eq [OF w] eq ch if_P [OF True] if_not_P [OF nc] ..
      next
        case False
        show ?thesis unfolding walk_snoc_eq [OF w] walk_snoc_eq [OF Some] eq ch if_not_P [OF False] ..
      qed
    qed
  qed
qed (simp_all add: tree_ok_bounds)

lemma set_symbol_leaf:
  assumes ok: "tree_ok ns n" and i: "0 < i" "i < max_huffman_nodes" "\<And>b. child ns i b = no_child" "i < n"
  shows "tree_ok (set_symbol ns i s) n" "walk (set_symbol ns i s) j bs = walk ns j bs"
    "k < max_huffman_nodes \<Longrightarrow> symbol (set_symbol ns i s ! k) = (if k = i then Some s else symbol (ns ! k))"
proof -
  have len: "length ns = max_huffman_nodes" by (rule tree_ok_bounds(1) [OF ok])
  have kids: "children (set_symbol ns i s ! j) = children (ns ! j)" for j
    using i(2) len by (cases "j = i") (simp_all add: set_symbol_def)
  have ch: "child (set_symbol ns i s) j b = child ns j b" for j b
    by (simp add: child_def kids)
  show "walk (set_symbol ns i s) j bs = walk ns j bs"
    by (induction bs arbitrary: j) (simp_all add: ch)
  show sy: "symbol (set_symbol ns i s ! k) = (if k = i then Some s else symbol (ns ! k))"
    if "k < max_huffman_nodes" for k
    using i(2) len by (cases "k = i") (simp_all add: set_symbol_def)
  have other: "set_symbol ns i s ! j = ns ! j" if "j \<noteq> i" for j using that by (simp add: set_symbol_def)
  have "\<forall>j. n \<le> j \<longrightarrow> j < max_huffman_nodes \<longrightarrow> set_symbol ns i s ! j = empty_node"
    using ok other i(4) unfolding tree_ok_def by (metis not_le)
  moreover have "symbol (set_symbol ns i s ! 0) = None"
    using other [of 0] i(1) tree_ok_bounds(5) [OF ok] by simp
  moreover have "\<forall>j < max_huffman_nodes. \<forall>b. symbol (set_symbol ns i s ! j) \<noteq> None \<longrightarrow>
      child (set_symbol ns i s) j b = no_child"
    unfolding ch using sy i(3) tree_ok_child(3) [OF ok] by metis
  moreover have "length (set_symbol ns i s) = max_huffman_nodes" using len by (simp add: set_symbol_def)
  ultimately show "tree_ok (set_symbol ns i s) n"
    using ok unfolding tree_ok_def kids ch by (elim conjE, intro conjI) assumption+
qed

text \<open>The words of a table, with one node for each.\<close>

definition table_ok :: "huffman_node list \<Rightarrow> nat \<Rightarrow> bool" where
  "table_ok ns n \<longleftrightarrow> tree_ok ns n \<and> finite (tree_paths ns) \<and> card (tree_paths ns) = n"

lemma place_step:
  fixes ns n i pre b s bs
  defines "ns' \<equiv> set_child ns i (if b then 1 else 0) n"
  defines "ns'' \<equiv> (if bs = ([] :: bool list) then set_symbol ns' n s else ns')"
  assumes ok: "table_ok ns n" and i: "walk ns 0 pre = Some i" "symbol (ns ! i) = None"
    "child ns i b = no_child" and n: "n < max_huffman_nodes"
  shows "table_ok ns'' (Suc n)" "walk ns'' 0 (pre @ [b]) = Some n"
    "tree_paths ns'' = insert (pre @ [b]) (tree_paths ns)"
    "tree_symbol ns'' = (tree_symbol ns)(pre @ [b] := (if bs = [] then Some s else None))"
    "symbol (ns'' ! n) = (if bs = [] then Some s else None)"
proof -
  have t: "tree_ok ns n" "finite (tree_paths ns)" "card (tree_paths ns) = n"
    using ok by (auto simp: table_ok_def)
  have in_n: "j < n" if "walk ns 0 xs = Some j" for xs j
    using walk_lt [OF t(1) tree_ok_bounds(2) [OF t(1)] that] by simp
  have t': "tree_ok ns' (Suc n)"
    unfolding ns'_def by (rule tree_ok_set_child [OF t(1) in_n [OF i(1)] i(2) n])
  have w': "walk ns' 0 xs = (if xs = pre @ [b] then Some n else walk ns 0 xs)" for xs
    unfolding ns'_def by (rule walk_set_child [OF t(1) i(1,3) n])
  have kids: "child ns' n c = no_child" for c
  proof -
    have "child ns n c = no_child"
      using t(1) n unfolding tree_ok_def by (auto simp: child_def empty_node_def)
    then show ?thesis
      using child_set_child [OF t(1) less_trans [OF in_n [OF i(1)] n] n, of b n c] in_n [OF i(1)]
      by (simp add: ns'_def)
  qed
  note leaf = set_symbol_leaf [OF t' tree_ok_bounds(2) [OF t(1)] n kids lessI]
  have w'': "walk ns'' 0 xs = (if xs = pre @ [b] then Some n else walk ns 0 xs)" for xs
    using w' leaf(2) by (simp add: ns''_def)
  then show "walk ns'' 0 (pre @ [b]) = Some n" by simp
  have gone: "walk ns 0 (pre @ [b]) = None" using i by (simp add: walk_append)
  show paths: "tree_paths ns'' = insert (pre @ [b]) (tree_paths ns)"
    using w'' by (auto simp: tree_paths_def)
  have "tree_ok ns'' (Suc n)" using t' leaf(1) by (simp add: ns''_def)
  moreover have "pre @ [b] \<notin> tree_paths ns" using gone by (simp add: tree_paths_def)
  ultimately show "table_ok ns'' (Suc n)" using t paths by (simp add: table_ok_def)
  have empty_n: "symbol (ns ! n) = None"
    using t(1) n unfolding tree_ok_def by (auto simp: empty_node_def)
  have sy: "symbol (ns'' ! k) = (if k = n then (if bs = [] then Some s else None) else symbol (ns ! k))"
    if "k < max_huffman_nodes" for k
    using leaf(3) [OF that] symbol_set_child [OF t(1) that] empty_n by (auto simp: ns''_def ns'_def)
  then show "symbol (ns'' ! n) = (if bs = [] then Some s else None)" using n by simp
  show "tree_symbol ns'' = (tree_symbol ns)(pre @ [b] := (if bs = [] then Some s else None))"
  proof
    fix xs
    show "tree_symbol ns'' xs = ((tree_symbol ns)(pre @ [b] := (if bs = [] then Some s else None))) xs"
    proof (cases "walk ns 0 xs")
      case None
      then show ?thesis using sy [OF n] by (simp add: tree_symbol_def w'')
    next
      case (Some j)
      then have "j < n" "xs \<noteq> pre @ [b]" using in_n gone by auto
      then show ?thesis using sy [of j] Some n by (simp add: tree_symbol_def w'')
    qed
  qed
qed

lemma tree_symbol_at: "walk ns 0 p = Some i \<Longrightarrow> tree_symbol ns p = symbol (ns ! i)"
  by (simp add: tree_symbol_def)

lemma place_word:
  assumes "table_ok ns n" "walk ns 0 pre = Some i" "bs \<noteq> []"
    "pre @ bs \<notin> tree_paths ns" "\<And>p. prefix p (pre @ bs) \<Longrightarrow> tree_symbol ns p = None"
    "card (tree_paths ns \<union> set (prefixes (pre @ bs))) \<le> max_huffman_nodes"
  shows "\<exists>ns' n'. place s bs ns n i = Some (ns', n') \<and> table_ok ns' n' \<and>
    tree_paths ns' = tree_paths ns \<union> set (prefixes (pre @ bs)) \<and>
    tree_symbol ns' = (tree_symbol ns)(pre @ bs \<mapsto> s)"
  using assms
proof (induction bs arbitrary: ns n pre i)
  case (Cons b bs)
  have root: "prefix p q \<Longrightarrow> q \<in> tree_paths ns \<Longrightarrow> p \<in> tree_paths ns" for p q
    by (auto simp: tree_paths_def prefix_def walk_append bind_eq_Some_conv)
  have pre: "set (prefixes pre) \<subseteq> tree_paths ns"
    using root [of _ pre] Cons.prems(2) by (auto simp: tree_paths_def)
  have none: "symbol (ns ! i) = None"
    using Cons.prems(5) [of pre] tree_symbol_at [OF Cons.prems(2)] by simp
  have fin: "finite (tree_paths ns)" "card (tree_paths ns) = n" and t: "tree_ok ns n"
    using Cons.prems(1) by (auto simp: table_ok_def)
  show ?case
  proof (cases "child ns i b = no_child")
    case True
    have new: "pre @ [b] \<notin> tree_paths ns"
      using True Cons.prems(2) by (simp add: tree_paths_def walk_append)
    have "card (insert (pre @ [b]) (tree_paths ns)) \<le>
        card (tree_paths ns \<union> set (prefixes (pre @ b # bs)))"
      by (rule card_mono) (use fin in auto)
    then have n: "n < max_huffman_nodes" using Cons.prems(6) fin new by simp
    let ?ns = "set_child ns i (if b then 1 else 0) n"
    let ?ns' = "if bs = [] then set_symbol ?ns n s else ?ns"
    note step = place_step [OF Cons.prems(1,2) none True n, of bs s]
    have place: "place s (b # bs) ns n i = place s bs ?ns' (Suc n) n"
      using True n by (simp add: Let_def)
    show ?thesis
    proof (cases "bs = []")
      case last: True
      have "set (prefixes (pre @ [b])) = insert (pre @ [b]) (set (prefixes pre))" by auto
      then have "tree_paths ?ns' = tree_paths ns \<union> set (prefixes (pre @ b # bs))"
        using step(3) last pre by auto
      moreover have "tree_symbol ?ns' = (tree_symbol ns)(pre @ b # bs \<mapsto> s)" using step(4) last by simp
      ultimately show ?thesis using place step(1) last by (intro exI [of _ ?ns'] exI [of _ "Suc n"]) simp
    next
      case more: False
      have same: "tree_symbol ?ns' = tree_symbol ns"
        using step(4) more Cons.prems(5) [of "pre @ [b]"] by (auto simp: fun_upd_idem)
      have "tree_paths ?ns' \<union> set (prefixes ((pre @ [b]) @ bs)) =
          tree_paths ns \<union> set (prefixes (pre @ b # bs))"
        using step(3) by auto
      then show ?thesis
        using Cons.IH [OF step(1,2) more] Cons.prems(4-6) more
        unfolding place same step(3) by simp
    qed
  next
    case False
    let ?c = "child ns i b"
    have w: "walk ns 0 (pre @ [b]) = Some ?c" using False Cons.prems(2) by (simp add: walk_append)
    have more: "bs \<noteq> []" using w Cons.prems(4) by (auto simp: tree_paths_def)
    have "symbol (ns ! ?c) = None"
      using Cons.prems(5) [of "pre @ [b]"] tree_symbol_at [OF w] by simp
    then have "place s (b # bs) ns n i = place s bs ns n ?c" using False more by simp
    then show ?thesis using Cons.IH [OF Cons.prems(1) w more] Cons.prems(4-6) by simp
  qed
qed simp

end
