(* ===== verification/Filt_Canonical.thy ===== *)
theory Filt_Canonical
  imports Filt_Huffman
begin

text \<open>
  Canonical Huffman codes: the words that \<open>Huffman::build\<close> of \<open>pdf-rs/filters/src/flate.rs\<close> assigns to
  code lengths, that no one of them is a prefix of another, and that building a table succeeds
  exactly on complete code lengths and then holds these words.
\<close>

section \<open>Canonical code words\<close>

definition code_bits :: "nat \<Rightarrow> nat \<Rightarrow> bool list" where
  "code_bits l c = map (\<lambda>d. bit c (l - d - 1)) [0..<l]"

fun assign_codes :: "nat \<Rightarrow> u8 list \<Rightarrow> nat list \<Rightarrow> (bool list \<times> nat) list" where
  "assign_codes s [] nc = []"
| "assign_codes s (l # ls) nc =
     (if l = 0 then assign_codes (Suc s) ls nc
      else (code_bits (unat l) (nc ! unat l), s) #
        assign_codes (Suc s) ls (nc[unat l := nc ! unat l + 1]))"

definition cnt :: "nat \<Rightarrow> u8 list \<Rightarrow> nat" where
  "cnt l ls = (if l = 0 then 0 else length (filter (\<lambda>x. unat x = l) ls))"

fun start_code :: "u8 list \<Rightarrow> nat \<Rightarrow> nat" where
  "start_code ls 0 = 0"
| "start_code ls (Suc l) = 2 * (start_code ls l + cnt l ls)"

definition canonical_codes :: "u8 list \<Rightarrow> (bool list \<times> nat) list" where
  "canonical_codes ls = assign_codes 0 ls (map (start_code ls) [0..<max_code_bits + 1])"

definition kraft_sum :: "u8 list \<Rightarrow> nat" where
  "kraft_sum ls = sum_list (map (\<lambda>x. if x = 0 then 0 else 2 ^ (max_code_bits - unat x)) ls)"

definition lengths_ok :: "u8 list \<Rightarrow> bool" where
  "lengths_ok ls \<longleftrightarrow> length ls \<le> max_huffman_symbols \<and> (\<forall>x \<in> set ls. unat x \<le> max_code_bits)"

definition huffman_accepts :: "u8 list \<Rightarrow> bool \<Rightarrow> bool \<Rightarrow> bool" where
  "huffman_accepts ls allow_empty allow_single \<longleftrightarrow>
     lengths_ok ls \<and>
     (if \<forall>x \<in> set ls. x = 0 then allow_empty
      else kraft_sum ls = 2 ^ max_code_bits \<or> allow_single \<and> filter (\<lambda>x. x \<noteq> 0) ls = [1])"

subsection \<open>Words and numbers\<close>

lemma length_code_bits [simp]: "length (code_bits l c) = l"
  by (simp add: code_bits_def)

lemma code_bits_inj:
  assumes "code_bits l c = code_bits l d" "c < 2 ^ l" "d < 2 ^ l"
  shows "c = d"
proof (rule bit_eqI)
  fix k
  show "bit c k = bit d k"
  proof (cases "k < l")
    case True
    have "code_bits l c ! (l - 1 - k) = code_bits l d ! (l - 1 - k)" using assms(1) by simp
    moreover have "l - (l - 1 - k) - 1 = k" "l - 1 - k < l" using True by auto
    ultimately show ?thesis by (simp add: code_bits_def)
  next
    case False
    have "x div 2 ^ k = 0" if "x < 2 ^ l" for x :: nat
    proof -
      have "(2 :: nat) ^ l \<le> 2 ^ k" using False by simp
      then have "x < 2 ^ k" using that by linarith
      then show ?thesis by (rule div_less)
    qed
    then show ?thesis using assms(2,3) by (simp add: bit_iff_odd)
  qed
qed

lemma take_code_bits:
  assumes "l \<le> m" shows "take l (code_bits m d) = code_bits l (d div 2 ^ (m - l))"
proof (rule nth_equalityI)
  fix i assume "i < length (take l (code_bits m d))"
  then have i: "i < l" "i < m" using assms by simp_all
  have "m - i - 1 = (m - l) + (l - i - 1)" using i assms by simp
  then have "d div 2 ^ (m - i - 1) = d div 2 ^ (m - l) div 2 ^ (l - i - 1)"
    by (simp only: power_add div_mult2_eq)
  then show "take l (code_bits m d) ! i = code_bits l (d div 2 ^ (m - l)) ! i"
    using i by (simp add: code_bits_def bit_iff_odd)
qed (use assms in simp)

lemma prefix_code_bits:
  assumes "prefix (code_bits l c) (code_bits m d)" "c < 2 ^ l" "d < 2 ^ m"
  shows "l \<le> m \<and> d div 2 ^ (m - l) = c"
proof -
  have lm: "l \<le> m" using prefix_length_le [OF assms(1)] by simp
  have "code_bits l c = take l (code_bits m d)"
    using assms(1) unfolding prefix_def by (metis append_eq_conv_conj length_code_bits)
  then have "code_bits l c = code_bits l (d div 2 ^ (m - l))" using take_code_bits [OF lm] by simp
  moreover have "d div 2 ^ (m - l) < 2 ^ l"
    using assms(3) lm by (intro less_mult_imp_div_less) (simp add: power_add [symmetric])
  ultimately show ?thesis using code_bits_inj assms(2) lm by blast
qed

subsection \<open>The words are apart\<close>

definition spaced :: "nat list \<Rightarrow> u8 list \<Rightarrow> bool" where
  "spaced nc ls \<longleftrightarrow>
     length nc = max_code_bits + 1 \<and>
     (\<forall>l \<le> max_code_bits. 0 < l \<longrightarrow> nc ! l + cnt l ls \<le> 2 ^ l) \<and>
     (\<forall>l m. 0 < l \<longrightarrow> l < m \<longrightarrow> m \<le> max_code_bits \<longrightarrow> 2 ^ (m - l) * (nc ! l + cnt l ls) \<le> nc ! m)"

lemma cnt_Cons: "cnt l (x # xs) = (if 0 < l \<and> unat x = l then Suc (cnt l xs) else cnt l xs)"
  by (simp add: cnt_def)

lemma spaced_tl:
  assumes "spaced nc (x # ls)" "unat x \<le> max_code_bits" "x \<noteq> 0"
  shows "spaced (nc[unat x := nc ! unat x + 1]) ls"
proof -
  let ?nc = "nc[unat x := nc ! unat x + 1]"
  have len: "length nc = max_code_bits + 1" using assms(1) by (simp add: spaced_def)
  have upd: "?nc ! l = (if l = unat x then nc ! l + 1 else nc ! l)" if "l \<le> max_code_bits" for l
    using that len by simp
  have x: "0 < unat x" using assms(3) by (simp add: unat_gt_0)
  have sum: "?nc ! l + cnt l ls = nc ! l + cnt l (x # ls)" if "0 < l" "l \<le> max_code_bits" for l
    using upd [OF that(2)] that(1) x by (simp add: cnt_Cons)
  have up: "nc ! m \<le> ?nc ! m" if "m \<le> max_code_bits" for m using upd [OF that] by simp
  have "2 ^ (m - l) * (?nc ! l + cnt l ls) \<le> ?nc ! m" if "0 < l" "l < m" "m \<le> max_code_bits" for l m
  proof -
    have "2 ^ (m - l) * (nc ! l + cnt l (x # ls)) \<le> nc ! m" using assms(1) that unfolding spaced_def by blast
    also note up [OF that(3)]
    finally show ?thesis using sum [OF that(1) less_imp_le [OF less_le_trans [OF that(2,3)]]] by simp
  qed
  moreover have "?nc ! l + cnt l ls \<le> 2 ^ l" if "0 < l" "l \<le> max_code_bits" for l
    using sum [OF that] that assms(1) unfolding spaced_def by simp
  ultimately show ?thesis unfolding spaced_def using len by simp
qed

lemma spaced_tl0: "spaced nc (x # ls) \<Longrightarrow> x = 0 \<Longrightarrow> spaced nc ls"
proof -
  assume "spaced nc (x # ls)" "x = 0"
  moreover from this have "cnt l (x # ls) = cnt l ls" for l by (auto simp: cnt_Cons)
  ultimately show ?thesis by (simp add: spaced_def)
qed

lemma assign_codes_range:
  assumes "spaced nc ls" "\<forall>x \<in> set ls. unat x \<le> max_code_bits" "(w, t) \<in> set (assign_codes s ls nc)"
  shows "\<exists>l c. w = code_bits l c \<and> 0 < l \<and> l \<le> max_code_bits \<and> nc ! l \<le> c \<and> c < nc ! l + cnt l ls \<and>
    s \<le> t \<and> t < s + length ls"
  using assms
proof (induction ls arbitrary: s nc)
  case (Cons x ls)
  show ?case
  proof (cases "x = 0")
    case True
    have "\<exists>l c. w = code_bits l c \<and> 0 < l \<and> l \<le> max_code_bits \<and> nc ! l \<le> c \<and> c < nc ! l + cnt l ls \<and>
        Suc s \<le> t \<and> t < Suc s + length ls"
      using Cons.IH [OF spaced_tl0 [OF Cons.prems(1) True], of "Suc s"] Cons.prems(2,3) True by simp
    then obtain l c where "w = code_bits l c \<and> 0 < l \<and> l \<le> max_code_bits \<and> nc ! l \<le> c \<and>
        c < nc ! l + cnt l ls \<and> Suc s \<le> t \<and> t < Suc s + length ls" by blast
    then show ?thesis using True by (intro exI [of _ l] exI [of _ c]) (simp add: cnt_Cons)
  next
    case False
    have x: "unat x \<le> max_code_bits" "0 < unat x" using Cons.prems(2) False by (simp_all add: unat_gt_0)
    have len: "length nc = max_code_bits + 1" using Cons.prems(1) by (simp add: spaced_def)
    consider "w = code_bits (unat x) (nc ! unat x)" "t = s"
      | "(w, t) \<in> set (assign_codes (Suc s) ls (nc[unat x := nc ! unat x + 1]))"
      using Cons.prems(3) False by auto
    then show ?thesis
    proof cases
      case 1
      then show ?thesis
        using x by (intro exI [of _ "unat x"] exI [of _ "nc ! unat x"]) (simp add: cnt_Cons)
    next
      case 2
      have "\<exists>l c. w = code_bits l c \<and> 0 < l \<and> l \<le> max_code_bits \<and>
          nc[unat x := nc ! unat x + 1] ! l \<le> c \<and> c < nc[unat x := nc ! unat x + 1] ! l + cnt l ls \<and>
          Suc s \<le> t \<and> t < Suc s + length ls"
        using Cons.IH [OF spaced_tl [OF Cons.prems(1) x(1) False] _ 2] Cons.prems(2) by simp
      then obtain l c where lc: "w = code_bits l c" "0 < l" "l \<le> max_code_bits"
          "nc[unat x := nc ! unat x + 1] ! l \<le> c" "c < nc[unat x := nc ! unat x + 1] ! l + cnt l ls"
          "Suc s \<le> t" "t < Suc s + length ls" by blast
      have "nc ! l \<le> c \<and> c < nc ! l + cnt l (x # ls)"
        using lc(2-5) len by (cases "l = unat x") (simp_all add: cnt_Cons)
      then show ?thesis using lc by (intro exI [of _ l] exI [of _ c]) simp
    qed
  qed
qed simp

definition words_apart :: "bool list \<Rightarrow> bool list \<Rightarrow> bool" where
  "words_apart v w \<longleftrightarrow> \<not> prefix v w \<and> \<not> prefix w v"

lemma spaced_apart:
  assumes sp: "spaced nc ls" and l: "0 < l" "l < m" "m \<le> max_code_bits"
    and c: "c < nc ! l + cnt l ls" and d: "nc ! m \<le> d" "d < nc ! m + cnt m ls"
  shows "words_apart (code_bits l c) (code_bits m d)"
proof -
  have fit: "c < 2 ^ l" "d < 2 ^ m"
    using sp l c d(2) unfolding spaced_def by (meson less_le_trans less_imp_le order_trans l)+
  have "2 ^ (m - l) * (nc ! l + cnt l ls) \<le> nc ! m" using sp l unfolding spaced_def by blast
  then have "2 ^ (m - l) * (nc ! l + cnt l ls) \<le> d" using d(1) by linarith
  then have "nc ! l + cnt l ls \<le> d div 2 ^ (m - l)"
    by (simp add: less_eq_div_iff_mult_less_eq mult.commute)
  then have "d div 2 ^ (m - l) \<noteq> c" using c by linarith
  then show ?thesis
    using prefix_code_bits [OF _ fit] prefix_length_le [of "code_bits m d" "code_bits l c"] l
    by (auto simp: words_apart_def)
qed

lemma words_apart_sym: "words_apart v w \<Longrightarrow> words_apart w v"
  by (simp add: words_apart_def)

lemma words_apart_same:
  "c < 2 ^ l \<Longrightarrow> d < 2 ^ l \<Longrightarrow> c \<noteq> d \<Longrightarrow> words_apart (code_bits l c) (code_bits l d)"
  using prefix_code_bits [of l c l d] prefix_code_bits [of l d l c] by (auto simp: words_apart_def)

lemma assign_codes_apart:
  assumes "spaced nc ls" "\<forall>x \<in> set ls. unat x \<le> max_code_bits"
  shows "sorted_wrt (\<lambda>p q. words_apart (fst p) (fst q)) (assign_codes s ls nc)"
  using assms
proof (induction ls arbitrary: s nc)
  case (Cons x ls)
  show ?case
  proof (cases "x = 0")
    case True
    then show ?thesis using Cons.IH [OF spaced_tl0 [OF Cons.prems(1) True]] Cons.prems(2) by simp
  next
    case False
    let ?l = "unat x" and ?c = "nc ! unat x" and ?nc = "nc[unat x := nc ! unat x + 1]"
    have x: "?l \<le> max_code_bits" "0 < ?l" using Cons.prems(2) False by (simp_all add: unat_gt_0)
    note sp = spaced_tl [OF Cons.prems(1) x(1) False]
    have len: "length nc = max_code_bits + 1" using Cons.prems(1) by (simp add: spaced_def)
    have "words_apart (code_bits ?l ?c) w" if wt: "(w, t) \<in> set (assign_codes (Suc s) ls ?nc)" for w t
    proof -
      obtain m d where md: "w = code_bits m d" "0 < m" "m \<le> max_code_bits" "?nc ! m \<le> d" "d < ?nc ! m + cnt m ls"
        using assign_codes_range [OF sp _ wt] Cons.prems(2) by auto
      have fits: "nc ! k + cnt k (x # ls) \<le> 2 ^ k" if "0 < k" "k \<le> max_code_bits" for k
        using Cons.prems(1) that unfolding spaced_def by blast
      have d: "nc ! m \<le> d" "d < nc ! m + cnt m (x # ls)"
        using md(2-5) len by (cases "m = ?l"; simp add: cnt_Cons)+
      have c: "?c < ?c + cnt ?l (x # ls)" using x by (simp add: cnt_Cons)
      consider "m = ?l" | "?l < m" | "m < ?l" by linarith
      then show ?thesis
      proof cases
        case 1
        have "?c < 2 ^ ?l" "d < 2 ^ ?l" using fits [OF x(2,1)] c d 1 by auto
        moreover have "?c \<noteq> d" using md(4) 1 len x by simp
        ultimately show ?thesis using words_apart_same md(1) 1 by simp
      next
        case 2
        then show ?thesis using spaced_apart [OF Cons.prems(1) x(2) 2 md(3) c d] md(1) by simp
      next
        case 3
        then show ?thesis
          using spaced_apart [OF Cons.prems(1) md(2) 3 x(1) d(2) order_refl c] words_apart_sym md(1) by simp
      qed
    qed
    then show ?thesis using False Cons.IH [OF sp] Cons.prems(2) by auto
  qed
qed simp

lemma length_canonical [simp]: "length (assign_codes s ls nc) = length (filter (\<lambda>x. x \<noteq> 0) ls)"
  by (induction ls arbitrary: s nc) auto

subsection \<open>Kraft's sum\<close>

lemma start_code_mono: "l < m \<Longrightarrow> 2 ^ (m - l) * (start_code ls l + cnt l ls) \<le> start_code ls m"
proof (induction m)
  case (Suc m)
  show ?case
  proof (cases "l = m")
    case False
    then have "2 ^ (m - l) * (start_code ls l + cnt l ls) \<le> start_code ls m" using Suc by simp
    moreover have "Suc m - l = Suc (m - l)" using Suc.prems by simp
    ultimately show ?thesis by simp
  qed simp
qed simp

lemma start_code_sum: "start_code ls k + cnt k ls = (\<Sum>l \<in> {1..k}. cnt l ls * 2 ^ (k - l))"
proof (induction k)
  case (Suc k)
  have "(\<Sum>l \<in> {1..k}. cnt l ls * 2 ^ (Suc k - l)) = (\<Sum>l \<in> {1..k}. 2 * (cnt l ls * 2 ^ (k - l)))"
    by (rule sum.cong) (auto simp: Suc_diff_le)
  then show ?case using Suc by (simp add: sum_distrib_left [symmetric])
qed (simp add: cnt_def)

lemma kraft_sum_cnt:
  assumes "\<forall>x \<in> set ls. unat x \<le> max_code_bits"
  shows "(\<Sum>l \<in> {1..max_code_bits}. cnt l ls * 2 ^ (max_code_bits - l)) = kraft_sum ls"
  using assms
proof (induction ls)
  case (Cons x ls)
  let ?w = "\<lambda>l. (2 :: nat) ^ (max_code_bits - l)"
  have "(\<Sum>l \<in> {1..max_code_bits}. cnt l (x # ls) * ?w l) =
      (\<Sum>l \<in> {1..max_code_bits}. (if l = unat x then ?w l else 0) + cnt l ls * ?w l)"
    by (rule sum.cong) (auto simp: cnt_Cons)
  also have "\<dots> = (\<Sum>l \<in> {1..max_code_bits}. if l = unat x then ?w l else 0) + kraft_sum ls"
    using Cons by (simp add: sum.distrib)
  also have "(\<Sum>l \<in> {1..max_code_bits}. if l = unat x then ?w l else 0) = (if x = 0 then 0 else ?w (unat x))"
    using Cons.prems by (simp add: sum.delta Suc_le_eq unat_gt_0)
  finally show ?case by (simp add: kraft_sum_def)
qed (simp add: cnt_def kraft_sum_def)

lemma start_code_kraft:
  "\<forall>x \<in> set ls. unat x \<le> max_code_bits \<Longrightarrow>
   start_code ls max_code_bits + cnt max_code_bits ls = kraft_sum ls"
  using start_code_sum [of ls max_code_bits] kraft_sum_cnt [of ls] by simp

lemma spaced_start:
  assumes "\<forall>x \<in> set ls. unat x \<le> max_code_bits" "kraft_sum ls \<le> 2 ^ max_code_bits"
  shows "spaced (map (start_code ls) [0..<max_code_bits + 1]) ls"
proof -
  let ?nc = "map (start_code ls) [0..<max_code_bits + 1]"
  have nc: "?nc ! l = start_code ls l" if "l \<le> max_code_bits" for l
    using that by (simp add: nth_append del: upt_Suc)
  have "start_code ls l + cnt l ls \<le> 2 ^ l" if "l \<le> max_code_bits" for l
  proof (cases "l = max_code_bits")
    case True
    then show ?thesis using start_code_kraft [OF assms(1)] assms(2) by simp
  next
    case False
    then have l: "l < max_code_bits" using that by simp
    have "2 ^ (max_code_bits - l) * (start_code ls l + cnt l ls) \<le> 2 ^ max_code_bits"
      using start_code_mono [OF l, of ls] start_code_kraft [OF assms(1)] assms(2) by linarith
    also have "(2 :: nat) ^ max_code_bits = 2 ^ (max_code_bits - l) * 2 ^ l"
      using l by (simp add: power_add [symmetric])
    finally show ?thesis by simp
  qed
  then show ?thesis
    unfolding spaced_def using nc start_code_mono [of _ _ ls] by (auto simp del: upt_Suc)
qed

lemma sum_assign_codes:
  "\<forall>x \<in> set ls. unat x \<le> max_code_bits \<Longrightarrow>
   sum_list (map (\<lambda>p. 2 ^ (max_code_bits - length (fst p))) (assign_codes s ls nc)) = kraft_sum ls"
  by (induction ls arbitrary: s nc) (auto simp: kraft_sum_def)

text \<open>The canonical words of code lengths that fit.\<close>

lemma canonical_words:
  assumes "lengths_ok ls" "kraft_sum ls \<le> 2 ^ max_code_bits"
  defines "C \<equiv> fst ` set (canonical_codes ls)"
  shows "distinct (map fst (canonical_codes ls))" "prefix_free C"
    "\<And>w t. (w, t) \<in> set (canonical_codes ls) \<Longrightarrow> w \<noteq> [] \<and> length w \<le> max_code_bits \<and> t < length ls"
    "weight max_code_bits C = kraft_sum ls" "card C \<le> max_huffman_symbols"
proof -
  have le: "\<forall>x \<in> set ls. unat x \<le> max_code_bits" using assms(1) by (simp add: lengths_ok_def)
  note sp = spaced_start [OF le assms(2)]
  have apart: "sorted_wrt (\<lambda>p q. words_apart (fst p) (fst q)) (canonical_codes ls)"
    unfolding canonical_codes_def by (rule assign_codes_apart [OF sp le])
  have pair: "sorted_wrt words_apart ws \<Longrightarrow> distinct ws \<and> prefix_free (set ws)" for ws
    by (induction ws) (auto simp: words_apart_def prefix_free_def)
  have ws: "sorted_wrt words_apart (map fst (canonical_codes ls))"
    using apart by (simp add: sorted_wrt_map)
  then show d: "distinct (map fst (canonical_codes ls))" using pair by blast
  show "prefix_free C" using pair [OF ws] by (simp add: C_def)
  show "w \<noteq> [] \<and> length w \<le> max_code_bits \<and> t < length ls" if "(w, t) \<in> set (canonical_codes ls)" for w t
    using assign_codes_range [OF sp le that [unfolded canonical_codes_def]] by (auto simp: code_bits_def)
  have "weight max_code_bits C = sum_list (map (\<lambda>w. 2 ^ (max_code_bits - length w)) (map fst (canonical_codes ls)))"
    unfolding weight_def C_def using d by (metis list.set_map sum_list_distinct_conv_sum_set)
  also have "\<dots> = kraft_sum ls"
    using sum_assign_codes [OF le] by (simp add: canonical_codes_def comp_def)
  finally show "weight max_code_bits C = kraft_sum ls" .
  have "card C \<le> length (canonical_codes ls)" unfolding C_def
    by (metis card_length length_map list.set_map)
  also have "\<dots> \<le> length ls" by (simp add: canonical_codes_def)
  finally show "card C \<le> max_huffman_symbols" using assms(1) by (simp add: lengths_ok_def)
qed

section \<open>Building a table\<close>

lemma code_bits_drop:
  "d < l \<Longrightarrow> drop d (code_bits l c) = bit c (l - d - 1) # drop (Suc d) (code_bits l c)"
  by (simp add: Cons_nth_drop_Suc [symmetric] code_bits_def)

lemma bit_index: "(c div 2 ^ k) mod 2 = (if bit c k then 1 else 0 :: nat)" for c :: nat
  by (auto simp: bit_iff_odd mod_2_eq_odd)

text \<open>One step of the loop over the depths, as a pure step of \<^const>\<open>place\<close>.\<close>

lemma insert_step_sim:
  assumes ob: "buf_ok ob" and d: "d < l" and s: "s \<le> 65535"
    and pl: "place s (drop d (code_bits l c)) ns n i = Some r"
  shows "\<exists>ns2 n2 i2. place s (drop (Suc d) (code_bits l c)) ns2 n2 i2 = Some r \<and>
    (\<forall>ob. buf_ok ob \<longrightarrow> simulates h 1 0 ob (insert_step h idx s c l d ns n i ob) (Inr ((ns2, n2, i2), ob_bytes ob)))"
proof -
  let ?b = "bit c (l - d - 1)" and ?rest = "drop (Suc d) (code_bits l c)"
  let ?i = "if ?b then 1 else 0 :: nat"
  have leaf: "?rest = [] \<longleftrightarrow> d + 1 = l" using d by auto
  have kid: "children (ns ! i) ! ?i = child ns i ?b" by (simp add: child_def)
  note pl = pl [unfolded code_bits_drop [OF d] place.simps]
  show ?thesis
  proof (cases "child ns i ?b = no_child")
    case True
    then have n: "\<not> max_huffman_nodes \<le> n" using pl by (auto split: if_splits)
    then have n16: "n \<le> 65535" by (simp add: max_huffman_nodes_def max_huffman_symbols_def)
    let ?ns = "if ?rest = [] then set_symbol (set_child ns i ?i n) n s else set_child ns i ?i n"
    have rest: "place s ?rest ?ns (Suc n) n = Some r"
      using pl unfolding if_P [OF True] if_not_P [OF n] Let_def .
    moreover have "simulates h (1 + 0) 0 ob (insert_step h idx s c l d ns n i ob) (Inr ((?ns, Suc n, n), ob_bytes ob))"
      if "buf_ok ob" for ob
      unfolding insert_step_def bit_index
    proof (rule sim_charge [OF that], goal_cases)
      case (1 o1)
      then show ?case
        using True n n16 s leaf simulates_return [OF 1(1), of h 0 0 "(?ns, Suc n, n)"]
        by (auto simp: Let_def child_def u16_try_from_def simp del: simulates_return)
    qed
    ultimately show ?thesis by fastforce
  next
    case False
    then have more: "?rest \<noteq> []" "symbol (ns ! child ns i ?b) = None"
      and rest: "place s ?rest ns n (child ns i ?b) = Some r" using pl by (auto split: if_splits)
    moreover have "simulates h (1 + 0) 0 ob (insert_step h idx s c l d ns n i ob)
        (Inr ((ns, n, child ns i ?b), ob_bytes ob))" if "buf_ok ob" for ob
      unfolding insert_step_def bit_index
    proof (rule sim_charge [OF that], goal_cases)
      case (1 o1)
      have "\<not> (d + 1 = l \<or> symbol (ns ! child ns i ?b) \<noteq> None)" using more leaf by simp
      then show ?case
        using False simulates_return [OF 1(1), of h 0 0 "(ns, n, child ns i ?b)"] 1(2)
        by (simp only: Let_def kid if_False)
    qed
    ultimately show ?thesis by fastforce
  qed
qed

lemma insert_path_sim:
  assumes "place s (drop d (code_bits l c)) ns n i = Some r" "d \<le> l" "s \<le> 65535" "buf_ok ob"
  shows "simulates h (l - d) 0 ob (insert_path h idx s c l [d..<l] ns n i ob) (Inr (r, ob_bytes ob))"
  using assms(1,2,4)
proof (induction "l - d" arbitrary: d ns n i ob)
  case 0
  then show ?case using simulates_return [OF 0(4), of h 0 0 "(ns, n)"] by simp
next
  case (Suc m)
  have d: "d < l" "[d..<l] = d # [Suc d..<l]" using Suc.hyps(2) by (auto simp: upt_conv_Cons)
  obtain ns2 n2 i2 where st: "place s (drop (Suc d) (code_bits l c)) ns2 n2 i2 = Some r"
      "simulates h 1 0 ob (insert_step h idx s c l d ns n i ob) (Inr ((ns2, n2, i2), ob_bytes ob))"
    using insert_step_sim [OF Suc.prems(3) d(1) assms(3) Suc.prems(1)] Suc.prems(3) by blast
  have "simulates h (1 + m) (0 + 0) ob (insert_path h idx s c l (d # [Suc d..<l]) ns n i ob) (Inr (r, ob_bytes ob))"
    unfolding insert_path.simps
  proof (rule sim_then [OF st(2)], goal_cases)
    case (1 o1)
    have "m = l - Suc d" using Suc.hyps(2) by simp
    from Suc.hyps(1) [OF this st(1) _ 1(1)] d 1(2) this show ?case by simp
  qed
  then show ?case using d(2) Suc.hyps(2) by simp
qed

subsection \<open>All words\<close>

definition holds_words :: "huffman_node list \<Rightarrow> nat \<Rightarrow> (bool list \<times> nat) list \<Rightarrow> bool" where
  "holds_words ns n W \<longleftrightarrow>
     table_ok ns n \<and> tree_symbol ns = map_of W \<and> tree_paths ns = insert [] (prefixes_of (fst ` set W))"

lemma holds_no_words: "holds_words (replicate max_huffman_nodes empty_node) 1 []"
proof -
  let ?ns = "replicate max_huffman_nodes empty_node"
  have pos: "0 < max_huffman_nodes" by (simp add: max_huffman_nodes_def max_huffman_symbols_def)
  have ch: "child ?ns i b = no_child" if "i < max_huffman_nodes" for i b
    using that by (simp add: child_def empty_node_def)
  have w: "walk ?ns 0 bs = (if bs = [] then Some 0 else None)" for bs
    using ch [OF pos] by (cases bs) simp_all
  have sy: "symbol (?ns ! 0) = None" using pos by (simp add: empty_node_def)
  have "tree_ok ?ns 1" using pos ch unfolding tree_ok_def by (simp add: empty_node_def Suc_le_eq)
  moreover have "tree_paths ?ns = {[]}" by (auto simp: tree_paths_def w split: if_splits)
  moreover have "tree_symbol ?ns = Map.empty" by (auto simp: tree_symbol_def w sy)
  ultimately show ?thesis by (simp add: holds_words_def table_ok_def prefixes_of_def)
qed

lemma holds_one_more:
  assumes hold: "holds_words ns n W" and w: "w \<noteq> []" "w \<notin> fst ` set W" "prefix_free (insert w (fst ` set W))"
    and room: "card (insert [] (prefixes_of (insert w (fst ` set W)))) \<le> max_huffman_nodes"
  shows "\<exists>ns' n'. place s w ns n 0 = Some (ns', n') \<and> holds_words ns' n' (W @ [(w, s)])"
proof -
  let ?C = "fst ` set W"
  have h: "table_ok ns n" "tree_symbol ns = map_of W" "tree_paths ns = insert [] (prefixes_of ?C)"
    using hold by (simp_all add: holds_words_def)
  have paths: "tree_paths ns \<union> set (prefixes w) = insert [] (prefixes_of (insert w ?C))"
    unfolding h(3) by (auto simp: prefixes_of_def)
  have new: "w \<notin> tree_paths ns"
  proof
    assume "w \<in> tree_paths ns"
    then obtain c where "c \<in> ?C" "prefix w c" using w(1) unfolding h(3) prefixes_of_def by auto
    then show False using prefix_freeD [OF w(3), of w c] w(2) by auto
  qed
  have none: "tree_symbol ns p = None" if "prefix p w" for p
  proof (cases "p = w")
    case True
    then show ?thesis using w(2) unfolding h(2) by (simp add: map_of_eq_None_iff)
  next
    case False
    then have "p \<notin> ?C" using prefix_freeD [OF w(3) _ _ that] by blast
    then show ?thesis unfolding h(2) by (simp add: map_of_eq_None_iff)
  qed
  have "\<exists>ns' n'. place s w ns n 0 = Some (ns', n') \<and> table_ok ns' n' \<and>
      tree_paths ns' = tree_paths ns \<union> set (prefixes ([] @ w)) \<and>
      tree_symbol ns' = (tree_symbol ns)([] @ w \<mapsto> s)"
    by (rule place_word [OF h(1), of "[]"]) (use new none room paths w(1) in auto)
  then obtain ns' n' where p: "place s w ns n 0 = Some (ns', n')" "table_ok ns' n'"
      "tree_paths ns' = insert [] (prefixes_of (insert w ?C))" "tree_symbol ns' = (map_of W)(w \<mapsto> s)"
    using paths h(2) by auto
  have "map_of W w = None" using w(2) by (simp add: map_of_eq_None_iff)
  then have "map_of (W @ [(w, s)]) = (map_of W)(w \<mapsto> s)"
    by (intro ext) (auto simp: map_add_def split: option.splits)
  then show ?thesis using p by (auto simp: holds_words_def)
qed

lemma prefix_free_subset: "prefix_free D \<Longrightarrow> C \<subseteq> D \<Longrightarrow> prefix_free C"
  unfolding prefix_free_def by blast

lemma insert_symbols_sim:
  fixes W :: "(bool list \<times> nat) list"
  assumes "holds_words ns n W" "spaced nc ls" "\<forall>x \<in> set ls. unat x \<le> max_code_bits" "s + length ls \<le> 65535"
    "distinct (map fst (W @ assign_codes s ls nc))" "prefix_free (fst ` set (W @ assign_codes s ls nc))"
    "card (insert [] (prefixes_of (fst ` set (W @ assign_codes s ls nc)))) \<le> max_huffman_nodes"
  shows "\<exists>ns' n'. holds_words ns' n' (W @ assign_codes s ls nc) \<and>
    (\<forall>ob. buf_ok ob \<longrightarrow> simulates h (15 * length ls) 0 ob (insert_symbols h idx s ls nc ns n ob)
      (Inr ((ns', n'), ob_bytes ob)))"
  using assms
proof (induction ls arbitrary: ns n W nc s)
  case Nil
  then show ?case by (intro exI [of _ ns] exI [of _ n]) simp
next
  case (Cons x ls)
  show ?case
  proof (cases "x = 0")
    case True
    have "\<exists>ns' n'. holds_words ns' n' (W @ assign_codes (Suc s) ls nc) \<and>
      (\<forall>ob. buf_ok ob \<longrightarrow> simulates h (15 * length ls) 0 ob (insert_symbols h idx (Suc s) ls nc ns n ob)
        (Inr ((ns', n'), ob_bytes ob)))"
      by (rule Cons.IH [OF Cons.prems(1) spaced_tl0 [OF Cons.prems(2) True]])
        (use Cons.prems(3-7) True in simp_all)
    then show ?thesis using True simulates_mono [where c = "15 * length ls" and n = 0] by fastforce
  next
    case False
    let ?l = "unat x" and ?c = "nc ! unat x" and ?nc = "nc[unat x := nc ! unat x + 1]"
    let ?w = "code_bits ?l ?c" and ?rest = "assign_codes (Suc s) ls (nc[unat x := nc ! unat x + 1])"
    have x: "?l \<le> max_code_bits" "0 < ?l" using Cons.prems(3) False by (simp_all add: unat_gt_0)
    have all: "W @ assign_codes s (x # ls) nc = (W @ [(?w, s)]) @ ?rest" using False by simp
    note pre = Cons.prems(5-7) [unfolded all]
    have sub: "insert ?w (fst ` set W) \<subseteq> fst ` set ((W @ [(?w, s)]) @ ?rest)" by auto
    have "card (insert [] (prefixes_of (insert ?w (fst ` set W)))) \<le>
        card (insert [] (prefixes_of (fst ` set ((W @ [(?w, s)]) @ ?rest))))"
      by (rule card_mono) (auto intro!: finite_prefixes_of dest: subsetD [OF prefixes_of_mono [OF sub]])
    then have room: "card (insert [] (prefixes_of (insert ?w (fst ` set W)))) \<le> max_huffman_nodes"
      using pre(3) by linarith
    have "?w \<noteq> []" using x(2) length_code_bits [of ?l ?c] by (metis length_0_conv less_irrefl)
    moreover have "?w \<notin> fst ` set W" using pre(1) by auto
    ultimately obtain ns1 n1 where st: "place s ?w ns n 0 = Some (ns1, n1)" "holds_words ns1 n1 (W @ [(?w, s)])"
      using holds_one_more [OF Cons.prems(1) _ _ prefix_free_subset [OF pre(2) sub] room, of s] by blast
    have "\<exists>ns' n'. holds_words ns' n' ((W @ [(?w, s)]) @ ?rest) \<and>
      (\<forall>ob. buf_ok ob \<longrightarrow> simulates h (15 * length ls) 0 ob (insert_symbols h idx (Suc s) ls ?nc ns1 n1 ob)
        (Inr ((ns', n'), ob_bytes ob)))"
      by (rule Cons.IH [OF st(2) spaced_tl [OF Cons.prems(2) x(1) False]]) (use Cons.prems(3,4) pre in auto)
    then obtain ns' n' where IH: "holds_words ns' n' ((W @ [(?w, s)]) @ ?rest)"
      "\<And>ob. buf_ok ob \<Longrightarrow> simulates h (15 * length ls) 0 ob (insert_symbols h idx (Suc s) ls ?nc ns1 n1 ob)
        (Inr ((ns', n'), ob_bytes ob))" by blast
    have c16: "checked_add16 ?c 1 = Some (?c + 1)"
    proof -
      have "?c + cnt ?l (x # ls) \<le> 2 ^ ?l" using Cons.prems(2) x unfolding spaced_def by blast
      also have "(2 :: nat) ^ ?l \<le> 2 ^ 15" using x(1) by (intro power_increasing) (simp_all add: max_code_bits_def)
      finally show ?thesis by (simp add: checked_add16_def)
    qed
    have "simulates h (?l + 15 * length ls) (0 + 0) ob (insert_symbols h idx s (x # ls) nc ns n ob)
        (Inr ((ns', n'), ob_bytes ob))" if ok: "buf_ok ob" for ob
    proof -
      have path: "simulates h ?l 0 ob (insert_path h idx s ?c ?l [0..<?l] ns n 0 ob) (Inr ((ns1, n1), ob_bytes ob))"
        using insert_path_sim [of s 0 ?l ?c ns n 0 "(ns1, n1)" ob h idx] st(1) Cons.prems(4) ok by simp
      have "simulates h (?l + 15 * length ls) (0 + 0) ob
          (and_then (insert_path h idx s ?c ?l [0..<?l] ns n 0 ob)
            (\<lambda>((ns, n), ob). insert_symbols h idx (Suc s) ls ?nc ns n ob))
          (Inr ((ns', n'), ob_bytes ob))"
        by (rule sim_then [OF path]) (use IH(2) in force)
      then show ?thesis using False c16 by (simp add: Let_def)
    qed
    then have "simulates h (15 * length (x # ls)) 0 ob (insert_symbols h idx s (x # ls) nc ns n ob)
        (Inr ((ns', n'), ob_bytes ob))" if "buf_ok ob" for ob
      by (rule simulates_mono [OF _ _]) (use that x(1) in \<open>simp_all add: max_code_bits_def\<close>)
    then show ?thesis unfolding all using IH(1) by blast
  qed
qed

subsection \<open>The counting loops\<close>

lemma cnt_le: "cnt l ls \<le> length ls"
  by (simp add: cnt_def)

lemma count_lengths_sim:
  assumes "buf_ok ob" "length counts = max_code_bits + 1" "sc + length ls \<le> 4294967295"
  shows "simulates h (length ls) 0 ob (count_lengths h idx ls counts sc m ob)
    (if \<forall>x \<in> set ls. unat x \<le> max_code_bits
     then Inr ((map (\<lambda>l. counts ! l + cnt l ls) [0..<max_code_bits + 1],
                sc + length (filter (\<lambda>x. x \<noteq> 0) ls), foldl (\<lambda>m x. max m (unat x)) m ls), ob_bytes ob)
     else Inl (invalid_flate idx))"
  using assms
proof (induction ls arbitrary: ob counts sc m)
  case Nil
  have "map (\<lambda>l. counts ! l + cnt l []) [0..<max_code_bits + 1] = counts"
    using Nil.prems(2) map_nth [of counts] cnt_le [of _ "[]"] by (simp del: upt_Suc)
  then show ?case using simulates_return [OF Nil.prems(1)] by (simp del: upt_Suc)
next
  case (Cons x ls)
  let ?p = "\<lambda>counts sc m. if \<forall>x \<in> set ls. unat x \<le> max_code_bits
     then Inr ((map (\<lambda>l. counts ! l + cnt l ls) [0..<max_code_bits + 1],
                sc + length (filter (\<lambda>x. x \<noteq> 0) ls), foldl (\<lambda>m x. max m (unat x)) m ls), ob_bytes ob)
     else Inl (invalid_flate idx)"
  let ?r = "if \<forall>x \<in> set (x # ls). unat x \<le> max_code_bits
     then Inr ((map (\<lambda>l. counts ! l + cnt l (x # ls)) [0..<max_code_bits + 1],
                sc + length (filter (\<lambda>x. x \<noteq> 0) (x # ls)), foldl (\<lambda>m x. max m (unat x)) m (x # ls)), ob_bytes ob)
     else Inl (invalid_flate idx)"
  have "simulates h (1 + length ls) 0 ob (count_lengths h idx (x # ls) counts sc m ob) ?r"
    unfolding count_lengths.simps
  proof (rule sim_charge [OF Cons.prems(1)], goal_cases)
    case (1 o1)
    have IH: "simulates h (length ls) 0 o1 (count_lengths h idx ls counts' sc' m' o1) (?p counts' sc' m')"
      if "length counts' = max_code_bits + 1" "sc' \<le> Suc sc" for counts' sc' m'
    proof -
      have "sc' + length ls \<le> 4294967295" using that(2) Cons.prems(3) by simp
      from Cons.IH [OF 1(1) that(1) this] show ?thesis unfolding 1(2) .
    qed
    consider "unat x > max_code_bits" | "x = 0" | "unat x \<le> max_code_bits" "x \<noteq> 0" by fastforce
    then show ?case
    proof cases
      case 1
      then show ?thesis by auto
    next
      case 2
      then have "cnt l (x # ls) = cnt l ls" for l by (auto simp: cnt_Cons)
      then show ?thesis
        using 2 IH [OF Cons.prems(2), of sc m] by (cases "\<forall>x \<in> set ls. unat x \<le> max_code_bits") (auto simp del: upt_Suc)
    next
      case 3
      let ?counts = "counts[unat x := counts ! unat x + 1]"
      have eq: "map (\<lambda>l. ?counts ! l + cnt l ls) [0..<max_code_bits + 1] =
          map (\<lambda>l. counts ! l + cnt l (x # ls)) [0..<max_code_bits + 1]"
        using Cons.prems(2) 3 unat_gt_0 [of x]
        by (intro map_cong) (auto simp: cnt_Cons nth_list_update simp del: upt_Suc unat_gt_0)
      show ?thesis
        using 3 IH [of ?counts "sc + 1" "max m (unat x)", unfolded eq] Cons.prems(2,3)
        by (cases "\<forall>x \<in> set ls. unat x \<le> max_code_bits") (auto simp del: upt_Suc)
    qed
  qed
  then show ?case by simp
qed

definition kraft_left :: "u8 list \<Rightarrow> nat \<Rightarrow> int" where
  "kraft_left ls k = 2 ^ k - int (start_code ls k + cnt k ls)"

lemma kraft_left_Suc: "kraft_left ls (Suc k) = kraft_left ls k * 2 - int (cnt (Suc k) ls)"
  by (simp add: kraft_left_def)

lemma kraft_left_neg: "kraft_left ls k < 0 \<Longrightarrow> k \<le> m \<Longrightarrow> kraft_left ls m < 0"
  by (induction m) (auto simp: kraft_left_Suc le_Suc_eq)

lemma kraft_loop_sim:
  assumes "buf_ok ob" "k \<le> max_code_bits" "0 \<le> kraft_left ls k" "length ls \<le> 1000"
  shows "simulates h (max_code_bits - k) 0 ob
    (kraft_loop h idx (map (\<lambda>l. cnt l ls) [Suc k..<max_code_bits + 1]) (kraft_left ls k) ob)
    (if 0 \<le> kraft_left ls max_code_bits then Inr (kraft_left ls max_code_bits, ob_bytes ob)
     else Inl (invalid_flate idx))"
  using assms
proof (induction "max_code_bits - k" arbitrary: k ob)
  case 0
  then have "k = max_code_bits" by simp
  then show ?case using 0 simulates_return [OF 0(2)] by simp
next
  case (Suc m)
  have k: "k < max_code_bits" using Suc.hyps(2) by simp
  have l: "[Suc k..<max_code_bits + 1] = Suc k # [Suc (Suc k)..<max_code_bits + 1]"
    using k by (intro upt_conv_Cons) simp
  have "kraft_left ls k \<le> 2 ^ k" by (simp add: kraft_left_def)
  also have "(2 :: int) ^ k \<le> 2 ^ 15" using k by (intro power_increasing) (simp_all add: max_code_bits_def)
  finally have small: "kraft_left ls k \<le> 32768" by simp
  have "cnt (Suc k) ls \<le> 1000" using cnt_le Suc.prems(4) order_trans by blast
  then have checked: "Option.bind (i32_checked (kraft_left ls k * 2)) (\<lambda>v. i32_checked (v - int (cnt (Suc k) ls)))
      = Some (kraft_left ls (Suc k))"
    using small Suc.prems(3) by (simp add: i32_checked_def kraft_left_Suc)
  have "simulates h (1 + m) 0 ob
      (kraft_loop h idx (cnt (Suc k) ls # map (\<lambda>l. cnt l ls) [Suc (Suc k)..<max_code_bits + 1]) (kraft_left ls k) ob)
      (if 0 \<le> kraft_left ls max_code_bits then Inr (kraft_left ls max_code_bits, ob_bytes ob)
       else Inl (invalid_flate idx))"
    unfolding kraft_loop.simps checked
  proof (rule sim_charge [OF Suc.prems(1)], goal_cases)
    case (1 o1)
    show ?case
    proof (cases "kraft_left ls (Suc k) < 0")
      case True
      then have "kraft_left ls max_code_bits < 0" using kraft_left_neg k by (metis Suc_leI)
      then show ?thesis using True by simp
    next
      case False
      have "m = max_code_bits - Suc k" using Suc.hyps(2) by simp
      from Suc.hyps(1) [OF this 1(1)] k False Suc.prems(4) 1(2) this
      show ?thesis by (cases "0 \<le> kraft_left ls max_code_bits") (simp_all del: upt_Suc)
    qed
  qed
  then show ?case unfolding l list.map using Suc.hyps(2) by simp
qed

lemma next_code_loop_sim:
  assumes "buf_ok ob" "k \<le> max_code_bits" "spaced (map (start_code ls) [0..<max_code_bits + 1]) ls"
  shows "simulates h (max_code_bits - k) 0 ob
    (next_code_loop h idx (map (\<lambda>l. cnt l ls) [0..<max_code_bits + 1]) [Suc k..<max_code_bits + 1]
       (start_code ls k) (map (start_code ls) [0..<Suc k] @ replicate (max_code_bits - k) 0) ob)
    (Inr (map (start_code ls) [0..<max_code_bits + 1], ob_bytes ob))"
  using assms(1,2)
proof (induction "max_code_bits - k" arbitrary: k ob)
  case 0
  then have "k = max_code_bits" by simp
  then show ?case using simulates_return [OF 0(2)] by (simp del: upt_Suc)
next
  case (Suc m)
  have k: "k < max_code_bits" using Suc.hyps(2) by simp
  have l: "[Suc k..<max_code_bits + 1] = Suc k # [Suc (Suc k)..<max_code_bits + 1]"
    using k by (intro upt_conv_Cons) simp
  have at: "map f [0..<max_code_bits + 1] ! j = f j" if "j \<le> max_code_bits" for f :: "nat \<Rightarrow> nat" and j
    using that by (simp del: upt_Suc)
  have "start_code ls k + cnt k ls \<le> 2 ^ k"
  proof (cases "k = 0")
    case False
    then show ?thesis using assms(3) k at unfolding spaced_def by (metis less_imp_le neq0_conv)
  qed (simp add: cnt_def)
  also have "(2 :: nat) ^ k \<le> 2 ^ 14" using k by (intro power_increasing) (simp_all add: max_code_bits_def)
  finally have checked: "Option.bind (checked_add16 (start_code ls k) (cnt k ls)) (\<lambda>v. checked_mul16 v 2) =
      Some (start_code ls (Suc k))"
    by (simp add: checked_add16_def checked_mul16_def)
  have upd: "(map (start_code ls) [0..<Suc k] @ replicate (max_code_bits - k) 0)[Suc k := start_code ls (Suc k)] =
      map (start_code ls) [0..<Suc (Suc k)] @ replicate (max_code_bits - Suc k) 0"
  proof -
    have "replicate (max_code_bits - k) (0 :: nat) = 0 # replicate (max_code_bits - Suc k) 0"
      using k by (metis Suc_diff_Suc replicate_Suc)
    then show ?thesis by (simp add: list_update_append)
  qed
  have "simulates h (1 + m) 0 ob
      (next_code_loop h idx (map (\<lambda>l. cnt l ls) [0..<max_code_bits + 1]) (Suc k # [Suc (Suc k)..<max_code_bits + 1])
        (start_code ls k) (map (start_code ls) [0..<Suc k] @ replicate (max_code_bits - k) 0) ob)
      (Inr (map (start_code ls) [0..<max_code_bits + 1], ob_bytes ob))"
    unfolding next_code_loop.simps diff_Suc_1 at [OF less_imp_le [OF k]] checked ok_or_simps and_then_simps upd
  proof (rule sim_charge [OF Suc.prems(1)], goal_cases)
    case (1 o1)
    have "m = max_code_bits - Suc k" using Suc.hyps(2) by simp
    from Suc.hyps(1) [OF this 1(1)] k 1(2) this show ?case by (simp del: upt_Suc)
  qed
  then show ?case unfolding l using Suc.hyps(2) by simp
qed

subsection \<open>The whole construction\<close>

definition table_for :: "huffman \<Rightarrow> u8 list \<Rightarrow> bool" where
  "table_for T ls \<longleftrightarrow>
     is_empty T = (\<forall>x \<in> set ls. x = 0) \<and>
     (\<not> is_empty T \<longrightarrow> (\<exists>n. holds_words (nodes T) n (canonical_codes ls)))"

lemma foldl_max_filter:
  "foldl (\<lambda>m x. max m (unat x)) m ls = foldl (\<lambda>m x. max m (unat x)) m (filter (\<lambda>x. x \<noteq> 0) ls)"
  by (induction ls arbitrary: m) auto

lemma single_code_length:
  "length (filter (\<lambda>x. x \<noteq> 0) ls) = 1 \<and> foldl (\<lambda>m x. max m (unat x)) 0 ls = 1 \<longleftrightarrow>
     filter (\<lambda>x. x \<noteq> 0) ls = [1]" for ls :: "u8 list"
proof -
  have "unat y = 1 \<longleftrightarrow> y = 1" for y :: u8 by (simp add: word_unat_eq_iff)
  then show ?thesis
    by (subst foldl_max_filter) (auto simp: length_Suc_conv)
qed

lemma Nil_in_prefixes_of: "C \<noteq> {} \<Longrightarrow> [] \<in> prefixes_of C"
  by (auto simp: prefixes_of_def)

lemma canonical_room:
  assumes "lengths_ok ls" "kraft_sum ls = 2 ^ max_code_bits \<or> kraft_sum ls \<le> 2 ^ max_code_bits \<and>
    length (filter (\<lambda>x. x \<noteq> 0) ls) = 1"
  shows "card (insert [] (prefixes_of (fst ` set (canonical_codes ls)))) \<le> max_huffman_nodes"
proof -
  let ?C = "fst ` set (canonical_codes ls)"
  have kr: "kraft_sum ls \<le> 2 ^ max_code_bits" using assms(2) by auto
  note can = canonical_words [OF assms(1) kr]
  have le: "\<forall>c \<in> ?C. length c \<le> max_code_bits" using can(3) by auto
  have fin: "finite (prefixes_of ?C)" by (simp add: finite_prefixes_of)
  show ?thesis
  proof (cases "kraft_sum ls = 2 ^ max_code_bits")
    case True
    then have "?C \<noteq> {} \<and> card (prefixes_of ?C) + 1 = 2 * card ?C"
      using complete_nodes [OF _ can(2) le] can(4) by simp
    moreover from this have "[] \<in> prefixes_of ?C" using Nil_in_prefixes_of by metis
    ultimately show ?thesis using can(5) by (simp add: insert_absorb max_huffman_nodes_def)
  next
    case False
    then have "length (canonical_codes ls) = 1" using assms(2) by (simp add: canonical_codes_def)
    then obtain w t where w: "canonical_codes ls = [(w, t)]" by (auto simp: length_Suc_conv)
    then have "insert [] (prefixes_of ?C) = set (prefixes w)" by (auto simp: prefixes_of_def)
    then have "card (insert [] (prefixes_of ?C)) \<le> length (prefixes w)" using card_length by metis
    then show ?thesis using le w by (simp add: max_huffman_nodes_def max_huffman_symbols_def max_code_bits_def)
  qed
qed

lemma build_table_sim:
  assumes ok: "lengths_ok ls" and nz: "\<not> (\<forall>x \<in> set ls. x = 0)"
    and fits: "kraft_sum ls = 2 ^ max_code_bits \<or> kraft_sum ls \<le> 2 ^ max_code_bits \<and>
      length (filter (\<lambda>x. x \<noteq> 0) ls) = 1"
  shows "\<exists>T. table_for T ls \<and> (\<forall>ob. buf_ok ob \<longrightarrow> simulates h (15 + 15 * length ls) 0 ob
    (and_then (next_code_loop h idx (map (\<lambda>l. cnt l ls) [0..<max_code_bits + 1]) [1..<max_code_bits + 1] 0
        (replicate (max_code_bits + 1) 0) ob) (\<lambda>(next_code, ob).
      and_then (insert_symbols h idx 0 ls next_code (replicate max_huffman_nodes empty_node) 1 ob)
        (\<lambda>((ns, node_count), ob). Inr (\<lparr>nodes = ns, is_empty = False\<rparr>, ob))))
    (Inr (T, ob_bytes ob)))"
proof -
  have le: "\<forall>x \<in> set ls. unat x \<le> max_code_bits" using ok by (simp add: lengths_ok_def)
  have kr: "kraft_sum ls \<le> 2 ^ max_code_bits" using fits by auto
  note sp = spaced_start [OF le kr] and can = canonical_words [OF ok kr]
  let ?nc = "map (start_code ls) [0..<max_code_bits + 1]"
  let ?ins = "insert_symbols h idx 0 ls ?nc (replicate max_huffman_nodes empty_node) 1"
  have "\<exists>ns' n'. holds_words ns' n' ([] @ assign_codes 0 ls ?nc) \<and>
    (\<forall>ob. buf_ok ob \<longrightarrow> simulates h (15 * length ls) 0 ob (?ins ob) (Inr ((ns', n'), ob_bytes ob)))"
    by (rule insert_symbols_sim [OF holds_no_words sp le])
      (use can(1,2) canonical_room [OF ok fits] ok in
        \<open>simp_all add: canonical_codes_def lengths_ok_def max_huffman_symbols_def\<close>)
  then obtain ns' n' where ins: "holds_words ns' n' (canonical_codes ls)"
    "\<And>ob. buf_ok ob \<Longrightarrow> simulates h (15 * length ls) 0 ob (?ins ob) (Inr ((ns', n'), ob_bytes ob))"
    unfolding canonical_codes_def append_Nil by blast
  let ?T = "\<lparr>nodes = ns', is_empty = False\<rparr>"
  have nc: "simulates h 15 0 ob (next_code_loop h idx (map (\<lambda>l. cnt l ls) [0..<max_code_bits + 1])
      [1..<max_code_bits + 1] 0 (replicate (max_code_bits + 1) 0) ob) (Inr (?nc, ob_bytes ob))"
    if "buf_ok ob" for ob
  proof -
    have "simulates h (max_code_bits - 0) 0 ob (next_code_loop h idx (map (\<lambda>l. cnt l ls) [0..<max_code_bits + 1])
        [Suc 0..<max_code_bits + 1] (start_code ls 0)
        (map (start_code ls) [0..<Suc 0] @ replicate (max_code_bits - 0) 0) ob) (Inr (?nc, ob_bytes ob))"
      by (rule next_code_loop_sim [OF that _ sp]) simp
    moreover have "map (start_code ls) [0..<Suc 0] @ replicate (max_code_bits - 0) 0 = replicate (max_code_bits + 1) 0"
      by simp
    moreover have "max_code_bits - 0 = 15" by (simp add: max_code_bits_def)
    ultimately show ?thesis unfolding start_code.simps One_nat_def by (simp only:)
  qed
  have put: "simulates h (15 * length ls + 0) (0 + 0) o1 (and_then (?ins o1)
      (\<lambda>((ns, node_count), ob). Inr (\<lparr>nodes = ns, is_empty = False\<rparr>, ob))) (Inr (?T, ob_bytes o1))"
    if "buf_ok o1" for o1
  proof (rule sim_then [OF ins(2) [OF that]], goal_cases)
    case (1 o2)
    then show ?case using simulates_return [of o2 h 0 0 ?T] by simp
  qed
  have "simulates h (15 + 15 * length ls) (0 + 0) ob
    (and_then (next_code_loop h idx (map (\<lambda>l. cnt l ls) [0..<max_code_bits + 1]) [1..<max_code_bits + 1] 0
        (replicate (max_code_bits + 1) 0) ob) (\<lambda>(next_code, ob).
      and_then (insert_symbols h idx 0 ls next_code (replicate max_huffman_nodes empty_node) 1 ob)
        (\<lambda>((ns, node_count), ob). Inr (\<lparr>nodes = ns, is_empty = False\<rparr>, ob))))
    (Inr (?T, ob_bytes ob))" if "buf_ok ob" for ob
  proof (rule sim_then [OF nc [OF that]], goal_cases)
    case (1 o1)
    from put [OF 1(1), unfolded 1(2)] show ?case by (simp only: add_0_right prod.case)
  qed
  moreover have "table_for ?T ls" using ins(1) nz by (auto simp: table_for_def)
  ultimately show ?thesis by auto
qed

lemma kraft_loop_whole:
  assumes "buf_ok ob" "lengths_ok ls"
  shows "simulates h 15 0 ob (kraft_loop h idx (drop 1 (map (\<lambda>l. cnt l ls) [0..<max_code_bits + 1])) 1 ob)
    (if kraft_sum ls \<le> 2 ^ max_code_bits then Inr (2 ^ max_code_bits - int (kraft_sum ls), ob_bytes ob)
     else Inl (invalid_flate idx))"
proof -
  have le: "\<forall>x \<in> set ls. unat x \<le> max_code_bits" using assms(2) by (simp add: lengths_ok_def)
  have K: "kraft_left ls max_code_bits = 2 ^ max_code_bits - int (kraft_sum ls)"
    using start_code_kraft [OF le] by (simp add: kraft_left_def)
  have K0: "kraft_left ls 0 = 1" by (simp add: kraft_left_def cnt_def)
  have le': "0 \<le> kraft_left ls max_code_bits \<longleftrightarrow> kraft_sum ls \<le> 2 ^ max_code_bits"
    unfolding K by (metis diff_ge_0_iff_ge of_nat_le_iff of_nat_numeral of_nat_power)
  have "simulates h (max_code_bits - 0) 0 ob
    (kraft_loop h idx (map (\<lambda>l. cnt l ls) [Suc 0..<max_code_bits + 1]) (kraft_left ls 0) ob)
    (if 0 \<le> kraft_left ls max_code_bits then Inr (kraft_left ls max_code_bits, ob_bytes ob)
     else Inl (invalid_flate idx))"
    by (rule kraft_loop_sim) (use assms K0 in \<open>simp_all add: lengths_ok_def max_huffman_symbols_def\<close>)
  moreover have "max_code_bits - 0 = 15" by (simp add: max_code_bits_def)
  moreover have "drop 1 (map (\<lambda>l. cnt l ls) [0..<max_code_bits + 1]) = map (\<lambda>l. cnt l ls) [Suc 0..<max_code_bits + 1]"
    by (simp add: drop_map drop_upt del: upt_Suc)
  ultimately show ?thesis unfolding le' K K0 by simp
qed

lemma kraft_sum_filter: "kraft_sum ls = kraft_sum (filter (\<lambda>x. x \<noteq> 0) ls)"
  by (induction ls) (auto simp: kraft_sum_def)

lemma build_coded_sim:
  assumes ok: "lengths_ok ls" and nz: "\<not> (\<forall>x \<in> set ls. x = 0)"
  defines "counts \<equiv> map (\<lambda>l. cnt l ls) [0..<max_code_bits + 1]"
    and "sc \<equiv> length (filter (\<lambda>x. x \<noteq> 0) ls)" and "mx \<equiv> foldl (\<lambda>m x. max m (unat x)) 0 ls"
  shows "\<exists>T. (huffman_accepts ls ae single \<longrightarrow> table_for T ls) \<and> (\<forall>ob. buf_ok ob \<longrightarrow>
      simulates h (30 + 15 * length ls) 0 ob
        (and_then (kraft_loop h idx (drop 1 counts) 1 ob) (\<lambda>(remaining, ob).
          if remaining > 0 \<and> \<not> (single \<and> sc = 1 \<and> mx = 1) then Inl (invalid_flate idx)
          else and_then (next_code_loop h idx counts [1..<max_code_bits + 1] 0
                 (replicate (max_code_bits + 1) 0) ob) (\<lambda>(next_code, ob).
            and_then (insert_symbols h idx 0 ls next_code (replicate max_huffman_nodes empty_node) 1 ob)
              (\<lambda>((ns, node_count), ob). Inr (\<lparr>nodes = ns, is_empty = False\<rparr>, ob)))))
        (if huffman_accepts ls ae single then Inr (T, ob_bytes ob) else Inl (invalid_flate idx)))"
    (is "\<exists>T. _ \<and> (\<forall>ob. _ \<longrightarrow> simulates h _ 0 ob (and_then (?kraft ob) ?k) (?p T ob))")
proof -
  let ?R = "2 ^ max_code_bits - int (kraft_sum ls)"
  have one: "sc = 1 \<and> mx = 1 \<longleftrightarrow> filter (\<lambda>x. x \<noteq> 0) ls = [1]"
    unfolding sc_def mx_def by (rule single_code_length)
  have light: "kraft_sum ls \<le> 2 ^ max_code_bits" if "filter (\<lambda>x. x \<noteq> 0) ls = [1]"
    unfolding kraft_sum_filter [of ls] that by (simp add: kraft_sum_def)
  have acc: "huffman_accepts ls ae single \<longleftrightarrow> kraft_sum ls = 2 ^ max_code_bits \<or> single \<and> sc = 1 \<and> mx = 1"
    unfolding one huffman_accepts_def if_not_P [OF nz] using ok by simp
  note kl = kraft_loop_whole [OF _ ok, of _ h idx, folded counts_def]
  show ?thesis
  proof (cases "huffman_accepts ls ae single")
    case True
    then have fits: "kraft_sum ls = 2 ^ max_code_bits \<or> kraft_sum ls \<le> 2 ^ max_code_bits \<and> sc = 1"
      and go: "\<not> (?R > 0 \<and> \<not> (single \<and> sc = 1 \<and> mx = 1))"
      using acc light one by auto
    obtain T where T: "table_for T ls" "\<And>ob. buf_ok ob \<Longrightarrow> simulates h (15 + 15 * length ls) 0 ob
        (and_then (next_code_loop h idx counts [1..<max_code_bits + 1] 0 (replicate (max_code_bits + 1) 0) ob)
          (\<lambda>(next_code, ob). and_then (insert_symbols h idx 0 ls next_code (replicate max_huffman_nodes empty_node) 1 ob)
            (\<lambda>((ns, node_count), ob). Inr (\<lparr>nodes = ns, is_empty = False\<rparr>, ob)))) (Inr (T, ob_bytes ob))"
      using build_table_sim [OF ok nz fits [unfolded sc_def], of h idx] unfolding counts_def by blast
    have "simulates h (15 + (15 + 15 * length ls)) (0 + 0) ob (and_then (?kraft ob) ?k) (Inr (T, ob_bytes ob))"
      if ob: "buf_ok ob" for ob
    proof (rule sim_then)
      show "simulates h 15 0 ob (?kraft ob) (Inr (?R, ob_bytes ob))" using kl [OF ob] fits by auto
      fix o1 assume "buf_ok o1" "ob_bytes o1 = ob_bytes ob"
      with T(2) [of o1] show "simulates h (15 + 15 * length ls) 0 o1
        (if ?R > 0 \<and> \<not> (single \<and> sc = 1 \<and> mx = 1) then Inl (invalid_flate idx)
          else and_then (next_code_loop h idx counts [1..<max_code_bits + 1] 0
                 (replicate (max_code_bits + 1) 0) o1) (\<lambda>(next_code, ob).
            and_then (insert_symbols h idx 0 ls next_code (replicate max_huffman_nodes empty_node) 1 ob)
              (\<lambda>((ns, node_count), ob). Inr (\<lparr>nodes = ns, is_empty = False\<rparr>, ob)))) (Inr (T, ob_bytes ob))"
        unfolding if_not_P [OF go] by simp
    qed
    then show ?thesis using True T(1) by (intro exI [of _ T]) simp
  next
    case False
    have "simulates h (15 + (15 + 15 * length ls)) (0 + 0) ob (and_then (?kraft ob) ?k) (Inl (invalid_flate idx))"
      if ob: "buf_ok ob" for ob
    proof (cases "kraft_sum ls \<le> 2 ^ max_code_bits")
      case True
      have "int (kraft_sum ls) < 2 ^ max_code_bits"
        using True False acc by (metis le_neq_implies_less of_nat_less_iff of_nat_numeral of_nat_power)
      then have stop: "?R > 0 \<and> \<not> (single \<and> sc = 1 \<and> mx = 1)" using False acc by simp
      show ?thesis
      proof (rule sim_then)
        show "simulates h 15 0 ob (?kraft ob) (Inr (?R, ob_bytes ob))" using kl [OF ob] True by simp
      qed (unfold if_P [OF stop], simp)
    next
      case heavy: False
      have "simulates h 15 0 ob (and_then (?kraft ob) ?k) (Inl (invalid_flate idx))"
        by (rule sim_error) (use kl [OF ob] heavy in simp)
      then show ?thesis by (rule simulates_mono) simp_all
    qed
    then show ?thesis using False by auto
  qed
qed

text \<open>Construction succeeds exactly on the accepted code lengths, and then holds the canonical words.\<close>

lemma huffman_build_sim:
  "\<exists>T. (huffman_accepts ls ae single \<longrightarrow> table_for T ls) \<and>
    (\<forall>ob. buf_ok ob \<longrightarrow> simulates h (30 + 16 * length ls) 0 ob (huffman_build h ls ae single idx ob)
      (if huffman_accepts ls ae single then Inr (T, ob_bytes ob) else Inl (invalid_flate idx)))"
proof (cases "length ls > max_huffman_symbols")
  case True
  then show ?thesis by (auto simp: huffman_accepts_def lengths_ok_def huffman_build_def)
next
  case short: False
  then have len: "length ls \<le> 288" by (simp add: max_huffman_symbols_def)
  let ?le = "\<forall>x \<in> set ls. unat x \<le> max_code_bits" and ?zero = "\<forall>x \<in> set ls. x = 0"
  let ?counts = "map (\<lambda>l. cnt l ls) [0..<max_code_bits + 1]"
  let ?sc = "length (filter (\<lambda>x. x \<noteq> 0) ls)" and ?mx = "foldl (\<lambda>m x. max m (unat x)) 0 ls"
  have "map (\<lambda>l. replicate (max_code_bits + 1) 0 ! l + cnt l ls) [0..<max_code_bits + 1] = ?counts"
    by (rule map_cong) (auto simp del: upt_Suc replicate_Suc)
  then have count: "simulates h (length ls) 0 ob (count_lengths h idx ls (replicate (max_code_bits + 1) 0) 0 0 ob)
      (if ?le then Inr ((?counts, ?sc, ?mx), ob_bytes ob) else Inl (invalid_flate idx))" if "buf_ok ob" for ob
    using count_lengths_sim [OF that, of "replicate (max_code_bits + 1) 0" 0 ls h idx 0] len
    by (simp only: length_replicate add_0)
  show ?thesis
  proof (cases ?le)
    case False
    have "simulates h (length ls) 0 ob (huffman_build h ls ae single idx ob) (Inl (invalid_flate idx))"
      if "buf_ok ob" for ob
      unfolding huffman_build_def if_not_P [OF short]
      by (rule sim_error) (use count [OF that] False in simp)
    from simulates_mono [OF this] show ?thesis using False by (auto simp: huffman_accepts_def lengths_ok_def)
  next
    case le: True
    have ok: "lengths_ok ls" using le short by (simp add: lengths_ok_def)
    have sc: "?sc = 0 \<longleftrightarrow> ?zero" by (simp add: filter_empty_conv)
    let ?rest = "\<lambda>ob. and_then (kraft_loop h idx (drop 1 ?counts) 1 ob) (\<lambda>(remaining, ob).
          if remaining > 0 \<and> \<not> (single \<and> ?sc = 1 \<and> ?mx = 1) then Inl (invalid_flate idx)
          else and_then (next_code_loop h idx ?counts [1..<max_code_bits + 1] 0
                 (replicate (max_code_bits + 1) 0) ob) (\<lambda>(next_code, ob).
            and_then (insert_symbols h idx 0 ls next_code (replicate max_huffman_nodes empty_node) 1 ob)
              (\<lambda>((ns, node_count), ob). Inr (\<lparr>nodes = ns, is_empty = False\<rparr>, ob))))"
    let ?body = "\<lambda>ob. if ?sc = 0
        then if ae then Inr (\<lparr>nodes = replicate max_huffman_nodes empty_node, is_empty = True\<rparr>, ob)
             else Inl (invalid_flate idx)
        else ?rest ob"
    have "\<exists>T. (huffman_accepts ls ae single \<longrightarrow> table_for T ls) \<and> (\<forall>ob. buf_ok ob \<longrightarrow>
        simulates h (30 + 15 * length ls) 0 ob (?body ob)
          (if huffman_accepts ls ae single then Inr (T, ob_bytes ob) else Inl (invalid_flate idx)))"
    proof (cases ?zero)
      case True
      then have acc: "huffman_accepts ls ae single \<longleftrightarrow> ae" using ok by (simp add: huffman_accepts_def)
      let ?T = "\<lparr>nodes = replicate max_huffman_nodes empty_node, is_empty = True\<rparr>"
      have "table_for ?T ls" using True by (simp add: table_for_def)
      then show ?thesis
        unfolding acc using True sc by (intro exI [of _ ?T]) simp
    next
      case nz: False
      then have "?sc \<noteq> 0" using sc by simp
      show ?thesis unfolding if_not_P [OF \<open>?sc \<noteq> 0\<close>] by (rule build_coded_sim [OF ok nz])
    qed
    then obtain T where T: "huffman_accepts ls ae single \<longrightarrow> table_for T ls"
      "\<And>ob. buf_ok ob \<Longrightarrow> simulates h (30 + 15 * length ls) 0 ob (?body ob)
          (if huffman_accepts ls ae single then Inr (T, ob_bytes ob) else Inl (invalid_flate idx))" by blast
    have "simulates h (length ls + (30 + 15 * length ls)) (0 + 0) ob (huffman_build h ls ae single idx ob)
        (if huffman_accepts ls ae single then Inr (T, ob_bytes ob) else Inl (invalid_flate idx))"
      if ob: "buf_ok ob" for ob
      unfolding huffman_build_def if_not_P [OF short]
    proof (rule sim_then [OF count [OF ob, unfolded if_P [OF le]]], goal_cases)
      case (1 o1)
      from T(2) [OF 1(1), unfolded 1(2)] show ?case by (simp only: prod.case)
    qed
    then show ?thesis using T(1) by (intro exI [of _ T]) (simp add: add.commute add.left_commute)
  qed
qed

end
