(* ===== verification/Filt_Flate.thy ===== *)
theory Filt_Flate
  imports Filt_Canonical
begin

text \<open>
  The Flate decoder (\<open>FlateDecoder\<close> of \<open>pdf-rs/filters/src/flate.rs\<close>): the bit reader over the input
  with its 32-bit buffer, stored, fixed and dynamic blocks, back references into the emitted output,
  and the zlib wrapper with its checksum. Every step spends the budget of the output buffer.
\<close>

section \<open>State\<close>

record flate =
  f_input :: "u8 list"
  f_cursor :: nat
  bit_buffer :: u32
  bit_count :: nat
  window_limit :: nat
  adler_a :: u32
  adler_b :: u32

type_synonym 'a flating = "('a \<times> flate) decoding"

definition length_bases :: "nat list" where
  "length_bases = [3, 4, 5, 6, 7, 8, 9, 10, 11, 13, 15, 17, 19, 23, 27, 31, 35, 43, 51, 59, 67, 83, 99, 115,
     131, 163, 195, 227, 258]"

definition length_extra_bits :: "nat list" where
  "length_extra_bits = [0, 0, 0, 0, 0, 0, 0, 0, 1, 1, 1, 1, 2, 2, 2, 2, 3, 3, 3, 3, 4, 4, 4, 4, 5, 5, 5, 5, 0]"

definition distance_bases :: "nat list" where
  "distance_bases = [1, 2, 3, 4, 5, 7, 9, 13, 17, 25, 33, 49, 65, 97, 129, 193, 257, 385, 513, 769, 1025, 1537,
     2049, 3073, 4097, 6145, 8193, 12289, 16385, 24577]"

definition distance_extra_bits :: "nat list" where
  "distance_extra_bits = [0, 0, 0, 0, 1, 1, 2, 2, 3, 3, 4, 4, 5, 5, 6, 6, 7, 7, 8, 8, 9, 9, 10, 10, 11, 11,
     12, 12, 13, 13]"

definition code_length_order :: "nat list" where
  "code_length_order = [16, 17, 18, 0, 8, 7, 9, 6, 10, 5, 11, 4, 12, 3, 13, 2, 14, 1, 15]"

definition adler_modulus :: u32 where "adler_modulus = 65521"

section \<open>The bit reader\<close>

definition take_input_byte :: "host \<Rightarrow> nat \<Rightarrow> flate \<Rightarrow> output_buffer \<Rightarrow> u8 flating" where
  "take_input_byte h idx f ob =
     (if f_cursor f < length (f_input f)
      then and_then (consume_input h ob) (\<lambda>(_, ob).
             Inr ((f_input f ! f_cursor f, f\<lparr>f_cursor := f_cursor f + 1\<rparr>), ob))
      else Inl (invalid_flate idx))"

definition read_aligned_byte :: "host \<Rightarrow> nat \<Rightarrow> flate \<Rightarrow> output_buffer \<Rightarrow> u8 flating" where
  "read_aligned_byte h idx f ob =
     (if bit_count f \<noteq> 0 then Inl (invalid_flate idx) else take_input_byte h idx f ob)"

definition read_u16_le :: "host \<Rightarrow> nat \<Rightarrow> flate \<Rightarrow> output_buffer \<Rightarrow> u16 flating" where
  "read_u16_le h idx f ob =
     and_then (read_aligned_byte h idx f ob) (\<lambda>((low, f), ob).
     and_then (read_aligned_byte h idx f ob) (\<lambda>((high, f), ob).
       Inr ((or (ucast low) (push_bit 8 (ucast high)), f), ob)))"

definition align_to_byte :: "flate \<Rightarrow> flate" where
  "align_to_byte f = f\<lparr>bit_buffer := 0, bit_count := 0\<rparr>"

function refill :: "host \<Rightarrow> nat \<Rightarrow> nat \<Rightarrow> flate \<Rightarrow> output_buffer \<Rightarrow> unit flating" where
  "refill h idx count f ob =
     (if bit_count f < count
      then and_then (take_input_byte h idx f ob) (\<lambda>((byte, f'), ob).
             refill h idx count
               (f'\<lparr>bit_buffer := or (bit_buffer f) (push_bit (bit_count f) (ucast byte)),
                    bit_count := bit_count f + 8\<rparr>) ob)
      else Inr (((), f), ob))"
  by pat_completeness auto
termination
  by (relation "measure (\<lambda>(h, idx, count, f, ob). count - bit_count f)") auto

declare refill.simps [simp del]

definition read_bits :: "host \<Rightarrow> nat \<Rightarrow> nat \<Rightarrow> flate \<Rightarrow> output_buffer \<Rightarrow> u32 flating" where
  "read_bits h idx count f ob =
     (if count > 15 then Inl (invalid_flate idx)
      else and_then (charge_algorithm h count ob) (\<lambda>(_, ob).
           and_then (refill h idx count f ob) (\<lambda>((_, f), ob).
             let bits = (if count = 0 then 0 else push_bit count 1 - 1);
                 v = and (bit_buffer f) bits
             in Inr ((v, f\<lparr>bit_buffer := drop_bit count (bit_buffer f),
                           bit_count := bit_count f - count\<rparr>), ob))))"

fun decode_symbol_loop ::
  "host \<Rightarrow> nat \<Rightarrow> huffman \<Rightarrow> nat \<Rightarrow> nat \<Rightarrow> flate \<Rightarrow> output_buffer \<Rightarrow> nat flating" where
  "decode_symbol_loop h idx table 0 node_index f ob = Inl (invalid_flate idx)"
| "decode_symbol_loop h idx table (Suc rounds) node_index f ob =
     and_then (read_bits h idx 1 f ob) (\<lambda>((b, f), ob).
       if \<not> node_index < length (nodes table) then Inl (invalid_flate idx)
       else if \<not> unat b < length (children (nodes table ! node_index)) then Inl (invalid_flate idx)
       else let c = children (nodes table ! node_index) ! unat b in
         if c = no_child then Inl (invalid_flate idx)
         else if \<not> c < length (nodes table) then Inl (invalid_flate idx)
         else case symbol (nodes table ! c) of
                Some s \<Rightarrow> Inr ((s, f), ob)
              | None \<Rightarrow> decode_symbol_loop h idx table rounds c f ob)"

definition decode_symbol :: "host \<Rightarrow> nat \<Rightarrow> huffman \<Rightarrow> flate \<Rightarrow> output_buffer \<Rightarrow> nat flating" where
  "decode_symbol h idx table f ob =
     (if is_empty table then Inl (invalid_flate idx)
      else decode_symbol_loop h idx table max_code_bits 0 f ob)"

definition emit :: "host \<Rightarrow> u8 \<Rightarrow> flate \<Rightarrow> output_buffer \<Rightarrow> unit flating" where
  "emit h byte f ob =
     and_then (push h byte ob) (\<lambda>(_, ob).
       let a = (adler_a f + ucast byte) mod adler_modulus;
           b = (adler_b f + a) mod adler_modulus
       in Inr (((), f\<lparr>adler_a := a, adler_b := b\<rparr>), ob))"

section \<open>Stored blocks\<close>

fun stored_bytes :: "host \<Rightarrow> nat \<Rightarrow> nat \<Rightarrow> flate \<Rightarrow> output_buffer \<Rightarrow> unit flating" where
  "stored_bytes h idx 0 f ob = Inr (((), f), ob)"
| "stored_bytes h idx (Suc n) f ob =
     and_then (read_aligned_byte h idx f ob) (\<lambda>((byte, f), ob).
     and_then (emit h byte f ob) (\<lambda>((_, f), ob). stored_bytes h idx n f ob))"

definition decode_stored_block :: "host \<Rightarrow> nat \<Rightarrow> flate \<Rightarrow> output_buffer \<Rightarrow> unit flating" where
  "decode_stored_block h idx f ob =
     (let f = align_to_byte f in
      and_then (read_u16_le h idx f ob) (\<lambda>((len, f), ob).
      and_then (read_u16_le h idx f ob) (\<lambda>((complement, f), ob).
        if len \<noteq> not complement then Inl (invalid_flate idx)
        else stored_bytes h idx (unat len) f ob)))"

section \<open>Code tables\<close>

text \<open>\<open>fill_code_lengths\<close> on the slice of the positions \<open>is\<close>.\<close>

fun fill_code_lengths :: "host \<Rightarrow> u8 list \<Rightarrow> nat list \<Rightarrow> u8 \<Rightarrow> output_buffer \<Rightarrow> u8 list decoding" where
  "fill_code_lengths h lengths [] v ob = Inr (lengths, ob)"
| "fill_code_lengths h lengths (i # is) v ob =
     and_then (charge_algorithm h 1 ob) (\<lambda>(_, ob). fill_code_lengths h (lengths[i := v]) is v ob)"

definition fixed_tables :: "host \<Rightarrow> nat \<Rightarrow> output_buffer \<Rightarrow> (huffman \<times> huffman) decoding" where
  "fixed_tables h idx ob =
     and_then (fill_code_lengths h (replicate 288 0) [0..<144] 8 ob) (\<lambda>(ll, ob).
     and_then (fill_code_lengths h ll [144..<256] 9 ob) (\<lambda>(ll, ob).
     and_then (fill_code_lengths h ll [256..<280] 7 ob) (\<lambda>(ll, ob).
     and_then (fill_code_lengths h ll [280..<288] 8 ob) (\<lambda>(ll, ob).
     and_then (fill_code_lengths h (replicate 32 0) [0..<32] 5 ob) (\<lambda>(dl, ob).
     and_then (huffman_build h ll False False idx ob) (\<lambda>(literal_length, ob).
     and_then (huffman_build h dl False False idx ob) (\<lambda>(distance, ob).
       Inr ((literal_length, distance), ob))))))))"

fun code_length_lengths ::
  "host \<Rightarrow> nat \<Rightarrow> nat list \<Rightarrow> u8 list \<Rightarrow> flate \<Rightarrow> output_buffer \<Rightarrow> u8 list flating" where
  "code_length_lengths h idx [] lengths f ob = Inr ((lengths, f), ob)"
| "code_length_lengths h idx (pos # positions) lengths f ob =
     and_then (read_bits h idx 3 f ob) (\<lambda>((v, f), ob).
     and_then (charge_algorithm h 1 ob) (\<lambda>(_, ob).
       code_length_lengths h idx positions (lengths[pos := (if unat v \<le> 255 then ucast v else 255)]) f ob))"

definition fill_zero_lengths ::
  "host \<Rightarrow> nat \<Rightarrow> u8 list \<Rightarrow> nat \<Rightarrow> nat \<Rightarrow> nat \<Rightarrow> output_buffer \<Rightarrow> (u8 list \<times> nat) decoding" where
  "fill_zero_lengths h idx lengths filled total_lengths repeat ob =
     and_then (ok_or (checked_add filled repeat) (invalid_flate idx)) (\<lambda>end_index.
       if end_index > total_lengths then Inl (invalid_flate idx)
       else and_then (fill_code_lengths h lengths [filled..<end_index] 0 ob) (\<lambda>(lengths, ob).
              Inr ((lengths, end_index), ob)))"

text \<open>One round of the loop over the code-length symbols: the new array and fill level.\<close>

definition code_length_symbol ::
  "host \<Rightarrow> nat \<Rightarrow> nat \<Rightarrow> u8 list \<Rightarrow> nat \<Rightarrow> nat \<Rightarrow> flate \<Rightarrow> output_buffer \<Rightarrow> (u8 list \<times> nat) flating" where
  "code_length_symbol h idx s lengths filled total_lengths f ob =
     (if s \<le> 15
      then and_then (charge_algorithm h 1 ob) (\<lambda>(_, ob).
             Inr (((lengths[filled := of_nat s], filled + 1), f), ob))
      else if s = 16
      then if filled = 0 then Inl (invalid_flate idx)
           else and_then (read_bits h idx 2 f ob) (\<lambda>((v, f), ob).
                and_then (ok_or (checked_add filled (unat v + 3)) (invalid_flate idx)) (\<lambda>end_index.
                  if end_index > total_lengths then Inl (invalid_flate idx)
                  else and_then (fill_code_lengths h lengths [filled..<end_index] (lengths ! (filled - 1)) ob)
                         (\<lambda>(lengths, ob). Inr (((lengths, end_index), f), ob))))
      else if s = 17
      then and_then (read_bits h idx 3 f ob) (\<lambda>((v, f), ob).
           and_then (fill_zero_lengths h idx lengths filled total_lengths (unat v + 3) ob) (\<lambda>(r, ob). Inr ((r, f), ob)))
      else if s = 18
      then and_then (read_bits h idx 7 f ob) (\<lambda>((v, f), ob).
           and_then (fill_zero_lengths h idx lengths filled total_lengths (unat v + 11) ob) (\<lambda>(r, ob). Inr ((r, f), ob)))
      else Inl (invalid_flate idx))"

lemma code_length_symbol_grows:
  "code_length_symbol h idx s lengths filled total_lengths f ob = Inr (((lengths', filled'), f'), ob') \<Longrightarrow> filled < filled'"
  by (auto simp: code_length_symbol_def fill_zero_lengths_def and_then_Inr_iff ok_or_Inr_iff checked_add_def
      split: if_splits)

function code_lengths_loop ::
  "host \<Rightarrow> nat \<Rightarrow> huffman \<Rightarrow> u8 list \<Rightarrow> nat \<Rightarrow> nat \<Rightarrow> flate \<Rightarrow> output_buffer \<Rightarrow> u8 list flating" where
  "code_lengths_loop h idx tree lengths filled total_lengths f ob =
     (if filled < total_lengths
      then and_then (decode_symbol h idx tree f ob) (\<lambda>((s, f), ob).
           and_then (code_length_symbol h idx s lengths filled total_lengths f ob) (\<lambda>(((lengths, filled), f), ob).
             code_lengths_loop h idx tree lengths filled total_lengths f ob))
      else Inr ((lengths, f), ob))"
  by pat_completeness auto
termination
  by (relation "measure (\<lambda>(h, idx, tree, lengths, filled, total_lengths, f, ob). total_lengths - filled)")
    (auto dest: code_length_symbol_grows)

declare code_lengths_loop.simps [simp del]

definition dynamic_tables :: "host \<Rightarrow> nat \<Rightarrow> flate \<Rightarrow> output_buffer \<Rightarrow> (huffman \<times> huffman) flating" where
  "dynamic_tables h idx f ob =
     and_then (read_bits h idx 5 f ob) (\<lambda>((v, f), ob).
     and_then (read_bits h idx 5 f ob) (\<lambda>((w, f), ob).
     and_then (read_bits h idx 4 f ob) (\<lambda>((x, f), ob).
       let literal_count = unat v + 257; distance_count = unat w + 1; code_length_count = unat x + 4 in
       if literal_count > 286 \<or> distance_count > 32 \<or> code_length_count > 19 then Inl (invalid_flate idx)
       else and_then (code_length_lengths h idx (take code_length_count code_length_order) (replicate 19 0) f ob)
         (\<lambda>((cl, f), ob).
       and_then (huffman_build h cl False False idx ob) (\<lambda>(tree, ob).
       and_then (ok_or (checked_add literal_count distance_count) (invalid_flate idx)) (\<lambda>total_lengths.
       and_then (code_lengths_loop h idx tree (replicate 318 0) 0 total_lengths f ob) (\<lambda>((lengths, f), ob).
         if lengths ! 256 = 0 then Inl (invalid_flate idx)
         else and_then (huffman_build h (take literal_count lengths) False True idx ob) (\<lambda>(literal_length, ob).
              and_then (huffman_build h (take distance_count (drop literal_count lengths)) True True idx ob)
                (\<lambda>(distance, ob). Inr (((literal_length, distance), f), ob))))))))))"

section \<open>Compressed blocks\<close>

fun copy_bytes :: "host \<Rightarrow> nat \<Rightarrow> nat \<Rightarrow> nat \<Rightarrow> flate \<Rightarrow> output_buffer \<Rightarrow> unit flating" where
  "copy_bytes h idx distance 0 f ob = Inr (((), f), ob)"
| "copy_bytes h idx distance (Suc n) f ob =
     and_then (ok_or (byte_at_distance ob distance) (invalid_flate idx)) (\<lambda>byte.
     and_then (emit h byte f ob) (\<lambda>((_, f), ob). copy_bytes h idx distance n f ob))"

text \<open>What one literal/length symbol does; the result says whether the block has ended.\<close>

definition block_symbol ::
  "host \<Rightarrow> nat \<Rightarrow> huffman \<Rightarrow> nat \<Rightarrow> flate \<Rightarrow> output_buffer \<Rightarrow> bool flating" where
  "block_symbol h idx distance s f ob =
     (if s \<le> 255
      then and_then (emit h (of_nat s) f ob) (\<lambda>((_, f), ob). Inr ((False, f), ob))
      else if s = 256 then Inr ((True, f), ob)
      else if s \<le> 285
      then let length_index = s - 257 in
        and_then (read_bits h idx (length_extra_bits ! length_index) f ob) (\<lambda>((extra_length, f), ob).
        and_then (ok_or (checked_add (length_bases ! length_index) (unat extra_length)) (invalid_flate idx))
          (\<lambda>len.
        and_then (decode_symbol h idx distance f ob) (\<lambda>((distance_symbol, f), ob).
          if distance_symbol > 29 then Inl (invalid_flate idx)
          else and_then (read_bits h idx (distance_extra_bits ! distance_symbol) f ob)
            (\<lambda>((extra_distance, f), ob).
          and_then (ok_or (checked_add (distance_bases ! distance_symbol) (unat extra_distance))
                      (invalid_flate idx)) (\<lambda>copy_distance.
            if copy_distance = 0 \<or> copy_distance > window_limit f \<or> copy_distance > length (ob_bytes ob)
            then Inl (invalid_flate idx)
            else and_then (copy_bytes h idx copy_distance len f ob) (\<lambda>((_, f), ob).
                   Inr ((False, f), ob)))))))
      else Inl (invalid_flate idx))"

text \<open>The bits that are left: what bounds the loops over symbols and blocks.\<close>

definition bits_left :: "flate \<Rightarrow> nat" where
  "bits_left f = bit_count f + 8 * (length (f_input f) - f_cursor f)"

lemma take_input_byte_Inr:
  "take_input_byte h idx f ob = Inr ((byte, f'), ob') \<Longrightarrow>
     f_cursor f < length (f_input f) \<and> f' = f\<lparr>f_cursor := f_cursor f + 1\<rparr> \<and> byte = f_input f ! f_cursor f"
  by (auto simp: take_input_byte_def and_then_Inr_iff split: if_splits)

lemma refill_bits_left:
  "refill h idx count f ob = Inr ((u, f'), ob') \<Longrightarrow> bits_left f' = bits_left f \<and> count \<le> bit_count f'"
proof (induction h idx count f ob arbitrary: u f' ob' rule: refill.induct)
  case (1 h idx count f ob)
  show ?case
  proof (cases "bit_count f < count")
    case True
    obtain byte f1 ob1 where t: "take_input_byte h idx f ob = Inr ((byte, f1), ob1)"
      and r: "refill h idx count (f1\<lparr>bit_buffer := or (bit_buffer f) (push_bit (bit_count f) (ucast byte)),
          bit_count := bit_count f + 8\<rparr>) ob1 = Inr ((u, f'), ob')"
      using 1(2) True by (subst (asm) refill.simps) (auto simp: and_then_Inr_iff)
    have "bits_left f' = bits_left (f1\<lparr>bit_buffer := or (bit_buffer f) (push_bit (bit_count f) (ucast byte)),
          bit_count := bit_count f + 8\<rparr>) \<and> count \<le> bit_count f'"
      using 1(1) [OF True t refl refl r] .
    then show ?thesis using take_input_byte_Inr [OF t] by (auto simp: bits_left_def)
  next
    case False
    then show ?thesis using 1(2) by (subst (asm) refill.simps) auto
  qed
qed

lemma read_bits_left: "read_bits h idx count f ob = Inr ((v, f'), ob') \<Longrightarrow> bits_left f' + count = bits_left f"
  by (auto simp: read_bits_def and_then_Inr_iff Let_def bits_left_def dest!: refill_bits_left split: if_splits)

lemma decode_symbol_left: "decode_symbol h idx table f ob = Inr ((s, f'), ob') \<Longrightarrow> bits_left f' < bits_left f"
proof -
  have "decode_symbol_loop h idx table n i f ob = Inr ((s, f'), ob') \<Longrightarrow> bits_left f' < bits_left f" for n i f ob
  proof (induction n arbitrary: i f ob)
    case (Suc n)
    obtain v f1 o1 where r: "read_bits h idx 1 f ob = Inr ((v, f1), o1)"
      and rest: "(s, f') = (s, f1) \<or> (\<exists>c. decode_symbol_loop h idx table n c f1 o1 = Inr ((s, f'), ob'))"
      using Suc.prems by (auto simp: and_then_Inr_iff Let_def split: if_splits option.splits)
    have "bits_left f1 < bits_left f" using read_bits_left [OF r] by simp
    then show ?case using rest Suc.IH [of _ f1 o1] less_trans by blast
  qed simp
  then show "decode_symbol h idx table f ob = Inr ((s, f'), ob') \<Longrightarrow> bits_left f' < bits_left f"
    by (auto simp: decode_symbol_def split: if_splits)
qed

lemma emit_left: "emit h byte f ob = Inr ((u, f'), ob') \<Longrightarrow> bits_left f' = bits_left f"
  by (auto simp: emit_def and_then_Inr_iff Let_def bits_left_def)

lemma copy_bytes_left: "copy_bytes h idx d n f ob = Inr ((u, f'), ob') \<Longrightarrow> bits_left f' = bits_left f"
  by (induction n arbitrary: f ob) (auto simp: and_then_Inr_iff dest: emit_left)

lemma block_symbol_left: "block_symbol h idx d s f ob = Inr ((u, f'), ob') \<Longrightarrow> bits_left f' \<le> bits_left f"
  by (auto simp: block_symbol_def and_then_Inr_iff Let_def split: if_splits
      dest!: emit_left copy_bytes_left read_bits_left decode_symbol_left)

function decode_compressed_block ::
  "host \<Rightarrow> nat \<Rightarrow> huffman \<Rightarrow> huffman \<Rightarrow> flate \<Rightarrow> output_buffer \<Rightarrow> unit flating" where
  "decode_compressed_block h idx literal_length distance f ob =
     and_then (decode_symbol h idx literal_length f ob) (\<lambda>((s, f), ob).
     and_then (block_symbol h idx distance s f ob) (\<lambda>((ended, f), ob).
       if ended then Inr (((), f), ob)
       else decode_compressed_block h idx literal_length distance f ob))"
  by pat_completeness auto
termination
  by (relation "measure (\<lambda>(h, idx, l, d, f, ob). bits_left f)")
    (auto dest!: decode_symbol_left block_symbol_left)

declare decode_compressed_block.simps [simp del]

section \<open>Blocks and the zlib wrapper\<close>

definition decode_block :: "host \<Rightarrow> nat \<Rightarrow> flate \<Rightarrow> output_buffer \<Rightarrow> bool flating" where
  "decode_block h idx f ob =
     and_then (charge_algorithm h 1 ob) (\<lambda>(_, ob).
     and_then (read_bits h idx 1 f ob) (\<lambda>((v, f), ob).
       let is_final_block = (v \<noteq> 0) in
     and_then (read_bits h idx 2 f ob) (\<lambda>((kind, f), ob).
     and_then (if kind = 0 then decode_stored_block h idx f ob
               else if kind = 1
               then and_then (fixed_tables h idx ob) (\<lambda>((literal_length, distance), ob).
                      decode_compressed_block h idx literal_length distance f ob)
               else if kind = 2
               then and_then (dynamic_tables h idx f ob) (\<lambda>(((literal_length, distance), f), ob).
                      decode_compressed_block h idx literal_length distance f ob)
               else Inl (invalid_flate idx)) (\<lambda>((_, f), ob).
       Inr ((is_final_block, f), ob)))))"

lemma read_aligned_left: "read_aligned_byte h idx f ob = Inr ((v, f'), ob') \<Longrightarrow> bits_left f' \<le> bits_left f"
  by (auto simp: read_aligned_byte_def bits_left_def dest!: take_input_byte_Inr split: if_splits)

lemma read_u16_left: "read_u16_le h idx f ob = Inr ((v, f'), ob') \<Longrightarrow> bits_left f' \<le> bits_left f"
  by (fastforce simp: read_u16_le_def and_then_Inr_iff dest!: read_aligned_left)

lemma stored_bytes_left: "stored_bytes h idx n f ob = Inr ((u, f'), ob') \<Longrightarrow> bits_left f' \<le> bits_left f"
proof (induction n arbitrary: f ob)
  case (Suc n)
  then show ?case
    by (fastforce simp: and_then_Inr_iff dest!: read_aligned_left emit_left)
qed simp

lemma decode_stored_left: "decode_stored_block h idx f ob = Inr ((u, f'), ob') \<Longrightarrow> bits_left f' \<le> bits_left f"
proof -
  assume "decode_stored_block h idx f ob = Inr ((u, f'), ob')"
  then have "bits_left f' \<le> bits_left (align_to_byte f)"
    by (fastforce simp: decode_stored_block_def and_then_Inr_iff Let_def split: if_splits
        dest!: read_u16_left stored_bytes_left)
  also have "\<dots> \<le> bits_left f" by (simp add: bits_left_def align_to_byte_def)
  finally show ?thesis .
qed

lemma compressed_block_left:
  "decode_compressed_block h idx l d f ob = Inr ((u, f'), ob') \<Longrightarrow> bits_left f' \<le> bits_left f"
proof (induction h idx l d f ob arbitrary: u f' ob' rule: decode_compressed_block.induct)
  case (1 h idx l d f ob)
  obtain s f1 o1 ended f2 o2 where st: "decode_symbol h idx l f ob = Inr ((s, f1), o1)"
      "block_symbol h idx d s f1 o1 = Inr ((ended, f2), o2)"
    and rest: "f' = f2 \<or> \<not> ended \<and> decode_compressed_block h idx l d f2 o2 = Inr ((u, f'), ob')"
    using 1(2) by (subst (asm) decode_compressed_block.simps) (auto simp: and_then_Inr_iff split: if_splits)
  have "bits_left f2 \<le> bits_left f" using decode_symbol_left [OF st(1)] block_symbol_left [OF st(2)] by simp
  then show ?case
    using rest 1(1) [OF st(1) refl refl st(2) refl refl] order_trans by blast
qed

lemma code_length_lengths_left:
  "code_length_lengths h idx ps ls f ob = Inr ((v, f'), ob') \<Longrightarrow> bits_left f' \<le> bits_left f"
proof (induction ps arbitrary: ls f ob)
  case (Cons p ps)
  then show ?case by (fastforce simp: and_then_Inr_iff dest!: read_bits_left)
qed simp

lemma code_length_symbol_left:
  "code_length_symbol h idx s ls n m f ob = Inr ((v, f'), ob') \<Longrightarrow> bits_left f' \<le> bits_left f"
  by (auto simp: code_length_symbol_def fill_zero_lengths_def and_then_Inr_iff split: if_splits dest!: read_bits_left)

lemma code_lengths_loop_left:
  "code_lengths_loop h idx t ls n m f ob = Inr ((v, f'), ob') \<Longrightarrow> bits_left f' \<le> bits_left f"
proof (induction h idx t ls n m f ob arbitrary: v f' ob' rule: code_lengths_loop.induct)
  case (1 h idx t ls n m f ob)
  show ?case
  proof (cases "n < m")
    case True
    obtain s f1 o1 ls2 n2 f2 o2 where st: "decode_symbol h idx t f ob = Inr ((s, f1), o1)"
        "code_length_symbol h idx s ls n m f1 o1 = Inr (((ls2, n2), f2), o2)"
        "code_lengths_loop h idx t ls2 n2 m f2 o2 = Inr ((v, f'), ob')"
      using 1(2) True by (subst (asm) code_lengths_loop.simps) (auto simp: and_then_Inr_iff)
    have "bits_left f' \<le> bits_left f2" using 1(1) [OF True st(1) refl refl st(2) refl refl refl st(3)] .
    then show ?thesis using decode_symbol_left [OF st(1)] code_length_symbol_left [OF st(2)] by simp
  next
    case False
    then show ?thesis using 1(2) by (subst (asm) code_lengths_loop.simps) auto
  qed
qed

lemma dynamic_tables_left: "dynamic_tables h idx f ob = Inr ((v, f'), ob') \<Longrightarrow> bits_left f' \<le> bits_left f"
proof -
  assume "dynamic_tables h idx f ob = Inr ((v, f'), ob')"
  then obtain f1 f2 f3 f4 where
    "bits_left f1 \<le> bits_left f" "bits_left f2 \<le> bits_left f1" "bits_left f3 \<le> bits_left f2"
    "bits_left f4 \<le> bits_left f3" "bits_left f' \<le> bits_left f4"
    by (auto simp: dynamic_tables_def and_then_Inr_iff Let_def split: if_splits
        dest!: read_bits_left code_length_lengths_left code_lengths_loop_left) force
  then show ?thesis by linarith
qed

lemma decode_block_left: "decode_block h idx f ob = Inr ((v, f'), ob') \<Longrightarrow> bits_left f' < bits_left f"
proof -
  assume "decode_block h idx f ob = Inr ((v, f'), ob')"
  then obtain o1 w f1 o2 k f2 o3 where st: "read_bits h idx 1 f o1 = Inr ((w, f1), o2)"
      "read_bits h idx 2 f1 o2 = Inr ((k, f2), o3)"
    and le: "bits_left f' \<le> bits_left f2"
    by (fastforce simp: decode_block_def and_then_Inr_iff Let_def split: if_splits
        dest!: decode_stored_left compressed_block_left dynamic_tables_left)
  then show ?thesis using read_bits_left [OF st(1)] read_bits_left [OF st(2)] by simp
qed

function decode_blocks :: "host \<Rightarrow> nat \<Rightarrow> flate \<Rightarrow> output_buffer \<Rightarrow> unit flating" where
  "decode_blocks h idx f ob =
     and_then (decode_block h idx f ob) (\<lambda>((is_final_block, f), ob).
       if is_final_block then Inr (((), f), ob) else decode_blocks h idx f ob)"
  by pat_completeness auto
termination
  by (relation "measure (\<lambda>(h, idx, f, ob). bits_left f)") (auto dest: decode_block_left)

declare decode_blocks.simps [simp del]

definition from_be_bytes :: "u8 \<Rightarrow> u8 \<Rightarrow> u8 \<Rightarrow> u8 \<Rightarrow> u32" where
  "from_be_bytes a b c d = or (or (push_bit 24 (ucast a)) (push_bit 16 (ucast b)))
     (or (push_bit 8 (ucast c)) (ucast d))"

definition zlib_header :: "host \<Rightarrow> nat \<Rightarrow> flate \<Rightarrow> output_buffer \<Rightarrow> unit flating" where
  "zlib_header h idx f ob =
     and_then (read_aligned_byte h idx f ob) (\<lambda>((cmf, f), ob).
     and_then (read_aligned_byte h idx f ob) (\<lambda>((flg, f), ob).
       let header = or (push_bit 8 (ucast cmf)) (ucast flg) :: u16;
           compression_method = and cmf 15;
           window_code = drop_bit 4 cmf
       in if compression_method \<noteq> 8 \<or> window_code > 7 \<or> header mod 31 \<noteq> 0 then Inl (invalid_flate idx)
          else if and flg 32 \<noteq> 0 then Inl (for_code UnsupportedFlateDictionary (Some idx))
          else Inr (((), f\<lparr>window_limit := 2 ^ (unat window_code + 8)\<rparr>), ob)))"

definition zlib_trailer :: "host \<Rightarrow> nat \<Rightarrow> flate \<Rightarrow> output_buffer \<Rightarrow> unit flating" where
  "zlib_trailer h idx f ob =
     (let f = align_to_byte f in
      and_then (read_aligned_byte h idx f ob) (\<lambda>((a, f), ob).
      and_then (read_aligned_byte h idx f ob) (\<lambda>((b, f), ob).
      and_then (read_aligned_byte h idx f ob) (\<lambda>((c, f), ob).
      and_then (read_aligned_byte h idx f ob) (\<lambda>((d, f), ob).
        let expected_adler = from_be_bytes a b c d;
            actual_adler = or (push_bit 16 (adler_b f)) (adler_a f)
        in if expected_adler \<noteq> actual_adler then Inl (invalid_flate idx)
           else if f_cursor f \<noteq> length (f_input f)
           then and_then (read_aligned_byte h idx f ob) (\<lambda>_. Inl (for_code TrailingData (Some idx)))
           else Inr (((), f), ob))))))"

definition flate_run :: "host \<Rightarrow> nat \<Rightarrow> flate \<Rightarrow> output_buffer \<Rightarrow> unit flating" where
  "flate_run h idx f ob =
     and_then (zlib_header h idx f ob) (\<lambda>((_, f), ob).
     and_then (decode_blocks h idx f ob) (\<lambda>((_, f), ob). zlib_trailer h idx f ob))"

definition flate_new :: "u8 list \<Rightarrow> flate" where
  "flate_new input =
     \<lparr>f_input = input, f_cursor = 0, bit_buffer = 0, bit_count = 0, window_limit = 0,
      adler_a = 1, adler_b = 0\<rparr>"

definition decode_flate ::
  "host \<Rightarrow> u8 list \<Rightarrow> nat \<Rightarrow> bool \<Rightarrow> nat \<Rightarrow> decode_budget \<Rightarrow> decode_error + (vec \<times> decode_budget)" where
  "decode_flate h input incap final idx b =
     and_then (flate_run h idx (flate_new input)
        (output_buffer_new incap final (Some idx) (saturating_mul (length input) 4) b))
       (\<lambda>(_, ob). Inr (finish ob))"

end
