(* ===== verification/Filt_Deflate.thy ===== *)
theory Filt_Deflate
  imports Filt_Flate
begin

text \<open>
  Deflate over a list of bits: the reference for the Flate decoder of \<open>pdf-rs/filters/src/flate.rs\<close>,
  without bit buffer, node arrays, budget or host. A stream is the list of the bits of its bytes, the
  least significant bit of a byte first; a code is the list of its words with their symbols.
\<close>

section \<open>Reading\<close>

definition byte_bits :: "u8 \<Rightarrow> bool list" where
  "byte_bits x = map (bit x) [0..<8]"

definition bits_of :: "u8 list \<Rightarrow> bool list" where
  "bits_of xs = concat (map byte_bits xs)"

definition bits_value :: "bool list \<Rightarrow> nat" where
  "bits_value bs = horner_sum of_bool 2 bs"

definition get_bits :: "nat \<Rightarrow> nat \<Rightarrow> bool list \<Rightarrow> decode_error + (nat \<times> bool list)" where
  "get_bits idx n bs =
     (if n \<le> length bs then Inr (bits_value (take n bs), drop n bs) else Inl (invalid_flate idx))"

definition get_symbol :: "nat \<Rightarrow> (bool list \<times> nat) list \<Rightarrow> bool list \<Rightarrow> decode_error + (nat \<times> bool list)" where
  "get_symbol idx C bs =
     (case find (\<lambda>(w, s). w \<noteq> [] \<and> prefix w bs) C of
        None \<Rightarrow> Inl (invalid_flate idx)
      | Some (w, s) \<Rightarrow> Inr (s, drop (length w) bs))"

fun get_bytes :: "nat \<Rightarrow> nat \<Rightarrow> bool list \<Rightarrow> decode_error + (u8 list \<times> bool list)" where
  "get_bytes idx 0 bs = Inr ([], bs)"
| "get_bytes idx (Suc n) bs =
     and_then (get_bits idx 8 bs) (\<lambda>(v, bs).
     and_then (get_bytes idx n bs) (\<lambda>(xs, bs). Inr (of_nat v # xs, bs)))"

definition aligned :: "bool list \<Rightarrow> bool list" where
  "aligned bs = drop (length bs mod 8) bs"

lemma get_symbol_less: "get_symbol idx C bs = Inr (s, bs') \<Longrightarrow> length bs' < length bs"
  by (auto simp: get_symbol_def find_Some_iff prefix_def split: option.splits)

lemma get_bits_length: "get_bits idx n bs = Inr (v, bs') \<Longrightarrow> length bs' + n = length bs"
  by (auto simp: get_bits_def split: if_splits)

lemma get_bytes_length: "get_bytes idx n bs = Inr (xs, bs') \<Longrightarrow> length bs' + 8 * n = length bs \<and> length xs = n"
  by (induction n arbitrary: bs xs) (fastforce simp: and_then_Inr_iff dest!: get_bits_length)+

section \<open>Blocks\<close>

definition deflate_stored :: "nat \<Rightarrow> bool list \<Rightarrow> u8 list \<Rightarrow> decode_error + (bool list \<times> u8 list)" where
  "deflate_stored idx bs out =
     and_then (get_bits idx 16 (aligned bs)) (\<lambda>(len, bs).
     and_then (get_bits idx 16 bs) (\<lambda>(nlen, bs).
       if len + nlen \<noteq> 65535 then Inl (invalid_flate idx)
       else and_then (get_bytes idx len bs) (\<lambda>(xs, bs). Inr (bs, out @ xs))))"

fun copy_from :: "nat \<Rightarrow> nat \<Rightarrow> u8 list \<Rightarrow> u8 list" where
  "copy_from d 0 out = out"
| "copy_from d (Suc n) out = copy_from d n (out @ [out ! (length out - d)])"

definition deflate_symbol ::
  "nat \<Rightarrow> (bool list \<times> nat) list \<Rightarrow> nat \<Rightarrow> nat \<Rightarrow> bool list \<Rightarrow> u8 list
     \<Rightarrow> decode_error + (bool \<times> bool list \<times> u8 list)" where
  "deflate_symbol idx D window s bs out =
     (if s \<le> 255 then Inr (False, bs, out @ [of_nat s])
      else if s = 256 then Inr (True, bs, out)
      else if s \<le> 285
      then and_then (get_bits idx (length_extra_bits ! (s - 257)) bs) (\<lambda>(e, bs).
           and_then (get_symbol idx D bs) (\<lambda>(d, bs).
             if d > 29 then Inl (invalid_flate idx)
             else and_then (get_bits idx (distance_extra_bits ! d) bs) (\<lambda>(x, bs).
               let dist = distance_bases ! d + x in
               if dist > window \<or> dist > length out then Inl (invalid_flate idx)
               else Inr (False, bs, copy_from dist (length_bases ! (s - 257) + e) out))))
      else Inl (invalid_flate idx))"

lemma deflate_symbol_length:
  "deflate_symbol idx D w s bs out = Inr (e, bs', out') \<Longrightarrow> length bs' \<le> length bs"
  by (auto simp: deflate_symbol_def and_then_Inr_iff Let_def split: if_splits
      dest!: get_bits_length get_symbol_less)

function deflate_codes ::
  "nat \<Rightarrow> (bool list \<times> nat) list \<Rightarrow> (bool list \<times> nat) list \<Rightarrow> nat \<Rightarrow> bool list \<Rightarrow> u8 list
     \<Rightarrow> decode_error + (bool list \<times> u8 list)" where
  "deflate_codes idx L D window bs out =
     and_then (get_symbol idx L bs) (\<lambda>(s, bs).
     and_then (deflate_symbol idx D window s bs out) (\<lambda>(ended, bs, out).
       if ended then Inr (bs, out) else deflate_codes idx L D window bs out))"
  by pat_completeness auto
termination
  by (relation "measure (\<lambda>(idx, L, D, window, bs, out). length bs)")
    (auto dest!: get_symbol_less deflate_symbol_length)

declare deflate_codes.simps [simp del]

lemma deflate_codes_length:
  "deflate_codes idx L D w bs out = Inr (bs', out') \<Longrightarrow> length bs' \<le> length bs"
proof (induction idx L D w bs out arbitrary: bs' out' rule: deflate_codes.induct)
  case (1 idx L D w bs out)
  obtain s bs1 e bs2 out2 where st: "get_symbol idx L bs = Inr (s, bs1)"
      "deflate_symbol idx D w s bs1 out = Inr (e, bs2, out2)"
      "(if e then Inr (bs2, out2) else deflate_codes idx L D w bs2 out2) = Inr (bs', out')"
    using 1(2) by (subst (asm) deflate_codes.simps) (auto simp: and_then_Inr_iff)
  have "length bs2 \<le> length bs" using get_symbol_less [OF st(1)] deflate_symbol_length [OF st(2)] by simp
  then show ?case using st 1(1) [OF st(1) refl st(2) refl refl] by (auto split: if_splits intro: order_trans)
qed

section \<open>Dynamic codes\<close>

fun get_code_length_lengths ::
  "nat \<Rightarrow> nat list \<Rightarrow> u8 list \<Rightarrow> bool list \<Rightarrow> decode_error + (u8 list \<times> bool list)" where
  "get_code_length_lengths idx [] ls bs = Inr (ls, bs)"
| "get_code_length_lengths idx (p # ps) ls bs =
     and_then (get_bits idx 3 bs) (\<lambda>(v, bs). get_code_length_lengths idx ps (ls[p := of_nat v]) bs)"

definition deflate_length_symbol ::
  "nat \<Rightarrow> nat \<Rightarrow> nat \<Rightarrow> u8 list \<Rightarrow> bool list \<Rightarrow> decode_error + (u8 list \<times> bool list)" where
  "deflate_length_symbol idx n s ls bs =
     (let repeat = (\<lambda>v count bs. if length ls + count > n then Inl (invalid_flate idx)
                                 else Inr (ls @ replicate count v, bs)) in
      if s \<le> 15 then Inr (ls @ [of_nat s], bs)
      else if s = 16
      then if ls = [] then Inl (invalid_flate idx)
           else and_then (get_bits idx 2 bs) (\<lambda>(v, bs). repeat (last ls) (v + 3) bs)
      else if s = 17 then and_then (get_bits idx 3 bs) (\<lambda>(v, bs). repeat 0 (v + 3) bs)
      else if s = 18 then and_then (get_bits idx 7 bs) (\<lambda>(v, bs). repeat 0 (v + 11) bs)
      else Inl (invalid_flate idx))"

lemma deflate_length_symbol_grows:
  "deflate_length_symbol idx n s ls bs = Inr (ls', bs') \<Longrightarrow> length ls < length ls' \<and> length bs' \<le> length bs"
  by (auto simp: deflate_length_symbol_def and_then_Inr_iff Let_def split: if_splits dest!: get_bits_length)

function deflate_lengths ::
  "nat \<Rightarrow> (bool list \<times> nat) list \<Rightarrow> nat \<Rightarrow> u8 list \<Rightarrow> bool list \<Rightarrow> decode_error + (u8 list \<times> bool list)" where
  "deflate_lengths idx C n ls bs =
     (if length ls < n
      then and_then (get_symbol idx C bs) (\<lambda>(s, bs).
           and_then (deflate_length_symbol idx n s ls bs) (\<lambda>(ls, bs). deflate_lengths idx C n ls bs))
      else Inr (ls, bs))"
  by pat_completeness auto
termination
  by (relation "measure (\<lambda>(idx, C, n, ls, bs). n - length ls)") (auto dest!: deflate_length_symbol_grows)

declare deflate_lengths.simps [simp del]

definition deflate_dynamic ::
  "nat \<Rightarrow> bool list \<Rightarrow> decode_error + (((bool list \<times> nat) list \<times> (bool list \<times> nat) list) \<times> bool list)" where
  "deflate_dynamic idx bs =
     and_then (get_bits idx 5 bs) (\<lambda>(v, bs).
     and_then (get_bits idx 5 bs) (\<lambda>(w, bs).
     and_then (get_bits idx 4 bs) (\<lambda>(x, bs).
       let hlit = v + 257; hdist = w + 1; hclen = x + 4 in
       if hlit > 286 \<or> hdist > 32 \<or> hclen > 19 then Inl (invalid_flate idx)
       else and_then (get_code_length_lengths idx (take hclen code_length_order) (replicate 19 0) bs) (\<lambda>(cl, bs).
         if \<not> huffman_accepts cl False False then Inl (invalid_flate idx)
         else and_then (deflate_lengths idx (canonical_codes cl) (hlit + hdist) [] bs) (\<lambda>(ls, bs).
           if ls ! 256 = 0 \<or> \<not> huffman_accepts (take hlit ls) False True \<or>
              \<not> huffman_accepts (drop hlit ls) True True
           then Inl (invalid_flate idx)
           else Inr ((canonical_codes (take hlit ls), canonical_codes (drop hlit ls)), bs))))))"

definition fixed_literal_lengths :: "u8 list" where
  "fixed_literal_lengths = replicate 144 8 @ replicate 112 9 @ replicate 24 7 @ replicate 8 8"

definition fixed_distance_lengths :: "u8 list" where
  "fixed_distance_lengths = replicate 32 5"

definition deflate_block ::
  "nat \<Rightarrow> nat \<Rightarrow> bool list \<Rightarrow> u8 list \<Rightarrow> decode_error + (bool \<times> bool list \<times> u8 list)" where
  "deflate_block idx window bs out =
     and_then (get_bits idx 1 bs) (\<lambda>(v, bs).
     and_then (get_bits idx 2 bs) (\<lambda>(kind, bs).
     and_then (if kind = 0 then deflate_stored idx bs out
               else if kind = 1
               then deflate_codes idx (canonical_codes fixed_literal_lengths)
                      (canonical_codes fixed_distance_lengths) window bs out
               else if kind = 2
               then and_then (deflate_dynamic idx bs) (\<lambda>((L, D), bs). deflate_codes idx L D window bs out)
               else Inl (invalid_flate idx)) (\<lambda>(bs, out).
       Inr (v \<noteq> 0, bs, out))))"

lemma aligned_length: "length (aligned bs) \<le> length bs"
  by (simp add: aligned_def)

lemma deflate_stored_length: "deflate_stored idx bs out = Inr (bs', out') \<Longrightarrow> length bs' \<le> length bs"
  using aligned_length [of bs]
  by (auto simp: deflate_stored_def and_then_Inr_iff split: if_splits dest!: get_bits_length get_bytes_length)

lemma get_code_length_lengths_length:
  "get_code_length_lengths idx ps ls bs = Inr (ls', bs') \<Longrightarrow> length ls' = length ls \<and> length bs' \<le> length bs"
  by (induction ps arbitrary: ls bs) (fastforce simp: and_then_Inr_iff dest!: get_bits_length)+

lemma deflate_lengths_length:
  "deflate_lengths idx C n ls bs = Inr (ls', bs') \<Longrightarrow> length bs' \<le> length bs"
proof (induction idx C n ls bs arbitrary: ls' bs' rule: deflate_lengths.induct)
  case (1 idx C n ls bs)
  show ?case
  proof (cases "length ls < n")
    case True
    obtain s bs1 ls2 bs2 where st: "get_symbol idx C bs = Inr (s, bs1)"
        "deflate_length_symbol idx n s ls bs1 = Inr (ls2, bs2)" "deflate_lengths idx C n ls2 bs2 = Inr (ls', bs')"
      using 1(2) True by (subst (asm) deflate_lengths.simps) (auto simp: and_then_Inr_iff)
    have "length bs' \<le> length bs2" using 1(1) [OF True st(1) refl st(2) refl st(3)] .
    then show ?thesis using get_symbol_less [OF st(1)] deflate_length_symbol_grows [OF st(2)] by simp
  next
    case False
    then show ?thesis using 1(2) by (subst (asm) deflate_lengths.simps) simp
  qed
qed

lemma deflate_dynamic_length: "deflate_dynamic idx bs = Inr (LD, bs') \<Longrightarrow> length bs' \<le> length bs"
  by (fastforce simp: deflate_dynamic_def and_then_Inr_iff Let_def split: if_splits
      dest!: get_bits_length get_code_length_lengths_length deflate_lengths_length)

lemma deflate_block_less: "deflate_block idx w bs out = Inr (e, bs', out') \<Longrightarrow> length bs' < length bs"
  by (fastforce simp: deflate_block_def and_then_Inr_iff split: if_splits
      dest!: get_bits_length deflate_stored_length deflate_codes_length deflate_dynamic_length)

function deflate_blocks :: "nat \<Rightarrow> nat \<Rightarrow> bool list \<Rightarrow> u8 list \<Rightarrow> decode_error + (bool list \<times> u8 list)" where
  "deflate_blocks idx window bs out =
     and_then (deflate_block idx window bs out) (\<lambda>(last, bs, out).
       if last then Inr (bs, out) else deflate_blocks idx window bs out)"
  by pat_completeness auto
termination
  by (relation "measure (\<lambda>(idx, window, bs, out). length bs)") (auto dest: deflate_block_less)

declare deflate_blocks.simps [simp del]

section \<open>The zlib wrapper\<close>

definition adler_step :: "u32 \<times> u32 \<Rightarrow> u8 \<Rightarrow> u32 \<times> u32" where
  "adler_step ab x = (let a = (fst ab + ucast x) mod adler_modulus in (a, (snd ab + a) mod adler_modulus))"

definition adler32 :: "u8 list \<Rightarrow> u32 \<times> u32" where
  "adler32 xs = foldl adler_step (1, 0) xs"

definition zlib_window :: "nat \<Rightarrow> u8 list \<Rightarrow> decode_error + nat" where
  "zlib_window idx input =
     (case input of
        cmf # flg # _ \<Rightarrow>
          if and cmf 15 \<noteq> 8 \<or> drop_bit 4 cmf > 7 \<or> (256 * unat cmf + unat flg) mod 31 \<noteq> 0
          then Inl (invalid_flate idx)
          else if and flg 32 \<noteq> 0 then Inl (for_code UnsupportedFlateDictionary (Some idx))
          else Inr (2 ^ (unat (drop_bit 4 cmf) + 8))
      | _ \<Rightarrow> Inl (invalid_flate idx))"

definition flate_reference :: "nat \<Rightarrow> u8 list \<Rightarrow> decode_error + u8 list" where
  "flate_reference idx input =
     and_then (zlib_window idx input) (\<lambda>window.
     and_then (deflate_blocks idx window (bits_of (drop 2 input)) []) (\<lambda>(bs, out).
     and_then (get_bytes idx 4 (aligned bs)) (\<lambda>(sum, rest).
       if from_be_bytes (sum ! 0) (sum ! 1) (sum ! 2) (sum ! 3) \<noteq>
          or (push_bit 16 (snd (adler32 out))) (fst (adler32 out))
       then Inl (invalid_flate idx)
       else if rest \<noteq> [] then Inl (for_code TrailingData (Some idx))
       else Inr out)))"

end
