(* ===== verification/Filt_FlateSim.thy ===== *)
theory Filt_FlateSim
  imports Filt_Deflate
begin

text \<open>
  The Flate decoder refines Deflate over bits: the state of the bit reader stands for the bits that
  are left, the node arrays for code words, and fuel is paid for by the bits that are consumed.
\<close>

section \<open>The bit reader\<close>

definition rem_bits :: "flate \<Rightarrow> bool list" where
  "rem_bits f = map (bit (bit_buffer f)) [0..<bit_count f] @ bits_of (drop (f_cursor f) (f_input f))"

definition same_job :: "flate \<Rightarrow> flate \<Rightarrow> bool" where
  "same_job f f' \<longleftrightarrow> f_input f' = f_input f \<and> window_limit f' = window_limit f \<and>
     adler_a f' = adler_a f \<and> adler_b f' = adler_b f"

definition reader_ok :: "flate \<Rightarrow> bool" where
  "reader_ok f \<longleftrightarrow> f_cursor f \<le> length (f_input f) \<and> bit_count f \<le> 24 \<and>
     take_bit (bit_count f) (bit_buffer f) = bit_buffer f"

lemma length_byte_bits [simp]: "length (byte_bits x) = 8"
  by (simp add: byte_bits_def)

lemma bits_of_simps [simp]: "bits_of [] = []" "bits_of (x # xs) = byte_bits x @ bits_of xs"
  by (simp_all add: bits_of_def)

lemma length_bits_of [simp]: "length (bits_of xs) = 8 * length xs"
  by (induction xs) auto

lemma length_rem_bits: "reader_ok f \<Longrightarrow> length (rem_bits f) = bits_left f"
  by (simp add: rem_bits_def bits_left_def reader_ok_def)

lemma buffer_append:
  assumes "take_bit n b = b" "n \<le> 24"
  shows "map (bit (or b (push_bit n (ucast (x :: u8)) :: u32))) [0..<n + 8] = map (bit b) [0..<n] @ byte_bits x"
    "take_bit (n + 8) (or b (push_bit n (ucast x))) = or b (push_bit n (ucast (x :: u8)))"
proof -
  have high: "\<not> bit b k" if "n \<le> k" for k
    using assms(1) that by (metis bit_take_bit_iff not_less)
  show "map (bit (or b (push_bit n (ucast x) :: u32))) [0..<n + 8] = map (bit b) [0..<n] @ byte_bits x"
    by (rule nth_equalityI)
      (use assms(2) high in \<open>auto simp: nth_append byte_bits_def bit_simps simp del: upt_Suc\<close>)
  show "take_bit (n + 8) (or b (push_bit n (ucast x))) = or b (push_bit n (ucast x))"
    by (rule bit_word_eqI) (use assms(2) high in \<open>auto simp: bit_simps dest: bit_imp_le_length\<close>)
qed

lemma refill_step:
  assumes "reader_ok f" "bit_count f \<le> 14" "f_cursor f < length (f_input f)"
  defines "f1 \<equiv> f\<lparr>f_cursor := f_cursor f + 1,
      bit_buffer := or (bit_buffer f) (push_bit (bit_count f) (ucast (f_input f ! f_cursor f))),
      bit_count := bit_count f + 8\<rparr>"
  shows "reader_ok f1 \<and> rem_bits f1 = rem_bits f \<and> same_job f f1"
proof -
  have "drop (f_cursor f) (f_input f) = f_input f ! f_cursor f # drop (f_cursor f + 1) (f_input f)"
    using assms(3) by (simp add: Cons_nth_drop_Suc)
  moreover have "take_bit (bit_count f) (bit_buffer f) = bit_buffer f" "bit_count f \<le> 24"
    using assms(1,2) by (simp_all add: reader_ok_def)
  note ap = buffer_append [OF this, of "f_input f ! f_cursor f"]
  ultimately show ?thesis
    using ap assms by (simp add: f1_def reader_ok_def rem_bits_def same_job_def del: upt_Suc upt_Suc_append)
qed

lemma refill_sim:
  assumes "reader_ok f" "count \<le> 15" "count \<le> bit_count f + 8 * k" "bit_count f < count + 8"
  shows "\<exists>f'. (count \<le> length (rem_bits f) \<longrightarrow> reader_ok f' \<and> rem_bits f' = rem_bits f \<and> same_job f f' \<and>
      count \<le> bit_count f' \<and> bit_count f' < count + 8) \<and>
    (\<forall>ob. buf_ok ob \<longrightarrow> simulates h k 0 ob (refill h idx count f ob)
      (if count \<le> length (rem_bits f) then Inr (((), f'), ob_bytes ob) else Inl (invalid_flate idx)))"
  using assms
proof (induction k arbitrary: f)
  case 0
  then have "\<not> bit_count f < count" by simp
  moreover from this have "count \<le> length (rem_bits f)" by (simp add: rem_bits_def)
  ultimately show ?case
    using 0 by (intro exI [of _ f]) (auto simp: refill.simps same_job_def)
next
  case (Suc k)
  show ?case
  proof (cases "bit_count f < count")
    case False
    then have "count \<le> length (rem_bits f)" by (simp add: rem_bits_def)
    then show ?thesis
      using False Suc.prems by (intro exI [of _ f]) (auto simp: refill.simps same_job_def)
  next
    case low: True
    show ?thesis
    proof (cases "f_cursor f < length (f_input f)")
      case True
      let ?f1 = "f\<lparr>f_cursor := f_cursor f + 1,
        bit_buffer := or (bit_buffer f) (push_bit (bit_count f) (ucast (f_input f ! f_cursor f))),
        bit_count := bit_count f + 8\<rparr>"
      have "bit_count f \<le> 14" using low Suc.prems(2) by simp
      note st = refill_step [OF Suc.prems(1) this True]
      have "\<exists>f'. (count \<le> length (rem_bits ?f1) \<longrightarrow> reader_ok f' \<and> rem_bits f' = rem_bits ?f1 \<and> same_job ?f1 f' \<and>
          count \<le> bit_count f' \<and> bit_count f' < count + 8) \<and>
        (\<forall>ob. buf_ok ob \<longrightarrow> simulates h k 0 ob (refill h idx count ?f1 ob)
          (if count \<le> length (rem_bits ?f1) then Inr (((), f'), ob_bytes ob) else Inl (invalid_flate idx)))"
        by (rule Suc.IH) (use st Suc.prems low in auto)
      then obtain f' where f': "count \<le> length (rem_bits f) \<longrightarrow> reader_ok f' \<and> rem_bits f' = rem_bits f \<and>
          same_job ?f1 f' \<and> count \<le> bit_count f' \<and> bit_count f' < count + 8"
        "\<And>ob. buf_ok ob \<Longrightarrow> simulates h k 0 ob (refill h idx count ?f1 ob)
          (if count \<le> length (rem_bits f) then Inr (((), f'), ob_bytes ob) else Inl (invalid_flate idx))"
        using st by auto
      have "simulates h (1 + k) 0 ob (refill h idx count f ob)
          (if count \<le> length (rem_bits f) then Inr (((), f'), ob_bytes ob) else Inl (invalid_flate idx))"
        if "buf_ok ob" for ob
      proof -
        have "refill h idx count f ob = and_then (consume_input h ob) (\<lambda>(_, ob). refill h idx count ?f1 ob)"
          using low True by (subst refill.simps) (simp add: take_input_byte_def and_then_assoc split_def)
        moreover have "simulates h (1 + k) 0 ob (and_then (consume_input h ob) (\<lambda>(_, ob). refill h idx count ?f1 ob))
            (if count \<le> length (rem_bits f) then Inr (((), f'), ob_bytes ob) else Inl (invalid_flate idx))"
        proof (rule sim_consume [OF that], goal_cases)
          case (1 o1)
          from f'(2) [OF 1(1), unfolded 1(2)] show ?case .
        qed
        ultimately show ?thesis by simp
      qed
      moreover have "same_job f f'" if "same_job ?f1 f'" using that by (simp add: same_job_def)
      ultimately show ?thesis using f'(1) by (intro exI [of _ f']) auto
    next
      case False
      then have "\<not> count \<le> length (rem_bits f)" using low by (simp add: rem_bits_def)
      moreover have "refill h idx count f ob = Inl (invalid_flate idx)" for ob
        using False low by (subst refill.simps) (simp add: take_input_byte_def)
      ultimately show ?thesis by simp
    qed
  qed
qed

text \<open>What the decoder is at: its job, and the bits that are left.\<close>

definition flate_at :: "flate \<Rightarrow> flate \<Rightarrow> bool list \<Rightarrow> bool" where
  "flate_at f0 f bs \<longleftrightarrow> same_job f0 f \<and> reader_ok f \<and> bit_count f < 8 \<and> rem_bits f = bs"

lemma bits_value_bit: "n \<le> 32 \<Longrightarrow> bits_value (map (bit (b :: u32)) [0..<n]) = unat (take_bit n b)"
proof -
  have "map (bit b) [0..<n] = map (bit (unat b)) [0..<n]" by (simp add: bit_unsigned_iff)
  then show ?thesis
    unfolding bits_value_def by (simp only: horner_sum_bit_eq_take_bit unsigned_take_bit_eq)
qed

lemma read_bits_sim:
  assumes at: "flate_at f0 f bs" and count: "count \<le> 15"
  shows "\<exists>f'. (count \<le> length bs \<longrightarrow> flate_at f0 f' (drop count bs)) \<and>
    (\<forall>ob. buf_ok ob \<longrightarrow> simulates h (count + 2) 0 ob (read_bits h idx count f ob)
      (if count \<le> length bs then Inr ((word_of_nat (bits_value (take count bs)), f'), ob_bytes ob)
       else Inl (invalid_flate idx)))"
proof -
  have f: "same_job f0 f" "reader_ok f" "bit_count f < 8" "rem_bits f = bs" using at by (auto simp: flate_at_def)
  obtain f1 where f1: "count \<le> length bs \<Longrightarrow> reader_ok f1 \<and> rem_bits f1 = bs \<and> same_job f f1 \<and>
      count \<le> bit_count f1 \<and> bit_count f1 < count + 8"
    "\<And>ob. buf_ok ob \<Longrightarrow> simulates h 2 0 ob (refill h idx count f ob)
      (if count \<le> length bs then Inr (((), f1), ob_bytes ob) else Inl (invalid_flate idx))"
    using refill_sim [OF f(2) count, of 2 h idx] f(3,4) count by auto
  let ?f = "f1\<lparr>bit_buffer := drop_bit count (bit_buffer f1), bit_count := bit_count f1 - count\<rparr>"
  have prefix_value: "word_of_nat (bits_value (take count bs)) =
      and (bit_buffer f1) (if count = 0 then 0 else push_bit count 1 - 1)" if "count \<le> length bs"
  proof -
    have c: "count \<le> bit_count f1" "rem_bits f1 = bs" using f1(1) [OF that] by auto
    then have "take count bs = map (bit (bit_buffer f1)) [0..<count]"
      by (auto simp: rem_bits_def take_map)
    then have "word_of_nat (bits_value (take count bs)) = take_bit count (bit_buffer f1)"
      using count by (simp add: bits_value_bit)
    moreover have "(if count = 0 then 0 else push_bit count 1 - 1) = (mask count :: u32)"
      by (simp add: mask_eq_exp_minus_1)
    ultimately show ?thesis by (simp only: take_bit_eq_mask)
  qed
  have sim: "simulates h (count + 2) 0 ob (read_bits h idx count f ob)
      (if count \<le> length bs then Inr ((word_of_nat (bits_value (take count bs)), ?f), ob_bytes ob)
       else Inl (invalid_flate idx))" if ob: "buf_ok ob" for ob
  proof -
    have n15: "\<not> count > 15" using count by simp
    show ?thesis unfolding read_bits_def if_not_P [OF n15]
    proof (rule sim_charge [OF ob], goal_cases)
      case (1 o1)
      note re = f1(2) [OF 1(1), unfolded 1(2)]
      show ?case
      proof (cases "count \<le> length bs")
        case True
        have "simulates h (2 + 0) (0 + 0) o1 (and_then (refill h idx count f o1) (\<lambda>((_, f), ob).
             let bits = (if count = 0 then 0 else push_bit count 1 - 1);
                 v = and (bit_buffer f) bits
             in Inr ((v, f\<lparr>bit_buffer := drop_bit count (bit_buffer f), bit_count := bit_count f - count\<rparr>), ob)))
          (Inr ((word_of_nat (bits_value (take count bs)), ?f), ob_bytes ob))"
        proof (rule sim_then [OF re [unfolded if_P [OF True]]], goal_cases)
          case (1 o2)
          from simulates_return [OF 1(1), of h 0 0 "(word_of_nat (bits_value (take count bs)) :: u32, ?f)", unfolded 1(2) prefix_value [OF True]]
          show ?case unfolding prefix_value [OF True] Let_def prod.case .
        qed
        then show ?thesis using True by (simp only: if_True add_0_right)
      next
        case False
        show ?thesis unfolding if_not_P [OF False] by (rule sim_error) (use re False in simp)
      qed
    qed
  qed
  have "flate_at f0 ?f (drop count bs)" if "count \<le> length bs"
  proof -
    note g = f1(1) [OF that]
    have "take_bit (bit_count f1) (bit_buffer f1) = bit_buffer f1" using g by (simp add: reader_ok_def)
    then have tb: "take_bit (bit_count f1 - count) (drop_bit count (bit_buffer f1)) = drop_bit count (bit_buffer f1)"
      by (metis drop_bit_take_bit)
    have "map (bit (drop_bit count (bit_buffer f1))) [0..<bit_count f1 - count] =
        drop count (map (bit (bit_buffer f1)) [0..<bit_count f1])"
      by (rule nth_equalityI) (auto simp: bit_simps add.commute)
    moreover have "count \<le> bit_count f1" using g by simp
    ultimately have "rem_bits ?f = drop count (rem_bits f1)" unfolding rem_bits_def by (simp del: drop_map)
    moreover have "reader_ok ?f" using g tb by (auto simp: reader_ok_def)
    ultimately show ?thesis using g f(1) by (auto simp: flate_at_def same_job_def)
  qed
  then show ?thesis using sim by blast
qed

section \<open>Symbols\<close>

definition code_ok :: "(bool list \<times> nat) list \<Rightarrow> bool" where
  "code_ok C \<longleftrightarrow> distinct (map fst C) \<and> prefix_free (fst ` set C) \<and>
     (\<forall>(w, s) \<in> set C. w \<noteq> [] \<and> length w \<le> max_code_bits)"

definition table_ok_for :: "huffman \<Rightarrow> (bool list \<times> nat) list \<Rightarrow> bool" where
  "table_ok_for T C \<longleftrightarrow> code_ok C \<and> is_empty T = (C = []) \<and>
     (\<not> is_empty T \<longrightarrow> (\<exists>n. holds_words (nodes T) n C))"

lemma get_symbol_unique:
  assumes "code_ok C" "(w, s) \<in> set C" "prefix w bs"
  shows "get_symbol idx C bs = Inr (s, drop (length w) bs)"
proof -
  have d: "distinct (map fst C)" and pf: "prefix_free (fst ` set C)" and ne: "w \<noteq> []"
    using assms(1,2) by (auto simp: code_ok_def)
  have "find (\<lambda>(w, s). w \<noteq> [] \<and> prefix w bs) C \<noteq> None"
    using assms(2,3) ne by (auto simp: find_None_iff)
  then obtain v t where f: "find (\<lambda>(w, s). w \<noteq> [] \<and> prefix w bs) C = Some (v, t)" by auto
  then have v: "(v, t) \<in> set C" "prefix v bs" by (auto simp: find_Some_iff intro: nth_mem dest: sym)
  have vw: "v \<in> fst ` set C" "w \<in> fst ` set C" using v(1) assms(2) by force+
  have "prefix v w \<or> prefix w v" using prefix_same_cases [OF v(2) assms(3)] .
  then have "v = w" using prefix_freeD [OF pf vw] prefix_freeD [OF pf vw(2,1)] by auto
  then have "t = s" using d v(1) assms(2) by (metis eq_key_imp_eq_value)
  then show ?thesis using f \<open>v = w\<close> by (simp add: get_symbol_def)
qed

lemma get_symbol_none:
  "(\<And>w s. (w, s) \<in> set C \<Longrightarrow> \<not> prefix w bs) \<Longrightarrow> get_symbol idx C bs = Inl (invalid_flate idx)"
proof -
  assume "\<And>w s. (w, s) \<in> set C \<Longrightarrow> \<not> prefix w bs"
  then have "find (\<lambda>(w, s). w \<noteq> [] \<and> prefix w bs) C = None" by (auto simp: find_None_iff)
  then show ?thesis by (simp add: get_symbol_def)
qed

lemma bits_value_one: "bits_value [b] = (if b then 1 else 0)"
  by (simp add: bits_value_def)

text \<open>One round of the walk down the tree: where a node leads to under the next bit.\<close>

lemma walk_round:
  assumes hold: "holds_words ns n C" and ok: "code_ok C" and i: "walk ns 0 p = Some i"
  shows "i < length ns" "length (children (ns ! i)) = 2"
    "child ns i b = no_child \<Longrightarrow> (w, s) \<in> set C \<Longrightarrow> \<not> prefix (p @ [b]) w"
    "child ns i b \<noteq> no_child \<Longrightarrow> walk ns 0 (p @ [b]) = Some (child ns i b) \<and> child ns i b < length ns \<and>
       (symbol (ns ! child ns i b) = Some s \<longleftrightarrow> (p @ [b], s) \<in> set C)"
proof -
  have h: "tree_ok ns n" "tree_symbol ns = map_of C" "tree_paths ns = insert [] (prefixes_of (fst ` set C))"
    using hold by (auto simp: holds_words_def table_ok_def)
  note in_tree = walk_lt [OF h(1) tree_ok_bounds(2) [OF h(1)]]
  have len: "length ns = max_huffman_nodes" "n \<le> max_huffman_nodes" using tree_ok_bounds [OF h(1)] by auto
  show il: "i < length ns" using in_tree [OF i] len by simp
  show "length (children (ns ! i)) = 2" using tree_ok_child(2) [OF h(1)] il len by simp
  have step: "walk ns 0 (p @ [b]) = (if child ns i b = no_child then None else Some (child ns i b))"
    using walk_snoc_eq [OF i] .
  show "\<not> prefix (p @ [b]) w" if "child ns i b = no_child" "(w, s) \<in> set C"
  proof
    assume "prefix (p @ [b]) w"
    then have "p @ [b] \<in> prefixes_of (fst ` set C)" using that(2) unfolding prefixes_of_def by force
    then have "p @ [b] \<in> tree_paths ns" using h(3) by simp
    then show False using step that(1) by (simp add: tree_paths_def)
  qed
  show "walk ns 0 (p @ [b]) = Some (child ns i b) \<and> child ns i b < length ns \<and>
       (symbol (ns ! child ns i b) = Some s \<longleftrightarrow> (p @ [b], s) \<in> set C)" if c: "child ns i b \<noteq> no_child"
  proof -
    have w: "walk ns 0 (p @ [b]) = Some (child ns i b)" using step c by simp
    have "distinct (map fst C)" using ok by (simp add: code_ok_def)
    moreover have "symbol (ns ! child ns i b) = map_of C (p @ [b])"
      using tree_symbol_at [OF w] h(2) by simp
    ultimately show ?thesis using w in_tree [OF w] len by simp
  qed
qed

lemma decode_symbol_loop_sim:
  assumes hold: "holds_words (nodes T) n C" and ok: "code_ok C"
  shows "flate_at f0 f bs \<Longrightarrow> walk (nodes T) 0 p = Some i \<Longrightarrow> length p + rounds = max_code_bits \<Longrightarrow>
      (\<And>w s. (w, s) \<in> set C \<Longrightarrow> \<not> prefix w p) \<Longrightarrow>
    \<exists>f'. (\<forall>s bs'. get_symbol idx C (p @ bs) = Inr (s, bs') \<longrightarrow> flate_at f0 f' bs') \<and>
    (\<forall>ob. buf_ok ob \<longrightarrow> simulates h (3 * rounds) 0 ob (decode_symbol_loop h idx T rounds i f ob)
      (and_then (get_symbol idx C (p @ bs)) (\<lambda>(s, bs'). Inr ((s, f'), ob_bytes ob))))"
proof (induction rounds arbitrary: f bs p i)
  case 0
  have "\<not> prefix w (p @ bs)" if "(w, s) \<in> set C" for w s
  proof
    assume "prefix w (p @ bs)"
    moreover have "length w \<le> length p" using ok that 0(3) by (auto simp: code_ok_def)
    ultimately have "prefix w p" by (metis prefixI prefix_length_prefix)
    then show False using 0(4) that by blast
  qed
  then have "get_symbol idx C (p @ bs) = Inl (invalid_flate idx)" by (rule get_symbol_none)
  then show ?case by simp
next
  case (Suc rounds)
  note rd = walk_round [OF hold ok Suc.prems(2)]
  have one_le_15: "(1 :: nat) \<le> 15" by simp
  obtain f1 where f1: "1 \<le> length bs \<Longrightarrow> flate_at f0 f1 (drop 1 bs)"
    "\<And>ob. buf_ok ob \<Longrightarrow> simulates h (1 + 2) 0 ob (read_bits h idx 1 f ob)
      (if 1 \<le> length bs then Inr ((word_of_nat (bits_value (take 1 bs)), f1), ob_bytes ob)
       else Inl (invalid_flate idx))"
    using read_bits_sim [OF Suc.prems(1) one_le_15, of h idx] by blast
  show ?case
  proof (cases bs)
    case Nil
    have "get_symbol idx C (p @ bs) = Inl (invalid_flate idx)"
      by (rule get_symbol_none) (use Suc.prems(4) Nil in simp)
    moreover have "simulates h (3 * Suc rounds) 0 ob (decode_symbol_loop h idx T (Suc rounds) i f ob)
        (Inl (invalid_flate idx))" if "buf_ok ob" for ob
      unfolding decode_symbol_loop.simps
      by (rule simulates_mono [OF sim_error]) (use f1(2) [OF that] Nil in auto)
    ultimately show ?thesis by simp
  next
    case (Cons b rest)
    let ?c = "child (nodes T) i b" and ?v = "word_of_nat (bits_value (take 1 bs)) :: u32"
    let ?next = "\<lambda>ob. if \<not> i < length (nodes T) then Inl (invalid_flate idx)
       else if \<not> unat ?v < length (children (nodes T ! i)) then Inl (invalid_flate idx)
       else let c = children (nodes T ! i) ! unat ?v in
         if c = no_child then Inl (invalid_flate idx)
         else if \<not> c < length (nodes T) then Inl (invalid_flate idx)
         else case symbol (nodes T ! c) of
                Some s \<Rightarrow> Inr ((s, f1), ob)
              | None \<Rightarrow> decode_symbol_loop h idx T rounds c f1 ob"
    have one: "1 \<le> length bs" using Cons by simp
    have v: "unat ?v = (if b then 1 else 0)" using Cons by (simp add: bits_value_one)
    have kid: "children (nodes T ! i) ! unat ?v = ?c" unfolding v by (simp add: child_def)
    have two: "unat ?v < length (children (nodes T ! i))" unfolding v rd(2) by simp
    have next_eq: "?next ob = (if ?c = no_child then Inl (invalid_flate idx)
         else case symbol (nodes T ! ?c) of
                Some s \<Rightarrow> Inr ((s, f1), ob)
              | None \<Rightarrow> decode_symbol_loop h idx T rounds ?c f1 ob)" for ob
      using rd(1,4) two unfolding kid Let_def by auto
    have cost: "1 + 2 + 3 * rounds = 3 * Suc rounds" "0 + (0 :: nat) = 0" by simp_all
    have read: "simulates h (3 * Suc rounds) 0 ob (decode_symbol_loop h idx T (Suc rounds) i f ob) q"
      if "buf_ok ob" "\<And>o1. buf_ok o1 \<Longrightarrow> ob_bytes o1 = ob_bytes ob \<Longrightarrow> simulates h (3 * rounds) 0 o1 (?next o1) q" for ob q
    proof -
      have "simulates h (1 + 2 + 3 * rounds) (0 + 0) ob (decode_symbol_loop h idx T (Suc rounds) i f ob) q"
        unfolding decode_symbol_loop.simps
      proof (rule sim_then [OF f1(2) [OF that(1), unfolded if_P [OF one]]], goal_cases)
        case (1 o1)
        from that(2) [OF 1] show ?case unfolding prod.case .
      qed
      then show ?thesis unfolding cost .
    qed
    have at1: "flate_at f0 f1 rest" using f1(1) Cons by simp
    have split: "prefix w (p @ [b])  \<or> prefix (p @ [b]) w" if "prefix w (p @ bs)" for w
      using prefix_same_cases [OF that] Cons by (metis append_Cons append_assoc append_self_conv2 prefixI)
    show ?thesis
    proof (cases "?c = no_child")
      case True
      have "\<not> prefix w (p @ bs)" if "(w, s) \<in> set C" for w s
        using split [of w] rd(3) [OF True that] Suc.prems(4) [OF that] by auto
      then have "get_symbol idx C (p @ bs) = Inl (invalid_flate idx)" by (rule get_symbol_none)
      then show ?thesis using read [of _ "Inl (invalid_flate idx)"] True unfolding next_eq
        by (simp del: decode_symbol_loop.simps mult_Suc_right)
    next
      case False
      note rd4 = rd(4) [OF False]
      show ?thesis
      proof (cases "symbol (nodes T ! ?c)")
        case (Some s)
        then have "(p @ [b], s) \<in> set C" using rd4 by blast
        from get_symbol_unique [OF ok this, of "p @ bs" idx]
        have g: "get_symbol idx C (p @ bs) = Inr (s, rest)" using Cons by simp
        have "simulates h (3 * Suc rounds) 0 ob (decode_symbol_loop h idx T (Suc rounds) i f ob)
            (Inr ((s, f1), ob_bytes ob))" if "buf_ok ob" for ob
        proof (rule read [OF that], goal_cases)
          case (1 o1)
          from simulates_return [OF 1(1), of h "3 * rounds" 0 "(s, f1)"] show ?case
            unfolding next_eq 1(2) if_not_P [OF False] Some by simp
        qed
        then show ?thesis unfolding g using at1
          by (intro exI [of _ f1]) (simp del: decode_symbol_loop.simps mult_Suc_right)
      next
        case None
        have "\<not> prefix w (p @ [b])" if "(w, s) \<in> set C" for w s
          using rd4 [of s] None that Suc.prems(4) [OF that] by auto
        with Suc.IH [OF at1, of "p @ [b]" ?c] rd4 Suc.prems(3)
        obtain f' where f': "\<forall>s bs'. get_symbol idx C ((p @ [b]) @ rest) = Inr (s, bs') \<longrightarrow> flate_at f0 f' bs'"
          "\<And>ob. buf_ok ob \<Longrightarrow> simulates h (3 * rounds) 0 ob (decode_symbol_loop h idx T rounds ?c f1 ob)
            (and_then (get_symbol idx C ((p @ [b]) @ rest)) (\<lambda>(s, bs'). Inr ((s, f'), ob_bytes ob)))"
          by auto
        have same: "(p @ [b]) @ rest = p @ bs" using Cons by simp
        have "simulates h (3 * Suc rounds) 0 ob (decode_symbol_loop h idx T (Suc rounds) i f ob)
            (and_then (get_symbol idx C (p @ bs)) (\<lambda>(s, bs'). Inr ((s, f'), ob_bytes ob)))" if "buf_ok ob" for ob
        proof (rule read [OF that], goal_cases)
          case (1 o1)
          from f'(2) [OF 1(1), unfolded same 1(2)] show ?case
            unfolding next_eq if_not_P [OF False] None by simp
        qed
        then show ?thesis using f'(1) unfolding same by (intro exI [of _ f']) blast
      qed
    qed
  qed
qed

lemma get_symbol_empty: "get_symbol idx [] bs = Inl (invalid_flate idx)"
  by (rule get_symbol_none) simp

lemma decode_symbol_sim:
  assumes T: "table_ok_for T C" and at: "flate_at f0 f bs"
  shows "\<exists>f'. (\<forall>s bs'. get_symbol idx C bs = Inr (s, bs') \<longrightarrow> flate_at f0 f' bs') \<and>
    (\<forall>ob. buf_ok ob \<longrightarrow> simulates h 45 0 ob (decode_symbol h idx T f ob)
      (and_then (get_symbol idx C bs) (\<lambda>(s, bs'). Inr ((s, f'), ob_bytes ob))))"
proof (cases "is_empty T")
  case True
  then have "C = []" using T by (simp add: table_ok_for_def)
  then show ?thesis using True by (simp add: decode_symbol_def get_symbol_empty)
next
  case False
  then obtain n where n: "holds_words (nodes T) n C" and ok: "code_ok C"
    using T by (auto simp: table_ok_for_def)
  have ne: "\<not> prefix w []" if "(w, s) \<in> set C" for w s using ok that by (auto simp: code_ok_def)
  have start: "walk (nodes T) 0 [] = Some 0" "length ([] :: bool list) + max_code_bits = max_code_bits" by simp_all
  have cost: "3 * max_code_bits = 45" by (simp add: max_code_bits_def)
  note loop = decode_symbol_loop_sim [OF n ok at start, where idx = idx and h = h]
  show ?thesis using loop ne
    unfolding decode_symbol_def if_not_P [OF False] cost append_Nil by blast
qed

lemma accepted_kraft: "huffman_accepts ls ae single \<Longrightarrow> kraft_sum ls \<le> 2 ^ max_code_bits"
proof -
  assume "huffman_accepts ls ae single"
  then consider "\<forall>x \<in> set ls. x = 0" | "kraft_sum ls = 2 ^ max_code_bits" | "filter (\<lambda>x. x \<noteq> 0) ls = [1]"
    by (auto simp: huffman_accepts_def split: if_splits)
  then show ?thesis
  proof cases
    case 1
    then have "filter (\<lambda>x. x \<noteq> 0) ls = []" by (simp add: filter_empty_conv)
    then show ?thesis by (subst kraft_sum_filter) (simp add: kraft_sum_def)
  next
    case 3
    then show ?thesis by (subst kraft_sum_filter) (simp add: kraft_sum_def max_code_bits_def)
  qed simp
qed

lemma table_for_ok:
  assumes acc: "huffman_accepts ls ae single" and T: "table_for T ls"
  shows "table_ok_for T (canonical_codes ls)"
proof -
  have "lengths_ok ls" using acc by (simp add: huffman_accepts_def)
  note w = canonical_words [OF this accepted_kraft [OF acc]]
  have "length (canonical_codes ls) = length (filter (\<lambda>x. x \<noteq> 0) ls)" by (simp add: canonical_codes_def)
  then have "(canonical_codes ls = []) = (\<forall>x \<in> set ls. x = 0)"
    by (metis (mono_tags, lifting) filter_empty_conv length_0_conv)
  moreover have "code_ok (canonical_codes ls)" using w(1,2,3) unfolding code_ok_def by auto
  ultimately show ?thesis using T by (simp add: table_ok_for_def table_for_def)
qed

end
