(* ===== verification/Filt_FlateCost.thy ===== *)
theory Filt_FlateCost
  imports Filt_FlateSim
begin

text \<open>
  Refinement with amortised cost. A step of the Flate decoder is related to a step of Deflate over
  bits; every bit that the step consumes pays for a fixed amount of fuel and output, so that the cost
  of a whole stream is linear in its length although one symbol may copy 258 bytes and one block may
  build three code tables.
\<close>

definition bit_fuel :: nat where "bit_fuel = 2000"

definition bit_output :: nat where "bit_output = 300"

definition flate_in :: "u8 list \<Rightarrow> nat \<Rightarrow> output_buffer \<Rightarrow> flate \<Rightarrow> bool list \<Rightarrow> bool" where
  "flate_in inp w ob f bs \<longleftrightarrow>
     f_input f = inp \<and> window_limit f = w \<and> (adler_a f, adler_b f) = adler32 (ob_bytes ob) \<and>
     reader_ok f \<and> bit_count f < 8 \<and> rem_bits f = bs"

definition fsim ::
  "host \<Rightarrow> nat \<Rightarrow> nat \<Rightarrow> ('a \<Rightarrow> 'b \<Rightarrow> bool) \<Rightarrow> u8 list \<Rightarrow> nat \<Rightarrow> output_buffer \<Rightarrow> bool list \<Rightarrow> 'a flating
     \<Rightarrow> decode_error + ('b \<times> bool list \<times> u8 list) \<Rightarrow> bool" where
  "fsim h c n V inp w ob bs r p \<longleftrightarrow>
     (case r of
        Inl e \<Rightarrow> p = Inl e \<or>
          is_host_error e \<and>
          \<not> (generous h \<and> roomy (c + 50 + bit_fuel * length bs) (n + bit_output * length bs) ob)
      | Inr ((x, f), ob') \<Rightarrow>
          \<exists>y bs'. p = Inr (y, bs', ob_bytes ob') \<and> V x y \<and> length bs' \<le> length bs \<and>
            flate_in inp w ob' f bs' \<and>
            steps_to (c + bit_fuel * (length bs - length bs')) (n + bit_output * (length bs - length bs')) ob ob')"

lemma roomy_mono: "roomy c n ob \<Longrightarrow> c' \<le> c \<Longrightarrow> n' \<le> n \<Longrightarrow> roomy c' n' ob"
  by (auto simp: roomy_def Let_def)

lemma steps_to_mono: "steps_to c n ob ob' \<Longrightarrow> c \<le> c' \<Longrightarrow> n \<le> n' \<Longrightarrow> steps_to c' n' ob ob'"
  by (auto simp: steps_to_def)

lemma fs_return:
  assumes "buf_ok ob" "flate_in inp w ob f bs" "V x y" "out = ob_bytes ob"
  shows "fsim h c n V inp w ob bs (Inr ((x, f), ob)) (Inr (y, bs, out))"
  using assms by (simp add: fsim_def steps_to_def)

lemma fs_fail: "fsim h c n V inp w ob bs (Inl e) (Inl e)"
  by (simp add: fsim_def)

lemma fs_mono:
  assumes "fsim h c n V inp w ob bs r p" "c \<le> c'" "n \<le> n'"
  shows "fsim h c' n' V inp w ob bs r p"
proof (cases r)
  case (Inl e)
  have "roomy (c + 50 + bit_fuel * length bs) (n + bit_output * length bs) ob"
    if "roomy (c' + 50 + bit_fuel * length bs) (n' + bit_output * length bs) ob"
    using roomy_mono [OF that] assms(2,3) by simp
  then show ?thesis using assms(1) Inl by (auto simp: fsim_def)
next
  case (Inr q)
  then obtain x f ob' where r: "r = Inr ((x, f), ob')" by (metis prod.exhaust)
  show ?thesis using assms unfolding r fsim_def by (fastforce intro: steps_to_mono)
qed

text \<open>A step followed by the rest; the bits it reads pay for both.\<close>

lemma fs_pay:
  assumes st: "simulates h c1 n1 ob r (Inr (x, out))" and le: "length bs' \<le> length bs"
    and c: "c1 + c2 \<le> c + bit_fuel * (length bs - length bs')"
    and n: "n1 + n2 \<le> n + bit_output * (length bs - length bs')"
    and k: "\<And>ob'. buf_ok ob' \<Longrightarrow> ob_bytes ob' = out \<Longrightarrow> fsim h c2 n2 V inp w ob' bs' (k (x, ob')) p"
  shows "fsim h c n V inp w ob bs (and_then r k) p"
proof -
  have split: "bit_fuel * length bs = bit_fuel * (length bs - length bs') + bit_fuel * length bs'"
    "bit_output * length bs = bit_output * (length bs - length bs') + bit_output * length bs'"
    using le by (simp_all add: add_mult_distrib2 [symmetric])
  have room: "roomy (c1 + (c2 + 50 + bit_fuel * length bs')) (n1 + (n2 + bit_output * length bs')) ob"
    if "roomy (c + 50 + bit_fuel * length bs) (n + bit_output * length bs) ob"
    by (rule roomy_mono [OF that]) (use c n split in linarith)+
  show ?thesis
  proof (cases r)
    case (Inl e)
    have "roomy c1 n1 ob" if "roomy (c + 50 + bit_fuel * length bs) (n + bit_output * length bs) ob"
      using roomy_mono [OF room [OF that]] by simp
    then show ?thesis using st Inl by (auto simp: simulates_def fsim_def)
  next
    case (Inr q)
    then obtain ob' where r: "r = Inr (x, ob')" and o: "ob_bytes ob' = out" and s: "steps_to c1 n1 ob ob'"
      using st by (cases q) (auto simp: simulates_def)
    note K = k [OF steps_to_ok [OF s] o]
    show ?thesis
    proof (cases "k (x, ob')")
      case (Inl e)
      then show ?thesis using K roomy_step [OF s room] r by (auto simp: fsim_def)
    next
      case (Inr q2)
      obtain v f o2 where q2: "q2 = ((v, f), o2)" by (metis prod.exhaust)
      obtain z bs2 where z: "p = Inr (z, bs2, ob_bytes o2)" "V v z" "length bs2 \<le> length bs'"
        "flate_in inp w o2 f bs2"
        and s2: "steps_to (c2 + bit_fuel * (length bs' - length bs2)) (n2 + bit_output * (length bs' - length bs2)) ob' o2"
        using K unfolding Inr q2 fsim_def by auto
      have split2: "length bs - length bs2 = (length bs - length bs') + (length bs' - length bs2)"
        using le z(3) by simp
      have "steps_to (c + bit_fuel * (length bs - length bs2)) (n + bit_output * (length bs - length bs2)) ob o2"
        by (rule steps_to_mono [OF steps_to_trans [OF s s2]])
          (use c n in \<open>simp_all add: split2 add_mult_distrib2\<close>)
      then show ?thesis using z le r Inr unfolding q2 by (auto simp: fsim_def)
    qed
  qed
qed

text \<open>A step that reads no bits.\<close>

lemma fs_step:
  assumes "simulates h c1 n1 ob r (Inr (x, out))"
    "\<And>ob'. buf_ok ob' \<Longrightarrow> ob_bytes ob' = out \<Longrightarrow> fsim h c2 n2 V inp w ob' bs (k (x, ob')) p"
  shows "fsim h (c1 + c2) (n1 + n2) V inp w ob bs (and_then r k) p"
  by (rule fs_pay [OF assms(1), where bs' = bs and ?c2.0 = c2 and ?n2.0 = n2]) (use assms(2) in simp_all)

lemma fs_step_err:
  assumes "simulates h c1 n1 ob r (Inl e)" "c1 \<le> c + 50" "n1 \<le> n"
  shows "fsim h c n V inp w ob bs (and_then r k) (Inl e)"
proof (cases r)
  case (Inl e')
  have "roomy c1 n1 ob" if "roomy (c + 50 + bit_fuel * length bs) (n + bit_output * length bs) ob"
    using roomy_mono [OF that] assms(2,3) by simp
  then show ?thesis using assms(1) Inl by (auto simp: simulates_def fsim_def)
next
  case (Inr q)
  then show ?thesis using assms(1) by (cases q) (simp add: simulates_def)
qed

text \<open>A composite step, whose bits pay for themselves.\<close>

lemma fs_bind:
  assumes r: "fsim h c1 n1 V inp w ob bs r p"
    and k: "\<And>x y f ob' bs'. V x y \<Longrightarrow> p = Inr (y, bs', ob_bytes ob') \<Longrightarrow> length bs' \<le> length bs \<Longrightarrow>
      flate_in inp w ob' f bs' \<Longrightarrow> buf_ok ob' \<Longrightarrow>
      fsim h c2 n2 V' inp w ob' bs' (k ((x, f), ob')) (q (y, bs', ob_bytes ob'))"
  shows "fsim h (c1 + c2) (n1 + n2) V' inp w ob bs (and_then r k) (and_then p q)"
proof (cases r)
  case (Inl e)
  have "roomy (c1 + 50 + bit_fuel * length bs) (n1 + bit_output * length bs) ob"
    if "roomy (c1 + c2 + 50 + bit_fuel * length bs) (n1 + n2 + bit_output * length bs) ob"
    using roomy_mono [OF that] by simp
  then show ?thesis using r Inl by (auto simp: fsim_def)
next
  case (Inr u)
  obtain x f ob' where u: "r = Inr ((x, f), ob')" using Inr by (metis prod.exhaust)
  obtain y bs' where p: "p = Inr (y, bs', ob_bytes ob')" and V: "V x y" and le: "length bs' \<le> length bs"
    and fin: "flate_in inp w ob' f bs'"
    and s: "steps_to (c1 + bit_fuel * (length bs - length bs')) (n1 + bit_output * (length bs - length bs')) ob ob'"
    using r unfolding u fsim_def by auto
  note K = k [OF V p le fin steps_to_ok [OF s]]
  show ?thesis
  proof (cases "k ((x, f), ob')")
    case (Inl e)
    have "roomy (c2 + 50 + bit_fuel * length bs') (n2 + bit_output * length bs') ob'"
      if room: "roomy (c1 + c2 + 50 + bit_fuel * length bs) (n1 + n2 + bit_output * length bs) ob"
    proof (rule roomy_step [OF s], rule roomy_mono [OF room])
      show "c1 + bit_fuel * (length bs - length bs') + (c2 + 50 + bit_fuel * length bs') \<le> c1 + c2 + 50 + bit_fuel * length bs"
        using le by (simp add: add_mult_distrib2 [symmetric])
      show "n1 + bit_output * (length bs - length bs') + (n2 + bit_output * length bs') \<le> n1 + n2 + bit_output * length bs"
        using le by (simp add: add_mult_distrib2 [symmetric])
    qed
    then show ?thesis using K Inl u p by (auto simp: fsim_def)
  next
    case (Inr q2)
    obtain v f2 o2 where q2: "q2 = ((v, f2), o2)" by (metis prod.exhaust)
    obtain z bs2 where z: "q (y, bs', ob_bytes ob') = Inr (z, bs2, ob_bytes o2)" "V' v z" "length bs2 \<le> length bs'"
      "flate_in inp w o2 f2 bs2"
      and s2: "steps_to (c2 + bit_fuel * (length bs' - length bs2)) (n2 + bit_output * (length bs' - length bs2)) ob' o2"
      using K unfolding Inr q2 fsim_def by auto
    have split: "length bs - length bs2 = (length bs - length bs') + (length bs' - length bs2)"
      using le z(3) by simp
    have "steps_to (c1 + c2 + bit_fuel * (length bs - length bs2))
        (n1 + n2 + bit_output * (length bs - length bs2)) ob o2"
      by (rule steps_to_mono [OF steps_to_trans [OF s s2]]) (simp_all add: split add_mult_distrib2)
    then show ?thesis using z le u p Inr unfolding q2 by (auto simp: fsim_def)
  qed
qed

section \<open>The primitives\<close>

lemma flate_in_at:
  assumes "flate_in inp w ob f bs" "flate_at f f' bs'" "ob_bytes ob' = ob_bytes ob"
  shows "flate_in inp w ob' f' bs'"
  using assms by (simp add: flate_in_def flate_at_def same_job_def)

lemma flate_in_at_self: "flate_in inp w ob f bs \<Longrightarrow> flate_at f f bs"
  by (simp add: flate_in_def flate_at_def same_job_def)

lemma bits_value_less: "bits_value bs < 2 ^ length bs"
  unfolding bits_value_def by (rule horner_sum_of_bool_2_less)

lemma fs_read:
  assumes fin: "flate_in inp w ob f bs" and ob: "buf_ok ob" and count: "count \<le> 15"
    and k: "\<And>v f' ob' bs'. get_bits idx count bs = Inr (v, bs') \<Longrightarrow> v < 2 ^ count \<Longrightarrow>
      flate_in inp w ob' f' bs' \<Longrightarrow> buf_ok ob' \<Longrightarrow> ob_bytes ob' = ob_bytes ob \<Longrightarrow>
      fsim h c2 n2 V inp w ob' bs' (k ((word_of_nat v, f'), ob')) (q (v, bs'))"
    and pay: "count + 2 + c2 \<le> c + bit_fuel * count" "n2 \<le> n + bit_output * count"
  shows "fsim h c n V inp w ob bs (and_then (read_bits h idx count f ob) k) (and_then (get_bits idx count bs) q)"
proof -
  obtain f' where f': "count \<le> length bs \<Longrightarrow> flate_at f f' (drop count bs)"
    "simulates h (count + 2) 0 ob (read_bits h idx count f ob)
      (if count \<le> length bs then Inr ((word_of_nat (bits_value (take count bs)), f'), ob_bytes ob)
       else Inl (invalid_flate idx))"
    using read_bits_sim [OF flate_in_at_self [OF fin] count] ob by blast
  show ?thesis
  proof (cases "count \<le> length bs")
    case True
    have g: "get_bits idx count bs = Inr (bits_value (take count bs), drop count bs)"
      using True by (simp add: get_bits_def)
    have "bits_value (take count bs) < 2 ^ count" using bits_value_less [of "take count bs"] True by simp
    note K = k [OF g this flate_in_at [OF fin f'(1) [OF True]]]
    show ?thesis unfolding g and_then_simps
      by (rule fs_pay [OF f'(2) [unfolded if_P [OF True]], where bs' = "drop count bs" and ?c2.0 = c2 and ?n2.0 = n2])
        (use True pay K in simp_all)
  next
    case False
    show ?thesis unfolding get_bits_def if_not_P [OF False] and_then_simps
      by (rule fs_step_err [OF f'(2) [unfolded if_not_P [OF False]]]) (use count in simp_all)
  qed
qed

lemma fs_symbol:
  assumes fin: "flate_in inp w ob f bs" and ob: "buf_ok ob" and T: "table_ok_for T C"
    and k: "\<And>s f' ob' bs'. get_symbol idx C bs = Inr (s, bs') \<Longrightarrow> flate_in inp w ob' f' bs' \<Longrightarrow>
      buf_ok ob' \<Longrightarrow> ob_bytes ob' = ob_bytes ob \<Longrightarrow>
      fsim h c2 n2 V inp w ob' bs' (k ((s, f'), ob')) (q (s, bs'))"
    and pay: "45 + c2 \<le> c + bit_fuel" "n2 \<le> n + bit_output"
  shows "fsim h c n V inp w ob bs (and_then (decode_symbol h idx T f ob) k) (and_then (get_symbol idx C bs) q)"
proof -
  obtain f' where f': "\<And>s bs'. get_symbol idx C bs = Inr (s, bs') \<Longrightarrow> flate_at f f' bs'"
    "simulates h 45 0 ob (decode_symbol h idx T f ob)
      (and_then (get_symbol idx C bs) (\<lambda>(s, bs'). Inr ((s, f'), ob_bytes ob)))"
    using decode_symbol_sim [OF T flate_in_at_self [OF fin]] ob by blast
  show ?thesis
  proof (cases "get_symbol idx C bs")
    case (Inl e)
    show ?thesis unfolding Inl and_then_simps
      by (rule fs_step_err [OF f'(2) [unfolded Inl and_then_simps]]) simp_all
  next
    case (Inr sb)
    then obtain s bs' where g: "get_symbol idx C bs = Inr (s, bs')" by (cases sb) auto
    note K = k [OF g flate_in_at [OF fin f'(1) [OF g]]] and less = get_symbol_less [OF g]
    have one: "1 \<le> length bs - length bs'" using less by simp
    have "45 + c2 \<le> c + bit_fuel * (length bs - length bs')" "n2 \<le> n + bit_output * (length bs - length bs')"
      using pay mult_le_mono2 [OF one, of bit_fuel] mult_le_mono2 [OF one, of bit_output] by linarith+
    then show ?thesis unfolding g and_then_simps
      by (intro fs_pay [OF f'(2) [unfolded g and_then_simps prod.case], where bs' = bs' and ?c2.0 = c2 and ?n2.0 = n2])
        (use K less in simp_all)
  qed
qed

lemma fs_emit:
  assumes fin: "flate_in inp w ob f bs" and ob: "buf_ok ob" and h: "host_ok h"
    and k: "\<And>f' ob'. flate_in inp w ob' f' bs \<Longrightarrow> buf_ok ob' \<Longrightarrow> ob_bytes ob' = ob_bytes ob @ [x] \<Longrightarrow>
      fsim h c n V inp w ob' bs (k (((), f'), ob')) p"
  shows "fsim h (1 + c) (1 + n) V inp w ob bs (and_then (emit h x f ob) k) p"
proof -
  have "fsim h (1 + c) (1 + n) V inp w ob bs (and_then (push h x ob) (\<lambda>(_, ob).
      let a = (adler_a f + ucast x) mod adler_modulus; b = (adler_b f + a) mod adler_modulus
      in k (((), f\<lparr>adler_a := a, adler_b := b\<rparr>), ob))) p"
  proof (rule fs_step [OF push_sim [OF ob h]], goal_cases)
    case (1 ob')
    let ?f = "f\<lparr>adler_a := (adler_a f + ucast x) mod adler_modulus,
      adler_b := (adler_b f + (adler_a f + ucast x) mod adler_modulus) mod adler_modulus\<rparr>"
    have "flate_in inp w ob' ?f bs"
      using fin 1 unfolding flate_in_def
      by (auto simp: adler32_def adler_step_def Let_def reader_ok_def rem_bits_def prod_eq_iff)
    from k [OF this 1] show ?case by (simp add: Let_def)
  qed
  then show ?thesis unfolding emit_def and_then_assoc Let_def split_def and_then_simps .
qed

lemma unat_less_8: "unat (x :: u8) < 256"
proof -
  have "unat x < 2 ^ LENGTH(8)" by (rule unsigned_less)
  then show ?thesis by simp
qed

lemma bits_value_byte: "bits_value (byte_bits x) = unat x"
proof -
  have "map (bit x) [0..<8] = map (bit (unat x)) [0..<8]" by (simp add: bit_unsigned_iff)
  then have "bits_value (byte_bits x) = take_bit 8 (unat x)"
    unfolding bits_value_def byte_bits_def by (simp only: horner_sum_bit_eq_take_bit)
  also have "\<dots> = unat x" using unat_less_8 [of x] by (simp add: take_bit_nat_eq_self)
  finally show ?thesis .
qed

lemma flate_in_length:
  assumes "flate_in inp w ob f bs"
  shows "length bs mod 8 = bit_count f"
proof -
  have "length bs = bit_count f + 8 * (length inp - f_cursor f)"
    using assms by (auto simp: flate_in_def rem_bits_def)
  then show ?thesis using assms by (simp add: flate_in_def)
qed

lemma flate_in_align:
  assumes "flate_in inp w ob f bs"
  shows "flate_in inp w ob (align_to_byte f) (aligned bs)" "length (aligned bs) mod 8 = 0"
proof -
  have "drop (bit_count f) bs = bits_of (drop (f_cursor f) inp)"
    using assms by (auto simp: flate_in_def rem_bits_def)
  then show *: "flate_in inp w ob (align_to_byte f) (aligned bs)"
    using assms flate_in_length [OF assms]
    by (auto simp: aligned_def flate_in_def align_to_byte_def rem_bits_def reader_ok_def)
  show "length (aligned bs) mod 8 = 0" using flate_in_length [OF *] by (simp add: align_to_byte_def)
qed

lemma fs_byte:
  assumes fin: "flate_in inp w ob f bs" and ob: "buf_ok ob" and al: "length bs mod 8 = 0"
    and k: "\<And>v f' ob' bs'. get_bits idx 8 bs = Inr (v, bs') \<Longrightarrow> v < 256 \<Longrightarrow>
      flate_in inp w ob' f' bs' \<Longrightarrow> length bs' mod 8 = 0 \<Longrightarrow> buf_ok ob' \<Longrightarrow> ob_bytes ob' = ob_bytes ob \<Longrightarrow>
      fsim h c2 n2 V inp w ob' bs' (k ((word_of_nat v, f'), ob')) (q (v, bs'))"
    and pay: "1 + c2 \<le> c + bit_fuel * 8" "n2 \<le> n + bit_output * 8"
  shows "fsim h c n V inp w ob bs (and_then (read_aligned_byte h idx f ob) k) (and_then (get_bits idx 8 bs) q)"
proof -
  have f: "bit_count f = 0" "f_input f = inp" "bs = bits_of (drop (f_cursor f) inp)" "f_cursor f \<le> length inp"
    using fin flate_in_length [OF fin] al by (auto simp: flate_in_def rem_bits_def reader_ok_def)
  show ?thesis
  proof (cases "f_cursor f < length inp")
    case True
    let ?x = "inp ! f_cursor f" and ?bs = "bits_of (drop (f_cursor f + 1) inp)"
    let ?f = "f\<lparr>f_cursor := f_cursor f + 1\<rparr>"
    have bs: "bs = byte_bits ?x @ ?bs" unfolding f(3) using True by (simp add: Cons_nth_drop_Suc [symmetric])
    have g: "get_bits idx 8 bs = Inr (unat ?x, ?bs)" using bs by (simp add: get_bits_def bits_value_byte)
    have fin': "flate_in inp w ob' ?f ?bs" if "ob_bytes ob' = ob_bytes ob" for ob'
      using fin f True that by (simp add: flate_in_def rem_bits_def reader_ok_def)
    have al': "length ?bs mod 8 = 0" by simp
    have byte: "unat ?x < 256" using unat_less_8 by simp
    have len: "length ?bs \<le> length bs" "length bs - length ?bs = 8" unfolding bs by simp_all
    have "fsim h c n V inp w ob bs (and_then (consume_input h ob) (\<lambda>(_, ob). k ((?x, ?f), ob))) (q (unat ?x, ?bs))"
      by (rule fs_pay [OF consume_input_sim [OF ob] len(1), where ?c2.0 = c2 and ?n2.0 = n2])
        (use pay k [OF g byte fin' al'] len in \<open>simp_all\<close>)
    then show ?thesis
      unfolding g read_aligned_byte_def take_input_byte_def using f True by (simp add: and_then_assoc split_def)
  next
    case False
    then have "bs = []" using f by simp
    then show ?thesis using f False fs_fail
      by (simp add: get_bits_def read_aligned_byte_def take_input_byte_def)
  qed
qed

end
