(* ===== verification/Filt_FlateRefine.thy ===== *)
theory Filt_FlateRefine
  imports Filt_FlateCost
begin

text \<open>
  The Flate decoder refines its reference: stored, fixed and dynamic blocks, the zlib header and
  trailer, and the whole layer, with a cost that is linear in the length of the input.
\<close>

section \<open>Stored blocks\<close>

lemma bits_value_append: "bits_value (xs @ ys) = bits_value xs + 2 ^ length xs * bits_value ys"
  by (simp add: bits_value_def horner_sum_append)

lemma get_bits_16:
  "get_bits idx 16 bs = and_then (get_bits idx 8 bs) (\<lambda>(a, bs).
     and_then (get_bits idx 8 bs) (\<lambda>(b, bs). Inr (a + 256 * b, bs)))"
proof (cases "16 \<le> length bs")
  case True
  have "take 16 bs = take 8 bs @ take 8 (drop 8 bs)" by (metis take_add numeral_Bit0)
  then have "bits_value (take 16 bs) = bits_value (take 8 bs) + 256 * bits_value (take 8 (drop 8 bs))"
    using True by (simp add: bits_value_append)
  then show ?thesis using True by (simp add: get_bits_def)
qed (auto simp: get_bits_def)

lemma u16_of_bytes:
  assumes "a < 256" "b < 256"
  shows "or (ucast (word_of_nat a :: u8)) (push_bit 8 (ucast (word_of_nat b :: u8))) = (word_of_nat (a + 256 * b) :: u16)"
proof -
  have u: "ucast (word_of_nat a :: u8) = (word_of_nat a :: u16)" "ucast (word_of_nat b :: u8) = (word_of_nat b :: u16)"
    using assms by (simp_all add: unsigned_of_nat take_bit_nat_eq_self)
  have "take_bit 8 a = a" using assms(1) by (simp add: take_bit_nat_eq_self)
  then have low: "take_bit 8 (word_of_nat a :: u16) = word_of_nat a" by (metis of_nat_take_bit)
  have "or (word_of_nat a) (push_bit 8 (word_of_nat b)) = word_of_nat a + push_bit 8 (word_of_nat b :: u16)"
  proof (rule disjunctive_add [symmetric])
    show "\<not> bit (word_of_nat a :: u16) n \<or> \<not> bit (push_bit 8 (word_of_nat b :: u16)) n" for n
      using low by (metis bit_push_bit_iff bit_take_bit_iff linorder_not_less)
  qed
  then show ?thesis unfolding u by (simp add: push_bit_eq_mult)
qed

lemma fs_u16:
  assumes fin: "flate_in inp w ob f bs" and ob: "buf_ok ob" and al: "length bs mod 8 = 0"
    and k: "\<And>v f' ob' bs'. get_bits idx 16 bs = Inr (v, bs') \<Longrightarrow> v < 65536 \<Longrightarrow>
      flate_in inp w ob' f' bs' \<Longrightarrow> length bs' mod 8 = 0 \<Longrightarrow> buf_ok ob' \<Longrightarrow> ob_bytes ob' = ob_bytes ob \<Longrightarrow>
      fsim h c n V inp w ob' bs' (k ((word_of_nat v, f'), ob')) (q (v, bs'))"
  shows "fsim h c n V inp w ob bs (and_then (read_u16_le h idx f ob) k) (and_then (get_bits idx 16 bs) q)"
  unfolding read_u16_le_def get_bits_16 and_then_assoc split_def
proof (rule fs_byte [OF fin ob al, where ?c2.0 = c and ?n2.0 = n], goal_cases)
  case (1 a f1 o1 bs1)
  show ?case unfolding fst_conv snd_conv and_then_assoc
  proof (rule fs_byte [OF 1(3,5,4), where ?c2.0 = c and ?n2.0 = n], goal_cases)
    case (1 b f2 o2 bs2)
    have g: "get_bits idx 16 bs = Inr (a + 256 * b, bs2)"
      unfolding get_bits_16 using \<open>get_bits idx 8 bs = Inr (a, bs1)\<close> 1(1) by simp
    have "a + 256 * b < 65536" using \<open>a < 256\<close> 1(2) by simp
    from k [OF g this 1(3,4,5)] show ?case
      unfolding fst_conv snd_conv and_then_simps u16_of_bytes [OF \<open>a < 256\<close> 1(2)]
      using 1(6) \<open>ob_bytes o1 = ob_bytes ob\<close> by simp
  qed (simp_all add: bit_fuel_def)
qed (simp_all add: bit_fuel_def)

lemma fs_drop:
  assumes "fsim h c n V inp w ob bs' r p" "length bs' \<le> length bs"
  shows "fsim h c n V inp w ob bs r p"
proof (cases r)
  case (Inl e)
  have "roomy (c + 50 + bit_fuel * length bs') (n + bit_output * length bs') ob"
    if "roomy (c + 50 + bit_fuel * length bs) (n + bit_output * length bs) ob"
    by (rule roomy_mono [OF that]) (use assms(2) in simp_all)
  then show ?thesis using assms(1) Inl by (auto simp: fsim_def)
next
  case (Inr q)
  then obtain x f ob' where r: "r = Inr ((x, f), ob')" by (metis prod.exhaust)
  obtain y bs2 where y: "p = Inr (y, bs2, ob_bytes ob')" "V x y" "length bs2 \<le> length bs'" "flate_in inp w ob' f bs2"
    and s: "steps_to (c + bit_fuel * (length bs' - length bs2)) (n + bit_output * (length bs' - length bs2)) ob ob'"
    using assms(1) unfolding r fsim_def by auto
  have "steps_to (c + bit_fuel * (length bs - length bs2)) (n + bit_output * (length bs - length bs2)) ob ob'"
    by (rule steps_to_mono [OF s]) (use assms(2) in \<open>simp_all add: diff_le_mono\<close>)
  then show ?thesis unfolding r fsim_def using y assms(2) by auto
qed

lemma stored_bytes_fs:
  assumes "host_ok h"
  shows "flate_in inp w ob f bs \<Longrightarrow> buf_ok ob \<Longrightarrow> length bs mod 8 = 0 \<Longrightarrow>
    fsim h c n (\<lambda>_ _. True) inp w ob bs (stored_bytes h idx m f ob)
      (and_then (get_bytes idx m bs) (\<lambda>(xs, bs'). Inr ((), bs', ob_bytes ob @ xs)))"
proof (induction m arbitrary: f ob bs)
  case 0
  then show ?case by (simp add: fs_return)
next
  case (Suc m)
  show ?case unfolding stored_bytes.simps get_bytes.simps and_then_assoc split_def
  proof (rule fs_byte [OF Suc.prems, where ?c2.0 = "1 + c" and ?n2.0 = "1 + n"], goal_cases)
    case (1 v f1 o1 bs1)
    show ?case unfolding fst_conv snd_conv and_then_assoc
    proof (rule fs_emit [OF 1(3,5) assms], goal_cases)
      case (1 f2 o2)
      from Suc.IH [OF 1(1,2) \<open>length bs1 mod 8 = 0\<close>] show ?case
        unfolding fst_conv snd_conv and_then_simps 1(3) \<open>ob_bytes o1 = ob_bytes ob\<close> split_def by simp
    qed
  qed (simp_all add: bit_fuel_def bit_output_def)
qed

lemma u16_complement:
  assumes "a < 65536" "b < 65536"
  shows "(word_of_nat a :: u16) = not (word_of_nat b) \<longleftrightarrow> a + b = 65535"
proof -
  have "(word_of_nat a :: u16) = not (word_of_nat b) \<longleftrightarrow> word_of_nat (a + b + 1) = (0 :: u16)"
    by (simp add: not_eq_complement eq_diff_eq eq_neg_iff_add_eq_0 ac_simps)
  also have "\<dots> \<longleftrightarrow> 65536 dvd (a + b + 1)"
    by (subst word_of_nat_eq_0_iff) simp
  also have "\<dots> \<longleftrightarrow> a + b = 65535"
  proof
    assume "65536 dvd a + b + 1"
    then obtain k where k: "a + b + 1 = 65536 * k" by (elim dvdE)
    then have "0 < k" "k < 2" using assms by (auto intro: Nat.gr0I)
    then have "k = 1" by simp
    then show "a + b = 65535" using k by simp
  qed simp
  finally show ?thesis .
qed

lemma decode_stored_block_fs:
  assumes h: "host_ok h" and fin: "flate_in inp w ob f bs" and ob: "buf_ok ob"
  shows "fsim h c n (\<lambda>_ _. True) inp w ob bs (decode_stored_block h idx f ob)
      (and_then (deflate_stored idx bs (ob_bytes ob)) (\<lambda>(bs', out). Inr ((), bs', out)))"
proof (rule fs_drop)
  show "fsim h c n (\<lambda>_ _. True) inp w ob (aligned bs) (decode_stored_block h idx f ob)
      (and_then (deflate_stored idx bs (ob_bytes ob)) (\<lambda>(bs', out). Inr ((), bs', out)))"
    unfolding decode_stored_block_def deflate_stored_def Let_def and_then_assoc split_def
  proof (rule fs_u16 [OF flate_in_align(1) [OF fin] ob flate_in_align(2) [OF fin]], goal_cases)
    case (1 a f1 o1 bs1)
    show ?case unfolding fst_conv snd_conv and_then_assoc
    proof (rule fs_u16 [OF 1(3,5,4)], goal_cases)
      case (1 b f2 o2 bs2)
      have len: "unat (word_of_nat a :: u16) = a" using \<open>a < 65536\<close> by (simp add: unsigned_of_nat take_bit_nat_eq_self)
      from stored_bytes_fs [OF h 1(3,5,4), of c n idx a] show ?case
        unfolding fst_conv snd_conv u16_complement [OF \<open>a < 65536\<close> 1(2)] len 1(6) \<open>ob_bytes o1 = ob_bytes ob\<close>
        by (cases "a + b = 65535") (simp_all add: fs_fail and_then_assoc split_def)
    qed
  qed
qed (simp add: aligned_def)

section \<open>Compressed blocks\<close>

lemma length_code_bounds:
  assumes "i < 29"
  shows "length_extra_bits ! i \<le> 15" "length_bases ! i + 2 ^ (length_extra_bits ! i) \<le> 259"
proof -
  have "list_all (\<lambda>i. length_extra_bits ! i \<le> 15 \<and> length_bases ! i + 2 ^ (length_extra_bits ! i) \<le> 259) [0..<29]"
    by code_simp
  then show "length_extra_bits ! i \<le> 15" "length_bases ! i + 2 ^ (length_extra_bits ! i) \<le> 259"
    using assms by (auto simp: list_all_iff simp del: upt_Suc)
qed

lemma distance_code_bounds:
  assumes "d < 30"
  shows "distance_extra_bits ! d \<le> 15" "0 < distance_bases ! d" "distance_bases ! d + 2 ^ (distance_extra_bits ! d) \<le> 32769"
proof -
  have "list_all2 (\<lambda>b e. e \<le> 15 \<and> 0 < b \<and> b + 2 ^ e \<le> 32769) distance_bases distance_extra_bits"
    by (simp add: distance_bases_def distance_extra_bits_def)
  moreover have "length distance_bases = 30" by (simp add: distance_bases_def)
  ultimately have "distance_extra_bits ! d \<le> 15 \<and> 0 < distance_bases ! d \<and>
      distance_bases ! d + 2 ^ (distance_extra_bits ! d) \<le> 32769"
    using assms by (simp add: list_all2_conv_all_nth)
  then show "distance_extra_bits ! d \<le> 15" "0 < distance_bases ! d" "distance_bases ! d + 2 ^ (distance_extra_bits ! d) \<le> 32769"
    by auto
qed

lemma copy_bytes_fs:
  assumes "host_ok h" "0 < d"
  shows "flate_in inp w ob f bs \<Longrightarrow> buf_ok ob \<Longrightarrow> d \<le> length (ob_bytes ob) \<Longrightarrow>
    fsim h m m (\<lambda>_ _. True) inp w ob bs (copy_bytes h idx d m f ob) (Inr ((), bs, copy_from d m (ob_bytes ob)))"
proof (induction m arbitrary: f ob)
  case 0
  then show ?case by (simp add: fs_return)
next
  case (Suc m)
  have "byte_at_distance ob d = Some (ob_bytes ob ! (length (ob_bytes ob) - d))"
    using Suc.prems(3) assms(2) by (simp add: byte_at_distance_def checked_sub_def)
  moreover have "fsim h (1 + m) (1 + m) (\<lambda>_ _. True) inp w ob bs
      (and_then (emit h (ob_bytes ob ! (length (ob_bytes ob) - d)) f ob) (\<lambda>((_, f), ob). copy_bytes h idx d m f ob))
      (Inr ((), bs, copy_from d (Suc m) (ob_bytes ob)))"
  proof (rule fs_emit [OF Suc.prems(1,2) assms(1)], goal_cases)
    case (1 f1 o1)
    then show ?case using Suc.IH [OF 1(1,2)] Suc.prems(3) by simp
  qed
  ultimately show ?case by simp
qed

lemma u32_small: "v < 2 ^ count \<Longrightarrow> count \<le> 15 \<Longrightarrow> unat (word_of_nat v :: u32) = v"
proof -
  assume a: "v < 2 ^ count" "count \<le> 15"
  have "(2 :: nat) ^ count \<le> 2 ^ 15" by (rule power_increasing) (use a in simp_all)
  then have "v < 2 ^ 32" using a(1) by simp
  then show ?thesis by (simp add: unsigned_of_nat take_bit_nat_eq_self)
qed

lemma block_symbol_fs:
  assumes h: "host_ok h" and fin: "flate_in inp w ob f bs" and ob: "buf_ok ob" and T: "table_ok_for T D"
  shows "fsim h 2 1 (=) inp w ob bs (block_symbol h idx T s f ob) (deflate_symbol idx D w s bs (ob_bytes ob))"
proof -
  consider "s \<le> 255" | "s = 256" | "256 < s" "s \<le> 285" | "285 < s" by linarith
  then show ?thesis
  proof cases
    case 1
    have "fsim h (1 + 1) (1 + 0) (=) inp w ob bs (and_then (emit h (of_nat s) f ob) (\<lambda>((_, f), ob). Inr ((False, f), ob)))
        (Inr (False, bs, ob_bytes ob @ [of_nat s]))"
      by (rule fs_emit [OF fin ob h]) (simp add: fs_return)
    then show ?thesis using 1 by (simp add: block_symbol_def deflate_symbol_def numeral_2_eq_2)
  next
    case 2
    then show ?thesis using fin ob by (simp add: block_symbol_def deflate_symbol_def fs_return)
  next
    case 3
    let ?i = "s - 257"
    have i: "?i < 29" using 3 by simp
    have conds: "\<not> s \<le> 255" "s \<noteq> 256" using 3 by simp_all
    note lb = length_code_bounds [OF i]
    show ?thesis
      unfolding block_symbol_def deflate_symbol_def Let_def if_not_P [OF conds(1)] if_not_P [OF conds(2)]
        if_P [OF 3(2)] split_def
    proof (rule fs_read [OF fin ob lb(1), where ?c2.0 = 0 and ?n2.0 = 1], goal_cases)
      case (1 e f1 o1 bs1)
      note e = u32_small [OF 1(2) lb(1)]
      have el: "length_bases ! ?i + e \<le> 258" using 1(2) lb(2) by linarith
      have ea: "checked_add (length_bases ! ?i) (unat (word_of_nat e :: u32)) = Some (length_bases ! ?i + e)"
        unfolding e using el by (simp add: checked_add_def u64_max_def)
      show ?case unfolding fst_conv snd_conv ea ok_or_simps and_then_simps
      proof (rule fs_symbol [OF 1(3,4) T, where ?c2.0 = 1500 and ?n2.0 = 260], goal_cases)
        case (1 d f2 o2 bs2)
        show ?case
        proof (cases "d > 29")
          case True
          then show ?thesis by (simp add: fs_fail)
        next
          case False
          then have d: "d < 30" by simp
          note db = distance_code_bounds [OF d]
          show ?thesis unfolding fst_conv snd_conv if_not_P [OF False]
          proof (rule fs_read [OF 1(2,3) db(1), where ?c2.0 = 258 and ?n2.0 = 258], goal_cases)
            case (1 x f3 o3 bs3)
            note x = u32_small [OF 1(2) db(1)]
            let ?dist = "distance_bases ! d + x" and ?len = "length_bases ! ?i + e"
            have "?dist \<le> 32768" using 1(2) db(3) by linarith
            then have xa: "checked_add (distance_bases ! d) (unat (word_of_nat x :: u32)) = Some ?dist"
              unfolding x by (simp add: checked_add_def u64_max_def)
            have win: "window_limit f3 = w" using 1(3) by (simp add: flate_in_def)
            have out: "ob_bytes o3 = ob_bytes ob"
              using 1(5) \<open>ob_bytes o2 = ob_bytes o1\<close> \<open>ob_bytes o1 = ob_bytes ob\<close> by simp
            have pos: "0 < ?dist" using db(2) by simp
            have copy: "fsim h (258 + 0) (258 + 0) (=) inp w o3 bs3
                (and_then (copy_bytes h idx ?dist ?len f3 o3) (\<lambda>p. Inr ((False, snd (fst p)), snd p)))
                (and_then (Inr ((), bs3, copy_from ?dist ?len (ob_bytes o3))) (\<lambda>(_, bs, out). Inr (False, bs, out)))"
              if "?dist \<le> length (ob_bytes o3)"
              by (rule fs_bind [OF fs_mono [OF copy_bytes_fs [OF h pos 1(3,4) that] el el]])
                (simp add: fs_return)
            show ?case
              unfolding fst_conv snd_conv xa ok_or_simps and_then_simps win
              using copy db(2) unfolding out by (simp add: fs_fail)
          qed (simp_all add: bit_fuel_def bit_output_def)
        qed
      qed (simp_all add: bit_fuel_def bit_output_def)
    qed (simp_all add: bit_fuel_def bit_output_def)
  next
    case 4
    then show ?thesis by (simp add: block_symbol_def deflate_symbol_def fs_fail)
  qed
qed

lemma decode_compressed_block_fs:
  assumes h: "host_ok h" and L: "table_ok_for L CL" and D: "table_ok_for D CD"
  shows "flate_in inp w ob f bs \<Longrightarrow> buf_ok ob \<Longrightarrow>
    fsim h 0 0 (\<lambda>_ _. True) inp w ob bs (decode_compressed_block h idx L D f ob)
      (and_then (deflate_codes idx CL CD w bs (ob_bytes ob)) (\<lambda>(bs', out). Inr ((), bs', out)))"
proof (induction "length bs" arbitrary: f ob bs rule: less_induct)
  case less
  show ?case
    unfolding decode_compressed_block.simps [of h idx L D f ob] deflate_codes.simps [of idx CL CD w bs] and_then_assoc split_def
  proof (rule fs_symbol [OF less.prems L, where ?c2.0 = "2 + 0" and ?n2.0 = "1 + 0"], goal_cases)
    case (1 s f1 o1 bs1)
    have shorter: "length bs1 < length bs" by (rule get_symbol_less [OF 1(1)])
    show ?case unfolding fst_conv snd_conv and_then_assoc 1(4) [symmetric]
    proof (rule fs_bind [OF block_symbol_fs [OF h 1(2,3) D]], goal_cases)
      case (1 x y f2 o2 bs2)
      have "length bs2 < length bs" using 1(3) shorter by simp
      note IH = less.hyps [OF this 1(4,5)]
      show ?case
        using IH fs_return [OF 1(5,4), where V = "\<lambda>_ _. True" and x = "()" and y = "()"] 1(1) by (cases y) (simp_all add: split_def)
    qed
  qed (simp_all add: bit_fuel_def bit_output_def)
qed

section \<open>Code tables\<close>

lemma fill_code_lengths_sim:
  "buf_ok ob \<Longrightarrow> simulates h (length is) 0 ob (fill_code_lengths h ls is v ob)
     (Inr (foldl (\<lambda>ls i. ls[i := v]) ls is, ob_bytes ob))"
proof (induction "is" arbitrary: ls ob)
  case (Cons i "is")
  have "simulates h (1 + length is) 0 ob (fill_code_lengths h ls (i # is) v ob)
      (Inr (foldl (\<lambda>ls i. ls[i := v]) ls (i # is), ob_bytes ob))"
    unfolding fill_code_lengths.simps
  proof (rule sim_charge [OF Cons.prems], goal_cases)
    case (1 o1)
    from Cons.IH [OF 1(1), of "ls[i := v]", unfolded 1(2)] show ?case by simp
  qed
  then show ?case by simp
qed simp

lemma foldl_update_range:
  "length ls = a + n + k \<Longrightarrow> foldl (\<lambda>ls i. ls[i := v]) ls [a..<a + n] = take a ls @ replicate n v @ drop (a + n) ls"
proof (induction n arbitrary: k)
  case (Suc n)
  have "foldl (\<lambda>ls i. ls[i := v]) ls [a..<a + n] = take a ls @ replicate n v @ drop (a + n) ls"
    by (rule Suc.IH [of "Suc k"]) (use Suc.prems in simp)
  moreover have "drop (a + n) ls = ls ! (a + n) # drop (a + Suc n) ls"
    using Suc.prems by (simp add: Cons_nth_drop_Suc)
  ultimately show ?case using Suc.prems by (simp add: list_update_append replicate_append_same)
qed simp

lemma fixed_lengths_filled:
  "foldl (\<lambda>ls i. ls[i := 8]) (foldl (\<lambda>ls i. ls[i := 7]) (foldl (\<lambda>ls i. ls[i := 9])
     (foldl (\<lambda>ls i. ls[i := 8]) (replicate 288 0) [0..<144]) [144..<256]) [256..<280]) [280..<288] =
   fixed_literal_lengths"
  "foldl (\<lambda>ls i. ls[i := 5]) (replicate 32 0) [0..<32] = fixed_distance_lengths"
  using foldl_update_range [of "replicate 288 0" 0 144 144 "8 :: u8"]
    foldl_update_range [of "replicate 144 8 @ replicate 144 0" 144 112 32 "9 :: u8"]
    foldl_update_range [of "replicate 144 8 @ replicate 112 9 @ replicate 32 0" 256 24 8 "7 :: u8"]
    foldl_update_range [of "replicate 144 8 @ replicate 112 9 @ replicate 24 7 @ replicate 8 0" 280 8 0 "8 :: u8"]
    foldl_update_range [of "replicate 32 0" 0 32 0 "5 :: u8"]
  by (simp_all add: fixed_literal_lengths_def fixed_distance_lengths_def)

lemma fixed_accepted:
  "huffman_accepts fixed_literal_lengths False False" "huffman_accepts fixed_distance_lengths False False"
  by (simp_all add: huffman_accepts_def lengths_ok_def kraft_sum_def fixed_literal_lengths_def
      fixed_distance_lengths_def max_huffman_symbols_def max_code_bits_def ball_Un sum_list_replicate)

lemma build_sim:
  assumes "huffman_accepts ls ae single"
  obtains T where "table_ok_for T (canonical_codes ls)"
    "\<And>ob. buf_ok ob \<Longrightarrow> simulates h (30 + 16 * length ls) 0 ob (huffman_build h ls ae single idx ob) (Inr (T, ob_bytes ob))"
  using huffman_build_sim [of ls ae single h idx] assms table_for_ok [OF assms] by auto

lemma build_sim_err:
  "\<not> huffman_accepts ls ae single \<Longrightarrow> buf_ok ob \<Longrightarrow>
    simulates h (30 + 16 * length ls) 0 ob (huffman_build h ls ae single idx ob) (Inl (invalid_flate idx))"
  using huffman_build_sim [of ls ae single h idx] by auto

definition tables_for :: "huffman \<times> huffman \<Rightarrow> (bool list \<times> nat) list \<times> (bool list \<times> nat) list \<Rightarrow> bool" where
  "tables_for T C \<longleftrightarrow> table_ok_for (fst T) (fst C) \<and> table_ok_for (snd T) (snd C)"

lemma fixed_tables_sim:
  obtains T where "tables_for T (canonical_codes fixed_literal_lengths, canonical_codes fixed_distance_lengths)"
    "\<And>ob. buf_ok ob \<Longrightarrow> simulates h 5500 0 ob (fixed_tables h idx ob) (Inr (T, ob_bytes ob))"
proof -
  obtain TL where TL: "table_ok_for TL (canonical_codes fixed_literal_lengths)"
    "\<And>ob. buf_ok ob \<Longrightarrow> simulates h (30 + 16 * length fixed_literal_lengths) 0 ob
       (huffman_build h fixed_literal_lengths False False idx ob) (Inr (TL, ob_bytes ob))"
    using build_sim [OF fixed_accepted(1)] by blast
  obtain TD where TD: "table_ok_for TD (canonical_codes fixed_distance_lengths)"
    "\<And>ob. buf_ok ob \<Longrightarrow> simulates h (30 + 16 * length fixed_distance_lengths) 0 ob
       (huffman_build h fixed_distance_lengths False False idx ob) (Inr (TD, ob_bytes ob))"
    using build_sim [OF fixed_accepted(2)] by blast
  have fill: "simulates h (length is) 0 ob (fill_code_lengths h ls is v ob) (Inr (foldl (\<lambda>ls i. ls[i := v]) ls is, out))"
    if "buf_ok ob" "ob_bytes ob = out" for ob out v ls "is"
    using fill_code_lengths_sim [OF that(1)] that(2) by simp
  have sim: "simulates h (length [0..<144] + (length [144..<256] + (length [256..<280] + (length [280..<288] +
      (length [0..<32] + ((30 + 16 * length fixed_literal_lengths) + ((30 + 16 * length fixed_distance_lengths) + 0)))))))
      (0 + (0 + (0 + (0 + (0 + (0 + (0 + 0))))))) ob (fixed_tables h idx ob) (Inr ((TL, TD), out))"
    if ob: "buf_ok ob" "ob_bytes ob = out" for ob out
    unfolding fixed_tables_def
  proof ((rule sim_then, rule fill, (rule ob | assumption), (rule ob | assumption))+, unfold fixed_lengths_filled, goal_cases)
    case (1 o1 o2 o3 o4 o5)
    have "simulates h (30 + 16 * length fixed_literal_lengths) 0 o5
       (huffman_build h fixed_literal_lengths False False idx o5) (Inr (TL, out))"
      using TL(2) [OF 1(9)] 1(10) by simp
    then show ?case
    proof (rule sim_then, goal_cases)
      case (1 o6)
      have "simulates h (30 + 16 * length fixed_distance_lengths) 0 o6
         (huffman_build h fixed_distance_lengths False False idx o6) (Inr (TD, out))"
        using TD(2) [OF 1(1)] 1(2) by simp
      then show ?case by (rule sim_then) auto
    qed
  qed
  have "simulates h 5500 0 ob (fixed_tables h idx ob) (Inr ((TL, TD), ob_bytes ob))" if "buf_ok ob" for ob
    by (rule simulates_mono [OF sim [OF that refl]])
      (simp_all add: fixed_literal_lengths_def fixed_distance_lengths_def)
  moreover have "tables_for (TL, TD) (canonical_codes fixed_literal_lengths, canonical_codes fixed_distance_lengths)"
    using TL(1) TD(1) by (simp add: tables_for_def)
  ultimately show ?thesis using that by blast
qed

section \<open>Dynamic tables\<close>

lemma code_length_lengths_fs:
  "flate_in inp w ob f bs \<Longrightarrow> buf_ok ob \<Longrightarrow>
    fsim h c n (=) inp w ob bs (code_length_lengths h idx ps ls f ob)
      (and_then (get_code_length_lengths idx ps ls bs) (\<lambda>(ls', bs'). Inr (ls', bs', ob_bytes ob)))"
proof (induction ps arbitrary: ls f ob bs)
  case Nil
  then show ?case by (simp add: fs_return)
next
  case (Cons p ps)
  have three: "(3 :: nat) \<le> 15" by simp
  show ?case unfolding code_length_lengths.simps get_code_length_lengths.simps and_then_assoc split_def
  proof (rule fs_read [OF Cons.prems three, where ?c2.0 = "1 + c" and ?n2.0 = "0 + n"], goal_cases)
    case (1 v f1 o1 bs1)
    have v: "(if unat (word_of_nat v :: u32) \<le> 255 then ucast (word_of_nat v :: u32) else 255) = (word_of_nat v :: u8)"
      using 1(2) u32_small [OF 1(2) three] by (simp add: unsigned_of_nat take_bit_nat_eq_self)
    show ?case unfolding fst_conv snd_conv v
    proof (rule fs_step [OF charge_algorithm_sim [OF 1(4)]], goal_cases)
      case (1 o2)
      have "flate_in inp w o2 f1 bs1" using \<open>flate_in inp w o1 f1 bs1\<close> 1(2) by (simp add: flate_in_def)
      from Cons.IH [OF this 1(1)] show ?case
        unfolding snd_conv 1(2) \<open>ob_bytes o1 = ob_bytes ob\<close> split_def .
    qed
  qed (simp_all add: bit_fuel_def bit_output_def)
qed

text \<open>The array of lengths while it is filled from the left.\<close>

definition filled_array :: "u8 list \<Rightarrow> u8 list" where
  "filled_array ls = ls @ replicate (318 - length ls) 0"

lemma filled_array_fill:
  assumes "length ls + n \<le> 318"
  shows "foldl (\<lambda>ls i. ls[i := v]) (filled_array ls) [length ls..<length ls + n] = filled_array (ls @ replicate n v)"
proof -
  have "foldl (\<lambda>ls i. ls[i := v]) (filled_array ls) [length ls..<length ls + n] =
      take (length ls) (filled_array ls) @ replicate n v @ drop (length ls + n) (filled_array ls)"
    by (rule foldl_update_range [where k = "318 - length ls - n"]) (use assms in \<open>simp add: filled_array_def\<close>)
  then show ?thesis using assms by (simp add: filled_array_def)
qed

lemma filled_array_put: "length ls < 318 \<Longrightarrow> (filled_array ls)[length ls := v] = filled_array (ls @ [v])"
  using filled_array_fill [of ls 1 v] by simp

lemma filled_array_last: "ls \<noteq> [] \<Longrightarrow> filled_array ls ! (length ls - 1) = last ls"
  by (simp add: filled_array_def nth_append last_conv_nth)

definition filling :: "u8 list \<times> nat \<Rightarrow> u8 list \<Rightarrow> bool" where
  "filling a ls \<longleftrightarrow> a = (filled_array ls, length ls)"

lemma fill_fs:
  assumes "flate_in inp w ob f bs" "buf_ok ob" "length ls + count \<le> 318" "count \<le> c"
  shows "fsim h c 0 filling inp w ob bs
    (and_then (fill_code_lengths h (filled_array ls) [length ls..<length ls + count] v ob)
       (\<lambda>p. Inr (((fst p, length ls + count), f), snd p)))
    (Inr (ls @ replicate count v, bs, ob_bytes ob))"
proof -
  have fill: "simulates h count 0 ob (fill_code_lengths h (filled_array ls) [length ls..<length ls + count] v ob)
      (Inr (filled_array (ls @ replicate count v), ob_bytes ob))"
    using fill_code_lengths_sim [OF assms(2), of h "[length ls..<length ls + count]" "filled_array ls" v]
    unfolding filled_array_fill [OF assms(3)] by simp
  have "fsim h (count + 0) (0 + 0) filling inp w ob bs
    (and_then (fill_code_lengths h (filled_array ls) [length ls..<length ls + count] v ob)
       (\<lambda>p. Inr (((fst p, length ls + count), f), snd p)))
    (Inr (ls @ replicate count v, bs, ob_bytes ob))"
  proof (rule fs_step [OF fill], goal_cases)
    case (1 o1)
    then show ?case using assms(1) by (simp add: fs_return filling_def flate_in_def)
  qed
  then show ?thesis by (rule fs_mono) (use assms(4) in simp_all)
qed

lemma repeat_fs:
  assumes fin: "flate_in inp w ob f bs" and ob: "buf_ok ob" and total: "total_lengths \<le> 318" and len: "length ls < total_lengths"
    and bits: "bits \<le> 7" "0 < bits" and base: "base \<le> 11"
  shows "fsim h 150 0 filling inp w ob bs
    (and_then (read_bits h idx bits f ob) (\<lambda>((x, f), ob).
       and_then (ok_or (checked_add (length ls) (unat x + base)) (invalid_flate idx)) (\<lambda>end_index.
         if end_index > total_lengths then Inl (invalid_flate idx)
         else and_then (fill_code_lengths h (filled_array ls) [length ls..<end_index] v ob)
           (\<lambda>(lengths, ob). Inr (((lengths, end_index), f), ob)))))
    (and_then (get_bits idx bits bs) (\<lambda>(x, bs).
       if length ls + (x + base) > total_lengths then Inl (invalid_flate idx)
       else Inr (ls @ replicate (x + base) v, bs, ob_bytes ob)))"
proof -
  have b: "bits \<le> 15" using bits by simp
  show ?thesis unfolding split_def
  proof (rule fs_read [OF fin ob b, where ?c2.0 = 150 and ?n2.0 = 0], goal_cases)
    case (1 x f1 o1 bs1)
    have "(2 :: nat) ^ bits \<le> 2 ^ 7" by (rule power_increasing) (use bits in simp_all)
    then have x: "x < 128" using 1(2) by simp
    have add: "checked_add (length ls) (unat (word_of_nat x :: u32) + base) = Some (length ls + (x + base))"
      unfolding u32_small [OF 1(2) b] using x base total len by (simp add: checked_add_def u64_max_def)
    show ?case
    proof (cases "length ls + (x + base) > total_lengths")
      case False
      then have room: "length ls + (x + base) \<le> 318" "x + base \<le> 150" using total x base by simp_all
      from fill_fs [OF 1(3,4) room] False show ?thesis
        unfolding fst_conv snd_conv add ok_or_simps and_then_simps 1(5) by simp
    qed (simp add: add fs_fail)
  qed (use bits in \<open>simp_all add: bit_fuel_def bit_output_def\<close>)
qed

lemma code_length_symbol_fs:
  assumes fin: "flate_in inp w ob f bs" and ob: "buf_ok ob" and total: "total_lengths \<le> 318" "length ls < total_lengths"
  shows "fsim h 150 0 filling inp w ob bs
    (code_length_symbol h idx s (filled_array ls) (length ls) total_lengths f ob)
    (and_then (deflate_length_symbol idx total_lengths s ls bs) (\<lambda>(ls', bs'). Inr (ls', bs', ob_bytes ob)))"
proof -
  note rep = repeat_fs [OF fin ob total]
  consider "s \<le> 15" | "s = 16" "ls = []" | "s = 16" "ls \<noteq> []" | "s = 17" | "s = 18" | "18 < s" by linarith
  then show ?thesis
  proof cases
    case 1
    have "fsim h (1 + 0) (0 + 0) filling inp w ob bs (and_then (charge_algorithm h 1 ob) (\<lambda>(_, ob).
        Inr (((filled_array (ls @ [of_nat s]), length ls + 1), f), ob))) (Inr (ls @ [of_nat s], bs, ob_bytes ob))"
      by (rule fs_step [OF charge_algorithm_sim [OF ob]]) (use fin in \<open>simp add: fs_return filling_def flate_in_def\<close>)
    then have "fsim h 150 0 filling inp w ob bs (and_then (charge_algorithm h 1 ob) (\<lambda>(_, ob).
        Inr (((filled_array (ls @ [of_nat s]), length ls + 1), f), ob))) (Inr (ls @ [of_nat s], bs, ob_bytes ob))"
      by (rule fs_mono) simp_all
    then show ?thesis
      using 1 filled_array_put [of ls "of_nat s"] total by (simp add: code_length_symbol_def deflate_length_symbol_def)
  next
    case 2
    then show ?thesis by (simp add: code_length_symbol_def deflate_length_symbol_def fs_fail)
  next
    case 3
    from rep [of 2 3 h idx "last ls"] 3 show ?thesis
      by (simp add: code_length_symbol_def deflate_length_symbol_def filled_array_last [OF 3(2), unfolded One_nat_def] split_def
          and_then_assoc if_distrib [where f = "\<lambda>r. and_then r _"] cong: if_cong)
  next
    case 4
    from rep [of 3 3 h idx 0] 4 show ?thesis
      by (simp add: code_length_symbol_def deflate_length_symbol_def fill_zero_lengths_def split_def
          and_then_assoc if_distrib [where f = "\<lambda>r. and_then r _"] cong: if_cong)
  next
    case 5
    from rep [of 7 11 h idx 0] 5 show ?thesis
      by (simp add: code_length_symbol_def deflate_length_symbol_def fill_zero_lengths_def split_def
          and_then_assoc if_distrib [where f = "\<lambda>r. and_then r _"] cong: if_cong)
  next
    case 6
    then show ?thesis by (simp add: code_length_symbol_def deflate_length_symbol_def fs_fail)
  qed
qed

lemma deflate_length_symbol_le:
  "deflate_length_symbol idx n s ls bs = Inr (ls', bs') \<Longrightarrow> length ls < n \<Longrightarrow> length ls < length ls' \<and> length ls' \<le> n"
  by (auto simp: deflate_length_symbol_def and_then_Inr_iff Let_def split: if_splits)

definition all_lengths :: "nat \<Rightarrow> u8 list \<Rightarrow> u8 list \<Rightarrow> bool" where
  "all_lengths n a ls \<longleftrightarrow> a = filled_array ls \<and> length ls = n"

lemma code_lengths_loop_fs:
  assumes T: "table_ok_for T C" and total: "total_lengths \<le> 318"
  shows "flate_in inp w ob f bs \<Longrightarrow> buf_ok ob \<Longrightarrow> length ls \<le> total_lengths \<Longrightarrow>
    fsim h 0 0 (all_lengths total_lengths) inp w ob bs
      (code_lengths_loop h idx T (filled_array ls) (length ls) total_lengths f ob)
      (and_then (deflate_lengths idx C total_lengths ls bs) (\<lambda>(ls', bs'). Inr (ls', bs', ob_bytes ob)))"
proof (induction "total_lengths - length ls" arbitrary: ls f ob bs rule: less_induct)
  case less
  show ?case
  proof (cases "length ls < total_lengths")
    case False
    then show ?thesis using less.prems
      by (simp add: code_lengths_loop.simps [of h idx T "filled_array ls"] deflate_lengths.simps [of idx C _ ls]
          fs_return all_lengths_def)
  next
    case True
    show ?thesis
      unfolding code_lengths_loop.simps [of h idx T "filled_array ls"] deflate_lengths.simps [of idx C _ ls]
        if_P [OF True] and_then_assoc split_def
    proof (rule fs_symbol [OF less.prems(1,2) T, where ?c2.0 = "150 + 0" and ?n2.0 = "0 + 0"], goal_cases)
      case (1 s f1 o1 bs1)
      have "fsim h (150 + 0) (0 + 0) (all_lengths total_lengths) inp w o1 bs1
         (and_then (code_length_symbol h idx s (filled_array ls) (length ls) total_lengths f1 o1)
           (\<lambda>p. code_lengths_loop h idx T (fst (fst (fst p))) (snd (fst (fst p))) total_lengths (snd (fst p)) (snd p)))
         (and_then (and_then (deflate_length_symbol idx total_lengths s ls bs1) (\<lambda>(ls', bs'). Inr (ls', bs', ob_bytes o1)))
           (\<lambda>(ls', bs', out). and_then (deflate_lengths idx C total_lengths ls' bs')
              (\<lambda>(ls', bs'). Inr (ls', bs', ob_bytes ob))))"
      proof (rule fs_bind [OF code_length_symbol_fs [OF 1(2,3) total True]], goal_cases)
        case (1 x y f2 o2 bs2)
        have y: "deflate_length_symbol idx total_lengths s ls bs1 = Inr (y, bs2)" "ob_bytes o2 = ob_bytes o1"
          using 1(2) by (auto simp: and_then_Inr_iff)
        note le = deflate_length_symbol_le [OF y(1) True]
        have small: "total_lengths - length y < total_lengths - length ls" using le by linarith
        have out: "ob_bytes o2 = ob_bytes ob" using y(2) \<open>ob_bytes o1 = ob_bytes ob\<close> by simp
        from less.hyps [OF small 1(4,5) conjunct2 [OF le]] 1(1) show ?case
          by (simp add: filling_def out)
      qed
      then show ?case unfolding fst_conv snd_conv and_then_assoc split_def and_then_simps .
    qed (simp_all add: bit_fuel_def bit_output_def)
  qed
qed

lemma flate_in_same: "flate_in inp w ob f bs \<Longrightarrow> ob_bytes ob' = ob_bytes ob \<Longrightarrow> flate_in inp w ob' f bs"
  by (simp add: flate_in_def)

lemma fs_build:
  assumes ob: "buf_ok ob"
    and k: "\<And>T o1. huffman_accepts ls ae single \<Longrightarrow> table_ok_for T (canonical_codes ls) \<Longrightarrow> buf_ok o1 \<Longrightarrow>
      ob_bytes o1 = ob_bytes ob \<Longrightarrow> fsim h c n V inp w o1 bs (k (T, o1)) p"
    and err: "\<not> huffman_accepts ls ae single \<Longrightarrow> p = Inl (invalid_flate idx)"
  shows "fsim h (30 + 16 * length ls + c) n V inp w ob bs (and_then (huffman_build h ls ae single idx ob) k) p"
proof (cases "huffman_accepts ls ae single")
  case True
  obtain T where T: "table_ok_for T (canonical_codes ls)"
    "\<And>ob. buf_ok ob \<Longrightarrow> simulates h (30 + 16 * length ls) 0 ob (huffman_build h ls ae single idx ob) (Inr (T, ob_bytes ob))"
    using build_sim [OF True] by blast
  have "fsim h (30 + 16 * length ls + c) (0 + n) V inp w ob bs (and_then (huffman_build h ls ae single idx ob) k) p"
    by (rule fs_step [OF T(2) [OF ob]]) (rule k [OF True T(1)])
  then show ?thesis by simp
next
  case False
  show ?thesis unfolding err [OF False]
    by (rule fs_step_err [OF build_sim_err [OF False ob]]) simp_all
qed

lemma build_tables_fs:
  assumes fin: "flate_in inp w ob f bs" and ob: "buf_ok ob" and a: "all_lengths (hlit + hdist) a ls"
    and hlit: "257 \<le> hlit" "hlit \<le> 286" and hdist: "hdist \<le> 32"
  shows "fsim h 5150 0 tables_for inp w ob bs
    (if a ! 256 = 0 then Inl (invalid_flate idx)
     else and_then (huffman_build h (take hlit a) False True idx ob) (\<lambda>(l, ob).
          and_then (huffman_build h (take hdist (drop hlit a)) True True idx ob) (\<lambda>(d, ob). Inr (((l, d), f), ob))))
    (if ls ! 256 = 0 \<or> \<not> huffman_accepts (take hlit ls) False True \<or> \<not> huffman_accepts (drop hlit ls) True True
     then Inl (invalid_flate idx)
     else Inr ((canonical_codes (take hlit ls), canonical_codes (drop hlit ls)), bs, ob_bytes ob))"
proof -
  have len: "length ls = hlit + hdist" using a by (simp add: all_lengths_def)
  have parts: "a ! 256 = ls ! 256" "take hlit a = take hlit ls" "take hdist (drop hlit a) = drop hlit ls"
    using a hlit by (simp_all add: all_lengths_def filled_array_def nth_append)
  show ?thesis
  proof (cases "ls ! 256 = 0")
    case True
    then show ?thesis unfolding parts by (simp add: fs_fail)
  next
    case nz: False
    let ?p = "if ls ! 256 = 0 \<or> \<not> huffman_accepts (take hlit ls) False True \<or> \<not> huffman_accepts (drop hlit ls) True True
     then Inl (invalid_flate idx)
     else Inr ((canonical_codes (take hlit ls), canonical_codes (drop hlit ls)), bs, ob_bytes ob)"
    have "fsim h (30 + 16 * length (take hlit ls) + (30 + 16 * length (drop hlit ls) + 0)) 0 tables_for inp w ob bs
        (and_then (huffman_build h (take hlit ls) False True idx ob) (\<lambda>(l, ob).
           and_then (huffman_build h (drop hlit ls) True True idx ob) (\<lambda>(d, ob). Inr (((l, d), f), ob)))) ?p"
    proof (rule fs_build [OF ob], goal_cases)
      case (1 L o1)
      show ?case unfolding prod.case
      proof (rule fs_build [OF 1(3)], goal_cases)
        case (1 D o2)
        have "ob_bytes o2 = ob_bytes ob" using 1(4) \<open>ob_bytes o1 = ob_bytes ob\<close> by simp
        moreover have "tables_for (L, D) (canonical_codes (take hlit ls), canonical_codes (drop hlit ls))"
          using 1(2) \<open>table_ok_for L (canonical_codes (take hlit ls))\<close> by (simp add: tables_for_def)
        ultimately show ?case
          using 1(1,3) nz \<open>huffman_accepts (take hlit ls) False True\<close> flate_in_same [OF fin] by (simp add: fs_return)
      qed simp
    qed simp
    then have "fsim h 5150 0 tables_for inp w ob bs
        (and_then (huffman_build h (take hlit ls) False True idx ob) (\<lambda>(l, ob).
           and_then (huffman_build h (drop hlit ls) True True idx ob) (\<lambda>(d, ob). Inr (((l, d), f), ob)))) ?p"
      by (rule fs_mono) (use hlit hdist len in simp_all)
    then show ?thesis unfolding parts if_not_P [OF nz] .
  qed
qed

lemma dynamic_rest_fs:
  assumes fin: "flate_in inp w ob f bs" and ob: "buf_ok ob" and hlit: "257 \<le> hlit"
  shows "fsim h 5490 0 tables_for inp w ob bs
    (if hlit > 286 \<or> hdist > 32 \<or> hclen > 19 then Inl (invalid_flate idx)
     else and_then (code_length_lengths h idx (take hclen code_length_order) (replicate 19 0) f ob) (\<lambda>((cl, f), ob).
       and_then (huffman_build h cl False False idx ob) (\<lambda>(tree, ob).
       and_then (ok_or (checked_add hlit hdist) (invalid_flate idx)) (\<lambda>total_lengths.
       and_then (code_lengths_loop h idx tree (replicate 318 0) 0 total_lengths f ob) (\<lambda>((lengths, f), ob).
         if lengths ! 256 = 0 then Inl (invalid_flate idx)
         else and_then (huffman_build h (take hlit lengths) False True idx ob) (\<lambda>(literal_length, ob).
              and_then (huffman_build h (take hdist (drop hlit lengths)) True True idx ob)
                (\<lambda>(distance, ob). Inr (((literal_length, distance), f), ob))))))))
    (and_then (if hlit > 286 \<or> hdist > 32 \<or> hclen > 19 then Inl (invalid_flate idx)
       else and_then (get_code_length_lengths idx (take hclen code_length_order) (replicate 19 0) bs) (\<lambda>(cl, bs).
         if \<not> huffman_accepts cl False False then Inl (invalid_flate idx)
         else and_then (deflate_lengths idx (canonical_codes cl) (hlit + hdist) [] bs) (\<lambda>(ls, bs).
           if ls ! 256 = 0 \<or> \<not> huffman_accepts (take hlit ls) False True \<or>
              \<not> huffman_accepts (drop hlit ls) True True
           then Inl (invalid_flate idx)
           else Inr ((canonical_codes (take hlit ls), canonical_codes (drop hlit ls)), bs))))
      (\<lambda>(LD, bs'). Inr (LD, bs', ob_bytes ob)))"
proof (cases "hlit > 286 \<or> hdist > 32 \<or> hclen > 19")
  case True
  show ?thesis unfolding if_P [OF True] and_then_simps by (rule fs_fail)
next
  case False
  then have le: "hlit \<le> 286" "hdist \<le> 32" by auto
  let ?tail = "\<lambda>ls bs. if ls ! 256 = 0 \<or> \<not> huffman_accepts (take hlit ls) False True \<or>
              \<not> huffman_accepts (drop hlit ls) True True
           then Inl (invalid_flate idx)
           else Inr ((canonical_codes (take hlit ls), canonical_codes (drop hlit ls)), bs, ob_bytes ob)"
  have total: "checked_add hlit hdist = Some (hlit + hdist)" "hlit + hdist \<le> 318"
    using le by (simp_all add: checked_add_def u64_max_def)
  have "fsim h (0 + 5490) (0 + 0) tables_for inp w ob bs
     (and_then (code_length_lengths h idx (take hclen code_length_order) (replicate 19 0) f ob) (\<lambda>((cl, f), ob).
       and_then (huffman_build h cl False False idx ob) (\<lambda>(tree, ob).
       and_then (code_lengths_loop h idx tree (filled_array []) (length ([] :: u8 list)) (hlit + hdist) f ob) (\<lambda>((lengths, f), ob).
         if lengths ! 256 = 0 then Inl (invalid_flate idx)
         else and_then (huffman_build h (take hlit lengths) False True idx ob) (\<lambda>(literal_length, ob).
              and_then (huffman_build h (take hdist (drop hlit lengths)) True True idx ob)
                (\<lambda>(distance, ob). Inr (((literal_length, distance), f), ob)))))))
     (and_then (and_then (get_code_length_lengths idx (take hclen code_length_order) (replicate 19 0) bs)
          (\<lambda>(cl, bs'). Inr (cl, bs', ob_bytes ob))) (\<lambda>(cl, bs, out).
         if \<not> huffman_accepts cl False False then Inl (invalid_flate idx)
         else and_then (and_then (deflate_lengths idx (canonical_codes cl) (hlit + hdist) [] bs)
             (\<lambda>(ls, bs). Inr (ls, bs, ob_bytes ob))) (\<lambda>(ls, bs, out). ?tail ls bs)))"
  proof (rule fs_bind [OF code_length_lengths_fs [OF fin ob]], goal_cases)
    case (1 cl y f1 o1 bs1)
    note cl = 1
    have y: "get_code_length_lengths idx (take hclen code_length_order) (replicate 19 0) bs = Inr (y, bs1)"
      "ob_bytes o1 = ob_bytes ob"
      using cl(2) by (auto simp: and_then_Inr_iff)
    have len: "length cl = 19" using get_code_length_lengths_length [OF y(1)] cl(1) by simp
    show ?case unfolding prod.case
    proof (rule fs_mono [OF fs_build [OF cl(5), where c = "0 + 5150" and n = "0 + 0"]], goal_cases)
      case (1 T o2)
      note T = 1
      note fin2 = flate_in_same [OF cl(4) T(4)]
      have out: "ob_bytes o2 = ob_bytes ob" using T(4) y(2) by simp
      have acc: "\<not> \<not> huffman_accepts cl False False" using T(1) by simp
      have "length ([] :: u8 list) \<le> hlit + hdist" by simp
      note loop = code_lengths_loop_fs [OF T(2) total(2) fin2 T(3) this, of h idx, unfolded out]
      show ?case unfolding prod.case cl(1) [symmetric] if_not_P [OF acc]
      proof (rule fs_bind [OF loop], goal_cases)
        case (1 a ls f3 o3 bs3)
        have out3: "ob_bytes o3 = ob_bytes ob" using 1(2) by (auto simp: and_then_Inr_iff)
        from build_tables_fs [OF 1(4,5,1) hlit le, of h idx] show ?case unfolding prod.case add_0 out3 .
      qed
    qed (use len cl(1) in simp_all)
  qed
  then show ?thesis unfolding if_not_P [OF False] total(1) ok_or_simps and_then_simps
    by (simp add: filled_array_def and_then_assoc split_def if_distrib [where f = "\<lambda>r. and_then r _"] cong: if_cong)
qed

lemma dynamic_tables_fs:
  assumes fin: "flate_in inp w ob f bs" and ob: "buf_ok ob"
  shows "fsim h 5490 0 tables_for inp w ob bs (dynamic_tables h idx f ob)
    (and_then (deflate_dynamic idx bs) (\<lambda>(LD, bs'). Inr (LD, bs', ob_bytes ob)))"
proof -
  have small: "(5 :: nat) \<le> 15" "(4 :: nat) \<le> 15" by simp_all
  show ?thesis unfolding dynamic_tables_def deflate_dynamic_def and_then_assoc split_def
  proof (rule fs_read [OF fin ob small(1), where ?c2.0 = 5490 and ?n2.0 = 0], goal_cases)
    case (1 v f1 o1 bs1)
    note v = 1
    show ?case unfolding fst_conv snd_conv and_then_assoc
    proof (rule fs_read [OF v(3,4) small(1), where ?c2.0 = 5490 and ?n2.0 = 0], goal_cases)
      case (1 d f2 o2 bs2)
      note d = 1
      show ?case unfolding fst_conv snd_conv and_then_assoc
      proof (rule fs_read [OF d(3,4) small(2), where ?c2.0 = 5490 and ?n2.0 = 0], goal_cases)
        case (1 x f3 o3 bs3)
        note x = 1
        note vals = u32_small [OF v(2) small(1)] u32_small [OF d(2) small(1)] u32_small [OF x(2) small(2)]
        have out: "ob_bytes o3 = ob_bytes ob" using v(5) d(5) x(5) by simp
        have lit: "257 \<le> v + 257" by simp
        from dynamic_rest_fs [OF x(3,4) lit, of h "d + 1" "x + 4" idx] show ?case
          unfolding fst_conv snd_conv vals out Let_def split_def .
      qed (simp_all add: bit_fuel_def bit_output_def)
    qed (simp_all add: bit_fuel_def bit_output_def)
  qed (simp_all add: bit_fuel_def bit_output_def)
qed

section \<open>Blocks\<close>

lemma block_body_fs:
  assumes h: "host_ok h" and fin: "flate_in inp w ob f bs" and ob: "buf_ok ob" and kind: "kind < 4"
  shows "fsim h 5500 0 (\<lambda>_ _. True) inp w ob bs
    (if word_of_nat kind = (0 :: u32) then decode_stored_block h idx f ob
     else if word_of_nat kind = (1 :: u32)
     then and_then (fixed_tables h idx ob) (\<lambda>((literal_length, distance), ob).
            decode_compressed_block h idx literal_length distance f ob)
     else if word_of_nat kind = (2 :: u32)
     then and_then (dynamic_tables h idx f ob) (\<lambda>(((literal_length, distance), f), ob).
            decode_compressed_block h idx literal_length distance f ob)
     else Inl (invalid_flate idx))
    (and_then (if kind = 0 then deflate_stored idx bs (ob_bytes ob)
               else if kind = 1
               then deflate_codes idx (canonical_codes fixed_literal_lengths)
                      (canonical_codes fixed_distance_lengths) w bs (ob_bytes ob)
               else if kind = 2
               then and_then (deflate_dynamic idx bs) (\<lambda>((L, D), bs). deflate_codes idx L D w bs (ob_bytes ob))
               else Inl (invalid_flate idx)) (\<lambda>(bs', out). Inr ((), bs', out)))"
proof -
  consider "kind = 0" | "kind = 1" | "kind = 2" | "kind = 3" using kind by linarith
  then show ?thesis
  proof cases
    case 1
    then show ?thesis using decode_stored_block_fs [OF h fin ob] by simp
  next
    case 2
    obtain T where T: "tables_for T (canonical_codes fixed_literal_lengths, canonical_codes fixed_distance_lengths)"
      "\<And>ob. buf_ok ob \<Longrightarrow> simulates h 5500 0 ob (fixed_tables h idx ob) (Inr (T, ob_bytes ob))"
      using fixed_tables_sim by blast
    have "fsim h (5500 + 0) (0 + 0) (\<lambda>_ _. True) inp w ob bs
        (and_then (fixed_tables h idx ob) (\<lambda>((literal_length, distance), ob).
            decode_compressed_block h idx literal_length distance f ob))
        (and_then (deflate_codes idx (canonical_codes fixed_literal_lengths)
           (canonical_codes fixed_distance_lengths) w bs (ob_bytes ob)) (\<lambda>(bs', out). Inr ((), bs', out)))"
    proof (rule fs_step [OF T(2) [OF ob]], goal_cases)
      case (1 o1)
      from decode_compressed_block_fs [OF h T(1) [unfolded tables_for_def fst_conv snd_conv, THEN conjunct1]
          T(1) [unfolded tables_for_def fst_conv snd_conv, THEN conjunct2] flate_in_same [OF fin 1(2)] 1(1), of idx]
      show ?case unfolding 1(2) split_def by simp
    qed
    then show ?thesis using 2 by simp
  next
    case 3
    have "fsim h (5490 + 0) (0 + 0) (\<lambda>_ _. True) inp w ob bs
        (and_then (dynamic_tables h idx f ob) (\<lambda>(((literal_length, distance), f), ob).
            decode_compressed_block h idx literal_length distance f ob))
        (and_then (and_then (deflate_dynamic idx bs) (\<lambda>(LD, bs'). Inr (LD, bs', ob_bytes ob)))
           (\<lambda>((L, D), bs, out). and_then (deflate_codes idx L D w bs (ob_bytes ob)) (\<lambda>(bs', out). Inr ((), bs', out))))"
    proof (rule fs_bind [OF dynamic_tables_fs [OF fin ob]], goal_cases)
      case (1 T C f1 o1 bs1)
      have "ob_bytes o1 = ob_bytes ob" using 1(2) by (auto simp: and_then_Inr_iff)
      with decode_compressed_block_fs [OF h 1(1) [unfolded tables_for_def, THEN conjunct1]
          1(1) [unfolded tables_for_def, THEN conjunct2] 1(4,5), of idx]
      show ?case by (simp add: split_def)
    qed
    then have "fsim h 5500 0 (\<lambda>_ _. True) inp w ob bs
        (and_then (dynamic_tables h idx f ob) (\<lambda>(((literal_length, distance), f), ob).
            decode_compressed_block h idx literal_length distance f ob))
        (and_then (and_then (deflate_dynamic idx bs) (\<lambda>(LD, bs'). Inr (LD, bs', ob_bytes ob)))
           (\<lambda>((L, D), bs, out). and_then (deflate_codes idx L D w bs (ob_bytes ob)) (\<lambda>(bs', out). Inr ((), bs', out))))"
      by (rule fs_mono) simp_all
    then show ?thesis using 3 by (simp add: and_then_assoc split_def)
  next
    case 4
    then show ?thesis by (simp add: fs_fail)
  qed
qed

lemma decode_blocks_fs:
  assumes h: "host_ok h"
  shows "flate_in inp w ob f bs \<Longrightarrow> buf_ok ob \<Longrightarrow>
    fsim h 1 0 (\<lambda>_ _. True) inp w ob bs (decode_blocks h idx f ob)
      (and_then (deflate_blocks idx w bs (ob_bytes ob)) (\<lambda>(bs', out). Inr ((), bs', out)))"
proof (induction "length bs" arbitrary: f ob bs rule: less_induct)
  case less
  have small: "(1 :: nat) \<le> 15" "(2 :: nat) \<le> 15" by simp_all
  have "fsim h (1 + 0) (0 + 0) (\<lambda>_ _. True) inp w ob bs (decode_blocks h idx f ob)
      (and_then (deflate_blocks idx w bs (ob_bytes ob)) (\<lambda>(bs', out). Inr ((), bs', out)))"
    unfolding decode_blocks.simps [of h idx f ob] decode_block_def deflate_blocks.simps [of idx w bs] deflate_block_def
      and_then_assoc Let_def split_def
  proof (rule fs_step [OF charge_algorithm_sim [OF less.prems(2)]], goal_cases)
    case (1 o1)
    note c = 1
    show ?case unfolding snd_conv
    proof (rule fs_read [OF flate_in_same [OF less.prems(1) c(2)] c(1) small(1), where ?c2.0 = 1990 and ?n2.0 = 0], goal_cases)
      case (1 v f1 o2 bs1)
      note v = 1
      show ?case unfolding fst_conv snd_conv and_then_assoc
      proof (rule fs_read [OF v(3,4) small(2), where ?c2.0 = "5500 + 1" and ?n2.0 = "0 + 0"], goal_cases)
        case (1 kind f2 o3 bs2)
        note kd = 1
        have out: "ob_bytes o3 = ob_bytes ob" using c(2) v(5) kd(5) by simp
        have k4: "kind < 4" using kd(2) by simp
        have nz: "(word_of_nat v \<noteq> (0 :: u32)) = (v \<noteq> 0)" using v(2) less_2_cases [of v] by auto
        have shorter: "length bs2 < length bs"
          using get_bits_length [OF v(1)] get_bits_length [OF kd(1)] by simp
        let ?p = "if kind = 0 then deflate_stored idx bs2 (ob_bytes ob)
               else if kind = 1
               then deflate_codes idx (canonical_codes fixed_literal_lengths)
                      (canonical_codes fixed_distance_lengths) w bs2 (ob_bytes ob)
               else if kind = 2
               then and_then (deflate_dynamic idx bs2) (\<lambda>p. deflate_codes idx (fst (fst p)) (snd (fst p)) w (snd p) (ob_bytes ob))
               else Inl (invalid_flate idx)"
        let ?k = "\<lambda>p. if v \<noteq> 0 then Inr (((), snd (fst p)), snd p) else decode_blocks h idx (snd (fst p)) (snd p)"
        let ?q = "\<lambda>p. and_then (if v \<noteq> 0 then Inr (fst (snd p), snd (snd p))
            else deflate_blocks idx w (fst (snd p)) (snd (snd p))) (\<lambda>p. Inr ((), fst p, snd p))"
        note body = block_body_fs [OF h kd(3,4) k4, of idx, unfolded out split_def]
        have "fsim h (5500 + 1) (0 + 0) (\<lambda>_ _. True) inp w o3 bs2
           (and_then (if word_of_nat kind = (0 :: u32) then decode_stored_block h idx f2 o3
             else if word_of_nat kind = (1 :: u32)
             then and_then (fixed_tables h idx o3) (\<lambda>p. decode_compressed_block h idx (fst (fst p)) (snd (fst p)) f2 (snd p))
             else if word_of_nat kind = (2 :: u32)
             then and_then (dynamic_tables h idx f2 o3)
               (\<lambda>p. decode_compressed_block h idx (fst (fst (fst p))) (snd (fst (fst p))) (snd (fst p)) (snd p))
             else Inl (invalid_flate idx)) ?k)
           (and_then (and_then ?p (\<lambda>p. Inr ((), fst p, snd p))) ?q)"
        proof (rule fs_bind [OF body], goal_cases)
          case (1 x y f3 o4 bs3)
          have "length bs3 < length bs" using 1(3) shorter by simp
          note IH = less.hyps [OF this 1(4,5)]
          show ?case
            using IH fs_return [OF 1(5,4), where V = "\<lambda>_ _. True" and x = "()" and y = "()"]
            by (cases "v = 0") (simp_all add: split_def)
        qed
        then show ?case
          unfolding fst_conv snd_conv nz out and_then_assoc and_then_simps by (simp add: and_then_assoc)
      qed (simp_all add: bit_fuel_def bit_output_def)
    qed (simp_all add: bit_fuel_def bit_output_def)
  qed
  then show ?case by simp
qed

section \<open>The zlib wrapper\<close>

lemma get_bytes_4:
  "get_bytes idx 4 bs = and_then (get_bits idx 8 bs) (\<lambda>(a, bs). and_then (get_bits idx 8 bs) (\<lambda>(b, bs).
     and_then (get_bits idx 8 bs) (\<lambda>(c, bs). and_then (get_bits idx 8 bs) (\<lambda>(d, bs).
       Inr ([of_nat a, of_nat b, of_nat c, of_nat d], bs)))))"
  by (simp add: numeral_eq_Suc and_then_assoc split_def)

lemma trailing_fs:
  assumes fin: "flate_in inp w ob f bs" and ob: "buf_ok ob" and al: "length bs mod 8 = 0"
  shows "fsim h 1 0 (\<lambda>_ _. True) inp w ob bs
    (if f_cursor f \<noteq> length (f_input f)
     then and_then (read_aligned_byte h idx f ob) (\<lambda>_. Inl (for_code TrailingData (Some idx)))
     else Inr (((), f), ob))
    (if bs \<noteq> [] then Inl (for_code TrailingData (Some idx)) else Inr ((), bs, ob_bytes ob))"
proof -
  have f: "bit_count f = 0" "f_input f = inp" "f_cursor f \<le> length inp" "bs = bits_of (drop (f_cursor f) inp)"
    using fin flate_in_length [OF fin] al by (auto simp: flate_in_def rem_bits_def reader_ok_def)
  have "length bs = 8 * (length inp - f_cursor f)" unfolding f(4) by simp
  then have more: "bs \<noteq> [] \<longleftrightarrow> f_cursor f < length inp" by (cases bs) auto
  show ?thesis
  proof (cases "bs = []")
    case True
    then show ?thesis using fs_return [OF ob fin, where V = "\<lambda>_ _. True" and x = "()" and y = "()"] more f by simp
  next
    case False
    have "fsim h (1 + 0) (0 + 0) (\<lambda>_ _. True) inp w ob bs
        (and_then (consume_input h ob) (\<lambda>_. Inl (for_code TrailingData (Some idx))))
        (Inl (for_code TrailingData (Some idx)))"
      by (rule fs_step [OF consume_input_sim [OF ob]]) (rule fs_fail)
    then show ?thesis
      using False more f by (simp add: read_aligned_byte_def take_input_byte_def and_then_assoc split_def)
  qed
qed

lemma zlib_trailer_fs:
  assumes fin: "flate_in inp w ob f bs" and ob: "buf_ok ob"
  shows "fsim h 1 0 (\<lambda>_ _. True) inp w ob bs (zlib_trailer h idx f ob)
    (and_then (get_bytes idx 4 (aligned bs)) (\<lambda>(sum, rest).
       if from_be_bytes (sum ! 0) (sum ! 1) (sum ! 2) (sum ! 3) \<noteq>
          or (push_bit 16 (snd (adler32 (ob_bytes ob)))) (fst (adler32 (ob_bytes ob)))
       then Inl (invalid_flate idx)
       else if rest \<noteq> [] then Inl (for_code TrailingData (Some idx))
       else Inr ((), rest, ob_bytes ob)))"
proof (rule fs_drop)
  show "length (aligned bs) \<le> length bs" by (simp add: aligned_def)
  show "fsim h 1 0 (\<lambda>_ _. True) inp w ob (aligned bs) (zlib_trailer h idx f ob)
    (and_then (get_bytes idx 4 (aligned bs)) (\<lambda>(sum, rest).
       if from_be_bytes (sum ! 0) (sum ! 1) (sum ! 2) (sum ! 3) \<noteq>
          or (push_bit 16 (snd (adler32 (ob_bytes ob)))) (fst (adler32 (ob_bytes ob)))
       then Inl (invalid_flate idx)
       else if rest \<noteq> [] then Inl (for_code TrailingData (Some idx))
       else Inr ((), rest, ob_bytes ob)))"
    unfolding zlib_trailer_def get_bytes_4 and_then_assoc Let_def split_def
  proof (rule fs_byte [OF flate_in_align(1) [OF fin] ob flate_in_align(2) [OF fin], where ?c2.0 = 1 and ?n2.0 = 0], goal_cases)
    case (1 a f1 o1 bs1)
    note a = 1
    show ?case unfolding fst_conv snd_conv and_then_assoc
    proof (rule fs_byte [OF a(3,5,4), where ?c2.0 = 1 and ?n2.0 = 0], goal_cases)
      case (1 b f2 o2 bs2)
      note b = 1
      show ?case unfolding fst_conv snd_conv and_then_assoc
      proof (rule fs_byte [OF b(3,5,4), where ?c2.0 = 1 and ?n2.0 = 0], goal_cases)
        case (1 c f3 o3 bs3)
        note c = 1
        show ?case unfolding fst_conv snd_conv and_then_assoc
        proof (rule fs_byte [OF c(3,5,4), where ?c2.0 = 1 and ?n2.0 = 0], goal_cases)
          case (1 d f4 o4 bs4)
          note d = 1
          have out: "ob_bytes o4 = ob_bytes ob" using a(6) b(6) c(6) d(6) by simp
          have adler: "adler_a f4 = fst (adler32 (ob_bytes ob))" "adler_b f4 = snd (adler32 (ob_bytes ob))"
            using d(3) out by (auto simp: flate_in_def prod_eq_iff)
          from trailing_fs [OF d(3,5,4), of h idx] show ?case
            unfolding fst_conv snd_conv and_then_simps adler out [symmetric] by (simp add: fs_fail)
        qed (simp_all add: bit_fuel_def)
      qed (simp_all add: bit_fuel_def)
    qed (simp_all add: bit_fuel_def)
  qed (simp_all add: bit_fuel_def)
qed

lemma u16_mod_31: "n < 65536 \<Longrightarrow> (word_of_nat n :: u16) mod 31 \<noteq> 0 \<longleftrightarrow> n mod 31 \<noteq> 0"
proof -
  assume "n < 65536"
  then have "unat (word_of_nat n :: u16) = n" by (simp add: unsigned_of_nat take_bit_nat_eq_self)
  then have "unat ((word_of_nat n :: u16) mod 31) = n mod 31" by (simp add: unat_mod_distrib)
  then show ?thesis by (metis unsigned_0 unat_eq_zero)
qed

lemma zlib_check_word: "(or (push_bit 8 (ucast x)) (ucast y) :: u16) mod 31 \<noteq> 0 \<longleftrightarrow> (256 * unat x + unat y) mod 31 \<noteq> 0"
  for x y :: u8
proof -
  have "or (ucast (word_of_nat (unat y) :: u8)) (push_bit 8 (ucast (word_of_nat (unat x) :: u8))) =
      (word_of_nat (unat y + 256 * unat x) :: u16)"
    by (rule u16_of_bytes [OF unat_less_8 unat_less_8])
  then have eq: "or (push_bit 8 (ucast x)) (ucast y) = (word_of_nat (256 * unat x + unat y) :: u16)"
    by (simp add: or.commute add.commute)
  have "256 * unat x + unat y < 65536" using unat_less_8 [of x] unat_less_8 [of y] by linarith
  then have "(word_of_nat (256 * unat x + unat y) :: u16) mod 31 \<noteq> 0 \<longleftrightarrow> (256 * unat x + unat y) mod 31 \<noteq> 0"
    by (rule u16_mod_31)
  then show ?thesis unfolding eq .
qed

lemma read_first_bytes:
  "read_aligned_byte h idx f ob = and_then (consume_input h ob) (\<lambda>(_, ob).
     Inr ((f_input f ! f_cursor f, f\<lparr>f_cursor := f_cursor f + 1\<rparr>), ob))"
  if "bit_count f = 0" "f_cursor f < length (f_input f)"
  using that by (simp add: read_aligned_byte_def take_input_byte_def)

lemma zlib_header_sim:
  assumes ob: "buf_ok ob"
  shows "simulates h 2 0 ob (zlib_header h idx (flate_new input) ob)
    (and_then (zlib_window idx input) (\<lambda>w. Inr (((), (flate_new input)\<lparr>f_cursor := 2, window_limit := w\<rparr>), ob_bytes ob)))"
proof -
  let ?r = "\<lambda>x y ob. if and x 15 \<noteq> 8 \<or> drop_bit 4 x > 7 \<or> (or (push_bit 8 (ucast x)) (ucast y) :: u16) mod 31 \<noteq> 0
      then Inl (invalid_flate idx)
      else if and y 32 \<noteq> 0 then Inl (for_code UnsupportedFlateDictionary (Some idx))
      else Inr (((), (flate_new input)\<lparr>f_cursor := 2, window_limit := 2 ^ (unat (drop_bit 4 x) + 8)\<rparr>), ob)"
  consider "input = []" | x where "input = [x]" | x y rest where "input = x # y # rest"
    by (metis list.exhaust)
  then show ?thesis
  proof cases
    case 1
    then show ?thesis
      by (simp add: zlib_header_def zlib_window_def flate_new_def read_aligned_byte_def take_input_byte_def)
  next
    case 2
    have "simulates h (1 + 1) 0 ob (and_then (consume_input h ob) (\<lambda>_. Inl (invalid_flate idx))) (Inl (invalid_flate idx))"
      using sim_consume [OF ob, of h 1 0 "\<lambda>_. Inl (invalid_flate idx)" "Inl (invalid_flate idx)"] by (simp add: split_def)
    then show ?thesis
      using 2 by (simp add: zlib_header_def zlib_window_def flate_new_def read_aligned_byte_def take_input_byte_def
          and_then_assoc split_def numeral_2_eq_2)
  next
    case (3 x y rest)
    have run: "zlib_header h idx (flate_new input) ob = and_then (consume_input h ob) (\<lambda>(_, ob).
        and_then (consume_input h ob) (\<lambda>(_, ob). ?r x y ob))"
      using 3 by (simp add: zlib_header_def flate_new_def read_first_bytes and_then_assoc split_def Let_def numeral_2_eq_2 cong: if_cong)
    have "simulates h (1 + (1 + 0)) 0 ob (and_then (consume_input h ob) (\<lambda>(_, ob).
        and_then (consume_input h ob) (\<lambda>(_, ob). ?r x y ob)))
      (and_then (zlib_window idx input) (\<lambda>w. Inr (((), (flate_new input)\<lparr>f_cursor := 2, window_limit := w\<rparr>), ob_bytes ob)))"
    proof (rule sim_consume [OF ob], rule sim_consume, assumption, goal_cases)
      case (1 o1 o2)
      then have out: "ob_bytes ob = ob_bytes o2" by simp
      show ?case
        using 1(3) 3 unfolding zlib_check_word out by (simp add: zlib_window_def)
    qed
    then show ?thesis unfolding run by (simp add: numeral_2_eq_2)
  qed
qed

section \<open>The layer\<close>

lemma fsim_simulates:
  assumes "fsim h c n V inp w ob bs r p"
  shows "\<exists>x. simulates h (c + 50 + bit_fuel * length bs) (n + bit_output * length bs) ob r
    (and_then p (\<lambda>(y, bs', out). Inr (x, out)))"
proof (cases r)
  case (Inl e)
  then show ?thesis using assms by (auto simp: fsim_def simulates_def)
next
  case (Inr q)
  then obtain x f ob' where r: "r = Inr ((x, f), ob')" by (metis prod.exhaust)
  obtain y bs' where y: "p = Inr (y, bs', ob_bytes ob')"
    "steps_to (c + bit_fuel * (length bs - length bs')) (n + bit_output * (length bs - length bs')) ob ob'"
    using assms unfolding r fsim_def by auto
  have "steps_to (c + 50 + bit_fuel * length bs) (n + bit_output * length bs) ob ob'"
    by (rule steps_to_mono [OF y(2)]) (simp_all add: trans_le_add1 diff_mult_distrib2)
  then show ?thesis unfolding r y(1) by (auto simp: simulates_def)
qed

lemma flate_run_sim:
  assumes h: "host_ok h" and ob: "buf_ok ob" "ob_bytes ob = []"
  shows "\<exists>x. simulates h (54 + bit_fuel * (8 * length input)) (bit_output * (8 * length input)) ob
    (flate_run h idx (flate_new input) ob) (and_then (flate_reference idx input) (\<lambda>out. Inr (x, out)))"
proof (cases "zlib_window idx input")
  case (Inl e)
  have "simulates h 2 0 ob (zlib_header h idx (flate_new input) ob) (Inl e)"
    using zlib_header_sim [OF ob(1), of h idx input] Inl by simp
  note err = simulates_mono [OF sim_error [OF this]]
  have "2 \<le> 54 + bit_fuel * (8 * length input)" "0 \<le> bit_output * (8 * length input)" by simp_all
  note err = err [OF this]
  show ?thesis
    unfolding flate_run_def flate_reference_def Inl and_then_simps by (rule exI) (rule err)
next
  case (Inr w)
  let ?f = "(flate_new input)\<lparr>f_cursor := 2, window_limit := w\<rparr>" and ?bs = "bits_of (drop 2 input)"
  let ?k = "\<lambda>p. and_then (decode_blocks h idx (snd (fst p)) (snd p)) (\<lambda>p. zlib_trailer h idx (snd (fst p)) (snd p))"
  have two: "2 \<le> length input" using Inr by (auto simp: zlib_window_def split: list.splits)
  have hd: "simulates h 2 0 ob (zlib_header h idx (flate_new input) ob) (Inr (((), ?f), []))"
    using zlib_header_sim [OF ob(1), of h idx input] Inr ob(2) by simp
  let ?check = "\<lambda>bs out. and_then (get_bytes idx 4 (aligned bs)) (\<lambda>(sum, rest).
       if from_be_bytes (sum ! 0) (sum ! 1) (sum ! 2) (sum ! 3) \<noteq> or (push_bit 16 (snd (adler32 out))) (fst (adler32 out))
       then Inl (invalid_flate idx)
       else if rest \<noteq> [] then Inl (for_code TrailingData (Some idx)) else Inr ((), rest, out))"
  have "fsim h (2 + (1 + 1)) (0 + (0 + 0)) (\<lambda>_ _. True) input w ob ?bs
      (and_then (zlib_header h idx (flate_new input) ob) ?k)
      (and_then (and_then (deflate_blocks idx w ?bs []) (\<lambda>(bs', out). Inr ((), bs', out)))
        (\<lambda>(_, bs', out). ?check bs' out))"
  proof (rule fs_step [OF hd], goal_cases)
    case (1 o1)
    have fin: "flate_in input w o1 ?f ?bs"
      using 1(2) two by (simp add: flate_in_def flate_new_def adler32_def reader_ok_def rem_bits_def)
    show ?case unfolding fst_conv snd_conv 1(2) [symmetric]
    proof (rule fs_bind [OF decode_blocks_fs [OF h fin 1(1)]], goal_cases)
      case (1 x y f2 o2 bs2)
      from zlib_trailer_fs [OF 1(4,5), of h idx] show ?case unfolding fst_conv snd_conv prod.case .
    qed
  qed
  from fsim_simulates [OF this] obtain x where
    "simulates h (2 + (1 + 1) + 50 + bit_fuel * length ?bs) (0 + (0 + 0) + bit_output * length ?bs) ob
      (and_then (zlib_header h idx (flate_new input) ob) ?k)
      (and_then (and_then (and_then (deflate_blocks idx w ?bs []) (\<lambda>(bs', out). Inr ((), bs', out)))
        (\<lambda>(_, bs', out). ?check bs' out)) (\<lambda>(y, bs', out). Inr (x, out)))"
    by blast
  then have "simulates h (54 + bit_fuel * (8 * length input)) (bit_output * (8 * length input)) ob
      (and_then (zlib_header h idx (flate_new input) ob) ?k)
      (and_then (and_then (and_then (deflate_blocks idx w ?bs []) (\<lambda>(bs', out). Inr ((), bs', out)))
        (\<lambda>(_, bs', out). ?check bs' out)) (\<lambda>(y, bs', out). Inr (x, out)))"
    by (rule simulates_mono) simp_all
  then show ?thesis
    unfolding flate_run_def flate_reference_def Inr and_then_simps
    by (intro exI [of _ x]) (simp add: and_then_assoc split_def if_distrib [where f = "\<lambda>r. and_then r _"] cong: if_cong)
qed

lemma flate_sim:
  assumes "host_ok h" "budget_ok b" "incap \<le> max_retained_capacity_bytes (b_limits b)"
  shows "\<exists>x. simulates h (54 + bit_fuel * (8 * length input)) (bit_output * (8 * length input))
    (output_buffer_new incap final (Some idx) (saturating_mul (length input) 4) b)
    (flate_run h idx (flate_new input) (output_buffer_new incap final (Some idx) (saturating_mul (length input) 4) b))
    (and_then (flate_reference idx input) (\<lambda>out. Inr (x, out)))"
  by (rule flate_run_sim [OF assms(1) buf_ok_new [OF assms(2,3)]]) (simp add: output_buffer_new_def)

interpretation flate: filter_layer decode_flate flate_reference
proof (unfold_locales, goal_cases)
  case (1 h b incap input final idx v b')
  obtain x where "simulates h (54 + bit_fuel * (8 * length input)) (bit_output * (8 * length input))
      (output_buffer_new incap final (Some idx) (saturating_mul (length input) 4) b)
      (flate_run h idx (flate_new input) (output_buffer_new incap final (Some idx) (saturating_mul (length input) 4) b))
      (and_then (flate_reference idx input) (\<lambda>out. Inr (x, out)))"
    using flate_sim [OF 1(1,2,3)] by blast
  from layer_of_sim(1) [OF this] show ?case using 1(5) unfolding decode_flate_def by simp
next
  case (2 h b incap input final idx e)
  obtain x where "simulates h (54 + bit_fuel * (8 * length input)) (bit_output * (8 * length input))
      (output_buffer_new incap final (Some idx) (saturating_mul (length input) 4) b)
      (flate_run h idx (flate_new input) (output_buffer_new incap final (Some idx) (saturating_mul (length input) 4) b))
      (and_then (flate_reference idx input) (\<lambda>out. Inr (x, out)))"
    using flate_sim [OF 2(1,2,3)] by blast
  from layer_of_sim(2) [OF this] show ?case using 2(5) unfolding decode_flate_def by simp
qed

end
