(* ===== verification/Bytes_Types.thy ===== *)
theory Bytes_Types
  imports Prelude
begin

text \<open>
  Value types of the byte layer (\<open>pdf-rs/bytes/src/error.rs\<close>, \<open>range.rs\<close>, \<open>identity.rs\<close> and the
  types of \<open>source.rs\<close>): errors with their policy, checked byte ranges, source identities and
  snapshots, requests, responses and slices. Digests are the list of their bytes; offsets are natural
  numbers below the bound of \<open>u64\<close>.
\<close>

section \<open>Errors\<close>

datatype source_limit_kind =
  SourceInputBytes | ReadBytes | CachedBytes | ResidentBytes | Segments | Tickets | TicketSubscribers
| TotalSubscriptions | MissingRanges | SourceAllocation

record source_limit =
  sl_kind :: source_limit_kind
  sl_limit :: nat
  sl_attempted :: nat

datatype source_error_code =
  SInvalidRange | SInvalidLimits | SResponseLengthMismatch | SResponseOutOfBounds | SSourceChanged
| SConflictingBytes | SResourceLimit | SUnknownTicket | STicketAlreadyTerminal | STicketNotTerminal
| SCheckpointConflict | SSubscriptionsNotTaken | SSourceUnavailable | SInternalState

datatype source_error_category = SInput | SIntegrity | SResource | SLifecycle | SAvailability | SInternal

datatype source_recoverability =
  SCorrectInput | SReopenSource | SReduceWorkload | SRetrySource | SDoNotRetry

record source_error =
  se_code :: source_error_code
  se_category :: source_error_category
  se_recoverability :: source_recoverability
  se_diagnostic_id :: string
  se_limit :: "source_limit option"

fun source_error_policy ::
  "source_error_code \<Rightarrow> source_error_category \<times> source_recoverability \<times> string" where
  "source_error_policy SInvalidRange = (SInput, SCorrectInput, ''RPE-BYTES-0001'')"
| "source_error_policy SInvalidLimits = (SInput, SCorrectInput, ''RPE-BYTES-0002'')"
| "source_error_policy SResponseLengthMismatch = (SInput, SCorrectInput, ''RPE-BYTES-0003'')"
| "source_error_policy SResponseOutOfBounds = (SInput, SCorrectInput, ''RPE-BYTES-0004'')"
| "source_error_policy SSourceChanged = (SIntegrity, SReopenSource, ''RPE-BYTES-0005'')"
| "source_error_policy SConflictingBytes = (SIntegrity, SReopenSource, ''RPE-BYTES-0006'')"
| "source_error_policy SResourceLimit = (SResource, SReduceWorkload, ''RPE-BYTES-0007'')"
| "source_error_policy SUnknownTicket = (SInput, SCorrectInput, ''RPE-BYTES-0008'')"
| "source_error_policy STicketAlreadyTerminal = (SLifecycle, SCorrectInput, ''RPE-BYTES-0009'')"
| "source_error_policy STicketNotTerminal = (SLifecycle, SCorrectInput, ''RPE-BYTES-0010'')"
| "source_error_policy SCheckpointConflict = (SLifecycle, SCorrectInput, ''RPE-BYTES-0011'')"
| "source_error_policy SSubscriptionsNotTaken = (SLifecycle, SCorrectInput, ''RPE-BYTES-0012'')"
| "source_error_policy SSourceUnavailable = (SAvailability, SRetrySource, ''RPE-BYTES-0013'')"
| "source_error_policy SInternalState = (SInternal, SDoNotRetry, ''RPE-BYTES-0014'')"

definition source_error_for_code :: "source_error_code \<Rightarrow> source_error" where
  "source_error_for_code code =
     (let (category, recoverability, diagnostic_id) = source_error_policy code in
      \<lparr>se_code = code, se_category = category, se_recoverability = recoverability,
       se_diagnostic_id = diagnostic_id, se_limit = None\<rparr>)"

definition source_error_resource :: "source_limit_kind \<Rightarrow> nat \<Rightarrow> nat \<Rightarrow> source_error" where
  "source_error_resource kind limit attempted =
     \<lparr>se_code = SResourceLimit, se_category = SResource, se_recoverability = SReduceWorkload,
      se_diagnostic_id = ''RPE-BYTES-0007'',
      se_limit = Some \<lparr>sl_kind = kind, sl_limit = limit, sl_attempted = attempted\<rparr>\<rparr>"

definition source_unavailable :: source_error where
  "source_unavailable = source_error_for_code SSourceUnavailable"

lemma source_error_code_simps [simp]:
  "se_code (source_error_for_code c) = c"
  "se_code (source_error_resource k l a) = SResourceLimit"
  by (simp_all add: source_error_for_code_def source_error_resource_def split_def Let_def)

lemma source_error_inject [simp]: "source_error_for_code c = source_error_for_code d \<longleftrightarrow> c = d"
  by (metis source_error_code_simps(1))

lemma source_error_category [simp]:
  "se_category (source_error_for_code c) = fst (source_error_policy c)"
  by (simp add: source_error_for_code_def split_def Let_def)

section \<open>Ranges\<close>

record byte_range =
  range_start :: nat
  range_len :: nat

definition byte_range_new :: "nat \<Rightarrow> nat \<Rightarrow> source_error + byte_range" where
  "byte_range_new start len =
     (if len = 0 \<or> checked_add start len = None then Inl (source_error_for_code SInvalidRange)
      else Inr \<lparr>range_start = start, range_len = len\<rparr>)"

definition range_end :: "byte_range \<Rightarrow> nat" where
  "range_end r = range_start r + range_len r"

definition range_ok :: "byte_range \<Rightarrow> bool" where
  "range_ok r \<longleftrightarrow> 0 < range_len r \<and> range_end r \<le> u64_max"

definition range_bytes :: "byte_range \<Rightarrow> nat set" where
  "range_bytes r = {range_start r..<range_end r}"

lemma byte_range_new_Inr:
  "byte_range_new s l = Inr r \<longleftrightarrow> r = \<lparr>range_start = s, range_len = l\<rparr> \<and> range_ok r"
  by (auto simp: byte_range_new_def range_ok_def range_end_def checked_add_def)

text \<open>\<open>SmallRanges\<close>: the loop over the candidate ranges, with the end of the previous one.\<close>

type_synonym small_ranges = "byte_range list"

fun canonical_ranges_loop :: "nat \<Rightarrow> nat option \<Rightarrow> byte_range list \<Rightarrow> source_error + unit" where
  "canonical_ranges_loop total_bytes previous_end [] = Inr ()"
| "canonical_ranges_loop total_bytes previous_end (r # rs) =
     (if (case previous_end of None \<Rightarrow> False | Some e \<Rightarrow> e \<ge> range_start r)
      then Inl (source_error_for_code SInternalState)
      else and_then (ok_or (checked_add total_bytes (range_len r)) (source_error_for_code SResourceLimit))
             (\<lambda>total_bytes. canonical_ranges_loop total_bytes (Some (range_end r)) rs))"

definition try_from_canonical :: "byte_range list \<Rightarrow> nat \<Rightarrow> source_error + small_ranges" where
  "try_from_canonical ranges max_ranges =
     (if ranges = [] then Inl (source_error_for_code SInternalState)
      else if length ranges > max_ranges then Inl (source_error_for_code SResourceLimit)
      else and_then (canonical_ranges_loop 0 None ranges) (\<lambda>_. Inr ranges))"

text \<open>Sorted ranges with a gap between neighbours.\<close>

fun ranges_apart :: "byte_range list \<Rightarrow> bool" where
  "ranges_apart [] = True"
| "ranges_apart [r] = True"
| "ranges_apart (r # s # rs) \<longleftrightarrow> range_end r < range_start s \<and> ranges_apart (s # rs)"

section \<open>Identities and snapshots\<close>

record source_identity =
  stable_id :: "u8 list"
  source_revision :: nat

datatype source_validator_kind = StrongEntityTag | FrozenResponse | HostVersion

record source_validator =
  sv_kind :: source_validator_kind
  sv_digest :: "u8 list"

record source_snapshot =
  snapshot_identity :: source_identity
  snapshot_len :: "nat option"
  snapshot_validator :: source_validator

section \<open>Requests, slices and responses\<close>

record resume_subscription =
  sub_job :: nat
  sub_checkpoint :: nat

record data_ticket =
  ticket_namespace :: nat
  ticket_value :: nat

datatype request_priority = VisiblePage | FirstViewportResource | AdjacentPage | Metadata | BackgroundPrefetch

fun request_priority_rank :: "request_priority \<Rightarrow> nat" where
  "request_priority_rank VisiblePage = 5"
| "request_priority_rank FirstViewportResource = 4"
| "request_priority_rank AdjacentPage = 3"
| "request_priority_rank Metadata = 2"
| "request_priority_rank BackgroundPrefetch = 1"

record read_request =
  rq_range :: byte_range
  rq_priority :: request_priority
  rq_job :: nat
  rq_checkpoint :: nat

record byte_slice =
  bs_identity :: source_identity
  bs_range :: byte_range
  bs_backing :: "u8 list"
  bs_backing_offset :: nat

definition byte_slice_new ::
  "source_identity \<Rightarrow> byte_range \<Rightarrow> u8 list \<Rightarrow> nat \<Rightarrow> source_error + byte_slice" where
  "byte_slice_new identity rng backing backing_offset =
     and_then (ok_or (checked_add backing_offset (range_len rng)) (source_error_for_code SResponseLengthMismatch))
       (\<lambda>backing_end.
         if backing_end > length backing then Inl (source_error_for_code SResponseLengthMismatch)
         else Inr \<lparr>bs_identity = identity, bs_range = rng, bs_backing = backing,
                   bs_backing_offset = backing_offset\<rparr>)"

definition byte_slice_bytes :: "byte_slice \<Rightarrow> u8 list" where
  "byte_slice_bytes s = take (range_len (bs_range s)) (drop (bs_backing_offset s) (bs_backing s))"

lemma byte_slice_new_bytes:
  "byte_slice_new i r b off = Inr s \<Longrightarrow>
     bs_identity s = i \<and> bs_range s = r \<and> byte_slice_bytes s = take (range_len r) (drop off b) \<and>
     length (byte_slice_bytes s) = range_len r"
  by (auto simp: byte_slice_new_def byte_slice_bytes_def and_then_Inr_iff ok_or_Inr_iff
      dest!: checked_add_SomeD split: if_splits)

text \<open>A response owns a vector: its bytes and the capacity that the allocator reports for it.\<close>

record range_response =
  rr_snapshot :: source_snapshot
  rr_range :: byte_range
  rr_bytes :: "u8 list"
  rr_capacity :: nat

definition range_response_new ::
  "source_snapshot \<Rightarrow> byte_range \<Rightarrow> u8 list \<Rightarrow> nat \<Rightarrow> source_error + range_response" where
  "range_response_new snapshot rng bytes capacity =
     (if length bytes \<noteq> range_len rng then Inl (source_error_for_code SResponseLengthMismatch)
      else if (case snapshot_len snapshot of None \<Rightarrow> False | Some n \<Rightarrow> range_end rng > n)
      then Inl (source_error_for_code SResponseOutOfBounds)
      else Inr \<lparr>rr_snapshot = snapshot, rr_range = rng, rr_bytes = bytes, rr_capacity = capacity\<rparr>)"

datatype read_poll =
  PollReady byte_slice
| PollPending data_ticket small_ranges
| PollEndOfFile
| PollFailed source_error

end
