(* ===== verification/Syn_Types.thy ===== *)
theory Syn_Types
  imports Bytes_Types
begin

text \<open>
  Value types of PDF syntax (\<open>pdf-rs/syntax/src/model.rs\<close>): spans, source-bound values, references,
  and the direct objects. The bytes of a name are a \<open>string\<close>, one \<open>char\<close> per byte.
\<close>

record byte_span =
  span_start :: nat
  span_len :: nat

definition span_end :: "byte_span \<Rightarrow> nat" where
  "span_end s = span_start s + span_len s"

text \<open>\<open>Located\<close>: a value with its source and span.\<close>

datatype 'a located = Located (located_source: source_identity) (located_span: byte_span) (located_value: 'a)

record object_ref =
  ref_number :: nat
  ref_generation :: nat

datatype real_notation = DecimalNotation | ExponentNotation

record pdf_real =
  real_raw :: "u8 list"
  real_notation :: real_notation

datatype string_kind = LiteralString | HexadecimalString

record pdf_string =
  string_bytes :: "u8 list"
  string_kind :: string_kind

type_synonym pdf_name = string

datatype syntax_object =
  SynNull
| SynBoolean bool
| SynInteger int
| SynReal pdf_real
| SynName pdf_name
| SynString pdf_string
| SynArray "syntax_object located list"
| SynDictionary "(pdf_name located \<times> syntax_object located) list"
| SynReference object_ref

type_synonym dictionary_entry = "pdf_name located \<times> syntax_object located"
type_synonym pdf_dictionary = "dictionary_entry list"

definition dict_entry_key :: "dictionary_entry \<Rightarrow> pdf_name" where
  "dict_entry_key e = located_value (fst e)"

definition dict_entry_value :: "dictionary_entry \<Rightarrow> syntax_object" where
  "dict_entry_value e = located_value (snd e)"

definition dictionary_get :: "pdf_dictionary \<Rightarrow> pdf_name \<Rightarrow> syntax_object located option" where
  "dictionary_get d key = map_option snd (find (\<lambda>e. dict_entry_key e = key) (rev d))"

end
