(* ===== verification/Filt_Plan.thy ===== *)
theory Filt_Plan
  imports Filt_Budget Syn_Types
begin

text \<open>
  Filter plans (\<open>FilterPlan\<close> and the metadata functions of \<open>pdf-rs/filters/src/model.rs\<close>): how the
  direct \<open>/Filter\<close> and \<open>/DecodeParms\<close> entries of a stream dictionary become an ordered list of
  validated stages, and what a plan retains on the heap.

  Every cancellation probe takes the next number \<open>k\<close>, which the functions pass on. The sizes of
  the two element types are not fixed by the language, so they are an argument (\<open>layout\<close>).
\<close>

section \<open>Plans and their heap\<close>

record layout =
  filter_width :: nat
  stage_width :: nat

record filter_plan =
  plan_filters :: "stream_filter list"
  plan_stages :: "filter_stage list"
  plan_filters_capacity :: nat
  plan_stages_capacity :: nat

definition try_reserve_exact :: "host \<Rightarrow> nat \<Rightarrow> nat \<Rightarrow> nat option" where
  "try_reserve_exact h call n = (if n = 0 then Some 0 else reserve h call n)"

definition allocate :: "host \<Rightarrow> nat \<Rightarrow> nat \<Rightarrow> decode_error + filter_plan" where
  "allocate h count allocation_limit =
     and_then (ok_or (try_reserve_exact h 0 count) (resource_error Allocation allocation_limit 0 count None)) (\<lambda>fc.
     and_then (ok_or (try_reserve_exact h 1 count) (resource_error Allocation allocation_limit 0 count None)) (\<lambda>sc.
       Inr \<lparr>plan_filters = [], plan_stages = [], plan_filters_capacity = fc, plan_stages_capacity = sc\<rparr>))"

definition retained_vec_bytes :: "nat \<Rightarrow> nat \<Rightarrow> decode_error + nat" where
  "retained_vec_bytes width capacity = ok_or (checked_mul capacity width) (for_code InternalState None)"

definition retained_heap_bytes :: "layout \<Rightarrow> filter_plan \<Rightarrow> decode_error + nat" where
  "retained_heap_bytes w plan =
     and_then (retained_vec_bytes (filter_width w) (plan_filters_capacity plan)) (\<lambda>a.
     and_then (retained_vec_bytes (stage_width w) (plan_stages_capacity plan)) (\<lambda>b.
       ok_or (checked_add a b) (for_code InternalState None)))"

definition retained_heap_upper_bound :: "layout \<Rightarrow> nat \<Rightarrow> decode_error + nat" where
  "retained_heap_upper_bound w filters_limit =
     (if filters_limit = 0 \<or> filters_limit > hard_max_filters then Inl (for_code InvalidLimits None)
      else ok_or (Option.bind (checked_mul filters_limit (filter_width w)) (\<lambda>fs.
                  Option.bind (checked_mul filters_limit (stage_width w)) (\<lambda>ss. checked_add fs ss)))
             (for_code InternalState None))"

definition validate_retained_heap_limit :: "layout \<Rightarrow> filter_plan \<Rightarrow> nat \<Rightarrow> decode_error + nat" where
  "validate_retained_heap_limit w plan filters_limit =
     and_then (retained_heap_upper_bound w filters_limit) (\<lambda>limit.
     and_then (retained_heap_bytes w plan) (\<lambda>attempted.
       if attempted > limit then Inl (resource_error FilterPlanBytes limit 0 attempted None)
       else Inr attempted))"

definition validate_hard_filter_count :: "nat \<Rightarrow> decode_error + unit" where
  "validate_hard_filter_count count =
     (if count > hard_max_filters then Inl (resource_error FilterCount hard_max_filters 0 count None) else Inr ())"

definition push_stage :: "filter_stage \<Rightarrow> filter_plan \<Rightarrow> filter_plan" where
  "push_stage stage plan =
     plan\<lparr>plan_filters := plan_filters plan @ [stage_filter stage], plan_stages := plan_stages plan @ [stage]\<rparr>"

definition plan_len :: "filter_plan \<Rightarrow> nat" where
  "plan_len plan = length (plan_filters plan)"

section \<open>Constructors from canonical values\<close>

definition plan_new :: "host \<Rightarrow> layout \<Rightarrow> stream_filter list \<Rightarrow> decode_error + filter_plan" where
  "plan_new h w filters =
     and_then (validate_hard_filter_count (length filters)) (\<lambda>_.
     and_then (allocate h (length filters) hard_max_filters) (\<lambda>plan.
       let plan = foldl (\<lambda>plan flt. push_stage (without_parameters flt) plan) plan filters in
       and_then (validate_retained_heap_limit w plan hard_max_filters) (\<lambda>_. Inr plan)))"

fun push_valid_stages :: "nat \<Rightarrow> filter_stage list \<Rightarrow> filter_plan \<Rightarrow> decode_error + filter_plan" where
  "push_valid_stages index [] plan = Inr plan"
| "push_valid_stages index (stage # stages) plan =
     and_then (stage_validate stage (Some index)) (\<lambda>_.
       push_valid_stages (Suc index) stages (push_stage stage plan))"

definition from_stages :: "host \<Rightarrow> layout \<Rightarrow> filter_stage list \<Rightarrow> decode_error + filter_plan" where
  "from_stages h w stages =
     and_then (validate_hard_filter_count (length stages)) (\<lambda>_.
     and_then (allocate h (length stages) hard_max_filters) (\<lambda>plan.
     and_then (push_valid_stages 0 stages plan) (\<lambda>plan.
     and_then (validate_retained_heap_limit w plan hard_max_filters) (\<lambda>_. Inr plan))))"

fun push_named_filters :: "nat \<Rightarrow> pdf_name list \<Rightarrow> filter_plan \<Rightarrow> decode_error + filter_plan" where
  "push_named_filters index [] plan = Inr plan"
| "push_named_filters index (name # names) plan =
     and_then (canonical_pdf_filter name index) (\<lambda>flt.
       push_named_filters (Suc index) names (push_stage (without_parameters flt) plan))"

definition from_pdf_names :: "host \<Rightarrow> layout \<Rightarrow> pdf_name list \<Rightarrow> decode_error + filter_plan" where
  "from_pdf_names h w names =
     and_then (validate_hard_filter_count (length names)) (\<lambda>_.
     and_then (allocate h (length names) hard_max_filters) (\<lambda>plan.
     and_then (push_named_filters 0 names plan) (\<lambda>plan.
     and_then (validate_retained_heap_limit w plan hard_max_filters) (\<lambda>_. Inr plan))))"

section \<open>Stream dictionaries\<close>

definition check_metadata_cancelled :: "host \<Rightarrow> nat \<Rightarrow> decode_error + nat" where
  "check_metadata_cancelled h k = (if is_cancelled h k then Inl (for_code CancelledCode None) else Inr (Suc k))"

fun unique_metadata_value ::
  "host \<Rightarrow> pdf_name \<Rightarrow> syntax_object option \<Rightarrow> dictionary_entry list \<Rightarrow> nat
     \<Rightarrow> decode_error + (syntax_object option \<times> nat)" where
  "unique_metadata_value h key found [] k = Inr (found, k)"
| "unique_metadata_value h key found (entry # entries) k =
     and_then (check_metadata_cancelled h k) (\<lambda>k.
       if dict_entry_key entry = key
       then if found \<noteq> None then Inl (for_code InvalidDecodeParameters None)
            else unique_metadata_value h key (Some (dict_entry_value entry)) entries k
       else unique_metadata_value h key found entries k)"

definition canonical_filter_shape ::
  "host \<Rightarrow> syntax_object \<Rightarrow> nat \<Rightarrow> nat \<Rightarrow> decode_error + ((nat \<times> bool) \<times> nat)" where
  "canonical_filter_shape h v filters_limit k =
     and_then (check_metadata_cancelled h k) (\<lambda>k.
     and_then (case v of
                 SynName _ \<Rightarrow> Inr (1, False)
               | SynArray values \<Rightarrow>
                   if values \<noteq> [] then Inr (length values, True) else Inl (for_code InvalidDecodeParameters None)
               | _ \<Rightarrow> Inl (for_code InvalidDecodeParameters None)) (\<lambda>(count, array_filter).
       if count > filters_limit then Inl (resource_error FilterCount filters_limit 0 count None)
       else Inr ((count, array_filter), k)))"

record parameter_slots =
  slot_predictor :: "int option"
  slot_colors :: "int option"
  slot_bits_per_component :: "int option"
  slot_columns :: "int option"

text \<open>One entry of a parameter dictionary: the slot its key names, which must be free.\<close>

definition fill_slot ::
  "nat \<Rightarrow> dictionary_entry \<Rightarrow> parameter_slots \<Rightarrow> decode_error + parameter_slots" where
  "fill_slot idx entry slots =
     (let err = Inl (for_code InvalidDecodeParameters (Some idx));
          put = (\<lambda>slot update. if slot \<noteq> None then err
                   else case dict_entry_value entry of SynInteger v \<Rightarrow> Inr (update (Some v)) | _ \<Rightarrow> err)
      in if dict_entry_key entry = ''Predictor''
         then put (slot_predictor slots) (\<lambda>v. slots\<lparr>slot_predictor := v\<rparr>)
         else if dict_entry_key entry = ''Colors''
         then put (slot_colors slots) (\<lambda>v. slots\<lparr>slot_colors := v\<rparr>)
         else if dict_entry_key entry = ''BitsPerComponent''
         then put (slot_bits_per_component slots) (\<lambda>v. slots\<lparr>slot_bits_per_component := v\<rparr>)
         else if dict_entry_key entry = ''Columns''
         then put (slot_columns slots) (\<lambda>v. slots\<lparr>slot_columns := v\<rparr>)
         else err)"

fun fill_slots ::
  "host \<Rightarrow> nat \<Rightarrow> dictionary_entry list \<Rightarrow> parameter_slots \<Rightarrow> nat \<Rightarrow> decode_error + (parameter_slots \<times> nat)" where
  "fill_slots h idx [] slots k = Inr (slots, k)"
| "fill_slots h idx (entry # entries) slots k =
     and_then (check_metadata_cancelled h k) (\<lambda>k.
     and_then (fill_slot idx entry slots) (\<lambda>slots. fill_slots h idx entries slots k))"

definition unwrap_or :: "int option \<Rightarrow> int \<Rightarrow> int" where
  "unwrap_or v d = (case v of None \<Rightarrow> d | Some x \<Rightarrow> x)"

definition slots_stage :: "stream_filter \<Rightarrow> nat \<Rightarrow> parameter_slots \<Rightarrow> decode_error + filter_stage" where
  "slots_stage flt idx slots =
     (case predictor_parameters_new (unwrap_or (slot_predictor slots) 1) (unwrap_or (slot_colors slots) 1)
             (unwrap_or (slot_bits_per_component slots) 8) (unwrap_or (slot_columns slots) 1) of
        Inl e \<Rightarrow> Inl (for_code (err_code e) (Some idx))
      | Inr parameters \<Rightarrow> Inr \<lparr>stage_filter = flt, stage_parameters = Predictor parameters\<rparr>)"

definition canonical_parameter_stage ::
  "host \<Rightarrow> stream_filter \<Rightarrow> pdf_dictionary \<Rightarrow> nat \<Rightarrow> nat \<Rightarrow> decode_error + (filter_stage \<times> nat)" where
  "canonical_parameter_stage h flt dictionary idx k =
     and_then (check_metadata_cancelled h k) (\<lambda>k.
       if dictionary = [] then Inr (without_parameters flt, k)
       else if flt \<noteq> FlateDecode then Inl (for_code UnsupportedDecodeParameters (Some idx))
       else and_then (fill_slots h idx dictionary
                \<lparr>slot_predictor = None, slot_colors = None, slot_bits_per_component = None, slot_columns = None\<rparr> k)
              (\<lambda>(slots, k). and_then (slots_stage flt idx slots) (\<lambda>stage. Inr (stage, k))))"

record plan_metadata =
  md_filter :: "syntax_object option"
  md_decode_parameters :: "syntax_object option"
  md_filter_count :: nat
  md_array_filter :: bool

definition preflight_metadata ::
  "host \<Rightarrow> pdf_dictionary \<Rightarrow> decode_limits \<Rightarrow> nat \<Rightarrow> decode_error + (plan_metadata \<times> nat)" where
  "preflight_metadata h dictionary limits k =
     and_then (check_metadata_cancelled h k) (\<lambda>k.
     and_then (unique_metadata_value h ''Filter'' None dictionary k) (\<lambda>(flt, k).
     and_then (unique_metadata_value h ''DecodeParms'' None dictionary k) (\<lambda>(decode_parameters, k).
       case flt of
         None \<Rightarrow>
           if decode_parameters \<noteq> None then Inl (for_code InvalidDecodeParameters None)
           else and_then (check_metadata_cancelled h k) (\<lambda>k.
                  Inr (\<lparr>md_filter = None, md_decode_parameters = None, md_filter_count = 0,
                        md_array_filter = False\<rparr>, k))
       | Some v \<Rightarrow>
           and_then (canonical_filter_shape h v (max_filters limits) k) (\<lambda>((count, array_filter), k).
             Inr (\<lparr>md_filter = Some v, md_decode_parameters = decode_parameters, md_filter_count = count,
                   md_array_filter = array_filter\<rparr>, k)))))"

text \<open>The code panics here; the metadata has been checked before.\<close>

definition unreachable :: "'a" where
  "unreachable = undefined"

fun validate_filter_names :: "host \<Rightarrow> nat \<Rightarrow> syntax_object located list \<Rightarrow> nat \<Rightarrow> decode_error + nat" where
  "validate_filter_names h index [] k = Inr k"
| "validate_filter_names h index (v # vs) k =
     and_then (check_metadata_cancelled h k) (\<lambda>k.
       case located_value v of
         SynName name \<Rightarrow> and_then (canonical_pdf_filter name index) (\<lambda>_. validate_filter_names h (Suc index) vs k)
       | _ \<Rightarrow> Inl (for_code InvalidDecodeParameters (Some index)))"

fun validate_stage_parameters ::
  "host \<Rightarrow> nat \<Rightarrow> (syntax_object located \<times> syntax_object located) list \<Rightarrow> nat \<Rightarrow> decode_error + nat" where
  "validate_stage_parameters h index [] k = Inr k"
| "validate_stage_parameters h index ((f, v) # rest) k =
     and_then (check_metadata_cancelled h k) (\<lambda>k.
       case located_value f of
         SynName name \<Rightarrow>
           and_then (canonical_pdf_filter name index) (\<lambda>flt.
             case located_value v of
               SynNull \<Rightarrow> validate_stage_parameters h (Suc index) rest k
             | SynDictionary parameters \<Rightarrow>
                 and_then (canonical_parameter_stage h flt parameters index k) (\<lambda>(_, k).
                   validate_stage_parameters h (Suc index) rest k)
             | _ \<Rightarrow> Inl (for_code InvalidDecodeParameters (Some index)))
       | _ \<Rightarrow> unreachable)"

definition validate_metadata :: "host \<Rightarrow> plan_metadata \<Rightarrow> nat \<Rightarrow> decode_error + nat" where
  "validate_metadata h md k =
     (case md_filter md of
        None \<Rightarrow> check_metadata_cancelled h k
      | Some flt \<Rightarrow>
          and_then (case flt of
                      SynName name \<Rightarrow> and_then (canonical_pdf_filter name 0) (\<lambda>_. Inr k)
                    | SynArray values \<Rightarrow> validate_filter_names h 0 values k
                    | _ \<Rightarrow> unreachable) (\<lambda>k.
          and_then (case (md_array_filter md, md_decode_parameters md) of
                      (_, None) \<Rightarrow> Inr k
                    | (_, Some SynNull) \<Rightarrow> Inr k
                    | (False, Some (SynDictionary parameters)) \<Rightarrow>
                        (case flt of
                           SynName name \<Rightarrow>
                             and_then (canonical_pdf_filter name 0) (\<lambda>f.
                             and_then (canonical_parameter_stage h f parameters 0 k) (\<lambda>(_, k). Inr k))
                         | _ \<Rightarrow> unreachable)
                    | (True, Some (SynArray parameters)) \<Rightarrow>
                        if length parameters = md_filter_count md
                        then case flt of
                               SynArray filters \<Rightarrow> validate_stage_parameters h 0 (zip filters parameters) k
                             | _ \<Rightarrow> unreachable
                        else Inl (for_code InvalidDecodeParameters None)
                    | _ \<Rightarrow> Inl (for_code InvalidDecodeParameters None))
            (check_metadata_cancelled h)))"

definition preflight_pdf_dictionary ::
  "host \<Rightarrow> pdf_dictionary \<Rightarrow> decode_limits \<Rightarrow> nat \<Rightarrow> decode_error + nat" where
  "preflight_pdf_dictionary h dictionary limits k =
     and_then (preflight_metadata h dictionary limits k) (\<lambda>(md, k).
     and_then (validate_metadata h md k) (\<lambda>k.
       if md_filter_count md < 65536 then Inr (md_filter_count md) else Inl (for_code InternalState None)))"

fun push_filter_names ::
  "host \<Rightarrow> nat \<Rightarrow> syntax_object located list \<Rightarrow> filter_plan \<Rightarrow> nat \<Rightarrow> decode_error + (filter_plan \<times> nat)" where
  "push_filter_names h index [] plan k = Inr (plan, k)"
| "push_filter_names h index (v # vs) plan k =
     and_then (check_metadata_cancelled h k) (\<lambda>k.
       case located_value v of
         SynName name \<Rightarrow>
           and_then (canonical_pdf_filter name index) (\<lambda>flt.
             push_filter_names h (Suc index) vs (push_stage (without_parameters flt) plan) k)
       | _ \<Rightarrow> Inl (for_code InvalidDecodeParameters (Some index)))"

definition set_stage :: "nat \<Rightarrow> filter_stage \<Rightarrow> filter_plan \<Rightarrow> filter_plan" where
  "set_stage index stage plan = plan\<lparr>plan_stages := (plan_stages plan)[index := stage]\<rparr>"

fun set_stage_parameters ::
  "host \<Rightarrow> nat \<Rightarrow> syntax_object located list \<Rightarrow> filter_plan \<Rightarrow> nat \<Rightarrow> decode_error + (filter_plan \<times> nat)" where
  "set_stage_parameters h index [] plan k = Inr (plan, k)"
| "set_stage_parameters h index (v # vs) plan k =
     and_then (check_metadata_cancelled h k) (\<lambda>k.
       case located_value v of
         SynNull \<Rightarrow>
           set_stage_parameters h (Suc index) vs
             (set_stage index (without_parameters (plan_filters plan ! index)) plan) k
       | SynDictionary parameters \<Rightarrow>
           and_then (canonical_parameter_stage h (plan_filters plan ! index) parameters index k) (\<lambda>(stage, k).
             set_stage_parameters h (Suc index) vs (set_stage index stage plan) k)
       | _ \<Rightarrow> Inl (for_code InvalidDecodeParameters (Some index)))"

definition from_pdf_dictionary ::
  "host \<Rightarrow> layout \<Rightarrow> pdf_dictionary \<Rightarrow> decode_limits \<Rightarrow> nat \<Rightarrow> decode_error + filter_plan" where
  "from_pdf_dictionary h w dictionary limits k =
     and_then (preflight_metadata h dictionary limits k) (\<lambda>(md, k).
     and_then (validate_metadata h md k) (\<lambda>k.
       case md_filter md of
         None \<Rightarrow>
           and_then (plan_new h w []) (\<lambda>plan.
           and_then (check_metadata_cancelled h k) (\<lambda>_.
           and_then (validate_retained_heap_limit w plan (max_filters limits)) (\<lambda>_. Inr plan)))
       | Some flt \<Rightarrow>
           and_then (allocate h (md_filter_count md) (max_filters limits)) (\<lambda>plan.
           and_then (case flt of
                       SynName name \<Rightarrow>
                         and_then (canonical_pdf_filter name 0) (\<lambda>f. Inr (push_stage (without_parameters f) plan, k))
                     | SynArray values \<Rightarrow> push_filter_names h 0 values plan k
                     | _ \<Rightarrow> unreachable) (\<lambda>(plan, k).
           and_then (case (md_array_filter md, md_decode_parameters md) of
                       (_, None) \<Rightarrow> Inr (plan, k)
                     | (_, Some SynNull) \<Rightarrow> Inr (plan, k)
                     | (False, Some (SynDictionary parameters)) \<Rightarrow>
                         and_then (canonical_parameter_stage h (plan_filters plan ! 0) parameters 0 k) (\<lambda>(stage, k).
                           Inr (set_stage 0 stage plan, k))
                     | (True, Some (SynArray parameters)) \<Rightarrow>
                         if length parameters = plan_len plan then set_stage_parameters h 0 parameters plan k
                         else Inl (for_code InvalidDecodeParameters None)
                     | _ \<Rightarrow> Inl (for_code InvalidDecodeParameters None)) (\<lambda>(plan, k).
           and_then (check_metadata_cancelled h k) (\<lambda>_.
           and_then (validate_retained_heap_limit w plan (max_filters limits)) (\<lambda>_. Inr plan)))))))"

end
