(* ===== verification/Filt_PlanSpec.thy ===== *)
theory Filt_PlanSpec
  imports Filt_Plan
begin

text \<open>
  What a stream dictionary declares: the pure reading of its filter metadata, and that the preflight
  and the construction of a plan (\<open>pdf-rs/filters/src/model.rs\<close>) both follow it, so that they agree
  with each other and differ from it only when the host cancels or refuses memory.
\<close>

section \<open>Computations with cancellation probes\<close>

definition probed :: "host \<Rightarrow> decode_error + ('a \<times> nat) \<Rightarrow> decode_error + 'a \<Rightarrow> bool" where
  "probed h r p \<longleftrightarrow>
     (case r of
        Inl e \<Rightarrow> p = Inl e \<or> e = for_code CancelledCode None \<and> (\<exists>k. is_cancelled h k)
      | Inr (x, k) \<Rightarrow> p = Inr x)"

lemma probed_return [simp]: "probed h (Inr (x, k)) (Inr x)"
  by (simp add: probed_def)

lemma probed_fail [simp]: "probed h (Inl e) (Inl e)"
  by (simp add: probed_def)

lemma probed_check: "(\<And>k. probed h (f k) p) \<Longrightarrow> probed h (and_then (check_metadata_cancelled h k) f) p"
  by (auto simp: check_metadata_cancelled_def probed_def)

lemma probed_bind:
  assumes r: "probed h r p" and f: "\<And>x k. p = Inr x \<Longrightarrow> probed h (f (x, k)) (q x)"
  shows "probed h (and_then r f) (and_then p q)"
proof (cases r)
  case (Inl e)
  then show ?thesis using r by (auto simp: probed_def)
next
  case (Inr xk)
  obtain x k where xk: "xk = (x, k)" by (cases xk)
  then have p: "p = Inr x" using r Inr by (simp add: probed_def)
  show ?thesis unfolding Inr xk p and_then_simps by (rule f [OF p])
qed

lemma probed_pure: "(\<And>x. p = Inr x \<Longrightarrow> probed h (f x) (q x)) \<Longrightarrow> probed h (and_then p f) (and_then p q)"
  by (cases p) auto

lemma probed_cases:
  assumes "probed h r p"
  obtains e where "r = Inl e" "p = Inl e"
  | "r = Inl (for_code CancelledCode None)" "\<exists>k. is_cancelled h k"
  | x k where "r = Inr (x, k)" "p = Inr x"
  using assms by (cases r) (auto simp: probed_def)

section \<open>What a dictionary declares\<close>

definition unique_value :: "pdf_name \<Rightarrow> pdf_dictionary \<Rightarrow> decode_error + syntax_object option" where
  "unique_value key d =
     (case filter (\<lambda>e. dict_entry_key e = key) d of
        [] \<Rightarrow> Inr None
      | [e] \<Rightarrow> Inr (Some (dict_entry_value e))
      | _ \<Rightarrow> Inl (for_code InvalidDecodeParameters None))"

definition name_filter :: "nat \<Rightarrow> syntax_object located \<Rightarrow> decode_error + stream_filter" where
  "name_filter index v =
     (case located_value v of
        SynName name \<Rightarrow> canonical_pdf_filter name index
      | _ \<Rightarrow> Inl (for_code InvalidDecodeParameters (Some index)))"

fun declared_filters :: "nat \<Rightarrow> syntax_object located list \<Rightarrow> decode_error + stream_filter list" where
  "declared_filters index [] = Inr []"
| "declared_filters index (v # vs) =
     and_then (name_filter index v) (\<lambda>f. and_then (declared_filters (Suc index) vs) (\<lambda>fs. Inr (f # fs)))"

fun declared_slots :: "nat \<Rightarrow> pdf_dictionary \<Rightarrow> parameter_slots \<Rightarrow> decode_error + parameter_slots" where
  "declared_slots index [] slots = Inr slots"
| "declared_slots index (e # es) slots = and_then (fill_slot index e slots) (declared_slots index es)"

definition no_slots :: parameter_slots where
  "no_slots = \<lparr>slot_predictor = None, slot_colors = None, slot_bits_per_component = None, slot_columns = None\<rparr>"

definition declared_stage :: "stream_filter \<Rightarrow> pdf_dictionary \<Rightarrow> nat \<Rightarrow> decode_error + filter_stage" where
  "declared_stage flt d index =
     (if d = [] then Inr (without_parameters flt)
      else if flt \<noteq> FlateDecode then Inl (for_code UnsupportedDecodeParameters (Some index))
      else and_then (declared_slots index d no_slots) (slots_stage flt index))"

definition parameter_stage :: "stream_filter \<Rightarrow> syntax_object located \<Rightarrow> nat \<Rightarrow> decode_error + filter_stage" where
  "parameter_stage flt v index =
     (case located_value v of
        SynNull \<Rightarrow> Inr (without_parameters flt)
      | SynDictionary d \<Rightarrow> declared_stage flt d index
      | _ \<Rightarrow> Inl (for_code InvalidDecodeParameters (Some index)))"

fun declared_stages :: "nat \<Rightarrow> stream_filter list \<Rightarrow> syntax_object located list \<Rightarrow> decode_error + filter_stage list" where
  "declared_stages index (f # fs) (v # vs) =
     and_then (parameter_stage f v index) (\<lambda>s. and_then (declared_stages (Suc index) fs vs) (\<lambda>ss. Inr (s # ss)))"
| "declared_stages index _ _ = Inr []"

definition single_stage :: "stream_filter \<Rightarrow> syntax_object option \<Rightarrow> decode_error + filter_stage list" where
  "single_stage flt p =
     (case p of
        None \<Rightarrow> Inr [without_parameters flt]
      | Some SynNull \<Rightarrow> Inr [without_parameters flt]
      | Some (SynDictionary d) \<Rightarrow> and_then (declared_stage flt d 0) (\<lambda>s. Inr [s])
      | _ \<Rightarrow> Inl (for_code InvalidDecodeParameters None))"

definition array_stages :: "stream_filter list \<Rightarrow> syntax_object option \<Rightarrow> decode_error + filter_stage list" where
  "array_stages fs p =
     (case p of
        None \<Rightarrow> Inr (map without_parameters fs)
      | Some SynNull \<Rightarrow> Inr (map without_parameters fs)
      | Some (SynArray ps) \<Rightarrow>
          if length ps = length fs then declared_stages 0 fs ps else Inl (for_code InvalidDecodeParameters None)
      | _ \<Rightarrow> Inl (for_code InvalidDecodeParameters None))"

definition dictionary_stages :: "nat \<Rightarrow> pdf_dictionary \<Rightarrow> decode_error + filter_stage list" where
  "dictionary_stages limit d =
     and_then (unique_value ''Filter'' d) (\<lambda>f.
     and_then (unique_value ''DecodeParms'' d) (\<lambda>p.
       case f of
         None \<Rightarrow> if p \<noteq> None then Inl (for_code InvalidDecodeParameters None) else Inr []
       | Some (SynName name) \<Rightarrow>
           if 1 > limit then Inl (resource_error FilterCount limit 0 1 None)
           else and_then (canonical_pdf_filter name 0) (\<lambda>flt. single_stage flt p)
       | Some (SynArray vs) \<Rightarrow>
           if vs = [] then Inl (for_code InvalidDecodeParameters None)
           else if length vs > limit then Inl (resource_error FilterCount limit 0 (length vs) None)
           else and_then (declared_filters 0 vs) (\<lambda>fs. array_stages fs p)
       | _ \<Rightarrow> Inl (for_code InvalidDecodeParameters None)))"

section \<open>The code follows the declaration\<close>

lemma unique_metadata_probed: "probed h (unique_metadata_value h key None d k) (unique_value key d)"
proof -
  have more: "probed h (unique_metadata_value h key (Some v) d k)
      (if filter (\<lambda>e. dict_entry_key e = key) d \<noteq> [] then Inl (for_code InvalidDecodeParameters None) else Inr (Some v))" for v d k
  proof (induction d arbitrary: k)
    case (Cons e d)
    show ?case
    proof (cases "dict_entry_key e = key")
      case False
      then show ?thesis using Cons.IH by (simp only: unique_metadata_value.simps filter.simps if_False) (rule probed_check)
    qed (auto intro!: probed_check)
  qed simp
  have "probed h (unique_metadata_value h key None d k)
      (case filter (\<lambda>e. dict_entry_key e = key) d of [] \<Rightarrow> Inr None | [e] \<Rightarrow> Inr (Some (dict_entry_value e))
       | _ \<Rightarrow> Inl (for_code InvalidDecodeParameters None))" for d k
  proof (induction d arbitrary: k)
    case (Cons e d)
    show ?case
    proof (cases "dict_entry_key e = key")
      case True
      then show ?thesis
        using more [of "dict_entry_value e" d] True
        by (auto intro!: probed_check split: list.splits)
    next
      case False
      then show ?thesis using Cons.IH by (auto intro!: probed_check)
    qed
  qed simp
  then show ?thesis by (simp add: unique_value_def)
qed

lemma fill_slots_probed: "probed h (fill_slots h index d slots k) (declared_slots index d slots)"
  by (induction d arbitrary: slots k) (auto intro!: probed_check probed_pure)

lemma parameter_stage_probed:
  "probed h (canonical_parameter_stage h flt d index k) (declared_stage flt d index)"
proof -
  have "probed h (and_then (fill_slots h index d no_slots k) (\<lambda>(slots, k).
      and_then (slots_stage flt index slots) (\<lambda>stage. Inr (stage, k))))
      (and_then (declared_slots index d no_slots) (slots_stage flt index))" for k
  proof (rule probed_bind [OF fill_slots_probed], goal_cases)
    case (1 x k)
    show ?case by (cases "slots_stage flt index x") simp_all
  qed
  then show ?thesis
    unfolding canonical_parameter_stage_def declared_stage_def no_slots_def by (auto intro!: probed_check)
qed

definition units :: "decode_error + nat \<Rightarrow> decode_error + (unit \<times> nat)" where
  "units r = and_then r (\<lambda>k. Inr ((), k))"

lemma units_simps [simp]: "units (Inl e) = Inl e" "units (Inr k) = Inr ((), k)"
  by (simp_all add: units_def)

lemma units_check: "(\<And>k. probed h (units (f k)) p) \<Longrightarrow> probed h (units (and_then (check_metadata_cancelled h k) f)) p"
  unfolding units_def and_then_assoc by (rule probed_check)

lemma name_probed:
  assumes "\<And>flt. probed h (f flt) (q flt)"
  shows "probed h (case located_value v of SynName name \<Rightarrow> and_then (canonical_pdf_filter name i) f
      | _ \<Rightarrow> Inl (for_code InvalidDecodeParameters (Some i))) (and_then (name_filter i v) q)"
  using assms by (cases "located_value v") (auto simp: name_filter_def intro!: probed_pure)

lemma validate_filter_names_probed:
  "probed h (units (validate_filter_names h i vs k)) (and_then (declared_filters i vs) (\<lambda>_. Inr ()))"
proof (induction vs arbitrary: i k)
  case (Cons v vs)
  have "probed h (units (case located_value v of
      SynName name \<Rightarrow> and_then (canonical_pdf_filter name i) (\<lambda>_. validate_filter_names h (Suc i) vs k)
      | _ \<Rightarrow> Inl (for_code InvalidDecodeParameters (Some i))))
      (and_then (declared_filters i (v # vs)) (\<lambda>_. Inr ()))" for k
    using Cons.IH [of "Suc i"]
    by (cases "located_value v")
      (auto simp: name_filter_def units_def and_then_assoc intro!: probed_pure)
  then show ?case by (auto intro!: units_check)
qed simp

definition push_all_filters :: "filter_plan \<Rightarrow> stream_filter list \<Rightarrow> filter_plan" where
  "push_all_filters = foldl (\<lambda>plan flt. push_stage (without_parameters flt) plan)"

lemma push_all_filters_simps [simp]:
  "push_all_filters plan [] = plan"
  "push_all_filters plan (f # fs) = push_all_filters (push_stage (without_parameters f) plan) fs"
  by (simp_all add: push_all_filters_def)

lemma push_all_filters_fields:
  "plan_filters (push_all_filters plan fs) = plan_filters plan @ fs"
  "plan_stages (push_all_filters plan fs) = plan_stages plan @ map without_parameters fs"
  "plan_filters_capacity (push_all_filters plan fs) = plan_filters_capacity plan"
  "plan_stages_capacity (push_all_filters plan fs) = plan_stages_capacity plan"
  by (induction fs arbitrary: plan) (auto simp: push_stage_def without_parameters_def)

lemma push_filter_names_probed:
  "probed h (push_filter_names h i vs plan k)
     (and_then (declared_filters i vs) (\<lambda>fs. Inr (push_all_filters plan fs)))"
proof (induction vs arbitrary: i plan k)
  case (Cons v vs)
  show ?case unfolding push_filter_names.simps declared_filters.simps and_then_assoc and_then_simps
  proof (rule probed_check, rule name_probed, goal_cases)
    case (1 k flt)
    from Cons.IH [of "Suc i" "push_stage (without_parameters flt) plan" k] show ?case by simp
  qed
qed simp

lemma parameter_probed:
  assumes "\<And>stage k. probed h (f stage k) (q stage)"
  shows "probed h (case located_value v of
        SynNull \<Rightarrow> f (without_parameters flt) k
      | SynDictionary d \<Rightarrow> and_then (canonical_parameter_stage h flt d i k) (\<lambda>(stage, k). f stage k)
      | _ \<Rightarrow> Inl (for_code InvalidDecodeParameters (Some i))) (and_then (parameter_stage flt v i) q)"
  using assms
  by (cases "located_value v")
    (auto simp: parameter_stage_def intro!: probed_bind [OF parameter_stage_probed])

lemma validate_parameters_probed:
  "declared_filters i vs = Inr fs \<Longrightarrow> length ps = length vs \<Longrightarrow>
   probed h (units (validate_stage_parameters h i (zip vs ps) k)) (and_then (declared_stages i fs ps) (\<lambda>_. Inr ()))"
proof (induction vs arbitrary: i fs ps k)
  case (Cons v vs)
  obtain f fs' where fs: "fs = f # fs'" "name_filter i v = Inr f" "declared_filters (Suc i) vs = Inr fs'"
    using Cons.prems(1) by (auto simp: and_then_Inr_iff)
  obtain p ps' where ps: "ps = p # ps'" "length ps' = length vs"
    using Cons.prems(2) by (cases ps) auto
  obtain name where nm: "located_value v = SynName name" "canonical_pdf_filter name i = Inr f"
    using fs(2) by (auto simp: name_filter_def split: syntax_object.splits)
  note IH = Cons.IH [OF fs(3) ps(2)]
  have "probed h (case located_value p of
        SynNull \<Rightarrow> units (validate_stage_parameters h (Suc i) (zip vs ps') k)
      | SynDictionary d \<Rightarrow> and_then (canonical_parameter_stage h f d i k)
          (\<lambda>(stage, k). units (validate_stage_parameters h (Suc i) (zip vs ps') k))
      | _ \<Rightarrow> Inl (for_code InvalidDecodeParameters (Some i)))
      (and_then (parameter_stage f p i) (\<lambda>_. and_then (declared_stages (Suc i) fs' ps') (\<lambda>_. Inr ())))" for k
    by (rule parameter_probed) (rule IH)
  then show ?case
    by (auto simp: fs ps nm and_then_assoc intro!: units_check)
      (auto simp: units_def and_then_assoc split_def split: syntax_object.splits)
qed simp

lemma set_stage_parameters_probed:
  "plan_filters plan = fs \<Longrightarrow> length (plan_stages plan) = length fs \<Longrightarrow> i + length ps = length fs \<Longrightarrow>
   probed h (set_stage_parameters h i ps plan k)
     (and_then (declared_stages i (drop i fs) ps) (\<lambda>ss. Inr (plan\<lparr>plan_stages := take i (plan_stages plan) @ ss\<rparr>)))"
proof (induction ps arbitrary: i plan k)
  case Nil
  then show ?case by simp
next
  case (Cons p ps)
  have drop: "drop i fs = fs ! i # drop (Suc i) fs" using Cons.prems(3) by (simp add: Cons_nth_drop_Suc)
  have "probed h (case located_value p of
        SynNull \<Rightarrow> set_stage_parameters h (Suc i) ps (set_stage i (without_parameters (fs ! i)) plan) k
      | SynDictionary d \<Rightarrow> and_then (canonical_parameter_stage h (fs ! i) d i k)
          (\<lambda>(stage, k). set_stage_parameters h (Suc i) ps (set_stage i stage plan) k)
      | _ \<Rightarrow> Inl (for_code InvalidDecodeParameters (Some i)))
      (and_then (parameter_stage (fs ! i) p i) (\<lambda>s. and_then (declared_stages (Suc i) (drop (Suc i) fs) ps)
         (\<lambda>ss. Inr (plan\<lparr>plan_stages := take i (plan_stages plan) @ s # ss\<rparr>))))" for k
  proof (rule parameter_probed, goal_cases)
    case (1 stage k)
    have "probed h (set_stage_parameters h (Suc i) ps (set_stage i stage plan) k)
       (and_then (declared_stages (Suc i) (drop (Suc i) fs) ps) (\<lambda>ss. Inr (set_stage i stage plan
          \<lparr>plan_stages := take (Suc i) (plan_stages (set_stage i stage plan)) @ ss\<rparr>)))"
      by (rule Cons.IH) (use Cons.prems in \<open>simp_all add: set_stage_def\<close>)
    moreover have "take (Suc i) ((plan_stages plan)[i := stage]) = take i (plan_stages plan) @ [stage]"
      using Cons.prems(2,3) by (simp add: take_Suc_conv_app_nth)
    ultimately show ?case by (simp add: set_stage_def)
  qed
  then show ?case
    unfolding set_stage_parameters.simps drop declared_stages.simps and_then_assoc and_then_simps Cons.prems(1)
    by (rule probed_check)
qed

section \<open>Metadata\<close>

definition declared_shape :: "syntax_object \<Rightarrow> nat \<Rightarrow> decode_error + (nat \<times> bool)" where
  "declared_shape v limit =
     and_then (case v of
                 SynName _ \<Rightarrow> Inr (1, False)
               | SynArray vs \<Rightarrow>
                   if vs \<noteq> [] then Inr (length vs, True) else Inl (for_code InvalidDecodeParameters None)
               | _ \<Rightarrow> Inl (for_code InvalidDecodeParameters None)) (\<lambda>(count, array_filter).
       if count > limit then Inl (resource_error FilterCount limit 0 count None) else Inr (count, array_filter))"

definition declared_metadata :: "nat \<Rightarrow> pdf_dictionary \<Rightarrow> decode_error + plan_metadata" where
  "declared_metadata limit d =
     and_then (unique_value ''Filter'' d) (\<lambda>f.
     and_then (unique_value ''DecodeParms'' d) (\<lambda>p.
       case f of
         None \<Rightarrow>
           if p \<noteq> None then Inl (for_code InvalidDecodeParameters None)
           else Inr \<lparr>md_filter = None, md_decode_parameters = None, md_filter_count = 0, md_array_filter = False\<rparr>
       | Some v \<Rightarrow>
           and_then (declared_shape v limit) (\<lambda>(count, array_filter).
             Inr \<lparr>md_filter = Some v, md_decode_parameters = p, md_filter_count = count,
                  md_array_filter = array_filter\<rparr>)))"

definition metadata_stages :: "plan_metadata \<Rightarrow> decode_error + filter_stage list" where
  "metadata_stages md =
     (case md_filter md of
        None \<Rightarrow> Inr []
      | Some (SynName name) \<Rightarrow> and_then (canonical_pdf_filter name 0) (\<lambda>f. single_stage f (md_decode_parameters md))
      | Some (SynArray vs) \<Rightarrow> and_then (declared_filters 0 vs) (\<lambda>fs. array_stages fs (md_decode_parameters md))
      | _ \<Rightarrow> Inr [])"

definition metadata_ok :: "plan_metadata \<Rightarrow> bool" where
  "metadata_ok md \<longleftrightarrow>
     (case md_filter md of
        None \<Rightarrow> md_filter_count md = 0
      | Some (SynName _) \<Rightarrow> md_filter_count md = 1 \<and> \<not> md_array_filter md
      | Some (SynArray vs) \<Rightarrow> md_filter_count md = length vs \<and> md_array_filter md
      | _ \<Rightarrow> False)"

lemma dictionary_stages_metadata:
  "dictionary_stages limit d = and_then (declared_metadata limit d) metadata_stages"
proof (cases "unique_value ''Filter'' d")
  case (Inr f)
  then show ?thesis
  proof (cases "unique_value ''DecodeParms'' d")
    case (Inr p)
    with \<open>unique_value ''Filter'' d = Inr f\<close> show ?thesis
      by (auto simp: dictionary_stages_def declared_metadata_def metadata_stages_def declared_shape_def
          split: option.splits syntax_object.splits)
  qed (simp add: dictionary_stages_def declared_metadata_def)
qed (simp add: dictionary_stages_def declared_metadata_def)

lemma metadata_okE:
  assumes "metadata_ok md"
  obtains "md_filter md = None" "md_filter_count md = 0"
  | name where "md_filter md = Some (SynName name)" "md_filter_count md = 1" "\<not> md_array_filter md"
  | vs where "md_filter md = Some (SynArray vs)" "md_filter_count md = length vs" "md_array_filter md"
proof (cases "md_filter md")
  case (Some v)
  with assms that(2,3) show ?thesis by (cases v) (auto simp: metadata_ok_def)
qed (use assms that(1) in \<open>auto simp: metadata_ok_def\<close>)

lemma declared_shapeE:
  assumes "declared_shape v limit = Inr (c, a)"
  obtains name where "v = SynName name" "c = 1" "\<not> a" "c \<le> limit"
  | vs where "v = SynArray vs" "vs \<noteq> []" "c = length vs" "a" "c \<le> limit"
  using assms by (cases v) (auto simp: declared_shape_def split: if_splits)

lemma declared_metadata_ok:
  assumes "declared_metadata limit d = Inr md"
  shows "metadata_ok md \<and> md_filter_count md \<le> limit"
proof -
  from assms obtain f p where fp: "(case f of
         None \<Rightarrow>
           if p \<noteq> None then Inl (for_code InvalidDecodeParameters None)
           else Inr \<lparr>md_filter = None, md_decode_parameters = None, md_filter_count = 0, md_array_filter = False\<rparr>
       | Some v \<Rightarrow>
           and_then (declared_shape v limit) (\<lambda>(count, array_filter).
             Inr \<lparr>md_filter = Some v, md_decode_parameters = p, md_filter_count = count,
                  md_array_filter = array_filter\<rparr>)) = Inr md"
    unfolding declared_metadata_def by (blast elim: and_then_InrE)
  show ?thesis
  proof (cases f)
    case None
    then show ?thesis using fp by (auto simp: metadata_ok_def split: if_splits)
  next
    case (Some v)
    then obtain c a where sh: "declared_shape v limit = Inr (c, a)"
      "md = \<lparr>md_filter = Some v, md_decode_parameters = p, md_filter_count = c, md_array_filter = a\<rparr>"
      using fp by (auto simp: and_then_Inr_iff)
    from sh(1) show ?thesis by (cases rule: declared_shapeE) (simp_all add: sh(2) metadata_ok_def)
  qed
qed

lemma filter_shape_probed: "probed h (canonical_filter_shape h v limit k) (declared_shape v limit)"
  unfolding canonical_filter_shape_def declared_shape_def
  by (rule probed_check, rule probed_pure) (simp add: split_def)

lemma preflight_metadata_probed:
  "probed h (preflight_metadata h d l k) (declared_metadata (max_filters l) d)"
  unfolding preflight_metadata_def declared_metadata_def
proof (rule probed_check, rule probed_bind [OF unique_metadata_probed], goal_cases)
  case (1 k f k1)
  show ?case unfolding prod.case
  proof (rule probed_bind [OF unique_metadata_probed], goal_cases)
    case (1 p k2)
    show ?case
    proof (cases f)
      case None
      then show ?thesis by (auto intro!: probed_check)
    next
      case (Some v)
      show ?thesis unfolding Some option.case prod.case
        by (rule probed_bind [OF filter_shape_probed]) (simp add: split_def)
    qed
  qed
qed

lemma declared_filters_length: "declared_filters i vs = Inr fs \<Longrightarrow> length fs = length vs"
  by (induction vs arbitrary: i fs) (auto simp: and_then_Inr_iff)

lemma declared_stages_length: "declared_stages i fs vs = Inr ss \<Longrightarrow> length ss = min (length fs) (length vs)"
  by (induction i fs vs arbitrary: ss rule: declared_stages.induct) (auto simp: and_then_Inr_iff)

lemma single_stage_length: "single_stage f p = Inr ss \<Longrightarrow> length ss = 1"
  by (cases p) (auto simp: single_stage_def and_then_Inr_iff split: syntax_object.splits)

lemma array_stages_length: "array_stages fs p = Inr ss \<Longrightarrow> length ss = length fs"
  by (cases p) (auto simp: array_stages_def dest: declared_stages_length split: syntax_object.splits if_splits)

lemma metadata_stages_length:
  assumes "metadata_ok md" "metadata_stages md = Inr ss"
  shows "length ss = md_filter_count md"
  using assms(1)
  by (cases rule: metadata_okE)
    (use assms(2) in \<open>auto simp: metadata_stages_def and_then_Inr_iff
      dest!: declared_filters_length single_stage_length array_stages_length\<close>)

lemma units_then_check:
  assumes "probed h (units r) p"
  shows "probed h (units (and_then r (check_metadata_cancelled h))) p"
proof (cases r)
  case (Inl e)
  then show ?thesis using assms by simp
next
  case (Inr k)
  then show ?thesis using assms by (auto simp: probed_def check_metadata_cancelled_def units_def)
qed

lemma units_bind:
  "probed h (units r) (and_then p (\<lambda>_. Inr ())) \<Longrightarrow> (\<And>x k. p = Inr x \<Longrightarrow> probed h (units (f k)) (q x)) \<Longrightarrow>
   probed h (units (and_then r f)) (and_then p q)"
  by (cases r; cases p) (auto simp: probed_def)

lemma single_parameters_probed:
  "probed h (units (case p of
      None \<Rightarrow> Inr k
    | Some SynNull \<Rightarrow> Inr k
    | Some (SynDictionary d) \<Rightarrow> and_then (canonical_parameter_stage h f d 0 k) (\<lambda>(_, k). Inr k)
    | Some _ \<Rightarrow> Inl (for_code InvalidDecodeParameters None)))
    (and_then (single_stage f p) (\<lambda>_. Inr ()))"
proof (cases p)
  case (Some v)
  then show ?thesis
  proof (cases v)
    case (SynDictionary d)
    have "probed h (and_then (canonical_parameter_stage h f d 0 k) (\<lambda>(_, k). Inr ((), k)))
        (and_then (declared_stage f d 0) (\<lambda>_. Inr ()))"
      by (rule probed_bind [OF parameter_stage_probed]) simp
    then show ?thesis
      using Some SynDictionary by (simp add: single_stage_def units_def and_then_assoc split_def)
  qed (simp_all add: single_stage_def)
qed (simp add: single_stage_def)

lemma array_parameters_probed:
  assumes "declared_filters 0 vs = Inr fs" "count = length vs"
  shows "probed h (units (case p of
      None \<Rightarrow> Inr k
    | Some SynNull \<Rightarrow> Inr k
    | Some (SynArray ps) \<Rightarrow>
        if length ps = count then validate_stage_parameters h 0 (zip vs ps) k
        else Inl (for_code InvalidDecodeParameters None)
    | Some _ \<Rightarrow> Inl (for_code InvalidDecodeParameters None)))
    (and_then (array_stages fs p) (\<lambda>_. Inr ()))"
proof (cases p)
  case (Some v)
  then show ?thesis
    using assms validate_parameters_probed [OF assms(1)] declared_filters_length [OF assms(1)]
    by (cases v) (simp_all add: array_stages_def)
qed (simp add: array_stages_def)

lemma validate_metadata_probed:
  assumes "metadata_ok md"
  shows "probed h (units (validate_metadata h md k)) (and_then (metadata_stages md) (\<lambda>_. Inr ()))"
  using assms
proof (cases rule: metadata_okE)
  case 1
  have "probed h (units (and_then (Inr k) (check_metadata_cancelled h))) (Inr ())"
    by (rule units_then_check) simp
  then show ?thesis using 1 by (simp add: validate_metadata_def metadata_stages_def)
next
  case (2 name)
  have arr: "md_array_filter md = False" using 2(3) by simp
  show ?thesis
  proof (cases "canonical_pdf_filter name 0")
    case (Inl e)
    then show ?thesis using 2 by (simp add: validate_metadata_def metadata_stages_def)
  next
    case (Inr f)
    have "validate_metadata h md k = and_then (case md_decode_parameters md of
        None \<Rightarrow> Inr k
      | Some SynNull \<Rightarrow> Inr k
      | Some (SynDictionary d) \<Rightarrow> and_then (canonical_parameter_stage h f d 0 k) (\<lambda>(_, k). Inr k)
      | Some _ \<Rightarrow> Inl (for_code InvalidDecodeParameters None)) (check_metadata_cancelled h)"
      unfolding validate_metadata_def 2(1) arr option.case syntax_object.case Inr and_then_simps prod.case bool.case ..
    moreover have "metadata_stages md = single_stage f (md_decode_parameters md)"
      using 2 Inr by (simp add: metadata_stages_def)
    ultimately show ?thesis using units_then_check [OF single_parameters_probed] by simp
  qed
next
  case (3 vs)
  have arr: "md_array_filter md = True" using 3(3) by simp
  have "validate_metadata h md k = and_then (validate_filter_names h 0 vs k) (\<lambda>k. and_then
      (case md_decode_parameters md of
        None \<Rightarrow> Inr k
      | Some SynNull \<Rightarrow> Inr k
      | Some (SynArray ps) \<Rightarrow>
          if length ps = md_filter_count md then validate_stage_parameters h 0 (zip vs ps) k
          else Inl (for_code InvalidDecodeParameters None)
      | Some _ \<Rightarrow> Inl (for_code InvalidDecodeParameters None)) (check_metadata_cancelled h))"
    unfolding validate_metadata_def 3(1) arr option.case syntax_object.case and_then_simps prod.case bool.case ..
  moreover have "metadata_stages md = and_then (declared_filters 0 vs) (\<lambda>fs. array_stages fs (md_decode_parameters md))"
    using 3 by (simp add: metadata_stages_def)
  ultimately show ?thesis
    unfolding and_then_assoc
    using units_bind [OF validate_filter_names_probed units_then_check [OF array_parameters_probed [OF _ 3(2)]]]
    by (simp add: and_then_assoc)
qed

section \<open>Preflight and construction\<close>

text \<open>The preflight accepts exactly what the dictionary declares, and counts its stages.\<close>

lemma preflight_spec:
  assumes "max_filters l \<le> hard_max_filters"
  shows "case preflight_pdf_dictionary h d l k of
      Inl e \<Rightarrow> dictionary_stages (max_filters l) d = Inl e \<or> e = for_code CancelledCode None \<and> (\<exists>k. is_cancelled h k)
    | Inr n \<Rightarrow> \<exists>ss. dictionary_stages (max_filters l) d = Inr ss \<and> n = length ss"
  using preflight_metadata_probed [of h d l k]
proof (cases rule: probed_cases)
  case (3 md k1)
  note md = declared_metadata_ok [OF 3(2)]
  have "md_filter_count md < 65536" using md assms by (simp add: hard_max_filters_def)
  then show ?thesis
    using validate_metadata_probed [OF conjunct1 [OF md], of h k1] metadata_stages_length [OF conjunct1 [OF md]] 3
    by (cases "validate_metadata h md k1"; cases "metadata_stages md")
      (auto simp: preflight_pdf_dictionary_def dictionary_stages_metadata probed_def)
qed (auto simp: preflight_pdf_dictionary_def dictionary_stages_metadata)

text \<open>What every plan of the constructors satisfies.\<close>

definition stage_ok :: "filter_stage \<Rightarrow> bool" where
  "stage_ok s \<longleftrightarrow>
     (case stage_parameters s of
        NoParameters \<Rightarrow> True
      | Predictor p \<Rightarrow> stage_filter s = FlateDecode \<and> predictor_ok p)"

definition plan_ok :: "filter_plan \<Rightarrow> bool" where
  "plan_ok plan \<longleftrightarrow>
     plan_filters plan = map stage_filter (plan_stages plan) \<and> (\<forall>s \<in> set (plan_stages plan). stage_ok s)"

lemma without_parameters_ok [simp]: "stage_ok (without_parameters f)" "stage_filter (without_parameters f) = f"
  by (simp_all add: stage_ok_def without_parameters_def)

lemma slots_stage_ok: "slots_stage FlateDecode i slots = Inr s \<Longrightarrow> stage_filter s = FlateDecode \<and> stage_ok s"
proof -
  assume s: "slots_stage FlateDecode i slots = Inr s"
  show ?thesis
  proof (cases "predictor_parameters_new (unwrap_or (slot_predictor slots) 1) (unwrap_or (slot_colors slots) 1)
      (unwrap_or (slot_bits_per_component slots) 8) (unwrap_or (slot_columns slots) 1)")
    case (Inr p)
    then show ?thesis using s predictor_parameters_new_ok [OF Inr] by (auto simp: slots_stage_def stage_ok_def)
  qed (use s in \<open>simp add: slots_stage_def\<close>)
qed

lemma declared_stage_ok: "declared_stage f d i = Inr s \<Longrightarrow> stage_filter s = f \<and> stage_ok s"
  by (auto simp: declared_stage_def and_then_Inr_iff dest!: slots_stage_ok split: if_splits)

lemma parameter_stage_ok: "parameter_stage f v i = Inr s \<Longrightarrow> stage_filter s = f \<and> stage_ok s"
  by (auto simp: parameter_stage_def dest: declared_stage_ok split: syntax_object.splits)

lemma declared_stages_ok:
  "declared_stages i fs vs = Inr ss \<Longrightarrow> length fs = length vs \<Longrightarrow> map stage_filter ss = fs \<and> (\<forall>s \<in> set ss. stage_ok s)"
proof (induction i fs vs arbitrary: ss rule: declared_stages.induct)
  case (1 i f fs v vs)
  obtain s ss' where s: "parameter_stage f v i = Inr s" "declared_stages (Suc i) fs vs = Inr ss'" "ss = s # ss'"
    using 1(2) by (auto simp: and_then_Inr_iff)
  then show ?case using 1(1) [OF s(1,2)] 1(3) parameter_stage_ok [OF s(1)] by simp
qed auto

lemma single_stage_ok: "single_stage f p = Inr ss \<Longrightarrow> map stage_filter ss = [f] \<and> (\<forall>s \<in> set ss. stage_ok s)"
  by (cases p) (auto simp: single_stage_def and_then_Inr_iff dest!: declared_stage_ok split: syntax_object.splits)

lemma array_stages_ok: "array_stages fs p = Inr ss \<Longrightarrow> map stage_filter ss = fs \<and> (\<forall>s \<in> set ss. stage_ok s)"
proof (cases p)
  case (Some v)
  assume "array_stages fs p = Inr ss"
  then show ?thesis
    using Some declared_stages_ok [of 0 fs _ ss]
    by (cases v) (auto simp: array_stages_def o_def split: if_splits)
qed (auto simp: array_stages_def o_def)

lemma metadata_stages_ok: "metadata_stages md = Inr ss \<Longrightarrow> \<forall>s \<in> set ss. stage_ok s"
  by (auto simp: metadata_stages_def and_then_Inr_iff dest!: single_stage_ok array_stages_ok
      split: option.splits syntax_object.splits)

lemma single_plan_probed:
  assumes "plan_filters plan = []" "plan_stages plan = []" "plan1 = push_stage (without_parameters f) plan"
  shows "probed h (case p of
      None \<Rightarrow> Inr (plan1, k)
    | Some SynNull \<Rightarrow> Inr (plan1, k)
    | Some (SynDictionary d) \<Rightarrow>
        and_then (canonical_parameter_stage h (plan_filters plan1 ! 0) d 0 k) (\<lambda>(stage, k). Inr (set_stage 0 stage plan1, k))
    | Some _ \<Rightarrow> Inl (for_code InvalidDecodeParameters None))
    (and_then (single_stage f p) (\<lambda>ss. Inr (plan\<lparr>plan_filters := map stage_filter ss, plan_stages := ss\<rparr>)))"
proof (cases p)
  case None
  then show ?thesis using assms by (simp add: single_stage_def push_stage_def)
next
  case (Some v)
  show ?thesis
  proof (cases v)
    case (SynDictionary d)
    have "probed h (and_then (canonical_parameter_stage h f d 0 k) (\<lambda>(stage, k). Inr (set_stage 0 stage plan1, k)))
        (and_then (declared_stage f d 0) (\<lambda>s. Inr (plan\<lparr>plan_filters := map stage_filter [s], plan_stages := [s]\<rparr>)))"
    proof (rule probed_bind [OF parameter_stage_probed], goal_cases)
      case (1 s k)
      then show ?case using assms declared_stage_ok [OF 1] by (simp add: push_stage_def set_stage_def)
    qed
    then show ?thesis
      using Some SynDictionary assms by (simp add: single_stage_def and_then_assoc push_stage_def)
  qed (use Some assms in \<open>simp_all add: single_stage_def push_stage_def\<close>)
qed

lemma array_plan_probed:
  assumes "plan_filters plan = []" "plan_stages plan = []" "plan1 = push_all_filters plan fs"
  shows "probed h (case p of
      None \<Rightarrow> Inr (plan1, k)
    | Some SynNull \<Rightarrow> Inr (plan1, k)
    | Some (SynArray ps) \<Rightarrow>
        if length ps = plan_len plan1 then set_stage_parameters h 0 ps plan1 k
        else Inl (for_code InvalidDecodeParameters None)
    | Some _ \<Rightarrow> Inl (for_code InvalidDecodeParameters None))
    (and_then (array_stages fs p) (\<lambda>ss. Inr (plan\<lparr>plan_filters := map stage_filter ss, plan_stages := ss\<rparr>)))"
proof -
  have plan1: "plan1 = plan\<lparr>plan_filters := fs, plan_stages := map without_parameters fs\<rparr>"
    using push_all_filters_fields [of plan fs] assms by simp
  have plain: "Inr plan1 = and_then (Inr (map without_parameters fs))
      (\<lambda>ss. Inr (plan\<lparr>plan_filters := map stage_filter ss, plan_stages := ss\<rparr>))"
    unfolding plan1 by (simp add: o_def)
  show ?thesis
  proof (cases p)
    case None
    then show ?thesis using plain by (simp add: array_stages_def)
  next
    case (Some v)
    show ?thesis
    proof (cases v)
      case (SynArray ps)
      have "probed h (set_stage_parameters h 0 ps plan1 k) (and_then (declared_stages 0 fs ps)
          (\<lambda>ss. Inr (plan\<lparr>plan_filters := map stage_filter ss, plan_stages := ss\<rparr>)))" if "length ps = length fs"
        using set_stage_parameters_probed [of plan1 fs 0 ps h k] that declared_stages_ok [of 0 fs ps]
        unfolding plan1 by (cases "declared_stages 0 fs ps") simp_all
      then show ?thesis using Some SynArray plan1 by (simp add: array_stages_def plan_len_def)
    qed (use Some plain in \<open>simp_all add: array_stages_def\<close>)
  qed
qed

definition plan_fault :: "decode_error \<Rightarrow> bool" where
  "plan_fault e \<longleftrightarrow> is_host_error e \<or> err_code e = InternalState"

lemma allocate_Inl: "allocate h c lim = Inl e \<Longrightarrow> plan_fault e"
  by (auto simp: allocate_def plan_fault_def and_then_Inl_iff ok_or_def split: option.splits)

lemma allocate_Inr: "allocate h c lim = Inr plan \<Longrightarrow> plan_filters plan = [] \<and> plan_stages plan = []"
  by (auto simp: allocate_def and_then_Inr_iff)

lemma validate_heap_Inl:
  "validate_retained_heap_limit w plan m = Inl e \<Longrightarrow> 0 < m \<Longrightarrow> m \<le> hard_max_filters \<Longrightarrow> plan_fault e"
  by (auto simp: validate_retained_heap_limit_def retained_heap_upper_bound_def retained_heap_bytes_def
      retained_vec_bytes_def plan_fault_def and_then_Inl_iff ok_or_def split: if_splits option.splits)

text \<open>A fault is the host's: a generous host causes none, when the element sizes leave the
  retained bytes of the largest plan within u64.\<close>

definition layout_fits :: "layout \<Rightarrow> bool" where
  "layout_fits w \<longleftrightarrow> hard_max_filters * (filter_width w + stage_width w) \<le> u64_max"

definition host_fault :: "host \<Rightarrow> layout \<Rightarrow> decode_error \<Rightarrow> bool" where
  "host_fault h w e \<longleftrightarrow> plan_fault e \<and> \<not> (generous h \<and> layout_fits w)"

lemma allocate_fault: "allocate h c lim = Inl e \<Longrightarrow> host_fault h w e"
  using allocate_Inl [of h c lim e]
  by (auto simp: host_fault_def allocate_def generous_def try_reserve_exact_def ok_or_def split: if_splits option.splits)

lemma allocate_capacity:
  assumes "allocate h c lim = Inr plan" "generous h"
  shows "plan_filters_capacity plan = c" "plan_stages_capacity plan = c"
  using assms by (auto simp: allocate_def generous_def try_reserve_exact_def ok_or_def split: if_splits)

lemma validate_heap_fits:
  assumes m: "0 < m" "m \<le> hard_max_filters" and w: "layout_fits w"
    and cap: "plan_filters_capacity plan \<le> m" "plan_stages_capacity plan \<le> m"
  shows "\<exists>b. validate_retained_heap_limit w plan m = Inr b"
proof -
  have top: "m * filter_width w + m * stage_width w \<le> u64_max"
    using mult_le_mono1 [OF m(2), of "filter_width w + stage_width w"] w
    by (simp add: layout_fits_def distrib_left)
  have cs: "plan_filters_capacity plan * filter_width w \<le> m * filter_width w"
      "plan_stages_capacity plan * stage_width w \<le> m * stage_width w"
    using cap by simp_all
  have le: "m * filter_width w \<le> u64_max" "m * stage_width w \<le> u64_max"
      "plan_filters_capacity plan * filter_width w \<le> u64_max"
      "plan_stages_capacity plan * stage_width w \<le> u64_max"
      "plan_filters_capacity plan * filter_width w + plan_stages_capacity plan * stage_width w \<le> u64_max"
    using cs top by linarith+
  have mul: "checked_mul m (filter_width w) = Some (m * filter_width w)"
      "checked_mul m (stage_width w) = Some (m * stage_width w)"
      "checked_mul (plan_filters_capacity plan) (filter_width w) = Some (plan_filters_capacity plan * filter_width w)"
      "checked_mul (plan_stages_capacity plan) (stage_width w) = Some (plan_stages_capacity plan * stage_width w)"
      "checked_add (m * filter_width w) (m * stage_width w) = Some (m * filter_width w + m * stage_width w)"
      "checked_add (plan_filters_capacity plan * filter_width w) (plan_stages_capacity plan * stage_width w) =
         Some (plan_filters_capacity plan * filter_width w + plan_stages_capacity plan * stage_width w)"
    using top le by (simp_all add: checked_mul_def checked_add_def)
  show ?thesis
    using m add_mono [OF cs]
    by (simp add: validate_retained_heap_limit_def retained_heap_upper_bound_def retained_heap_bytes_def
        retained_vec_bytes_def mul ok_or_def)
qed

definition plan_follows ::
  "host \<Rightarrow> layout \<Rightarrow> decode_limits \<Rightarrow> pdf_dictionary \<Rightarrow> decode_error + filter_plan \<Rightarrow> bool" where
  "plan_follows h w l d r \<longleftrightarrow>
     (case r of
        Inl e \<Rightarrow> host_fault h w e \<or> dictionary_stages (max_filters l) d = Inl e
      | Inr plan \<Rightarrow> dictionary_stages (max_filters l) d = Inr (plan_stages plan) \<and> plan_ok plan \<and>
          (\<exists>b. validate_retained_heap_limit w plan (max_filters l) = Inr b))"

lemma cancelled_fault: "\<exists>k. is_cancelled h k \<Longrightarrow> host_fault h w (for_code CancelledCode None)"
  by (auto simp: host_fault_def plan_fault_def generous_def)

lemma publish_follows:
  assumes l: "0 < max_filters l" "max_filters l \<le> hard_max_filters"
    and ss: "dictionary_stages (max_filters l) d = Inr (plan_stages plan)"
    and ok: "plan_ok plan"
    and cap: "generous h \<Longrightarrow>
      plan_filters_capacity plan \<le> max_filters l \<and> plan_stages_capacity plan \<le> max_filters l"
  shows "plan_follows h w l d (and_then (check_metadata_cancelled h k) (\<lambda>_.
     and_then (validate_retained_heap_limit w plan (max_filters l)) (\<lambda>_. Inr plan)))"
proof (cases "validate_retained_heap_limit w plan (max_filters l)")
  case (Inl e)
  have "host_fault h w e"
    using validate_heap_Inl [OF Inl l] validate_heap_fits [OF l, of w plan] cap Inl
    by (auto simp: host_fault_def)
  then show ?thesis
    using Inl cancelled_fault [of h w] by (auto simp: plan_follows_def check_metadata_cancelled_def)
next
  case (Inr b)
  then show ?thesis
    using ss ok cancelled_fault [of h w] by (auto simp: plan_follows_def check_metadata_cancelled_def)
qed

lemma plan_new_empty:
  "plan_new h w [] = Inr plan \<Longrightarrow> plan_stages plan = [] \<and> plan_ok plan \<and>
     plan_filters_capacity plan = 0 \<and> plan_stages_capacity plan = 0"
  by (auto simp: plan_new_def plan_ok_def and_then_Inr_iff Let_def allocate_def try_reserve_exact_def ok_or_def)

lemma plan_new_Inl: "plan_new h w [] = Inl e \<Longrightarrow> host_fault h w e"
proof -
  assume e: "plan_new h w [] = Inl e"
  let ?plan = "\<lparr>plan_filters = [], plan_stages = [], plan_filters_capacity = 0, plan_stages_capacity = 0\<rparr>"
  have v: "validate_retained_heap_limit w ?plan hard_max_filters = Inl e"
    using e by (simp add: plan_new_def validate_hard_filter_count_def allocate_def try_reserve_exact_def ok_or_def
        and_then_Inl_iff)
  have m: "0 < hard_max_filters" by (simp add: hard_max_filters_def)
  show ?thesis
    using validate_heap_Inl [OF v m] validate_heap_fits [OF m order_refl, of w ?plan] v by (auto simp: host_fault_def)
qed

lemma build_probed:
  assumes "metadata_ok md" "md_filter md = Some flt" "plan_filters plan = []" "plan_stages plan = []"
  shows "probed h (and_then (case flt of
        SynName name \<Rightarrow>
          and_then (canonical_pdf_filter name 0) (\<lambda>f. Inr (push_stage (without_parameters f) plan, k))
      | SynArray values \<Rightarrow> push_filter_names h 0 values plan k
      | _ \<Rightarrow> unreachable) (\<lambda>(plan, k).
        case (md_array_filter md, md_decode_parameters md) of
          (_, None) \<Rightarrow> Inr (plan, k)
        | (_, Some SynNull) \<Rightarrow> Inr (plan, k)
        | (False, Some (SynDictionary parameters)) \<Rightarrow>
            and_then (canonical_parameter_stage h (plan_filters plan ! 0) parameters 0 k) (\<lambda>(stage, k).
              Inr (set_stage 0 stage plan, k))
        | (True, Some (SynArray parameters)) \<Rightarrow>
            if length parameters = plan_len plan then set_stage_parameters h 0 parameters plan k
            else Inl (for_code InvalidDecodeParameters None)
        | _ \<Rightarrow> Inl (for_code InvalidDecodeParameters None)))
    (and_then (metadata_stages md) (\<lambda>ss. Inr (plan\<lparr>plan_filters := map stage_filter ss, plan_stages := ss\<rparr>)))"
  using assms(1)
proof (cases rule: metadata_okE)
  case 1
  then show ?thesis using assms(2) by simp
next
  case (2 name)
  then have f: "flt = SynName name" "md_array_filter md = False" using assms(2) by simp_all
  show ?thesis
  proof (cases "canonical_pdf_filter name 0")
    case (Inl e)
    then show ?thesis using 2 f by (simp add: metadata_stages_def)
  next
    case (Inr g)
    have "metadata_stages md = single_stage g (md_decode_parameters md)" using 2 Inr by (simp add: metadata_stages_def)
    then show ?thesis
      using single_plan_probed [OF assms(3,4) refl, where h = h and p = "md_decode_parameters md" and k = k and f = g]
      unfolding f syntax_object.case Inr and_then_simps prod.case bool.case by simp
  qed
next
  case (3 vs)
  then have f: "flt = SynArray vs" "md_array_filter md = True" using assms(2) by simp_all
  have st: "metadata_stages md = and_then (declared_filters 0 vs) (\<lambda>fs. array_stages fs (md_decode_parameters md))"
    using 3 by (simp add: metadata_stages_def)
  have "probed h (and_then (push_filter_names h 0 vs plan k) (\<lambda>(plan, k).
        case md_decode_parameters md of
          None \<Rightarrow> Inr (plan, k)
        | Some SynNull \<Rightarrow> Inr (plan, k)
        | Some (SynArray ps) \<Rightarrow>
            if length ps = plan_len plan then set_stage_parameters h 0 ps plan k
            else Inl (for_code InvalidDecodeParameters None)
        | Some _ \<Rightarrow> Inl (for_code InvalidDecodeParameters None)))
      (and_then (and_then (declared_filters 0 vs) (\<lambda>fs. Inr (push_all_filters plan fs)))
        (\<lambda>plan1. and_then (array_stages (plan_filters plan1) (md_decode_parameters md))
           (\<lambda>ss. Inr (plan\<lparr>plan_filters := map stage_filter ss, plan_stages := ss\<rparr>))))"
  proof (rule probed_bind [OF push_filter_names_probed], goal_cases)
    case (1 plan1 k1)
    then obtain fs where fs: "plan1 = push_all_filters plan fs" by (auto simp: and_then_Inr_iff)
    then have "plan_filters plan1 = fs" using push_all_filters_fields(1) [of plan fs] assms(3) by simp
    with array_plan_probed [OF assms(3,4) fs, where h = h and p = "md_decode_parameters md" and k = k1] show ?case by simp
  qed
  then show ?thesis
    unfolding f st syntax_object.case prod.case bool.case
    by (simp add: and_then_assoc push_all_filters_fields assms(3))
qed

lemma from_pdf_dictionary_follows:
  assumes l: "decode_limits_ok l"
  shows "plan_follows h w l d (from_pdf_dictionary h w d l k)"
proof -
  have m: "0 < max_filters l" "max_filters l \<le> hard_max_filters" using l by (simp_all add: decode_limits_ok_def)
  from preflight_metadata_probed [of h d l k] show ?thesis
  proof (cases rule: probed_cases)
    case (3 md k1)
    note ok = conjunct1 [OF declared_metadata_ok [OF 3(2)]]
      and count = conjunct2 [OF declared_metadata_ok [OF 3(2)]]
    have stages: "dictionary_stages (max_filters l) d = metadata_stages md"
      using 3(2) by (simp add: dictionary_stages_metadata)
    show ?thesis
    proof (cases "validate_metadata h md k1")
      case (Inl e)
      then have "host_fault h w e \<or> metadata_stages md = Inl e"
        using validate_metadata_probed [OF ok, of h k1] cancelled_fault [of h w]
        by (auto simp: probed_def and_then_Inl_iff)
      then show ?thesis using 3(1) Inl stages by (simp add: from_pdf_dictionary_def plan_follows_def)
    next
      case (Inr k2)
      obtain ss where ss: "metadata_stages md = Inr ss"
        using validate_metadata_probed [OF ok, of h k1] Inr by (auto simp: probed_def and_then_Inr_iff)
      show ?thesis
      proof (cases "md_filter md")
        case None
        then have "ss = []" using ss by (simp add: metadata_stages_def)
        then show ?thesis
          using 3(1) Inr None ss stages publish_follows [OF m] plan_new_empty plan_new_Inl
          by (cases "plan_new h w []") (auto simp: from_pdf_dictionary_def plan_follows_def)
      next
        case (Some flt)
        show ?thesis
        proof (cases "allocate h (md_filter_count md) (max_filters l)")
          case (Inl e)
          then show ?thesis
            using 3(1) Inr Some allocate_fault [OF Inl, of w] unfolding \<open>validate_metadata h md k1 = Inr k2\<close>
            by (simp add: from_pdf_dictionary_def plan_follows_def \<open>validate_metadata h md k1 = Inr k2\<close>)
        next
          case (Inr plan)
          let ?build = "and_then (case flt of
              SynName name \<Rightarrow>
                and_then (canonical_pdf_filter name 0) (\<lambda>f. Inr (push_stage (without_parameters f) plan, k2))
            | SynArray values \<Rightarrow> push_filter_names h 0 values plan k2
            | _ \<Rightarrow> unreachable) (\<lambda>(plan, k).
              case (md_array_filter md, md_decode_parameters md) of
                (_, None) \<Rightarrow> Inr (plan, k)
              | (_, Some SynNull) \<Rightarrow> Inr (plan, k)
              | (False, Some (SynDictionary parameters)) \<Rightarrow>
                  and_then (canonical_parameter_stage h (plan_filters plan ! 0) parameters 0 k) (\<lambda>(stage, k).
                    Inr (set_stage 0 stage plan, k))
              | (True, Some (SynArray parameters)) \<Rightarrow>
                  if length parameters = plan_len plan then set_stage_parameters h 0 parameters plan k
                  else Inl (for_code InvalidDecodeParameters None)
              | _ \<Rightarrow> Inl (for_code InvalidDecodeParameters None))"
          have run: "from_pdf_dictionary h w d l k = and_then ?build (\<lambda>(plan, k).
              and_then (check_metadata_cancelled h k) (\<lambda>_.
              and_then (validate_retained_heap_limit w plan (max_filters l)) (\<lambda>_. Inr plan)))"
            unfolding from_pdf_dictionary_def 3(1) and_then_simps prod.case \<open>validate_metadata h md k1 = Inr k2\<close>
              Some option.case Inr and_then_assoc
            by (rule and_then_cong [OF refl]) (simp add: split_def)
          from build_probed [OF ok Some, of plan h k2] allocate_Inr [OF Inr]
          have "probed h ?build (Inr (plan\<lparr>plan_filters := map stage_filter ss, plan_stages := ss\<rparr>))"
            unfolding ss and_then_simps by blast
          then show ?thesis
          proof (cases rule: probed_cases)
            case (3 plan1 k3)
            have "dictionary_stages (max_filters l) d = Inr (plan_stages plan1)" "plan_ok plan1"
              using 3(2) stages ss metadata_stages_ok [OF ss] by (auto simp: plan_ok_def)
            moreover have "generous h \<Longrightarrow>
                plan_filters_capacity plan1 \<le> max_filters l \<and> plan_stages_capacity plan1 \<le> max_filters l"
              using 3(2) allocate_capacity [OF Inr] count by auto
            ultimately show ?thesis unfolding run 3(1) using publish_follows [OF m, of d plan1 h w k3] by simp
          qed (use cancelled_fault [of h w] in \<open>auto simp: run plan_follows_def\<close>)
        qed
      qed
    qed
  qed (use cancelled_fault [of h w] in \<open>auto simp: from_pdf_dictionary_def plan_follows_def dictionary_stages_metadata\<close>)
qed

lemma from_pdf_dictionary_exact:
  assumes "decode_limits_ok l" "generous h" "layout_fits w"
  shows "map_sum id plan_stages (from_pdf_dictionary h w d l k) = dictionary_stages (max_filters l) d"
  using from_pdf_dictionary_follows [OF assms(1), of h w d k] assms(2,3)
  by (auto simp: plan_follows_def host_fault_def split: sum.splits)

end
