(* ===== verification/Filt_Decode.thy ===== *)
theory Filt_Decode
  imports Filt_Tiff Filt_FlateRefine Filt_PlanSpec
begin

text \<open>
  Stream decoding (\<open>decode_stream\<close> and \<open>decode_layer\<close> of \<open>pdf-rs/filters/src/decode.rs\<close>, and the
  request, attestation and decoded-stream types of \<open>model.rs\<close>): the stages of a plan run in order
  under one budget, each layer followed by its predictor, and the result carries its evidence.
\<close>

section \<open>Requests and results\<close>

record decode_request =
  req_snapshot :: source_snapshot
  req_owner :: object_ref
  req_dictionary_span :: byte_span
  req_encoded_span :: byte_span
  req_encoded :: byte_slice
  req_plan :: filter_plan
  req_profile :: decode_profile
  req_limits :: decode_limits

definition decode_request_new ::
  "source_snapshot \<Rightarrow> object_ref \<Rightarrow> byte_span \<Rightarrow> byte_span \<Rightarrow> byte_slice \<Rightarrow> filter_plan \<Rightarrow> decode_profile
     \<Rightarrow> decode_limits \<Rightarrow> decode_error + decode_request" where
  "decode_request_new snapshot owner dictionary_span encoded_span encoded plan profile limits =
     (if bs_identity encoded \<noteq> snapshot_identity snapshot then Inl (for_code SourceChanged None)
      else if range_start (bs_range encoded) \<noteq> span_start encoded_span \<or>
              range_len (bs_range encoded) \<noteq> span_len encoded_span
      then Inl (for_code InvalidRequest None)
      else if (case snapshot_len snapshot of
                 None \<Rightarrow> False
               | Some source_len \<Rightarrow> span_end encoded_span > source_len \<or> span_end dictionary_span > source_len)
      then Inl (for_code InvalidRequest None)
      else Inr \<lparr>req_snapshot = snapshot, req_owner = owner, req_dictionary_span = dictionary_span,
                req_encoded_span = encoded_span, req_encoded = encoded, req_plan = plan,
                req_profile = profile, req_limits = limits\<rparr>)"

record decode_attestation =
  at_snapshot :: source_snapshot
  at_source_identity :: source_identity
  at_owner :: object_ref
  at_dictionary_span :: byte_span
  at_encoded_span :: byte_span
  at_encoded :: byte_slice
  at_plan :: filter_plan
  at_profile :: decode_profile
  at_limits :: decode_limits
  at_fuel_schedule :: fuel_schedule
  at_fuel_consumed :: nat
  at_cumulative_output_bytes :: nat
  at_peak_retained_capacity_bytes :: nat
  at_plan_retained_heap_bytes :: nat
  at_decoded_length :: nat

record decoded_stream =
  ds_bytes :: "u8 list"
  ds_attestation :: decode_attestation

record decoded_range =
  dr_start :: nat
  dr_len :: nat

definition decoded_range_new :: "nat \<Rightarrow> nat \<Rightarrow> decoded_range option" where
  "decoded_range_new start len =
     (if checked_add start len \<noteq> None then Some \<lparr>dr_start = start, dr_len = len\<rparr> else None)"

definition decoded_range_end :: "decoded_range \<Rightarrow> nat" where
  "decoded_range_end r = dr_start r + dr_len r"

definition stream_decoded_range :: "decoded_stream \<Rightarrow> decoded_range" where
  "stream_decoded_range s = \<lparr>dr_start = 0, dr_len = at_decoded_length (ds_attestation s)\<rparr>"

definition decoded_slice :: "decoded_stream \<Rightarrow> decoded_range \<Rightarrow> u8 list option" where
  "decoded_slice s r =
     (if decoded_range_end r > at_decoded_length (ds_attestation s) then None
      else if dr_start r \<le> decoded_range_end r \<and> decoded_range_end r \<le> length (ds_bytes s)
      then Some (take (decoded_range_end r - dr_start r) (drop (dr_start r) (ds_bytes s)))
      else None)"

section \<open>The pipeline\<close>

fun decode_layer ::
  "host \<Rightarrow> stream_filter \<Rightarrow> u8 list \<Rightarrow> nat \<Rightarrow> bool \<Rightarrow> nat \<Rightarrow> decode_budget
     \<Rightarrow> decode_error + (vec \<times> decode_budget)" where
  "decode_layer h FlateDecode = decode_flate h"
| "decode_layer h AsciiHexDecode = decode_ascii_hex h"
| "decode_layer h Ascii85Decode = decode_ascii85 h"
| "decode_layer h RunLengthDecode = decode_run_length h"

definition stage_predictor :: "filter_stage \<Rightarrow> predictor_parameters option" where
  "stage_predictor stage =
     (case stage_parameters stage of
        Predictor parameters \<Rightarrow> if pp_predictor parameters \<noteq> 1 then Some parameters else None
      | NoParameters \<Rightarrow> None)"

fun decode_stages ::
  "host \<Rightarrow> u8 list \<Rightarrow> nat \<Rightarrow> nat \<Rightarrow> filter_stage list \<Rightarrow> vec option \<Rightarrow> decode_budget
     \<Rightarrow> decode_error + (vec option \<times> decode_budget)" where
  "decode_stages h encoded count index [] current b = Inr (current, b)"
| "decode_stages h encoded count index (stage # stages) current b =
     and_then (charge_setup h (Some index) b) (\<lambda>b.
       let (input, incap) = (case current of Some v \<Rightarrow> (vec_bytes v, vec_capacity v) | None \<Rightarrow> (encoded, 0));
           final = (index + 1 = count)
       in and_then (decode_layer h (stage_filter stage) input incap (final \<and> stage_predictor stage = None) index b)
            (\<lambda>(output, b).
          and_then (case stage_predictor stage of
                      Some parameters \<Rightarrow>
                        decode_predictor h parameters (vec_bytes output) (vec_capacity output) final index b
                    | None \<Rightarrow> Inr (output, b)) (\<lambda>(output, b).
            decode_stages h encoded count (Suc index) stages (Some output) b)))"

definition decode_stream :: "host \<Rightarrow> layout \<Rightarrow> decode_request \<Rightarrow> decode_error + decoded_stream" where
  "decode_stream h w request =
     (if is_cancelled h 0 then Inl (for_code CancelledCode None)
      else let encoded = byte_slice_bytes (req_encoded request); limits = req_limits request;
               plan = req_plan request; input_len = length encoded; filter_count = plan_len plan
        in if input_len > max_input_bytes limits
           then Inl (resource_error InputBytes (max_input_bytes limits) 0 input_len None)
           else if filter_count > max_filters limits
           then Inl (resource_error FilterCount (max_filters limits) 0 filter_count None)
           else and_then (validate_retained_heap_limit w plan (max_filters limits)) (\<lambda>plan_bytes.
             let schedule = profile_fuel_schedule (req_profile request);
                 b = budget_new limits schedule 1
             in and_then (if filter_count = 0
                          then and_then (charge_setup h None b) (decode_identity h encoded)
                          else and_then (decode_stages h encoded filter_count 0 (plan_stages plan) None b)
                                 (\<lambda>(current, b). and_then (ok_or current (for_code InternalState None))
                                    (\<lambda>decoded. Inr (decoded, b)))) (\<lambda>(decoded, b).
                Inr \<lparr>ds_bytes = vec_bytes decoded,
                     ds_attestation =
                       \<lparr>at_snapshot = req_snapshot request,
                        at_source_identity = snapshot_identity (req_snapshot request),
                        at_owner = req_owner request, at_dictionary_span = req_dictionary_span request,
                        at_encoded_span = req_encoded_span request, at_encoded = req_encoded request,
                        at_plan = plan, at_profile = req_profile request, at_limits = limits,
                        at_fuel_schedule = schedule, at_fuel_consumed = fuel_consumed b,
                        at_cumulative_output_bytes = cumulative_output_bytes b,
                        at_peak_retained_capacity_bytes = peak_retained_capacity_bytes b,
                        at_plan_retained_heap_bytes = plan_bytes,
                        at_decoded_length = length (vec_bytes decoded)\<rparr>\<rparr>)))"

section \<open>What the pipeline computes\<close>

fun layer_reference :: "stream_filter \<Rightarrow> nat \<Rightarrow> u8 list \<Rightarrow> decode_error + u8 list" where
  "layer_reference FlateDecode = flate_reference"
| "layer_reference AsciiHexDecode = hex_reference"
| "layer_reference Ascii85Decode = ascii85_reference"
| "layer_reference RunLengthDecode = run_length_reference"

definition stage_reference :: "filter_stage \<Rightarrow> nat \<Rightarrow> u8 list \<Rightarrow> decode_error + u8 list" where
  "stage_reference stage index input =
     and_then (layer_reference (stage_filter stage) index input) (\<lambda>out.
       case stage_predictor stage of None \<Rightarrow> Inr out | Some p \<Rightarrow> predictor_reference p index out)"

fun stages_reference :: "nat \<Rightarrow> filter_stage list \<Rightarrow> u8 list \<Rightarrow> decode_error + u8 list" where
  "stages_reference index [] input = Inr input"
| "stages_reference index (stage # stages) input =
     and_then (stage_reference stage index input) (stages_reference (Suc index) stages)"

lemma decode_layer_is_layer: "filter_layer (\<lambda>h. decode_layer h flt) (layer_reference flt)"
  by (cases flt)
    (simp_all add: flate.filter_layer_axioms ascii_hex.filter_layer_axioms ascii85.filter_layer_axioms
      run_length.filter_layer_axioms)

definition budget_moves :: "decode_budget \<Rightarrow> decode_budget \<Rightarrow> bool" where
  "budget_moves b b' \<longleftrightarrow>
     budget_ok b' \<and> b_limits b' = b_limits b \<and> fuel_consumed b \<le> fuel_consumed b' \<and>
     cumulative_output_bytes b \<le> cumulative_output_bytes b' \<and>
     peak_retained_capacity_bytes b \<le> peak_retained_capacity_bytes b'"

lemma budget_moves_trans: "budget_moves a b \<Longrightarrow> budget_moves b c \<Longrightarrow> budget_moves a c"
  by (simp add: budget_moves_def)

definition output_ok :: "bool \<Rightarrow> decode_limits \<Rightarrow> vec \<Rightarrow> bool" where
  "output_ok final l v \<longleftrightarrow>
     length (vec_bytes v) \<le> max_layer_output_bytes l \<and> vec_capacity v \<le> max_retained_capacity_bytes l \<and>
     (final \<longrightarrow> length (vec_bytes v) \<le> max_final_output_bytes l)"

lemma layer_done_moves:
  assumes "layer_done incap final b v b'" "budget_ok b"
  shows "budget_moves b b'" "output_ok final (b_limits b) v"
  using assms by (auto simp: layer_done_def budget_moves_def output_ok_def budget_ok_def)

lemma charge_setup_moves:
  "charge_setup h idx b = Inr b' \<Longrightarrow> budget_ok b \<Longrightarrow> budget_moves b b'"
  using charge_fuel_Inr [of h 1 idx b b'] by (simp add: charge_setup_def budget_moves_def)

lemma charge_setup_Inl: "charge_setup h idx b = Inl e \<Longrightarrow> budget_ok b \<Longrightarrow> is_host_error e"
  using charge_fuel_Inl(1) [of h 1 idx b e] by (simp add: charge_setup_def)

lemma stage_predictor_ok: "stage_ok s \<Longrightarrow> stage_predictor s = Some p \<Longrightarrow> predictor_ok p"
  by (auto simp: stage_ok_def stage_predictor_def split: filter_decode_parameters.splits if_splits)

section \<open>Soundness of a stage\<close>

definition run_stage ::
  "host \<Rightarrow> filter_stage \<Rightarrow> u8 list \<Rightarrow> nat \<Rightarrow> bool \<Rightarrow> nat \<Rightarrow> decode_budget \<Rightarrow> decode_error + (vec \<times> decode_budget)" where
  "run_stage h stage input incap final index b =
     and_then (decode_layer h (stage_filter stage) input incap (final \<and> stage_predictor stage = None) index b)
       (\<lambda>(output, b). case stage_predictor stage of
          Some parameters \<Rightarrow> decode_predictor h parameters (vec_bytes output) (vec_capacity output) final index b
        | None \<Rightarrow> Inr (output, b))"

lemma run_stage_Inr:
  assumes h: "host_ok h" and s: "stage_ok stage" and b: "budget_ok b"
    and input: "length input \<le> u64_max" "incap \<le> max_retained_capacity_bytes (b_limits b)"
    and run: "run_stage h stage input incap final index b = Inr (v, b')"
  shows "budget_moves b b' \<and> output_ok final (b_limits b) v \<and> stage_reference stage index input = Inr (vec_bytes v)"
proof -
  obtain v1 b1 where l: "decode_layer h (stage_filter stage) input incap (final \<and> stage_predictor stage = None) index b = Inr (v1, b1)"
    and p: "(case stage_predictor stage of
        Some parameters \<Rightarrow> decode_predictor h parameters (vec_bytes v1) (vec_capacity v1) final index b1
      | None \<Rightarrow> Inr (v1, b1)) = Inr (v, b')"
    using run by (auto simp: run_stage_def and_then_Inr_iff)
  note layer = filter_layer.layer_accounts [OF decode_layer_is_layer h b input(2,1) l]
  note m1 = layer_done_moves [OF conjunct1 [OF layer] b]
  show ?thesis
  proof (cases "stage_predictor stage")
    case None
    then show ?thesis using p m1 layer by (simp add: stage_reference_def)
  next
    case (Some pp)
    have b1: "budget_ok b1" "b_limits b1 = b_limits b" using m1(1) by (simp_all add: budget_moves_def)
    have "length (vec_bytes v1) \<le> u64_max"
      using m1(2) b by (auto simp: output_ok_def budget_ok_def decode_limits_ok_def)
    moreover have "vec_capacity v1 \<le> max_retained_capacity_bytes (b_limits b1)"
      using m1(2) b1 by (simp add: output_ok_def)
    moreover have "decode_predictor h pp (vec_bytes v1) (vec_capacity v1) final index b1 = Inr (v, b')" using p Some by simp
    ultimately have pred: "layer_done (vec_capacity v1) final b1 v b'" "predictor_reference pp index (vec_bytes v1) = Inr (vec_bytes v)"
      using filter_layer.layer_accounts [OF predictor_layer [OF stage_predictor_ok [OF s Some]] h b1(1)] by blast+
    from layer_done_moves [OF pred(1) b1(1)] show ?thesis
      using m1(1) layer pred(2) Some b1 budget_moves_trans by (auto simp: stage_reference_def)
  qed
qed

lemma run_stage_Inl:
  assumes h: "host_ok h" and s: "stage_ok stage" and b: "budget_ok b"
    and input: "length input \<le> u64_max" "incap \<le> max_retained_capacity_bytes (b_limits b)"
    and run: "run_stage h stage input incap final index b = Inl e"
  shows "is_host_error e \<or> stage_reference stage index input = Inl e"
proof (cases "decode_layer h (stage_filter stage) input incap (final \<and> stage_predictor stage = None) index b")
  case (Inl e')
  then show ?thesis
    using filter_layer.layer_errors [OF decode_layer_is_layer h b input(2,1) Inl] run
    by (auto simp: run_stage_def stage_reference_def)
next
  case (Inr vb)
  obtain v1 b1 where vb: "vb = (v1, b1)" by (cases vb)
  note l = Inr [unfolded vb]
  note layer = filter_layer.layer_accounts [OF decode_layer_is_layer h b input(2,1) l]
  note m1 = layer_done_moves [OF conjunct1 [OF layer] b]
  obtain pp where pp: "stage_predictor stage = Some pp" "decode_predictor h pp (vec_bytes v1) (vec_capacity v1) final index b1 = Inl e"
    using run l by (auto simp: run_stage_def split: option.splits)
  have b1: "budget_ok b1" "b_limits b1 = b_limits b" using m1(1) by (simp_all add: budget_moves_def)
  have "length (vec_bytes v1) \<le> u64_max"
    using m1(2) b by (auto simp: output_ok_def budget_ok_def decode_limits_ok_def)
  moreover have "vec_capacity v1 \<le> max_retained_capacity_bytes (b_limits b1)"
    using m1(2) b1 by (simp add: output_ok_def)
  ultimately have "is_host_error e \<or> predictor_reference pp index (vec_bytes v1) = Inl e"
    using filter_layer.layer_errors [OF predictor_layer [OF stage_predictor_ok [OF s pp(1)]] h b1(1)] pp(2) by blast
  then show ?thesis using layer pp(1) by (auto simp: stage_reference_def)
qed

section \<open>Soundness of the pipeline\<close>

definition current_bytes :: "u8 list \<Rightarrow> vec option \<Rightarrow> u8 list" where
  "current_bytes encoded current = (case current of Some v \<Rightarrow> vec_bytes v | None \<Rightarrow> encoded)"

definition current_capacity :: "vec option \<Rightarrow> nat" where
  "current_capacity current = (case current of Some v \<Rightarrow> vec_capacity v | None \<Rightarrow> 0)"

lemma current_simps [simp]:
  "current_bytes e (Some v) = vec_bytes v" "current_bytes e None = e"
  "current_capacity (Some v) = vec_capacity v" "current_capacity None = 0"
  by (simp_all add: current_bytes_def current_capacity_def)

lemma decode_stages_step:
  "decode_stages h encoded count index (stage # stages) current b =
     and_then (charge_setup h (Some index) b) (\<lambda>b.
     and_then (run_stage h stage (current_bytes encoded current) (current_capacity current) (index + 1 = count) index b)
       (\<lambda>(output, b). decode_stages h encoded count (Suc index) stages (Some output) b))"
  by (cases current) (simp_all add: run_stage_def and_then_assoc split_def Let_def)

declare decode_stages.simps(2) [simp del]

lemma decode_stages_Inr:
  assumes h: "host_ok h"
  shows "\<forall>s \<in> set stages. stage_ok s \<Longrightarrow> count = index + length stages \<Longrightarrow> budget_ok b \<Longrightarrow>
    length (current_bytes encoded current) \<le> u64_max \<Longrightarrow>
    current_capacity current \<le> max_retained_capacity_bytes (b_limits b) \<Longrightarrow>
    decode_stages h encoded count index stages current b = Inr (current', b') \<Longrightarrow>
    (if stages = [] then current' = current \<and> b' = b
     else \<exists>v. current' = Some v \<and> budget_moves b b' \<and> output_ok True (b_limits b) v \<and>
       stages_reference index stages (current_bytes encoded current) = Inr (vec_bytes v))"
proof (induction stages arbitrary: index current b)
  case (Cons s ss)
  obtain b1 v b2 where st: "charge_setup h (Some index) b = Inr b1"
      "run_stage h s (current_bytes encoded current) (current_capacity current) (index + 1 = count) index b1 = Inr (v, b2)"
      "decode_stages h encoded count (Suc index) ss (Some v) b2 = Inr (current', b')"
    using Cons.prems(6) by (auto simp: decode_stages_step and_then_Inr_iff)
  note m1 = charge_setup_moves [OF st(1) Cons.prems(3)]
  then have b1: "budget_ok b1" "b_limits b1 = b_limits b" by (simp_all add: budget_moves_def)
  have s: "stage_ok s" using Cons.prems(1) by simp
  have r: "budget_moves b1 b2 \<and> output_ok (index + 1 = count) (b_limits b1) v \<and>
      stage_reference s index (current_bytes encoded current) = Inr (vec_bytes v)"
    by (rule run_stage_Inr [OF h s b1(1) Cons.prems(4) _ st(2)]) (use Cons.prems(5) b1 in simp)
  then have b2: "budget_ok b2" "b_limits b2 = b_limits b" "budget_moves b b2"
    using b1 budget_moves_trans [OF m1] by (auto simp: budget_moves_def)
  show ?case
  proof (cases "ss = []")
    case True
    then show ?thesis using st(3) r b1 b2 Cons.prems(2) by auto
  next
    case False
    have "(if ss = [] then current' = Some v \<and> b' = b2
      else \<exists>v'. current' = Some v' \<and> budget_moves b2 b' \<and> output_ok True (b_limits b2) v' \<and>
        stages_reference (Suc index) ss (current_bytes encoded (Some v)) = Inr (vec_bytes v'))"
    proof (rule Cons.IH [OF _ _ b2(1) _ _ st(3)])
      show "\<forall>s \<in> set ss. stage_ok s" "count = Suc index + length ss" using Cons.prems(1,2) by simp_all
      show "length (current_bytes encoded (Some v)) \<le> u64_max"
        using r b2 by (auto simp: output_ok_def budget_moves_def budget_ok_def decode_limits_ok_def)
      show "current_capacity (Some v) \<le> max_retained_capacity_bytes (b_limits b2)"
        using r b1 b2 by (simp add: output_ok_def)
    qed
    then show ?thesis using False r b2 budget_moves_trans [OF b2(3)] by auto
  qed
qed simp

lemma decode_stages_Inl:
  assumes h: "host_ok h"
  shows "\<forall>s \<in> set stages. stage_ok s \<Longrightarrow> count = index + length stages \<Longrightarrow> budget_ok b \<Longrightarrow>
    length (current_bytes encoded current) \<le> u64_max \<Longrightarrow>
    current_capacity current \<le> max_retained_capacity_bytes (b_limits b) \<Longrightarrow>
    decode_stages h encoded count index stages current b = Inl e \<Longrightarrow>
    is_host_error e \<or> stages_reference index stages (current_bytes encoded current) = Inl e"
proof (induction stages arbitrary: index current b)
  case (Cons s ss)
  have s: "stage_ok s" using Cons.prems(1) by simp
  show ?case
  proof (cases "charge_setup h (Some index) b")
    case (Inl e')
    then show ?thesis using Cons.prems(3,6) charge_setup_Inl [OF Inl] by (simp add: decode_stages_step)
  next
    case (Inr b1)
    note m1 = charge_setup_moves [OF Inr Cons.prems(3)]
    then have b1: "budget_ok b1" "b_limits b1 = b_limits b" by (simp_all add: budget_moves_def)
    have cap: "current_capacity current \<le> max_retained_capacity_bytes (b_limits b1)" using Cons.prems(5) b1 by simp
    show ?thesis
    proof (cases "run_stage h s (current_bytes encoded current) (current_capacity current) (index + 1 = count) index b1")
      case (Inl e')
      then show ?thesis
        using Cons.prems(6) run_stage_Inl [OF h s b1(1) Cons.prems(4) cap Inl] \<open>charge_setup h (Some index) b = Inr b1\<close>
        by (auto simp: decode_stages_step)
    next
      case (Inr vb)
      obtain v b2 where vb: "vb = (v, b2)" by (cases vb)
      note r = run_stage_Inr [OF h s b1(1) Cons.prems(4) cap Inr [unfolded vb]]
      have b2: "budget_ok b2" "b_limits b2 = b_limits b" using r b1 by (auto simp: budget_moves_def)
      have "is_host_error e \<or> stages_reference (Suc index) ss (current_bytes encoded (Some v)) = Inl e"
      proof (rule Cons.IH [OF _ _ b2(1)])
        show "\<forall>s \<in> set ss. stage_ok s" "count = Suc index + length ss" using Cons.prems(1,2) by simp_all
        show "length (current_bytes encoded (Some v)) \<le> u64_max"
          using r b2 by (auto simp: output_ok_def budget_moves_def budget_ok_def decode_limits_ok_def)
        show "current_capacity (Some v) \<le> max_retained_capacity_bytes (b_limits b2)"
          using r b1 b2 by (simp add: output_ok_def)
        show "decode_stages h encoded count (Suc index) ss (Some v) b2 = Inl e"
          using Cons.prems(6) Inr vb \<open>charge_setup h (Some index) b = Inr b1\<close> by (simp add: decode_stages_step)
      qed
      then show ?thesis using r by auto
    qed
  qed
qed simp

lemma budget_new_ok: "decode_limits_ok l \<Longrightarrow> budget_ok (budget_new l sch k)"
  by (simp add: budget_ok_def budget_new_def decode_limits_ok_def)

lemma decode_identity_Inr:
  assumes "host_ok h" "budget_ok b" "decode_identity h input b = Inr (v, b')"
  shows "budget_moves b b' \<and> output_ok True (b_limits b) v \<and> vec_bytes v = input"
  using layer_of_sim(1) [OF decode_identity_sim [OF assms(1,2)], of input "length input" v b'] assms(2,3)
    layer_done_moves [of 0 True b v b']
  by (auto simp: decode_identity_def)

lemma decode_identity_Inl: "host_ok h \<Longrightarrow> budget_ok b \<Longrightarrow> decode_identity h input b = Inl e \<Longrightarrow> is_host_error e"
  using layer_of_sim(2) [OF decode_identity_sim, of h b input "length input" e] by (auto simp: decode_identity_def)

definition stream_result :: "decode_request \<Rightarrow> decode_error + u8 list" where
  "stream_result request =
     stages_reference 0 (plan_stages (req_plan request)) (byte_slice_bytes (req_encoded request))"

definition attested :: "decode_request \<Rightarrow> decoded_stream \<Rightarrow> bool" where
  "attested request s \<longleftrightarrow>
     (let a = ds_attestation s; l = req_limits request in
      at_snapshot a = req_snapshot request \<and> at_owner a = req_owner request \<and>
      at_encoded a = req_encoded request \<and> at_plan a = req_plan request \<and> at_limits a = l \<and>
      at_decoded_length a = length (ds_bytes s) \<and> length (ds_bytes s) \<le> max_final_output_bytes l \<and>
      at_fuel_consumed a \<le> max_fuel l \<and> at_cumulative_output_bytes a \<le> max_total_output_bytes l \<and>
      length (byte_slice_bytes (req_encoded request)) \<le> max_input_bytes l \<and>
      at_peak_retained_capacity_bytes a \<le> max_retained_capacity_bytes l)"

lemma decode_stream_run:
  assumes "host_ok h" "decode_limits_ok (req_limits request)" "plan_ok (req_plan request)"
    and "length (byte_slice_bytes (req_encoded request)) \<le> max_input_bytes (req_limits request)"
  defines "b \<equiv> budget_new (req_limits request) (profile_fuel_schedule (req_profile request)) 1"
    and "encoded \<equiv> byte_slice_bytes (req_encoded request)" and "plan \<equiv> req_plan request"
  defines "r \<equiv> if plan_len plan = 0 then and_then (charge_setup h None b) (decode_identity h encoded)
      else and_then (decode_stages h encoded (plan_len plan) 0 (plan_stages plan) None b)
        (\<lambda>(current, b). and_then (ok_or current (for_code InternalState None)) (\<lambda>decoded. Inr (decoded, b)))"
  shows "r = Inr (v, b') \<Longrightarrow> budget_moves b b' \<and> output_ok True (b_limits b) v \<and> stream_result request = Inr (vec_bytes v)"
    "r = Inl e \<Longrightarrow> is_host_error e \<or> stream_result request = Inl e"
proof -
  have b: "budget_ok b" "b_limits b = req_limits request" using assms(2) by (simp_all add: b_def budget_new_ok) (simp add: budget_new_def)
  have len: "plan_len plan = length (plan_stages plan)" using assms(3) by (simp add: plan_len_def plan_ok_def plan_def)
  have stages: "\<forall>s \<in> set (plan_stages plan). stage_ok s" using assms(3) by (simp add: plan_ok_def plan_def)
  have enc: "length (current_bytes encoded None) \<le> u64_max"
    using assms(2,4) by (simp add: encoded_def decode_limits_ok_def)
  note identity = decode_identity_Inr [OF assms(1)] and paid = charge_setup_moves [OF _ b(1)]
  show "budget_moves b b' \<and> output_ok True (b_limits b) v \<and> stream_result request = Inr (vec_bytes v)"
    if r: "r = Inr (v, b')"
  proof (cases "plan_stages plan = []")
    case True
    then obtain b1 where "charge_setup h None b = Inr b1" "decode_identity h encoded b1 = Inr (v, b')"
      using r len by (auto simp: r_def and_then_Inr_iff)
    then show ?thesis
      using identity [of b1 encoded v b'] paid [of h None b1] True budget_moves_trans
      by (auto simp: stream_result_def budget_moves_def plan_def encoded_def)
  next
    case False
    then have "decode_stages h encoded (plan_len plan) 0 (plan_stages plan) None b = Inr (Some v, b')"
      using r len by (auto simp: r_def and_then_Inr_iff ok_or_Inr_iff)
    with decode_stages_Inr [OF assms(1) stages _ b(1) enc _ this] False len show ?thesis
      by (auto simp: stream_result_def plan_def encoded_def)
  qed
  show "is_host_error e \<or> stream_result request = Inl e" if r: "r = Inl e"
  proof (cases "plan_stages plan = []")
    case True
    show ?thesis
    proof (cases "charge_setup h None b")
      case (Inl e')
      then show ?thesis using r True len charge_setup_Inl [OF Inl b(1)] by (simp add: r_def)
    next
      case (Inr b1)
      then have "budget_ok b1" using paid by (auto simp: budget_moves_def)
      then show ?thesis using r True len Inr decode_identity_Inl [OF assms(1)] by (simp add: r_def)
    qed
  next
    case False
    then consider "decode_stages h encoded (plan_len plan) 0 (plan_stages plan) None b = Inl e"
      | b1 where "decode_stages h encoded (plan_len plan) 0 (plan_stages plan) None b = Inr (None, b1)"
      using r len by (auto simp: r_def and_then_Inl_iff ok_or_def split: option.splits)
    then show ?thesis
    proof cases
      case 1
      with decode_stages_Inl [OF assms(1) stages _ b(1) enc _ 1] len show ?thesis
        by (auto simp: stream_result_def plan_def encoded_def)
    next
      case 2
      with decode_stages_Inr [OF assms(1) stages _ b(1) enc _ 2] False len show ?thesis by auto
    qed
  qed
qed


lemma decode_stream_Inr:
  assumes "host_ok h" "decode_limits_ok (req_limits request)" "plan_ok (req_plan request)"
    and "decode_stream h w request = Inr s"
  shows "stream_result request = Inr (ds_bytes s)" "attested request s"
proof -
  let ?l = "req_limits request" and ?e = "byte_slice_bytes (req_encoded request)"
  have guard: "length ?e \<le> max_input_bytes ?l"
    using assms(4) by (auto simp: decode_stream_def Let_def split: if_splits)
  note run = decode_stream_run(1) [OF assms(1-3) guard]
  obtain v b' n where *: "stream_result request = Inr (vec_bytes v)"
      "budget_moves (budget_new ?l (profile_fuel_schedule (req_profile request)) 1) b'"
      "output_ok True ?l v" "ds_bytes s = vec_bytes v"
      "ds_attestation s = \<lparr>at_snapshot = req_snapshot request,
          at_source_identity = snapshot_identity (req_snapshot request),
          at_owner = req_owner request, at_dictionary_span = req_dictionary_span request,
          at_encoded_span = req_encoded_span request, at_encoded = req_encoded request,
          at_plan = req_plan request, at_profile = req_profile request, at_limits = ?l,
          at_fuel_schedule = profile_fuel_schedule (req_profile request),
          at_fuel_consumed = fuel_consumed b',
          at_cumulative_output_bytes = cumulative_output_bytes b',
          at_peak_retained_capacity_bytes = peak_retained_capacity_bytes b',
          at_plan_retained_heap_bytes = n, at_decoded_length = length (vec_bytes v)\<rparr>"
    using assms(4) run by (auto simp: decode_stream_def Let_def and_then_Inr_iff budget_new_def split: if_splits)
  show "stream_result request = Inr (ds_bytes s)" using * by simp
  show "attested request s"
    using *(2-5) guard by (auto simp: attested_def Let_def budget_moves_def budget_ok_def output_ok_def budget_new_def)
qed

lemma decode_stream_Inl:
  assumes "host_ok h" "decode_limits_ok (req_limits request)" "plan_ok (req_plan request)"
    and "decode_stream h w request = Inl e"
  shows "plan_fault e \<or> stream_result request = Inl e"
proof (cases "length (byte_slice_bytes (req_encoded request)) \<le> max_input_bytes (req_limits request)")
  case True
  note run = decode_stream_run(2) [OF assms(1-3) True]
  have "0 < max_filters (req_limits request)" "max_filters (req_limits request) \<le> hard_max_filters"
    using assms(2) by (simp_all add: decode_limits_ok_def)
  note heap = validate_heap_Inl [OF _ this]
  show ?thesis
    using assms(4) True run heap [of w "req_plan request" e]
    by (auto simp: decode_stream_def Let_def and_then_Inl_iff plan_fault_def split: if_splits)
next
  case False
  then show ?thesis using assms(4) by (auto simp: decode_stream_def Let_def plan_fault_def split: if_splits)
qed

lemma decoded_slice_whole:
  "attested request s \<Longrightarrow> decoded_slice s (stream_decoded_range s) = Some (ds_bytes s)"
  by (simp add: attested_def Let_def decoded_slice_def stream_decoded_range_def decoded_range_end_def)

lemma decoded_slice_nth:
  assumes "attested request s" "decoded_range_new start len = Some r"
  shows "decoded_slice s r = (if start + len \<le> length (ds_bytes s) then Some (take len (drop start (ds_bytes s))) else None)"
  using assms
  by (auto simp: attested_def Let_def decoded_slice_def decoded_range_new_def decoded_range_end_def split: if_splits)

end
