(* ===== verification/Filt_Complete.thy ===== *)
theory Filt_Complete
  imports Filt_Decode
begin

text \<open>
  Completeness of the filters: with a host that neither cancels nor refuses memory, and limits that
  leave room for a stated multiple of the input, a layer is never stopped by its budget, so it ends
  with the result of its reference decoder.  The multiples are the work and the output of each
  filter in the worst case.
\<close>

section \<open>The interface of a layer with a known cost\<close>

definition room :: "nat \<Rightarrow> nat \<Rightarrow> nat \<Rightarrow> bool \<Rightarrow> decode_budget \<Rightarrow> bool" where
  "room c n incap final b \<longleftrightarrow>
     (let l = b_limits b in
      fuel_consumed b + c \<le> max_fuel l \<and> n \<le> max_layer_output_bytes l \<and>
      cumulative_output_bytes b + n \<le> max_total_output_bytes l \<and>
      (final \<longrightarrow> n \<le> max_final_output_bytes l) \<and> incap + n \<le> max_retained_capacity_bytes l)"

lemma roomy_new: "roomy c n (output_buffer_new incap final idx hint b) \<longleftrightarrow> room c n incap final b"
  by (simp add: roomy_def room_def output_buffer_new_def)

locale bounded_layer = filter_layer layer reference
  for layer :: "host \<Rightarrow> u8 list \<Rightarrow> nat \<Rightarrow> bool \<Rightarrow> nat \<Rightarrow> decode_budget \<Rightarrow> decode_error + (vec \<times> decode_budget)"
    and reference :: "nat \<Rightarrow> u8 list \<Rightarrow> decode_error + u8 list" +
  fixes fuel_for :: "nat \<Rightarrow> nat" and output_for :: "nat \<Rightarrow> nat"
  assumes layer_enough:
    "\<lbrakk>host_ok h; generous h; budget_ok b; incap \<le> max_retained_capacity_bytes (b_limits b);
      length input \<le> u64_max; room (fuel_for (length input)) (output_for (length input)) incap final b;
      layer h input incap final idx b = Inl e\<rbrakk> \<Longrightarrow> reference idx input = Inl e"
begin

lemma layer_total:
  assumes "host_ok h" "generous h" "budget_ok b" "incap \<le> max_retained_capacity_bytes (b_limits b)"
    "length input \<le> u64_max" "room (fuel_for (length input)) (output_for (length input)) incap final b"
  shows "map_sum id (\<lambda>(v, _). vec_bytes v) (layer h input incap final idx b) = reference idx input"
  using layer_enough [OF assms] layer_accounts [OF assms(1,3,4,5)]
  by (cases "layer h input incap final idx b") auto

end

text \<open>A simulation of a loop gives the law: what stops the loop is then an error of the reference.\<close>

lemma enough_of_sim:
  assumes "simulates h c n (output_buffer_new incap final idx hint b) r (and_then p (\<lambda>out. Inr (x, out)))"
    and "generous h" "room c n incap final b"
    and "and_then r (\<lambda>(_, ob). Inr (finish ob)) = Inl e"
  shows "p = Inl e"
  using assms by (auto simp: simulates_def roomy_new and_then_Inl_iff split: prod.splits)

lemma enough_of_marked_sim:
  fixes final :: bool and idx :: "nat option" and hint :: nat
  assumes "\<And>ob. buf_ok ob \<Longrightarrow> simulates h c n ob (loop ob) (and_then p (\<lambda>(t, out). Inr (t, ob_bytes ob @ out)))"
    and "budget_ok b" "incap \<le> max_retained_capacity_bytes (b_limits b)"
    and "generous h" "room c n incap final b"
    and "and_then (loop (output_buffer_new incap final idx hint b))
      (\<lambda>(t, ob). if \<not> t then Inl e else Inr (finish ob)) = Inl e'"
  shows "and_then p (\<lambda>(t, out). if t then Inr out else Inl e) = Inl e'"
  using enough_of_sim [OF layer_of_marked_sim(1) [OF assms(1-3)] assms(4,5)] assms(6)
  unfolding finish_after_marker by blast

section \<open>Every filter has a known cost\<close>

interpretation ascii_hex_total: bounded_layer decode_ascii_hex hex_reference "\<lambda>n. 2 * n" "\<lambda>n. n"
proof (unfold_locales, goal_cases)
  case (1 h b incap input final idx e)
  from 1(7) enough_of_marked_sim [OF hex_loop_sim [OF 1(1)] 1(3,4,2,6)] show ?case
    by (simp add: decode_ascii_hex_def hex_reference_def Let_def)
qed

interpretation ascii85_total: bounded_layer decode_ascii85 ascii85_reference "\<lambda>n. 5 * n" "\<lambda>n. 4 * n"
proof (unfold_locales, goal_cases)
  case (1 h b incap input final idx e)
  have sim: "simulates h (5 * length input) (4 * length input) ob
      (ascii85_loop h idx (replicate 5 0) 0 False False input ob)
      (and_then (ascii85_ref idx [] False False input) (\<lambda>(t, out). Inr (t, ob_bytes ob @ out)))"
    if "buf_ok ob" for ob
    using ascii85_loop_sim [OF 1(1) that, of "replicate 5 0" 0] by simp
  from 1(7) enough_of_marked_sim [OF sim 1(3,4,2,6)] show ?case
    by (simp add: decode_ascii85_def ascii85_reference_def Let_def)
qed

interpretation run_length_total: bounded_layer decode_run_length run_length_reference "\<lambda>n. 129 * n" "\<lambda>n. 128 * n"
proof (unfold_locales, goal_cases)
  case (1 h b incap input final idx e)
  let ?ob = "output_buffer_new incap final (Some idx) (saturating_mul (length input) 128) b"
  have "simulates h (129 * length input) (128 * length input) ?ob (run_length_loop h idx input 0 ?ob)
      (and_then (run_length_reference idx input) (\<lambda>out. Inr ((), out)))"
    using run_length_loop_sim [OF 1(1) buf_ok_new [OF 1(3,4)], of 0 input final "Some idx"] 1(5)
    by (simp add: output_buffer_new_def)
  from enough_of_sim [OF this 1(2,6)] 1(7) show ?case by (simp add: decode_run_length_def)
qed

interpretation flate_total: bounded_layer decode_flate flate_reference
  "\<lambda>n. 54 + bit_fuel * (8 * n)" "\<lambda>n. bit_output * (8 * n)"
proof (unfold_locales, goal_cases)
  case (1 h b incap input final idx e)
  obtain x where "simulates h (54 + bit_fuel * (8 * length input)) (bit_output * (8 * length input))
      (output_buffer_new incap final (Some idx) (saturating_mul (length input) 4) b)
      (flate_run h idx (flate_new input) (output_buffer_new incap final (Some idx) (saturating_mul (length input) 4) b))
      (and_then (flate_reference idx input) (\<lambda>out. Inr (x, out)))"
    using flate_sim [OF 1(1,3,4)] by blast
  from enough_of_sim [OF this 1(2,6)] 1(7) show ?case unfolding decode_flate_def by simp
qed


lemma predictor_bounded:
  assumes p: "predictor_ok p"
  shows "bounded_layer (\<lambda>h. decode_predictor h p) (predictor_reference p) (\<lambda>n. 1 + 42 * n) (\<lambda>n. n)"
proof (intro bounded_layer.intro bounded_layer_axioms.intro predictor_layer [OF p], goal_cases)
  case (1 h b incap input final idx e)
  have less: "room (1 + 7 * length input) (length input) incap final b"
    using 1(6) by (auto simp: room_def Let_def)
  note tiff = enough_of_sim [OF decode_tiff_sim [OF 1(1) p 1(3,4)] 1(2,6)]
    and png = enough_of_sim [OF decode_png_sim [OF 1(1) p 1(3,4,5)] 1(2) less]
  from 1(7) tiff [where e = e] png [where e = e] show ?case
    by (auto simp: decode_predictor_def predictor_reference_def decode_tiff_def decode_png_def Let_def
        split: if_splits)
qed

section \<open>Completeness of the pipeline\<close>

fun layer_fuel :: "stream_filter \<Rightarrow> nat \<Rightarrow> nat" where
  "layer_fuel FlateDecode = (\<lambda>n. 54 + bit_fuel * (8 * n))"
| "layer_fuel AsciiHexDecode = (\<lambda>n. 2 * n)"
| "layer_fuel Ascii85Decode = (\<lambda>n. 5 * n)"
| "layer_fuel RunLengthDecode = (\<lambda>n. 129 * n)"

fun layer_growth :: "stream_filter \<Rightarrow> nat \<Rightarrow> nat" where
  "layer_growth FlateDecode = (\<lambda>n. bit_output * (8 * n))"
| "layer_growth AsciiHexDecode = (\<lambda>n. n)"
| "layer_growth Ascii85Decode = (\<lambda>n. 4 * n)"
| "layer_growth RunLengthDecode = (\<lambda>n. 128 * n)"

lemma decode_layer_bounded:
  "bounded_layer (\<lambda>h. decode_layer h flt) (layer_reference flt) (layer_fuel flt) (layer_growth flt)"
  by (cases flt)
    (simp_all add: flate_total.bounded_layer_axioms ascii_hex_total.bounded_layer_axioms ascii85_total.bounded_layer_axioms
      run_length_total.bounded_layer_axioms)

lemma charge_setup_room:
  assumes "generous h" "budget_ok b" "room (1 + c) n incap final b"
  shows "\<exists>b'. charge_setup h idx b = Inr b' \<and> budget_ok b' \<and> b_limits b' = b_limits b \<and> room c n incap final b'"
proof (cases "charge_setup h idx b")
  case (Inl e)
  then show ?thesis
    using charge_fuel_Inl(2) [of h 1 idx b e] assms by (auto simp: charge_setup_def room_def Let_def)
next
  case (Inr b')
  then show ?thesis
    using charge_fuel_Inr [of h 1 idx b b'] assms by (auto simp: charge_setup_def room_def Let_def)
qed

lemma single_stage_stream:
  assumes h: "host_ok h" "generous h" and l: "decode_limits_ok (req_limits request)"
    and plan: "plan_ok (req_plan request)" "plan_stages (req_plan request) = [without_parameters flt]"
    and heap: "validate_retained_heap_limit w (req_plan request) (max_filters (req_limits request)) = Inr heap"
  defines "n \<equiv> length (byte_slice_bytes (req_encoded request))"
  assumes room: "n \<le> max_input_bytes (req_limits request)"
      "1 + layer_fuel flt n \<le> max_fuel (req_limits request)"
      "layer_growth flt n \<le> max_final_output_bytes (req_limits request)"
  shows "map_sum id ds_bytes (decode_stream h w request) = stream_result request"
proof -
  let ?l = "req_limits request" and ?e = "byte_slice_bytes (req_encoded request)"
  let ?b = "budget_new ?l (profile_fuel_schedule (req_profile request)) 1"
  have b: "budget_ok ?b" "b_limits ?b = ?l" using budget_new_ok [OF l] by (simp_all add: budget_new_def)
  have none: "stage_predictor (without_parameters flt) = None"
    by (simp add: stage_predictor_def without_parameters_def)
  have len: "plan_len (req_plan request) = 1" using plan by (simp add: plan_len_def plan_ok_def)
  have few: "1 \<le> max_filters ?l" using l by (simp add: decode_limits_ok_def)
  have fits: "length ?e \<le> u64_max" using room(1) l by (simp add: n_def decode_limits_ok_def)
  have "room (1 + layer_fuel flt n) (layer_growth flt n) 0 True ?b"
    using room(2,3) l by (simp add: room_def Let_def budget_new_def decode_limits_ok_def)
  from charge_setup_room [OF h(2) b(1) this, of "Some 0"] obtain b1 where
    b1: "charge_setup h (Some 0) ?b = Inr b1" "budget_ok b1" "room (layer_fuel flt n) (layer_growth flt n) 0 True b1"
    by blast
  have "map_sum id (\<lambda>(v, _). vec_bytes v) (decode_layer h flt ?e 0 True 0 b1) = layer_reference flt 0 ?e"
    by (rule bounded_layer.layer_total [OF decode_layer_bounded h b1(2)])
      (use fits b1(3) in \<open>simp_all add: n_def\<close>)
  moreover have "stream_result request = layer_reference flt 0 ?e"
    using plan(2) none
    by (cases "layer_reference flt 0 ?e") (simp_all add: stream_result_def stage_reference_def)
  moreover have "\<not> is_cancelled h 0" using h(2) by (simp add: generous_def)
  ultimately show ?thesis
    using room(1) len few heap b1(1) none plan(2)
    by (cases "decode_layer h flt ?e 0 True 0 b1")
      (auto simp: decode_stream_def decode_stages.simps Let_def n_def ok_or_def)
qed

end
