(* ===== verification/Filt_Stored.thy ===== *)
theory Filt_Stored
  imports Filt_FlateRefine
begin

text \<open>
  The stored form of a zlib stream, as an encoder: any byte string, cut into blocks of at most 65535
  bytes, with its header and its checksum.  The reference decoder of \<open>Filt_Deflate\<close> inverts it.
\<close>

definition le16 :: "nat \<Rightarrow> u8 list" where
  "le16 n = [word_of_nat (n mod 256), word_of_nat (n div 256)]"

definition stored_block :: "bool \<Rightarrow> u8 list \<Rightarrow> u8 list" where
  "stored_block final xs = (if final then 1 else 0) # le16 (length xs) @ le16 (65535 - length xs) @ xs"

fun stored_blocks :: "u8 list list \<Rightarrow> u8 list" where
  "stored_blocks [] = []"
| "stored_blocks [xs] = stored_block True xs"
| "stored_blocks (xs # ys # rest) = stored_block False xs @ stored_blocks (ys # rest)"

definition adler_bytes :: "u8 list \<Rightarrow> u8 list" where
  "adler_bytes xs = (let v = or (push_bit 16 (snd (adler32 xs))) (fst (adler32 xs)) :: u32 in
     map ucast [drop_bit 24 v, drop_bit 16 v, drop_bit 8 v, v])"

definition zlib_store :: "u8 list list \<Rightarrow> u8 list" where
  "zlib_store chunks = 120 # 1 # stored_blocks chunks @ adler_bytes (concat chunks)"

section \<open>Bits of bytes\<close>

lemma bits_of_append: "bits_of (xs @ ys) = bits_of xs @ bits_of ys"
  by (simp add: bits_of_def)

lemma get_byte: "get_bits idx 8 (byte_bits x @ bs) = Inr (unat x, bs)"
  by (simp add: get_bits_def bits_value_byte)

lemma get_bytes_bits: "get_bytes idx (length xs) (bits_of xs @ bs) = Inr (xs, bs)"
  by (induction xs) (simp_all add: get_byte)

lemma get_le16:
  assumes "n < 65536"
  shows "get_bits idx 16 (bits_of (le16 n) @ bs) = Inr (n, bs)"
proof -
  have "unat (word_of_nat (n mod 256) :: u8) = n mod 256" "unat (word_of_nat (n div 256) :: u8) = n div 256"
    using assms by (simp_all add: unat_of_nat)
  then have "bits_value (byte_bits (word_of_nat (n mod 256)) @ byte_bits (word_of_nat (n div 256))) = n"
    using bits_value_byte [of "word_of_nat (n mod 256)"] bits_value_byte [of "word_of_nat (n div 256)"]
    by (simp add: bits_value_def horner_sum_append)
  then show ?thesis by (simp add: get_bits_def le16_def)
qed

lemma aligned_bits [simp]: "aligned (bits_of xs) = bits_of xs"
  by (simp add: aligned_def)

lemma stored_block_read:
  assumes "length xs \<le> 65535"
  shows "deflate_block idx w (bits_of (stored_block final xs) @ bits_of rest) out =
    Inr (final, bits_of rest, out @ xs)"
proof -
  let ?tail = "bits_of (le16 (length xs)) @ bits_of (le16 (65535 - length xs)) @ bits_of xs @ bits_of rest"
  have h: "byte_bits (if final then 1 else 0) = final # replicate 7 False"
  proof -
    have "byte_bits 1 = True # replicate 7 False" "byte_bits 0 = False # replicate 7 False" by code_simp+
    then show ?thesis by (cases final) simp_all
  qed
  have al: "aligned (replicate 5 False @ ?tail) = ?tail"
  proof -
    have "length (replicate 5 False @ ?tail) mod 8 = 5"
      using mod_mult_self2 [of 5 8 "length (le16 (length xs)) + length (le16 (65535 - length xs)) + length xs + length rest"]
      by (simp add: algebra_simps)
    then show ?thesis unfolding aligned_def by simp
  qed
  have one: "get_bits idx (Suc 0) (final # bs) = Inr (of_bool final, bs)" for bs
    by (simp add: get_bits_def bits_value_def)
  have two: "get_bits idx 2 (replicate 7 False @ bs) = Inr (0, replicate 5 False @ bs)" for bs
    by (simp add: get_bits_def bits_value_def numeral_eq_Suc)
  have "deflate_stored idx (replicate 5 False @ ?tail) out = Inr (bits_of rest, out @ xs)"
    unfolding deflate_stored_def al using assms
    by (simp add: get_le16 get_bytes_bits)
  moreover have "bits_of (stored_block final xs) @ bits_of rest = final # replicate 7 False @ ?tail"
    by (simp add: stored_block_def bits_of_append h)
  ultimately show ?thesis by (simp add: deflate_block_def one two)
qed

lemma stored_blocks_read:
  "chunks \<noteq> [] \<Longrightarrow> \<forall>c \<in> set chunks. length c \<le> 65535 \<Longrightarrow>
   deflate_blocks idx w (bits_of (stored_blocks chunks) @ bits_of rest) out = Inr (bits_of rest, out @ concat chunks)"
proof (induction chunks arbitrary: out rule: stored_blocks.induct)
  case (2 xs)
  then show ?case by (subst deflate_blocks.simps) (simp add: stored_block_read)
next
  case (3 xs ys more)
  have "deflate_block idx w (bits_of (stored_block False xs) @
      bits_of (stored_blocks (ys # more) @ rest)) out = Inr (False, bits_of (stored_blocks (ys # more) @ rest), out @ xs)"
    by (rule stored_block_read) (use 3 in simp)
  then show ?case using 3 by (subst deflate_blocks.simps) (simp add: bits_of_append)
qed simp

lemma adler_bytes_read:
  "let s = adler_bytes xs in from_be_bytes (s ! 0) (s ! 1) (s ! 2) (s ! 3) =
     or (push_bit 16 (snd (adler32 xs))) (fst (adler32 xs))"
  unfolding adler_bytes_def Let_def from_be_bytes_def
  by (rule bit_word_eqI) (auto simp: bit_simps)

lemma zlib_store_read:
  assumes "chunks \<noteq> []" "\<forall>c \<in> set chunks. length c \<le> 65535"
  shows "flate_reference idx (zlib_store chunks) = Inr (concat chunks)"
proof -
  have w: "zlib_window idx (zlib_store chunks) = Inr 32768"
    by (simp add: zlib_window_def zlib_store_def) 
  have l: "length (adler_bytes (concat chunks)) = 4" by (simp add: adler_bytes_def Let_def)
  have "get_bytes idx 4 (bits_of (adler_bytes (concat chunks))) = Inr (adler_bytes (concat chunks), [])"
    using get_bytes_bits [of idx "adler_bytes (concat chunks)" "[]"] l by simp
  moreover have "deflate_blocks idx 32768 (bits_of (drop 2 (zlib_store chunks))) [] =
      Inr (bits_of (adler_bytes (concat chunks)), concat chunks)"
    using stored_blocks_read [OF assms, of idx 32768 "adler_bytes (concat chunks)" "[]"]
    by (simp add: zlib_store_def bits_of_append)
  ultimately show ?thesis
    using w adler_bytes_read [of "concat chunks"] by (simp add: flate_reference_def Let_def)
qed

end
