(* ===== verification/Filt_Declared.thy ===== *)
theory Filt_Declared
  imports Filt_PlanSpec
begin

text \<open>
  The filters and parameters a stream dictionary declares, written from the PDF rules alone: the
  names of the filters, the four integer keys of a predictor dictionary with their default values,
  and the values that are accepted. The last section shows that the reading of
  \<open>pdf-rs/filters/src/model.rs\<close> (its loop over the entries, its slots, its defaults and its
  parameter constructor) is this one.
\<close>

section \<open>Names and parameters\<close>

fun filter_name :: "stream_filter \<Rightarrow> pdf_name" where
  "filter_name FlateDecode = ''FlateDecode''"
| "filter_name AsciiHexDecode = ''ASCIIHexDecode''"
| "filter_name Ascii85Decode = ''ASCII85Decode''"
| "filter_name RunLengthDecode = ''RunLengthDecode''"

definition filter_named :: "nat \<Rightarrow> pdf_name \<Rightarrow> decode_error + stream_filter" where
  "filter_named index name =
     (case find (\<lambda>f. filter_name f = name) [FlateDecode, AsciiHexDecode, Ascii85Decode, RunLengthDecode] of
        Some f \<Rightarrow> Inr f
      | None \<Rightarrow> Inl (for_code UnsupportedFilter (Some index)))"

definition plain_stage :: "stream_filter \<Rightarrow> filter_stage" where
  "plain_stage f = \<lparr>stage_filter = f, stage_parameters = NoParameters\<rparr>"

fun is_integer :: "syntax_object \<Rightarrow> bool" where
  "is_integer (SynInteger _) = True"
| "is_integer _ = False"

fun integer_of :: "syntax_object \<Rightarrow> int" where
  "integer_of (SynInteger v) = v"
| "integer_of _ = 0"

text \<open>A parameter dictionary is well formed when its keys are among the four known ones, no key
  occurs twice, and every value is an integer.\<close>

definition well_formed_parameters :: "pdf_dictionary \<Rightarrow> bool" where
  "well_formed_parameters d \<longleftrightarrow>
     distinct (map dict_entry_key d) \<and>
     list_all (\<lambda>e. dict_entry_key e \<in> set [''Columns'', ''BitsPerComponent'', ''Colors'', ''Predictor''] \<and>
       is_integer (dict_entry_value e)) d"

definition declared_integer :: "pdf_dictionary \<Rightarrow> pdf_name \<Rightarrow> int \<Rightarrow> int" where
  "declared_integer d key absent =
     (case find (\<lambda>e. dict_entry_key e = key) d of
        None \<Rightarrow> absent | Some e \<Rightarrow> integer_of (dict_entry_value e))"

definition declared_predictor :: "nat \<Rightarrow> pdf_dictionary \<Rightarrow> decode_error + filter_stage" where
  "declared_predictor index d =
     (let predictor = declared_integer d ''Predictor'' 1;
          colors = declared_integer d ''Colors'' 1;
          bits = declared_integer d ''BitsPerComponent'' 8;
          columns = declared_integer d ''Columns'' 1
      in if \<not> well_formed_parameters d \<or> predictor < 1 \<or> colors < 1 \<or> bits < 1 \<or> columns < 1
         then Inl (for_code InvalidDecodeParameters (Some index))
         else if 3 \<le> predictor \<and> predictor \<le> 9 \<or> bits \<notin> {1, 2, 4, 8, 16}
         then Inl (for_code UnsupportedPredictor (Some index))
         else if 2 ^ 32 \<le> colors \<or> 2 ^ 32 \<le> columns \<or> 2 ^ 64 \<le> colors * columns * bits + 7
         then Inl (for_code InvalidDecodeParameters (Some index))
         else Inr \<lparr>stage_filter = FlateDecode, stage_parameters = Predictor
                \<lparr>pp_predictor = predictor, pp_colors = nat colors,
                 pp_bits_per_component = nat bits, pp_columns = nat columns\<rparr>\<rparr>)"

section \<open>Stages\<close>

fun stage_from :: "nat \<Rightarrow> stream_filter \<Rightarrow> pdf_dictionary \<Rightarrow> decode_error + filter_stage" where
  "stage_from index f [] = Inr (plain_stage f)"
| "stage_from index FlateDecode d = declared_predictor index d"
| "stage_from index f d = Inl (for_code UnsupportedDecodeParameters (Some index))"

fun array_from :: "nat \<Rightarrow> (stream_filter \<times> syntax_object) list \<Rightarrow> decode_error + filter_stage list" where
  "array_from index [] = Inr []"
| "array_from index ((f, v) # rest) =
     and_then (case v of
                 SynNull \<Rightarrow> Inr (plain_stage f)
               | SynDictionary d \<Rightarrow> stage_from index f d
               | _ \<Rightarrow> Inl (for_code InvalidDecodeParameters (Some index))) (\<lambda>s.
     and_then (array_from (Suc index) rest) (\<lambda>ss. Inr (s # ss)))"

fun names_from :: "nat \<Rightarrow> syntax_object list \<Rightarrow> decode_error + stream_filter list" where
  "names_from index [] = Inr []"
| "names_from index (SynName name # vs) =
     and_then (filter_named index name) (\<lambda>f. and_then (names_from (Suc index) vs) (\<lambda>fs. Inr (f # fs)))"
| "names_from index (_ # vs) = Inl (for_code InvalidDecodeParameters (Some index))"

definition declared_plan :: "nat \<Rightarrow> pdf_dictionary \<Rightarrow> decode_error + filter_stage list" where
  "declared_plan limit d =
     (let values = (\<lambda>key. map dict_entry_value (filter (\<lambda>e. dict_entry_key e = key) d));
          bad = Inl (for_code InvalidDecodeParameters None)
      in case (values ''Filter'', values ''DecodeParms'') of
           ([], []) \<Rightarrow> Inr []
         | ([SynName name], ps) \<Rightarrow>
             if 1 < length ps then bad
             else if limit = 0 then Inl (resource_error FilterCount limit 0 1 None)
             else and_then (filter_named 0 name) (\<lambda>f.
               case ps of
                 [] \<Rightarrow> Inr [plain_stage f]
               | SynNull # _ \<Rightarrow> Inr [plain_stage f]
               | SynDictionary p # _ \<Rightarrow> and_then (stage_from 0 f p) (\<lambda>s. Inr [s])
               | _ \<Rightarrow> bad)
         | ([SynArray vs], ps) \<Rightarrow>
             if 1 < length ps \<or> vs = [] then bad
             else if limit < length vs then Inl (resource_error FilterCount limit 0 (length vs) None)
             else and_then (names_from 0 (map located_value vs)) (\<lambda>fs.
               case ps of
                 [] \<Rightarrow> Inr (map plain_stage fs)
               | SynNull # _ \<Rightarrow> Inr (map plain_stage fs)
               | SynArray qs # _ \<Rightarrow>
                   if length qs = length vs then array_from 0 (zip fs (map located_value qs)) else bad
               | _ \<Rightarrow> bad)
         | _ \<Rightarrow> bad)"

section \<open>The code's reading is the declared one\<close>

lemma canonical_is_named: "canonical_pdf_filter name index = filter_named index name"
  by (auto simp: canonical_pdf_filter_def filter_named_def)

lemma without_parameters_is_plain: "without_parameters f = plain_stage f"
  by (simp add: without_parameters_def plain_stage_def)

text \<open>The slots after a prefix of the entries are the declared values of that prefix.\<close>

definition slot_for :: "pdf_name \<Rightarrow> pdf_dictionary \<Rightarrow> int option" where
  "slot_for key d = map_option (\<lambda>e. integer_of (dict_entry_value e)) (find (\<lambda>e. dict_entry_key e = key) d)"

definition slots_for :: "pdf_dictionary \<Rightarrow> parameter_slots" where
  "slots_for d = \<lparr>slot_predictor = slot_for ''Predictor'' d, slot_colors = slot_for ''Colors'' d,
     slot_bits_per_component = slot_for ''BitsPerComponent'' d, slot_columns = slot_for ''Columns'' d\<rparr>"

lemma find_append: "find P (xs @ ys) = (case find P xs of None \<Rightarrow> find P ys | Some x \<Rightarrow> Some x)"
  by (induction xs) auto

lemma slot_for_snoc:
  "dict_entry_key e \<noteq> key \<Longrightarrow> slot_for key (d @ [e]) = slot_for key d"
  "dict_entry_key e = key \<Longrightarrow> slot_for key d = None \<Longrightarrow>
     slot_for key (d @ [e]) = Some (integer_of (dict_entry_value e))"
  by (auto simp: slot_for_def find_append split: option.splits)

lemma slot_for_None_iff: "slot_for key d = None \<longleftrightarrow> key \<notin> dict_entry_key ` set d"
  by (auto simp: slot_for_def find_None_iff)

lemma well_formed_snoc:
  "well_formed_parameters (d @ [e]) \<longleftrightarrow>
     well_formed_parameters d \<and> slot_for (dict_entry_key e) d = None \<and> is_integer (dict_entry_value e) \<and>
     dict_entry_key e \<in> {''Predictor'', ''Colors'', ''BitsPerComponent'', ''Columns''}"
  by (auto simp: well_formed_parameters_def slot_for_None_iff)

lemma put_integer:
  "(case x of SynInteger v \<Rightarrow> Inr (f v) | _ \<Rightarrow> Inl err) =
     (if is_integer x then Inr (f (integer_of x)) else Inl err)"
  by (cases x) auto

lemma fill_slot_declared:
  assumes "well_formed_parameters d"
  shows "fill_slot index e (slots_for d) =
    (if well_formed_parameters (d @ [e]) then Inr (slots_for (d @ [e]))
     else Inl (for_code InvalidDecodeParameters (Some index)))"
proof -
  consider "dict_entry_key e = ''Predictor''" | "dict_entry_key e = ''Colors''"
    | "dict_entry_key e = ''BitsPerComponent''" | "dict_entry_key e = ''Columns''"
    | "dict_entry_key e \<notin> {''Predictor'', ''Colors'', ''BitsPerComponent'', ''Columns''}"
    by blast
  then show ?thesis
    by cases
      (simp_all add: assms fill_slot_def well_formed_snoc put_integer slots_for_def slot_for_snoc Let_def)
qed

lemma declared_slots_declared:
  "well_formed_parameters d \<Longrightarrow> declared_slots index es (slots_for d) =
    (if well_formed_parameters (d @ es) then Inr (slots_for (d @ es))
     else Inl (for_code InvalidDecodeParameters (Some index)))"
proof (induction es arbitrary: d)
  case (Cons e es)
  show ?case
  proof (cases "well_formed_parameters (d @ [e])")
    case True
    then show ?thesis using Cons.IH [OF True] fill_slot_declared [OF Cons.prems] by simp
  next
    case False
    then have "\<not> well_formed_parameters (d @ e # es)"
      by (auto simp: well_formed_parameters_def)
    with False show ?thesis using fill_slot_declared [OF Cons.prems] by simp
  qed
qed simp

lemma unwrap_slot: "unwrap_or (slot_for key d) v = declared_integer d key v"
  by (simp add: unwrap_or_def slot_for_def declared_integer_def split: option.splits)

lemma row_bits_fit_nat:
  fixes colors columns bits :: nat
  assumes "0 < bits"
  shows "Option.bind (Option.bind (checked_mul colors columns) (\<lambda>v. checked_mul v bits))
      (\<lambda>v. checked_add v 7) = None \<longleftrightarrow> 2 ^ 64 \<le> colors * columns * bits + 7"
proof -
  have "colors * columns * 1 \<le> colors * columns * bits" by (rule mult_le_mono2) (use assms in simp)
  then have "colors * columns \<le> u64_max" if "colors * columns * bits \<le> u64_max" using that by linarith
  then show ?thesis by (auto simp: checked_mul_def checked_add_def) (auto simp: u64_max_def)
qed

lemma row_bits_fit:
  assumes "0 < colors" "0 < columns" "0 < bits"
  shows "Option.bind (Option.bind (checked_mul (nat colors) (nat columns)) (\<lambda>v. checked_mul v (nat bits)))
      (\<lambda>v. checked_add v 7) = None \<longleftrightarrow> 2 ^ 64 \<le> colors * columns * bits + 7"
proof -
  obtain c k b where nats: "colors = int c" "columns = int k" "bits = int b"
    using assms by (metis less_imp_le nonneg_int_cases)
  have "2 ^ 64 \<le> int c * int k * int b + 7 \<longleftrightarrow> int (2 ^ 64) \<le> int (c * k * b + 7)" by simp
  then show ?thesis
    using row_bits_fit_nat [of b c k] assms unfolding nats nat_int of_nat_le_iff by simp
qed

lemma parameters_declared:
  "(case predictor_parameters_new predictor colors bits columns of
      Inl e \<Rightarrow> Inl (for_code (err_code e) (Some index))
    | Inr parameters \<Rightarrow> Inr (f parameters)) =
   (if predictor < 1 \<or> colors < 1 \<or> bits < 1 \<or> columns < 1
    then Inl (for_code InvalidDecodeParameters (Some index))
    else if 3 \<le> predictor \<and> predictor \<le> 9 \<or> bits \<notin> {1, 2, 4, 8, 16}
    then Inl (for_code UnsupportedPredictor (Some index))
    else if 2 ^ 32 \<le> colors \<or> 2 ^ 32 \<le> columns \<or> 2 ^ 64 \<le> colors * columns * bits + 7
    then Inl (for_code InvalidDecodeParameters (Some index))
    else Inr (f \<lparr>pp_predictor = predictor, pp_colors = nat colors,
                 pp_bits_per_component = nat bits, pp_columns = nat columns\<rparr>))"
proof (cases "predictor < 1 \<or> colors < 1 \<or> bits < 1 \<or> columns < 1")
  case True
  then have "predictor_parameters_new predictor colors bits columns = Inl (for_code InvalidDecodeParameters None)"
    unfolding predictor_parameters_new_def by (intro if_P) auto
  then show ?thesis using True by simp
next
  case False
  then have pos: "(predictor \<le> 0 \<or> colors \<le> 0 \<or> columns \<le> 0 \<or> bits \<le> 0) = False"
    and sup: "(predictor \<noteq> 1 \<and> predictor \<noteq> 2 \<and> predictor < 10) = (3 \<le> predictor \<and> predictor \<le> 9)"
    by auto
  show ?thesis
  proof (cases "3 \<le> predictor \<and> predictor \<le> 9 \<or> bits \<notin> {1, 2, 4, 8, 16}")
    case True
    then show ?thesis using False by (simp only: predictor_parameters_new_def pos sup if_False if_True sum.case) simp
  next
    case sup': False
    have cond: "(3 \<le> predictor \<and> predictor \<le> 9 \<or> bits \<notin> {1, 2, 4, 8, 16}) = False" using sup' by blast
    have cond1: "(predictor < 1 \<or> colors < 1 \<or> bits < 1 \<or> columns < 1) = False" using False by blast
    have fits: "0 < colors" "0 < columns" "0 < bits" using False by auto
    show ?thesis
      unfolding predictor_parameters_new_def pos sup cond cond1 if_False
      using row_bits_fit [OF fits] fits
      by (auto simp: u32_try_from_def ok_or_def split: option.splits Option.bind_splits)
  qed
qed

lemma declared_stage_from: "declared_stage f d index = stage_from index f d"
proof (cases d)
  case Nil
  then show ?thesis by (simp add: declared_stage_def without_parameters_is_plain)
next
  case (Cons e es)
  have none: "no_slots = slots_for []" "well_formed_parameters []"
    by (simp_all add: no_slots_def slots_for_def slot_for_def well_formed_parameters_def)
  have "declared_stage FlateDecode d index = declared_predictor index d"
    using Cons declared_slots_declared [OF none(2), of index d]
    by (simp add: declared_stage_def none(1) declared_predictor_def slots_stage_def slots_for_def unwrap_slot
        parameters_declared Let_def del: well_formed_parameters_def)
  then show ?thesis using Cons by (cases f) (simp_all add: declared_stage_def)
qed

lemma parameter_stage_from:
  "parameter_stage f v index =
     (case located_value v of
        SynNull \<Rightarrow> Inr (plain_stage f)
      | SynDictionary d \<Rightarrow> stage_from index f d
      | _ \<Rightarrow> Inl (for_code InvalidDecodeParameters (Some index)))"
  by (simp add: parameter_stage_def declared_stage_from without_parameters_is_plain split: syntax_object.split)

lemma declared_filters_from: "declared_filters index vs = names_from index (map located_value vs)"
proof (induction vs arbitrary: index)
  case (Cons v vs)
  then show ?case by (cases "located_value v") (simp_all add: name_filter_def canonical_is_named)
qed simp

lemma declared_stages_from:
  "length fs = length vs \<Longrightarrow> declared_stages index fs vs = array_from index (zip fs (map located_value vs))"
  by (induction fs vs arbitrary: index rule: list_induct2) (simp_all add: parameter_stage_from)

lemma unique_value_cases:
  "unique_value key d =
     (case map dict_entry_value (filter (\<lambda>e. dict_entry_key e = key) d) of
        [] \<Rightarrow> Inr None | [v] \<Rightarrow> Inr (Some v) | _ \<Rightarrow> Inl (for_code InvalidDecodeParameters None))"
  by (simp add: unique_value_def split: list.split)

lemma single_stage_from:
  "single_stage f p =
     (case p of
        None \<Rightarrow> Inr [plain_stage f]
      | Some SynNull \<Rightarrow> Inr [plain_stage f]
      | Some (SynDictionary d) \<Rightarrow> and_then (stage_from 0 f d) (\<lambda>s. Inr [s])
      | _ \<Rightarrow> Inl (for_code InvalidDecodeParameters None))"
  by (simp add: single_stage_def declared_stage_from without_parameters_is_plain split: option.split syntax_object.split)

lemma array_stages_from:
  "array_stages fs p =
     (case p of
        None \<Rightarrow> Inr (map plain_stage fs)
      | Some SynNull \<Rightarrow> Inr (map plain_stage fs)
      | Some (SynArray qs) \<Rightarrow>
          if length qs = length fs then array_from 0 (zip fs (map located_value qs))
          else Inl (for_code InvalidDecodeParameters None)
      | _ \<Rightarrow> Inl (for_code InvalidDecodeParameters None))"
  by (simp add: array_stages_def declared_stages_from without_parameters_is_plain fun_eq_iff
      split: option.split syntax_object.split)

lemma names_from_length: "names_from index vs = Inr fs \<Longrightarrow> length fs = length vs"
  by (induction index vs arbitrary: fs rule: names_from.induct) (auto simp: and_then_Inr_iff)

lemma dictionary_stages_declared: "dictionary_stages limit d = declared_plan limit d"
proof -
  define F where "F = map dict_entry_value (filter (\<lambda>e. dict_entry_key e = ''Filter'') d)"
  define P where "P = map dict_entry_value (filter (\<lambda>e. dict_entry_key e = ''DecodeParms'') d)"
  note unfold = dictionary_stages_def declared_plan_def unique_value_cases F_def [symmetric] P_def [symmetric] Let_def
  have two: ?thesis if "F = x # y # zs" for x y zs
    using that by (cases x) (simp_all add: unfold)
  have many: ?thesis if "F = [v]" "P = x # y # zs" for v x y zs
    using that by (cases v) (simp_all add: unfold)
  have none: ?thesis if "F = []"
    using that by (cases P; cases "tl P") (simp_all add: unfold)
  have one: ?thesis if F: "F = [v]" and P: "P = [] \<or> P = [p]" for v p
  proof (cases v)
    case (SynName name)
    then show ?thesis
      using F P by (auto simp: unfold canonical_is_named single_stage_from split: syntax_object.split)
  next
    case (SynArray vs)
    have "and_then (declared_filters 0 vs) (\<lambda>fs. array_stages fs q) =
        and_then (names_from 0 (map located_value vs)) (\<lambda>fs.
          case q of
            None \<Rightarrow> Inr (map plain_stage fs)
          | Some SynNull \<Rightarrow> Inr (map plain_stage fs)
          | Some (SynArray qs) \<Rightarrow>
              if length qs = length vs then array_from 0 (zip fs (map located_value qs))
              else Inl (for_code InvalidDecodeParameters None)
          | _ \<Rightarrow> Inl (for_code InvalidDecodeParameters None))" for q
      by (cases "names_from 0 (map located_value vs)")
        (auto simp: declared_filters_from array_stages_from dest: names_from_length
          split: option.split syntax_object.split)
    then show ?thesis using F P SynArray by (auto simp: unfold split: syntax_object.split)
  qed (use F P in \<open>auto simp: unfold\<close>)
  show ?thesis
    using none two many one by (metis (no_types) list.exhaust)
qed

end
