(* ===== verification/Filt_Props.thy ===== *)
theory Filt_Props
  imports Filt_Complete Filt_Stored Filt_Declared
begin

text \<open>
  The properties of the filter pipeline (\<open>pdf-rs/filters\<close>): what \<open>decode_stream\<close> returns and
  rejects, how a plan follows the stream dictionary, what each filter accepts, and how much work it
  may do.
\<close>

section \<open>Concrete inputs for the witnesses\<close>

definition sample_host :: host where
  "sample_host = \<lparr>is_cancelled = (\<lambda>_. False), reserve = (\<lambda>_ n. Some n)\<rparr>"

definition sample_limits :: decode_limits where
  "sample_limits =
     \<lparr>max_input_bytes = 64, max_filters = 4, max_layer_output_bytes = 100000, max_total_output_bytes = 100000,
      max_final_output_bytes = 100000, max_retained_capacity_bytes = 100000, max_fuel = 1000000,
      cancellation_check_interval_fuel = 16\<rparr>"

definition sample_budget :: decode_budget where
  "sample_budget = budget_new sample_limits M1V1 1"

definition sample_snapshot :: source_snapshot where
  "sample_snapshot =
     \<lparr>snapshot_identity = \<lparr>stable_id = [1], source_revision = 1\<rparr>, snapshot_len = None,
      snapshot_validator = \<lparr>sv_kind = HostVersion, sv_digest = [7]\<rparr>\<rparr>"

definition sample_plan :: filter_plan where
  "sample_plan =
     \<lparr>plan_filters = [AsciiHexDecode], plan_stages = [without_parameters AsciiHexDecode],
      plan_filters_capacity = 1, plan_stages_capacity = 1\<rparr>"

definition sample_layout :: layout where "sample_layout = \<lparr>filter_width = 1, stage_width = 24\<rparr>"

definition sample_request :: "u8 list \<Rightarrow> decode_request" where
  "sample_request bytes =
     \<lparr>req_snapshot = sample_snapshot, req_owner = \<lparr>ref_number = 4, ref_generation = 0\<rparr>,
      req_dictionary_span = \<lparr>span_start = 0, span_len = 8\<rparr>,
      req_encoded_span = \<lparr>span_start = 8, span_len = length bytes\<rparr>,
      req_encoded = \<lparr>bs_identity = snapshot_identity sample_snapshot,
        bs_range = \<lparr>range_start = 8, range_len = length bytes\<rparr>, bs_backing = bytes, bs_backing_offset = 0\<rparr>,
      req_plan = sample_plan, req_profile = M1StrictV1, req_limits = sample_limits\<rparr>"

lemma sample_ok [simp]:
  "host_ok sample_host" "generous sample_host" "decode_limits_ok sample_limits" "budget_ok sample_budget"
  "plan_ok sample_plan" "b_limits sample_budget = sample_limits"
  by (simp_all add: sample_host_def host_ok_def generous_def sample_limits_def decode_limits_ok_def sample_budget_def
      budget_new_def budget_ok_def sample_plan_def plan_ok_def hard_max_filters_def u64_max_def)

lemma sample_request_fields [simp]:
  "req_limits (sample_request bs) = sample_limits" "req_plan (sample_request bs) = sample_plan"
  "byte_slice_bytes (req_encoded (sample_request bs)) = bs"
  by (simp_all add: sample_request_def byte_slice_bytes_def)

lemma sample_limits_fields [simp]:
  "max_input_bytes sample_limits = 64" "max_fuel sample_limits = 1000000" "max_final_output_bytes sample_limits = 100000"
  "max_layer_output_bytes sample_limits = 100000" "max_total_output_bytes sample_limits = 100000"
  "max_retained_capacity_bytes sample_limits = 100000" "max_filters sample_limits = 4"
  by (simp_all add: sample_limits_def)

lemma sample_heap [simp]: "validate_retained_heap_limit sample_layout sample_plan 4 = Inr 25"
  by (simp add: validate_retained_heap_limit_def retained_heap_upper_bound_def retained_heap_bytes_def
      retained_vec_bytes_def sample_layout_def sample_plan_def sample_limits_def rust_arith hard_max_filters_def
      ok_or_def u64_max_def)



lemma sample_stages: "plan_stages sample_plan = [without_parameters AsciiHexDecode]"
  by (simp add: sample_plan_def)

lemma sample_complete:
  assumes "length bs \<le> 8"
  shows "map_sum id ds_bytes (decode_stream sample_host sample_layout (sample_request bs)) = stream_result (sample_request bs)"
  by (rule single_stage_stream [where flt = AsciiHexDecode and heap = 25])
    (use assms in \<open>simp_all add: sample_stages\<close>)

lemma sample_result: "stream_result (sample_request bs) = hex_spec 0 [] bs"
  by (cases "hex_spec 0 [] bs")
    (simp_all add: stream_result_def sample_stages stage_reference_def stage_predictor_def without_parameters_def
      hex_reference_spec)

lemma sample_hex:
  "hex_spec i [] [52, 62] = Inr [64]" "hex_spec i [] [52] = Inl (for_code MissingEndMarker (Some i))"
  by (simp_all add: hex_spec_def hex_body_def hex_digits_def map_filter_simps hex_table_def white_bytes_def)

lemma sample_stream:
  obtains s where "decode_stream sample_host sample_layout (sample_request [52, 62]) = Inr s" "ds_bytes s = [64]"
  using sample_complete [of "[52, 62]"]
  by (cases "decode_stream sample_host sample_layout (sample_request [52, 62])") (auto simp: sample_result sample_hex)

lemma sample_stream_error:
  "decode_stream sample_host sample_layout (sample_request [52]) = Inl (for_code MissingEndMarker (Some 0))"
  using sample_complete [of "[52]"]
  by (cases "decode_stream sample_host sample_layout (sample_request [52])") (auto simp: sample_result sample_hex)

section \<open>Streams\<close>

text \<open>C15: When \<open>decode_stream\<close> succeeds, the bytes it publishes are the composition of the reference decoders
  of the plan's stages, each followed by its predictor, applied to the encoded slice; and the
  attestation names the request's snapshot, owner, slice, plan and limits, the true decoded length, and
  fuel, output and retained-capacity figures that are within those limits.\<close>

theorem decode_stream_sound:
  assumes "host_ok h" "decode_limits_ok (req_limits request)" "plan_ok (req_plan request)"
    and "decode_stream h w request = Inr s"
  shows "stages_reference 0 (plan_stages (req_plan request)) (byte_slice_bytes (req_encoded request)) = Inr (ds_bytes s)
    \<and> attested request s"
  using decode_stream_Inr [OF assms] by (simp add: stream_result_def)

theorem decode_stream_sound_witness:
  "\<exists>s. ds_bytes s = [64] \<and> attested (sample_request [52, 62]) s"
proof -
  obtain s where s: "decode_stream sample_host sample_layout (sample_request [52, 62]) = Inr s" "ds_bytes s = [64]"
    by (rule sample_stream)
  show ?thesis using decode_stream_sound [of sample_host "sample_request [52, 62]", OF _ _ _ s(1)] s(2) by auto
qed

text \<open>C16: When \<open>decode_stream\<close> fails, the error is a resource limit, a cancellation or an internal-state
  report of the host and its budget, or it is exactly the error the reference decoders give for the
  encoded bytes: a well-formed stream is never called malformed.\<close>

theorem decode_stream_errors:
  assumes "host_ok h" "decode_limits_ok (req_limits request)" "plan_ok (req_plan request)"
    and "decode_stream h w request = Inl e"
  shows "plan_fault e \<or>
    stages_reference 0 (plan_stages (req_plan request)) (byte_slice_bytes (req_encoded request)) = Inl e"
  using decode_stream_Inl [OF assms] by (simp add: stream_result_def)

theorem decode_stream_errors_witness:
  "stages_reference 0 (plan_stages sample_plan) [52] = Inl (for_code MissingEndMarker (Some 0))"
  using decode_stream_errors [of sample_host "sample_request [52]", OF _ _ _ sample_stream_error]
  by (auto simp: plan_fault_def)

text \<open>C17: For a plan of one filter without parameters, a host that never cancels and grants exactly the
  capacity asked for, and limits with room for the filter's worst-case work and output on this input, \<open>decode_stream\<close> always ends
  with the reference result: the bytes on a well-formed input, the format error otherwise.\<close>

theorem decode_stream_complete:
  assumes "host_ok h" "generous h" "decode_limits_ok (req_limits request)" "plan_ok (req_plan request)"
    and "plan_stages (req_plan request) = [without_parameters flt]"
    and "validate_retained_heap_limit w (req_plan request) (max_filters (req_limits request)) = Inr heap"
    and "length (byte_slice_bytes (req_encoded request)) \<le> max_input_bytes (req_limits request)"
    and "1 + layer_fuel flt (length (byte_slice_bytes (req_encoded request))) \<le> max_fuel (req_limits request)"
    and "layer_growth flt (length (byte_slice_bytes (req_encoded request))) \<le> max_final_output_bytes (req_limits request)"
  shows "map_sum id ds_bytes (decode_stream h w request) = layer_reference flt 0 (byte_slice_bytes (req_encoded request))"
proof -
  have "stream_result request = layer_reference flt 0 (byte_slice_bytes (req_encoded request))"
    using assms(5)
    by (cases "layer_reference flt 0 (byte_slice_bytes (req_encoded request))")
      (simp_all add: stream_result_def stage_reference_def stage_predictor_def without_parameters_def)
  with single_stage_stream [OF assms] show ?thesis by simp
qed

theorem decode_stream_complete_witness:
  "map_sum id ds_bytes (decode_stream sample_host sample_layout (sample_request [52, 62])) = Inr [64]"
proof -
  have "map_sum id ds_bytes (decode_stream sample_host sample_layout (sample_request [52, 62])) =
      layer_reference AsciiHexDecode 0 (byte_slice_bytes (req_encoded (sample_request [52, 62])))"
    by (rule decode_stream_complete [where heap = 25]) (simp_all add: sample_stages)
  then show ?thesis by (simp add: hex_reference_spec sample_hex)
qed


section \<open>Plans\<close>

definition sample_object :: "'a \<Rightarrow> 'a located" where
  "sample_object v = Located (snapshot_identity sample_snapshot) \<lparr>span_start = 0, span_len = 1\<rparr> v"

definition sample_dictionary :: pdf_dictionary where
  "sample_dictionary =
     [(sample_object ''Filter'', sample_object (SynArray
        [sample_object (SynName ''ASCIIHexDecode''), sample_object (SynName ''FlateDecode'')])),
      (sample_object ''DecodeParms'', sample_object (SynArray
        [sample_object SynNull, sample_object (SynDictionary
          [(sample_object ''Columns'', sample_object (SynInteger 4)),
           (sample_object ''Predictor'', sample_object (SynInteger 12)),
           (sample_object ''Colors'', sample_object (SynInteger 3))])]))]"

definition sample_stages_declared :: "filter_stage list" where
  "sample_stages_declared =
     [\<lparr>stage_filter = AsciiHexDecode, stage_parameters = NoParameters\<rparr>,
      \<lparr>stage_filter = FlateDecode, stage_parameters = Predictor
        \<lparr>pp_predictor = 12, pp_colors = 3, pp_bits_per_component = 8, pp_columns = 4\<rparr>\<rparr>]"

lemma sample_declared: "declared_plan 4 sample_dictionary = Inr sample_stages_declared"
  by code_simp

lemma sample_layout_fits: "layout_fits sample_layout"
  by (simp add: layout_fits_def sample_layout_def hard_max_filters_def u64_max_def)

text \<open>C22: A plan built from a stream dictionary has exactly the stages that the dictionary's \<open>Filter\<close> and
  \<open>DecodeParms\<close> entries declare: the filters by their PDF names, and for Flate the predictor, colours, bits
  and columns with the default 1, 1, 8 and 1, all within the supported values, under the four known
  keys, each at most once. Construction fails only with the error the dictionary deserves, or with a
  cancellation, a resource report or an internal-state report (the retained size of the granted vectors does not
  fit u64). When the host never cancels and grants exactly the capacity asked for, and the element sizes
  keep the largest plan within u64, the result is exactly the declared one.\<close>

theorem from_pdf_dictionary_refines:
  assumes "decode_limits_ok l"
  shows "(case from_pdf_dictionary h w d l k of
      Inl e \<Rightarrow> plan_fault e \<or> declared_plan (max_filters l) d = Inl e
    | Inr plan \<Rightarrow> declared_plan (max_filters l) d = Inr (plan_stages plan) \<and> plan_ok plan) \<and>
    (generous h \<and> layout_fits w \<longrightarrow>
       map_sum id plan_stages (from_pdf_dictionary h w d l k) = declared_plan (max_filters l) d)"
  using from_pdf_dictionary_follows [OF assms, of h w d k] from_pdf_dictionary_exact [OF assms, of h w d k]
  by (auto simp: plan_follows_def host_fault_def dictionary_stages_declared split: sum.splits)

theorem from_pdf_dictionary_refines_witness:
  "\<exists>plan. from_pdf_dictionary sample_host sample_layout sample_dictionary sample_limits 0 = Inr plan \<and>
     plan_stages plan = sample_stages_declared \<and> plan_ok plan"
  using from_pdf_dictionary_refines [where l = sample_limits and h = sample_host and w = sample_layout
      and d = sample_dictionary and k = 0]
  by (cases "from_pdf_dictionary sample_host sample_layout sample_dictionary sample_limits 0")
    (simp_all add: sample_declared sample_layout_fits)

text \<open>C23: The allocation-free preflight and the construction of the plan agree, under any hosts: when the
  preflight counts \<open>n\<close> stages the constructed plan has \<open>n\<close> stages, and what the preflight rejects, other
  than by a cancellation, is never constructed.\<close>

theorem preflight_agrees:
  assumes "decode_limits_ok l"
  shows "case preflight_pdf_dictionary h d l k of
      Inr n \<Rightarrow> (case from_pdf_dictionary h' w d l k' of
          Inr plan \<Rightarrow> length (plan_stages plan) = n | Inl e \<Rightarrow> plan_fault e)
    | Inl e \<Rightarrow> e = for_code CancelledCode None \<or>
        (case from_pdf_dictionary h' w d l k' of Inr plan \<Rightarrow> False | Inl e' \<Rightarrow> e' = e \<or> plan_fault e')"
proof -
  have "max_filters l \<le> hard_max_filters" using assms by (simp add: decode_limits_ok_def)
  from preflight_spec [OF this, where h = h and d = d and k = k]
    from_pdf_dictionary_follows [OF assms, where w = w and d = d and h = h' and k = k']
  show ?thesis by (auto simp: plan_follows_def host_fault_def split: sum.splits)
qed

theorem preflight_agrees_witness:
  "case preflight_pdf_dictionary sample_host sample_dictionary sample_limits 0 of
      Inr n \<Rightarrow> n = 2 \<and> (case from_pdf_dictionary sample_host sample_layout sample_dictionary sample_limits 0 of
          Inr plan \<Rightarrow> length (plan_stages plan) = n | Inl e \<Rightarrow> plan_fault e)
    | Inl e \<Rightarrow> False"
proof -
  have "preflight_pdf_dictionary sample_host sample_dictionary sample_limits 0 = Inr 2"
    using preflight_spec [where l = sample_limits and h = sample_host and d = sample_dictionary and k = 0]
    by (auto simp: dictionary_stages_declared sample_declared sample_stages_declared_def hard_max_filters_def
        sample_host_def split: sum.splits)
  with preflight_agrees [where l = sample_limits and h = sample_host and d = sample_dictionary and k = 0
      and h' = sample_host and w = sample_layout and k' = 0]
  show ?thesis by simp
qed

text \<open>C29: Validated predictor parameters describe rows the decoder can address: the geometry computation of
  the predictor succeeds on them without overflow, with at least one byte per row and per pixel, and a
  pixel no longer than its row.\<close>

theorem validated_predictor_geometry:
  assumes "predictor_parameters_new predictor colors bits columns = Inr p"
  shows "\<exists>g. geometry_new p idx = Inr g \<and> 0 < bytes_per_pixel g \<and> bytes_per_pixel g \<le> row_bytes g \<and>
    row_bytes g < u64_max \<and> samples_per_row g * pp_bits_per_component p \<le> 8 * row_bytes g"
proof -
  have p: "predictor_ok p" by (rule predictor_parameters_new_ok [OF assms])
  then have "pp_colors p * pp_bits_per_component p \<le> pp_colors p * pp_columns p * pp_bits_per_component p"
    by (simp add: predictor_ok_def)
  then have "bytes_per_pixel (geometry_of p) \<le> row_bytes (geometry_of p)"
    by (simp add: geometry_of_def div_le_mono)
  with geometry_new_ok [OF p] geometry_sample_bits(1) [OF p] show ?thesis by blast
qed

theorem validated_predictor_geometry_witness:
  "\<exists>p g. predictor_parameters_new 12 3 8 4 = Inr p \<and> geometry_new p 0 = Inr g \<and> bytes_per_pixel g \<le> row_bytes g"
proof -
  obtain p where "predictor_parameters_new 12 3 8 4 = Inr p"
    by (simp add: predictor_parameters_new_def u32_try_from_def rust_arith ok_or_def u64_max_def)
  with validated_predictor_geometry [OF this, of 0] show ?thesis by blast
qed


section \<open>The filters\<close>

text \<open>A layer that nothing but its input can stop: a generous host and room for the stated work.\<close>

definition unhindered :: "host \<Rightarrow> u8 list \<Rightarrow> nat \<Rightarrow> nat \<Rightarrow> nat \<Rightarrow> bool \<Rightarrow> decode_budget \<Rightarrow> bool" where
  "unhindered h input c n incap final b \<longleftrightarrow>
     host_ok h \<and> generous h \<and> budget_ok b \<and> incap \<le> max_retained_capacity_bytes (b_limits b) \<and>
     length input \<le> u64_max \<and> room c n incap final b"

lemma unhinderedD:
  assumes "unhindered h input c n incap final b"
  shows "host_ok h" "generous h" "budget_ok b" "incap \<le> max_retained_capacity_bytes (b_limits b)"
    "length input \<le> u64_max" "room c n incap final b"
  using assms by (simp_all add: unhindered_def)

lemma map_sum_Inr: "map_sum id f r = Inr y \<longleftrightarrow> (\<exists>x. r = Inr x \<and> f x = y)"
  by (cases r) auto

lemma sample_unhindered:
  "length input \<le> 64 \<Longrightarrow> c \<le> 1000000 \<Longrightarrow> n \<le> 100000 \<Longrightarrow> unhindered sample_host input c n 0 True sample_budget"
  by (simp add: unhindered_def room_def Let_def u64_max_def) (simp add: sample_budget_def budget_new_def)

text \<open>C26: The ASCIIHex layer accepts exactly a body of hexadecimal digits (either case) and white space (NUL,
  tab, line feed, form feed, carriage return, space), the end marker and white space after it; it gives
  the paired digits, an odd last digit padded with zero, and otherwise the error of the first violated
  rule. The host never cancels and grants exactly the capacity asked for, and the budget has room for the
  worst case.\<close>

theorem decode_ascii_hex_exact:
  assumes "unhindered h input (2 * length input) (length input) incap final b"
  shows "map_sum id (\<lambda>(v, _). vec_bytes v) (decode_ascii_hex h input incap final idx b) =
    (let body = takeWhile (\<lambda>x. x \<noteq> 62) input; rest = dropWhile (\<lambda>x. x \<noteq> 62) input in
      if \<not> set body \<subseteq> set white_bytes \<union> set (map fst hex_table) then Inl (for_code InvalidAsciiHex (Some idx))
      else if rest = [] then Inl (for_code MissingEndMarker (Some idx))
      else if \<not> set (tl rest) \<subseteq> set white_bytes then Inl (for_code TrailingData (Some idx))
      else Inr (hex_pairs (List.map_filter (map_of hex_table) body)))"
  using ascii_hex_total.layer_total [OF unhinderedD [OF assms], of idx]
  by (simp only: hex_reference_spec hex_spec_def hex_body_def hex_digits_def Let_def append_Nil)

theorem decode_ascii_hex_exact_witness:
  "map_sum id (\<lambda>(v, _). vec_bytes v)
     (decode_ascii_hex sample_host [52, 0, 49, 102, 12, 70, 53, 62, 10] 0 True 0 sample_budget) =
   Inr [0x41, 0xFF, 0x50]"
  using decode_ascii_hex_exact [OF sample_unhindered, of "[52, 0, 49, 102, 12, 70, 53, 62, 10]" 0]
  by (simp add: map_filter_simps hex_table_def white_bytes_def)

text \<open>C27: ASCII85 round trip: the layer decodes the ASCII85 text of any byte string, with
  its short last group and its end marker and without the shorthand for zero groups, back to that byte
  string, under a host that never cancels and grants exactly the capacity asked for and a budget with room
  for the worst case.\<close>

theorem decode_ascii85_round_trip:
  assumes "unhindered h (ascii85_encode xs) (5 * length (ascii85_encode xs)) (4 * length (ascii85_encode xs)) incap final b"
  shows "\<exists>v b'. decode_ascii85 h (ascii85_encode xs) incap final idx b = Inr (v, b') \<and> vec_bytes v = xs"
proof -
  have "ascii85_reference idx (ascii85_encode xs) = Inr xs"
    by (simp add: ascii85_reference_def ascii85_round_trip)
  with ascii85_total.layer_total [OF unhinderedD [OF assms], of idx] show ?thesis by (auto simp: map_sum_Inr)
qed

theorem decode_ascii85_round_trip_witness:
  "\<exists>v b'. decode_ascii85 sample_host (ascii85_encode [77, 97, 110, 0, 0]) 0 True 0 sample_budget = Inr (v, b') \<and>
     vec_bytes v = [77, 97, 110, 0, 0]"
proof -
  have "length (ascii85_encode [77, 97, 110, 0, 0]) \<le> 20" by (simp add: digits85_def)
  then show ?thesis
    by (intro decode_ascii85_round_trip sample_unhindered) simp_all
qed

text \<open>C28: The run-length layer accepts exactly a sequence of packets (1 to 128 literal bytes, or a byte repeated
  2 to 128 times) closed by the end-of-data code with nothing after it, and gives the bytes the packets
  stand for; the host never cancels and grants exactly the capacity asked for, and the budget has room for
  the worst case.\<close>

theorem decode_run_length_packets:
  assumes "unhindered h input (129 * length input) (128 * length input) incap final b"
  shows "(\<exists>v b'. decode_run_length h input incap final idx b = Inr (v, b') \<and> vec_bytes v = out) \<longleftrightarrow>
    (\<exists>ps. list_all packet_ok ps \<and> input = concat (map packet_bytes ps) @ [128] \<and> out = concat (map packet_output ps))"
proof -
  have "(\<exists>v b'. decode_run_length h input incap final idx b = Inr (v, b') \<and> vec_bytes v = out) \<longleftrightarrow>
      run_length_reference idx input = Inr out"
    using run_length_total.layer_total [OF unhinderedD [OF assms], of idx, symmetric] by (auto simp: map_sum_Inr)
  then show ?thesis using run_length_accepted [of idx input out] run_length_packets [of _ idx]
    by (auto simp: list_all_iff)
qed

theorem decode_run_length_packets_witness:
  "\<exists>v b'. decode_run_length sample_host [1, 5, 6, 254, 9, 128] 0 True 0 sample_budget = Inr (v, b') \<and>
     vec_bytes v = [5, 6, 9, 9, 9]"
proof (subst decode_run_length_packets)
  show "unhindered sample_host [1, 5, 6, 254, 9, 128] (129 * length [1, 5, 6, 254, 9, 128 :: u8])
      (128 * length [1, 5, 6, 254, 9, 128 :: u8]) 0 True sample_budget"
    by (rule sample_unhindered) simp_all
  show "\<exists>ps. list_all packet_ok ps \<and> [1, 5, 6, 254, 9, 128] = concat (map packet_bytes ps) @ [128] \<and>
      [5, 6, 9, 9, 9] = concat (map packet_output ps)"
    by (rule exI [of _ "[Literal [5, 6], Run 3 9]"]) (simp add: numeral_eq_Suc)
qed


text \<open>C24: PNG round trip: rows filtered with any of the five row filters of the PNG specification, chosen
  row by row, are reconstructed byte for byte by the PNG predictor, for every validated geometry. The filters
  subtract nothing, the left byte, the upper byte, the mean of the two rounded down, and the
  neighbour nearest to left plus upper minus upper left, where ties go to left, then upper. The host never
  cancels and grants exactly the capacity asked for, and the budget has room for the worst case.\<close>

theorem decode_png_round_trip:
  assumes "predictor_ok p" "10 \<le> pp_predictor p"
    and rows: "list_all (\<lambda>(tag, row). tag \<le> 4 \<and> length row = row_bytes (geometry_of p)) rows"
  defines "encoded \<equiv> png_encode (bytes_per_pixel (geometry_of p)) (replicate (row_bytes (geometry_of p)) 0) rows"
  assumes "unhindered h encoded (1 + 42 * length encoded) (length encoded) incap final b"
  shows "\<exists>v b'. decode_predictor h p encoded incap final idx b = Inr (v, b') \<and> vec_bytes v = concat (map snd rows)"
proof -
  have "predictor_reference p idx encoded = Inr (concat (map snd rows))"
    unfolding predictor_reference_def encoded_def using assms(2) rows
    by (simp add: list_all_iff) (rule png_reference_round_trip, auto)
  with bounded_layer.layer_total [OF predictor_bounded [OF assms(1)] unhinderedD [OF assms(5)], of idx]
  show ?thesis by (auto simp: map_sum_Inr)
qed

theorem decode_png_round_trip_witness:
  "\<exists>v b'. decode_predictor sample_host \<lparr>pp_predictor = 12, pp_colors = 1, pp_bits_per_component = 8, pp_columns = 2\<rparr>
      [2, 9, 8, 4, 251, 255] 0 True 0 sample_budget = Inr (v, b') \<and> vec_bytes v = [9, 8, 4, 3]"
proof -
  let ?p = "\<lparr>pp_predictor = 12, pp_colors = 1, pp_bits_per_component = 8, pp_columns = 2\<rparr>"
  let ?rows = "[(2, [9, 8]), (4, [4, 3])] :: (u8 \<times> u8 list) list"
  have g: "bytes_per_pixel (geometry_of ?p) = 1" "row_bytes (geometry_of ?p) = 2"
    by (simp_all add: geometry_of_def)
  have e: "png_encode 1 (replicate 2 0) ?rows = [2, 9, 8, 4, 251, 255]" by code_simp
  have "\<exists>v b'. decode_predictor sample_host ?p (png_encode (bytes_per_pixel (geometry_of ?p))
      (replicate (row_bytes (geometry_of ?p)) 0) ?rows) 0 True 0 sample_budget = Inr (v, b') \<and>
      vec_bytes v = concat (map snd ?rows)"
    by (rule decode_png_round_trip)
      (simp_all only: g e, auto simp: predictor_ok_def u64_max_def intro!: sample_unhindered)
  then show ?thesis by (simp only: g e) simp
qed

text \<open>C25: TIFF round trip: rows differenced sample by sample at the distance of one pixel, at 1, 2, 4, 8 or 16
  bits per component, are reconstructed by the TIFF predictor with the unused bits of each row kept, under a host that never
  cancels and grants exactly the capacity asked for and a budget with room for the worst case.\<close>

theorem decode_tiff_round_trip:
  assumes p: "predictor_ok p" "pp_predictor p = 2"
    and rows: "list_all (\<lambda>row. length row = row_bytes (geometry_of p)) rows"
  defines "encoded \<equiv> concat (map (tiff_encode_row (pp_bits_per_component p) (pp_colors p) (pp_colors p * pp_columns p)) rows)"
  assumes run: "unhindered h encoded (1 + 42 * length encoded) (length encoded) incap final b"
  shows "\<exists>v b'. decode_predictor h p encoded incap final idx b = Inr (v, b') \<and> vec_bytes v = concat rows"
proof -
  let ?g = "geometry_of p" and ?w = "pp_bits_per_component p"
  let ?enc = "tiff_encode_row ?w (pp_colors p) (pp_colors p * pp_columns p)"
  note bits = geometry_sample_bits [OF p(1)] and pos = geometry_new_ok(2) [OF p(1)]
  have colors: "0 < pp_colors p" "pp_colors p \<le> pp_colors p * pp_columns p" using p(1) by (auto simp: predictor_ok_def)
  have g: "g_colors ?g = pp_colors p" "samples_per_row ?g = pp_colors p * pp_columns p" by (simp_all add: geometry_of_def)
  have undo: "tiff_row ?w (pp_colors p) (pp_colors p * pp_columns p) (?enc row) = row"
    if "length row = row_bytes ?g" for row
    by (rule tiff_row_round_trip) (use bits colors that g in auto)
  have chunks: "list_all (\<lambda>row. length row = row_bytes ?g) rs \<Longrightarrow> chunks_exact (row_bytes ?g) (concat rs) = rs" for rs :: "u8 list list"
    using pos by (induction rs) (simp_all add: chunks_exact.simps [of _ "_ @ _"] chunks_exact.simps [of _ "[]"])
  have len: "list_all (\<lambda>row. length row = row_bytes ?g) rs \<Longrightarrow> length (concat rs) mod row_bytes ?g = 0" for rs :: "u8 list list"
    by (induction rs) auto
  have all: "list_all (\<lambda>row. length row = row_bytes ?g) (map ?enc rows)" using rows by (simp add: list_all_iff)
  have "map (tiff_row ?w (pp_colors p) (pp_colors p * pp_columns p)) (map ?enc rows) = rows"
    using rows undo by (simp add: list_all_iff comp_def map_idI)
  then have "predictor_reference p idx encoded = Inr (concat rows)"
    using chunks [OF all] len [OF all] p(2) g
    by (simp add: predictor_reference_def tiff_reference_def encoded_def Let_def)
  with bounded_layer.layer_total [OF predictor_bounded [OF p(1)] unhinderedD [OF run], of idx]
  show ?thesis by (auto simp: map_sum_Inr)
qed


theorem decode_tiff_round_trip_witness:
  "\<exists>v b'. decode_predictor sample_host \<lparr>pp_predictor = 2, pp_colors = 1, pp_bits_per_component = 4, pp_columns = 2\<rparr>
      [50] 0 True 0 sample_budget = Inr (v, b') \<and> vec_bytes v = [53]"
proof -
  let ?p = "\<lparr>pp_predictor = 2, pp_colors = 1, pp_bits_per_component = 4, pp_columns = 2\<rparr>"
  have e: "concat (map (tiff_encode_row 4 1 2) [[53]]) = [50]" by code_simp
  have g: "row_bytes (geometry_of ?p) = 1" "pp_bits_per_component ?p = 4" "pp_colors ?p = 1" "1 * pp_columns ?p = 2"
    by (simp_all add: geometry_of_def)
  have "\<exists>v b'. decode_predictor sample_host ?p (concat (map (tiff_encode_row (pp_bits_per_component ?p) (pp_colors ?p)
      (pp_colors ?p * pp_columns ?p)) [[53]])) 0 True 0 sample_budget = Inr (v, b') \<and> vec_bytes v = concat [[53]]"
    by (rule decode_tiff_round_trip)
      (simp_all only: g e, auto simp: predictor_ok_def u64_max_def intro!: sample_unhindered)
  then show ?thesis by (simp only: g e) simp
qed

section \<open>Flate\<close>

text \<open>C20: Building a Huffman table succeeds exactly on the code lengths that form a complete prefix code (or the
  empty or single-code cases the caller allows), whatever the budget allows it to finish; and the tree then
  assigns a symbol to a bit string exactly when it is that symbol's canonical code word.\<close>

theorem huffman_build_exact:
  assumes "buf_ok ob"
  shows "case huffman_build h ls allow_empty allow_single idx ob of
      Inr (T, ob') \<Rightarrow> huffman_accepts ls allow_empty allow_single \<and>
        prefix_free (fst ` set (canonical_codes ls)) \<and>
        (if is_empty T then canonical_codes ls = [] else tree_symbol (nodes T) = map_of (canonical_codes ls))
    | Inl e \<Rightarrow> is_host_error e \<or> \<not> huffman_accepts ls allow_empty allow_single \<and> e = invalid_flate idx"
proof -
  obtain T where T: "huffman_accepts ls allow_empty allow_single \<longrightarrow> table_for T ls"
      "simulates h (30 + 16 * length ls) 0 ob (huffman_build h ls allow_empty allow_single idx ob)
        (if huffman_accepts ls allow_empty allow_single then Inr (T, ob_bytes ob) else Inl (invalid_flate idx))"
    using huffman_build_sim assms by blast
  have "prefix_free (fst ` set (canonical_codes ls)) \<and>
      (if is_empty T then canonical_codes ls = [] else tree_symbol (nodes T) = map_of (canonical_codes ls))"
    if acc: "huffman_accepts ls allow_empty allow_single"
  proof -
    have "lengths_ok ls" using acc by (simp add: huffman_accepts_def)
    note w = canonical_words [OF this accepted_kraft [OF acc]]
    have "table_ok_for T (canonical_codes ls)" by (rule table_for_ok [OF acc]) (use T(1) acc in simp)
    then show ?thesis using w by (auto simp: table_ok_for_def holds_words_def)
  qed
  with T(2) show ?thesis by (auto simp: simulates_def split: sum.splits if_splits)
qed

definition sample_buffer :: output_buffer where
  "sample_buffer = output_buffer_new 0 True (Some 0) 0 sample_budget"

lemma sample_buffer_ok [simp]: "buf_ok sample_buffer"
  unfolding sample_buffer_def by (rule buf_ok_new) simp_all

lemma sample_accepts: "huffman_accepts [2, 1, 2] False False"
  by (simp add: huffman_accepts_def lengths_ok_def kraft_sum_def max_code_bits_def max_huffman_symbols_def)

theorem huffman_build_exact_witness:
  "case huffman_build sample_host [2, 1, 2] False False 0 sample_buffer of
      Inr (T, ob') \<Rightarrow> prefix_free (fst ` set (canonical_codes [2, 1, 2])) | Inl e \<Rightarrow> is_host_error e"
  using huffman_build_exact [OF sample_buffer_ok, where h = sample_host and ls = "[2, 1, 2]"
      and allow_empty = False and allow_single = False and idx = 0] sample_accepts
  by (auto split: sum.splits)

text \<open>C18: The Flate layer refines the reference reading of RFC 1950 and RFC 1951: under a host that
  never cancels and grants exactly the capacity asked for, and with room for its worst case, it ends with the reference output of the zlib stream, checksum included, or with
  the reference error.\<close>

theorem decode_flate_refines:
  assumes "unhindered h input (54 + bit_fuel * (8 * length input)) (bit_output * (8 * length input)) incap final b"
  shows "map_sum id (\<lambda>(v, _). vec_bytes v) (decode_flate h input incap final idx b) = flate_reference idx input"
  by (rule flate_total.layer_total [OF unhinderedD [OF assms]])

lemma sample_zlib:
  "length (zlib_store [[72, 105]]) = 13" "flate_reference 0 (zlib_store [[72, 105]]) = Inr [72, 105]"
  using zlib_store_read [of "[[72, 105]]" 0]
  by (simp_all add: zlib_store_def stored_block_def le16_def adler_bytes_def Let_def)

lemma sample_flate_room:
  "unhindered sample_host (zlib_store [[72, 105]]) (54 + bit_fuel * (8 * length (zlib_store [[72, 105]])))
     (bit_output * (8 * length (zlib_store [[72, 105]]))) 0 True sample_budget"
  by (rule sample_unhindered) (simp_all add: sample_zlib bit_fuel_def bit_output_def)

theorem decode_flate_refines_witness:
  "map_sum id (\<lambda>(v, _). vec_bytes v) (decode_flate sample_host (zlib_store [[72, 105]]) 0 True 0 sample_budget) = Inr [72, 105]"
  using decode_flate_refines [OF sample_flate_room] by (simp add: sample_zlib)

text \<open>C21: Stored round trip: any bytes, cut into blocks of at most 65535 bytes and wrapped as a zlib stream of
  stored blocks with its Adler-32 checksum, are decoded back to those bytes, under a host that never
  cancels and grants exactly the capacity asked for and a budget with room for the worst case.\<close>

theorem decode_flate_stored_round_trip:
  assumes "chunks \<noteq> []" "list_all (\<lambda>c. length c \<le> 65535) chunks"
    and "unhindered h (zlib_store chunks) (54 + bit_fuel * (8 * length (zlib_store chunks)))
      (bit_output * (8 * length (zlib_store chunks))) incap final b"
  shows "\<exists>v b'. decode_flate h (zlib_store chunks) incap final idx b = Inr (v, b') \<and> vec_bytes v = concat chunks"
  using flate_total.layer_total [OF unhinderedD [OF assms(3)], of idx] zlib_store_read [OF assms(1), of idx] assms(2)
  by (auto simp: map_sum_Inr list_all_iff)

theorem decode_flate_stored_round_trip_witness:
  "\<exists>v b'. decode_flate sample_host (zlib_store [[72, 105]]) 0 True 0 sample_budget = Inr (v, b') \<and> vec_bytes v = [72, 105]"
  using decode_flate_stored_round_trip [OF _ _ sample_flate_room, of 0] by simp

text \<open>C19: Successful decompression has bounded cost: a Flate layer that succeeds has spent at most
  54 units of fuel and 16000 more per input byte, has produced at most 2400 bytes per input byte, and has
  charged every byte it produced to the cumulative output.\<close>

theorem decode_flate_work:
  assumes "host_ok h" "budget_ok b" "incap \<le> max_retained_capacity_bytes (b_limits b)"
    and "decode_flate h input incap final idx b = Inr (v, b')"
  shows "fuel_consumed b' \<le> fuel_consumed b + 54 + 16000 * length input \<and>
    length (vec_bytes v) \<le> 2400 * length input \<and>
    cumulative_output_bytes b' = cumulative_output_bytes b + length (vec_bytes v)"
proof -
  let ?ob = "output_buffer_new incap final (Some idx) (saturating_mul (length input) 4) b"
  obtain x where sim: "simulates h (54 + bit_fuel * (8 * length input)) (bit_output * (8 * length input)) ?ob
      (flate_run h idx (flate_new input) ?ob) (and_then (flate_reference idx input) (\<lambda>out. Inr (x, out)))"
    using flate_sim [OF assms(1-3)] by blast
  obtain y ob where run: "flate_run h idx (flate_new input) ?ob = Inr (y, ob)" "finish ob = (v, b')"
    using assms(4) by (auto simp: decode_flate_def and_then_Inr_iff)
  have st: "steps_to (54 + bit_fuel * (8 * length input)) (bit_output * (8 * length input)) ?ob ob"
    using sim run(1) by (simp add: simulates_def)
  have "layer_done incap final b v b'" using steps_to_layer_done [OF st] run(2) by simp
  moreover have "fuel_consumed b' = fuel_consumed (budget ob)" "length (vec_bytes v) = layer_output_bytes ob"
    using st run(2) by (auto simp: finish_def steps_to_def buf_ok_def)
  ultimately show ?thesis
    using st by (auto simp: steps_to_def layer_done_def bit_fuel_def bit_output_def output_buffer_new_def)
qed

theorem decode_flate_work_witness:
  "\<exists>v b'. decode_flate sample_host (zlib_store [[72, 105]]) 0 True 0 sample_budget = Inr (v, b') \<and>
     fuel_consumed b' \<le> fuel_consumed sample_budget + 54 + 16000 * 13"
proof -
  obtain v b' where r: "decode_flate sample_host (zlib_store [[72, 105]]) 0 True 0 sample_budget = Inr (v, b')"
    using flate_total.layer_total [OF unhinderedD [OF sample_flate_room], of 0] by (auto simp: sample_zlib map_sum_Inr)
  with decode_flate_work [OF _ _ _ r] show ?thesis by (auto simp: sample_zlib)
qed

end
