(* ===== verification/Bytes_Segs.thy ===== *)
theory Bytes_Segs
  imports Bytes_Types
begin

text \<open>
  The cached segments of a range store and the functions on them (the free functions at the end of
  \<open>pdf-rs/bytes/src/store.rs\<close>, \<open>BackingBytes\<close> of \<open>source.rs\<close>), and what they mean for the set of
  cached addresses and for the byte at an address.
\<close>

section \<open>Segments\<close>

text \<open>Shared backing storage: its bytes, the bytes it holds of the resident budget, and an identity,
  which stands for the address of the \<open>Arc\<close>.\<close>

record backing_bytes =
  bk_id :: nat
  bk_bytes :: "u8 list"
  bk_reserved :: nat

record segment =
  seg_start :: nat
  seg_end :: nat
  seg_backing :: backing_bytes

definition seg_len :: "segment \<Rightarrow> nat" where
  "seg_len seg = seg_end seg - seg_start seg"

definition ranges_overlap :: "nat \<Rightarrow> nat \<Rightarrow> nat \<Rightarrow> nat \<Rightarrow> bool" where
  "ranges_overlap left_start left_end right_start right_end \<longleftrightarrow>
     left_start < right_end \<and> right_start < left_end"

definition overlap_conflicts :: "segment \<Rightarrow> byte_range \<Rightarrow> u8 list \<Rightarrow> source_error + bool" where
  "overlap_conflicts seg rng bytes =
     (let overlap_start = max (seg_start seg) (range_start rng);
          overlap_end = min (seg_end seg) (range_end rng)
      in if overlap_start \<ge> overlap_end then Inr False
         else let segment_start = overlap_start - seg_start seg;
                  response_start = overlap_start - range_start rng;
                  overlap_len = overlap_end - overlap_start
           in and_then (ok_or (checked_add segment_start overlap_len) (source_error_for_code SResourceLimit)) (\<lambda>_.
              and_then (ok_or (checked_add response_start overlap_len) (source_error_for_code SResourceLimit)) (\<lambda>_.
                Inr (take overlap_len (drop segment_start (bk_bytes (seg_backing seg))) \<noteq>
                     take overlap_len (drop response_start bytes)))))"

text \<open>The loop of \<open>supply\<close> over the segments that overlap the response.\<close>

fun conflicts_loop :: "byte_range \<Rightarrow> u8 list \<Rightarrow> segment list \<Rightarrow> source_error + bool" where
  "conflicts_loop rng bytes [] = Inr False"
| "conflicts_loop rng bytes (seg # segs) =
     and_then (if ranges_overlap (seg_start seg) (seg_end seg) (range_start rng) (range_end rng)
               then overlap_conflicts seg rng bytes else Inr False)
       (\<lambda>conflict. if conflict then Inr True else conflicts_loop rng bytes segs)"

definition copy_into_union :: "nat \<Rightarrow> u8 list \<Rightarrow> nat \<Rightarrow> u8 list \<Rightarrow> source_error + u8 list" where
  "copy_into_union union_start u source_start source =
     (let offset = source_start - union_start in
      and_then (ok_or (checked_add offset (length source)) (source_error_for_code SResourceLimit)) (\<lambda>stop.
        if stop > length u then Inl (source_error_for_code SInternalState)
        else Inr (take offset u @ source @ drop stop u)))"

fun covered_loop :: "nat \<Rightarrow> nat \<Rightarrow> segment list \<Rightarrow> bool" where
  "covered_loop stop cursor [] = False"
| "covered_loop stop cursor (seg # segs) =
     (if seg_end seg \<le> cursor then covered_loop stop cursor segs
      else if seg_start seg > cursor then False
      else let cursor = max cursor (seg_end seg) in
        if cursor \<ge> stop then True else covered_loop stop cursor segs)"

definition range_is_covered :: "segment list \<Rightarrow> byte_range \<Rightarrow> bool" where
  "range_is_covered segs rng = covered_loop (range_end rng) (range_start rng) segs"

fun borrow_range :: "segment list \<Rightarrow> source_identity \<Rightarrow> byte_range \<Rightarrow> source_error + (byte_slice \<times> backing_bytes)" where
  "borrow_range [] identity rng = Inl (source_error_for_code SInternalState)"
| "borrow_range (seg # segs) identity rng =
     (if seg_start seg \<le> range_start rng \<and> seg_end seg \<ge> range_end rng
      then and_then (byte_slice_new identity rng (bk_bytes (seg_backing seg)) (range_start rng - seg_start seg))
             (\<lambda>slice. Inr (slice, seg_backing seg))
      else borrow_range segs identity rng)"

definition push_range :: "byte_range list \<Rightarrow> nat \<Rightarrow> nat \<Rightarrow> nat \<Rightarrow> source_error + byte_range list" where
  "push_range ranges max_ranges start len =
     (if length ranges \<ge> max_ranges
      then Inl (source_error_resource MissingRanges max_ranges (length ranges + 1))
      else and_then (byte_range_new start len) (\<lambda>r. Inr (ranges @ [r])))"

fun append_uncovered_loop ::
  "nat \<Rightarrow> nat \<Rightarrow> nat \<Rightarrow> segment list \<Rightarrow> byte_range list \<Rightarrow> source_error + (nat \<times> byte_range list)" where
  "append_uncovered_loop stop max_ranges cursor [] ranges = Inr (cursor, ranges)"
| "append_uncovered_loop stop max_ranges cursor (seg # segs) ranges =
     (if seg_end seg \<le> cursor then append_uncovered_loop stop max_ranges cursor segs ranges
      else if seg_start seg \<ge> stop then Inr (cursor, ranges)
      else and_then (if seg_start seg > cursor then push_range ranges max_ranges cursor (seg_start seg - cursor)
                     else Inr ranges) (\<lambda>ranges.
        let cursor = max cursor (seg_end seg) in
        if cursor \<ge> stop then Inr (cursor, ranges)
        else append_uncovered_loop stop max_ranges cursor segs ranges))"

definition append_uncovered_ranges ::
  "segment list \<Rightarrow> byte_range \<Rightarrow> byte_range list \<Rightarrow> nat \<Rightarrow> source_error + byte_range list" where
  "append_uncovered_ranges segs requested ranges max_ranges =
     and_then (append_uncovered_loop (range_end requested) max_ranges (range_start requested) segs ranges)
       (\<lambda>(cursor, ranges).
         if cursor < range_end requested then push_range ranges max_ranges cursor (range_end requested - cursor)
         else Inr ranges)"

text \<open>The allocator: the capacity it grants to the allocation at a place of the operation, or a refusal.\<close>

type_synonym allocator = "nat \<Rightarrow> nat \<Rightarrow> nat option"

definition try_alloc :: "allocator \<Rightarrow> nat \<Rightarrow> nat \<Rightarrow> nat option" where
  "try_alloc alloc site n = (if n = 0 then Some 0 else alloc site n)"

definition missing_range_storage :: "allocator \<Rightarrow> nat \<Rightarrow> nat \<Rightarrow> source_error + unit" where
  "missing_range_storage alloc site max_ranges =
     and_then (ok_or (try_alloc alloc site max_ranges) (source_error_resource SourceAllocation max_ranges max_ranges))
       (\<lambda>_. Inr ())"

definition missing_ranges ::
  "allocator \<Rightarrow> nat \<Rightarrow> segment list \<Rightarrow> byte_range \<Rightarrow> nat \<Rightarrow> source_error + small_ranges" where
  "missing_ranges alloc site segs requested max_ranges =
     and_then (missing_range_storage alloc site max_ranges) (\<lambda>_.
     and_then (append_uncovered_ranges segs requested [] max_ranges) (\<lambda>ranges.
       if ranges = [] then Inl (source_error_for_code SInternalState)
       else try_from_canonical ranges max_ranges))"

fun remaining_loop :: "segment list \<Rightarrow> nat \<Rightarrow> byte_range list \<Rightarrow> byte_range list \<Rightarrow> source_error + byte_range list" where
  "remaining_loop segs max_ranges [] ranges = Inr ranges"
| "remaining_loop segs max_ranges (r # rs) ranges =
     and_then (append_uncovered_ranges segs r ranges max_ranges) (remaining_loop segs max_ranges rs)"

definition remaining_missing_ranges ::
  "allocator \<Rightarrow> nat \<Rightarrow> segment list \<Rightarrow> byte_range list \<Rightarrow> nat \<Rightarrow> source_error + small_ranges option" where
  "remaining_missing_ranges alloc site segs requested max_ranges =
     and_then (missing_range_storage alloc site max_ranges) (\<lambda>_.
     and_then (remaining_loop segs max_ranges requested []) (\<lambda>ranges.
       if ranges = [] then Inr None
       else and_then (try_from_canonical ranges max_ranges) (\<lambda>rs. Inr (Some rs))))"


text \<open>The segments that a response touches, with the union of their extents and the bytes they hold
  (the second loop of \<open>supply\<close>).\<close>

definition touches :: "byte_range \<Rightarrow> segment \<Rightarrow> bool" where
  "touches rng seg \<longleftrightarrow> seg_start seg \<le> range_end rng \<and> range_start rng \<le> seg_end seg"

fun affected_loop ::
  "nat \<Rightarrow> byte_range \<Rightarrow> nat \<Rightarrow> segment list \<Rightarrow> nat list \<times> nat \<times> nat \<times> nat
     \<Rightarrow> source_error + (nat list \<times> nat \<times> nat \<times> nat)" where
  "affected_loop max_cached rng index [] acc = Inr acc"
| "affected_loop max_cached rng index (seg # segs) (affected, union_start, union_end, removed) =
     (if touches rng seg
      then and_then (ok_or (checked_add removed (seg_len seg)) (source_error_resource CachedBytes max_cached u64_max))
             (\<lambda>removed. affected_loop max_cached rng (Suc index) segs
                (affected @ [index], min union_start (seg_start seg), max union_end (seg_end seg), removed))
      else affected_loop max_cached rng (Suc index) segs (affected, union_start, union_end, removed))"

fun copy_affected :: "nat \<Rightarrow> segment list \<Rightarrow> nat list \<Rightarrow> u8 list \<Rightarrow> source_error + u8 list" where
  "copy_affected union_start segs [] u = Inr u"
| "copy_affected union_start segs (index # affected) u =
     and_then (copy_into_union union_start u (seg_start (segs ! index)) (bk_bytes (seg_backing (segs ! index))))
       (copy_affected union_start segs affected)"

text \<open>The segments that stay, and the insertion of the new one at the place the binary search by start finds
  in a sorted list.\<close>

definition keep_unaffected :: "nat list \<Rightarrow> segment list \<Rightarrow> segment list" where
  "keep_unaffected affected segs = map snd (filter (\<lambda>(index, _). index \<notin> set affected) (enumerate 0 segs))"

definition insert_segment :: "segment \<Rightarrow> segment list \<Rightarrow> segment list" where
  "insert_segment new segs =
     (let insertion = length (takeWhile (\<lambda>seg. seg_start seg < seg_start new) segs) in
      take insertion segs @ new # drop insertion segs)"

section \<open>Addresses and their bytes\<close>

definition seg_ok :: "segment \<Rightarrow> bool" where
  "seg_ok seg \<longleftrightarrow> seg_start seg < seg_end seg \<and> seg_end seg \<le> u64_max \<and>
     length (bk_bytes (seg_backing seg)) = seg_len seg"

text \<open>Canonical segments: increasing, with a gap between neighbours.\<close>

definition segs_ok :: "segment list \<Rightarrow> bool" where
  "segs_ok segs \<longleftrightarrow> sorted_wrt (\<lambda>a b. seg_end a < seg_start b) segs \<and> (\<forall>seg \<in> set segs. seg_ok seg)"

definition holds :: "segment \<Rightarrow> nat \<Rightarrow> bool" where
  "holds seg a \<longleftrightarrow> seg_start seg \<le> a \<and> a < seg_end seg"

definition cached :: "segment list \<Rightarrow> nat set" where
  "cached segs = {a. \<exists>seg \<in> set segs. holds seg a}"

definition seg_byte :: "segment \<Rightarrow> nat \<Rightarrow> u8" where
  "seg_byte seg a = bk_bytes (seg_backing seg) ! (a - seg_start seg)"

definition byte_at :: "segment list \<Rightarrow> nat \<Rightarrow> u8 option" where
  "byte_at segs a = map_option (\<lambda>seg. seg_byte seg a) (find (\<lambda>seg. holds seg a) segs)"

lemma segs_ok_simps [simp]:
  "segs_ok []"
  "segs_ok (seg # segs) \<longleftrightarrow> seg_ok seg \<and> (\<forall>t \<in> set segs. seg_end seg < seg_start t) \<and> segs_ok segs"
  by (auto simp: segs_ok_def)

lemma cached_simps [simp]: "cached [] = {}" "cached (seg # segs) = {seg_start seg..<seg_end seg} \<union> cached segs"
  by (auto simp: cached_def holds_def)

lemma cached_append: "cached (xs @ ys) = cached xs \<union> cached ys"
  by (auto simp: cached_def)

lemma byte_at_simps [simp]:
  "byte_at [] a = None"
  "byte_at (seg # segs) a = (if holds seg a then Some (seg_byte seg a) else byte_at segs a)"
  by (simp_all add: byte_at_def)

lemma byte_at_None: "byte_at segs a = None \<longleftrightarrow> a \<notin> cached segs"
  by (auto simp: byte_at_def cached_def find_None_iff)

lemma byte_at_append: "byte_at (xs @ ys) a = (case byte_at xs a of None \<Rightarrow> byte_at ys a | Some x \<Rightarrow> Some x)"
  by (induction xs) auto

lemma cached_above: "segs_ok (seg # segs) \<Longrightarrow> a \<in> cached segs \<Longrightarrow> seg_end seg < a"
  by (force simp: cached_def holds_def)

lemma cached_least: "\<forall>t \<in> set segs. n < seg_start t \<Longrightarrow> a \<in> cached segs \<Longrightarrow> n < a"
  by (force simp: cached_def holds_def)

text \<open>At most one segment holds an address.\<close>

lemma segs_ok_append:
  "segs_ok (xs @ ys) \<longleftrightarrow> segs_ok xs \<and> segs_ok ys \<and> (\<forall>x \<in> set xs. \<forall>y \<in> set ys. seg_end x < seg_start y)"
  by (induction xs) auto

lemma seg_okD: "seg_ok seg \<Longrightarrow> seg_start seg < seg_end seg"
  by (simp add: seg_ok_def)

lemma byte_at_member:
  "segs_ok segs \<Longrightarrow> seg \<in> set segs \<Longrightarrow> holds seg a \<Longrightarrow> byte_at segs a = Some (seg_byte seg a)"
proof (induction segs)
  case (Cons t segs)
  show ?case
  proof (cases "seg = t")
    case False
    then have "seg_end t < seg_start seg" using Cons.prems by auto
    then have "\<not> holds t a" using Cons.prems(3) by (simp add: holds_def)
    then show ?thesis using Cons False by simp
  qed (use Cons in simp)
qed simp

section \<open>Coverage and borrowing\<close>

lemma covered_loop_iff:
  "segs_ok segs \<Longrightarrow> cursor < stop \<Longrightarrow> covered_loop stop cursor segs \<longleftrightarrow> {cursor..<stop} \<subseteq> cached segs"
proof (induction segs arbitrary: cursor)
  case (Cons seg segs)
  consider "seg_end seg \<le> cursor" | "cursor < seg_end seg" "seg_start seg > cursor"
    | "seg_start seg \<le> cursor" "cursor < seg_end seg" "stop \<le> seg_end seg"
    | "seg_start seg \<le> cursor" "cursor < seg_end seg" "seg_end seg < stop" by linarith
  then show ?case
  proof cases
    case 1
    then have "{cursor..<stop} \<inter> {seg_start seg..<seg_end seg} = {}" by auto
    with 1 Cons show ?thesis by auto
  next
    case 2
    then have "cursor \<notin> cached (seg # segs)" using cached_above [OF Cons.prems(1)] by fastforce
    with 2 Cons.prems(2) show ?thesis by auto
  next
    case 3
    then have "{cursor..<stop} \<subseteq> cached (seg # segs)" by auto
    with 3 show ?thesis by simp
  next
    case 4
    have "seg_end seg \<notin> cached (seg # segs)" using cached_above [OF Cons.prems(1)] by fastforce
    moreover have "seg_end seg \<in> {cursor..<stop}" using 4 by simp
    moreover have "\<not> {seg_end seg..<stop} \<subseteq> cached segs"
      using cached_above [OF Cons.prems(1), of "seg_end seg"] 4(3) by (meson atLeastLessThan_iff less_irrefl order_refl subsetD)
    then have "\<not> covered_loop stop (seg_end seg) segs" using Cons.IH [of "seg_end seg"] Cons.prems(1) 4(3) by simp
    moreover have "covered_loop stop cursor (seg # segs) = covered_loop stop (seg_end seg) segs"
      using 4 by (simp add: max_def)
    ultimately show ?thesis by (meson subsetD)
  qed
qed auto

lemma range_is_covered_iff:
  "segs_ok segs \<Longrightarrow> range_ok rng \<Longrightarrow> range_is_covered segs rng \<longleftrightarrow> range_bytes rng \<subseteq> cached segs"
  by (simp add: range_is_covered_def range_bytes_def covered_loop_iff range_ok_def range_end_def)

lemma covered_by_one:
  "segs_ok segs \<Longrightarrow> cursor < stop \<Longrightarrow> {cursor..<stop} \<subseteq> cached segs \<Longrightarrow>
   \<exists>seg \<in> set segs. seg_start seg \<le> cursor \<and> stop \<le> seg_end seg"
proof (induction segs)
  case (Cons seg segs)
  show ?case
  proof (cases "holds seg cursor")
    case True
    have "seg_end seg \<notin> cached (seg # segs)" using cached_above [OF Cons.prems(1)] by fastforce
    moreover have "seg_end seg \<in> {cursor..<stop}" if "seg_end seg < stop" using that True by (simp add: holds_def)
    ultimately have "stop \<le> seg_end seg" using Cons.prems(3) by (meson not_le subsetD)
    then show ?thesis using True by (auto simp: holds_def)
  next
    case False
    have "cursor \<in> cached segs" using Cons.prems(2,3) False by (auto simp: holds_def)
    then have "seg_end seg < cursor" using cached_above [OF Cons.prems(1)] by simp
    then have "{cursor..<stop} \<subseteq> cached segs" using Cons.prems(3) by fastforce
    then show ?thesis using Cons by auto
  qed
qed simp

lemma byte_slice_new_ok:
  assumes "backing_offset + range_len rng \<le> length backing" "length backing \<le> u64_max"
  obtains slice where "byte_slice_new identity rng backing backing_offset = Inr slice"
    "bs_identity slice = identity" "bs_range slice = rng"
    "byte_slice_bytes slice = take (range_len rng) (drop backing_offset backing)"
  using assms by (simp add: byte_slice_new_def checked_add_def byte_slice_bytes_def)

lemma borrow_range_ok:
  assumes "segs_ok segs" "range_ok rng" "range_bytes rng \<subseteq> cached segs"
  shows "\<exists>slice seg. borrow_range segs identity rng = Inr (slice, seg_backing seg) \<and> seg \<in> set segs \<and>
    bs_identity slice = identity \<and> bs_range slice = rng \<and> length (byte_slice_bytes slice) = range_len rng \<and>
    (\<forall>i < range_len rng. byte_at segs (range_start rng + i) = Some (byte_slice_bytes slice ! i))"
proof -
  let ?in = "\<lambda>seg. seg_start seg \<le> range_start rng \<and> range_end rng \<le> seg_end seg"
  have "\<exists>seg \<in> set segs. ?in seg"
    using covered_by_one [OF assms(1), of "range_start rng" "range_end rng"] assms(2,3)
    by (simp add: range_ok_def range_bytes_def range_end_def)
  then obtain seg where seg: "seg \<in> set segs" "?in seg"
    and run: "borrow_range segs identity rng =
      and_then (byte_slice_new identity rng (bk_bytes (seg_backing seg)) (range_start rng - seg_start seg))
        (\<lambda>slice. Inr (slice, seg_backing seg))"
  proof (induction segs arbitrary: thesis)
    case (Cons t segs)
    show ?case
    proof (cases "?in t")
      case False
      then have "\<exists>seg \<in> set segs. ?in seg" using Cons.prems(2) by auto
      from Cons.IH [OF _ this] show ?thesis using Cons.prems(1) False by auto
    qed (use Cons.prems(1) [of t] in simp)
  qed simp
  have ok: "seg_ok seg" using assms(1) seg(1) by (simp add: segs_ok_def)
  have "range_start rng - seg_start seg + range_len rng \<le> length (bk_bytes (seg_backing seg))"
    "length (bk_bytes (seg_backing seg)) \<le> u64_max"
    using ok seg(2) by (auto simp: seg_ok_def seg_len_def range_end_def)
  from byte_slice_new_ok [OF this] obtain slice where
    sl: "byte_slice_new identity rng (bk_bytes (seg_backing seg)) (range_start rng - seg_start seg) = Inr slice"
      "bs_identity slice = identity" "bs_range slice = rng"
      "byte_slice_bytes slice = take (range_len rng) (drop (range_start rng - seg_start seg) (bk_bytes (seg_backing seg)))"
    by blast
  have "byte_at segs (range_start rng + i) = Some (byte_slice_bytes slice ! i)" if "i < range_len rng" for i
  proof -
    have "holds seg (range_start rng + i)" using seg(2) that by (simp add: holds_def range_end_def)
    moreover have "range_start rng + i - seg_start seg = range_start rng - seg_start seg + i" using seg(2) by simp
    ultimately have "byte_at segs (range_start rng + i) =
        Some (bk_bytes (seg_backing seg) ! (range_start rng - seg_start seg + i))"
      using byte_at_member [OF assms(1) seg(1)] by (simp only: seg_byte_def)
    moreover have "drop (range_start rng - seg_start seg) (bk_bytes (seg_backing seg)) ! i =
        bk_bytes (seg_backing seg) ! (range_start rng - seg_start seg + i)"
      by (rule nth_drop) (use seg(2) ok in \<open>auto simp: seg_ok_def seg_len_def range_end_def\<close>)
    ultimately show ?thesis unfolding sl(4) using that by (simp only: nth_take)
  qed
  moreover have "length (byte_slice_bytes slice) = range_len rng"
    using sl(4) seg(2) ok by (auto simp: seg_ok_def seg_len_def range_end_def min_def)
  ultimately show ?thesis using run sl seg(1) by auto
qed


section \<open>Missing ranges\<close>

text \<open>What the loop computes: the gaps of the segments in a window.\<close>

fun gaps :: "nat \<Rightarrow> nat \<Rightarrow> segment list \<Rightarrow> byte_range list" where
  "gaps cursor stop [] = (if cursor < stop then [\<lparr>range_start = cursor, range_len = stop - cursor\<rparr>] else [])"
| "gaps cursor stop (seg # segs) =
     (if stop \<le> cursor then []
      else if seg_end seg \<le> cursor then gaps cursor stop segs
      else if seg_start seg \<ge> stop then [\<lparr>range_start = cursor, range_len = stop - cursor\<rparr>]
      else (if seg_start seg > cursor then [\<lparr>range_start = cursor, range_len = seg_start seg - cursor\<rparr>] else [])
        @ gaps (max cursor (seg_end seg)) stop segs)"

lemma gaps_Nil [simp]: "stop \<le> cursor \<Longrightarrow> gaps cursor stop segs = []"
  by (cases segs) auto

definition all_range_bytes :: "byte_range list \<Rightarrow> nat set" where
  "all_range_bytes rs = {a. \<exists>r \<in> set rs. a \<in> range_bytes r}"

lemma all_range_bytes_simps [simp]:
  "all_range_bytes [] = {}" "all_range_bytes (r # rs) = range_bytes r \<union> all_range_bytes rs"
  "all_range_bytes (rs @ ss) = all_range_bytes rs \<union> all_range_bytes ss"
  by (auto simp: all_range_bytes_def)

lemma range_bytes_simps [simp]:
  "range_bytes \<lparr>range_start = s, range_len = n\<rparr> = {s..<s + n}" "range_end \<lparr>range_start = s, range_len = n\<rparr> = s + n"
  by (simp_all add: range_bytes_def range_end_def)

lemma gaps_bytes: "segs_ok segs \<Longrightarrow> all_range_bytes (gaps cursor stop segs) = {cursor..<stop} - cached segs"
proof (induction segs arbitrary: cursor)
  case (Cons seg segs)
  show ?case
  proof (cases "stop \<le> cursor \<or> seg_end seg \<le> cursor")
    case True
    then have "{cursor..<stop} \<inter> {seg_start seg..<seg_end seg} = {}" by auto
    then have "{cursor..<stop} - cached (seg # segs) = {cursor..<stop} - cached segs" by auto
    then show ?thesis using True Cons by auto
  next
    case False
    show ?thesis
    proof (cases "seg_start seg \<ge> stop")
      case True
      then have "{cursor..<stop} \<inter> cached (seg # segs) = {}"
        using cached_above [OF Cons.prems] Cons.prems by (fastforce dest: seg_okD)
      then show ?thesis using True False by auto
    next
      case inside: False
      let ?m = "max cursor (seg_end seg)"
      have m: "?m = seg_end seg" using False by simp
      have "{cursor..<stop} - cached (seg # segs) =
          ({cursor..<seg_start seg}) \<union> ({seg_end seg..<stop} - cached segs)"
        using False inside cached_above [OF Cons.prems] Cons.prems by (fastforce dest: seg_okD)
      moreover have "all_range_bytes (gaps ?m stop segs) = {seg_end seg..<stop} - cached segs"
        using Cons.IH [of ?m] Cons.prems m by simp
      ultimately show ?thesis using False inside by (simp split: if_splits)
    qed
  qed
qed auto

lemma ranges_apart_Cons:
  "ranges_apart (r # rs) \<longleftrightarrow> (\<forall>s \<in> set (take 1 rs). range_end r < range_start s) \<and> ranges_apart rs"
  by (cases rs) auto

lemma gaps_apart:
  "segs_ok segs \<Longrightarrow> stop \<le> u64_max \<Longrightarrow>
   ranges_apart (gaps cursor stop segs) \<and>
   (\<forall>r \<in> set (gaps cursor stop segs). range_ok r \<and> cursor \<le> range_start r \<and> range_end r \<le> stop)"
proof (induction segs arbitrary: cursor)
  case (Cons seg segs)
  let ?m = "max cursor (seg_end seg)"
  consider "stop \<le> cursor" | "cursor < stop" "seg_end seg \<le> cursor" | "cursor < stop" "cursor < seg_end seg" "stop \<le> seg_start seg"
    | "cursor < stop" "cursor < seg_end seg" "seg_start seg < stop" by linarith
  then show ?case
  proof cases
    case 2
    then show ?thesis using Cons by auto
  next
    case 4
    have IH: "ranges_apart (gaps ?m stop segs)"
      "\<forall>r \<in> set (gaps ?m stop segs). range_ok r \<and> ?m \<le> range_start r \<and> range_end r \<le> stop"
      using Cons.IH [of ?m] Cons.prems by simp_all
    have "seg_start seg < seg_end seg" using Cons.prems(1) by (auto dest: seg_okD)
    then have "\<forall>s \<in> set (take 1 (gaps ?m stop segs)). seg_start seg < range_start s"
      using IH(2) 4 by (metis in_set_takeD max.bounded_iff order_less_le_trans)
    then show ?thesis
      using IH 4 Cons.prems(2) \<open>seg_start seg < seg_end seg\<close>
      by (auto simp: ranges_apart_Cons range_ok_def)
  qed (use Cons.prems in \<open>auto simp: range_ok_def\<close>)
qed (auto simp: range_ok_def)

definition too_many :: "nat \<Rightarrow> source_error" where
  "too_many m = source_error_resource MissingRanges m (m + 1)"

lemma push_range_ok:
  "0 < n \<Longrightarrow> s + n \<le> u64_max \<Longrightarrow> length rs \<le> m \<Longrightarrow> push_range rs m s n =
     (if length rs < m then Inr (rs @ [\<lparr>range_start = s, range_len = n\<rparr>]) else Inl (too_many m))"
  by (auto simp: push_range_def byte_range_new_def checked_add_def too_many_def dest: le_antisym)

lemma append_loop_gaps:
  "segs_ok segs \<Longrightarrow> stop \<le> u64_max \<Longrightarrow> cursor < stop \<Longrightarrow> length rs \<le> m \<Longrightarrow>
   and_then (append_uncovered_loop stop m cursor segs rs)
     (\<lambda>(cursor, rs). if cursor < stop then push_range rs m cursor (stop - cursor) else Inr rs) =
   (if length rs + length (gaps cursor stop segs) \<le> m then Inr (rs @ gaps cursor stop segs) else Inl (too_many m))"
proof (induction segs arbitrary: cursor rs)
  case (Cons seg segs)
  have pos: "seg_start seg < seg_end seg" using Cons.prems(1) by (auto dest: seg_okD)
  consider "seg_end seg \<le> cursor" | "cursor < seg_end seg" "stop \<le> seg_start seg"
    | "cursor < seg_end seg" "seg_start seg < stop" "stop \<le> seg_end seg"
    | "cursor < seg_end seg" "seg_start seg < stop" "seg_end seg < stop" by linarith
  then show ?case
  proof cases
    case 1
    then show ?thesis using Cons by simp
  next
    case 2
    then show ?thesis using Cons.prems by (auto simp: push_range_ok)
  next
    case 3
    then show ?thesis using Cons.prems by (auto simp: push_range_ok max_def)
  next
    case 4
    let ?rs = "rs @ [\<lparr>range_start = cursor, range_len = seg_start seg - cursor\<rparr>]"
    have m: "max cursor (seg_end seg) = seg_end seg" using 4 by simp
    show ?thesis
    proof (cases "seg_start seg > cursor \<and> length rs = m")
      case True
      then show ?thesis using 4 Cons.prems m by (auto simp: push_range_ok)
    next
      case False
      then show ?thesis
        using Cons.IH [of "seg_end seg" rs] Cons.IH [of "seg_end seg" ?rs] 4 Cons.prems m
        by (auto simp: push_range_ok)
    qed
  qed
qed (auto simp: push_range_ok)

lemma append_uncovered_gaps:
  assumes "segs_ok segs" "range_ok rng" "length rs \<le> m"
  shows "append_uncovered_ranges segs rng rs m =
    (if length rs + length (gaps (range_start rng) (range_end rng) segs) \<le> m
     then Inr (rs @ gaps (range_start rng) (range_end rng) segs) else Inl (too_many m))"
  unfolding append_uncovered_ranges_def
  by (rule append_loop_gaps) (use assms in \<open>auto simp: range_ok_def range_end_def\<close>)


text \<open>Canonical range lists: valid, increasing, with a gap between neighbours.\<close>

definition canonical :: "byte_range list \<Rightarrow> bool" where
  "canonical rs \<longleftrightarrow> ranges_apart rs \<and> (\<forall>r \<in> set rs. range_ok r)"

lemma range_ok_less: "range_ok r \<Longrightarrow> range_start r < range_end r"
  by (simp add: range_ok_def range_end_def)

lemma canonical_sorted:
  "canonical rs \<longleftrightarrow> sorted_wrt (\<lambda>r s. range_end r < range_start s) rs \<and> (\<forall>r \<in> set rs. range_ok r)"
proof (induction rs rule: ranges_apart.induct)
  case (3 r s rs)
  have "\<forall>t \<in> set rs. range_end r < range_start t"
    if "range_end r < range_start s" "\<forall>t \<in> set rs. range_end s < range_start t" "range_ok s"
    using that range_ok_less [of s] by fastforce
  then show ?case using 3 by (auto simp: canonical_def)
qed (auto simp: canonical_def)

lemma canonical_append:
  "canonical (xs @ ys) \<longleftrightarrow> canonical xs \<and> canonical ys \<and> (\<forall>x \<in> set xs. \<forall>y \<in> set ys. range_end x < range_start y)"
  by (auto simp: canonical_sorted sorted_wrt_append)

lemma canonical_loop_ok:
  "canonical rs \<Longrightarrow> (case prev of None \<Rightarrow> n = 0 | Some e \<Rightarrow> n \<le> e \<and> (\<forall>r \<in> set rs. e < range_start r)) \<Longrightarrow>
   canonical_ranges_loop n prev rs = Inr ()"
proof (induction rs arbitrary: n prev)
  case (Cons r rs)
  have r: "range_ok r" "\<forall>s \<in> set rs. range_end r < range_start s" "canonical rs"
    using Cons.prems(1) by (auto simp: canonical_sorted)
  have "n \<le> range_start r" using Cons.prems(2) by (force split: option.splits)
  then have "n + range_len r \<le> range_end r" by (simp add: range_end_def)
  moreover have "range_end r \<le> u64_max" using r(1) by (simp add: range_ok_def)
  ultimately show ?case
    using Cons.IH [OF r(3), where prev = "Some (range_end r)" and n = "n + range_len r"] Cons.prems(2) r(2)
    by (fastforce simp: checked_add_def split: option.splits)
qed simp

lemma try_from_canonical_ok: "canonical rs \<Longrightarrow> rs \<noteq> [] \<Longrightarrow> length rs \<le> m \<Longrightarrow> try_from_canonical rs m = Inr rs"
  by (simp add: try_from_canonical_def canonical_loop_ok)

lemma gaps_canonical:
  assumes "segs_ok segs" "stop \<le> u64_max"
  shows "canonical (gaps cursor stop segs)"
    "\<forall>r \<in> set (gaps cursor stop segs). cursor \<le> range_start r \<and> range_end r \<le> stop"
  using gaps_apart [OF assms, of cursor] by (auto simp: canonical_def)

definition storage_error :: "nat \<Rightarrow> source_error" where
  "storage_error m = source_error_resource SourceAllocation m m"

lemma missing_ranges_spec:
  assumes "segs_ok segs" "range_ok rng"
  defines "gs \<equiv> gaps (range_start rng) (range_end rng) segs"
  shows "missing_ranges alloc site segs rng m =
    (if try_alloc alloc site m = None then Inl (storage_error m)
     else if length gs > m then Inl (too_many m)
     else if gs = [] then Inl (source_error_for_code SInternalState) else Inr gs)"
proof -
  have "canonical gs" unfolding gs_def using assms(1,2) by (auto intro: gaps_canonical simp: range_ok_def)
  then show ?thesis
    using append_uncovered_gaps [OF assms(1,2), of "[]" m] try_from_canonical_ok [of gs m]
    by (cases "try_alloc alloc site m")
      (auto simp: missing_ranges_def missing_range_storage_def storage_error_def gs_def)
qed

definition all_gaps :: "segment list \<Rightarrow> byte_range list \<Rightarrow> byte_range list" where
  "all_gaps segs rs = concat (map (\<lambda>r. gaps (range_start r) (range_end r) segs) rs)"

lemma all_gaps_simps [simp]:
  "all_gaps segs [] = []" "all_gaps segs (r # rs) = gaps (range_start r) (range_end r) segs @ all_gaps segs rs"
  by (simp_all add: all_gaps_def)

lemma all_gaps_bytes: "segs_ok segs \<Longrightarrow> all_range_bytes (all_gaps segs rs) = all_range_bytes rs - cached segs"
  by (induction rs) (auto simp: gaps_bytes range_bytes_def)

lemma all_gaps_within:
  "segs_ok segs \<Longrightarrow> \<forall>r \<in> set rs. range_ok r \<Longrightarrow> g \<in> set (all_gaps segs rs) \<Longrightarrow>
   \<exists>r \<in> set rs. range_start r \<le> range_start g \<and> range_end g \<le> range_end r"
proof (induction rs)
  case (Cons r rs)
  then show ?case using gaps_canonical(2) [of segs "range_end r" "range_start r"] by (fastforce simp: range_ok_def)
qed simp

lemma all_gaps_canonical: "segs_ok segs \<Longrightarrow> canonical rs \<Longrightarrow> canonical (all_gaps segs rs)"
proof (induction rs)
  case (Cons r rs)
  have r: "range_ok r" "canonical rs" "\<forall>s \<in> set rs. range_end r < range_start s" "\<forall>s \<in> set rs. range_ok s"
    using Cons.prems(2) by (auto simp: canonical_sorted)
  have end': "range_end r \<le> u64_max" using r(1) by (simp add: range_ok_def)
  note g = gaps_canonical [OF Cons.prems(1) end', of "range_start r"]
  have "range_end x < range_start y"
    if x: "x \<in> set (gaps (range_start r) (range_end r) segs)" and y: "y \<in> set (all_gaps segs rs)" for x y
  proof -
    obtain s where "s \<in> set rs" "range_start s \<le> range_start y"
      using all_gaps_within [OF Cons.prems(1) r(4) y] by auto
    then show ?thesis using g(2) x r(3) by fastforce
  qed
  then show ?case using g(1) Cons.IH [OF Cons.prems(1) r(2)] by (simp add: canonical_append)
qed (simp add: canonical_def)

lemma remaining_loop_gaps:
  "segs_ok segs \<Longrightarrow> \<forall>r \<in> set rs. range_ok r \<Longrightarrow> length acc \<le> m \<Longrightarrow>
   remaining_loop segs m rs acc =
     (if length acc + length (all_gaps segs rs) \<le> m then Inr (acc @ all_gaps segs rs) else Inl (too_many m))"
proof (induction rs arbitrary: acc)
  case (Cons r rs)
  then show ?case using append_uncovered_gaps [of segs r acc m] by auto
qed simp

lemma remaining_spec:
  assumes "segs_ok segs" "canonical rs"
  defines "gs \<equiv> all_gaps segs rs"
  shows "remaining_missing_ranges alloc site segs rs m =
    (if try_alloc alloc site m = None then Inl (storage_error m)
     else if length gs > m then Inl (too_many m)
     else Inr (if gs = [] then None else Some gs))"
proof -
  have "\<forall>r \<in> set rs. range_ok r" using assms(2) by (simp add: canonical_def)
  moreover have "canonical gs" unfolding gs_def by (rule all_gaps_canonical [OF assms(1,2)])
  ultimately show ?thesis
    using remaining_loop_gaps [OF assms(1), of rs "[]" m] try_from_canonical_ok [of gs m]
    by (cases "try_alloc alloc site m")
      (auto simp: remaining_missing_ranges_def missing_range_storage_def storage_error_def gs_def)
qed

section \<open>Conflicts\<close>

lemma slices_eq_iff:
  assumes "i + n \<le> length xs" "j + n \<le> length ys"
  shows "take n (drop i xs) = take n (drop j ys) \<longleftrightarrow> (\<forall>k < n. xs ! (i + k) = ys ! (j + k))"
  using assms by (simp add: list_eq_iff_nth_eq)

lemma all_offsets: "(\<forall>k < hi - lo. P (lo + k)) \<longleftrightarrow> (\<forall>a. lo \<le> a \<and> a < hi \<longrightarrow> P a)" for lo hi :: nat
proof (intro iffI allI impI)
  fix a assume *: "\<forall>k < hi - lo. P (lo + k)" and a: "lo \<le> a \<and> a < hi"
  have "P (lo + (a - lo))" by (rule *[rule_format]) (use a in linarith)
  then show "P a" using a by simp
next
  fix k assume *: "\<forall>a. lo \<le> a \<and> a < hi \<longrightarrow> P a" and k: "k < hi - lo"
  show "P (lo + k)" by (rule *[rule_format]) (use k in linarith)
qed

lemma overlap_conflicts_iff:
  assumes "seg_ok seg" "range_ok rng" "length bytes = range_len rng"
  shows "overlap_conflicts seg rng bytes =
    Inr (\<exists>a \<in> range_bytes rng. holds seg a \<and> seg_byte seg a \<noteq> bytes ! (a - range_start rng))"
proof -
  let ?B = "bk_bytes (seg_backing seg)" and ?ss = "seg_start seg" and ?rs = "range_start rng"
  define lo hi where "lo = max ?ss ?rs" and "hi = min (seg_end seg) (range_end rng)"
  have inter: "a \<in> range_bytes rng \<and> holds seg a \<longleftrightarrow> lo \<le> a \<and> a < hi" for a
    by (auto simp: range_bytes_def holds_def lo_def hi_def)
  have run: "overlap_conflicts seg rng bytes = (if lo \<ge> hi then Inr False else
      and_then (ok_or (checked_add (lo - ?ss) (hi - lo)) (source_error_for_code SResourceLimit)) (\<lambda>_.
      and_then (ok_or (checked_add (lo - ?rs) (hi - lo)) (source_error_for_code SResourceLimit)) (\<lambda>_.
        Inr (take (hi - lo) (drop (lo - ?ss) ?B) \<noteq> take (hi - lo) (drop (lo - ?rs) bytes)))))"
    by (simp add: overlap_conflicts_def Let_def lo_def hi_def)
  show ?thesis
  proof (cases "lo \<ge> hi")
    case True
    then have "\<not> (\<exists>a \<in> range_bytes rng. holds seg a \<and> seg_byte seg a \<noteq> bytes ! (a - ?rs))"
      using inter by (meson leD order_le_less_trans)
    then show ?thesis using True by (simp add: run)
  next
    case False
    have ord: "?ss \<le> lo" "?rs \<le> lo" "hi \<le> seg_end seg" "hi \<le> range_end rng" by (simp_all add: lo_def hi_def)
    have B: "length ?B = seg_end seg - ?ss" "length ?B \<le> u64_max" "length bytes = range_end rng - ?rs" "length bytes \<le> u64_max"
      using assms by (auto simp: seg_ok_def seg_len_def range_ok_def range_end_def)
    have len: "lo - ?ss + (hi - lo) \<le> length ?B" "lo - ?rs + (hi - lo) \<le> length bytes"
      using False ord B by linarith+
    have "?ss \<le> lo \<Longrightarrow> lo - ?ss + k = lo + k - ?ss" "?rs \<le> lo \<Longrightarrow> lo - ?rs + k = lo + k - ?rs" for k by simp_all
    then have "take (hi - lo) (drop (lo - ?ss) ?B) = take (hi - lo) (drop (lo - ?rs) bytes) \<longleftrightarrow>
        (\<forall>k < hi - lo. ?B ! (lo + k - ?ss) = bytes ! (lo + k - ?rs))"
      unfolding slices_eq_iff [OF len] using ord by simp
    also have "\<dots> \<longleftrightarrow> (\<forall>a. lo \<le> a \<and> a < hi \<longrightarrow> seg_byte seg a = bytes ! (a - ?rs))"
      unfolding seg_byte_def by (rule all_offsets)
    finally have eq: "take (hi - lo) (drop (lo - ?ss) ?B) \<noteq> take (hi - lo) (drop (lo - ?rs) bytes) \<longleftrightarrow>
        (\<exists>a \<in> range_bytes rng. holds seg a \<and> seg_byte seg a \<noteq> bytes ! (a - ?rs))"
      using inter by blast
    have "checked_add (lo - ?ss) (hi - lo) \<noteq> None" "checked_add (lo - ?rs) (hi - lo) \<noteq> None"
      using len B by (simp_all add: checked_add_def)
    then show ?thesis using False eq by (auto simp: run)
  qed
qed

lemma conflicts_loop_iff:
  assumes "range_ok rng" "length bytes = range_len rng"
  shows "segs_ok segs \<Longrightarrow> conflicts_loop rng bytes segs =
    Inr (\<exists>a \<in> range_bytes rng. \<exists>x. byte_at segs a = Some x \<and> x \<noteq> bytes ! (a - range_start rng))"
proof (induction segs)
  case (Cons seg segs)
  note here = overlap_conflicts_iff [OF _ assms, of seg]
  have none: "\<not> holds seg a" if "\<not> ranges_overlap (seg_start seg) (seg_end seg) (range_start rng) (range_end rng)"
    "a \<in> range_bytes rng" for a
    using that by (auto simp: ranges_overlap_def holds_def range_bytes_def)
  have later: "\<not> holds seg a" if "byte_at segs a = Some x" for a x
  proof -
    have "a \<in> cached segs" using that byte_at_None [of segs a] by auto
    then show ?thesis using cached_above [OF Cons.prems] by (force simp: holds_def)
  qed
  show ?case
    using Cons here none later
    by (cases "ranges_overlap (seg_start seg) (seg_end seg) (range_start rng) (range_end rng)")
      (auto split: if_splits)
qed simp


section \<open>Merging a response\<close>

text \<open>A response splits the canonical segments into those before it, those it touches and those after it.\<close>

lemma touch_split:
  assumes "segs_ok segs" "range_ok rng"
  obtains A M B where "segs = A @ M @ B" "\<forall>s \<in> set A. seg_end s < range_start rng" "\<forall>s \<in> set M. touches rng s"
    "\<forall>s \<in> set B. range_end rng < seg_start s"
proof -
  define A where "A = takeWhile (\<lambda>s. seg_end s < range_start rng) segs"
  define R where "R = dropWhile (\<lambda>s. seg_end s < range_start rng) segs"
  define M where "M = takeWhile (touches rng) R"
  define B where "B = dropWhile (touches rng) R"
  have split: "segs = A @ M @ B" by (simp add: A_def R_def M_def B_def)
  have R: "segs_ok R" using assms(1) split by (simp add: segs_ok_append M_def B_def)
  have "\<forall>s \<in> set R. range_start rng \<le> seg_end s"
  proof (cases R)
    case (Cons r rs)
    then have "range_start rng \<le> seg_end r" using hd_dropWhile [of "\<lambda>s. seg_end s < range_start rng" segs] R_def by auto
    then show ?thesis using R Cons by (fastforce dest: seg_okD simp: segs_ok_def)
  qed simp
  moreover have "\<forall>s \<in> set B. range_end rng < seg_start s"
  proof (cases B)
    case (Cons b bs)
    have "b \<in> set R" "\<not> touches rng b"
      using Cons hd_dropWhile [of "touches rng" R] set_dropWhileD [of b "touches rng" R] by (auto simp: B_def)
    then have "range_end rng < seg_start b" using calculation by (auto simp: touches_def)
    moreover have "segs_ok (b # bs)" using R Cons by (metis B_def M_def segs_ok_append takeWhile_dropWhile_id)
    ultimately show ?thesis using Cons by (fastforce dest: seg_okD)
  qed simp
  moreover have "\<forall>s \<in> set A. seg_end s < range_start rng" "\<forall>s \<in> set M. touches rng s"
    by (auto simp: A_def M_def dest: set_takeWhileD)
  ultimately show ?thesis using that [OF split] by blast
qed

lemma affected_skip:
  "\<forall>s \<in> set A. \<not> touches rng s \<Longrightarrow>
   affected_loop mc rng n (A @ rest) (aff, us, ue, r) = affected_loop mc rng (n + length A) rest (aff, us, ue, r)"
  by (induction A arbitrary: n) auto

definition lowest :: "nat \<Rightarrow> segment list \<Rightarrow> nat" where
  "lowest us M = fold (\<lambda>s u. min u (seg_start s)) M us"

definition highest :: "nat \<Rightarrow> segment list \<Rightarrow> nat" where
  "highest ue M = fold (\<lambda>s u. max u (seg_end s)) M ue"

abbreviation total_len :: "segment list \<Rightarrow> nat" where
  "total_len segs \<equiv> sum_list (map seg_len segs)"

lemma affected_take:
  "\<forall>s \<in> set M. touches rng s \<Longrightarrow> r + total_len M \<le> u64_max \<Longrightarrow>
   affected_loop mc rng n (M @ rest) (aff, us, ue, r) =
   affected_loop mc rng (n + length M) rest (aff @ [n..<n + length M], lowest us M, highest ue M, r + total_len M)"
proof (induction M arbitrary: n aff us ue r)
  case (Cons s M)
  have "[n..<n + length (s # M)] = n # [Suc n..<Suc n + length M]" by (simp add: upt_rec)
  moreover have "checked_add r (seg_len s) = Some (r + seg_len s)" using Cons.prems(2) by (simp add: checked_add_def)
  ultimately show ?case
    using Cons.IH [of "r + seg_len s" "Suc n" "aff @ [n]" "min us (seg_start s)" "max ue (seg_end s)"] Cons.prems
    by (simp add: lowest_def highest_def add.assoc)
qed (simp add: lowest_def highest_def)

lemma affected_split:
  assumes "\<forall>s \<in> set A. seg_end s < range_start rng" "\<forall>s \<in> set M. touches rng s"
    "\<forall>s \<in> set B. range_end rng < seg_start s" "total_len M \<le> u64_max"
  shows "affected_loop mc rng 0 (A @ M @ B) ([], us, ue, 0) =
    Inr ([length A..<length A + length M], lowest us M, highest ue M, total_len M)"
proof -
  have "\<forall>s \<in> set A. \<not> touches rng s" "\<forall>s \<in> set B. \<not> touches rng s" using assms(1,3) by (auto simp: touches_def)
  then show ?thesis
    using affected_skip [of A rng mc 0 "M @ B"] affected_take [OF assms(2), of 0 mc "length A" B "[]"]
      affected_skip [of B rng mc "length A + length M" "[]"] assms(4)
    by simp
qed

lemma keep_unaffected_split: "keep_unaffected [length A..<length A + length M] (A @ M @ B) = A @ B"
proof -
  let ?keep = "\<lambda>(i, _ :: segment). i \<notin> set [length A..<length A + length M]"
  have "filter ?keep (enumerate 0 A) = enumerate 0 A"
    by (intro filter_True) (auto simp: in_set_enumerate_eq)
  moreover have "filter ?keep (enumerate (length A) M) = []"
    by (auto simp: in_set_enumerate_eq filter_empty_conv)
  moreover have "filter ?keep (enumerate (length A + length M) B) = enumerate (length A + length M) B"
    by (intro filter_True) (auto simp: in_set_enumerate_eq)
  ultimately show ?thesis
    unfolding keep_unaffected_def enumerate_append_eq filter_append add_0 by simp
qed

text \<open>The union of the response and the segments it touches is one interval, apart from the other segments.\<close>

lemma union_interval:
  "\<forall>s \<in> set M. touches rng s \<and> seg_start s < seg_end s \<Longrightarrow> us \<le> range_start rng \<Longrightarrow> range_end rng \<le> ue \<Longrightarrow>
   us < ue \<Longrightarrow> {lowest us M..<highest ue M} = {us..<ue} \<union> cached M"
proof (induction M arbitrary: us ue)
  case (Cons s M)
  let ?u = "min us (seg_start s)" and ?v = "max ue (seg_end s)"
  have s: "seg_start s \<le> range_end rng" "range_start rng \<le> seg_end s" "seg_start s < seg_end s"
    using Cons.prems(1) by (auto simp: touches_def)
  have "{lowest ?u M..<highest ?v M} = {?u..<?v} \<union> cached M"
    by (rule Cons.IH) (use Cons.prems s in auto)
  moreover have "{?u..<?v} = {us..<ue} \<union> {seg_start s..<seg_end s}" using s Cons.prems by auto
  ultimately show ?case by (simp add: lowest_def highest_def Un_assoc)
qed (simp add: lowest_def highest_def)

lemma lowest_simps: "lowest us [] = us" "lowest us (s # M) = lowest (min us (seg_start s)) M"
  by (simp_all add: lowest_def)

lemma highest_simps: "highest ue [] = ue" "highest ue (s # M) = highest (max ue (seg_end s)) M"
  by (simp_all add: highest_def)

lemma lowest_le: "lowest us M \<le> us"
proof (induction M arbitrary: us)
  case (Cons s M)
  then show ?case using Cons [of "min us (seg_start s)"] by (simp add: lowest_simps)
qed (simp add: lowest_simps)

lemma lowest_le_start: "s \<in> set M \<Longrightarrow> lowest us M \<le> seg_start s"
proof (induction M arbitrary: us)
  case (Cons t M)
  then show ?case using lowest_le [of "min us (seg_start t)" M] by (auto simp: lowest_simps)
qed simp

lemma lowest_greater: "n < us \<Longrightarrow> \<forall>s \<in> set M. n < seg_start s \<Longrightarrow> n < lowest us M"
  by (induction M arbitrary: us) (auto simp: lowest_simps)

lemma highest_ge: "ue \<le> highest ue M"
proof (induction M arbitrary: ue)
  case (Cons s M)
  have "ue \<le> max ue (seg_end s)" by simp
  also have "\<dots> \<le> highest (max ue (seg_end s)) M" by (rule Cons)
  finally show ?case by (simp add: highest_simps)
qed (simp add: highest_simps)

lemma highest_ge_end: "s \<in> set M \<Longrightarrow> seg_end s \<le> highest ue M"
proof (induction M arbitrary: ue)
  case (Cons t M)
  then show ?case using highest_ge [of "max ue (seg_end t)" M] by (auto simp: highest_simps)
qed simp

lemma highest_less: "ue < n \<Longrightarrow> \<forall>s \<in> set M. seg_end s < n \<Longrightarrow> highest ue M < n"
  by (induction M arbitrary: ue) (auto simp: highest_simps)

lemma copy_into_union_ok:
  assumes "U \<le> start" "start - U + length src \<le> length u" "length u \<le> u64_max"
  shows "\<exists>u'. copy_into_union U u start src = Inr u' \<and> length u' = length u \<and>
    (\<forall>i < length u. u' ! i = (if start \<le> U + i \<and> U + i < start + length src then src ! (U + i - start) else u ! i))"
proof -
  let ?off = "start - U" and ?u' = "take (start - U) u @ src @ drop (start - U + length src) u"
  have "copy_into_union U u start src = Inr ?u'"
    using assms by (simp add: copy_into_union_def checked_add_def)
  moreover have "length ?u' = length u" using assms by simp
  moreover have "?u' ! i = (if start \<le> U + i \<and> U + i < start + length src then src ! (U + i - start) else u ! i)"
    if "i < length u" for i
  proof (cases "i < ?off")
    case True
    then have "\<not> start \<le> U + i" by simp
    then show ?thesis using True assms that by (simp add: nth_append)
  next
    case False
    then have "U + i - start = i - ?off" using assms(1) by simp
    moreover have "start \<le> U + i" "U + i < start + length src \<longleftrightarrow> i - ?off < length src" using False assms(1) by auto
    ultimately show ?thesis
      using False assms that by (auto simp: nth_append not_less)
  qed
  ultimately show ?thesis by blast
qed

lemma copy_affected_ok:
  "segs_ok (map ((!) segs) idx) \<Longrightarrow> \<forall>i \<in> set idx. U \<le> seg_start (segs ! i) \<and> seg_end (segs ! i) \<le> U + length u \<Longrightarrow>
   length u \<le> u64_max \<Longrightarrow>
   \<exists>u'. copy_affected U segs idx u = Inr u' \<and> length u' = length u \<and>
     (\<forall>i < length u. u' ! i = (case byte_at (map ((!) segs) idx) (U + i) of Some x \<Rightarrow> x | None \<Rightarrow> u ! i))"
proof (induction idx arbitrary: u)
  case (Cons j idx)
  let ?s = "segs ! j" and ?M = "map ((!) segs) idx"
  have s: "seg_ok ?s" "U \<le> seg_start ?s" "seg_end ?s \<le> U + length u" using Cons.prems by auto
  then have fits: "seg_start ?s - U + length (bk_bytes (seg_backing ?s)) \<le> length u"
    "seg_end ?s = seg_start ?s + length (bk_bytes (seg_backing ?s))"
    by (auto simp: seg_ok_def seg_len_def)
  from copy_into_union_ok [OF s(2) fits(1) Cons.prems(3)] obtain v where
    v: "copy_into_union U u (seg_start ?s) (bk_bytes (seg_backing ?s)) = Inr v" "length v = length u"
      "\<forall>i < length u. v ! i = (if holds ?s (U + i) then seg_byte ?s (U + i) else u ! i)"
    by (auto simp: holds_def seg_byte_def fits(2))
  obtain w where w: "copy_affected U segs idx v = Inr w" "length w = length v"
      "\<forall>i < length v. w ! i = (case byte_at ?M (U + i) of Some x \<Rightarrow> x | None \<Rightarrow> v ! i)"
    using Cons.IH [of v] Cons.prems v(2) by auto
  have "byte_at ?M (U + i) = None" if "holds ?s (U + i)" for i
    using that cached_above [of ?s ?M "U + i"] Cons.prems(1) by (force simp: byte_at_None holds_def)
  then show ?case using v w by (auto split: option.splits)
qed auto


definition merge_bytes :: "nat \<Rightarrow> nat \<Rightarrow> segment list \<Rightarrow> nat list \<Rightarrow> byte_range \<Rightarrow> u8 list \<Rightarrow> source_error + u8 list" where
  "merge_bytes union_start merged_len segs affected rng response =
     and_then (copy_affected union_start segs affected (replicate merged_len 0)) (\<lambda>merged_bytes.
       copy_into_union union_start merged_bytes (range_start rng) response)"

text \<open>The split of \<open>touch_split\<close>, as a predicate.\<close>

definition splits_at :: "byte_range \<Rightarrow> segment list \<Rightarrow> segment list \<Rightarrow> segment list \<Rightarrow> bool" where
  "splits_at rng A M B \<longleftrightarrow> segs_ok (A @ M @ B) \<and> range_ok rng \<and> (\<forall>s \<in> set A. seg_end s < range_start rng) \<and>
     (\<forall>s \<in> set M. touches rng s) \<and> (\<forall>s \<in> set B. range_end rng < seg_start s)"

lemma splits_atD:
  assumes "splits_at rng A M B"
  shows "segs_ok A" "segs_ok M" "segs_ok B" "range_ok rng"
    "x \<in> set A \<Longrightarrow> y \<in> set M \<Longrightarrow> seg_end x < seg_start y" "x \<in> set M \<Longrightarrow> y \<in> set B \<Longrightarrow> seg_end x < seg_start y"
    "x \<in> set A \<Longrightarrow> y \<in> set B \<Longrightarrow> seg_end x < seg_start y"
  using assms by (auto simp: splits_at_def segs_ok_append)

lemma splits_at_union:
  assumes "splits_at rng A M B"
  defines "U \<equiv> lowest (range_start rng) M" and "V \<equiv> highest (range_end rng) M"
  shows "{U..<V} = range_bytes rng \<union> cached M" "U \<le> range_start rng" "range_end rng \<le> V" "U < V" "V \<le> u64_max"
    "\<forall>s \<in> set A. seg_end s < U" "\<forall>s \<in> set B. V < seg_start s" "\<forall>s \<in> set M. U \<le> seg_start s \<and> seg_end s \<le> V"
proof -
  note d = splits_atD [OF assms(1)]
  have M: "\<forall>s \<in> set M. touches rng s \<and> seg_start s < seg_end s" "\<forall>s \<in> set M. seg_end s \<le> u64_max"
    using assms(1) d(2) by (auto simp: splits_at_def segs_ok_def seg_ok_def)
  show "{U..<V} = range_bytes rng \<union> cached M"
    unfolding U_def V_def range_bytes_def by (rule union_interval) (use M(1) range_ok_less [OF d(4)] in auto)
  show UV: "U \<le> range_start rng" "range_end rng \<le> V" by (simp_all add: U_def V_def lowest_le highest_ge)
  then show "U < V" using range_ok_less [OF d(4)] by simp
  have "V < Suc u64_max" unfolding V_def
    by (rule highest_less) (use M(2) d(4) in \<open>auto simp: range_ok_def less_Suc_eq_le\<close>)
  then show "V \<le> u64_max" by simp
  show "\<forall>s \<in> set A. seg_end s < U" "\<forall>s \<in> set B. V < seg_start s"
    using assms(1) d(5,6) by (auto simp: U_def V_def splits_at_def intro!: lowest_greater highest_less)
  show "\<forall>s \<in> set M. U \<le> seg_start s \<and> seg_end s \<le> V"
    by (simp add: U_def V_def lowest_le_start highest_ge_end)
qed

lemma map_nth_middle: "map ((!) (A @ M @ B)) [length A..<length A + length M] = M"
proof (rule nth_equalityI)
  fix i assume "i < length (map ((!) (A @ M @ B)) [length A..<length A + length M])"
  then show "map ((!) (A @ M @ B)) [length A..<length A + length M] ! i = M ! i" by (simp add: nth_append)
qed simp

lemma merge_bytes_ok:
  assumes "splits_at rng A M B" "length bytes = range_len rng"
  defines "U \<equiv> lowest (range_start rng) M" and "V \<equiv> highest (range_end rng) M"
  shows "\<exists>u. merge_bytes U (V - U) (A @ M @ B) [length A..<length A + length M] rng bytes = Inr u \<and>
    length u = V - U \<and> (\<forall>a \<in> {U..<V}. Some (u ! (a - U)) =
      (if a \<in> range_bytes rng then Some (bytes ! (a - range_start rng)) else byte_at M a))"
proof -
  let ?segs = "A @ M @ B" and ?idx = "[length A..<length A + length M]" and ?u = "replicate (V - U) (0 :: u8)"
  note un = splits_at_union [OF assms(1), folded U_def V_def]
  have "\<forall>i \<in> set ?idx. ?segs ! i \<in> set M" by (auto simp: nth_append)
  then have "\<forall>i \<in> set ?idx. U \<le> seg_start (?segs ! i) \<and> seg_end (?segs ! i) \<le> U + length ?u"
    using un(4,8) by auto
  from copy_affected_ok [OF _ this] obtain v where v: "copy_affected U ?segs ?idx ?u = Inr v" "length v = V - U"
      "\<forall>i < V - U. v ! i = (case byte_at M (U + i) of Some x \<Rightarrow> x | None \<Rightarrow> ?u ! i)"
    using splits_atD(2) [OF assms(1)] un(5) diff_le_self [of V U] unfolding map_nth_middle
    by (auto simp del: diff_le_self)
  obtain w where w: "copy_into_union U v (range_start rng) bytes = Inr w" "length w = length v"
      "\<forall>i < length v. w ! i = (if range_start rng \<le> U + i \<and> U + i < range_start rng + length bytes
         then bytes ! (U + i - range_start rng) else v ! i)"
  proof -
    have "range_start rng - U + length bytes \<le> length v" "length v \<le> u64_max"
      using un(2,3,5) v(2) assms(2) by (simp_all add: range_end_def)
    from copy_into_union_ok [OF un(2) this] show ?thesis using that by blast
  qed
  have "Some (w ! (a - U)) = (if a \<in> range_bytes rng then Some (bytes ! (a - range_start rng)) else byte_at M a)"
    if "a \<in> {U..<V}" for a
  proof -
    have "a \<in> range_bytes rng \<or> byte_at M a \<noteq> None" using that un(1) by (auto simp: byte_at_None)
    moreover have "a - U < V - U" "U + (a - U) = a" using that by auto
    ultimately show ?thesis
      using w(3) v(2,3) assms(2) by (auto simp: range_bytes_def range_end_def split: option.splits)
  qed
  then show ?thesis using v w by (auto simp: merge_bytes_def)
qed

lemma total_len_card: "segs_ok segs \<Longrightarrow> finite (cached segs) \<and> card (cached segs) = total_len segs"
proof (induction segs)
  case (Cons s segs)
  have "{seg_start s..<seg_end s} \<inter> cached segs = {}" using cached_above [OF Cons.prems] by fastforce
  then show ?case using Cons by (simp add: card_Un_disjoint seg_len_def)
qed simp

lemma insert_segment_middle:
  assumes "\<forall>s \<in> set A. seg_start s < seg_start new" "\<forall>s \<in> set B. seg_start new < seg_start s"
  shows "insert_segment new (A @ B) = A @ new # B"
proof -
  have "takeWhile (\<lambda>seg. seg_start seg < seg_start new) (A @ B) = A"
    using assms by (cases B) (auto simp: takeWhile_append)
  then show ?thesis by (simp add: insert_segment_def)
qed

lemma merged_segs:
  assumes "splits_at rng A M B" "seg_start new = lowest (range_start rng) M" "seg_end new = highest (range_end rng) M"
    "length (bk_bytes (seg_backing new)) = seg_len new"
    "\<forall>a \<in> {seg_start new..<seg_end new}. Some (seg_byte new a) =
      (if a \<in> range_bytes rng then Some (bytes ! (a - range_start rng)) else byte_at M a)"
  shows "insert_segment new (A @ B) = A @ new # B" "segs_ok (A @ new # B)"
    "cached (A @ new # B) = cached (A @ M @ B) \<union> range_bytes rng"
    "byte_at (A @ new # B) a =
      (if a \<in> range_bytes rng then Some (bytes ! (a - range_start rng)) else byte_at (A @ M @ B) a)"
proof -
  note d = splits_atD [OF assms(1)] and un = splits_at_union [OF assms(1), folded assms(2,3)]
  have A: "\<forall>s \<in> set A. seg_start s < seg_end s" using d(1) by (auto simp: segs_ok_def seg_ok_def)
  show "insert_segment new (A @ B) = A @ new # B"
    by (rule insert_segment_middle) (use A un(4,6,7) in force)+
  have "seg_ok new" using un assms(4) by (simp add: seg_ok_def)
  then show "segs_ok (A @ new # B)" using d un by (auto simp: segs_ok_append)
  show "cached (A @ new # B) = cached (A @ M @ B) \<union> range_bytes rng" using un(1) by (auto simp: cached_append)
  have notA: "a \<notin> cached A" if "a \<in> {seg_start new..<seg_end new}"
    using that un(6) by (force simp: cached_def holds_def)
  show "byte_at (A @ new # B) a =
      (if a \<in> range_bytes rng then Some (bytes ! (a - range_start rng)) else byte_at (A @ M @ B) a)"
  proof (cases "a \<in> {seg_start new..<seg_end new}")
    case True
    then have new: "byte_at (A @ new # B) a = Some (seg_byte new a)"
      using notA by (simp add: byte_at_append byte_at_None [symmetric] holds_def)
    moreover have "byte_at A a = None" using notA True by (simp add: byte_at_None)
    moreover have "byte_at M a \<noteq> None" if "a \<notin> range_bytes rng" using that True un(1) by (auto simp: byte_at_None)
    ultimately show ?thesis using assms(5) True by (auto simp: byte_at_append)
  next
    case False
    then have "a \<notin> range_bytes rng" "byte_at M a = None" "\<not> holds new a"
      using un(1) by (auto simp: byte_at_None holds_def)
    then show ?thesis by (simp add: byte_at_append split: option.split)
  qed
qed

end
