(* ===== verification/Bytes_Store.thy ===== *)
theory Bytes_Store
  imports Bytes_Segs
begin

text \<open>
  The range store (\<open>pdf-rs/bytes/src/store.rs\<close>) and the resident-byte accounting of \<open>source.rs\<close>: its
  limits, tickets, state and every operation. An operation returns the store and a \<open>Result\<close>. The
  operations run under the state lock; what happens outside it is explicit: \<open>supply\<close> reserves resident
  bytes before it takes the lock and is split there (\<open>supply_begin\<close>, \<open>supply_commit\<close>), and a signal that
  another thread raises while an operation runs is an input of the operation. Two components of the state
  are the environment's: the responses that wait for the lock, and the backings that slices keep alive.
\<close>

section \<open>Limits\<close>

record range_store_limits =
  max_input_bytes :: nat
  max_read_bytes :: nat
  max_cached_bytes :: nat
  max_resident_bytes :: nat
  max_segments :: nat
  max_tickets :: nat
  max_subscribers_per_ticket :: nat
  max_total_subscriptions :: nat
  max_missing_ranges :: nat

definition range_store_limits_validate :: "range_store_limits \<Rightarrow> source_error + range_store_limits" where
  "range_store_limits_validate config =
     (if max_input_bytes config = 0
       \<or> max_input_bytes config > 1024 * 1024 * 1024
       \<or> max_read_bytes config = 0
       \<or> max_read_bytes config > 16 * 1024 * 1024
       \<or> max_read_bytes config > max_input_bytes config
       \<or> max_cached_bytes config < max_read_bytes config
       \<or> max_cached_bytes config > 64 * 1024 * 1024
       \<or> max_resident_bytes config < max_cached_bytes config
       \<or> max_resident_bytes config > 128 * 1024 * 1024
       \<or> max_segments config = 0
       \<or> max_segments config > 4096
       \<or> max_tickets config = 0
       \<or> max_tickets config > 4096
       \<or> max_subscribers_per_ticket config = 0
       \<or> max_subscribers_per_ticket config > 4096
       \<or> max_total_subscriptions config = 0
       \<or> max_total_subscriptions config > 16384
       \<or> max_missing_ranges config = 0
       \<or> max_missing_ranges config > 256
      then Inl (source_error_for_code SInvalidLimits)
      else Inr config)"

definition range_store_limit_config_default :: range_store_limits where
  "range_store_limit_config_default =
     \<lparr>max_input_bytes = 256 * 1024 * 1024, max_read_bytes = 1024 * 1024, max_cached_bytes = 16 * 1024 * 1024,
      max_resident_bytes = 48 * 1024 * 1024, max_segments = 256, max_tickets = 256,
      max_subscribers_per_ticket = 256, max_total_subscriptions = 1024, max_missing_ranges = 64\<rparr>"

section \<open>Resident bytes\<close>

text \<open>The atomic counter; a reservation is the number of bytes it holds, and dropping one releases them.\<close>

record resident_tracker =
  rt_current :: nat
  rt_max :: nat

definition tracker_new :: "nat \<Rightarrow> resident_tracker" where
  "tracker_new m = \<lparr>rt_current = 0, rt_max = m\<rparr>"

definition try_reserve :: "resident_tracker \<Rightarrow> nat \<Rightarrow> source_error + resident_tracker \<times> nat" where
  "try_reserve t bytes =
     and_then (ok_or (checked_add (rt_current t) bytes) (source_error_resource ResidentBytes (rt_max t) u64_max))
       (\<lambda>attempted.
         if attempted > rt_max t then Inl (source_error_resource ResidentBytes (rt_max t) attempted)
         else Inr (t\<lparr>rt_current := attempted\<rparr>, bytes))"

definition try_reserve_remaining :: "resident_tracker \<Rightarrow> nat \<Rightarrow> source_error + resident_tracker \<times> nat" where
  "try_reserve_remaining t minimum =
     and_then (ok_or (checked_sub (rt_max t) (rt_current t)) (source_error_for_code SInternalState)) (\<lambda>available.
       if available < minimum
       then Inl (source_error_resource ResidentBytes (rt_max t) (saturating_add (rt_current t) minimum))
       else Inr (t\<lparr>rt_current := rt_max t\<rparr>, available))"

definition release_bytes :: "resident_tracker \<Rightarrow> nat \<Rightarrow> resident_tracker" where
  "release_bytes t bytes = t\<lparr>rt_current := (rt_current t + (u64_max + 1) - bytes) mod (u64_max + 1)\<rparr>"

definition shrink_to :: "resident_tracker \<Rightarrow> nat \<Rightarrow> nat \<Rightarrow> source_error + resident_tracker \<times> nat" where
  "shrink_to t reserved bytes =
     and_then (ok_or (checked_sub reserved bytes) (source_error_for_code SInternalState)) (\<lambda>released.
       Inr (if released \<noteq> 0 then release_bytes t released else t, bytes))"

definition adopt_vec :: "nat \<Rightarrow> nat \<Rightarrow> u8 list \<Rightarrow> nat \<Rightarrow> source_error + backing_bytes" where
  "adopt_vec reserved backing_id bytes capacity =
     (if capacity \<noteq> reserved then Inl (source_error_for_code SInternalState)
      else Inr \<lparr>bk_id = backing_id, bk_bytes = bytes, bk_reserved = reserved\<rparr>)"

section \<open>Tickets and state\<close>

datatype ticket_phase = Pending | Ready | TFailed source_error | TSourceChanged | Abandoned

datatype ticket_view =
  StatusPending nat | StatusReady | StatusFailed source_error | StatusSourceChanged | StatusAbandoned

record ticket_record =
  tr_ticket :: data_ticket
  tr_missing :: small_ranges
  tr_subscribers :: "resume_subscription list"
  tr_phase :: ticket_phase

record supply_outcome =
  so_cached_bytes :: nat
  so_ready_tickets :: "data_ticket list"

record store_state =
  st_segments :: "segment list"
  st_cached_bytes :: nat
  st_tickets :: "ticket_record list"
  st_next_ticket :: nat
  st_observed_len :: "nat option"
  st_subscription_count :: nat

text \<open>A response between its reservation and the state lock.\<close>

record queued_response =
  qr_snapshot :: source_snapshot
  qr_range :: byte_range
  qr_backing :: backing_bytes

record range_store =
  rs_namespace :: nat
  rs_snapshot :: source_snapshot
  rs_limits :: range_store_limits
  rs_resident :: resident_tracker
  rs_source_changed :: bool
  rs_state :: store_state
  rs_next_backing :: nat
  rs_queued :: "queued_response list"
  rs_lent :: "backing_bytes list"

text \<open>What the environment decides while an operation runs: the allocator, and whether a concurrent
  \<open>signal_source_changed\<close> has raised the flag by the time of a probe.\<close>

record store_host =
  sh_alloc :: allocator
  sh_signal :: "nat \<Rightarrow> bool"

abbreviation map_state :: "(store_state \<Rightarrow> store_state) \<Rightarrow> range_store \<Rightarrow> range_store" where
  "map_state f store \<equiv> store\<lparr>rs_state := f (rs_state store)\<rparr>"

abbreviation changed_error :: source_error where
  "changed_error \<equiv> source_error_for_code SSourceChanged"

definition allocation_failed :: "nat \<Rightarrow> nat \<Rightarrow> source_error" where
  "allocation_failed limit attempted = source_error_resource SourceAllocation limit attempted"

text \<open>The namespace counter is shared by every store of the process.\<close>

definition range_store_new ::
  "store_host \<Rightarrow> nat \<Rightarrow> source_snapshot \<Rightarrow> range_store_limits \<Rightarrow> nat \<times> (source_error + range_store)" where
  "range_store_new h next_namespace snapshot limits =
     (case (case snapshot_len snapshot of
              Some input_bytes \<Rightarrow>
                if input_bytes > max_input_bytes limits
                then Inl (source_error_resource SourceInputBytes (max_input_bytes limits) input_bytes)
                else Inr ()
            | None \<Rightarrow> Inr ()) of
        Inl e \<Rightarrow> (next_namespace, Inl e)
      | Inr _ \<Rightarrow>
        if try_alloc (sh_alloc h) 0 (max_segments limits) = None
        then (next_namespace, Inl (allocation_failed (max_segments limits) (max_segments limits)))
        else if try_alloc (sh_alloc h) 1 (max_tickets limits) = None
        then (next_namespace, Inl (allocation_failed (max_tickets limits) (max_tickets limits)))
        else case checked_add next_namespace 1 of
          None \<Rightarrow> (next_namespace, Inl (source_error_for_code SInternalState))
        | Some following \<Rightarrow> (following, Inr
            \<lparr>rs_namespace = next_namespace, rs_snapshot = snapshot, rs_limits = limits,
             rs_resident = tracker_new (max_resident_bytes limits), rs_source_changed = False,
             rs_state = \<lparr>st_segments = [], st_cached_bytes = 0, st_tickets = [], st_next_ticket = 1,
               st_observed_len = snapshot_len snapshot, st_subscription_count = 0\<rparr>,
             rs_next_backing = 0, rs_queued = [], rs_lent = []\<rparr>))"

definition store_cached_bytes :: "range_store \<Rightarrow> nat" where
  "store_cached_bytes store = st_cached_bytes (rs_state store)"

definition resident_bytes :: "range_store \<Rightarrow> nat" where
  "resident_bytes store = rt_current (rs_resident store)"

section \<open>Source changes\<close>

definition phase_changed :: "ticket_record \<Rightarrow> ticket_record" where
  "phase_changed r = (if tr_phase r = Pending then r\<lparr>tr_phase := TSourceChanged\<rparr> else r)"

definition transition_source_changed :: "store_state \<Rightarrow> store_state" where
  "transition_source_changed st = st\<lparr>st_tickets := map phase_changed (st_tickets st)\<rparr>"

definition source_change_precedes_commit :: "store_host \<Rightarrow> nat \<Rightarrow> range_store \<Rightarrow> range_store \<times> bool" where
  "source_change_precedes_commit h probe store =
     (let changed = rs_source_changed store \<or> sh_signal h probe in (store\<lparr>rs_source_changed := changed\<rparr>, changed))"

definition synchronize_source_change :: "store_host \<Rightarrow> nat \<Rightarrow> range_store \<Rightarrow> range_store \<times> bool" where
  "synchronize_source_change h probe store =
     (let (store, changed) = source_change_precedes_commit h probe store in
      (if changed then map_state transition_source_changed store else store, changed))"

definition poison_source :: "range_store \<Rightarrow> range_store" where
  "poison_source store = map_state transition_source_changed (store\<lparr>rs_source_changed := True\<rparr>)"

definition signal_source_changed :: "range_store \<Rightarrow> range_store \<times> (source_error + unit)" where
  "signal_source_changed store = (poison_source store, Inr ())"

definition same_source :: "range_store \<Rightarrow> source_snapshot \<Rightarrow> bool" where
  "same_source store observed \<longleftrightarrow>
     snapshot_identity observed = snapshot_identity (rs_snapshot store) \<and>
     snapshot_validator observed = snapshot_validator (rs_snapshot store)"

definition cached_past :: "segment list \<Rightarrow> nat \<Rightarrow> bool" where
  "cached_past segs observed \<longleftrightarrow> segs \<noteq> [] \<and> seg_end (last segs) > observed"

definition reject_if_observed_metadata_conflicts ::
  "store_host \<Rightarrow> nat \<Rightarrow> source_snapshot \<Rightarrow> range_store \<Rightarrow> range_store \<times> (source_error + unit)" where
  "reject_if_observed_metadata_conflicts h probe observed_snapshot store =
     (let (store, changed) = synchronize_source_change h probe store in
      if changed then (store, Inl changed_error)
      else let conflicts = (case (st_observed_len (rs_state store), snapshot_len observed_snapshot) of
             (Some expected, Some observed) \<Rightarrow> expected \<noteq> observed
           | (Some _, None) \<Rightarrow> True
           | (None, Some observed) \<Rightarrow> cached_past (st_segments (rs_state store)) observed
           | (None, None) \<Rightarrow> False)
        in if conflicts then (poison_source store, Inl changed_error) else (store, Inr ()))"

text \<open>The length that an observation binds.\<close>

datatype bind_observed = BindKeep | BindTo nat | BindConflict | BindTooLong source_error

definition bind_observed_len :: "range_store_limits \<Rightarrow> store_state \<Rightarrow> source_snapshot \<Rightarrow> bind_observed" where
  "bind_observed_len limits st observed_snapshot =
     (case (st_observed_len st, snapshot_len observed_snapshot) of
        (Some expected, Some observed) \<Rightarrow> if expected = observed then BindKeep else BindConflict
      | (Some _, None) \<Rightarrow> BindConflict
      | (None, Some observed) \<Rightarrow>
          if observed > max_input_bytes limits
          then BindTooLong (source_error_resource SourceInputBytes (max_input_bytes limits) observed)
          else if cached_past (st_segments st) observed then BindConflict
          else BindTo observed
      | (None, None) \<Rightarrow> BindKeep)"

definition missing_crosses_eof :: "small_ranges \<Rightarrow> nat \<Rightarrow> bool" where
  "missing_crosses_eof missing observed_len \<longleftrightarrow> missing \<noteq> [] \<and> range_end (last missing) > observed_len"

fun complete_loop :: "nat \<Rightarrow> ticket_record list \<Rightarrow> ticket_record list \<times> data_ticket list" where
  "complete_loop observed [] = ([], [])"
| "complete_loop observed (r # rs) =
     (let (rs', ready) = complete_loop observed rs in
      if tr_phase r = Pending \<and> missing_crosses_eof (tr_missing r) observed
      then (r\<lparr>tr_phase := Ready\<rparr> # rs', tr_ticket r # ready) else (r # rs', ready))"

definition complete_tickets_at_eof :: "nat \<Rightarrow> store_state \<Rightarrow> store_state \<times> data_ticket list" where
  "complete_tickets_at_eof observed st =
     (let (tickets, ready) = complete_loop observed (st_tickets st) in (st\<lparr>st_tickets := tickets\<rparr>, ready))"

text \<open>The commit of an observed length, shared by \<open>observe_snapshot\<close> and a \<open>supply\<close> of cached bytes.\<close>

definition commit_observed :: "bind_observed \<Rightarrow> store_state \<Rightarrow> store_state \<times> supply_outcome" where
  "commit_observed bind st =
     (case bind of
        BindTo observed \<Rightarrow>
          let (st, ready) = complete_tickets_at_eof observed (st\<lparr>st_observed_len := Some observed\<rparr>)
          in (st, \<lparr>so_cached_bytes = st_cached_bytes st, so_ready_tickets = ready\<rparr>)
      | _ \<Rightarrow> (st, \<lparr>so_cached_bytes = st_cached_bytes st, so_ready_tickets = []\<rparr>))"

definition observe_snapshot ::
  "store_host \<Rightarrow> source_snapshot \<Rightarrow> range_store \<Rightarrow> range_store \<times> (source_error + supply_outcome)" where
  "observe_snapshot h observed_snapshot store =
     (let (store, changed) = source_change_precedes_commit h 0 store in
      if changed then (map_state transition_source_changed store, Inl changed_error)
      else if \<not> same_source store observed_snapshot then (poison_source store, Inl changed_error)
      else let (store, changed) = synchronize_source_change h 1 store in
      if changed then (store, Inl changed_error)
      else case bind_observed_len (rs_limits store) (rs_state store) observed_snapshot of
        BindConflict \<Rightarrow> (poison_source store, Inl changed_error)
      | BindTooLong e \<Rightarrow> (store, Inl e)
      | bind \<Rightarrow>
        let tickets = length (st_tickets (rs_state store)) in
        if try_alloc (sh_alloc h) 0 tickets = None
        then (store, Inl (allocation_failed (max_tickets (rs_limits store)) tickets))
        else let (store, changed) = source_change_precedes_commit h 2 store in
        if changed then (map_state transition_source_changed store, Inl changed_error)
        else let (st, outcome) = commit_observed bind (rs_state store) in (store\<lparr>rs_state := st\<rparr>, Inr outcome))"


section \<open>Supplying bytes\<close>

text \<open>Before the lock: a response is checked and reserves its capacity. \<open>Inr\<close> carries the queued response.\<close>

definition reject_response ::
  "store_host \<Rightarrow> source_snapshot \<Rightarrow> source_error \<Rightarrow> range_store \<Rightarrow> range_store \<times> (source_error + 'a)" where
  "reject_response h observed_snapshot error store =
     (case reject_if_observed_metadata_conflicts h 1 observed_snapshot store of
        (store, Inl e) \<Rightarrow> (store, Inl e)
      | (store, Inr _) \<Rightarrow> (store, Inl error))"

definition supply_begin ::
  "store_host \<Rightarrow> range_response \<Rightarrow> range_store \<Rightarrow> range_store \<times> (source_error + queued_response)" where
  "supply_begin h response store =
     (let observed_snapshot = rr_snapshot response; rng = rr_range response;
          (store, changed) = source_change_precedes_commit h 0 store in
      if changed then (map_state transition_source_changed store, Inl changed_error)
      else if \<not> same_source store observed_snapshot then (poison_source store, Inl changed_error)
      else if range_len rng > max_read_bytes (rs_limits store)
      then reject_response h observed_snapshot
             (source_error_resource ReadBytes (max_read_bytes (rs_limits store)) (range_len rng)) store
      else if range_end rng > max_input_bytes (rs_limits store)
      then reject_response h observed_snapshot
             (source_error_resource SourceInputBytes (max_input_bytes (rs_limits store)) (range_end rng)) store
      else case try_reserve (rs_resident store) (rr_capacity response) of
        Inl e \<Rightarrow> reject_response h observed_snapshot e store
      | Inr (resident, reserved) \<Rightarrow>
        (case adopt_vec reserved (rs_next_backing store) (rr_bytes response) (rr_capacity response) of
           Inl e \<Rightarrow> (store, Inl e)
         | Inr backing \<Rightarrow>
           let queued = \<lparr>qr_snapshot = observed_snapshot, qr_range = rng, qr_backing = backing\<rparr>
           in (store\<lparr>rs_resident := resident, rs_next_backing := rs_next_backing store + 1,
                     rs_queued := rs_queued store @ [queued]\<rparr>, Inr queued)))"

text \<open>Under the lock. A backing is released when nothing else holds it.\<close>

definition drop_response :: "queued_response \<Rightarrow> range_store \<Rightarrow> range_store" where
  "drop_response queued store =
     store\<lparr>rs_resident := release_bytes (rs_resident store) (bk_reserved (qr_backing queued)),
           rs_queued := remove1 queued (rs_queued store)\<rparr>"

definition merged_backing ::
  "allocator \<Rightarrow> range_store \<Rightarrow> queued_response \<Rightarrow> nat list \<Rightarrow> nat \<Rightarrow> nat \<Rightarrow> source_error + backing_bytes \<times> resident_tracker" where
  "merged_backing alloc store queued affected union_start merged_len =
     (let limit = max_resident_bytes (rs_limits store) in
      if affected = [] then Inr (qr_backing queued, rs_resident store)
      else and_then (try_reserve_remaining (rs_resident store) merged_len) (\<lambda>(resident, reserved).
        and_then (ok_or (try_alloc alloc 2 merged_len) (allocation_failed limit merged_len)) (\<lambda>merged_capacity.
        if merged_capacity > reserved
        then and_then (ok_or (checked_sub limit reserved) (source_error_for_code SInternalState))
               (\<lambda>before. Inl (source_error_resource ResidentBytes limit (saturating_add before merged_capacity)))
        else and_then (merge_bytes union_start merged_len (st_segments (rs_state store)) affected (qr_range queued)
                         (bk_bytes (qr_backing queued))) (\<lambda>merged_bytes.
          let resident = release_bytes resident (bk_reserved (qr_backing queued)) in
          and_then (shrink_to resident reserved merged_capacity) (\<lambda>(resident, reserved).
          and_then (adopt_vec reserved (rs_next_backing store) merged_bytes merged_capacity) (\<lambda>backing.
            Inr (backing, resident)))))))"

fun ticket_updates_loop ::
  "allocator \<Rightarrow> segment list \<Rightarrow> nat \<Rightarrow> bind_observed \<Rightarrow> nat \<Rightarrow> ticket_record list
     \<Rightarrow> source_error + (nat \<times> small_ranges option) list" where
  "ticket_updates_loop alloc segs max_ranges bind index [] = Inr []"
| "ticket_updates_loop alloc segs max_ranges bind index (r # rs) =
     (if tr_phase r = Pending
      then and_then (remaining_missing_ranges alloc (5 + index) segs (tr_missing r) max_ranges) (\<lambda>remaining.
        let resolves_at_eof = (case bind of
              BindTo observed \<Rightarrow> (case remaining of None \<Rightarrow> False | Some missing \<Rightarrow> missing_crosses_eof missing observed)
            | _ \<Rightarrow> False) in
        and_then (ticket_updates_loop alloc segs max_ranges bind (Suc index) rs) (\<lambda>updates.
          Inr ((index, if resolves_at_eof then None else remaining) # updates)))
      else ticket_updates_loop alloc segs max_ranges bind (Suc index) rs)"

record staged_supply =
  sg_segments :: "segment list"
  sg_affected :: "nat list"
  sg_cached_bytes :: nat
  sg_resident :: resident_tracker
  sg_updates :: "(nat \<times> small_ranges option) list"

definition stage_supply ::
  "allocator \<Rightarrow> range_store \<Rightarrow> queued_response \<Rightarrow> bind_observed \<Rightarrow> source_error + staged_supply" where
  "stage_supply alloc store queued bind =
     (let st = rs_state store; limits = rs_limits store; rng = qr_range queued; segs = st_segments st in
      and_then (ok_or (try_alloc alloc 1 (length segs)) (allocation_failed (max_segments limits) (length segs))) (\<lambda>_.
      and_then (affected_loop (max_cached_bytes limits) rng 0 segs ([], range_start rng, range_end rng, 0))
        (\<lambda>(affected, union_start, union_end, removed_bytes).
      and_then (ok_or (checked_sub union_end union_start) (source_error_for_code SInternalState)) (\<lambda>merged_len.
      and_then (ok_or (checked_sub (st_cached_bytes st) removed_bytes) (source_error_for_code SInternalState))
        (\<lambda>cached_without_affected.
      and_then (ok_or (checked_add cached_without_affected merged_len)
          (source_error_resource CachedBytes (max_cached_bytes limits) u64_max)) (\<lambda>new_cached_bytes.
      if new_cached_bytes > max_cached_bytes limits
      then Inl (source_error_resource CachedBytes (max_cached_bytes limits) new_cached_bytes)
      else and_then (ok_or (Option.bind (checked_sub (length segs) (length affected)) (\<lambda>count. checked_add count 1))
          (source_error_resource Segments (max_segments limits) u64_max)) (\<lambda>new_segment_count.
      if new_segment_count > max_segments limits
      then Inl (source_error_resource Segments (max_segments limits) new_segment_count)
      else and_then (merged_backing alloc store queued affected union_start merged_len) (\<lambda>(backing, resident).
      and_then (ok_or (try_alloc alloc 3 (max_segments limits))
          (allocation_failed (max_segments limits) new_segment_count)) (\<lambda>_.
      let segs' = insert_segment \<lparr>seg_start = union_start, seg_end = union_end, seg_backing = backing\<rparr>
                    (keep_unaffected affected segs) in
      and_then (ok_or (try_alloc alloc 4 (length (st_tickets st)))
          (allocation_failed (max_tickets limits) (length (st_tickets st)))) (\<lambda>_.
      and_then (ticket_updates_loop alloc segs' (max_missing_ranges limits) bind 0 (st_tickets st)) (\<lambda>updates.
        Inr \<lparr>sg_segments = segs', sg_affected = affected, sg_cached_bytes = new_cached_bytes,
             sg_resident = resident, sg_updates = updates\<rparr>)))))))))))"

text \<open>The writes of a staged supply: the new segments replace the old ones, whose backings go unless a
  slice keeps them, and each pending ticket gets its remaining ranges or is ready.\<close>

fun apply_updates ::
  "(nat \<times> small_ranges option) list \<Rightarrow> ticket_record list \<Rightarrow> ticket_record list \<times> data_ticket list" where
  "apply_updates [] tickets = (tickets, [])"
| "apply_updates ((index, Some missing) # updates) tickets =
     apply_updates updates (tickets[index := (tickets ! index)\<lparr>tr_missing := missing\<rparr>])"
| "apply_updates ((index, None) # updates) tickets =
     (let (tickets', ready) = apply_updates updates (tickets[index := (tickets ! index)\<lparr>tr_phase := Ready\<rparr>])
      in (tickets', tr_ticket (tickets ! index) # ready))"

fun release_dropped :: "backing_bytes list \<Rightarrow> backing_bytes list \<Rightarrow> resident_tracker \<Rightarrow> resident_tracker" where
  "release_dropped kept [] t = t"
| "release_dropped kept (b # bs) t =
     release_dropped kept bs (if b \<in> set kept then t else release_bytes t (bk_reserved b))"

definition commit_supply ::
  "staged_supply \<Rightarrow> bind_observed \<Rightarrow> queued_response \<Rightarrow> range_store \<Rightarrow> range_store \<times> supply_outcome" where
  "commit_supply staged bind queued store =
     (let st = rs_state store;
          (tickets, ready) = apply_updates (sg_updates staged) (st_tickets st);
          dropped = map (\<lambda>index. seg_backing (st_segments st ! index)) (sg_affected staged);
          st' = st\<lparr>st_segments := sg_segments staged, st_cached_bytes := sg_cached_bytes staged,
                   st_observed_len := (case bind of BindTo observed \<Rightarrow> Some observed | _ \<Rightarrow> st_observed_len st),
                   st_tickets := tickets\<rparr>
      in (store\<lparr>rs_state := st', rs_next_backing := rs_next_backing store + 1,
                rs_resident := release_dropped (rs_lent store) dropped (sg_resident staged),
                rs_queued := remove1 queued (rs_queued store)\<rparr>,
          \<lparr>so_cached_bytes = sg_cached_bytes staged, so_ready_tickets = ready\<rparr>))"

definition supply_commit ::
  "store_host \<Rightarrow> queued_response \<Rightarrow> range_store \<Rightarrow> range_store \<times> (source_error + supply_outcome)" where
  "supply_commit h queued store =
     (let (store, changed) = synchronize_source_change h 0 store in
      if changed then (drop_response queued store, Inl changed_error)
      else case bind_observed_len (rs_limits store) (rs_state store) (qr_snapshot queued) of
        BindConflict \<Rightarrow> (drop_response queued (poison_source store), Inl changed_error)
      | BindTooLong e \<Rightarrow> (drop_response queued store, Inl e)
      | bind \<Rightarrow>
        let st = rs_state store; tickets = length (st_tickets st);
            response = bk_bytes (qr_backing queued) in
        if try_alloc (sh_alloc h) 0 tickets = None
        then (drop_response queued store, Inl (allocation_failed (max_tickets (rs_limits store)) tickets))
        else case conflicts_loop (qr_range queued) response (st_segments st) of
          Inl e \<Rightarrow> (drop_response queued store, Inl e)
        | Inr True \<Rightarrow> (drop_response queued (poison_source store), Inl (source_error_for_code SConflictingBytes))
        | Inr False \<Rightarrow>
          if range_is_covered (st_segments st) (qr_range queued)
          then let (store, changed) = source_change_precedes_commit h 1 store in
            if changed then (drop_response queued (map_state transition_source_changed store), Inl changed_error)
            else let (st, outcome) = commit_observed bind (rs_state store)
              in (drop_response queued (store\<lparr>rs_state := st\<rparr>), Inr outcome)
          else case stage_supply (sh_alloc h) store queued bind of
            Inl e \<Rightarrow> (drop_response queued store, Inl e)
          | Inr staged \<Rightarrow>
            let (store, changed) = source_change_precedes_commit h 1 store in
            if changed then (drop_response queued (map_state transition_source_changed store), Inl changed_error)
            else let (store, outcome) = commit_supply staged bind queued store in (store, Inr outcome))"

definition supply_response ::
  "store_host \<Rightarrow> store_host \<Rightarrow> range_response \<Rightarrow> range_store \<Rightarrow> range_store \<times> (source_error + supply_outcome)" where
  "supply_response h h' response store =
     (case supply_begin h response store of
        (store, Inl e) \<Rightarrow> (store, Inl e)
      | (store, Inr queued) \<Rightarrow> supply_commit h' queued store)"

section \<open>Tickets\<close>

definition find_ticket :: "store_state \<Rightarrow> data_ticket \<Rightarrow> source_error + nat" where
  "find_ticket st ticket =
     ok_or (position (\<lambda>r. tr_ticket r = ticket) (st_tickets st)) (source_error_for_code SUnknownTicket)"

abbreviation set_ticket :: "nat \<Rightarrow> ticket_record \<Rightarrow> store_state \<Rightarrow> store_state" where
  "set_ticket index r st \<equiv> st\<lparr>st_tickets := (st_tickets st)[index := r]\<rparr>"

definition fail_ticket ::
  "store_host \<Rightarrow> data_ticket \<Rightarrow> source_error \<Rightarrow> range_store \<Rightarrow> range_store \<times> (source_error + unit)" where
  "fail_ticket h ticket error store =
     (let (store, _) = synchronize_source_change h 0 store in
      case find_ticket (rs_state store) ticket of
        Inl e \<Rightarrow> (store, Inl e)
      | Inr index \<Rightarrow>
        if se_category error = SIntegrity then (poison_source store, Inr ())
        else let r = st_tickets (rs_state store) ! index in
          if tr_phase r \<noteq> Pending then (store, Inl (source_error_for_code STicketAlreadyTerminal))
          else (map_state (set_ticket index (r\<lparr>tr_phase := TFailed error\<rparr>)) store, Inr ()))"

text \<open>\<open>subscription_count\<close> less some subscriptions, with the check the code makes.\<close>

definition uncount_subscriptions :: "nat \<Rightarrow> 'a \<Rightarrow> range_store \<Rightarrow> range_store \<times> (source_error + 'a)" where
  "uncount_subscriptions removed result store =
     (case checked_sub (st_subscription_count (rs_state store)) removed of
        None \<Rightarrow> (store, Inl (source_error_for_code SInternalState))
      | Some count \<Rightarrow> (map_state (\<lambda>st. st\<lparr>st_subscription_count := count\<rparr>) store, Inr result))"

definition unsubscribe ::
  "store_host \<Rightarrow> data_ticket \<Rightarrow> nat \<Rightarrow> range_store \<Rightarrow> range_store \<times> (source_error + unit)" where
  "unsubscribe h ticket job store =
     (let (store, _) = synchronize_source_change h 0 store in
      case find_ticket (rs_state store) ticket of
        Inl e \<Rightarrow> (store, Inl e)
      | Inr index \<Rightarrow>
        let r = st_tickets (rs_state store) ! index in
        if tr_phase r \<noteq> Pending then (store, Inl (source_error_for_code STicketAlreadyTerminal))
        else let subscribers = filter (\<lambda>s. sub_job s \<noteq> job) (tr_subscribers r);
                 removed = length (tr_subscribers r) - length subscribers;
                 r' = r\<lparr>tr_subscribers := subscribers, tr_phase := (if subscribers = [] then Abandoned else Pending)\<rparr>
          in uncount_subscriptions removed () (map_state (set_ticket index r') store))"

definition take_subscriptions ::
  "store_host \<Rightarrow> data_ticket \<Rightarrow> range_store \<Rightarrow> range_store \<times> (source_error + resume_subscription list)" where
  "take_subscriptions h ticket store =
     (let (store, _) = synchronize_source_change h 0 store in
      case find_ticket (rs_state store) ticket of
        Inl e \<Rightarrow> (store, Inl e)
      | Inr index \<Rightarrow>
        let r = st_tickets (rs_state store) ! index in
        if tr_phase r = Pending then (store, Inl (source_error_for_code STicketNotTerminal))
        else uncount_subscriptions (length (tr_subscribers r)) (tr_subscribers r)
               (map_state (set_ticket index (r\<lparr>tr_subscribers := []\<rparr>)) store))"

fun phase_status :: "ticket_record \<Rightarrow> ticket_phase \<Rightarrow> ticket_view" where
  "phase_status r Pending = StatusPending (length (tr_subscribers r))"
| "phase_status r Ready = StatusReady"
| "phase_status r (TFailed error) = StatusFailed error"
| "phase_status r TSourceChanged = StatusSourceChanged"
| "phase_status r Abandoned = StatusAbandoned"

definition ticket_status ::
  "store_host \<Rightarrow> data_ticket \<Rightarrow> range_store \<Rightarrow> range_store \<times> (source_error + ticket_view)" where
  "ticket_status h ticket store =
     (let (store, _) = synchronize_source_change h 0 store in
      case find_ticket (rs_state store) ticket of
        Inl e \<Rightarrow> (store, Inl e)
      | Inr index \<Rightarrow> let r = st_tickets (rs_state store) ! index in (store, Inr (phase_status r (tr_phase r))))"

definition release_ticket ::
  "store_host \<Rightarrow> data_ticket \<Rightarrow> range_store \<Rightarrow> range_store \<times> (source_error + unit)" where
  "release_ticket h ticket store =
     (let (store, _) = synchronize_source_change h 0 store in
      case find_ticket (rs_state store) ticket of
        Inl e \<Rightarrow> (store, Inl e)
      | Inr index \<Rightarrow>
        let r = st_tickets (rs_state store) ! index in
        if tr_phase r = Pending then (store, Inl (source_error_for_code STicketNotTerminal))
        else if tr_subscribers r \<noteq> [] then (store, Inl (source_error_for_code SSubscriptionsNotTaken))
        else uncount_subscriptions (length (tr_subscribers r)) ()
               (map_state (\<lambda>st. st\<lparr>st_tickets := remove_at index (st_tickets st)\<rparr>) store))"

section \<open>Polling\<close>

definition join_ticket ::
  "store_host \<Rightarrow> read_request \<Rightarrow> small_ranges \<Rightarrow> nat \<Rightarrow> range_store \<Rightarrow> range_store \<times> read_poll" where
  "join_ticket h request missing index store =
     (let st = rs_state store; limits = rs_limits store; r = st_tickets st ! index;
          subscriber = \<lparr>sub_job = rq_job request, sub_checkpoint = rq_checkpoint request\<rparr> in
      case find (\<lambda>existing. sub_job existing = rq_job request) (tr_subscribers r) of
        Some existing \<Rightarrow>
          if sub_checkpoint existing \<noteq> rq_checkpoint request
          then (store, PollFailed (source_error_for_code SCheckpointConflict))
          else (store, PollPending (tr_ticket r) missing)
      | None \<Rightarrow>
          if st_subscription_count st \<ge> max_total_subscriptions limits
          then (store, PollFailed (source_error_resource TotalSubscriptions (max_total_subscriptions limits)
                  (st_subscription_count st + 1)))
          else if subscriber \<in> set (tr_subscribers r) then (store, PollPending (tr_ticket r) missing)
          else if length (tr_subscribers r) \<ge> max_subscribers_per_ticket limits
          then (store, PollFailed (source_error_resource TicketSubscribers (max_subscribers_per_ticket limits)
                  (length (tr_subscribers r) + 1)))
          else if try_alloc (sh_alloc h) 1 1 = None
          then (store, PollFailed (allocation_failed (max_subscribers_per_ticket limits)
                  (length (tr_subscribers r) + 1)))
          else (map_state (\<lambda>st. set_ticket index (r\<lparr>tr_subscribers := tr_subscribers r @ [subscriber]\<rparr>) st
                  \<lparr>st_subscription_count := st_subscription_count st + 1\<rparr>) store,
                PollPending (tr_ticket r) missing))"

definition open_ticket ::
  "store_host \<Rightarrow> read_request \<Rightarrow> small_ranges \<Rightarrow> range_store \<Rightarrow> range_store \<times> read_poll" where
  "open_ticket h request missing store =
     (let st = rs_state store; limits = rs_limits store in
      if length (st_tickets st) \<ge> max_tickets limits
      then (store, PollFailed (source_error_resource Tickets (max_tickets limits) (length (st_tickets st) + 1)))
      else if st_subscription_count st \<ge> max_total_subscriptions limits
      then (store, PollFailed (source_error_resource TotalSubscriptions (max_total_subscriptions limits)
              (st_subscription_count st + 1)))
      else case checked_add (st_next_ticket st) 1 of
        None \<Rightarrow> (store, PollFailed (source_error_resource Tickets (max_tickets limits) u64_max))
      | Some following \<Rightarrow>
        let ticket = \<lparr>ticket_namespace = rs_namespace store, ticket_value = st_next_ticket st\<rparr>;
            store = map_state (\<lambda>st. st\<lparr>st_next_ticket := following\<rparr>) store in
        if try_alloc (sh_alloc h) 2 1 = None then (store, PollFailed (allocation_failed 1 1))
        else (map_state (\<lambda>st. st\<lparr>st_tickets := st_tickets st @ [\<lparr>tr_ticket = ticket, tr_missing = missing,
                 tr_subscribers = [\<lparr>sub_job = rq_job request, sub_checkpoint = rq_checkpoint request\<rparr>],
                 tr_phase = Pending\<rparr>],
                 st_subscription_count := st_subscription_count st + 1\<rparr>) store,
              PollPending ticket missing))"

definition poll :: "store_host \<Rightarrow> read_request \<Rightarrow> range_store \<Rightarrow> range_store \<times> read_poll" where
  "poll h request store =
     (let (store, changed) = synchronize_source_change h 0 store;
          st = rs_state store; limits = rs_limits store; rng = rq_range request in
      if changed then (store, PollFailed changed_error)
      else if range_len rng > max_read_bytes limits
      then (store, PollFailed (source_error_resource ReadBytes (max_read_bytes limits) (range_len rng)))
      else if (case st_observed_len st of None \<Rightarrow> False | Some source_len \<Rightarrow> range_end rng > source_len)
      then (store, PollEndOfFile)
      else if range_end rng > max_input_bytes limits
      then (store, PollFailed (source_error_resource SourceInputBytes (max_input_bytes limits) (range_end rng)))
      else if range_is_covered (st_segments st) rng
      then (case borrow_range (st_segments st) (snapshot_identity (rs_snapshot store)) rng of
              Inr (bytes, backing) \<Rightarrow> (store\<lparr>rs_lent := backing # rs_lent store\<rparr>, PollReady bytes)
            | Inl error \<Rightarrow> (store, PollFailed error))
      else case missing_ranges (sh_alloc h) 0 (st_segments st) rng (max_missing_ranges limits) of
        Inl error \<Rightarrow> (store, PollFailed error)
      | Inr missing \<Rightarrow>
        (case position (\<lambda>r. tr_phase r = Pending \<and> tr_missing r = missing) (st_tickets st) of
           Some index \<Rightarrow> join_ticket h request missing index store
         | None \<Rightarrow> open_ticket h request missing store))"

text \<open>The holder of a slice clones it or drops it.\<close>

definition clone_slice :: "backing_bytes \<Rightarrow> range_store \<Rightarrow> range_store" where
  "clone_slice b store = (if b \<in> set (rs_lent store) then store\<lparr>rs_lent := b # rs_lent store\<rparr> else store)"

definition drop_slice :: "backing_bytes \<Rightarrow> range_store \<Rightarrow> range_store" where
  "drop_slice b store =
     (if b \<in> set (rs_lent store)
      then let lent = remove1 b (rs_lent store);
               kept = lent @ map seg_backing (st_segments (rs_state store)) in
        store\<lparr>rs_lent := lent, rs_resident := release_dropped kept [b] (rs_resident store)\<rparr>
      else store)"

end
