(* ===== verification/Bytes_Inv.thy ===== *)
theory Bytes_Inv
  imports Bytes_Store
begin

text \<open>
  The invariant of the range store and its preservation by every operation: the cache (canonical segments
  within the limits and the observed length), the tickets (identities, missing ranges, subscriptions and
  their count, no pending ticket after a source change) and the resident bytes (the counter is the sum
  over the live backings).
\<close>

section \<open>The invariant\<close>

definition limits_ok :: "range_store_limits \<Rightarrow> bool" where
  "limits_ok limits \<longleftrightarrow> range_store_limits_validate limits = Inr limits"

definition within_observed :: "nat option \<Rightarrow> nat \<Rightarrow> bool" where
  "within_observed observed n \<longleftrightarrow> (case observed of None \<Rightarrow> True | Some m \<Rightarrow> n \<le> m)"

definition cache_ok :: "range_store_limits \<Rightarrow> store_state \<Rightarrow> bool" where
  "cache_ok limits st \<longleftrightarrow> segs_ok (st_segments st) \<and> st_cached_bytes st = total_len (st_segments st) \<and>
     st_cached_bytes st \<le> max_cached_bytes limits \<and> length (st_segments st) \<le> max_segments limits \<and>
     (\<forall>seg \<in> set (st_segments st). seg_end seg \<le> max_input_bytes limits \<and>
        within_observed (st_observed_len st) (seg_end seg)) \<and>
     (\<forall>n. st_observed_len st = Some n \<longrightarrow> n \<le> max_input_bytes limits)"

definition pending_ok :: "bool \<Rightarrow> segment list \<Rightarrow> nat option \<Rightarrow> ticket_record \<Rightarrow> bool" where
  "pending_ok changed segs observed r \<longleftrightarrow>
     (tr_phase r = Pending \<longrightarrow> \<not> changed \<and> all_range_bytes (tr_missing r) \<inter> cached segs = {} \<and>
        (\<forall>m \<in> set (tr_missing r). within_observed observed (range_end m)) \<and> tr_subscribers r \<noteq> [])"

definition ticket_ok :: "nat \<Rightarrow> range_store_limits \<Rightarrow> nat \<Rightarrow> ticket_record \<Rightarrow> bool" where
  "ticket_ok namespace limits next r \<longleftrightarrow>
     ticket_namespace (tr_ticket r) = namespace \<and> 0 < ticket_value (tr_ticket r) \<and> ticket_value (tr_ticket r) < next \<and>
     canonical (tr_missing r) \<and> tr_missing r \<noteq> [] \<and> length (tr_missing r) \<le> max_missing_ranges limits \<and>
     (\<forall>m \<in> set (tr_missing r). range_end m \<le> max_input_bytes limits) \<and>
     distinct (map sub_job (tr_subscribers r)) \<and> length (tr_subscribers r) \<le> max_subscribers_per_ticket limits"

definition subscriptions :: "ticket_record list \<Rightarrow> nat" where
  "subscriptions tickets = sum_list (map (\<lambda>r. length (tr_subscribers r)) tickets)"

definition tickets_ok :: "nat \<Rightarrow> range_store_limits \<Rightarrow> bool \<Rightarrow> store_state \<Rightarrow> bool" where
  "tickets_ok namespace limits changed st \<longleftrightarrow>
     (\<forall>r \<in> set (st_tickets st). ticket_ok namespace limits (st_next_ticket st) r \<and>
        pending_ok changed (st_segments st) (st_observed_len st) r) \<and>
     distinct (map tr_ticket (st_tickets st)) \<and> length (st_tickets st) \<le> max_tickets limits \<and>
     st_subscription_count st = subscriptions (st_tickets st) \<and>
     st_subscription_count st \<le> max_total_subscriptions limits \<and> 0 < st_next_ticket st \<and> st_next_ticket st \<le> u64_max"

text \<open>The backings that something holds.\<close>

definition live :: "range_store \<Rightarrow> backing_bytes set" where
  "live store = seg_backing ` set (st_segments (rs_state store)) \<union> set (rs_lent store) \<union> qr_backing ` set (rs_queued store)"

definition resident_ok :: "range_store \<Rightarrow> bool" where
  "resident_ok store \<longleftrightarrow>
     rt_current (rs_resident store) = sum bk_reserved (live store) \<and>
     rt_current (rs_resident store) \<le> rt_max (rs_resident store) \<and>
     rt_max (rs_resident store) = max_resident_bytes (rs_limits store) \<and>
     (\<forall>b \<in> live store. bk_id b < rs_next_backing store) \<and>
     distinct (map qr_backing (rs_queued store)) \<and> distinct (map seg_backing (st_segments (rs_state store))) \<and>
     qr_backing ` set (rs_queued store) \<inter> (seg_backing ` set (st_segments (rs_state store)) \<union> set (rs_lent store)) = {}"

definition queued_ok :: "range_store_limits \<Rightarrow> queued_response \<Rightarrow> bool" where
  "queued_ok limits q \<longleftrightarrow> range_ok (qr_range q) \<and> length (bk_bytes (qr_backing q)) = range_len (qr_range q) \<and>
     within_observed (snapshot_len (qr_snapshot q)) (range_end (qr_range q)) \<and>
     range_end (qr_range q) \<le> max_input_bytes limits \<and> range_len (qr_range q) \<le> max_read_bytes limits"

definition store_ok :: "range_store \<Rightarrow> bool" where
  "store_ok store \<longleftrightarrow> limits_ok (rs_limits store) \<and> cache_ok (rs_limits store) (rs_state store) \<and>
     tickets_ok (rs_namespace store) (rs_limits store) (rs_source_changed store) (rs_state store) \<and>
     resident_ok store \<and> (\<forall>q \<in> set (rs_queued store). queued_ok (rs_limits store) q)"

text \<open>A response as \<open>range_response_new\<close> builds it from a valid range.\<close>

definition response_ok :: "range_response \<Rightarrow> bool" where
  "response_ok r \<longleftrightarrow> range_ok (rr_range r) \<and> length (rr_bytes r) = range_len (rr_range r) \<and>
     within_observed (snapshot_len (rr_snapshot r)) (range_end (rr_range r))"

lemma range_response_new_ok: "range_ok rng \<Longrightarrow> range_response_new s rng b c = Inr r \<Longrightarrow> response_ok r"
  by (auto simp: range_response_new_def response_ok_def within_observed_def split: if_splits option.splits)

lemma limits_okD:
  assumes "limits_ok limits"
  shows "max_resident_bytes limits \<le> u64_max" "max_cached_bytes limits \<le> u64_max" "max_input_bytes limits \<le> u64_max"
    "max_segments limits < u64_max" "max_total_subscriptions limits < u64_max"
  using assms by (auto simp: limits_ok_def range_store_limits_validate_def u64_max_def split: if_splits)

lemma store_okD:
  assumes "store_ok store"
  shows "limits_ok (rs_limits store)" "cache_ok (rs_limits store) (rs_state store)"
    "tickets_ok (rs_namespace store) (rs_limits store) (rs_source_changed store) (rs_state store)"
    "resident_ok store" "q \<in> set (rs_queued store) \<Longrightarrow> queued_ok (rs_limits store) q"
    "segs_ok (st_segments (rs_state store))"
  using assms by (auto simp: store_ok_def cache_ok_def)

section \<open>Source changes\<close>

text \<open>What the flag and the tickets do not touch.\<close>

lemma transition_simps [simp]:
  "st_segments (transition_source_changed st) = st_segments st"
  "st_cached_bytes (transition_source_changed st) = st_cached_bytes st"
  "st_next_ticket (transition_source_changed st) = st_next_ticket st"
  "st_observed_len (transition_source_changed st) = st_observed_len st"
  "st_subscription_count (transition_source_changed st) = st_subscription_count st"
  "st_tickets (transition_source_changed st) = map phase_changed (st_tickets st)"
  by (simp_all add: transition_source_changed_def)

lemma phase_changed_simps [simp]:
  "tr_ticket (phase_changed r) = tr_ticket r" "tr_missing (phase_changed r) = tr_missing r"
  "tr_subscribers (phase_changed r) = tr_subscribers r" "tr_phase (phase_changed r) \<noteq> Pending"
  "tr_phase r \<noteq> Pending \<Longrightarrow> phase_changed r = r"
  by (simp_all add: phase_changed_def)

lemma subscriptions_phase_changed [simp]: "subscriptions (map phase_changed rs) = subscriptions rs"
  by (simp add: subscriptions_def comp_def)

lemma transition_tickets_ok: "tickets_ok ns limits changed st \<Longrightarrow> tickets_ok ns limits changed' (transition_source_changed st)"
  by (auto simp: tickets_ok_def ticket_ok_def pending_ok_def comp_def)

text \<open>The poisoned store, and the two outcomes of a probe: nothing changed, or the store is poisoned
  but for the transition, which every caller makes.\<close>

lemma poison_store_ok: "store_ok store \<Longrightarrow> store_ok (poison_source store)"
  by (auto simp: store_ok_def poison_source_def cache_ok_def resident_ok_def live_def intro: transition_tickets_ok)

lemma poison_simps [simp]:
  "rs_limits (poison_source store) = rs_limits store" "rs_snapshot (poison_source store) = rs_snapshot store"
  "rs_namespace (poison_source store) = rs_namespace store" "rs_resident (poison_source store) = rs_resident store"
  "rs_queued (poison_source store) = rs_queued store" "rs_lent (poison_source store) = rs_lent store"
  "rs_next_backing (poison_source store) = rs_next_backing store" "rs_source_changed (poison_source store)"
  "rs_state (poison_source store) = transition_source_changed (rs_state store)"
  by (simp_all add: poison_source_def)

lemma precedes_cases:
  obtains "rs_source_changed store \<or> sh_signal h i"
      "source_change_precedes_commit h i store = (store\<lparr>rs_source_changed := True\<rparr>, True)"
      "map_state transition_source_changed (store\<lparr>rs_source_changed := True\<rparr>) = poison_source store"
    | "\<not> rs_source_changed store" "\<not> sh_signal h i" "source_change_precedes_commit h i store = (store, False)"
proof (cases "rs_source_changed store \<or> sh_signal h i")
  case True
  then show ?thesis using that(1) by (auto simp: source_change_precedes_commit_def poison_source_def)
next
  case False
  then have "store\<lparr>rs_source_changed := False\<rparr> = store" by (cases store) simp
  then show ?thesis using that(2) False by (auto simp: source_change_precedes_commit_def)
qed

lemma synchronize_cases:
  obtains "rs_source_changed store \<or> sh_signal h i" "synchronize_source_change h i store = (poison_source store, True)"
    | "\<not> rs_source_changed store" "\<not> sh_signal h i" "synchronize_source_change h i store = (store, False)"
  by (rule precedes_cases [of store h i]) (auto simp: synchronize_source_change_def intro: that)

section \<open>Observed lengths\<close>

definition eof_ready :: "nat \<Rightarrow> ticket_record \<Rightarrow> bool" where
  "eof_ready n r \<longleftrightarrow> tr_phase r = Pending \<and> missing_crosses_eof (tr_missing r) n"

definition complete_at :: "nat \<Rightarrow> ticket_record \<Rightarrow> ticket_record" where
  "complete_at n r = (if eof_ready n r then r\<lparr>tr_phase := Ready\<rparr> else r)"

lemma complete_loop_eq: "complete_loop n rs = (map (complete_at n) rs, map tr_ticket (filter (eof_ready n) rs))"
  by (induction rs) (auto simp: eof_ready_def complete_at_def)

lemma complete_at_simps [simp]:
  "tr_ticket (complete_at n r) = tr_ticket r" "tr_missing (complete_at n r) = tr_missing r"
  "tr_subscribers (complete_at n r) = tr_subscribers r"
  "tr_phase (complete_at n r) = Pending \<longleftrightarrow> tr_phase r = Pending \<and> \<not> missing_crosses_eof (tr_missing r) n"
  by (auto simp: complete_at_def eof_ready_def)

lemma canonical_last: "canonical rs \<Longrightarrow> r \<in> set rs \<Longrightarrow> range_end r \<le> range_end (last rs)"
proof (induction rs)
  case (Cons s rs)
  show ?case
  proof (cases "rs = []")
    case False
    then have "last rs \<in> set rs" by simp
    then have "range_end s < range_start (last rs)" "range_ok (last rs)" using Cons.prems(1) by (auto simp: canonical_sorted)
    then have "range_end s \<le> range_end (last rs)" using range_ok_less [of "last rs"] by simp
    then show ?thesis using Cons False by (auto simp: canonical_sorted)
  qed (use Cons.prems in simp)
qed simp

lemma not_crossing: "canonical rs \<Longrightarrow> \<not> missing_crosses_eof rs n \<longleftrightarrow> (\<forall>r \<in> set rs. range_end r \<le> n)"
  by (cases "rs = []") (auto simp: missing_crosses_eof_def not_less dest: canonical_last)

lemma segs_ok_last: "segs_ok segs \<Longrightarrow> seg \<in> set segs \<Longrightarrow> seg_end seg \<le> seg_end (last segs)"
proof (induction segs)
  case (Cons s segs)
  show ?case
  proof (cases "segs = []")
    case False
    then have "last segs \<in> set segs" by simp
    then have "seg_end s < seg_start (last segs)" "seg_ok (last segs)" using Cons.prems(1) by (auto simp: segs_ok_def)
    then have "seg_end s \<le> seg_end (last segs)" using seg_okD [of "last segs"] by simp
    then show ?thesis using Cons False by auto
  qed (use Cons.prems in simp)
qed simp

lemma not_cached_past: "segs_ok segs \<Longrightarrow> \<not> cached_past segs n \<longleftrightarrow> (\<forall>seg \<in> set segs. seg_end seg \<le> n)"
  by (cases "segs = []") (auto simp: cached_past_def not_less dest: segs_ok_last)

lemma bind_toD:
  assumes "bind_observed_len limits st snap = BindTo n" "segs_ok (st_segments st)"
  shows "st_observed_len st = None" "snapshot_len snap = Some n" "n \<le> max_input_bytes limits"
    "\<forall>seg \<in> set (st_segments st). seg_end seg \<le> n"
  using assms not_cached_past [of "st_segments st" n]
  by (auto simp: bind_observed_len_def split: option.splits if_splits)

lemma bind_keepD: "bind_observed_len limits st snap = BindKeep \<Longrightarrow> st_observed_len st = snapshot_len snap"
  by (auto simp: bind_observed_len_def split: option.splits if_splits)

definition binds :: "bind_observed \<Rightarrow> bool" where
  "binds b \<longleftrightarrow> b = BindKeep \<or> (\<exists>n. b = BindTo n)"

definition bound_len :: "bind_observed \<Rightarrow> nat option \<Rightarrow> nat option" where
  "bound_len b observed = (case b of BindTo n \<Rightarrow> Some n | _ \<Rightarrow> observed)"

lemma commit_observed_simps:
  "commit_observed (BindTo n) st =
     (st\<lparr>st_observed_len := Some n, st_tickets := map (complete_at n) (st_tickets st)\<rparr>,
      \<lparr>so_cached_bytes = st_cached_bytes st, so_ready_tickets = map tr_ticket (filter (eof_ready n) (st_tickets st))\<rparr>)"
  "commit_observed BindKeep st = (st, \<lparr>so_cached_bytes = st_cached_bytes st, so_ready_tickets = []\<rparr>)"
  by (simp_all add: commit_observed_def complete_tickets_at_eof_def complete_loop_eq)

lemma subscriptions_complete [simp]: "subscriptions (map (complete_at n) rs) = subscriptions rs"
  by (simp add: subscriptions_def comp_def)

lemma commit_observed_ok:
  assumes ok: "store_ok store" and b: "bind_observed_len (rs_limits store) (rs_state store) snap = b" "binds b"
  shows "store_ok (store\<lparr>rs_state := fst (commit_observed b (rs_state store))\<rparr>)"
proof -
  consider "b = BindKeep" | n where "b = BindTo n" using b(2) by (auto simp: binds_def)
  then show ?thesis
  proof cases
    case 1
    then show ?thesis using ok by (simp add: commit_observed_simps)
  next
    case 2
    note bt = bind_toD [OF b(1) [unfolded 2] store_okD(6) [OF ok]]
    have "tickets_ok (rs_namespace store) (rs_limits store) (rs_source_changed store)
        (fst (commit_observed b (rs_state store)))"
      using store_okD(3) [OF ok] not_crossing [of "tr_missing _" n] unfolding 2 commit_observed_simps
      by (auto simp: tickets_ok_def ticket_ok_def pending_ok_def within_observed_def comp_def)
    moreover have "cache_ok (rs_limits store) (fst (commit_observed b (rs_state store)))"
      using store_okD(2) [OF ok] bt by (auto simp: 2 commit_observed_simps cache_ok_def within_observed_def)
    ultimately show ?thesis
      using ok by (auto simp: store_ok_def 2 commit_observed_simps resident_ok_def live_def)
  qed
qed

lemma observe_cases:
  obtains (poisoned) "observe_snapshot h snap store = (poison_source store, Inl changed_error)"
    | (refused) e where "observe_snapshot h snap store = (store, Inl e)" "\<not> rs_source_changed store"
    | (committed) b where "bind_observed_len (rs_limits store) (rs_state store) snap = b" "binds b"
      "\<not> rs_source_changed store" "same_source store snap" "observe_snapshot h snap store =
        (store\<lparr>rs_state := fst (commit_observed b (rs_state store))\<rparr>, Inr (snd (commit_observed b (rs_state store))))"
proof (rule precedes_cases [of store h 0])
  assume 0: "\<not> rs_source_changed store" "\<not> sh_signal h 0" "source_change_precedes_commit h 0 store = (store, False)"
  show thesis
  proof (cases "same_source store snap")
    case False
    then show ?thesis using 0 that(1) by (simp add: observe_snapshot_def)
  next
    case same: True
    show ?thesis
    proof (rule synchronize_cases [of store h 1])
      assume 1: "synchronize_source_change h 1 store = (store, False)"
      let ?b = "bind_observed_len (rs_limits store) (rs_state store) snap"
      let ?n = "length (st_tickets (rs_state store))"
      note run = observe_snapshot_def 0(3) 1 [unfolded One_nat_def] same Let_def split_def
      show ?thesis
      proof (cases "binds ?b \<and> try_alloc (sh_alloc h) 0 ?n \<noteq> None")
        case False
        then show ?thesis
          using that(1) that(2) [OF _ 0(1)] by (cases ?b) (auto simp: run binds_def)
      next
        case True
        then have commit: "observe_snapshot h snap store = (let (store, changed) = source_change_precedes_commit h 2 store in
            if changed then (map_state transition_source_changed store, Inl changed_error)
            else let (st, outcome) = commit_observed ?b (rs_state store) in (store\<lparr>rs_state := st\<rparr>, Inr outcome))"
          by (cases ?b) (auto simp: run binds_def)
        show ?thesis
          by (rule precedes_cases [of store h 2])
            (use True same 0(1) that(1) that(3) [OF refl] in \<open>auto simp: commit split_def Let_def\<close>)
      qed
    qed (use 0 same that(1) in \<open>simp add: observe_snapshot_def\<close>)
  qed
qed (use that(1) in \<open>simp add: observe_snapshot_def\<close>)

lemma observe_store_ok: "store_ok store \<Longrightarrow> store_ok (fst (observe_snapshot h snap store))"
  by (rule observe_cases [of h snap store]) (auto intro: poison_store_ok commit_observed_ok)

section \<open>Reserving and dropping responses\<close>

lemma release_exact: "n \<le> rt_current t \<Longrightarrow> rt_current t \<le> u64_max \<Longrightarrow> release_bytes t n = t\<lparr>rt_current := rt_current t - n\<rparr>"
proof -
  assume "n \<le> rt_current t" "rt_current t \<le> u64_max"
  then have "rt_current t + (u64_max + 1) - n = (u64_max + 1) + (rt_current t - n)" "rt_current t - n < u64_max + 1"
    by simp_all
  then have "(rt_current t + (u64_max + 1) - n) mod (u64_max + 1) = rt_current t - n" by (metis mod_add_self1 mod_less)
  then show ?thesis by (simp add: release_bytes_def)
qed

lemma finite_live [simp]: "finite (live store)"
  by (simp add: live_def)

lemma resident_okD:
  assumes "resident_ok store" "limits_ok (rs_limits store)"
  shows "rt_current (rs_resident store) = sum bk_reserved (live store)" "rt_current (rs_resident store) \<le> u64_max"
    "b \<in> live store \<Longrightarrow> bk_reserved b \<le> rt_current (rs_resident store)"
proof -
  show cur: "rt_current (rs_resident store) = sum bk_reserved (live store)" using assms(1) by (simp add: resident_ok_def)
  show "rt_current (rs_resident store) \<le> u64_max"
    using assms limits_okD(1) [OF assms(2)] by (auto simp: resident_ok_def)
  show "bk_reserved b \<le> rt_current (rs_resident store)" if "b \<in> live store"
    unfolding cur by (rule member_le_sum) (use that in auto)
qed

lemma queued_remove1:
  assumes "distinct (map qr_backing qs)" "q \<in> set qs"
  shows "qr_backing ` set (remove1 q qs) = qr_backing ` set qs - {qr_backing q}" "set (remove1 q qs) = set qs - {q}"
proof -
  have "distinct qs" using assms(1) by (simp add: distinct_map)
  then show set_eq: "set (remove1 q qs) = set qs - {q}" by simp
  have "inj_on qr_backing (set qs)" using assms(1) by (simp add: distinct_map)
  then have "qr_backing ` (set qs - {q}) = qr_backing ` set qs - qr_backing ` {q}"
    by (rule inj_on_image_set_diff) (use assms(2) in auto)
  then show "qr_backing ` set (remove1 q qs) = qr_backing ` set qs - {qr_backing q}" by (simp add: set_eq)
qed

lemma drop_response_live:
  assumes "resident_ok store" "q \<in> set (rs_queued store)"
  shows "live (drop_response q store) = live store - {qr_backing q}" "qr_backing q \<in> live store"
proof -
  have "distinct (map qr_backing (rs_queued store))" using assms(1) by (simp add: resident_ok_def)
  note rm = queued_remove1 [OF this assms(2)]
  show "live (drop_response q store) = live store - {qr_backing q}"
    using assms unfolding live_def drop_response_def by (auto simp: rm(1) resident_ok_def)
  show "qr_backing q \<in> live store" using assms(2) by (simp add: live_def)
qed

lemma drop_response_simps [simp]:
  "rs_limits (drop_response q store) = rs_limits store" "rs_snapshot (drop_response q store) = rs_snapshot store"
  "rs_namespace (drop_response q store) = rs_namespace store" "rs_lent (drop_response q store) = rs_lent store"
  "rs_source_changed (drop_response q store) = rs_source_changed store" "rs_state (drop_response q store) = rs_state store"
  "rs_next_backing (drop_response q store) = rs_next_backing store"
  "rs_queued (drop_response q store) = remove1 q (rs_queued store)"
  by (simp_all add: drop_response_def)

lemma drop_response_ok:
  assumes ok: "store_ok store" and q: "q \<in> set (rs_queued store)"
  shows "store_ok (drop_response q store)"
proof -
  note res = store_okD(4) [OF ok]
  note cur = resident_okD [OF res store_okD(1) [OF ok]] and dl = drop_response_live [OF res q]
  have rel: "rs_resident (drop_response q store) =
      (rs_resident store)\<lparr>rt_current := rt_current (rs_resident store) - bk_reserved (qr_backing q)\<rparr>"
    unfolding drop_response_def using release_exact [OF cur(3) [OF dl(2)] cur(2)] by simp
  have "sum bk_reserved (live store) = bk_reserved (qr_backing q) + sum bk_reserved (live store - {qr_backing q})"
    by (rule sum.remove) (use dl(2) in auto)
  then have "resident_ok (drop_response q store)"
    using res queued_remove1 [of "rs_queued store" q] q unfolding resident_ok_def rel dl(1)
    by (auto simp: distinct_map distinct_remove1 inj_on_diff)
  then show ?thesis using ok by (auto simp: store_ok_def dest: notin_set_remove1)
qed

lemma reject_response_cases:
  obtains "reject_response h snap e store = (poison_source store, Inl changed_error)"
    | "reject_response h snap e store = (store, Inl e)" "\<not> rs_source_changed store"
proof (rule synchronize_cases [of store h 1])
  assume 1: "\<not> rs_source_changed store" "synchronize_source_change h 1 store = (store, False)"
  let ?c = "(case (st_observed_len (rs_state store), snapshot_len snap) of
             (Some expected, Some observed) \<Rightarrow> expected \<noteq> observed
           | (Some _, None) \<Rightarrow> True
           | (None, Some observed) \<Rightarrow> cached_past (st_segments (rs_state store)) observed
           | (None, None) \<Rightarrow> False)"
  have run: "reject_response h snap e store = (if ?c then (poison_source store, Inl changed_error) else (store, Inl e))"
    unfolding reject_response_def reject_if_observed_metadata_conflicts_def 1(2) Let_def prod.case by simp
  show thesis
  proof (cases ?c)
    case True
    show ?thesis by (rule that(1)) (simp only: run True if_True)
  next
    case False
    show ?thesis by (rule that(2)) (simp_all only: run False if_False 1(1) not_False_eq_True)
  qed
qed (use that(1) in \<open>simp add: reject_response_def reject_if_observed_metadata_conflicts_def\<close>)

lemma supply_begin_cases:
  obtains (poisoned) "supply_begin h r store = (poison_source store, Inl changed_error)"
    | (refused) e where "supply_begin h r store = (store, Inl e)" "\<not> rs_source_changed store"
    | (queued) q where "q = \<lparr>qr_snapshot = rr_snapshot r, qr_range = rr_range r, qr_backing =
          \<lparr>bk_id = rs_next_backing store, bk_bytes = rr_bytes r, bk_reserved = rr_capacity r\<rparr>\<rparr>"
      "supply_begin h r store = (store\<lparr>rs_resident := (rs_resident store)\<lparr>rt_current := rt_current (rs_resident store) + rr_capacity r\<rparr>,
        rs_next_backing := rs_next_backing store + 1, rs_queued := rs_queued store @ [q]\<rparr>, Inr q)"
      "rt_current (rs_resident store) + rr_capacity r \<le> rt_max (rs_resident store)" "\<not> rs_source_changed store"
      "same_source store (rr_snapshot r)" "range_len (rr_range r) \<le> max_read_bytes (rs_limits store)"
      "range_end (rr_range r) \<le> max_input_bytes (rs_limits store)"
proof (rule precedes_cases [of store h 0])
  assume 0: "\<not> rs_source_changed store" "source_change_precedes_commit h 0 store = (store, False)"
  note run = supply_begin_def 0(2) Let_def
  have rejected: thesis if "supply_begin h r store = reject_response h (rr_snapshot r) e store" for e
    by (rule reject_response_cases [of h "rr_snapshot r" e store]) (use that poisoned refused in auto)
  consider "\<not> same_source store (rr_snapshot r)"
    | "same_source store (rr_snapshot r)" "range_len (rr_range r) > max_read_bytes (rs_limits store)"
    | "same_source store (rr_snapshot r)" "range_len (rr_range r) \<le> max_read_bytes (rs_limits store)"
      "range_end (rr_range r) > max_input_bytes (rs_limits store)"
    | (fit) "same_source store (rr_snapshot r)" "range_len (rr_range r) \<le> max_read_bytes (rs_limits store)"
      "range_end (rr_range r) \<le> max_input_bytes (rs_limits store)" by linarith
  then show thesis
  proof cases
    case fit
    show ?thesis
    proof (cases "try_reserve (rs_resident store) (rr_capacity r)")
      case (Inl e)
      then show ?thesis using fit rejected [of e] by (simp add: run)
    next
      case (Inr x)
      then have "x = ((rs_resident store)\<lparr>rt_current := rt_current (rs_resident store) + rr_capacity r\<rparr>, rr_capacity r)"
        "rt_current (rs_resident store) + rr_capacity r \<le> rt_max (rs_resident store)"
        by (auto simp: try_reserve_def and_then_Inr_iff ok_or_Inr_iff dest!: checked_add_SomeD split: if_splits)
      then show ?thesis using Inr fit queued [OF refl] 0(1) by (auto simp: run adopt_vec_def)
    qed
  qed (use poisoned rejected in \<open>simp_all add: run\<close>)
qed (use poisoned in \<open>simp add: supply_begin_def\<close>)

lemma supply_begin_ok:
  assumes ok: "store_ok store" and r: "response_ok r"
  shows "store_ok (fst (supply_begin h r store))"
proof (rule supply_begin_cases [of h r store])
  fix q
  let ?s = "store\<lparr>rs_resident := (rs_resident store)\<lparr>rt_current := rt_current (rs_resident store) + rr_capacity r\<rparr>,
        rs_next_backing := rs_next_backing store + 1, rs_queued := rs_queued store @ [q]\<rparr>"
  assume q: "q = \<lparr>qr_snapshot = rr_snapshot r, qr_range = rr_range r, qr_backing =
          \<lparr>bk_id = rs_next_backing store, bk_bytes = rr_bytes r, bk_reserved = rr_capacity r\<rparr>\<rparr>"
    and run: "supply_begin h r store = (?s, Inr q)"
    and fits: "rt_current (rs_resident store) + rr_capacity r \<le> rt_max (rs_resident store)"
      "range_len (rr_range r) \<le> max_read_bytes (rs_limits store)" "range_end (rr_range r) \<le> max_input_bytes (rs_limits store)"
  note res = store_okD(4) [OF ok]
  have "\<forall>b \<in> live store. bk_id b < rs_next_backing store" using res by (simp add: resident_ok_def)
  then have fresh: "qr_backing q \<notin> live store" by (auto simp: q)
  have live: "live ?s = insert (qr_backing q) (live store)" by (auto simp: live_def)
  have sum: "sum bk_reserved (live ?s) = rr_capacity r + sum bk_reserved (live store)"
    unfolding live using fresh by (simp add: q)
  have ids: "\<forall>b \<in> live ?s. bk_id b < Suc (rs_next_backing store)"
    unfolding live using res by (auto simp: resident_ok_def less_Suc_eq q)
  have "qr_backing q \<notin> qr_backing ` set (rs_queued store)"
    "qr_backing q \<notin> seg_backing ` set (st_segments (rs_state store)) \<union> set (rs_lent store)"
    using fresh by (simp_all add: live_def)
  then have "resident_ok ?s"
    using res ids fits(1) unfolding resident_ok_def sum by simp
  moreover have "queued_ok (rs_limits store) q" using r fits by (simp add: q queued_ok_def response_ok_def)
  ultimately show ?thesis using ok by (auto simp: store_ok_def run)
qed (use ok in \<open>auto intro: poison_store_ok\<close>)

end
