(* ===== verification/Bytes_Supply.thy ===== *)
theory Bytes_Supply
  imports Bytes_Inv
begin

text \<open>
  A committed supply: what the staging computes (one merged segment in place of the segments the response
  touches, the pending tickets with what they still miss, the resident bytes), and that the commit keeps
  the invariant of the store.
\<close>

section \<open>The merged backing\<close>

definition merged_byte :: "byte_range \<Rightarrow> u8 list \<Rightarrow> segment list \<Rightarrow> nat \<Rightarrow> u8 option" where
  "merged_byte rng bytes segs a =
     (if a \<in> range_bytes rng then Some (bytes ! (a - range_start rng)) else byte_at segs a)"

lemma resident_moves:
  assumes "rt_current t \<le> rt_max t" "rt_max t \<le> u64_max" "rq \<le> rt_current t" "cap \<le> rt_max t - rt_current t"
    and "shrink_to (release_bytes (t\<lparr>rt_current := rt_max t\<rparr>) rq) (rt_max t - rt_current t) cap = Inr (t', reserved)"
  shows "t' = t\<lparr>rt_current := rt_current t - rq + cap\<rparr>" "reserved = cap"
proof -
  have 1: "release_bytes (t\<lparr>rt_current := rt_max t\<rparr>) rq = t\<lparr>rt_current := rt_max t - rq\<rparr>"
    using release_exact [of rq "t\<lparr>rt_current := rt_max t\<rparr>"] assms(1-3) by simp
  let ?d = "rt_max t - rt_current t - cap"
  have "?d \<le> rt_max t - rq" "rt_max t - rq - ?d = rt_current t - rq + cap" using assms(1,3,4) by auto
  then have 2: "release_bytes (t\<lparr>rt_current := rt_max t - rq\<rparr>) ?d = t\<lparr>rt_current := rt_current t - rq + cap\<rparr>"
    using release_exact [of ?d "t\<lparr>rt_current := rt_max t - rq\<rparr>"] assms(2) by simp
  have "rt_max t - rq = rt_current t - rq + cap" if "?d = 0" using that assms(1,3,4) by simp
  then show "t' = t\<lparr>rt_current := rt_current t - rq + cap\<rparr>" "reserved = cap"
    using assms(4,5) 2 unfolding 1 by (auto simp: shrink_to_def checked_sub_def split: if_splits)
qed

lemma merged_backing_ok:
  assumes split: "splits_at rng A M B" and segs: "st_segments (rs_state store) = A @ M @ B"
    and q: "qr_range q = rng" "length (bk_bytes (qr_backing q)) = range_len rng"
    and res: "rt_current (rs_resident store) \<le> rt_max (rs_resident store)" "rt_max (rs_resident store) \<le> u64_max"
      "bk_reserved (qr_backing q) \<le> rt_current (rs_resident store)"
  defines "U \<equiv> lowest (range_start rng) M" and "V \<equiv> highest (range_end rng) M"
  assumes run: "merged_backing alloc store q [length A..<length A + length M] U (V - U) = Inr (b, t)"
  shows "length (bk_bytes b) = V - U"
    "\<forall>a \<in> {U..<V}. Some (bk_bytes b ! (a - U)) = merged_byte rng (bk_bytes (qr_backing q)) M a"
    "M = [] \<and> b = qr_backing q \<and> t = rs_resident store \<or>
     M \<noteq> [] \<and> bk_id b = rs_next_backing store \<and>
       rt_current (rs_resident store) + bk_reserved b \<le> rt_max (rs_resident store) \<and>
       t = (rs_resident store)\<lparr>rt_current := rt_current (rs_resident store) - bk_reserved (qr_backing q) + bk_reserved b\<rparr>"
proof -
  let ?t = "rs_resident store" and ?rq = "bk_reserved (qr_backing q)"
  have "length (bk_bytes b) = V - U \<and>
    (\<forall>a \<in> {U..<V}. Some (bk_bytes b ! (a - U)) = merged_byte rng (bk_bytes (qr_backing q)) M a) \<and>
    (M = [] \<and> b = qr_backing q \<and> t = ?t \<or> M \<noteq> [] \<and> bk_id b = rs_next_backing store \<and>
       rt_current ?t + bk_reserved b \<le> rt_max ?t \<and> t = ?t\<lparr>rt_current := rt_current ?t - ?rq + bk_reserved b\<rparr>)"
  proof (cases "M = []")
    case True
    then have "b = qr_backing q" "t = ?t" "U = range_start rng" "V = range_end rng"
      using run by (auto simp: merged_backing_def U_def V_def lowest_simps highest_simps)
    then show ?thesis using True q(2) by (auto simp: range_end_def range_bytes_def merged_byte_def)
  next
    case False
    then have "[length A..<length A + length M] \<noteq> []" by simp
    from run [unfolded merged_backing_def Let_def if_not_P [OF this]] obtain cap u where
      cap: "rt_max ?t - rt_current ?t \<ge> cap"
      and u: "merge_bytes U (V - U) (A @ M @ B) [length A..<length A + length M] rng (bk_bytes (qr_backing q)) = Inr u"
      and sh: "shrink_to (release_bytes (?t\<lparr>rt_current := rt_max ?t\<rparr>) ?rq) (rt_max ?t - rt_current ?t) cap = Inr (t, cap)"
      and fin: "b = \<lparr>bk_id = rs_next_backing store, bk_bytes = u, bk_reserved = cap\<rparr>"
      by (auto simp: and_then_Inr_iff ok_or_Inr_iff try_reserve_remaining_def checked_sub_def adopt_vec_def segs q(1)
          split: if_splits)
    note mv = resident_moves [OF res cap sh]
    obtain u' where "merge_bytes U (V - U) (A @ M @ B) [length A..<length A + length M] rng (bk_bytes (qr_backing q)) = Inr u'"
        "length u' = V - U" "\<forall>a \<in> {U..<V}. Some (u' ! (a - U)) = merged_byte rng (bk_bytes (qr_backing q)) M a"
      using merge_bytes_ok [OF split q(2), folded U_def V_def] unfolding merged_byte_def by blast
    then show ?thesis using False fin mv u cap res(1) by auto
  qed
  then show "length (bk_bytes b) = V - U"
    "\<forall>a \<in> {U..<V}. Some (bk_bytes b ! (a - U)) = merged_byte rng (bk_bytes (qr_backing q)) M a"
    "M = [] \<and> b = qr_backing q \<and> t = rs_resident store \<or>
     M \<noteq> [] \<and> bk_id b = rs_next_backing store \<and>
       rt_current (rs_resident store) + bk_reserved b \<le> rt_max (rs_resident store) \<and>
       t = (rs_resident store)\<lparr>rt_current := rt_current (rs_resident store) - bk_reserved (qr_backing q) + bk_reserved b\<rparr>"
    by blast+
qed

section \<open>Tickets\<close>

text \<open>What a pending ticket still misses, or nothing when it is ready: all of it is cached, or the observed
  length ends before it.\<close>

definition remaining_of :: "segment list \<Rightarrow> bind_observed \<Rightarrow> ticket_record \<Rightarrow> small_ranges option" where
  "remaining_of segs b r =
     (let missing = all_gaps segs (tr_missing r) in
      if missing = [] \<or> (\<exists>n. b = BindTo n \<and> missing_crosses_eof missing n) then None else Some missing)"

definition wakes :: "segment list \<Rightarrow> bind_observed \<Rightarrow> ticket_record \<Rightarrow> bool" where
  "wakes segs b r \<longleftrightarrow> tr_phase r = Pending \<and> remaining_of segs b r = None"

definition update_ticket :: "segment list \<Rightarrow> bind_observed \<Rightarrow> ticket_record \<Rightarrow> ticket_record" where
  "update_ticket segs b r =
     (if tr_phase r \<noteq> Pending then r
      else case remaining_of segs b r of Some missing \<Rightarrow> r\<lparr>tr_missing := missing\<rparr> | None \<Rightarrow> r\<lparr>tr_phase := Ready\<rparr>)"

lemma ticket_updates_ok:
  "segs_ok segs \<Longrightarrow> \<forall>r \<in> set rs. tr_phase r = Pending \<longrightarrow> canonical (tr_missing r) \<Longrightarrow>
   ticket_updates_loop alloc segs m b (length pre) rs = Inr ups \<Longrightarrow>
   apply_updates ups (pre @ rs) = (pre @ map (update_ticket segs b) rs, map tr_ticket (filter (wakes segs b) rs)) \<and>
   (\<forall>r \<in> set rs. tr_phase r = Pending \<longrightarrow> length (all_gaps segs (tr_missing r)) \<le> m)"
proof (induction rs arbitrary: pre ups)
  case (Cons r rs)
  have next': "length (pre @ [x]) = Suc (length pre)" for x :: ticket_record by simp
  show ?case
  proof (cases "tr_phase r = Pending")
    case False
    then show ?thesis
      using Cons.IH [of "pre @ [r]" ups] Cons.prems unfolding next'
      by (simp add: update_ticket_def wakes_def)
  next
    case True
    then have can: "canonical (tr_missing r)" using Cons.prems(2) by simp
    let ?gs = "all_gaps segs (tr_missing r)"
    from Cons.prems(3) True obtain rem ups' where
      rem: "remaining_missing_ranges alloc (5 + length pre) segs (tr_missing r) m = Inr rem"
      and ups': "ticket_updates_loop alloc segs m b (Suc (length pre)) rs = Inr ups'"
      and ups: "ups = (length pre, if (case b of
              BindTo observed \<Rightarrow> (case rem of None \<Rightarrow> False | Some missing \<Rightarrow> missing_crosses_eof missing observed)
            | _ \<Rightarrow> False) then None else rem) # ups'"
      by (auto simp: and_then_Inr_iff Let_def)
    have r: "rem = (if ?gs = [] then None else Some ?gs)" "length ?gs \<le> m"
      using rem unfolding remaining_spec [OF Cons.prems(1) can] by (auto split: if_splits)
    have head: "ups = (length pre, remaining_of segs b r) # ups'"
      unfolding ups r(1) remaining_of_def by (auto simp: Let_def split: bind_observed.splits)
    have IH: "apply_updates ups' (pre @ x # rs) =
        (pre @ x # map (update_ticket segs b) rs, map tr_ticket (filter (wakes segs b) rs))"
      "\<forall>r \<in> set rs. tr_phase r = Pending \<longrightarrow> length (all_gaps segs (tr_missing r)) \<le> m" for x
      using Cons.IH [of "pre @ [x]" ups'] Cons.prems(1,2) ups' unfolding next' by auto
    have "wakes segs b r \<longleftrightarrow> remaining_of segs b r = None" using True by (simp add: wakes_def)
    then show ?thesis
      using True r(2) IH unfolding head
      by (cases "remaining_of segs b r") (auto simp: update_ticket_def)
  qed
qed simp

lemma update_ticket_simps [simp]:
  "tr_ticket (update_ticket segs b r) = tr_ticket r" "tr_subscribers (update_ticket segs b r) = tr_subscribers r"
  by (auto simp: update_ticket_def split: option.splits)

lemma update_ticket_Pending:
  "tr_phase (update_ticket segs b r) = Pending \<longleftrightarrow> tr_phase r = Pending \<and> \<not> wakes segs b r"
  by (auto simp: update_ticket_def wakes_def split: option.splits)

lemma update_ticket_missing:
  "tr_phase (update_ticket segs b r) = Pending \<Longrightarrow> tr_missing (update_ticket segs b r) = all_gaps segs (tr_missing r) \<and>
     all_gaps segs (tr_missing r) \<noteq> [] \<and> (\<forall>n. b = BindTo n \<longrightarrow> \<not> missing_crosses_eof (all_gaps segs (tr_missing r)) n)"
  by (auto simp: update_ticket_def remaining_of_def Let_def split: if_splits option.splits)

lemma update_ticket_done: "tr_phase (update_ticket segs b r) \<noteq> Pending \<Longrightarrow> tr_missing (update_ticket segs b r) = tr_missing r"
  by (auto simp: update_ticket_def split: option.splits)

lemma subscriptions_update [simp]: "subscriptions (map (update_ticket segs b) rs) = subscriptions rs"
  by (simp add: subscriptions_def comp_def)

lemma update_ticket_ok:
  assumes "segs_ok segs" "ticket_ok ns limits next r" "tr_phase r = Pending \<Longrightarrow> length (all_gaps segs (tr_missing r)) \<le> max_missing_ranges limits"
  shows "ticket_ok ns limits next (update_ticket segs b r)"
proof (cases "tr_phase (update_ticket segs b r) = Pending")
  case False
  then show ?thesis using assms(2) update_ticket_done [OF False] by (simp add: ticket_ok_def)
next
  case True
  note m = update_ticket_missing [OF True]
  have can: "canonical (tr_missing r)" using assms(2) by (simp add: ticket_ok_def)
  then have ok: "\<forall>x \<in> set (tr_missing r). range_ok x" by (simp add: canonical_def)
  have "range_end g \<le> max_input_bytes limits" if "g \<in> set (all_gaps segs (tr_missing r))" for g
    using all_gaps_within [OF assms(1) ok that] assms(2) by (fastforce simp: ticket_ok_def)
  then show ?thesis
    using m all_gaps_canonical [OF assms(1) can] assms(2,3) True by (auto simp: ticket_ok_def update_ticket_Pending)
qed

lemma update_pending_ok:
  assumes "segs_ok segs" "canonical (tr_missing r)" "pending_ok changed segs0 observed r" "binds b"
  shows "pending_ok changed segs (bound_len b observed) (update_ticket segs b r)"
proof (cases "tr_phase (update_ticket segs b r) = Pending")
  case True
  note m = update_ticket_missing [OF True]
  have p: "\<not> changed" "tr_subscribers r \<noteq> []" "\<forall>x \<in> set (tr_missing r). within_observed observed (range_end x)"
    using True assms(3) by (auto simp: pending_ok_def update_ticket_Pending)
  have ok: "\<forall>x \<in> set (tr_missing r). range_ok x" using assms(2) by (simp add: canonical_def)
  have "within_observed (bound_len b observed) (range_end g)" if g: "g \<in> set (all_gaps segs (tr_missing r))" for g
  proof (cases "\<exists>n. b = BindTo n")
    case True
    then show ?thesis
      using m not_crossing [OF all_gaps_canonical [OF assms(1,2)]] g by (auto simp: bound_len_def within_observed_def)
  next
    case False
    then have "bound_len b observed = observed" using assms(4) by (auto simp: bound_len_def binds_def)
    then show ?thesis
      using all_gaps_within [OF assms(1) ok g] p(3) by (fastforce simp: within_observed_def split: option.splits)
  qed
  moreover have "all_range_bytes (all_gaps segs (tr_missing r)) \<inter> cached segs = {}"
    using all_gaps_bytes [OF assms(1)] by auto
  ultimately show ?thesis using m p(1,2) by (auto simp: pending_ok_def)
qed (simp add: pending_ok_def)

section \<open>Staging\<close>

text \<open>What a successful staging has computed.\<close>

definition staged_ok ::
  "range_store \<Rightarrow> queued_response \<Rightarrow> bind_observed \<Rightarrow> staged_supply \<Rightarrow> segment list \<Rightarrow> segment list \<Rightarrow> segment list \<Rightarrow> segment \<Rightarrow> bool" where
  "staged_ok store q b staged A M B new \<longleftrightarrow>
     splits_at (qr_range q) A M B \<and> st_segments (rs_state store) = A @ M @ B \<and>
     seg_start new = lowest (range_start (qr_range q)) M \<and> seg_end new = highest (range_end (qr_range q)) M \<and>
     length (bk_bytes (seg_backing new)) = seg_len new \<and>
     (\<forall>a \<in> {seg_start new..<seg_end new}. Some (seg_byte new a) = merged_byte (qr_range q) (bk_bytes (qr_backing q)) M a) \<and>
     sg_segments staged = A @ new # B \<and> sg_affected staged = [length A..<length A + length M] \<and>
     sg_cached_bytes staged = st_cached_bytes (rs_state store) - total_len M + seg_len new \<and>
     sg_cached_bytes staged \<le> max_cached_bytes (rs_limits store) \<and>
     length (A @ new # B) \<le> max_segments (rs_limits store) \<and>
     (M = [] \<and> seg_backing new = qr_backing q \<and> sg_resident staged = rs_resident store \<or>
      M \<noteq> [] \<and> bk_id (seg_backing new) = rs_next_backing store \<and>
       rt_current (rs_resident store) + bk_reserved (seg_backing new) \<le> rt_max (rs_resident store) \<and>
       sg_resident staged = (rs_resident store)\<lparr>rt_current :=
         rt_current (rs_resident store) - bk_reserved (qr_backing q) + bk_reserved (seg_backing new)\<rparr>) \<and>
     apply_updates (sg_updates staged) (st_tickets (rs_state store)) =
       (map (update_ticket (A @ new # B) b) (st_tickets (rs_state store)),
        map tr_ticket (filter (wakes (A @ new # B) b) (st_tickets (rs_state store)))) \<and>
     (\<forall>r \<in> set (st_tickets (rs_state store)). tr_phase r = Pending \<longrightarrow>
        length (all_gaps (A @ new # B) (tr_missing r)) \<le> max_missing_ranges (rs_limits store))"

lemma stage_supply_ok:
  assumes ok: "store_ok store" and q: "q \<in> set (rs_queued store)"
    and run: "stage_supply alloc store q b = Inr staged"
  obtains A M B new where "staged_ok store q b staged A M B new"
proof -
  let ?st = "rs_state store" and ?rng = "qr_range q" and ?lim = "rs_limits store"
  note segs = store_okD(6) [OF ok] and qok = store_okD(5) [OF ok q, unfolded queued_ok_def]
  obtain A M B where split: "splits_at ?rng A M B" and eq: "st_segments ?st = A @ M @ B"
    using touch_split [OF segs, of ?rng] qok segs unfolding splits_at_def by metis
  let ?U = "lowest (range_start ?rng) M" and ?V = "highest (range_end ?rng) M" and ?idx = "[length A..<length A + length M]"
  have "total_len M \<le> st_cached_bytes ?st" using store_okD(2) [OF ok] by (simp add: cache_ok_def eq)
  then have tl: "total_len M \<le> u64_max" using store_okD(2) [OF ok] limits_okD(2) [OF store_okD(1) [OF ok]] by (simp add: cache_ok_def)
  have aff: "affected_loop (max_cached_bytes ?lim) ?rng 0 (A @ M @ B) ([], range_start ?rng, range_end ?rng, 0) =
      Inr (?idx, ?U, ?V, total_len M)"
    by (rule affected_split) (use split tl in \<open>auto simp: splits_at_def\<close>)
  from run [unfolded stage_supply_def Let_def eq aff] obtain backing t ups where
    mb: "merged_backing alloc store q ?idx ?U (?V - ?U) = Inr (backing, t)"
    and cached: "sg_cached_bytes staged = st_cached_bytes ?st - total_len M + (?V - ?U)"
      "sg_cached_bytes staged \<le> max_cached_bytes ?lim"
    and cnt: "length (A @ M @ B) - length ?idx + 1 \<le> max_segments ?lim"
    and sg: "sg_segments staged = insert_segment \<lparr>seg_start = ?U, seg_end = ?V, seg_backing = backing\<rparr> (A @ B)"
      "sg_affected staged = ?idx" "sg_resident staged = t" "sg_updates staged = ups"
    and upd: "ticket_updates_loop alloc (insert_segment \<lparr>seg_start = ?U, seg_end = ?V, seg_backing = backing\<rparr> (A @ B))
       (max_missing_ranges ?lim) b 0 (st_tickets ?st) = Inr ups"
    by (auto simp: and_then_Inr_iff ok_or_Inr_iff keep_unaffected_split checked_sub_def bind_eq_Some_conv
        dest!: checked_add_SomeD split: if_splits)
  define new where "new = \<lparr>seg_start = ?U, seg_end = ?V, seg_backing = backing\<rparr>"
  note res = store_okD(4) [OF ok] and lim = store_okD(1) [OF ok]
  have "bk_reserved (qr_backing q) \<le> rt_current (rs_resident store)"
    by (rule resident_okD(3) [OF res lim]) (use q in \<open>simp add: live_def\<close>)
  then have "rt_current (rs_resident store) \<le> rt_max (rs_resident store)" "rt_max (rs_resident store) \<le> u64_max"
      "bk_reserved (qr_backing q) \<le> rt_current (rs_resident store)" "length (bk_bytes (qr_backing q)) = range_len ?rng"
    using res limits_okD(1) [OF lim] qok by (auto simp: resident_ok_def)
  note b = merged_backing_ok [OF split eq refl this(4) this(1-3) mb]
  have new: "seg_start new = ?U" "seg_end new = ?V" "seg_backing new = backing" "seg_len new = ?V - ?U"
    by (simp_all add: new_def seg_len_def)
  have byt: "\<forall>a \<in> {seg_start new..<seg_end new}. Some (seg_byte new a) = merged_byte ?rng (bk_bytes (qr_backing q)) M a"
    using b(2) by (simp add: new seg_byte_def)
  note ms = merged_segs [OF split new(1,2) _ byt [unfolded merged_byte_def]]
  have ins: "insert_segment new (A @ B) = A @ new # B" and ok': "segs_ok (A @ new # B)" using ms(1,2) b(1) new by simp_all
  have "\<forall>r \<in> set (st_tickets ?st). tr_phase r = Pending \<longrightarrow> canonical (tr_missing r)"
    using store_okD(3) [OF ok] by (simp add: tickets_ok_def ticket_ok_def)
  from ticket_updates_ok [OF ok' this, of alloc "max_missing_ranges ?lim" b "[]" ups]
  have "apply_updates ups (st_tickets ?st) =
       (map (update_ticket (A @ new # B) b) (st_tickets ?st), map tr_ticket (filter (wakes (A @ new # B) b) (st_tickets ?st)))"
    "\<forall>r \<in> set (st_tickets ?st). tr_phase r = Pending \<longrightarrow>
        length (all_gaps (A @ new # B) (tr_missing r)) \<le> max_missing_ranges ?lim"
    using upd [folded new_def] by (simp_all add: ins)
  then have "staged_ok store q b staged A M B new"
    unfolding staged_ok_def using split eq byt b(1,3) cached cnt sg [folded new_def] ins by (simp add: new)
  then show ?thesis by (rule that)
qed

section \<open>The commit keeps the invariant\<close>

lemma release_dropped_exact:
  "distinct bs \<Longrightarrow> sum bk_reserved (set bs - set kept) \<le> rt_current t \<Longrightarrow> rt_current t \<le> u64_max \<Longrightarrow>
   release_dropped kept bs t = t\<lparr>rt_current := rt_current t - sum bk_reserved (set bs - set kept)\<rparr>"
proof (induction bs arbitrary: t)
  case (Cons b bs)
  show ?case
  proof (cases "b \<in> set kept")
    case True
    then show ?thesis using Cons by (simp add: insert_Diff_if)
  next
    case False
    have "b \<notin> set bs - set kept" using Cons.prems(1) by simp
    then have sum: "sum bk_reserved (set (b # bs) - set kept) = bk_reserved b + sum bk_reserved (set bs - set kept)"
      using False by (simp add: insert_Diff_if)
    then have "release_bytes t (bk_reserved b) = t\<lparr>rt_current := rt_current t - bk_reserved b\<rparr>"
      using Cons.prems by (intro release_exact) auto
    then show ?thesis
      using Cons.IH [of "t\<lparr>rt_current := rt_current t - bk_reserved b\<rparr>"] Cons.prems False sum by simp
  qed
qed simp

lemma commit_cache_ok:
  assumes ok: "store_ok store" and q: "q \<in> set (rs_queued store)" and st: "staged_ok store q b staged A M B new"
    and b: "bind_observed_len (rs_limits store) (rs_state store) (qr_snapshot q) = b" "binds b"
  shows "segs_ok (A @ new # B)" "sg_cached_bytes staged = total_len (A @ new # B)"
    "\<forall>seg \<in> set (A @ new # B). seg_end seg \<le> max_input_bytes (rs_limits store) \<and>
       within_observed (bound_len b (st_observed_len (rs_state store))) (seg_end seg)"
    "byte_at (A @ new # B) a = merged_byte (qr_range q) (bk_bytes (qr_backing q)) (st_segments (rs_state store)) a"
    "cached (A @ new # B) = cached (st_segments (rs_state store)) \<union> range_bytes (qr_range q)"
proof -
  let ?st = "rs_state store" and ?obs = "bound_len b (st_observed_len (rs_state store))"
  note s = st [unfolded staged_ok_def]
  note cok = store_okD(2) [OF ok, unfolded cache_ok_def]
  have byt: "\<forall>a \<in> {seg_start new..<seg_end new}. Some (seg_byte new a) =
      (if a \<in> range_bytes (qr_range q) then Some (bk_bytes (qr_backing q) ! (a - range_start (qr_range q))) else byte_at M a)"
    using s by (simp add: merged_byte_def)
  have sp: "splits_at (qr_range q) A M B" "seg_start new = lowest (range_start (qr_range q)) M"
    "seg_end new = highest (range_end (qr_range q)) M" "length (bk_bytes (seg_backing new)) = seg_len new"
    using s by auto
  have eq: "st_segments ?st = A @ M @ B" using s by simp
  note ms = merged_segs [OF sp byt]
  show "segs_ok (A @ new # B)" by (rule ms(2))
  show "sg_cached_bytes staged = total_len (A @ new # B)" using s cok by simp
  show "cached (A @ new # B) = cached (st_segments ?st) \<union> range_bytes (qr_range q)" using ms(3) s by simp
  show "byte_at (A @ new # B) a = merged_byte (qr_range q) (bk_bytes (qr_backing q)) (st_segments ?st) a"
    using ms(4) s by (simp add: merged_byte_def)
  have bounded: "seg_end seg \<le> n" if "range_end (qr_range q) \<le> n" "\<forall>seg \<in> set (st_segments ?st). seg_end seg \<le> n"
    "seg \<in> set (A @ new # B)" for n seg
  proof -
    have "highest (range_end (qr_range q)) M < Suc n" by (rule highest_less) (use that(1,2) eq in \<open>auto simp: less_Suc_eq_le\<close>)
    then show ?thesis using that eq sp(3) by auto
  qed
  have qb: "range_end (qr_range q) \<le> max_input_bytes (rs_limits store)"
    "within_observed (snapshot_len (qr_snapshot q)) (range_end (qr_range q))"
    using store_okD(5) [OF ok q] by (auto simp: queued_ok_def)
  have "seg_end seg \<le> n" if obs: "?obs = Some n" and seg: "seg \<in> set (A @ new # B)" for n seg
  proof (rule bounded [OF _ _ seg])
    consider "b = BindKeep" | "b = BindTo n" using b(2) obs by (auto simp: binds_def bound_len_def)
    then show "range_end (qr_range q) \<le> n"
    proof cases
      case 1
      then show ?thesis using bind_keepD [of "rs_limits store" ?st "qr_snapshot q"] b(1) obs qb(2)
        by (simp add: bound_len_def within_observed_def)
    qed (use bind_toD(2) [OF _ store_okD(6) [OF ok]] b(1) qb(2) in \<open>auto simp: within_observed_def\<close>)
    consider "b = BindKeep" | "b = BindTo n" using b(2) obs by (auto simp: binds_def bound_len_def)
    then show "\<forall>seg \<in> set (st_segments ?st). seg_end seg \<le> n"
    proof cases
      case 1
      then show ?thesis using cok obs by (simp add: bound_len_def within_observed_def)
    qed (use bind_toD(4) [OF _ store_okD(6) [OF ok]] b(1) in auto)
  qed
  then show "\<forall>seg \<in> set (A @ new # B). seg_end seg \<le> max_input_bytes (rs_limits store) \<and> within_observed ?obs (seg_end seg)"
    using bounded [OF qb(1)] cok by (auto simp: within_observed_def split: option.splits)
qed

lemma commit_tickets_ok:
  assumes ok: "store_ok store" and q: "q \<in> set (rs_queued store)" and st: "staged_ok store q b staged A M B new"
    and b: "bind_observed_len (rs_limits store) (rs_state store) (qr_snapshot q) = b" "binds b"
  shows "tickets_ok (rs_namespace store) (rs_limits store) (rs_source_changed store)
    (rs_state (fst (commit_supply staged b q store)))"
proof -
  note segs = commit_cache_ok(1) [OF assms] and s = st [unfolded staged_ok_def]
  have upd: "apply_updates (sg_updates staged) (st_tickets (rs_state store)) =
       (map (update_ticket (A @ new # B) b) (st_tickets (rs_state store)),
        map tr_ticket (filter (wakes (A @ new # B) b) (st_tickets (rs_state store))))"
    and len: "\<forall>r \<in> set (st_tickets (rs_state store)). tr_phase r = Pending \<longrightarrow>
        length (all_gaps (A @ new # B) (tr_missing r)) \<le> max_missing_ranges (rs_limits store)"
    and sg: "sg_segments staged = A @ new # B"
    using s by auto
  note t = store_okD(3) [OF ok, unfolded tickets_ok_def]
  have "ticket_ok (rs_namespace store) (rs_limits store) (st_next_ticket (rs_state store)) (update_ticket (A @ new # B) b r) \<and>
      pending_ok (rs_source_changed store) (A @ new # B) (bound_len b (st_observed_len (rs_state store)))
        (update_ticket (A @ new # B) b r)" if "r \<in> set (st_tickets (rs_state store))" for r
  proof
    show "ticket_ok (rs_namespace store) (rs_limits store) (st_next_ticket (rs_state store)) (update_ticket (A @ new # B) b r)"
      by (rule update_ticket_ok [OF segs]) (use t len that in auto)
    have "canonical (tr_missing r)" using t that by (simp add: ticket_ok_def)
    then show "pending_ok (rs_source_changed store) (A @ new # B) (bound_len b (st_observed_len (rs_state store)))
        (update_ticket (A @ new # B) b r)"
      by (rule update_pending_ok [OF segs _ _ b(2)]) (use t that in blast)
  qed
  then show ?thesis
    using t by (auto simp: commit_supply_def Let_def upd sg tickets_ok_def comp_def bound_len_def)
qed

text \<open>The resident bytes after the commit: the old backings that nothing else holds are gone.\<close>

lemma commit_resident_ok:
  assumes ok: "store_ok store" and q: "q \<in> set (rs_queued store)" and st: "staged_ok store q b staged A M B new"
  shows "resident_ok (fst (commit_supply staged b q store))"
proof -
  let ?new = "seg_backing new" and ?X = "seg_backing ` set (A @ B)" and ?Y = "seg_backing ` set M"
    and ?L = "set (rs_lent store)" and ?Q = "qr_backing ` set (remove1 q (rs_queued store))" and ?t = "rs_resident store"
    and ?store' = "fst (commit_supply staged b q store)"
  note s = st [unfolded staged_ok_def] and res = store_okD(4) [OF ok] and lim = store_okD(1) [OF ok]
  note r = res [unfolded resident_ok_def] and cur = resident_okD [OF res lim]
  have eq: "st_segments (rs_state store) = A @ M @ B" and aff: "sg_affected staged = [length A..<length A + length M]"
    and sg: "sg_segments staged = A @ new # B" using s by auto
  have dq: "distinct (map qr_backing (rs_queued store))" using r by simp
  note rm = queued_remove1 [OF dq q]
  have drop: "map (\<lambda>i. seg_backing (st_segments (rs_state store) ! i)) (sg_affected staged) = map seg_backing M"
    unfolding eq aff by (rule map_nth_middle [THEN arg_cong [where f = "map seg_backing"], unfolded map_map comp_def])
  have live': "live ?store' = insert ?new ?X \<union> ?L \<union> ?Q"
    by (auto simp: live_def commit_supply_def sg split_def Let_def)
  have live: "live store = insert (qr_backing q) (?X \<union> ?L \<union> ?Q \<union> (?Y - ?L))"
    using q unfolding live_def rm(1) by (auto simp: eq)
  have disj: "qr_backing q \<notin> ?X \<union> ?L \<union> ?Q \<union> (?Y - ?L)" "(?X \<union> ?L \<union> ?Q) \<inter> (?Y - ?L) = {}"
    using r q unfolding rm(1) by (auto simp: eq)
  have sum: "sum bk_reserved (live store) =
      bk_reserved (qr_backing q) + (sum bk_reserved (?X \<union> ?L \<union> ?Q) + sum bk_reserved (?Y - ?L))"
    unfolding live using disj by (subst sum.insert) (auto simp: sum.union_disjoint)
  have dM: "distinct (map seg_backing M)" using r by (simp add: eq)
  have rest: "distinct (map qr_backing (remove1 q (rs_queued store)))" "rt_max ?t = max_resident_bytes (rs_limits store)"
    using dq r by (auto simp: distinct_map distinct_remove1 rm(2) inj_on_diff)
  have state': "rs_resident ?store' = release_dropped (rs_lent store) (map seg_backing M) (sg_resident staged)"
    "rs_queued ?store' = remove1 q (rs_queued store)" "rs_next_backing ?store' = Suc (rs_next_backing store)"
    "st_segments (rs_state ?store') = A @ new # B" "rs_lent ?store' = rs_lent store" "rs_limits ?store' = rs_limits store"
    by (simp_all add: commit_supply_def Let_def split_def drop sg)
  have old: "\<forall>c \<in> ?X \<union> ?L \<union> ?Q. bk_id c < rs_next_backing store" using r unfolding live by auto
  have fits: "rt_current ?t \<le> rt_max ?t" "rt_max ?t \<le> u64_max" using r limits_okD(1) [OF lim] by auto
  have new: "?new \<notin> ?X \<union> ?L \<union> ?Q" "bk_id ?new < Suc (rs_next_backing store)"
  proof -
    consider "?new = qr_backing q" | "bk_id ?new = rs_next_backing store" using s by auto
    then have "?new \<notin> ?X \<union> ?L \<union> ?Q \<and> bk_id ?new < Suc (rs_next_backing store)"
    proof cases
      case 1
      have "qr_backing q \<in> live store" using q by (simp add: live_def)
      then show ?thesis using 1 disj(1) r by (auto simp: less_Suc_eq)
    qed (use old in force)
    then show "?new \<notin> ?X \<union> ?L \<union> ?Q" "bk_id ?new < Suc (rs_next_backing store)" by blast+
  qed
  have t': "rs_resident ?store' = ?t\<lparr>rt_current := bk_reserved ?new + sum bk_reserved (?X \<union> ?L \<union> ?Q)\<rparr> \<and>
      bk_reserved ?new + sum bk_reserved (?X \<union> ?L \<union> ?Q) \<le> rt_max ?t"
  proof (cases "M = []")
    case True
    then have "seg_backing new = qr_backing q" "sg_resident staged = ?t" using s by auto
    then show ?thesis using True sum cur(1) fits by (simp add: state')
  next
    case False
    then have t: "sg_resident staged = ?t\<lparr>rt_current := rt_current ?t - bk_reserved (qr_backing q) + bk_reserved ?new\<rparr>"
      and room: "rt_current ?t + bk_reserved ?new \<le> rt_max ?t" using s by auto
    have "rt_current (sg_resident staged) = sum bk_reserved (?X \<union> ?L \<union> ?Q) + sum bk_reserved (?Y - ?L) + bk_reserved ?new"
      using sum cur(1) by (simp add: t)
    moreover have "rt_current (sg_resident staged) \<le> u64_max" using room fits by (simp add: t)
    ultimately show ?thesis
      using release_dropped_exact [OF dM, of "rs_lent store" "sg_resident staged"] room sum cur(1)
      by (simp add: state' t)
  qed
  have "sum bk_reserved (live ?store') = bk_reserved ?new + sum bk_reserved (?X \<union> ?L \<union> ?Q)"
    unfolding live' using new(1) by simp
  moreover have "\<forall>c \<in> live ?store'. bk_id c < Suc (rs_next_backing store)" unfolding live' using old new(2) by (auto simp: less_Suc_eq)
  moreover have "distinct (map seg_backing (A @ new # B))" using r new(1) by (auto simp: eq)
  moreover have "?Q \<inter> (seg_backing ` set (A @ new # B) \<union> ?L) = {}" using r new(1) unfolding rm(1) by (auto simp: eq)
  ultimately show ?thesis unfolding resident_ok_def using t' rest by (simp add: state')
qed

lemma commit_supply_store_ok:
  assumes ok: "store_ok store" and q: "q \<in> set (rs_queued store)" and st: "staged_ok store q b staged A M B new"
    and b: "bind_observed_len (rs_limits store) (rs_state store) (qr_snapshot q) = b" "binds b"
  shows "store_ok (fst (commit_supply staged b q store))"
proof -
  let ?store' = "fst (commit_supply staged b q store)"
  note c = commit_cache_ok [OF assms] and s = st [unfolded staged_ok_def]
  have fields: "rs_limits ?store' = rs_limits store" "rs_namespace ?store' = rs_namespace store"
    "rs_source_changed ?store' = rs_source_changed store" "rs_queued ?store' = remove1 q (rs_queued store)"
    "st_segments (rs_state ?store') = sg_segments staged" "st_cached_bytes (rs_state ?store') = sg_cached_bytes staged"
    "st_observed_len (rs_state ?store') = bound_len b (st_observed_len (rs_state store))"
    by (simp_all add: commit_supply_def Let_def split_def bound_len_def)
  have "n \<le> max_input_bytes (rs_limits store)" if "bound_len b (st_observed_len (rs_state store)) = Some n" for n
  proof (cases "\<exists>m. b = BindTo m")
    case True
    then show ?thesis using that bind_toD(3) [OF _ store_okD(6) [OF ok]] b(1) by (auto simp: bound_len_def)
  next
    case False
    then show ?thesis using that store_okD(2) [OF ok] b(2) by (auto simp: bound_len_def binds_def cache_ok_def)
  qed
  then have "cache_ok (rs_limits store) (rs_state ?store')"
    using c(1-3) s unfolding cache_ok_def fields by simp
  then show ?thesis
    using commit_tickets_ok [OF assms] commit_resident_ok [OF ok q st] ok
    unfolding store_ok_def fields by (auto dest: notin_set_remove1)
qed

section \<open>The outcomes of a supply\<close>

lemma supply_commit_cases:
  obtains (poisoned) e where "supply_commit h q store = (drop_response q (poison_source store), Inl e)"
      "e = changed_error \<or> e = source_error_for_code SConflictingBytes"
    | (refused) e where "supply_commit h q store = (drop_response q store, Inl e)" "\<not> rs_source_changed store"
    | (covered) b where "\<not> rs_source_changed store" "binds b"
      "bind_observed_len (rs_limits store) (rs_state store) (qr_snapshot q) = b"
      "conflicts_loop (qr_range q) (bk_bytes (qr_backing q)) (st_segments (rs_state store)) = Inr False"
      "range_is_covered (st_segments (rs_state store)) (qr_range q)"
      "supply_commit h q store = (drop_response q (store\<lparr>rs_state := fst (commit_observed b (rs_state store))\<rparr>),
         Inr (snd (commit_observed b (rs_state store))))"
    | (committed) b staged where "\<not> rs_source_changed store" "binds b"
      "bind_observed_len (rs_limits store) (rs_state store) (qr_snapshot q) = b"
      "conflicts_loop (qr_range q) (bk_bytes (qr_backing q)) (st_segments (rs_state store)) = Inr False"
      "stage_supply (sh_alloc h) store q b = Inr staged"
      "supply_commit h q store = (fst (commit_supply staged b q store), Inr (snd (commit_supply staged b q store)))"
proof (rule synchronize_cases [of store h 0])
  assume 0: "\<not> rs_source_changed store" "synchronize_source_change h 0 store = (store, False)"
  let ?st = "rs_state store" and ?b = "bind_observed_len (rs_limits store) (rs_state store) (qr_snapshot q)"
  let ?n = "length (st_tickets ?st)" and ?c = "conflicts_loop (qr_range q) (bk_bytes (qr_backing q)) (st_segments ?st)"
  note run = supply_commit_def 0(2) Let_def split_def
  note refuse = refused [OF _ 0(1)]
  show thesis
  proof (cases "binds ?b \<and> try_alloc (sh_alloc h) 0 ?n \<noteq> None \<and> ?c = Inr False")
    case False
    show ?thesis
    proof (cases "binds ?b \<and> try_alloc (sh_alloc h) 0 ?n \<noteq> None")
      case ready: True
      then consider e where "?c = Inl e" | "?c = Inr True" using False by (cases ?c) auto
      then show ?thesis using ready refuse poisoned by cases (cases ?b; auto simp: run binds_def)+
    next
      case idle: False
      then show ?thesis using refuse poisoned by (cases ?b) (auto simp: run binds_def)
    qed
  next
    case True
    show ?thesis
    proof (cases "range_is_covered (st_segments ?st) (qr_range q)")
      case cov: True
      have end': "supply_commit h q store = (let (store, changed) = source_change_precedes_commit h 1 store in
            if changed then (drop_response q (map_state transition_source_changed store), Inl changed_error)
            else let (st, outcome) = commit_observed ?b (rs_state store)
              in (drop_response q (store\<lparr>rs_state := st\<rparr>), Inr outcome))"
        using True cov by (cases ?b) (auto simp: run binds_def)
      show ?thesis
        by (rule precedes_cases [of store h 1])
          (use True cov 0(1) poisoned covered [OF _ _ refl] in \<open>auto simp: end' split_def Let_def poison_source_def\<close>)
    next
      case cov: False
      show ?thesis
      proof (cases "stage_supply (sh_alloc h) store q ?b")
        case (Inl e)
        then have "supply_commit h q store = (drop_response q store, Inl e)"
          using True cov by (cases ?b) (auto simp: run binds_def)
        then show ?thesis by (rule refuse)
      next
        case (Inr staged)
        have end': "supply_commit h q store = (let (store, changed) = source_change_precedes_commit h 1 store in
            if changed then (drop_response q (map_state transition_source_changed store), Inl changed_error)
            else let (store, outcome) = commit_supply staged ?b q store in (store, Inr outcome))"
          using True cov Inr by (cases ?b) (auto simp: run binds_def)
        show ?thesis
          by (rule precedes_cases [of store h 1])
            (use True Inr 0(1) poisoned committed [OF _ _ refl] in \<open>auto simp: end' split_def Let_def poison_source_def\<close>)
      qed
    qed
  qed
qed (use poisoned in \<open>simp add: supply_commit_def\<close>)

lemma supply_commit_ok:
  assumes "store_ok store" "q \<in> set (rs_queued store)"
  shows "store_ok (fst (supply_commit h q store))"
proof (rule supply_commit_cases [of h q store])
  fix b staged
  assume *: "binds b" "bind_observed_len (rs_limits store) (rs_state store) (qr_snapshot q) = b"
    "stage_supply (sh_alloc h) store q b = Inr staged"
    "supply_commit h q store = (fst (commit_supply staged b q store), Inr (snd (commit_supply staged b q store)))"
  obtain A M B new where "staged_ok store q b staged A M B new" by (rule stage_supply_ok [OF assms *(3)])
  then show ?thesis using commit_supply_store_ok [OF assms] * by simp
next
  fix b
  assume *: "binds b" "bind_observed_len (rs_limits store) (rs_state store) (qr_snapshot q) = b"
    "supply_commit h q store = (drop_response q (store\<lparr>rs_state := fst (commit_observed b (rs_state store))\<rparr>),
         Inr (snd (commit_observed b (rs_state store))))"
  show ?thesis using drop_response_ok [OF commit_observed_ok [OF assms(1) *(2,1)], of q] assms(2) *(3) by simp
qed (use assms in \<open>auto intro: drop_response_ok poison_store_ok\<close>)

end
