(* ===== verification/Bytes_Machine.thy ===== *)
theory Bytes_Machine
  imports Bytes_Supply
begin

text \<open>
  The operations on tickets, polling and the lifetime of slices keep the invariant; the store as a machine
  driven by the calls of its hosts and readers, and the invariant of every state it reaches.
\<close>

section \<open>Ticket operations\<close>

lemma store_ok_tickets:
  assumes "store_ok store" "tickets_ok (rs_namespace store) (rs_limits store) (rs_source_changed store) st"
    "st_segments st = st_segments (rs_state store)" "st_cached_bytes st = st_cached_bytes (rs_state store)"
    "st_observed_len st = st_observed_len (rs_state store)"
  shows "store_ok (store\<lparr>rs_state := st\<rparr>)"
  using assms by (auto simp: store_ok_def cache_ok_def resident_ok_def live_def)

lemma subscriptions_set_at:
  "i < length rs \<Longrightarrow> subscriptions (rs[i := r]) + length (tr_subscribers (rs ! i)) = subscriptions rs + length (tr_subscribers r)"
proof (induction rs arbitrary: i)
  case (Cons a rs)
  then show ?case by (cases i) (auto simp: subscriptions_def)
qed simp

lemma subscriptions_member: "r \<in> set rs \<Longrightarrow> length (tr_subscribers r) \<le> subscriptions rs"
  unfolding subscriptions_def by (rule member_le_sum_list) auto

lemma tickets_ok_set:
  assumes t: "tickets_ok ns limits ch st" and i: "i < length (st_tickets st)"
    and r: "tr_ticket r = tr_ticket (st_tickets st ! i)" "ticket_ok ns limits (st_next_ticket st) r"
      "pending_ok ch (st_segments st) (st_observed_len st) r"
    and n: "n + length (tr_subscribers (st_tickets st ! i)) = st_subscription_count st + length (tr_subscribers r)"
      "n \<le> max_total_subscriptions limits"
  shows "tickets_ok ns limits ch (st\<lparr>st_tickets := (st_tickets st)[i := r], st_subscription_count := n\<rparr>)"
proof -
  have "map tr_ticket ((st_tickets st)[i := r]) = map tr_ticket (st_tickets st)"
    using i r(1) by (simp add: map_update list_update_same_conv)
  moreover have "n = subscriptions ((st_tickets st)[i := r])"
    using subscriptions_set_at [OF i, of r] n t by (simp add: tickets_ok_def)
  ultimately show ?thesis
    using t r(2,3) n(2) set_update_subset_insert [of "st_tickets st" i r] by (auto simp: tickets_ok_def)
qed

lemma count_same: "st\<lparr>st_tickets := ts, st_subscription_count := st_subscription_count st\<rparr> = st\<lparr>st_tickets := ts\<rparr>"
  by simp

lemma tickets_ok_nth:
  assumes "tickets_ok ns limits ch st" "i < length (st_tickets st)"
  shows "ticket_ok ns limits (st_next_ticket st) (st_tickets st ! i)"
    "pending_ok ch (st_segments st) (st_observed_len st) (st_tickets st ! i)"
    "st_subscription_count st \<le> max_total_subscriptions limits"
    "length (tr_subscribers (st_tickets st ! i)) \<le> st_subscription_count st"
  using assms subscriptions_member [OF nth_mem [OF assms(2)]] by (auto simp: tickets_ok_def)

lemma find_ticket_Inr: "find_ticket st t = Inr i \<Longrightarrow> i < length (st_tickets st) \<and> tr_ticket (st_tickets st ! i) = t"
  by (auto simp: find_ticket_def ok_or_Inr_iff dest: position_SomeD)

definition synced :: "store_host \<Rightarrow> range_store \<Rightarrow> range_store" where
  "synced h store = fst (synchronize_source_change h 0 store)"

lemma synced_cases: obtains "synced h store = poison_source store" | "synced h store = store" "\<not> rs_source_changed store"
  by (rule synchronize_cases [of store h 0]) (auto simp: synced_def intro: that)

lemma synced_ok: "store_ok store \<Longrightarrow> store_ok (synced h store)"
  by (rule synced_cases [of h store]) (auto intro: poison_store_ok)

lemma fail_ticket_eq:
  "fail_ticket h t e store =
     (case find_ticket (rs_state (synced h store)) t of
        Inl e' \<Rightarrow> (synced h store, Inl e')
      | Inr i \<Rightarrow>
        if se_category e = SIntegrity then (poison_source (synced h store), Inr ())
        else let r = st_tickets (rs_state (synced h store)) ! i in
          if tr_phase r \<noteq> Pending then (synced h store, Inl (source_error_for_code STicketAlreadyTerminal))
          else (map_state (set_ticket i (r\<lparr>tr_phase := TFailed e\<rparr>)) (synced h store), Inr ()))"
  by (simp add: fail_ticket_def synced_def split_def Let_def split: sum.split)

lemma fail_ticket_ok:
  assumes "store_ok store"
  shows "store_ok (fst (fail_ticket h t e store))"
proof -
  define s where "s = synced h store"
  have s: "store_ok s" unfolding s_def by (rule synced_ok [OF assms])
  note t = store_okD(3) [OF s]
  have "store_ok (map_state (set_ticket i ((st_tickets (rs_state s) ! i)\<lparr>tr_phase := TFailed e\<rparr>)) s)"
    if i: "i < length (st_tickets (rs_state s))" for i
    using tickets_ok_set [OF t i, of "(st_tickets (rs_state s) ! i)\<lparr>tr_phase := TFailed e\<rparr>" "st_subscription_count (rs_state s)"]
      tickets_ok_nth [OF t i]
    by (intro store_ok_tickets [OF s]) (auto simp: ticket_ok_def pending_ok_def)
  then show ?thesis
    using s poison_store_ok [OF s] find_ticket_Inr [of "rs_state s" t]
    by (auto simp: fail_ticket_eq s_def [symmetric] Let_def split: sum.split)
qed

lemma uncount_ok:
  assumes s: "store_ok s" and i: "i < length (st_tickets (rs_state s))"
    and r: "tr_ticket r = tr_ticket (st_tickets (rs_state s) ! i)"
      "ticket_ok (rs_namespace s) (rs_limits s) (st_next_ticket (rs_state s)) r"
      "pending_ok (rs_source_changed s) (st_segments (rs_state s)) (st_observed_len (rs_state s)) r"
    and n: "removed = length (tr_subscribers (st_tickets (rs_state s) ! i)) - length (tr_subscribers r)"
      "length (tr_subscribers r) \<le> length (tr_subscribers (st_tickets (rs_state s) ! i))"
  shows "uncount_subscriptions removed x (map_state (set_ticket i r) s) =
      (s\<lparr>rs_state := (rs_state s)\<lparr>st_tickets := (st_tickets (rs_state s))[i := r],
         st_subscription_count := st_subscription_count (rs_state s) - removed\<rparr>\<rparr>, Inr x)"
    "store_ok (s\<lparr>rs_state := (rs_state s)\<lparr>st_tickets := (st_tickets (rs_state s))[i := r],
         st_subscription_count := st_subscription_count (rs_state s) - removed\<rparr>\<rparr>)"
proof -
  note t = store_okD(3) [OF s]
  note nth = tickets_ok_nth [OF t i]
  show "uncount_subscriptions removed x (map_state (set_ticket i r) s) =
      (s\<lparr>rs_state := (rs_state s)\<lparr>st_tickets := (st_tickets (rs_state s))[i := r],
         st_subscription_count := st_subscription_count (rs_state s) - removed\<rparr>\<rparr>, Inr x)"
    using nth(4) n(1) by (simp add: uncount_subscriptions_def checked_sub_def)
  show "store_ok (s\<lparr>rs_state := (rs_state s)\<lparr>st_tickets := (st_tickets (rs_state s))[i := r],
         st_subscription_count := st_subscription_count (rs_state s) - removed\<rparr>\<rparr>)"
    by (rule store_ok_tickets [OF s], rule tickets_ok_set [OF t i r]) (use nth n in auto)
qed

lemma unsubscribe_eq:
  "unsubscribe h t job store =
     (case find_ticket (rs_state (synced h store)) t of
        Inl e \<Rightarrow> (synced h store, Inl e)
      | Inr i \<Rightarrow>
        let r = st_tickets (rs_state (synced h store)) ! i in
        if tr_phase r \<noteq> Pending then (synced h store, Inl (source_error_for_code STicketAlreadyTerminal))
        else let subscribers = filter (\<lambda>s. sub_job s \<noteq> job) (tr_subscribers r);
                 removed = length (tr_subscribers r) - length subscribers;
                 r' = r\<lparr>tr_subscribers := subscribers, tr_phase := (if subscribers = [] then Abandoned else Pending)\<rparr>
          in uncount_subscriptions removed () (map_state (set_ticket i r') (synced h store)))"
  by (simp add: unsubscribe_def synced_def split_def Let_def split: sum.split)

lemma unsubscribe_ok:
  assumes "store_ok store"
  shows "store_ok (fst (unsubscribe h t job store))"
proof -
  define s where "s = synced h store"
  have s: "store_ok s" unfolding s_def by (rule synced_ok [OF assms])
  show ?thesis
  proof (cases "find_ticket (rs_state s) t")
    case (Inr i)
    let ?r = "st_tickets (rs_state s) ! i"
    let ?subs = "filter (\<lambda>s. sub_job s \<noteq> job) (tr_subscribers ?r)"
    let ?r' = "?r\<lparr>tr_subscribers := ?subs, tr_phase := (if ?subs = [] then Abandoned else Pending)\<rparr>"
    have i: "i < length (st_tickets (rs_state s))" using find_ticket_Inr [OF Inr] by simp
    note nth = tickets_ok_nth [OF store_okD(3) [OF s] i]
    have le: "length ?subs \<le> length (tr_subscribers ?r)" by simp
    have "store_ok (fst (uncount_subscriptions (length (tr_subscribers ?r) - length ?subs) () (map_state (set_ticket i ?r') s)))"
      if "tr_phase ?r = Pending"
    proof -
      have ok: "ticket_ok (rs_namespace s) (rs_limits s) (st_next_ticket (rs_state s)) ?r'"
        using nth(1) le_trans [OF le] by (auto simp: ticket_ok_def distinct_map_filter)
      have "pending_ok (rs_source_changed s) (st_segments (rs_state s)) (st_observed_len (rs_state s)) ?r'"
        using nth(2) that by (auto simp: pending_ok_def)
      note u = uncount_ok [OF s i _ ok this, of "length (tr_subscribers ?r) - length ?subs"]
      have "tr_ticket ?r' = tr_ticket ?r" "tr_subscribers ?r' = ?subs" by simp_all
      from u(1) [OF this(1), unfolded this(2), OF refl le, of "()"] u(2) [OF this(1), unfolded this(2), OF refl le]
      show ?thesis by (simp only: fst_conv)
    qed
    then show ?thesis using s Inr by (simp add: unsubscribe_eq s_def [symmetric] Let_def)
  qed (use s in \<open>simp add: unsubscribe_eq s_def\<close>)
qed

lemma take_subscriptions_eq:
  "take_subscriptions h t store =
     (case find_ticket (rs_state (synced h store)) t of
        Inl e \<Rightarrow> (synced h store, Inl e)
      | Inr i \<Rightarrow>
        let r = st_tickets (rs_state (synced h store)) ! i in
        if tr_phase r = Pending then (synced h store, Inl (source_error_for_code STicketNotTerminal))
        else uncount_subscriptions (length (tr_subscribers r)) (tr_subscribers r)
               (map_state (set_ticket i (r\<lparr>tr_subscribers := []\<rparr>)) (synced h store)))"
  by (simp add: take_subscriptions_def synced_def split_def Let_def split: sum.split)

lemma take_subscriptions_found:
  assumes "store_ok store" and Inr: "find_ticket (rs_state (synced h store)) t = Inr i"
    and ended: "tr_phase (st_tickets (rs_state (synced h store)) ! i) \<noteq> Pending"
  defines "s \<equiv> synced h store"
  defines "r \<equiv> st_tickets (rs_state s) ! i"
  shows "take_subscriptions h t store =
      (s\<lparr>rs_state := (rs_state s)\<lparr>st_tickets := (st_tickets (rs_state s))[i := r\<lparr>tr_subscribers := []\<rparr>],
         st_subscription_count := st_subscription_count (rs_state s) - length (tr_subscribers r)\<rparr>\<rparr>, Inr (tr_subscribers r))"
    "store_ok (fst (take_subscriptions h t store))"
proof -
  have s: "store_ok s" unfolding s_def by (rule synced_ok [OF assms(1)])
  have i: "i < length (st_tickets (rs_state s))" using find_ticket_Inr [OF Inr] by (simp add: s_def)
  note nth = tickets_ok_nth [OF store_okD(3) [OF s] i]
  have ok: "ticket_ok (rs_namespace s) (rs_limits s) (st_next_ticket (rs_state s)) (r\<lparr>tr_subscribers := []\<rparr>)"
    "pending_ok (rs_source_changed s) (st_segments (rs_state s)) (st_observed_len (rs_state s)) (r\<lparr>tr_subscribers := []\<rparr>)"
    using nth ended by (auto simp: ticket_ok_def pending_ok_def r_def s_def)
  note u = uncount_ok [OF s i _ ok, of "length (tr_subscribers r)"]
  show eq: "take_subscriptions h t store =
      (s\<lparr>rs_state := (rs_state s)\<lparr>st_tickets := (st_tickets (rs_state s))[i := r\<lparr>tr_subscribers := []\<rparr>],
         st_subscription_count := st_subscription_count (rs_state s) - length (tr_subscribers r)\<rparr>\<rparr>, Inr (tr_subscribers r))"
    using Inr ended u(1) by (simp add: take_subscriptions_eq s_def [symmetric] Let_def r_def)
  show "store_ok (fst (take_subscriptions h t store))" using u(2) by (simp add: eq r_def)
qed

lemma take_subscriptions_ok:
  assumes "store_ok store"
  shows "store_ok (fst (take_subscriptions h t store))"
proof (cases "find_ticket (rs_state (synced h store)) t")
  case (Inr i)
  then show ?thesis
    using take_subscriptions_found(2) [OF assms Inr] synced_ok [OF assms, of h]
    by (cases "tr_phase (st_tickets (rs_state (synced h store)) ! i) = Pending") (auto simp: take_subscriptions_eq Let_def)
qed (use synced_ok [OF assms] in \<open>simp add: take_subscriptions_eq\<close>)

lemma ticket_status_eq:
  "ticket_status h t store = (synced h store, and_then (find_ticket (rs_state (synced h store)) t)
     (\<lambda>i. let r = st_tickets (rs_state (synced h store)) ! i in Inr (phase_status r (tr_phase r))))"
  by (simp add: ticket_status_def synced_def split_def Let_def split: sum.split)

lemma release_ticket_eq:
  "release_ticket h t store =
     (case find_ticket (rs_state (synced h store)) t of
        Inl e \<Rightarrow> (synced h store, Inl e)
      | Inr i \<Rightarrow>
        let r = st_tickets (rs_state (synced h store)) ! i in
        if tr_phase r = Pending then (synced h store, Inl (source_error_for_code STicketNotTerminal))
        else if tr_subscribers r \<noteq> [] then (synced h store, Inl (source_error_for_code SSubscriptionsNotTaken))
        else (map_state (\<lambda>st. st\<lparr>st_tickets := remove_at i (st_tickets st)\<rparr>) (synced h store), Inr ()))"
  by (simp add: release_ticket_def synced_def split_def Let_def uncount_subscriptions_def checked_sub_def split: sum.split)

lemma subscriptions_remove_at:
  "i < length rs \<Longrightarrow> subscriptions (remove_at i rs) + length (tr_subscribers (rs ! i)) = subscriptions rs"
proof (induction rs arbitrary: i)
  case (Cons a rs)
  then show ?case by (cases i) (auto simp: subscriptions_def)
qed simp

lemma release_ticket_ok:
  assumes "store_ok store"
  shows "store_ok (fst (release_ticket h t store))"
proof -
  define s where "s = synced h store"
  have s: "store_ok s" unfolding s_def by (rule synced_ok [OF assms])
  have "store_ok (map_state (\<lambda>st. st\<lparr>st_tickets := remove_at i (st_tickets st)\<rparr>) s)"
    if i: "i < length (st_tickets (rs_state s))" "tr_subscribers (st_tickets (rs_state s) ! i) = []" for i
    using store_okD(3) [OF s] subscriptions_remove_at [OF i(1)] i(2) length_remove_at [OF i(1)] set_remove_at [of i "st_tickets (rs_state s)"]
      distinct_map_remove_at [OF _ i(1), of tr_ticket]
    by (intro store_ok_tickets [OF s]) (auto simp: tickets_ok_def)
  then show ?thesis
    using s find_ticket_Inr [of "rs_state s" t]
    by (auto simp: release_ticket_eq s_def [symmetric] Let_def split: sum.split)
qed

section \<open>Polling and slices\<close>

lemma open_ticket_ok:
  assumes s: "store_ok store" and m: "canonical missing" "missing \<noteq> []" "length missing \<le> max_missing_ranges (rs_limits store)"
      "\<forall>x \<in> set missing. range_end x \<le> max_input_bytes (rs_limits store) \<and>
         within_observed (st_observed_len (rs_state store)) (range_end x)"
      "all_range_bytes missing \<inter> cached (st_segments (rs_state store)) = {}" "\<not> rs_source_changed store"
  shows "store_ok (fst (open_ticket h request missing store))"
proof -
  let ?st = "rs_state store" and ?lim = "rs_limits store"
  note t = store_okD(3) [OF s]
  define new where "new = \<lparr>tr_ticket = \<lparr>ticket_namespace = rs_namespace store, ticket_value = st_next_ticket ?st\<rparr>,
    tr_missing = missing, tr_subscribers = [\<lparr>sub_job = rq_job request, sub_checkpoint = rq_checkpoint request\<rparr>], tr_phase = Pending\<rparr>"
  have positive: "0 < max_subscribers_per_ticket ?lim"
    using store_okD(1) [OF s] by (auto simp: limits_ok_def range_store_limits_validate_def split: if_splits)
  have bumped: "tickets_ok (rs_namespace store) ?lim (rs_source_changed store) (?st\<lparr>st_next_ticket := Suc (st_next_ticket ?st)\<rparr>)"
    if "Suc (st_next_ticket ?st) \<le> u64_max"
    using t that by (auto simp: tickets_ok_def ticket_ok_def less_Suc_eq)
  have "\<forall>r \<in> set (st_tickets ?st). tr_ticket r \<noteq> tr_ticket new" using t by (auto simp: tickets_ok_def ticket_ok_def new_def)
  moreover have "ticket_ok (rs_namespace store) ?lim (Suc (st_next_ticket ?st)) new"
    "pending_ok (rs_source_changed store) (st_segments ?st) (st_observed_len ?st) new"
    using m t positive by (auto simp: ticket_ok_def pending_ok_def new_def tickets_ok_def)
  ultimately have added: "tickets_ok (rs_namespace store) ?lim (rs_source_changed store)
      (?st\<lparr>st_next_ticket := Suc (st_next_ticket ?st), st_tickets := st_tickets ?st @ [new],
        st_subscription_count := Suc (st_subscription_count ?st)\<rparr>)"
    if "Suc (st_next_ticket ?st) \<le> u64_max" "length (st_tickets ?st) < max_tickets ?lim"
      "st_subscription_count ?st < max_total_subscriptions ?lim"
    using bumped [OF that(1)] that by (auto simp: tickets_ok_def subscriptions_def new_def)
  show ?thesis
    using s bumped added [unfolded new_def]
    by (auto simp: open_ticket_def Let_def checked_add_def intro!: store_ok_tickets [OF s])
qed

lemma find_job_None: "find (\<lambda>e. sub_job e = j) subs = None \<Longrightarrow> j \<notin> sub_job ` set subs"
  by (auto simp: find_None_iff)

lemma join_ticket_ok:
  assumes s: "store_ok store" and i: "i < length (st_tickets (rs_state store))"
  shows "store_ok (fst (join_ticket h request missing i store))"
proof -
  let ?st = "rs_state store" and ?r = "st_tickets (rs_state store) ! i"
  let ?sub = "\<lparr>sub_job = rq_job request, sub_checkpoint = rq_checkpoint request\<rparr>"
  let ?r' = "?r\<lparr>tr_subscribers := tr_subscribers ?r @ [?sub]\<rparr>"
  note t = store_okD(3) [OF s]
  note nth = tickets_ok_nth [OF t i]
  have "store_ok (store\<lparr>rs_state := ?st\<lparr>st_tickets := (st_tickets ?st)[i := ?r'], st_subscription_count := Suc (st_subscription_count ?st)\<rparr>\<rparr>)"
    if "find (\<lambda>existing. sub_job existing = rq_job request) (tr_subscribers ?r) = None"
      "st_subscription_count ?st < max_total_subscriptions (rs_limits store)"
      "length (tr_subscribers ?r) < max_subscribers_per_ticket (rs_limits store)"
    by (rule store_ok_tickets [OF s], rule tickets_ok_set [OF t i])
      (use nth that find_job_None [OF that(1)] in \<open>auto simp: ticket_ok_def pending_ok_def\<close>)
  then show ?thesis using s by (auto simp: join_ticket_def Let_def split: option.split)
qed

lemma lend_ok:
  assumes "store_ok store" "b \<in> seg_backing ` set (st_segments (rs_state store)) \<union> set (rs_lent store)"
  shows "store_ok (store\<lparr>rs_lent := b # rs_lent store\<rparr>)"
proof -
  have "live (store\<lparr>rs_lent := b # rs_lent store\<rparr>) = live store" using assms(2) by (auto simp: live_def)
  then have "resident_ok (store\<lparr>rs_lent := b # rs_lent store\<rparr>)"
    using assms(2) store_okD(4) [OF assms(1)] by (auto simp: resident_ok_def)
  then show ?thesis using assms(1) by (auto simp: store_ok_def)
qed

text \<open>The branches of a poll, over the segments of a store that satisfies the invariant.\<close>

definition poll_gaps :: "range_store \<Rightarrow> byte_range \<Rightarrow> byte_range list" where
  "poll_gaps store rng = gaps (range_start rng) (range_end rng) (st_segments (rs_state store))"

lemma poll_cases:
  assumes s: "store_ok store" and rq: "range_ok (rq_range request)"
  obtains (poisoned) "poll h request store = (poison_source store, PollFailed changed_error)"
      "rs_source_changed store \<or> sh_signal h 0"
    | (failed) e where "poll h request store = (store, PollFailed e)" "\<not> rs_source_changed store"
    | (eof) n where "poll h request store = (store, PollEndOfFile)" "\<not> rs_source_changed store"
      "st_observed_len (rs_state store) = Some n" "n < range_end (rq_range request)"
    | (ready) slice seg where "poll h request store = (store\<lparr>rs_lent := seg_backing seg # rs_lent store\<rparr>, PollReady slice)"
      "\<not> rs_source_changed store" "seg \<in> set (st_segments (rs_state store))" "bs_range slice = rq_range request"
      "bs_identity slice = snapshot_identity (rs_snapshot store)" "length (byte_slice_bytes slice) = range_len (rq_range request)"
      "\<forall>i < range_len (rq_range request). byte_at (st_segments (rs_state store)) (range_start (rq_range request) + i) =
        Some (byte_slice_bytes slice ! i)"
    | (join) i missing where "poll h request store = join_ticket h request missing i store" "\<not> rs_source_changed store"
      "missing = poll_gaps store (rq_range request)" "missing \<noteq> []" "i < length (st_tickets (rs_state store))"
      "tr_phase (st_tickets (rs_state store) ! i) = Pending" "tr_missing (st_tickets (rs_state store) ! i) = missing"
      "within_observed (st_observed_len (rs_state store)) (range_end (rq_range request))"
    | (fresh) missing where "poll h request store = open_ticket h request missing store" "\<not> rs_source_changed store"
      "missing = poll_gaps store (rq_range request)" "missing \<noteq> []" "length missing \<le> max_missing_ranges (rs_limits store)"
      "\<forall>r \<in> set (st_tickets (rs_state store)). \<not> (tr_phase r = Pending \<and> tr_missing r = missing)"
      "range_end (rq_range request) \<le> max_input_bytes (rs_limits store)"
      "within_observed (st_observed_len (rs_state store)) (range_end (rq_range request))"
proof (rule synchronize_cases [of store h 0])
  assume 0: "\<not> rs_source_changed store" "synchronize_source_change h 0 store = (store, False)"
  let ?st = "rs_state store" and ?lim = "rs_limits store" and ?rng = "rq_range request"
  note run = poll_def 0(2) Let_def and segs = store_okD(6) [OF s]
  note fail = failed [OF _ 0(1)]
  consider "range_len ?rng > max_read_bytes ?lim"
    | n where "range_len ?rng \<le> max_read_bytes ?lim" "st_observed_len ?st = Some n" "n < range_end ?rng"
    | "range_len ?rng \<le> max_read_bytes ?lim" "within_observed (st_observed_len ?st) (range_end ?rng)" "range_end ?rng > max_input_bytes ?lim"
    | (fit) "range_len ?rng \<le> max_read_bytes ?lim" "within_observed (st_observed_len ?st) (range_end ?rng)" "range_end ?rng \<le> max_input_bytes ?lim"
    unfolding within_observed_def by (cases "st_observed_len ?st") (auto simp: not_less [symmetric])
  then show thesis
  proof cases
    case 1
    then show ?thesis using fail by (simp add: run)
  next
    case 2
    then show ?thesis using eof 0(1) by (simp add: run)
  next
    case 3
    then show ?thesis using fail by (simp add: run within_observed_def split: option.splits)
  next
    case fit
    then have go: "poll h request store =
      (if range_is_covered (st_segments ?st) ?rng
      then (case borrow_range (st_segments ?st) (snapshot_identity (rs_snapshot store)) ?rng of
              Inr (bytes, backing) \<Rightarrow> (store\<lparr>rs_lent := backing # rs_lent store\<rparr>, PollReady bytes)
            | Inl error \<Rightarrow> (store, PollFailed error))
      else case missing_ranges (sh_alloc h) 0 (st_segments ?st) ?rng (max_missing_ranges ?lim) of
        Inl error \<Rightarrow> (store, PollFailed error)
      | Inr missing \<Rightarrow>
        (case position (\<lambda>r. tr_phase r = Pending \<and> tr_missing r = missing) (st_tickets ?st) of
           Some index \<Rightarrow> join_ticket h request missing index store
         | None \<Rightarrow> open_ticket h request missing store))"
      by (auto simp: run within_observed_def split: option.splits)
    show ?thesis
    proof (cases "range_is_covered (st_segments ?st) ?rng")
      case True
      then have "range_bytes ?rng \<subseteq> cached (st_segments ?st)" using range_is_covered_iff [OF segs rq] by simp
      from borrow_range_ok [OF segs rq this, of "snapshot_identity (rs_snapshot store)"] obtain slice seg where
        b: "borrow_range (st_segments ?st) (snapshot_identity (rs_snapshot store)) ?rng = Inr (slice, seg_backing seg)"
        and sl: "seg \<in> set (st_segments ?st)" "bs_range slice = ?rng" "bs_identity slice = snapshot_identity (rs_snapshot store)"
          "length (byte_slice_bytes slice) = range_len ?rng"
          "\<forall>i < range_len ?rng. byte_at (st_segments ?st) (range_start ?rng + i) = Some (byte_slice_bytes slice ! i)"
        by blast
      show ?thesis by (rule ready [OF _ 0(1) sl]) (simp add: go True b)
    next
      case False
      show ?thesis
      proof (cases "missing_ranges (sh_alloc h) 0 (st_segments ?st) ?rng (max_missing_ranges ?lim)")
        case (Inl e)
        then show ?thesis using fail False by (simp add: go)
      next
        case (Inr missing)
        then have m: "missing = poll_gaps store ?rng" "missing \<noteq> []" "length missing \<le> max_missing_ranges ?lim"
          unfolding missing_ranges_spec [OF segs rq] by (auto simp: poll_gaps_def split: if_splits)
        show ?thesis
        proof (cases "position (\<lambda>r. tr_phase r = Pending \<and> tr_missing r = missing) (st_tickets ?st)")
          case None
          have "poll h request store = open_ticket h request missing store" using False Inr None by (simp add: go)
          then show ?thesis using None by (intro fresh [OF _ 0(1) m _ fit(3,2)]) (simp_all add: position_None_iff)
        next
          case (Some i)
          then show ?thesis using join [OF _ 0(1) m(1,2)] False Inr fit(2) position_SomeD [OF Some] by (simp add: go)
        qed
      qed
    qed
  qed
qed (use poisoned in \<open>simp add: poll_def\<close>)

lemma poll_gaps_ok:
  assumes "store_ok store" "range_ok rng"
  shows "canonical (poll_gaps store rng)" "all_range_bytes (poll_gaps store rng) = range_bytes rng - cached (st_segments (rs_state store))"
    "\<forall>m \<in> set (poll_gaps store rng). range_start rng \<le> range_start m \<and> range_end m \<le> range_end rng"
  using gaps_canonical [OF store_okD(6) [OF assms(1)], of "range_end rng" "range_start rng"] assms(2)
    gaps_bytes [OF store_okD(6) [OF assms(1)], of "range_start rng" "range_end rng"]
  by (auto simp: poll_gaps_def range_ok_def range_bytes_def)

lemma poll_ok:
  assumes s: "store_ok store" and rq: "range_ok (rq_range request)"
  shows "store_ok (fst (poll h request store))"
proof (rule poll_cases [OF s rq, of h])
  fix missing
  assume *: "poll h request store = open_ticket h request missing store" "\<not> rs_source_changed store"
      "missing = poll_gaps store (rq_range request)" "missing \<noteq> []" "length missing \<le> max_missing_ranges (rs_limits store)"
      "range_end (rq_range request) \<le> max_input_bytes (rs_limits store)"
      "within_observed (st_observed_len (rs_state store)) (range_end (rq_range request))"
  note g = poll_gaps_ok [OF s rq]
  have "\<forall>x \<in> set missing. range_end x \<le> max_input_bytes (rs_limits store) \<and>
         within_observed (st_observed_len (rs_state store)) (range_end x)"
    using g(3) *(3,6,7) by (fastforce simp: within_observed_def split: option.splits)
  then show ?thesis using open_ticket_ok [OF s _ *(4,5) _ _ *(2)] g *(1,3) by auto
qed (use s in \<open>auto intro: poison_store_ok join_ticket_ok lend_ok\<close>)

lemma drop_slice_ok:
  assumes s: "store_ok store"
  shows "store_ok (drop_slice b store)"
proof (cases "b \<in> set (rs_lent store)")
  case False
  then show ?thesis using s by (simp add: drop_slice_def)
next
  case True
  let ?kept = "remove1 b (rs_lent store) @ map seg_backing (st_segments (rs_state store))" and ?s = "drop_slice b store"
  note res = store_okD(4) [OF s] and cur = resident_okD [OF store_okD(4) [OF s] store_okD(1) [OF s]]
  have s': "?s = store\<lparr>rs_lent := remove1 b (rs_lent store), rs_resident := release_dropped ?kept [b] (rs_resident store)\<rparr>"
    using True by (simp add: drop_slice_def Let_def)
  have b: "b \<in> live store" "b \<notin> qr_backing ` set (rs_queued store)" using True res by (auto simp: live_def resident_ok_def)
  have rel: "release_bytes (rs_resident store) (bk_reserved b) = (rs_resident store)\<lparr>rt_current := rt_current (rs_resident store) - bk_reserved b\<rparr>"
    by (rule release_exact [OF cur(3) [OF b(1)] cur(2)])
  have "resident_ok ?s"
  proof (cases "b \<in> set ?kept")
    case kept: True
    have sub: "set (remove1 b (rs_lent store)) \<subseteq> set (rs_lent store)" by (rule set_remove1_subset)
    have "set (rs_lent store) \<subseteq> insert b (set (remove1 b (rs_lent store)))"
      by (metis in_set_remove1 insertCI subsetI)
    then have live: "live ?s = live store" using kept sub by (auto simp: s' live_def)
    then show ?thesis using res kept sub unfolding resident_ok_def live by (auto simp: s')
  next
    case gone: False
    then have live: "live ?s = live store - {b}"
      using b(2) by (auto simp: s' live_def in_set_remove1 dest: notin_set_remove1)
    have "sum bk_reserved (live store) = bk_reserved b + sum bk_reserved (live store - {b})"
      by (rule sum.remove) (use b(1) in auto)
    then show ?thesis
      using res gone rel unfolding resident_ok_def live by (auto simp: s' dest: notin_set_remove1)
  qed
  then show ?thesis using s by (auto simp: store_ok_def s')
qed

section \<open>The machine\<close>

text \<open>The calls of hosts, jobs and holders of slices. A response is supplied in two steps, with any other
  call between them.\<close>

datatype store_command =
  CObserve store_host source_snapshot
| CBegin store_host range_response
| CCommit store_host queued_response
| CFail store_host data_ticket source_error
| CSignal
| CUnsubscribe store_host data_ticket nat
| CTake store_host data_ticket
| CStatus store_host data_ticket
| CRelease store_host data_ticket
| CPoll store_host read_request
| CCloneSlice backing_bytes
| CDropSlice backing_bytes

datatype store_reply =
  RSupply "source_error + supply_outcome"
| RQueued "source_error + queued_response"
| RUnit "source_error + unit"
| RTake data_ticket "source_error + resume_subscription list"
| RStatus "source_error + ticket_view"
| RPoll read_poll
| RNone

fun store_step :: "range_store \<Rightarrow> store_command \<Rightarrow> range_store \<times> store_reply" where
  "store_step store (CObserve h snap) = map_prod id RSupply (observe_snapshot h snap store)"
| "store_step store (CBegin h r) = map_prod id RQueued (supply_begin h r store)"
| "store_step store (CCommit h q) =
     (if q \<in> set (rs_queued store) then map_prod id RSupply (supply_commit h q store) else (store, RNone))"
| "store_step store (CFail h t e) = map_prod id RUnit (fail_ticket h t e store)"
| "store_step store CSignal = map_prod id RUnit (signal_source_changed store)"
| "store_step store (CUnsubscribe h t job) = map_prod id RUnit (unsubscribe h t job store)"
| "store_step store (CTake h t) = map_prod id (RTake t) (take_subscriptions h t store)"
| "store_step store (CStatus h t) = map_prod id RStatus (ticket_status h t store)"
| "store_step store (CRelease h t) = map_prod id RUnit (release_ticket h t store)"
| "store_step store (CPoll h rq) = map_prod id RPoll (poll h rq store)"
| "store_step store (CCloneSlice b) = (clone_slice b store, RNone)"
| "store_step store (CDropSlice b) = (drop_slice b store, RNone)"

text \<open>Ranges and responses are built by their checked constructors.\<close>

fun command_ok :: "store_command \<Rightarrow> bool" where
  "command_ok (CBegin h r) = response_ok r"
| "command_ok (CPoll h rq) = range_ok (rq_range rq)"
| "command_ok _ = True"

abbreviation run_store :: "range_store \<Rightarrow> store_command list \<Rightarrow> range_store" where
  "run_store store cmds \<equiv> fst (run_machine store_step store cmds)"

lemma store_step_ok: "store_ok store \<Longrightarrow> command_ok c \<Longrightarrow> store_ok (fst (store_step store c))"
  by (cases c) (auto simp: signal_source_changed_def clone_slice_def ticket_status_eq
      intro: observe_store_ok supply_begin_ok supply_commit_ok fail_ticket_ok poison_store_ok unsubscribe_ok
        take_subscriptions_ok synced_ok release_ticket_ok poll_ok lend_ok drop_slice_ok)

lemma run_store_ok: "store_ok store \<Longrightarrow> \<forall>c \<in> set cmds. command_ok c \<Longrightarrow> store_ok (run_store store cmds)"
  by (induction cmds arbitrary: store) (auto intro: store_step_ok)

lemma range_store_new_ok:
  assumes "range_store_limits_validate config = Inr limits" "range_store_new h ns snap limits = (ns', Inr store)"
  shows "store_ok store" "rs_limits store = limits" "rs_snapshot store = snap" "rs_namespace store = ns"
    "st_segments (rs_state store) = []" "\<not> rs_source_changed store"
proof -
  have lim: "limits_ok limits" using assms(1) by (auto simp: limits_ok_def range_store_limits_validate_def split: if_splits)
  have len: "\<forall>n. snapshot_len snap = Some n \<longrightarrow> n \<le> max_input_bytes limits"
    using assms(2) by (auto simp: range_store_new_def split: if_splits)
  have "store = \<lparr>rs_namespace = ns, rs_snapshot = snap, rs_limits = limits,
             rs_resident = tracker_new (max_resident_bytes limits), rs_source_changed = False,
             rs_state = \<lparr>st_segments = [], st_cached_bytes = 0, st_tickets = [], st_next_ticket = 1,
               st_observed_len = snapshot_len snap, st_subscription_count = 0\<rparr>,
             rs_next_backing = 0, rs_queued = [], rs_lent = []\<rparr>"
    using assms(2) by (auto simp: range_store_new_def split: option.splits sum.splits if_splits)
  then show "store_ok store" "rs_limits store = limits" "rs_snapshot store = snap" "rs_namespace store = ns"
    "st_segments (rs_state store) = []" "\<not> rs_source_changed store"
    using lim len by (auto simp: store_ok_def cache_ok_def tickets_ok_def resident_ok_def live_def tracker_new_def
        subscriptions_def u64_max_def)
qed

end
