(* ===== verification/Bytes_Evolve.thy ===== *)
theory Bytes_Evolve
  imports Bytes_Machine
begin

text \<open>
  What no sequence of calls undoes: cached bytes, the observed length and the source-change flag stay, the
  first terminal phase of a ticket stays, ticket numbers are not used again, and a ticket is ready only when
  what it missed is cached or lies past the end of the source.
\<close>

section \<open>Looking tickets up\<close>

definition lookup_ticket :: "ticket_record list \<Rightarrow> data_ticket \<Rightarrow> ticket_record option" where
  "lookup_ticket rs t = find (\<lambda>r. tr_ticket r = t) rs"

abbreviation ticket_of :: "range_store \<Rightarrow> data_ticket \<Rightarrow> ticket_record option" where
  "ticket_of store t \<equiv> lookup_ticket (st_tickets (rs_state store)) t"

lemma lookup_simps [simp]:
  "lookup_ticket [] t = None" "lookup_ticket (r # rs) t = (if tr_ticket r = t then Some r else lookup_ticket rs t)"
  by (simp_all add: lookup_ticket_def)

lemma lookup_map: "\<forall>r. tr_ticket (f r) = tr_ticket r \<Longrightarrow> lookup_ticket (map f rs) t = map_option f (lookup_ticket rs t)"
  by (induction rs) auto

lemma lookup_append: "lookup_ticket (xs @ ys) t = (case lookup_ticket xs t of None \<Rightarrow> lookup_ticket ys t | Some r \<Rightarrow> Some r)"
  by (induction xs) auto

lemma lookup_Some: "lookup_ticket rs t = Some r \<Longrightarrow> r \<in> set rs \<and> tr_ticket r = t"
  by (induction rs) (auto split: if_splits)

lemma lookup_None: "lookup_ticket rs t = None \<longleftrightarrow> t \<notin> tr_ticket ` set rs"
  by (induction rs) auto

lemma lookup_nth: "distinct (map tr_ticket rs) \<Longrightarrow> i < length rs \<Longrightarrow> lookup_ticket rs (tr_ticket (rs ! i)) = Some (rs ! i)"
proof (induction rs arbitrary: i)
  case (Cons a rs)
  then show ?case by (cases i) (auto simp: image_iff dest: nth_mem)
qed simp

lemma lookup_set_at:
  "distinct (map tr_ticket rs) \<Longrightarrow> i < length rs \<Longrightarrow> tr_ticket r = tr_ticket (rs ! i) \<Longrightarrow>
   lookup_ticket (rs[i := r]) t = (if t = tr_ticket (rs ! i) then Some r else lookup_ticket rs t)"
proof (induction rs arbitrary: i)
  case (Cons a rs)
  then show ?case by (cases i) (auto simp: image_iff dest: nth_mem)
qed simp

lemma lookup_remove_at:
  "distinct (map tr_ticket rs) \<Longrightarrow> i < length rs \<Longrightarrow>
   lookup_ticket (remove_at i rs) t = (if t = tr_ticket (rs ! i) then None else lookup_ticket rs t)"
proof (induction rs arbitrary: i)
  case (Cons a rs)
  show ?case
  proof (cases i)
    case 0
    then show ?thesis using Cons.prems(1) by (auto simp: lookup_None)
  next
    case (Suc j)
    then have "tr_ticket a \<noteq> tr_ticket (rs ! j)" using Cons.prems by auto
    then show ?thesis using Cons Suc by auto
  qed
qed simp

lemma find_ticket_lookup:
  assumes "distinct (map tr_ticket (st_tickets st))"
  shows "find_ticket st t = Inr i \<Longrightarrow> lookup_ticket (st_tickets st) t = Some (st_tickets st ! i)"
    "find_ticket st t = Inl e \<Longrightarrow> lookup_ticket (st_tickets st) t = None \<and> e = source_error_for_code SUnknownTicket"
proof -
  show "lookup_ticket (st_tickets st) t = Some (st_tickets st ! i)" if "find_ticket st t = Inr i"
    using find_ticket_Inr [OF that] lookup_nth [OF assms] by auto
  show "lookup_ticket (st_tickets st) t = None \<and> e = source_error_for_code SUnknownTicket" if "find_ticket st t = Inl e"
    using that by (cases "position (\<lambda>r. tr_ticket r = t) (st_tickets st)") (auto simp: find_ticket_def lookup_None position_None_iff)
qed

section \<open>The preorder\<close>

definition ticket_moves :: "segment list \<Rightarrow> nat option \<Rightarrow> ticket_record \<Rightarrow> ticket_record \<Rightarrow> bool" where
  "ticket_moves segs observed r r' \<longleftrightarrow>
     (tr_phase r \<noteq> Pending \<longrightarrow> tr_phase r' = tr_phase r \<and> tr_missing r' = tr_missing r \<and>
        (tr_subscribers r' = tr_subscribers r \<or> tr_subscribers r' = [])) \<and>
     (tr_phase r' = Pending \<longrightarrow> all_range_bytes (tr_missing r') = all_range_bytes (tr_missing r) - cached segs) \<and>
     (tr_phase r = Pending \<and> tr_phase r' = Ready \<longrightarrow> all_range_bytes (tr_missing r) \<subseteq> cached segs \<or>
        (\<exists>n a. observed = Some n \<and> a \<in> all_range_bytes (tr_missing r) \<and> n \<le> a))"

definition tickets_evolve :: "store_state \<Rightarrow> store_state \<Rightarrow> bool" where
  "tickets_evolve st st' \<longleftrightarrow> st_next_ticket st \<le> st_next_ticket st' \<and>
     (\<forall>t. case lookup_ticket (st_tickets st) t of
        None \<Rightarrow> ticket_value t < st_next_ticket st \<longrightarrow> lookup_ticket (st_tickets st') t = None
      | Some r \<Rightarrow> (\<forall>r'. lookup_ticket (st_tickets st') t = Some r' \<longrightarrow>
          ticket_moves (st_segments st') (st_observed_len st') r r'))"

definition cache_evolves :: "store_state \<Rightarrow> store_state \<Rightarrow> bool" where
  "cache_evolves st st' \<longleftrightarrow>
     (\<forall>a x. byte_at (st_segments st) a = Some x \<longrightarrow> byte_at (st_segments st') a = Some x) \<and>
     (\<forall>n. st_observed_len st = Some n \<longrightarrow> st_observed_len st' = Some n)"

definition evolves :: "range_store \<Rightarrow> range_store \<Rightarrow> bool" where
  "evolves s s' \<longleftrightarrow> rs_limits s' = rs_limits s \<and> rs_snapshot s' = rs_snapshot s \<and> rs_namespace s' = rs_namespace s \<and>
     (rs_source_changed s \<longrightarrow> rs_source_changed s') \<and>
     cache_evolves (rs_state s) (rs_state s') \<and> tickets_evolve (rs_state s) (rs_state s')"

lemma cache_evolves_refl [simp]: "cache_evolves st st"
  by (simp add: cache_evolves_def)

lemma cache_evolves_cached: "cache_evolves st st' \<Longrightarrow> cached (st_segments st) \<subseteq> cached (st_segments st')"
proof
  fix a assume "cache_evolves st st'" "a \<in> cached (st_segments st)"
  moreover obtain x where "byte_at (st_segments st) a = Some x"
    using \<open>a \<in> cached (st_segments st)\<close> byte_at_None [of "st_segments st" a] by auto
  ultimately have "byte_at (st_segments st') a \<noteq> None" by (simp add: cache_evolves_def)
  then show "a \<in> cached (st_segments st')" by (simp add: byte_at_None)
qed

lemma ticket_moves_trans:
  assumes "ticket_moves segs obs r r'" "ticket_moves segs' obs' r' r''"
    and "cached segs \<subseteq> cached segs'" "\<forall>n. obs = Some n \<longrightarrow> obs' = Some n"
  shows "ticket_moves segs' obs' r r''"
proof (cases "tr_phase r = Pending")
  case False
  then show ?thesis using assms(1,2) by (auto simp: ticket_moves_def)
next
  case True
  show ?thesis
  proof (cases "tr_phase r' = Pending")
    case False
    then show ?thesis using assms True by (auto simp: ticket_moves_def)
  next
    case r': True
    then have "all_range_bytes (tr_missing r') = all_range_bytes (tr_missing r) - cached segs"
      using assms(1) by (simp add: ticket_moves_def)
    then show ?thesis using assms(2,3) True r' unfolding ticket_moves_def by auto
  qed
qed

lemma tickets_evolve_trans:
  assumes "tickets_evolve st st'" "tickets_evolve st' st''" "cache_evolves st' st''"
    and old: "\<forall>r \<in> set (st_tickets st). ticket_value (tr_ticket r) < st_next_ticket st"
  shows "tickets_evolve st st''"
proof -
  note c = cache_evolves_cached [OF assms(3)]
  have "case lookup_ticket (st_tickets st) t of
        None \<Rightarrow> ticket_value t < st_next_ticket st \<longrightarrow> lookup_ticket (st_tickets st'') t = None
      | Some r \<Rightarrow> (\<forall>r'. lookup_ticket (st_tickets st'') t = Some r' \<longrightarrow>
          ticket_moves (st_segments st'') (st_observed_len st'') r r')" for t
  proof (cases "lookup_ticket (st_tickets st) t")
    case None
    then have "ticket_value t < st_next_ticket st \<Longrightarrow> lookup_ticket (st_tickets st') t = None \<and> ticket_value t < st_next_ticket st'"
      using assms(1) by (auto simp: tickets_evolve_def split: option.splits)
    then show ?thesis using None assms(2) by (auto simp: tickets_evolve_def split: option.splits)
  next
    case (Some r)
    show ?thesis
    proof (cases "lookup_ticket (st_tickets st') t")
      case (Some r')
      have "ticket_moves (st_segments st') (st_observed_len st') r r'"
        using assms(1) Some \<open>lookup_ticket (st_tickets st) t = Some r\<close> by (force simp: tickets_evolve_def split: option.splits)
      moreover have "ticket_moves (st_segments st'') (st_observed_len st'') r' r''" if "lookup_ticket (st_tickets st'') t = Some r''" for r''
        using assms(2) Some that by (force simp: tickets_evolve_def split: option.splits)
      ultimately show ?thesis
        using \<open>lookup_ticket (st_tickets st) t = Some r\<close> ticket_moves_trans [OF _ _ c] assms(3)
        by (auto simp: cache_evolves_def)
    next
      case None
      moreover have "ticket_value t < st_next_ticket st'"
        using lookup_Some [OF Some] old assms(1) by (auto simp: tickets_evolve_def)
      ultimately have "lookup_ticket (st_tickets st'') t = None"
        using assms(2) by (force simp: tickets_evolve_def split: option.splits)
      then show ?thesis using Some by simp
    qed
  qed
  then show ?thesis using assms(1,2) by (auto simp: tickets_evolve_def)
qed

lemma store_ok_old: "store_ok s \<Longrightarrow> \<forall>r \<in> set (st_tickets (rs_state s)). ticket_value (tr_ticket r) < st_next_ticket (rs_state s)"
  by (auto simp: store_ok_def tickets_ok_def ticket_ok_def)

lemma evolves_trans:
  assumes "store_ok s" "evolves s s'" "evolves s' s''"
  shows "evolves s s''"
  using assms tickets_evolve_trans [OF _ _ _ store_ok_old [OF assms(1)]]
  unfolding evolves_def cache_evolves_def by metis

text \<open>A step that rewrites every ticket, one ticket, drops one or adds one.\<close>

definition same_store :: "range_store \<Rightarrow> range_store \<Rightarrow> bool" where
  "same_store s s' \<longleftrightarrow> rs_limits s' = rs_limits s \<and> rs_snapshot s' = rs_snapshot s \<and> rs_namespace s' = rs_namespace s \<and>
     (rs_source_changed s \<longrightarrow> rs_source_changed s')"

lemma evolves_map:
  assumes "same_store s s'" "cache_evolves (rs_state s) (rs_state s')"
    and "st_tickets (rs_state s') = map f (st_tickets (rs_state s))" "st_next_ticket (rs_state s') = st_next_ticket (rs_state s)"
    and "\<forall>r. tr_ticket (f r) = tr_ticket r"
    and "\<forall>r \<in> set (st_tickets (rs_state s)). ticket_moves (st_segments (rs_state s')) (st_observed_len (rs_state s')) r (f r)"
  shows "evolves s s'"
proof -
  have "tickets_evolve (rs_state s) (rs_state s')"
    unfolding tickets_evolve_def assms(3,4) lookup_map [OF assms(5)]
    using assms(6) by (auto split: option.split dest: lookup_Some)
  then show ?thesis using assms(1,2) by (simp add: evolves_def same_store_def)
qed

lemma moves_same: "pending_ok ch segs obs r \<Longrightarrow> ticket_moves segs obs r r"
  by (auto simp: ticket_moves_def pending_ok_def)

lemma evolves_same:
  assumes "store_ok s" "same_store s s'" "rs_state s' = rs_state s"
  shows "evolves s s'"
  by (rule evolves_map [where f = id]) (use assms store_okD(3) [OF assms(1)] in \<open>auto simp: tickets_ok_def intro: moves_same\<close>)

lemma evolves_refl: "store_ok s \<Longrightarrow> evolves s s"
  by (rule evolves_same) (auto simp: same_store_def)

lemma evolves_set:
  assumes s: "store_ok s" and "same_store s s'" "st_segments (rs_state s') = st_segments (rs_state s)"
    and "st_observed_len (rs_state s') = st_observed_len (rs_state s)" "st_next_ticket (rs_state s') = st_next_ticket (rs_state s)"
    and "st_tickets (rs_state s') = (st_tickets (rs_state s))[i := r']" "i < length (st_tickets (rs_state s))"
    and "tr_ticket r' = tr_ticket (st_tickets (rs_state s) ! i)"
    and "ticket_moves (st_segments (rs_state s)) (st_observed_len (rs_state s)) (st_tickets (rs_state s) ! i) r'"
  shows "evolves s s'"
proof -
  have d: "distinct (map tr_ticket (st_tickets (rs_state s)))" using store_okD(3) [OF s] by (simp add: tickets_ok_def)
  have same: "ticket_moves (st_segments (rs_state s)) (st_observed_len (rs_state s)) r r" if "r \<in> set (st_tickets (rs_state s))" for r
    using store_okD(3) [OF s] that by (auto simp: tickets_ok_def intro: moves_same)
  have "tickets_evolve (rs_state s) (rs_state s')"
    unfolding tickets_evolve_def assms(3-6) lookup_set_at [OF d assms(7,8)]
    using assms(9) lookup_nth [OF d assms(7)] same by (auto split: option.split dest: lookup_Some)
  then show ?thesis using assms(2-4) by (simp add: evolves_def same_store_def cache_evolves_def)
qed

lemma poison_evolves: "store_ok s \<Longrightarrow> evolves s (poison_source s)"
  by (rule evolves_map [where f = phase_changed])
    (auto simp: same_store_def cache_evolves_def ticket_moves_def phase_changed_def)

lemma synced_evolves: "store_ok s \<Longrightarrow> evolves s (synced h s)"
  by (rule synced_cases [of h s]) (auto intro: poison_evolves evolves_refl)

lemma evolves_after_sync: "store_ok s \<Longrightarrow> evolves (synced h s) s' \<Longrightarrow> evolves s s'"
  by (rule evolves_trans [OF _ synced_evolves])

section \<open>Every call evolves the store\<close>

lemma crossing_address: "canonical rs \<Longrightarrow> missing_crosses_eof rs n \<Longrightarrow> \<exists>a \<in> all_range_bytes rs. n \<le> a"
proof -
  assume rs: "canonical rs" "missing_crosses_eof rs n"
  then have l: "last rs \<in> set rs" "n < range_end (last rs)" "range_ok (last rs)" by (auto simp: missing_crosses_eof_def canonical_def)
  then have "range_end (last rs) - 1 \<in> all_range_bytes rs" "n \<le> range_end (last rs) - 1"
    using range_ok_less [OF l(3)] by (auto simp: all_range_bytes_def range_bytes_def intro!: bexI [OF _ l(1)])
  then show ?thesis by blast
qed

lemma commit_observed_evolves:
  assumes ok: "store_ok s" and b: "bind_observed_len (rs_limits s) (rs_state s) snap = b" "binds b"
  shows "evolves s (s\<lparr>rs_state := fst (commit_observed b (rs_state s))\<rparr>)"
proof -
  consider "b = BindKeep" | n where "b = BindTo n" using b(2) by (auto simp: binds_def)
  then show ?thesis
  proof cases
    case 1
    then show ?thesis using evolves_refl [OF ok] by (simp add: commit_observed_simps)
  next
    case 2
    note bt = bind_toD [OF b(1) [unfolded 2] store_okD(6) [OF ok]]
    have "ticket_moves (st_segments (rs_state s)) (Some n) r (complete_at n r)" if "r \<in> set (st_tickets (rs_state s))" for r
    proof -
      have r: "canonical (tr_missing r)" "pending_ok (rs_source_changed s) (st_segments (rs_state s)) (st_observed_len (rs_state s)) r"
        using store_okD(3) [OF ok] that by (auto simp: tickets_ok_def ticket_ok_def)
      show ?thesis
      proof (cases "eof_ready n r")
        case True
        then show ?thesis using crossing_address [OF r(1)] by (auto simp: ticket_moves_def complete_at_def eof_ready_def)
      next
        case False
        then show ?thesis using r(2) by (auto simp: ticket_moves_def complete_at_def pending_ok_def)
      qed
    qed
    then show ?thesis
      using bt(1) by (intro evolves_map [where f = "complete_at n"]) (auto simp: 2 commit_observed_simps same_store_def cache_evolves_def)
  qed
qed

lemma observe_evolves: "store_ok s \<Longrightarrow> evolves s (fst (observe_snapshot h snap s))"
  by (rule observe_cases [of h snap s]) (auto intro: poison_evolves evolves_refl commit_observed_evolves)

lemma supply_begin_evolves: "store_ok s \<Longrightarrow> evolves s (fst (supply_begin h r s))"
  by (rule supply_begin_cases [of h r s]) (auto intro: poison_evolves evolves_refl evolves_same simp: same_store_def)

lemma drop_response_evolves: "store_ok s' \<Longrightarrow> evolves s s' \<Longrightarrow> evolves s (drop_response q s')"
  by (auto simp: evolves_def)

lemma no_conflict_agree:
  assumes "store_ok s" "q \<in> set (rs_queued s)"
    "conflicts_loop (qr_range q) (bk_bytes (qr_backing q)) (st_segments (rs_state s)) = Inr False"
    "a \<in> range_bytes (qr_range q)" "byte_at (st_segments (rs_state s)) a = Some x"
  shows "x = bk_bytes (qr_backing q) ! (a - range_start (qr_range q))"
proof -
  have q: "range_ok (qr_range q)" "length (bk_bytes (qr_backing q)) = range_len (qr_range q)"
    using store_okD(5) [OF assms(1,2)] by (auto simp: queued_ok_def)
  show ?thesis using conflicts_loop_iff [OF q store_okD(6) [OF assms(1)]] assms(3-5) by auto
qed

lemma commit_supply_evolves:
  assumes ok: "store_ok s" and q: "q \<in> set (rs_queued s)" and st: "staged_ok s q b staged A M B new"
    and b: "bind_observed_len (rs_limits s) (rs_state s) (qr_snapshot q) = b" "binds b"
    and clean: "conflicts_loop (qr_range q) (bk_bytes (qr_backing q)) (st_segments (rs_state s)) = Inr False"
  shows "evolves s (fst (commit_supply staged b q s))"
proof -
  let ?s' = "fst (commit_supply staged b q s)" and ?segs = "A @ new # B"
  note c = commit_cache_ok [OF ok q st b] and sk = st [unfolded staged_ok_def]
  have f: "st_segments (rs_state ?s') = ?segs" "st_observed_len (rs_state ?s') = bound_len b (st_observed_len (rs_state s))"
    "st_next_ticket (rs_state ?s') = st_next_ticket (rs_state s)" "same_store s ?s'"
    "st_tickets (rs_state ?s') = map (update_ticket ?segs b) (st_tickets (rs_state s))"
    using sk by (simp_all add: commit_supply_def Let_def split_def bound_len_def same_store_def)
  have "cache_evolves (rs_state s) (rs_state ?s')"
    using no_conflict_agree [OF ok q clean] b
    unfolding cache_evolves_def f c(4) merged_byte_def
    by (auto simp: bound_len_def binds_def dest: bind_toD(1) [OF _ store_okD(6) [OF ok]])
  moreover have "ticket_moves ?segs (bound_len b (st_observed_len (rs_state s))) r (update_ticket ?segs b r)"
    if "r \<in> set (st_tickets (rs_state s))" for r
  proof -
    have can: "canonical (tr_missing r)" using store_okD(3) [OF ok] that by (auto simp: tickets_ok_def ticket_ok_def)
    note gb = all_gaps_bytes [OF c(1), of "tr_missing r"]
    show ?thesis
    proof (cases "tr_phase r = Pending \<and> remaining_of ?segs b r = None")
      case True
      then consider "all_gaps ?segs (tr_missing r) = []"
        | n where "b = BindTo n" "missing_crosses_eof (all_gaps ?segs (tr_missing r)) n"
        by (auto simp: remaining_of_def Let_def split: if_splits)
      then show ?thesis
      proof cases
        case 1
        then show ?thesis using gb True by (auto simp: ticket_moves_def update_ticket_def)
      next
        case 2
        then obtain a where "a \<in> all_range_bytes (all_gaps ?segs (tr_missing r))" "n \<le> a"
          using crossing_address [OF all_gaps_canonical [OF c(1) can]] by blast
        then show ?thesis using gb True 2 by (auto simp: ticket_moves_def update_ticket_def bound_len_def)
      qed
    next
      case False
      then show ?thesis
        using gb by (auto simp: ticket_moves_def update_ticket_def remaining_of_def Let_def split: if_splits option.splits)
    qed
  qed
  ultimately show ?thesis
    by (intro evolves_map [where f = "update_ticket ?segs b"]) (use f in auto)
qed

lemma supply_commit_evolves:
  assumes ok: "store_ok s" and q: "q \<in> set (rs_queued s)"
  shows "evolves s (fst (supply_commit h q s))"
proof (rule supply_commit_cases [of h q s])
  fix b staged
  assume *: "binds b" "bind_observed_len (rs_limits s) (rs_state s) (qr_snapshot q) = b"
    "conflicts_loop (qr_range q) (bk_bytes (qr_backing q)) (st_segments (rs_state s)) = Inr False"
    "stage_supply (sh_alloc h) s q b = Inr staged"
    "supply_commit h q s = (fst (commit_supply staged b q s), Inr (snd (commit_supply staged b q s)))"
  obtain A M B new where "staged_ok s q b staged A M B new" by (rule stage_supply_ok [OF assms *(4)])
  then show ?thesis using commit_supply_evolves [OF assms _ *(2,1,3)] *(5) by simp
qed (use ok commit_observed_ok [OF ok] commit_observed_evolves [OF ok] poison_evolves [OF ok] evolves_refl [OF ok] in
  \<open>auto intro!: drop_response_evolves intro: poison_store_ok\<close>)

lemma nth_pending_ok: "store_ok s \<Longrightarrow> i < length (st_tickets (rs_state s)) \<Longrightarrow>
   pending_ok (rs_source_changed s) (st_segments (rs_state s)) (st_observed_len (rs_state s)) (st_tickets (rs_state s) ! i)"
  by (rule tickets_ok_nth(2) [OF store_okD(3)])

lemma fail_ticket_evolves:
  assumes ok: "store_ok store"
  shows "evolves store (fst (fail_ticket h t e store))"
proof (rule evolves_after_sync [OF ok, of h])
  define s where "s = synced h store"
  have s: "store_ok s" unfolding s_def by (rule synced_ok [OF ok])
  have "evolves s (map_state (set_ticket i ((st_tickets (rs_state s) ! i)\<lparr>tr_phase := TFailed e\<rparr>)) s)"
    if "i < length (st_tickets (rs_state s))" "tr_phase (st_tickets (rs_state s) ! i) = Pending" for i
    by (rule evolves_set [OF s, where i = i and r' = "(st_tickets (rs_state s) ! i)\<lparr>tr_phase := TFailed e\<rparr>"])
      (use that in \<open>auto simp: same_store_def ticket_moves_def\<close>)
  then show "evolves (synced h store) (fst (fail_ticket h t e store))"
    using evolves_refl [OF s] poison_evolves [OF s] find_ticket_Inr [of "rs_state s" t]
    by (auto simp: fail_ticket_eq s_def [symmetric] Let_def split: sum.split)
qed

lemma uncount_state:
  "\<exists>n. fst (uncount_subscriptions removed x s) = s\<lparr>rs_state := (rs_state s)\<lparr>st_subscription_count := n\<rparr>\<rparr>"
proof (cases "checked_sub (st_subscription_count (rs_state s)) removed")
  case None
  have "s = s\<lparr>rs_state := (rs_state s)\<lparr>st_subscription_count := st_subscription_count (rs_state s)\<rparr>\<rparr>" by simp
  then show ?thesis using None unfolding uncount_subscriptions_def by (metis option.case(1) fst_conv)
qed (auto simp: uncount_subscriptions_def)

lemma evolves_uncount:
  assumes s: "store_ok s" and i: "i < length (st_tickets (rs_state s))" and r: "tr_ticket r = tr_ticket (st_tickets (rs_state s) ! i)"
    "ticket_moves (st_segments (rs_state s)) (st_observed_len (rs_state s)) (st_tickets (rs_state s) ! i) r"
  shows "evolves s (fst (uncount_subscriptions removed x (map_state (set_ticket i r) s)))"
proof -
  obtain n where "fst (uncount_subscriptions removed x (map_state (set_ticket i r) s)) =
      s\<lparr>rs_state := (rs_state s)\<lparr>st_tickets := (st_tickets (rs_state s))[i := r], st_subscription_count := n\<rparr>\<rparr>"
    using uncount_state [of removed x "map_state (set_ticket i r) s"] by auto
  then show ?thesis by (intro evolves_set [OF s _ _ _ _ _ i r]) (auto simp: same_store_def)
qed

lemma unsubscribe_evolves:
  assumes ok: "store_ok store"
  shows "evolves store (fst (unsubscribe h t job store))"
proof (rule evolves_after_sync [OF ok, of h])
  define s where "s = synced h store"
  have s: "store_ok s" unfolding s_def by (rule synced_ok [OF ok])
  show "evolves (synced h store) (fst (unsubscribe h t job store))"
  proof (cases "find_ticket (rs_state s) t")
    case (Inr i)
    let ?r = "st_tickets (rs_state s) ! i"
    let ?subs = "filter (\<lambda>s. sub_job s \<noteq> job) (tr_subscribers ?r)"
    let ?r' = "?r\<lparr>tr_subscribers := ?subs, tr_phase := (if ?subs = [] then Abandoned else Pending)\<rparr>"
    have i: "i < length (st_tickets (rs_state s))" using find_ticket_Inr [OF Inr] by simp
    have "evolves s (fst (uncount_subscriptions (length (tr_subscribers ?r) - length ?subs) () (map_state (set_ticket i ?r') s)))"
      if "tr_phase ?r = Pending"
      by (rule evolves_uncount [OF s i]) (use nth_pending_ok [OF s i] that in \<open>auto simp: ticket_moves_def pending_ok_def\<close>)
    then show ?thesis using evolves_refl [OF s] Inr by (simp add: unsubscribe_eq s_def [symmetric] Let_def)
  qed (use evolves_refl [OF s] in \<open>simp add: unsubscribe_eq s_def\<close>)
qed

lemma take_subscriptions_evolves:
  assumes ok: "store_ok store"
  shows "evolves store (fst (take_subscriptions h t store))"
proof (rule evolves_after_sync [OF ok, of h])
  define s where "s = synced h store"
  have s: "store_ok s" unfolding s_def by (rule synced_ok [OF ok])
  show "evolves (synced h store) (fst (take_subscriptions h t store))"
  proof (cases "find_ticket (rs_state s) t")
    case (Inr i)
    let ?r = "st_tickets (rs_state s) ! i"
    have i: "i < length (st_tickets (rs_state s))" using find_ticket_Inr [OF Inr] by simp
    have "evolves s (fst (uncount_subscriptions (length (tr_subscribers ?r)) (tr_subscribers ?r)
        (map_state (set_ticket i (?r\<lparr>tr_subscribers := []\<rparr>)) s)))" if "tr_phase ?r \<noteq> Pending"
      by (rule evolves_uncount [OF s i]) (use that in \<open>auto simp: ticket_moves_def\<close>)
    then show ?thesis using evolves_refl [OF s] Inr by (simp add: take_subscriptions_eq s_def [symmetric] Let_def)
  qed (use evolves_refl [OF s] in \<open>simp add: take_subscriptions_eq s_def\<close>)
qed

lemma evolves_remove:
  assumes s: "store_ok s" and i: "i < length (st_tickets (rs_state s))"
  shows "evolves s (map_state (\<lambda>st. st\<lparr>st_tickets := remove_at i (st_tickets st)\<rparr>) s)"
proof -
  have d: "distinct (map tr_ticket (st_tickets (rs_state s)))" using store_okD(3) [OF s] by (simp add: tickets_ok_def)
  have "tickets_evolve (rs_state s) ((rs_state s)\<lparr>st_tickets := remove_at i (st_tickets (rs_state s))\<rparr>)"
    using store_okD(3) [OF s] lookup_nth [OF d i]
    by (auto simp: tickets_evolve_def lookup_remove_at [OF d i] tickets_ok_def split: option.split intro: moves_same dest!: lookup_Some)
  then show ?thesis by (simp add: evolves_def cache_evolves_def)
qed

lemma release_ticket_evolves:
  assumes ok: "store_ok store"
  shows "evolves store (fst (release_ticket h t store))"
proof (rule evolves_after_sync [OF ok, of h])
  define s where "s = synced h store"
  have s: "store_ok s" unfolding s_def by (rule synced_ok [OF ok])
  show "evolves (synced h store) (fst (release_ticket h t store))"
    using evolves_refl [OF s] evolves_remove [OF s] find_ticket_Inr [of "rs_state s" t]
    by (auto simp: release_ticket_eq s_def [symmetric] Let_def split: sum.split)
qed

lemma evolves_append:
  assumes s: "store_ok s" and new: "\<forall>r \<in> set new. st_next_ticket (rs_state s) \<le> ticket_value (tr_ticket r)"
    and st: "st_tickets st = st_tickets (rs_state s) @ new" "st_next_ticket st = Suc (st_next_ticket (rs_state s))"
      "st_segments st = st_segments (rs_state s)" "st_observed_len st = st_observed_len (rs_state s)"
  shows "evolves s (s\<lparr>rs_state := st\<rparr>)"
proof -
  have "ticket_moves (st_segments st) (st_observed_len st) r r" if "lookup_ticket (st_tickets (rs_state s)) t = Some r" for r t
    using store_okD(3) [OF s] lookup_Some [OF that] unfolding st by (auto simp: tickets_ok_def intro: moves_same)
  moreover have "lookup_ticket new t = None" if "ticket_value t < st_next_ticket (rs_state s)" for t
    using new that by (auto simp: lookup_None)
  ultimately have "tickets_evolve (rs_state s) st"
    by (auto simp: tickets_evolve_def st(1,2) lookup_append split: option.split)
  then show ?thesis by (simp add: evolves_def cache_evolves_def st)
qed

lemma poll_evolves:
  assumes s: "store_ok s" and rq: "range_ok (rq_range request)"
  shows "evolves s (fst (poll h request s))"
proof (rule poll_cases [OF s rq, of h])
  fix i missing
  assume *: "poll h request s = join_ticket h request missing i s" "i < length (st_tickets (rs_state s))"
    "tr_phase (st_tickets (rs_state s) ! i) = Pending"
  let ?st = "rs_state s" and ?r = "st_tickets (rs_state s) ! i"
  let ?r' = "?r\<lparr>tr_subscribers := tr_subscribers ?r @ [\<lparr>sub_job = rq_job request, sub_checkpoint = rq_checkpoint request\<rparr>]\<rparr>"
  have "evolves s (s\<lparr>rs_state := ?st\<lparr>st_tickets := (st_tickets ?st)[i := ?r'], st_subscription_count := n\<rparr>\<rparr>)" for n
    by (rule evolves_set [OF s, where i = i and r' = ?r'])
      (use *(2,3) nth_pending_ok [OF s *(2)] in \<open>auto simp: same_store_def ticket_moves_def pending_ok_def\<close>)
  then show ?thesis using evolves_refl [OF s] *(1) by (auto simp: join_ticket_def Let_def split: option.split)
next
  fix missing
  assume "poll h request s = open_ticket h request missing s"
  then show ?thesis
    using evolves_refl [OF s] evolves_append [OF s, of "[]"] evolves_append [OF s, of "[\<lparr>tr_ticket =
        \<lparr>ticket_namespace = rs_namespace s, ticket_value = st_next_ticket (rs_state s)\<rparr>, tr_missing = missing,
        tr_subscribers = [\<lparr>sub_job = rq_job request, sub_checkpoint = rq_checkpoint request\<rparr>], tr_phase = Pending\<rparr>]"]
    by (auto simp: open_ticket_def Let_def checked_add_def)
qed (use s in \<open>auto intro: poison_evolves evolves_refl evolves_same simp: same_store_def\<close>)

lemma store_step_evolves:
  assumes "store_ok s" "command_ok c"
  shows "evolves s (fst (store_step s c))"
  using assms
  by (cases c) (auto simp: signal_source_changed_def clone_slice_def drop_slice_def Let_def ticket_status_eq same_store_def
      intro: observe_evolves supply_begin_evolves supply_commit_evolves fail_ticket_evolves poison_evolves unsubscribe_evolves
        take_subscriptions_evolves synced_evolves release_ticket_evolves poll_evolves evolves_refl evolves_same)

lemma run_store_evolves: "store_ok s \<Longrightarrow> \<forall>c \<in> set cmds. command_ok c \<Longrightarrow> evolves s (run_store s cmds)"
proof (induction cmds arbitrary: s)
  case (Cons c cmds)
  then have "evolves s (fst (store_step s c))" "store_ok (fst (store_step s c))"
    by (auto intro: store_step_evolves store_step_ok)
  then show ?case using Cons evolves_trans [OF Cons.prems(1)] by simp
qed (simp add: evolves_refl)

end
