(* ===== verification/Bytes_Props.thy ===== *)
theory Bytes_Props
  imports Bytes_Evolve
begin

text \<open>
  The properties of the range store: its invariant on every reachable state, the refinement of a partial map
  from addresses to bytes, polling, waking, the effect of a source change, one delivery of subscriptions,
  progress of tickets and agreement of reads.
\<close>

section \<open>Facts for the properties\<close>

lemma supply_commit_contents:
  assumes ok: "store_ok s" and q: "q \<in> set (rs_queued s)"
  shows "case supply_commit h q s of
    (s', Inl e) \<Rightarrow> st_segments (rs_state s') = st_segments (rs_state s)
  | (s', Inr out) \<Rightarrow>
      byte_at (st_segments (rs_state s')) = merged_byte (qr_range q) (bk_bytes (qr_backing q)) (st_segments (rs_state s)) \<and>
      (\<forall>a \<in> range_bytes (qr_range q). \<forall>x. byte_at (st_segments (rs_state s)) a = Some x \<longrightarrow>
         x = bk_bytes (qr_backing q) ! (a - range_start (qr_range q))) \<and>
      so_cached_bytes out = store_cached_bytes s'"
proof (rule supply_commit_cases [of h q s])
  fix b staged
  assume *: "binds b" "bind_observed_len (rs_limits s) (rs_state s) (qr_snapshot q) = b"
    "conflicts_loop (qr_range q) (bk_bytes (qr_backing q)) (st_segments (rs_state s)) = Inr False"
    "stage_supply (sh_alloc h) s q b = Inr staged"
    "supply_commit h q s = (fst (commit_supply staged b q s), Inr (snd (commit_supply staged b q s)))"
  obtain A M B new where st: "staged_ok s q b staged A M B new" by (rule stage_supply_ok [OF assms *(4)])
  have "st_segments (rs_state (fst (commit_supply staged b q s))) = A @ new # B"
    "so_cached_bytes (snd (commit_supply staged b q s)) = store_cached_bytes (fst (commit_supply staged b q s))"
    using st by (simp_all add: commit_supply_def Let_def split_def staged_ok_def store_cached_bytes_def)
  then show ?thesis
    using commit_cache_ok(4) [OF assms st *(2,1)] no_conflict_agree [OF assms *(3)] *(5) by auto
next
  fix b
  assume *: "binds b" "range_is_covered (st_segments (rs_state s)) (qr_range q)"
    "conflicts_loop (qr_range q) (bk_bytes (qr_backing q)) (st_segments (rs_state s)) = Inr False"
    "supply_commit h q s = (drop_response q (s\<lparr>rs_state := fst (commit_observed b (rs_state s))\<rparr>),
         Inr (snd (commit_observed b (rs_state s))))"
  have "range_ok (qr_range q)" using store_okD(5) [OF assms] by (simp add: queued_ok_def)
  then have cov: "range_bytes (qr_range q) \<subseteq> cached (st_segments (rs_state s))"
    using *(2) range_is_covered_iff [OF store_okD(6) [OF ok]] by simp
  note agree = no_conflict_agree [OF assms *(3)]
  have "merged_byte (qr_range q) (bk_bytes (qr_backing q)) (st_segments (rs_state s)) a = byte_at (st_segments (rs_state s)) a" for a
  proof (cases "a \<in> range_bytes (qr_range q)")
    case True
    then obtain x where "byte_at (st_segments (rs_state s)) a = Some x"
      using cov byte_at_None [of "st_segments (rs_state s)" a] by auto
    then show ?thesis using agree [OF True] by (simp add: merged_byte_def)
  qed (simp add: merged_byte_def)
  then show ?thesis
    using agree *(1,4) by (auto simp: binds_def commit_observed_simps store_cached_bytes_def)
qed auto

lemma store_cached_card: "store_ok s \<Longrightarrow> store_cached_bytes s = card (cached (st_segments (rs_state s)))"
  using total_len_card [OF store_okD(6)] by (auto simp: store_ok_def cache_ok_def store_cached_bytes_def)

text \<open>The tickets a supply wakes.\<close>

definition woken :: "segment list \<Rightarrow> nat option \<Rightarrow> nat option \<Rightarrow> ticket_record \<Rightarrow> bool" where
  "woken segs before after r \<longleftrightarrow> tr_phase r = Pending \<and>
     (all_range_bytes (tr_missing r) \<subseteq> cached segs \<or>
      (\<exists>n a. before = None \<and> after = Some n \<and> a \<in> all_range_bytes (tr_missing r) - cached segs \<and> n \<le> a))"

lemma crossing_iff: "canonical rs \<Longrightarrow> missing_crosses_eof rs n \<longleftrightarrow> (\<exists>a \<in> all_range_bytes rs. n \<le> a)"
proof
  assume c: "canonical rs" and "\<exists>a \<in> all_range_bytes rs. n \<le> a"
  then obtain a r where "r \<in> set rs" "n \<le> a" "a \<in> range_bytes r" by (auto simp: all_range_bytes_def)
  then show "missing_crosses_eof rs n" using not_crossing [OF c, of n] by (force simp: range_bytes_def)
qed (rule crossing_address)

lemma canonical_empty: "canonical rs \<Longrightarrow> all_range_bytes rs = {} \<longleftrightarrow> rs = []"
proof (cases rs)
  case (Cons r rs')
  moreover assume "canonical rs"
  ultimately have "range_start r \<in> range_bytes r" using range_ok_less [of r] by (auto simp: canonical_def range_bytes_def)
  then show ?thesis using Cons by auto
qed simp

lemma wakes_iff_woken:
  assumes ok: "store_ok s" and r: "r \<in> set (st_tickets (rs_state s))" and segs: "segs_ok segs"
    and b: "bind_observed_len (rs_limits s) (rs_state s) snap = b" "binds b"
  shows "wakes segs b r \<longleftrightarrow> woken segs (st_observed_len (rs_state s)) (bound_len b (st_observed_len (rs_state s))) r"
proof -
  have can: "canonical (tr_missing r)" using store_okD(3) [OF ok] r by (auto simp: tickets_ok_def ticket_ok_def)
  note g = all_gaps_canonical [OF segs can] and gb = all_gaps_bytes [OF segs, of "tr_missing r"]
  have none: "all_gaps segs (tr_missing r) = [] \<longleftrightarrow> all_range_bytes (tr_missing r) \<subseteq> cached segs"
    using canonical_empty [OF g] gb by auto
  consider "b = BindKeep" | n where "b = BindTo n" "st_observed_len (rs_state s) = None"
    using b bind_toD(1) [OF _ store_okD(6) [OF ok]] by (auto simp: binds_def)
  then show ?thesis
  proof cases
    case 1
    then show ?thesis by (auto simp: wakes_def woken_def remaining_of_def Let_def none bound_len_def)
  next
    case 2
    then show ?thesis
      using crossing_iff [OF g, of n] gb
      by (auto simp: wakes_def woken_def remaining_of_def Let_def none bound_len_def)
  qed
qed

lemma covered_wakes_iff_woken:
  assumes ok: "store_ok s" and r: "r \<in> set (st_tickets (rs_state s))"
  shows "eof_ready n r \<longleftrightarrow> woken (st_segments (rs_state s)) None (Some n) r"
proof -
  have can: "canonical (tr_missing r)" "tr_missing r \<noteq> []"
    and p: "pending_ok (rs_source_changed s) (st_segments (rs_state s)) (st_observed_len (rs_state s)) r"
    using store_okD(3) [OF ok] r by (auto simp: tickets_ok_def ticket_ok_def)
  have "all_range_bytes (tr_missing r) \<noteq> {}" using canonical_empty can by auto
  then show ?thesis
    using crossing_iff [OF can(1), of n] p by (auto simp: eof_ready_def woken_def pending_ok_def)
qed

lemma pending_not_woken:
  assumes ok: "store_ok s" and r: "r \<in> set (st_tickets (rs_state s))"
  shows "\<not> woken (st_segments (rs_state s)) n n r"
proof -
  have can: "canonical (tr_missing r)" "tr_missing r \<noteq> []"
    and p: "pending_ok (rs_source_changed s) (st_segments (rs_state s)) (st_observed_len (rs_state s)) r"
    using store_okD(3) [OF ok] r by (auto simp: tickets_ok_def ticket_ok_def)
  have "all_range_bytes (tr_missing r) \<noteq> {}" using canonical_empty can by auto
  then show ?thesis using p by (auto simp: woken_def pending_ok_def)
qed

lemma supply_commit_wakes:
  assumes ok: "store_ok s" and q: "q \<in> set (rs_queued s)" and run: "supply_commit h q s = (s', Inr out)"
  shows "so_ready_tickets out = map tr_ticket (filter (woken (st_segments (rs_state s'))
    (st_observed_len (rs_state s)) (st_observed_len (rs_state s'))) (st_tickets (rs_state s)))"
proof (rule supply_commit_cases [of h q s])
  fix b staged
  assume *: "binds b" "bind_observed_len (rs_limits s) (rs_state s) (qr_snapshot q) = b"
    "stage_supply (sh_alloc h) s q b = Inr staged"
    "supply_commit h q s = (fst (commit_supply staged b q s), Inr (snd (commit_supply staged b q s)))"
  obtain A M B new where st: "staged_ok s q b staged A M B new" by (rule stage_supply_ok [OF ok q *(3)])
  have "st_segments (rs_state s') = A @ new # B" "st_observed_len (rs_state s') = bound_len b (st_observed_len (rs_state s))"
    "so_ready_tickets out = map tr_ticket (filter (wakes (A @ new # B) b) (st_tickets (rs_state s)))"
    using st run *(4) by (auto simp: commit_supply_def Let_def split_def staged_ok_def bound_len_def)
  then show ?thesis
    using wakes_iff_woken [OF ok _ commit_cache_ok(1) [OF ok q st *(2,1)] *(2,1)]
    by (auto intro!: arg_cong [where f = "map tr_ticket"] filter_cong)
next
  fix b
  assume *: "binds b" "bind_observed_len (rs_limits s) (rs_state s) (qr_snapshot q) = b"
    "supply_commit h q s = (drop_response q (s\<lparr>rs_state := fst (commit_observed b (rs_state s))\<rparr>),
         Inr (snd (commit_observed b (rs_state s))))"
  consider "b = BindKeep" | n where "b = BindTo n" "st_observed_len (rs_state s) = None"
    using * bind_toD(1) [OF _ store_okD(6) [OF ok]] by (auto simp: binds_def)
  then show ?thesis
  proof cases
    case 1
    then show ?thesis using pending_not_woken [OF ok] run *(3) by (auto simp: commit_observed_simps)
  next
    case 2
    then show ?thesis
      using covered_wakes_iff_woken [OF ok] run *(3)
      by (auto simp: commit_observed_simps intro!: arg_cong [where f = "map tr_ticket"] filter_cong)
  qed
qed (use run in auto)

text \<open>Joining and opening a ticket.\<close>

definition subscribed :: "range_store \<Rightarrow> read_request \<Rightarrow> data_ticket \<Rightarrow> byte_range list \<Rightarrow> bool" where
  "subscribed s request t missing \<longleftrightarrow>
     (\<exists>r. ticket_of s t = Some r \<and> tr_phase r = Pending \<and> tr_missing r = missing \<and>
        \<lparr>sub_job = rq_job request, sub_checkpoint = rq_checkpoint request\<rparr> \<in> set (tr_subscribers r))"

lemma join_ticket_pending:
  assumes ok: "store_ok s" and i: "i < length (st_tickets (rs_state s))"
    and r: "tr_phase (st_tickets (rs_state s) ! i) = Pending" "tr_missing (st_tickets (rs_state s) ! i) = missing"
  shows "(\<exists>e. join_ticket h request missing i s = (s, PollFailed e)) \<or>
    (\<exists>t. snd (join_ticket h request missing i s) = PollPending t missing \<and>
       subscribed (fst (join_ticket h request missing i s)) request t missing)"
proof -
  let ?r = "st_tickets (rs_state s) ! i" and ?sub = "\<lparr>sub_job = rq_job request, sub_checkpoint = rq_checkpoint request\<rparr>"
  have d: "distinct (map tr_ticket (st_tickets (rs_state s)))" using store_okD(3) [OF ok] by (simp add: tickets_ok_def)
  have "subscribed s request (tr_ticket ?r) missing" if "?sub \<in> set (tr_subscribers ?r)"
    using lookup_nth [OF d i] r that by (auto simp: subscribed_def)
  moreover have "existing = ?sub" "existing \<in> set (tr_subscribers ?r)"
    if "find (\<lambda>existing. sub_job existing = rq_job request) (tr_subscribers ?r) = Some existing"
      "sub_checkpoint existing = rq_checkpoint request" for existing
    using that by (auto simp: find_Some_iff)
  moreover have "subscribed (s\<lparr>rs_state := (rs_state s)\<lparr>st_tickets := (st_tickets (rs_state s))[i := ?r\<lparr>tr_subscribers := tr_subscribers ?r @ [?sub]\<rparr>],
      st_subscription_count := n\<rparr>\<rparr>) request (tr_ticket ?r) missing" for n
    using lookup_set_at [OF d i, of "?r\<lparr>tr_subscribers := tr_subscribers ?r @ [?sub]\<rparr>"] r by (auto simp: subscribed_def)
  ultimately show ?thesis by (auto simp: join_ticket_def Let_def split: option.split)
qed

lemma open_ticket_pending:
  assumes ok: "store_ok s"
  shows "(\<exists>e. snd (open_ticket h request missing s) = PollFailed e) \<or>
    (\<exists>t. snd (open_ticket h request missing s) = PollPending t missing \<and>
       subscribed (fst (open_ticket h request missing s)) request t missing)"
proof -
  let ?t = "\<lparr>ticket_namespace = rs_namespace s, ticket_value = st_next_ticket (rs_state s)\<rparr>"
  have "lookup_ticket (st_tickets (rs_state s)) ?t = None"
    using store_ok_old [OF ok] unfolding lookup_None image_iff by (metis data_ticket.select_convs(2) less_irrefl)
  then show ?thesis
    by (auto simp: open_ticket_def Let_def checked_add_def subscribed_def lookup_append)
qed

lemma open_ticket_cache: "st_segments (rs_state (fst (open_ticket h request missing s))) = st_segments (rs_state s)"
  "st_observed_len (rs_state (fst (open_ticket h request missing s))) = st_observed_len (rs_state s)"
  by (auto simp: open_ticket_def Let_def checked_add_def)

lemma join_ticket_cache: "st_segments (rs_state (fst (join_ticket h request missing i s))) = st_segments (rs_state s)"
  "st_observed_len (rs_state (fst (join_ticket h request missing i s))) = st_observed_len (rs_state s)"
  by (auto simp: join_ticket_def Let_def split: option.split)

definition poll_spec :: "range_store \<Rightarrow> read_request \<Rightarrow> range_store \<Rightarrow> read_poll \<Rightarrow> bool" where
  "poll_spec s request s' p \<longleftrightarrow>
     (case p of
        PollReady sl \<Rightarrow> bs_identity sl = snapshot_identity (rs_snapshot s) \<and> bs_range sl = rq_range request \<and>
          map Some (byte_slice_bytes sl) =
            map (byte_at (st_segments (rs_state s))) [range_start (rq_range request)..<range_end (rq_range request)]
      | PollPending t missing \<Rightarrow> canonical missing \<and> missing \<noteq> [] \<and>
          all_range_bytes missing = range_bytes (rq_range request) - cached (st_segments (rs_state s)) \<and>
          subscribed s' request t missing
      | PollEndOfFile \<Rightarrow> \<exists>n. st_observed_len (rs_state s) = Some n \<and> n < range_end (rq_range request)
      | PollFailed e \<Rightarrow> True)"

lemma slice_contents:
  assumes "length bytes = range_len rng" "\<forall>i < range_len rng. byte_at segs (range_start rng + i) = Some (bytes ! i)"
  shows "map Some bytes = map (byte_at segs) [range_start rng..<range_end rng]"
  using assms by (auto simp: list_eq_iff_nth_eq range_end_def)

lemma poll_meets_spec:
  assumes ok: "store_ok s" and rq: "range_ok (rq_range request)"
  shows "poll_spec s request (fst (poll h request s)) (snd (poll h request s))"
    "st_segments (rs_state (fst (poll h request s))) = st_segments (rs_state s)"
    "st_observed_len (rs_state (fst (poll h request s))) = st_observed_len (rs_state s)"
proof -
  note g = poll_gaps_ok [OF ok rq]
  show "poll_spec s request (fst (poll h request s)) (snd (poll h request s))"
  proof (rule poll_cases [OF ok rq, of h])
    fix i missing
    assume "poll h request s = join_ticket h request missing i s" "i < length (st_tickets (rs_state s))"
      "missing = poll_gaps s (rq_range request)" "missing \<noteq> []"
      "tr_phase (st_tickets (rs_state s) ! i) = Pending" "tr_missing (st_tickets (rs_state s) ! i) = missing"
    then show ?thesis using join_ticket_pending [OF ok, of i missing h request] g(1,2) by (auto simp: poll_spec_def)
  next
    fix missing
    assume "poll h request s = open_ticket h request missing s"
      "missing = poll_gaps s (rq_range request)" "missing \<noteq> []"
    then show ?thesis using open_ticket_pending [OF ok, of h request missing] g(1,2) by (auto simp: poll_spec_def)
  qed (auto simp: poll_spec_def slice_contents)
  show "st_segments (rs_state (fst (poll h request s))) = st_segments (rs_state s)"
    "st_observed_len (rs_state (fst (poll h request s))) = st_observed_len (rs_state s)"
    by (rule poll_cases [OF ok rq, of h]; simp add: open_ticket_cache join_ticket_cache)+
qed

text \<open>A poll that opened or joined a ticket passed the checks on its range.\<close>

lemma poll_pending_fits:
  assumes "snd (poll h request s) = PollPending t missing"
  shows "range_len (rq_range request) \<le> max_read_bytes (rs_limits s)" "range_end (rq_range request) \<le> max_input_bytes (rs_limits s)"
  using assms
  by (rule_tac synchronize_cases [of s h 0]; force simp: poll_def Let_def split: if_splits option.splits)+

lemma poll_ready_covered:
  assumes "map Some bytes = map (byte_at segs) [range_start rng..<range_end rng]"
  shows "range_bytes rng \<subseteq> cached segs"
proof
  fix a assume "a \<in> range_bytes rng"
  then have "byte_at segs a \<in> set (map (byte_at segs) [range_start rng..<range_end rng])" by (auto simp: range_bytes_def)
  then have "byte_at segs a \<noteq> None" unfolding assms [symmetric] by auto
  then show "a \<in> cached segs" by (simp add: byte_at_None)
qed

lemma poll_covered:
  assumes ok: "store_ok s" and rq: "range_ok (rq_range request)" and quiet: "\<not> rs_source_changed s" "\<not> sh_signal h 0"
    and fits: "range_len (rq_range request) \<le> max_read_bytes (rs_limits s)" "range_end (rq_range request) \<le> max_input_bytes (rs_limits s)"
  shows "st_observed_len (rs_state s) = Some n \<Longrightarrow> n < range_end (rq_range request) \<Longrightarrow> snd (poll h request s) = PollEndOfFile"
    "range_bytes (rq_range request) \<subseteq> cached (st_segments (rs_state s)) \<Longrightarrow>
       snd (poll h request s) = PollEndOfFile \<or> (\<exists>sl. snd (poll h request s) = PollReady sl)"
proof -
  have sync: "synchronize_source_change h 0 s = (s, False)" by (rule synchronize_cases [of s h 0]) (use quiet in auto)
  show "snd (poll h request s) = PollEndOfFile" if "st_observed_len (rs_state s) = Some n" "n < range_end (rq_range request)"
    using that fits by (simp add: poll_def sync Let_def)
  assume cov: "range_bytes (rq_range request) \<subseteq> cached (st_segments (rs_state s))"
  then have "range_is_covered (st_segments (rs_state s)) (rq_range request)"
    using range_is_covered_iff [OF store_okD(6) [OF ok] rq] by simp
  moreover obtain sl and seg :: segment where "borrow_range (st_segments (rs_state s)) (snapshot_identity (rs_snapshot s)) (rq_range request) = Inr (sl, seg_backing seg)"
    using borrow_range_ok [OF store_okD(6) [OF ok] rq cov, of "snapshot_identity (rs_snapshot s)"] by blast
  ultimately show "snd (poll h request s) = PollEndOfFile \<or> (\<exists>sl. snd (poll h request s) = PollReady sl)"
    using fits by (auto simp: poll_def sync Let_def split: option.split)
qed

text \<open>After a source change.\<close>

fun refused_reply :: "store_reply \<Rightarrow> bool" where
  "refused_reply (RSupply (Inr out)) = False"
| "refused_reply (RQueued (Inr q)) = False"
| "refused_reply (RPoll p) = (p = PollFailed changed_error)"
| "refused_reply _ = True"

lemma step_after_change: "rs_source_changed s \<Longrightarrow> refused_reply (snd (store_step s c))"
  by (cases c) (auto simp: observe_snapshot_def supply_begin_def supply_commit_def poll_def synchronize_source_change_def
      source_change_precedes_commit_def)

lemma run_after_change:
  "store_ok s \<Longrightarrow> rs_source_changed s \<Longrightarrow> \<forall>c \<in> set cmds. command_ok c \<Longrightarrow>
   list_all refused_reply (snd (run_machine store_step s cmds))"
proof (induction cmds arbitrary: s)
  case (Cons c cmds)
  have "evolves s (fst (store_step s c))" using Cons.prems by (intro store_step_evolves) auto
  then have "rs_source_changed (fst (store_step s c))" using Cons.prems(2) by (simp add: evolves_def)
  then show ?case using Cons step_after_change store_step_ok by simp
qed simp

text \<open>The subscriptions of a ticket leave the store once.\<close>

definition guarded_step :: "range_store \<Rightarrow> store_command \<Rightarrow> range_store \<times> store_reply" where
  "guarded_step s c = (if command_ok c then store_step s c else (s, RNone))"

definition spent :: "data_ticket \<Rightarrow> range_store \<Rightarrow> bool" where
  "spent t s \<longleftrightarrow> (case ticket_of s t of
     None \<Rightarrow> ticket_value t < st_next_ticket (rs_state s)
   | Some r \<Rightarrow> tr_phase r \<noteq> Pending \<and> tr_subscribers r = [])"

fun delivers :: "data_ticket \<Rightarrow> store_reply \<Rightarrow> bool" where
  "delivers t (RTake t' (Inr subs)) \<longleftrightarrow> t' = t \<and> subs \<noteq> []"
| "delivers t _ \<longleftrightarrow> False"

lemma spent_evolves:
  assumes "store_ok s" "evolves s s'" "spent t s"
  shows "spent t s'"
proof (cases "ticket_of s t")
  case None
  then have "ticket_value t < st_next_ticket (rs_state s)" using assms(3) by (simp add: spent_def)
  then have "ticket_of s' t = None" "ticket_value t < st_next_ticket (rs_state s')"
    using assms(2) None by (force simp: evolves_def tickets_evolve_def split: option.splits)+
  then show ?thesis by (simp add: spent_def)
next
  case (Some r)
  then have "tr_phase r \<noteq> Pending" "tr_subscribers r = []" "ticket_value t < st_next_ticket (rs_state s)"
    using assms(3) store_ok_old [OF assms(1)] lookup_Some [OF Some] by (auto simp: spent_def)
  moreover have "st_next_ticket (rs_state s) \<le> st_next_ticket (rs_state s')" "\<forall>r'. ticket_of s' t = Some r' \<longrightarrow>
      ticket_moves (st_segments (rs_state s')) (st_observed_len (rs_state s')) r r'"
    using assms(2) Some by (force simp: evolves_def tickets_evolve_def split: option.splits)+
  ultimately show ?thesis by (auto simp: spent_def ticket_moves_def split: option.split)
qed

lemma take_delivers:
  assumes ok: "store_ok s" and take: "take_subscriptions h t s = (s', Inr subs)"
  shows "spent t s'" "\<exists>r. ticket_of (synced h s) t = Some r \<and> tr_phase r \<noteq> Pending \<and> tr_subscribers r = subs"
proof -
  let ?s = "synced h s"
  have d: "distinct (map tr_ticket (st_tickets (rs_state ?s)))"
    using store_okD(3) [OF synced_ok [OF ok]] by (simp add: tickets_ok_def)
  obtain i where i: "find_ticket (rs_state ?s) t = Inr i" "tr_phase (st_tickets (rs_state ?s) ! i) \<noteq> Pending"
    using take by (auto simp: take_subscriptions_eq Let_def split: sum.splits if_splits)
  note fi = find_ticket_Inr [OF i(1)]
  note run = take_subscriptions_found(1) [OF ok i, unfolded take]
  have "lookup_ticket (st_tickets (rs_state s')) t = Some ((st_tickets (rs_state ?s) ! i)\<lparr>tr_subscribers := []\<rparr>)"
    using run fi lookup_set_at [OF d, of i "(st_tickets (rs_state ?s) ! i)\<lparr>tr_subscribers := []\<rparr>"] by simp
  then show "spent t s'" using i(2) by (simp add: spent_def)
  show "\<exists>r. ticket_of ?s t = Some r \<and> tr_phase r \<noteq> Pending \<and> tr_subscribers r = subs"
    using find_ticket_lookup(1) [OF d i(1)] i(2) run by auto
qed

lemma delivers_take: "delivers t (snd (store_step s c)) \<Longrightarrow> \<exists>h s' subs. c = CTake h t \<and> take_subscriptions h t s = (s', Inr subs) \<and> subs \<noteq> []"
proof (cases c)
  case (CTake h t')
  moreover assume "delivers t (snd (store_step s c))"
  moreover obtain s' x where "take_subscriptions h t' s = (s', x)" by fastforce
  ultimately show ?thesis by (cases x) auto
qed (auto split: if_splits)

interpretation taken: one_shot guarded_step store_ok "spent t" "delivers t" for t
proof
  fix s c
  assume ok: "store_ok s"
  show inv: "store_ok (fst (guarded_step s c))" using ok by (simp add: guarded_step_def store_step_ok)
  show "spent t (fst (guarded_step s c))" if "spent t s"
    using spent_evolves [OF ok store_step_evolves [OF ok] that] that by (simp add: guarded_step_def)
  show "\<not> delivers t (snd (guarded_step s c))" if spent: "spent t s"
  proof
    assume "delivers t (snd (guarded_step s c))"
    then obtain h s' subs where c: "take_subscriptions h t s = (s', Inr subs)" "subs \<noteq> []"
      using delivers_take [of t s c] by (auto simp: guarded_step_def split: if_splits)
    have "spent t (synced h s)" by (rule spent_evolves [OF ok synced_evolves [OF ok] spent])
    then show False using take_delivers(2) [OF ok c(1)] c(2) by (auto simp: spent_def)
  qed
  show "spent t (fst (guarded_step s c))" if "delivers t (snd (guarded_step s c))"
  proof -
    have "command_ok c" "delivers t (snd (store_step s c))" using that by (auto simp: guarded_step_def split: if_splits)
    then show ?thesis using delivers_take [of t s c] take_delivers(1) [OF ok] by (auto simp: guarded_step_def)
  qed
qed

lemma run_guarded: "\<forall>c \<in> set cmds. command_ok c \<Longrightarrow> run_machine guarded_step s cmds = run_machine store_step s cmds"
  by (induction cmds arbitrary: s) (auto simp: guarded_step_def prod_eq_iff)

section \<open>A store of five bytes\<close>

text \<open>The states of a small session, for the witnesses: an open store, a pending poll of four bytes, the
  response that is queued for it, the store that has it.\<close>

definition demo_host :: store_host where
  "demo_host = \<lparr>sh_alloc = (\<lambda>_ n. Some n), sh_signal = (\<lambda>_. False)\<rparr>"

definition demo_snapshot :: source_snapshot where
  "demo_snapshot = \<lparr>snapshot_identity = \<lparr>stable_id = [], source_revision = 1\<rparr>, snapshot_len = Some 5,
     snapshot_validator = \<lparr>sv_kind = HostVersion, sv_digest = []\<rparr>\<rparr>"

definition demo_store :: range_store where
  "demo_store = \<lparr>rs_namespace = 1, rs_snapshot = demo_snapshot, rs_limits = range_store_limit_config_default,
     rs_resident = \<lparr>rt_current = 0, rt_max = 50331648\<rparr>, rs_source_changed = False,
     rs_state = \<lparr>st_segments = [], st_cached_bytes = 0, st_tickets = [], st_next_ticket = 1,
       st_observed_len = Some 5, st_subscription_count = 0\<rparr>,
     rs_next_backing = 0, rs_queued = [], rs_lent = []\<rparr>"

definition demo_range :: byte_range where
  "demo_range = \<lparr>range_start = 0, range_len = 4\<rparr>"

definition demo_request :: read_request where
  "demo_request = \<lparr>rq_range = demo_range, rq_priority = VisiblePage, rq_job = 7, rq_checkpoint = 1\<rparr>"

definition demo_ticket :: data_ticket where
  "demo_ticket = \<lparr>ticket_namespace = 1, ticket_value = 1\<rparr>"

definition demo_record :: ticket_record where
  "demo_record = \<lparr>tr_ticket = demo_ticket, tr_missing = [demo_range],
     tr_subscribers = [\<lparr>sub_job = 7, sub_checkpoint = 1\<rparr>], tr_phase = Pending\<rparr>"

definition demo_pending :: range_store where
  "demo_pending = demo_store\<lparr>rs_state := (rs_state demo_store)\<lparr>st_tickets := [demo_record], st_next_ticket := 2,
     st_subscription_count := 1\<rparr>\<rparr>"

definition demo_response :: range_response where
  "demo_response = \<lparr>rr_snapshot = demo_snapshot, rr_range = demo_range, rr_bytes = [37, 80, 68, 70], rr_capacity = 4\<rparr>"

definition demo_backing :: backing_bytes where
  "demo_backing = \<lparr>bk_id = 0, bk_bytes = [37, 80, 68, 70], bk_reserved = 4\<rparr>"

definition demo_queue :: queued_response where
  "demo_queue = \<lparr>qr_snapshot = demo_snapshot, qr_range = demo_range, qr_backing = demo_backing\<rparr>"

definition demo_queued :: range_store where
  "demo_queued = demo_pending\<lparr>rs_resident := \<lparr>rt_current = 4, rt_max = 50331648\<rparr>, rs_next_backing := 1,
     rs_queued := [demo_queue]\<rparr>"

definition demo_full :: range_store where
  "demo_full = demo_queued\<lparr>rs_queued := [], rs_next_backing := 2, rs_state := (rs_state demo_queued)\<lparr>
     st_segments := [\<lparr>seg_start = 0, seg_end = 4, seg_backing = demo_backing\<rparr>], st_cached_bytes := 4,
     st_tickets := [demo_record\<lparr>tr_phase := Ready\<rparr>]\<rparr>\<rparr>"

lemmas demo_defs = demo_store_def demo_pending_def demo_queued_def demo_full_def demo_host_def demo_snapshot_def
  demo_request_def demo_record_def demo_ticket_def demo_response_def demo_backing_def demo_queue_def
  demo_range_def range_store_limit_config_default_def

lemmas probe_defs = synchronize_source_change_def source_change_precedes_commit_def Let_def

lemma demo_limits_ok: "range_store_limits_validate range_store_limit_config_default = Inr range_store_limit_config_default"
  by (simp add: range_store_limits_validate_def range_store_limit_config_default_def)

lemma demo_new: "range_store_new demo_host 1 demo_snapshot range_store_limit_config_default = (2, Inr demo_store)"
  by (simp add: range_store_new_def demo_defs try_alloc_def checked_add_def tracker_new_def u64_max_def)

lemma demo_range_ok [simp]: "range_ok demo_range" "rq_range demo_request = demo_range"
  by (simp_all add: range_ok_def demo_range_def range_end_def u64_max_def demo_request_def)

lemma demo_poll: "poll demo_host demo_request demo_store = (demo_pending, PollPending demo_ticket [demo_range])"
  by (simp add: poll_def probe_defs demo_defs range_is_covered_def missing_ranges_def missing_range_storage_def
      append_uncovered_ranges_def push_range_def byte_range_new_def checked_add_def u64_max_def try_alloc_def
      try_from_canonical_def open_ticket_def range_end_def)

lemma demo_begin: "supply_begin demo_host demo_response demo_pending = (demo_queued, Inr demo_queue)"
  by (simp add: supply_begin_def probe_defs demo_defs same_source_def try_reserve_def checked_add_def u64_max_def
      adopt_vec_def range_end_def)

lemma demo_commit: "supply_commit demo_host demo_queue demo_queued =
    (demo_full, Inr \<lparr>so_cached_bytes = 4, so_ready_tickets = [demo_ticket]\<rparr>)"
  by (simp add: supply_commit_def probe_defs demo_defs bind_observed_len_def try_alloc_def range_is_covered_def
      stage_supply_def merged_backing_def insert_segment_def keep_unaffected_def checked_add_def checked_sub_def
      u64_max_def range_end_def remaining_missing_ranges_def missing_range_storage_def append_uncovered_ranges_def
      commit_supply_def)

text \<open>A store that lends a backing more is still read the same.\<close>

lemma demo_reread:
  "poll demo_host demo_request (demo_full\<lparr>rs_lent := bs\<rparr>) = (demo_full\<lparr>rs_lent := demo_backing # bs\<rparr>,
     PollReady \<lparr>bs_identity = snapshot_identity demo_snapshot, bs_range = demo_range,
       bs_backing = [37, 80, 68, 70], bs_backing_offset = 0\<rparr>)"
  by (simp add: poll_def probe_defs demo_defs range_is_covered_def byte_slice_new_def range_end_def checked_add_def
      u64_max_def byte_slice_bytes_def)

lemma demo_store_ok: "store_ok demo_store"
  by (rule range_store_new_ok(1) [OF demo_limits_ok demo_new])

lemma demo_pending_ok: "store_ok demo_pending"
  using poll_ok [OF demo_store_ok, of demo_request demo_host] by (simp add: demo_poll)

lemma demo_response_ok: "response_ok demo_response"
  by (simp add: response_ok_def demo_response_def demo_snapshot_def demo_range_def within_observed_def range_end_def
      range_ok_def u64_max_def)

lemma demo_queued_ok: "store_ok demo_queued" "demo_queue \<in> set (rs_queued demo_queued)"
  using supply_begin_ok [OF demo_pending_ok demo_response_ok, of demo_host] by (simp_all add: demo_begin demo_queued_def)

lemma demo_full_ok: "store_ok demo_full"
  using supply_commit_ok [OF demo_queued_ok, of demo_host] by (simp add: demo_commit)

section \<open>Properties\<close>

text \<open>C30: In every state a range store reaches, by any sequence of calls with well-formed ranges and responses,
  the invariant holds: the segments are canonical, the cached-byte count is the number of cached addresses, the
  counts respect the limits, and the resident counter is the sum over the live backings and under its ceiling.\<close>

theorem range_store_invariant:
  assumes "range_store_limits_validate config = Inr limits" "range_store_new h ns snap limits = (ns', Inr store)"
    "\<forall>c \<in> set cmds. command_ok c"
  shows "store_ok (run_store store cmds) \<and>
    store_cached_bytes (run_store store cmds) = card (cached (st_segments (rs_state (run_store store cmds)))) \<and>
    store_cached_bytes (run_store store cmds) \<le> max_cached_bytes limits \<and>
    length (st_segments (rs_state (run_store store cmds))) \<le> max_segments limits \<and>
    length (st_tickets (rs_state (run_store store cmds))) \<le> max_tickets limits \<and>
    st_subscription_count (rs_state (run_store store cmds)) \<le> max_total_subscriptions limits \<and>
    resident_bytes (run_store store cmds) = sum bk_reserved (live (run_store store cmds)) \<and>
    resident_bytes (run_store store cmds) \<le> max_resident_bytes limits"
proof -
  note new = range_store_new_ok [OF assms(1,2)]
  have ok: "store_ok (run_store store cmds)" by (rule run_store_ok [OF new(1) assms(3)])
  have "rs_limits (run_store store cmds) = limits"
    using run_store_evolves [OF new(1) assms(3)] new(2) by (simp add: evolves_def)
  then show ?thesis
    using ok store_cached_card [OF ok]
    by (auto simp: store_ok_def cache_ok_def tickets_ok_def resident_ok_def store_cached_bytes_def resident_bytes_def)
qed

theorem range_store_invariant_witness:
  "store_ok (run_store demo_store [CPoll demo_host demo_request, CBegin demo_host demo_response, CCommit demo_host demo_queue])"
  using range_store_invariant [OF demo_limits_ok demo_new, of "[CPoll demo_host demo_request, CBegin demo_host demo_response,
    CCommit demo_host demo_queue]"] demo_response_ok by simp

text \<open>C31: The cached segments implement a partial map from addresses to bytes. A supply that succeeds found no
  cached byte different from its own, and overrides the map with the response on its range; a supply that fails
  leaves the segments as they were.\<close>

theorem supply_refines_contents:
  assumes "store_ok s" "q \<in> set (rs_queued s)"
  shows "case supply_commit h q s of
    (s', Inl e) \<Rightarrow> st_segments (rs_state s') = st_segments (rs_state s)
  | (s', Inr out) \<Rightarrow>
      byte_at (st_segments (rs_state s')) = (\<lambda>a. if a \<in> range_bytes (qr_range q)
         then Some (bk_bytes (qr_backing q) ! (a - range_start (qr_range q))) else byte_at (st_segments (rs_state s)) a) \<and>
      (\<forall>a \<in> range_bytes (qr_range q). \<forall>x. byte_at (st_segments (rs_state s)) a = Some x \<longrightarrow>
         x = bk_bytes (qr_backing q) ! (a - range_start (qr_range q))) \<and>
      so_cached_bytes out = store_cached_bytes s'"
  using supply_commit_contents [OF assms, of h] unfolding merged_byte_def by (auto split: prod.splits sum.splits)

theorem supply_refines_contents_witness:
  "byte_at (st_segments (rs_state demo_queued)) 3 = None \<and> byte_at (st_segments (rs_state demo_full)) 3 = Some 70"
  using supply_refines_contents [OF demo_queued_ok, of demo_host]
  by (simp add: demo_commit) (simp add: demo_defs range_bytes_def range_end_def)

text \<open>C32: A poll returns exactly the cached bytes of its range, or a canonical nonempty list of ranges that covers
  exactly the addresses not cached, with the caller subscribed to a pending ticket for it, or the end of the file
  when the observed length ends inside the range, or it fails (a refused request, a limit, a changed source), of which
  nothing more is said here; it changes neither the cache nor the observed length. An allowed
  range inside an unchanged source is answered with bytes if and only if it is cached.\<close>

theorem poll_correct:
  assumes "store_ok s" "range_ok (rq_range request)"
  shows "poll_spec s request (fst (poll h request s)) (snd (poll h request s)) \<and>
    st_segments (rs_state (fst (poll h request s))) = st_segments (rs_state s) \<and>
    st_observed_len (rs_state (fst (poll h request s))) = st_observed_len (rs_state s) \<and>
    (\<not> rs_source_changed s \<and> \<not> sh_signal h 0 \<and> range_len (rq_range request) \<le> max_read_bytes (rs_limits s) \<and>
       range_end (rq_range request) \<le> max_input_bytes (rs_limits s) \<and>
       within_observed (st_observed_len (rs_state s)) (range_end (rq_range request)) \<longrightarrow>
     ((\<exists>sl. snd (poll h request s) = PollReady sl) \<longleftrightarrow> range_bytes (rq_range request) \<subseteq> cached (st_segments (rs_state s))))"
proof -
  note spec = poll_meets_spec [OF assms, of h]
  have "range_bytes (rq_range request) \<subseteq> cached (st_segments (rs_state s))" if "snd (poll h request s) = PollReady sl" for sl
    using spec(1) that by (intro poll_ready_covered [of "byte_slice_bytes sl"]) (simp add: poll_spec_def)
  moreover have "snd (poll h request s) \<noteq> PollEndOfFile" if "within_observed (st_observed_len (rs_state s)) (range_end (rq_range request))"
    using spec(1) that by (auto simp: poll_spec_def within_observed_def)
  ultimately show ?thesis using spec poll_covered(2) [OF assms, of h] by blast
qed

theorem poll_correct_witness:
  "poll_spec demo_store demo_request demo_pending (PollPending demo_ticket [demo_range])"
  using poll_correct [OF demo_store_ok, of demo_request demo_host] by (simp add: demo_poll)

text \<open>C33: A successful supply reports exactly the pending tickets whose missing addresses are now all cached, or
  reach past the length that this response was the first to state, in the order of the tickets.\<close>

theorem supply_wakes_exactly:
  assumes "store_ok s" "q \<in> set (rs_queued s)" "supply_commit h q s = (s', Inr out)"
  shows "so_ready_tickets out = map tr_ticket (filter (woken (st_segments (rs_state s'))
    (st_observed_len (rs_state s)) (st_observed_len (rs_state s'))) (st_tickets (rs_state s)))"
  by (rule supply_commit_wakes [OF assms])

theorem supply_wakes_exactly_witness:
  "map tr_ticket (filter (woken (st_segments (rs_state demo_full)) (st_observed_len (rs_state demo_queued))
    (st_observed_len (rs_state demo_full))) (st_tickets (rs_state demo_queued))) = [demo_ticket]"
  using supply_wakes_exactly [OF demo_queued_ok demo_commit] by simp

text \<open>C34: A source change is final: once the flag is raised, every later poll fails with the source-changed error
  and no observation or supply succeeds, whatever the calls, and no ticket is pending.\<close>

theorem source_change_final:
  assumes "store_ok s" "rs_source_changed s" "\<forall>c \<in> set cmds. command_ok c"
  shows "list_all refused_reply (snd (run_machine store_step s cmds)) \<and>
    (\<forall>t r. ticket_of (run_store s cmds) t = Some r \<longrightarrow> tr_phase r \<noteq> Pending)"
proof -
  have "rs_source_changed (run_store s cmds)" using run_store_evolves [OF assms(1,3)] assms(2) by (simp add: evolves_def)
  moreover have "store_ok (run_store s cmds)" by (rule run_store_ok [OF assms(1,3)])
  ultimately show ?thesis
    using run_after_change [OF assms] by (auto simp: store_ok_def tickets_ok_def pending_ok_def dest: lookup_Some)
qed

theorem source_change_final_witness:
  "refused_reply (snd (store_step (poison_source demo_pending) (CPoll demo_host demo_request)))"
  using source_change_final [OF poison_store_ok [OF demo_pending_ok] poison_simps(8), of "[CPoll demo_host demo_request]"] by simp

text \<open>C35: The subscriptions of a ticket are delivered at most once: over any sequence of calls, at most one
  \<open>take_subscriptions\<close> of a ticket returns a nonempty list.\<close>

theorem subscriptions_taken_once:
  assumes "store_ok s" "\<forall>c \<in> set cmds. command_ok c"
  shows "length (filter (delivers t) (snd (run_machine store_step s cmds))) \<le> 1"
  using taken.run_fires_once [OF assms(1), of t cmds] by (simp add: run_guarded [OF assms(2)])

theorem subscriptions_taken_once_witness:
  "length (filter (delivers demo_ticket) (snd (run_machine store_step demo_full
    [CTake demo_host demo_ticket, CTake demo_host demo_ticket]))) \<le> 1 \<and>
   delivers demo_ticket (snd (store_step demo_full (CTake demo_host demo_ticket)))"
  using subscriptions_taken_once [OF demo_full_ok, of "[CTake demo_host demo_ticket, CTake demo_host demo_ticket]" demo_ticket]
  by (simp add: take_subscriptions_def probe_defs demo_defs find_ticket_def uncount_subscriptions_def checked_sub_def)

text \<open>C36: A ticket makes progress and its phase is final. Let a poll be pending on a ticket and any calls follow.
  If what the poll missed is cached then the ticket is not pending any more; if the ticket is ready, the same
  request, polled again in a source that has not changed, is answered with bytes or the end of the file; and once
  the ticket is not pending, it keeps its phase (ready, failed, source changed or abandoned) and its
  missing ranges through any further calls, for as long as the store knows it.\<close>

theorem pending_poll_resolves:
  assumes "store_ok s" "range_ok (rq_range request)" "poll h request s = (s1, PollPending t missing)"
    "\<forall>c \<in> set cmds. command_ok c" "ticket_of (run_store s1 cmds) t = Some r"
  shows "(all_range_bytes missing \<subseteq> cached (st_segments (rs_state (run_store s1 cmds))) \<longrightarrow> tr_phase r \<noteq> Pending) \<and>
    (tr_phase r = Ready \<and> \<not> rs_source_changed (run_store s1 cmds) \<and> \<not> sh_signal h' 0 \<longrightarrow>
      snd (poll h' request (run_store s1 cmds)) = PollEndOfFile \<or>
      (\<exists>sl. snd (poll h' request (run_store s1 cmds)) = PollReady sl)) \<and>
    (tr_phase r \<noteq> Pending \<longrightarrow> (\<forall>later r'. (\<forall>c \<in> set later. command_ok c) \<and>
      ticket_of (run_store (run_store s1 cmds) later) t = Some r' \<longrightarrow>
      tr_phase r' = tr_phase r \<and> tr_missing r' = tr_missing r))"
proof -
  let ?s2 = "run_store s1 cmds"
  have s1: "store_ok s1" using poll_ok [OF assms(1,2), of h] assms(3) by simp
  note ok2 = run_store_ok [OF s1 assms(4)] and ev = run_store_evolves [OF s1 assms(4)]
  note spec = poll_meets_spec [OF assms(1,2), of h, unfolded assms(3) fst_conv snd_conv]
  from spec(1) obtain r1 where r1: "ticket_of s1 t = Some r1" "tr_phase r1 = Pending" "tr_missing r1 = missing"
    by (auto simp: poll_spec_def subscribed_def)
  have miss: "all_range_bytes missing = range_bytes (rq_range request) - cached (st_segments (rs_state s1))"
    using spec(1,2) by (simp add: poll_spec_def)
  have moves: "ticket_moves (st_segments (rs_state ?s2)) (st_observed_len (rs_state ?s2)) r1 r"
    using ev r1(1) assms(5) by (force simp: evolves_def tickets_evolve_def split: option.splits)
  have mono: "cached (st_segments (rs_state s1)) \<subseteq> cached (st_segments (rs_state ?s2))"
    using ev by (intro cache_evolves_cached) (simp add: evolves_def)
  have "rs_limits ?s2 = rs_limits s"
    using ev store_step_evolves [OF assms(1), of "CPoll h request"] assms(2,3) by (simp add: evolves_def)
  then have fits: "range_len (rq_range request) \<le> max_read_bytes (rs_limits ?s2)" "range_end (rq_range request) \<le> max_input_bytes (rs_limits ?s2)"
    using poll_pending_fits [of h request s t missing] assms(3) by simp_all
  have "canonical (tr_missing r)" "tr_missing r \<noteq> []"
    using store_okD(3) [OF ok2] lookup_Some [OF assms(5)] by (auto simp: tickets_ok_def ticket_ok_def)
  then have "all_range_bytes (tr_missing r) \<noteq> {}" by (simp add: canonical_empty)
  then have "tr_phase r \<noteq> Pending" if "all_range_bytes missing \<subseteq> cached (st_segments (rs_state ?s2))"
    using that moves r1 by (auto simp: ticket_moves_def)
  moreover have "snd (poll h' request ?s2) = PollEndOfFile \<or> (\<exists>sl. snd (poll h' request ?s2) = PollReady sl)"
    if ready: "tr_phase r = Ready" and quiet: "\<not> rs_source_changed ?s2" "\<not> sh_signal h' 0"
  proof -
    consider "all_range_bytes missing \<subseteq> cached (st_segments (rs_state ?s2))"
      | n a where "st_observed_len (rs_state ?s2) = Some n" "a \<in> all_range_bytes missing" "n \<le> a"
      using moves r1 ready by (auto simp: ticket_moves_def)
    then show ?thesis
    proof cases
      case 1
      then have "range_bytes (rq_range request) \<subseteq> cached (st_segments (rs_state ?s2))" using miss mono by auto
      then show ?thesis by (rule poll_covered(2) [OF ok2 assms(2) quiet fits])
    next
      case 2
      then have "n < range_end (rq_range request)" using miss by (auto simp: range_bytes_def)
      then show ?thesis using poll_covered(1) [OF ok2 assms(2) quiet fits 2(1)] by simp
    qed
  qed
  moreover have "tr_phase r' = tr_phase r \<and> tr_missing r' = tr_missing r"
    if "tr_phase r \<noteq> Pending" "\<forall>c \<in> set later. command_ok c" "ticket_of (run_store ?s2 later) t = Some r'" for later r'
    using run_store_evolves [OF ok2 that(2)] that(1,3) assms(5)
    by (force simp: evolves_def tickets_evolve_def ticket_moves_def split: option.splits)
  ultimately show ?thesis by blast
qed

theorem pending_poll_resolves_witness:
  "(snd (poll demo_host demo_request (run_store demo_pending [CBegin demo_host demo_response, CCommit demo_host demo_queue])) = PollEndOfFile \<or>
    (\<exists>sl. snd (poll demo_host demo_request (run_store demo_pending [CBegin demo_host demo_response, CCommit demo_host demo_queue])) = PollReady sl)) \<and>
   map_option tr_phase (ticket_of (run_store demo_full
     [CFail demo_host demo_ticket (source_error_for_code SSourceUnavailable), CSignal]) demo_ticket) \<in> {None, Some Ready}"
proof -
  let ?cmds = "[CBegin demo_host demo_response, CCommit demo_host demo_queue]"
    and ?later = "[CFail demo_host demo_ticket (source_error_for_code SSourceUnavailable), CSignal]"
  have run: "run_store demo_pending ?cmds = demo_full"
    using demo_queued_ok(2) by (simp add: demo_begin demo_commit)
  have full: "ticket_of demo_full demo_ticket = Some (demo_record\<lparr>tr_phase := Ready\<rparr>)" "\<not> rs_source_changed demo_full" "\<not> sh_signal demo_host 0"
    by (simp_all add: demo_defs)
  have cmds: "\<forall>c \<in> set ?cmds. command_ok c" "\<forall>c \<in> set ?later. command_ok c"
    using demo_response_ok by simp_all
  note res = pending_poll_resolves [OF demo_store_ok demo_range_ok(1) [folded demo_range_ok(2)] demo_poll cmds(1),
      of "demo_record\<lparr>tr_phase := Ready\<rparr>" demo_host, unfolded run, OF full(1)]
  have ready: "tr_phase (demo_record\<lparr>tr_phase := Ready\<rparr>) = Ready" by simp
  have "tr_phase r' = Ready" if "ticket_of (run_store demo_full ?later) demo_ticket = Some r'" for r'
    using conjunct2 [OF conjunct2 [OF res]] cmds(2) that unfolding ready by blast
  moreover have "snd (poll demo_host demo_request demo_full) = PollEndOfFile \<or>
      (\<exists>sl. snd (poll demo_host demo_request demo_full) = PollReady sl)"
    using conjunct1 [OF conjunct2 [OF res]] full(2,3) unfolding ready by blast
  ultimately show ?thesis
    unfolding run by (cases "ticket_of (run_store demo_full ?later) demo_ticket") (simp_all del: run_machine.simps)
qed

text \<open>C37: Reads of one snapshot agree: a slice read later, after any calls, has at every address the byte that an
  earlier slice has there.\<close>

theorem reads_agree:
  assumes "store_ok s" "range_ok (rq_range rq)" "range_ok (rq_range rq')" "\<forall>c \<in> set cmds. command_ok c"
    "poll h rq s = (s1, PollReady sl)" "poll h' rq' (run_store s1 cmds) = (s2, PollReady sl')"
    "range_start (rq_range rq) + i = range_start (rq_range rq') + j" "i < range_len (rq_range rq)" "j < range_len (rq_range rq')"
  shows "byte_slice_bytes sl ! i = byte_slice_bytes sl' ! j"
proof -
  have s1: "store_ok s1" using poll_ok [OF assms(1,2), of h] assms(5) by simp
  note ok2 = run_store_ok [OF s1 assms(4)] and ev = run_store_evolves [OF s1 assms(4)]
  have read: "byte_at (st_segments (rs_state u)) (range_start (rq_range x) + k) = Some (byte_slice_bytes l ! k)"
    if "poll_spec u x u' (PollReady l)" "k < range_len (rq_range x)" for u x u' l k
  proof -
    have "map Some (byte_slice_bytes l) = map (byte_at (st_segments (rs_state u))) [range_start (rq_range x)..<range_end (rq_range x)]"
      using that(1) by (simp add: poll_spec_def)
    from arg_cong [OF this, where f = "\<lambda>xs. xs ! k"] arg_cong [OF this, where f = length] show ?thesis
      using that(2) by (simp add: range_end_def)
  qed
  note m1 = poll_meets_spec [OF assms(1,2), of h, unfolded assms(5) fst_conv snd_conv]
  note m2 = poll_meets_spec [OF ok2 assms(3), of h', unfolded assms(6) fst_conv snd_conv]
  have "byte_at (st_segments (rs_state s1)) (range_start (rq_range rq) + i) = Some (byte_slice_bytes sl ! i)"
    using read [OF m1(1) assms(8)] m1(2) by simp
  then have "byte_at (st_segments (rs_state (run_store s1 cmds))) (range_start (rq_range rq) + i) = Some (byte_slice_bytes sl ! i)"
    using ev by (simp add: evolves_def cache_evolves_def)
  then show ?thesis using read [OF m2(1) assms(9)] assms(7) by simp
qed

theorem reads_agree_witness:
  "byte_slice_bytes (case snd (poll demo_host demo_request demo_full) of PollReady sl \<Rightarrow> sl) ! 2 =
   byte_slice_bytes (case snd (poll demo_host demo_request (fst (poll demo_host demo_request demo_full))) of PollReady sl \<Rightarrow> sl) ! 2"
proof -
  have same: "demo_full\<lparr>rs_lent := []\<rparr> = demo_full" by (simp add: demo_defs)
  note 1 = demo_reread [of "[]", unfolded same] and 2 = demo_reread [of "[demo_backing]"]
  show ?thesis
    using reads_agree [OF demo_full_ok _ _ _ 1, of demo_request "[]" demo_host _ _ 2 2] 2 by (simp add: 1 demo_range_def)
qed

end
