(* ===== verification/Syn_Input.thy ===== *)
theory Syn_Input
  imports Syn_Types
begin

text \<open>
  The syntax parser's errors, limits, input and state (\<open>pdf-rs/syntax/src/error.rs\<close>, \<open>limits.rs\<close> and the
  first part of \<open>parser.rs\<close>), its accounting, and the functions that classify bytes. A step of the parser
  takes the state and returns a result and a state, also when it fails: a failed attempt leaves its cursor
  and its statistics behind. What is fixed for a parser (input, limits, cancellation and allocator) is the
  record \<open>syntax_context\<close>.
\<close>

section \<open>Errors and limits\<close>

datatype syntax_limit_kind =
  LimInputBytes | LimTokenBytes | LimCommentBytes | LimNameBytes | LimStringSourceBytes | LimStringDecodedBytes
| LimOwnedBytes | LimTokens | LimContainerEntries | LimContainerBytes | LimRetainedBytes | LimContainerDepth
| LimAllocation

record syntax_limit =
  xl_kind :: syntax_limit_kind
  xl_limit :: nat
  xl_consumed :: nat
  xl_attempted :: nat

datatype syntax_error_code =
  XInvalidLimits | XInvalidHeader | XUnexpectedByte | XUnexpectedToken | XUnexpectedEndOfInput | XInvalidNumber
| XIntegerOutOfRange | XInvalidNameEscape | XUnterminatedLiteralString | XInvalidHexString | XMismatchedDelimiter
| XInvalidReference | XInvalidStreamBoundary | XResourceLimit | XSourceMismatch | XCancelled | XInternalState

datatype syntax_error_category = XConfiguration | XSyntax | XResource | XIntegrity | XCancellation | XInternal

datatype syntax_recoverability =
  XCorrectConfiguration | XCorrectInput | XReduceWorkload | XReopenSource | XAbandonOperation | XDoNotRetry

record syntax_error =
  xe_code :: syntax_error_code
  xe_category :: syntax_error_category
  xe_recoverability :: syntax_recoverability
  xe_diagnostic_id :: string
  xe_offset :: "nat option"
  xe_limit :: "syntax_limit option"

fun syntax_error_policy :: "syntax_error_code \<Rightarrow> syntax_error_category \<times> syntax_recoverability \<times> string" where
  "syntax_error_policy XInvalidLimits = (XConfiguration, XCorrectConfiguration, ''RPE-SYNTAX-0001'')"
| "syntax_error_policy XInvalidHeader = (XSyntax, XCorrectInput, ''RPE-SYNTAX-0002'')"
| "syntax_error_policy XUnexpectedByte = (XSyntax, XCorrectInput, ''RPE-SYNTAX-0003'')"
| "syntax_error_policy XUnexpectedToken = (XSyntax, XCorrectInput, ''RPE-SYNTAX-0004'')"
| "syntax_error_policy XUnexpectedEndOfInput = (XSyntax, XCorrectInput, ''RPE-SYNTAX-0005'')"
| "syntax_error_policy XInvalidNumber = (XSyntax, XCorrectInput, ''RPE-SYNTAX-0006'')"
| "syntax_error_policy XIntegerOutOfRange = (XSyntax, XCorrectInput, ''RPE-SYNTAX-0007'')"
| "syntax_error_policy XInvalidNameEscape = (XSyntax, XCorrectInput, ''RPE-SYNTAX-0008'')"
| "syntax_error_policy XUnterminatedLiteralString = (XSyntax, XCorrectInput, ''RPE-SYNTAX-0009'')"
| "syntax_error_policy XInvalidHexString = (XSyntax, XCorrectInput, ''RPE-SYNTAX-0010'')"
| "syntax_error_policy XMismatchedDelimiter = (XSyntax, XCorrectInput, ''RPE-SYNTAX-0011'')"
| "syntax_error_policy XInvalidReference = (XSyntax, XCorrectInput, ''RPE-SYNTAX-0012'')"
| "syntax_error_policy XInvalidStreamBoundary = (XSyntax, XCorrectInput, ''RPE-SYNTAX-0013'')"
| "syntax_error_policy XResourceLimit = (XResource, XReduceWorkload, ''RPE-SYNTAX-0014'')"
| "syntax_error_policy XSourceMismatch = (XIntegrity, XReopenSource, ''RPE-SYNTAX-0015'')"
| "syntax_error_policy XCancelled = (XCancellation, XAbandonOperation, ''RPE-SYNTAX-0017'')"
| "syntax_error_policy XInternalState = (XInternal, XDoNotRetry, ''RPE-SYNTAX-0016'')"

definition syntax_error_for_code :: "syntax_error_code \<Rightarrow> nat option \<Rightarrow> syntax_error" where
  "syntax_error_for_code code offset =
     (let (category, recoverability, diagnostic_id) = syntax_error_policy code in
      \<lparr>xe_code = code, xe_category = category, xe_recoverability = recoverability,
       xe_diagnostic_id = diagnostic_id, xe_offset = offset, xe_limit = None\<rparr>)"

definition syntax_error_resource :: "syntax_limit_kind \<Rightarrow> nat \<Rightarrow> nat \<Rightarrow> nat \<Rightarrow> nat option \<Rightarrow> syntax_error" where
  "syntax_error_resource kind limit consumed attempted offset =
     \<lparr>xe_code = XResourceLimit, xe_category = XResource, xe_recoverability = XReduceWorkload,
      xe_diagnostic_id = ''RPE-SYNTAX-0014'', xe_offset = offset,
      xe_limit = Some \<lparr>xl_kind = kind, xl_limit = limit, xl_consumed = consumed, xl_attempted = attempted\<rparr>\<rparr>"

record syntax_limits =
  syn_max_input_bytes :: nat
  syn_max_token_bytes :: nat
  syn_max_comment_bytes :: nat
  syn_max_name_bytes :: nat
  syn_max_string_source_bytes :: nat
  syn_max_string_decoded_bytes :: nat
  syn_max_owned_bytes :: nat
  syn_max_total_tokens :: nat
  syn_max_container_entries :: nat
  syn_max_container_bytes :: nat
  syn_max_container_depth :: nat

definition syntax_limits_validate :: "syntax_limits \<Rightarrow> syntax_error + syntax_limits" where
  "syntax_limits_validate config =
     (if syn_max_input_bytes config = 0
       \<or> syn_max_input_bytes config > 64 * 1024 * 1024
       \<or> syn_max_token_bytes config = 0
       \<or> syn_max_token_bytes config > 16 * 1024 * 1024
       \<or> syn_max_token_bytes config > syn_max_input_bytes config
       \<or> syn_max_comment_bytes config = 0
       \<or> syn_max_comment_bytes config > 1024 * 1024
       \<or> syn_max_comment_bytes config > syn_max_token_bytes config
       \<or> syn_max_name_bytes config = 0
       \<or> syn_max_name_bytes config > 1024 * 1024
       \<or> syn_max_name_bytes config > syn_max_token_bytes config
       \<or> syn_max_string_source_bytes config = 0
       \<or> syn_max_string_source_bytes config > 32 * 1024 * 1024
       \<or> syn_max_string_source_bytes config > syn_max_input_bytes config
       \<or> syn_max_string_decoded_bytes config = 0
       \<or> syn_max_string_decoded_bytes config > 32 * 1024 * 1024
       \<or> syn_max_owned_bytes config = 0
       \<or> syn_max_owned_bytes config > 64 * 1024 * 1024
       \<or> syn_max_owned_bytes config < syn_max_name_bytes config
       \<or> syn_max_owned_bytes config < syn_max_string_decoded_bytes config
       \<or> syn_max_total_tokens config = 0
       \<or> syn_max_total_tokens config > 4000000
       \<or> syn_max_container_entries config = 0
       \<or> syn_max_container_entries config > 1000000
       \<or> syn_max_container_bytes config = 0
       \<or> syn_max_container_bytes config > 256 * 1024 * 1024
       \<or> syn_max_container_depth config = 0
       \<or> syn_max_container_depth config > 512
      then Inl (syntax_error_for_code XInvalidLimits None)
      else Inr config)"

definition syntax_limit_config_default :: syntax_limits where
  "syntax_limit_config_default =
     \<lparr>syn_max_input_bytes = 8 * 1024 * 1024, syn_max_token_bytes = 1024 * 1024, syn_max_comment_bytes = 64 * 1024,
      syn_max_name_bytes = 64 * 1024, syn_max_string_source_bytes = 4 * 1024 * 1024,
      syn_max_string_decoded_bytes = 4 * 1024 * 1024, syn_max_owned_bytes = 8 * 1024 * 1024,
      syn_max_total_tokens = 250000, syn_max_container_entries = 100000, syn_max_container_bytes = 64 * 1024 * 1024,
      syn_max_container_depth = 128\<rparr>"

section \<open>Input and spans\<close>

datatype input_extent = MayContinue | KnownSourceEnd

record syntax_input =
  in_source :: source_identity
  in_base :: nat
  in_bytes :: "u8 list"
  in_extent :: input_extent

definition syntax_input_new ::
  "source_identity \<Rightarrow> nat \<Rightarrow> u8 list \<Rightarrow> input_extent \<Rightarrow> syntax_error + syntax_input" where
  "syntax_input_new source base_offset bytes extent =
     and_then (ok_or (checked_add base_offset (length bytes)) (syntax_error_for_code XInternalState (Some base_offset)))
       (\<lambda>_. Inr \<lparr>in_source = source, in_base = base_offset, in_bytes = bytes, in_extent = extent\<rparr>)"

definition from_byte_slice :: "byte_slice \<Rightarrow> input_extent \<Rightarrow> syntax_error + syntax_input" where
  "from_byte_slice s extent = syntax_input_new (bs_identity s) (range_start (bs_range s)) (byte_slice_bytes s) extent"

definition byte_span_new :: "nat \<Rightarrow> nat \<Rightarrow> syntax_error + byte_span" where
  "byte_span_new start len =
     (if checked_add start len = None then Inl (syntax_error_for_code XInternalState (Some start))
      else Inr \<lparr>span_start = start, span_len = len\<rparr>)"

definition from_bounds :: "nat \<Rightarrow> nat \<Rightarrow> syntax_error + byte_span" where
  "from_bounds start end_exclusive =
     and_then (ok_or (checked_sub end_exclusive start) (syntax_error_for_code XInternalState (Some start)))
       (byte_span_new start)"

record pdf_header =
  header_major :: nat
  header_minor :: nat

record raw_bytes =
  raw_source :: source_identity
  raw_span :: byte_span
  raw_slice :: "u8 list"

section \<open>The state of the parser\<close>

text \<open>The host: the answers of the cancellation probe by the number of the call, the capacity that the
  allocator grants (at least what is asked) by the number of the request, and the sizes of the two element
  types.\<close>

record syntax_host =
  sy_cancelled :: "nat \<Rightarrow> bool"
  sy_alloc :: "nat \<Rightarrow> nat \<Rightarrow> nat option"
  sy_item_size :: nat
  sy_entry_size :: nat

record syntax_context =
  cx_input :: syntax_input
  cx_limits :: syntax_limits
  cx_max_retained :: "nat option"
  cx_host :: syntax_host

record parser_state =
  ps_countdown :: nat
  ps_cursor :: nat
  ps_tokens :: nat
  ps_owned_bytes :: nat
  ps_container_bytes :: nat
  ps_container_entries :: nat
  ps_max_depth :: nat
  ps_probes :: nat
  ps_requests :: nat

record syntax_stats =
  stat_input_bytes :: nat
  stat_tokens :: nat
  stat_owned_bytes :: nat
  stat_container_bytes :: nat
  stat_container_entries :: nat
  stat_max_depth :: nat

abbreviation cx_bytes :: "syntax_context \<Rightarrow> u8 list" where
  "cx_bytes cx \<equiv> in_bytes (cx_input cx)"

abbreviation cx_extent :: "syntax_context \<Rightarrow> input_extent" where
  "cx_extent cx \<equiv> in_extent (cx_input cx)"

definition parser_stats :: "syntax_context \<Rightarrow> parser_state \<Rightarrow> syntax_stats" where
  "parser_stats cx s = \<lparr>stat_input_bytes = length (cx_bytes cx), stat_tokens = ps_tokens s,
     stat_owned_bytes = ps_owned_bytes s, stat_container_bytes = ps_container_bytes s,
     stat_container_entries = ps_container_entries s, stat_max_depth = ps_max_depth s\<rparr>"

definition probe_interval :: nat where "probe_interval = 256"

definition new_internal ::
  "syntax_input \<Rightarrow> syntax_limits \<Rightarrow> syntax_host \<Rightarrow> nat option \<Rightarrow> syntax_error + (syntax_context \<times> parser_state)" where
  "new_internal inp limits host max_retained =
     (let input_len = length (in_bytes inp) in
      if input_len > syn_max_input_bytes limits
      then Inl (syntax_error_resource LimInputBytes (syn_max_input_bytes limits) 0 input_len (Some (in_base inp)))
      else Inr (\<lparr>cx_input = inp, cx_limits = limits, cx_max_retained = max_retained, cx_host = host\<rparr>,
                \<lparr>ps_countdown = probe_interval, ps_cursor = 0, ps_tokens = 0, ps_owned_bytes = 0,
                 ps_container_bytes = 0, ps_container_entries = 0, ps_max_depth = 0, ps_probes = 0, ps_requests = 0\<rparr>))"

text \<open>Failures of a step. \<open>PPanic\<close> stands for an index out of bounds or a failed expectation of the code, and
  \<open>POutOfFuel\<close> for a recursion of the model that was given too few steps; neither ever happens.\<close>

datatype parse_failure =
  PEnd
| PIncomplete syntax_error_code nat
| PFailed syntax_error
| PPanic
| POutOfFuel

type_synonym 'a parse = "parser_state \<Rightarrow> (parse_failure + 'a) \<times> parser_state"

definition p_return :: "'a \<Rightarrow> 'a parse" where
  "p_return x s = (Inr x, s)"

definition p_fail :: "parse_failure \<Rightarrow> 'a parse" where
  "p_fail f s = (Inl f, s)"

definition p_bind :: "'a parse \<Rightarrow> ('a \<Rightarrow> 'b parse) \<Rightarrow> 'b parse" where
  "p_bind m k s = (case m s of (Inl f, s') \<Rightarrow> (Inl f, s') | (Inr x, s') \<Rightarrow> k x s')"

definition p_gets :: "(parser_state \<Rightarrow> 'a) \<Rightarrow> 'a parse" where
  "p_gets f s = (Inr (f s), s)"

definition p_modify :: "(parser_state \<Rightarrow> parser_state) \<Rightarrow> unit parse" where
  "p_modify f s = (Inr (), f s)"

definition p_result :: "syntax_error + 'a \<Rightarrow> 'a parse" where
  "p_result r = (case r of Inl e \<Rightarrow> p_fail (PFailed e) | Inr x \<Rightarrow> p_return x)"

lemma p_bind_cong [fundef_cong]:
  "m = m' \<Longrightarrow> (\<And>x s s'. m' s = (Inr x, s') \<Longrightarrow> k x = k' x) \<Longrightarrow> p_bind m k = p_bind m' k'"
  by (rule ext) (auto simp: p_bind_def split: prod.splits sum.splits)

lemma p_bind_simps [simp]:
  "p_bind (p_return x) k = k x" "p_bind (p_fail f) k = p_fail f"
  by (auto simp: p_bind_def p_return_def p_fail_def fun_eq_iff)

lemma p_bind_Inr: "p_bind m k s = (Inr y, s'') \<longleftrightarrow> (\<exists>x s'. m s = (Inr x, s') \<and> k x s' = (Inr y, s''))"
  by (auto simp: p_bind_def split: prod.splits sum.splits)

lemma p_return_Inr [simp]: "p_return x s = (Inr y, s') \<longleftrightarrow> y = x \<and> s' = s"
  by (auto simp: p_return_def)

lemma p_fail_Inr [simp]: "p_fail f s = (Inr y, s') \<longleftrightarrow> False"
  by (simp add: p_fail_def)

definition absolute :: "syntax_context \<Rightarrow> nat \<Rightarrow> nat" where
  "absolute cx index = in_base (cx_input cx) + index"

definition parser_position :: "syntax_context \<Rightarrow> parser_state \<Rightarrow> nat" where
  "parser_position cx s = absolute cx (ps_cursor s)"

definition parser_remaining :: "syntax_context \<Rightarrow> parser_state \<Rightarrow> nat" where
  "parser_remaining cx s = length (cx_bytes cx) - ps_cursor s"

abbreviation p_error :: "syntax_error_code \<Rightarrow> nat \<Rightarrow> 'a parse" where
  "p_error code offset \<equiv> p_fail (PFailed (syntax_error_for_code code (Some offset)))"

abbreviation p_resource :: "syntax_limit_kind \<Rightarrow> nat \<Rightarrow> nat \<Rightarrow> nat \<Rightarrow> nat \<Rightarrow> 'a parse" where
  "p_resource kind limit consumed attempted offset \<equiv>
     p_fail (PFailed (syntax_error_resource kind limit consumed attempted (Some offset)))"

section \<open>Cancellation, limits and allocation\<close>

definition check_cancelled :: "syntax_context \<Rightarrow> nat \<Rightarrow> unit parse" where
  "check_cancelled cx offset =
     p_bind (p_gets ps_probes) (\<lambda>probe.
     p_bind (p_modify (\<lambda>s. s\<lparr>ps_probes := probe + 1\<rparr>)) (\<lambda>_.
       if sy_cancelled (cx_host cx) probe then p_error XCancelled offset else p_return ()))"

definition probe_iteration :: "syntax_context \<Rightarrow> nat \<Rightarrow> unit parse" where
  "probe_iteration cx offset =
     p_bind (p_gets ps_countdown) (\<lambda>countdown.
       if countdown > 1 then p_modify (\<lambda>s. s\<lparr>ps_countdown := countdown - 1\<rparr>)
       else p_bind (p_modify (\<lambda>s. s\<lparr>ps_countdown := probe_interval\<rparr>)) (\<lambda>_. check_cancelled cx offset))"

definition begin_operation :: "syntax_context \<Rightarrow> unit parse" where
  "begin_operation cx =
     p_bind (p_modify (\<lambda>s. s\<lparr>ps_countdown := probe_interval\<rparr>)) (\<lambda>_.
     p_bind (p_gets (parser_position cx)) (check_cancelled cx))"

definition check_single_limit :: "syntax_limit_kind \<Rightarrow> nat \<Rightarrow> nat \<Rightarrow> nat \<Rightarrow> unit parse" where
  "check_single_limit kind limit attempted offset =
     (if attempted > limit then p_resource kind limit 0 attempted offset else p_return ())"

definition charge_total :: "syntax_limit_kind \<Rightarrow> nat \<Rightarrow> nat \<Rightarrow> nat \<Rightarrow> nat \<Rightarrow> unit parse" where
  "charge_total kind limit consumed attempted offset =
     (if (case checked_add consumed attempted of None \<Rightarrow> True | Some t \<Rightarrow> t > limit)
      then p_resource kind limit consumed attempted offset else p_return ())"

definition charge_retained :: "syntax_context \<Rightarrow> nat \<Rightarrow> nat \<Rightarrow> unit parse" where
  "charge_retained cx attempted offset =
     (case cx_max_retained cx of
        None \<Rightarrow> p_return ()
      | Some limit \<Rightarrow>
        p_bind (p_gets (\<lambda>s. checked_add (ps_owned_bytes s) (ps_container_bytes s))) (\<lambda>consumed.
          case consumed of
            None \<Rightarrow> p_error XInternalState offset
          | Some consumed \<Rightarrow> charge_total LimRetainedBytes limit consumed attempted offset))"

definition check_token_len :: "syntax_context \<Rightarrow> nat \<Rightarrow> nat \<Rightarrow> unit parse" where
  "check_token_len cx start stop =
     check_single_limit LimTokenBytes (syn_max_token_bytes (cx_limits cx)) (stop - start) (absolute cx start)"

definition check_string_source :: "syntax_context \<Rightarrow> nat \<Rightarrow> nat \<Rightarrow> unit parse" where
  "check_string_source cx start stop =
     p_bind (check_token_len cx start stop) (\<lambda>_.
       check_single_limit LimStringSourceBytes (syn_max_string_source_bytes (cx_limits cx)) (stop - start)
         (absolute cx start))"

definition charge_token :: "syntax_context \<Rightarrow> nat \<Rightarrow> unit parse" where
  "charge_token cx offset =
     p_bind (p_gets ps_tokens) (\<lambda>tokens.
     p_bind (charge_total LimTokens (syn_max_total_tokens (cx_limits cx)) tokens 1 offset) (\<lambda>_.
       p_modify (\<lambda>s. s\<lparr>ps_tokens := tokens + 1\<rparr>)))"

definition charge_container_entry :: "syntax_context \<Rightarrow> nat \<Rightarrow> unit parse" where
  "charge_container_entry cx offset =
     p_bind (p_gets ps_container_entries) (\<lambda>entries.
     p_bind (charge_total LimContainerEntries (syn_max_container_entries (cx_limits cx)) entries 1 offset) (\<lambda>_.
       p_modify (\<lambda>s. s\<lparr>ps_container_entries := entries + 1\<rparr>)))"

definition enter_container :: "syntax_context \<Rightarrow> nat \<Rightarrow> nat \<Rightarrow> nat parse" where
  "enter_container cx parent_depth offset =
     (let limit = syn_max_container_depth (cx_limits cx) in
      if parent_depth + 1 > 65535 then p_resource LimContainerDepth limit parent_depth 1 offset
      else let depth = parent_depth + 1 in
        if depth > limit then p_resource LimContainerDepth limit parent_depth 1 offset
        else p_bind (p_modify (\<lambda>s. s\<lparr>ps_max_depth := max (ps_max_depth s) depth\<rparr>)) (\<lambda>_. p_return depth))"

text \<open>A request to the allocator; a request for nothing is always granted.\<close>

definition p_alloc :: "syntax_context \<Rightarrow> nat \<Rightarrow> nat option parse" where
  "p_alloc cx n =
     (if n = 0 then p_return (Some 0)
      else p_bind (p_gets ps_requests) (\<lambda>k.
        p_bind (p_modify (\<lambda>s. s\<lparr>ps_requests := k + 1\<rparr>)) (\<lambda>_. p_return (sy_alloc (cx_host cx) k n))))"

definition p_some :: "'a option \<Rightarrow> syntax_error_code \<Rightarrow> nat \<Rightarrow> 'a parse" where
  "p_some x code offset = (case x of None \<Rightarrow> p_error code offset | Some y \<Rightarrow> p_return y)"

definition grow_container :: "syntax_context \<Rightarrow> nat \<Rightarrow> nat \<Rightarrow> nat \<Rightarrow> nat parse" where
  "grow_container cx element_size capacity_before offset =
     (let limit = syn_max_container_bytes (cx_limits cx) in
      p_bind (if capacity_before = 0 then p_return 4
              else p_some (checked_mul capacity_before 2) XInternalState offset) (\<lambda>target_capacity.
      p_bind (p_some (checked_sub target_capacity capacity_before) XInternalState offset) (\<lambda>requested_capacity.
      p_bind (p_some (checked_mul requested_capacity element_size) XInternalState offset) (\<lambda>requested_bytes.
      p_bind (p_gets ps_container_bytes) (\<lambda>consumed.
      p_bind (charge_total LimContainerBytes limit consumed requested_bytes offset) (\<lambda>_.
      p_bind (charge_retained cx requested_bytes offset) (\<lambda>_.
      p_bind (p_alloc cx target_capacity) (\<lambda>granted.
        case granted of
          None \<Rightarrow> p_bind (p_gets ps_container_entries) (\<lambda>entries.
            p_resource LimAllocation (syn_max_container_entries (cx_limits cx)) entries requested_bytes offset)
        | Some capacity_after \<Rightarrow> p_return capacity_after))))))))"

definition reserve_container_entry :: "syntax_context \<Rightarrow> nat \<Rightarrow> nat \<Rightarrow> nat \<Rightarrow> nat \<Rightarrow> nat parse" where
  "reserve_container_entry cx element_size len capacity_before offset =
     (let limit = syn_max_container_bytes (cx_limits cx) in
      p_bind (if len = capacity_before then grow_container cx element_size capacity_before offset
              else p_return capacity_before) (\<lambda>capacity_after.
      p_bind (p_some (checked_sub capacity_after capacity_before) XInternalState offset) (\<lambda>added_capacity.
      p_bind (p_some (checked_mul added_capacity element_size) XInternalState offset) (\<lambda>added_bytes.
      p_bind (p_gets ps_container_bytes) (\<lambda>consumed.
      p_bind (p_some (checked_add consumed added_bytes) XInternalState offset) (\<lambda>total_container_bytes.
      p_bind (charge_retained cx added_bytes offset) (\<lambda>_.
      p_bind (p_modify (\<lambda>s. s\<lparr>ps_container_bytes := total_container_bytes\<rparr>)) (\<lambda>_.
        if total_container_bytes > limit
        then p_resource LimContainerBytes limit (saturating_sub total_container_bytes added_bytes) added_bytes offset
        else p_return capacity_after))))))))"

text \<open>Storage for the bytes of one scalar: what is returned is the accounting; the bytes follow.\<close>

definition allocate_owned :: "syntax_context \<Rightarrow> nat \<Rightarrow> nat \<Rightarrow> unit parse" where
  "allocate_owned cx len offset =
     (let limit = syn_max_owned_bytes (cx_limits cx) in
      p_bind (p_gets ps_owned_bytes) (\<lambda>owned.
      p_bind (charge_total LimOwnedBytes limit owned len offset) (\<lambda>_.
      p_bind (charge_retained cx len offset) (\<lambda>_.
      p_bind (p_alloc cx len) (\<lambda>granted.
        case granted of
          None \<Rightarrow> p_resource LimAllocation limit owned len offset
        | Some capacity \<Rightarrow>
          p_bind (charge_total LimOwnedBytes limit owned capacity offset) (\<lambda>_.
          p_bind (charge_retained cx capacity offset) (\<lambda>_.
          p_bind (p_some (checked_add owned capacity) XInternalState offset) (\<lambda>total_owned.
            p_modify (\<lambda>s. s\<lparr>ps_owned_bytes := total_owned\<rparr>)))))))))"

definition copy_owned :: "syntax_context \<Rightarrow> u8 list \<Rightarrow> nat \<Rightarrow> u8 list parse" where
  "copy_owned cx source offset = p_bind (allocate_owned cx (length source) offset) (\<lambda>_. p_return source)"

section \<open>Bytes\<close>

definition is_whitespace :: "u8 \<Rightarrow> bool" where
  "is_whitespace b \<longleftrightarrow> b = 0 \<or> b = 9 \<or> b = 10 \<or> b = 12 \<or> b = 13 \<or> b = 32"

text \<open>Whitespace and \<open>( ) < > [ ] { } / %\<close>.\<close>

definition is_delimiter :: "u8 \<Rightarrow> bool" where
  "is_delimiter b \<longleftrightarrow> is_whitespace b \<or> b = 40 \<or> b = 41 \<or> b = 60 \<or> b = 62 \<or> b = 91 \<or> b = 93 \<or> b = 123 \<or>
     b = 125 \<or> b = 47 \<or> b = 37"

definition is_ascii_digit :: "u8 \<Rightarrow> bool" where
  "is_ascii_digit b \<longleftrightarrow> 48 \<le> b \<and> b \<le> 57"

definition is_octal_digit :: "u8 \<Rightarrow> bool" where
  "is_octal_digit b \<longleftrightarrow> 48 \<le> b \<and> b \<le> 55"

text \<open>Digits and \<open>+ - .\<close>\<close>

definition is_number_start :: "u8 \<Rightarrow> bool" where
  "is_number_start b \<longleftrightarrow> is_ascii_digit b \<or> b = 43 \<or> b = 45 \<or> b = 46"

definition hex_value :: "u8 \<Rightarrow> u8 option" where
  "hex_value b =
     (if 48 \<le> b \<and> b \<le> 57 then Some (b - 48)
      else if 97 \<le> b \<and> b \<le> 102 then Some (b - 97 + 10)
      else if 65 \<le> b \<and> b \<le> 70 then Some (b - 65 + 10)
      else None)"

end
