(* ===== verification/Syn_Lex.thy ===== *)
theory Syn_Lex
  imports Syn_Input
begin

text \<open>
  The lexer (\<open>skip_trivia\<close>, \<open>next_token\<close> and the scanners of \<open>pdf-rs/syntax/src/parser.rs\<close>). A scanning loop
  recurses on the bytes of the window from its index on; an index out of bounds, a subtraction below zero
  and a failed expectation of the code are the failure \<open>PPanic\<close>.
\<close>

unbundle bit_operations_syntax

datatype token_kind =
  ArrayOpen | ArrayClose | DictionaryOpen | DictionaryClose
| IntegerTok int
| RealTok pdf_real
| NameTok pdf_name
| StringTok pdf_string
| KeywordTok "u8 list"

record token =
  tk_start :: nat
  tk_end :: nat
  tk_kind :: token_kind

definition make_token :: "syntax_context \<Rightarrow> nat \<Rightarrow> nat \<Rightarrow> token_kind \<Rightarrow> token" where
  "make_token cx start stop kind = \<lparr>tk_start = absolute cx start, tk_end = absolute cx stop, tk_kind = kind\<rparr>"

definition p_seek :: "nat \<Rightarrow> unit parse" where
  "p_seek index = p_modify (\<lambda>s. s\<lparr>ps_cursor := index\<rparr>)"

definition peek_byte :: "u8 list \<Rightarrow> nat \<Rightarrow> u8 option" where
  "peek_byte bytes index = (if index < length bytes then Some (bytes ! index) else None)"

definition window_bytes :: "syntax_context \<Rightarrow> nat \<Rightarrow> nat \<Rightarrow> u8 list" where
  "window_bytes cx start stop = take (stop - start) (drop start (cx_bytes cx))"

definition probe_position :: "syntax_context \<Rightarrow> unit parse" where
  "probe_position cx = p_bind (p_gets (parser_position cx)) (probe_iteration cx)"

text \<open>\<open>Incomplete\<close> where the window may continue; the code goes on otherwise.\<close>

definition need_byte :: "syntax_context \<Rightarrow> nat \<Rightarrow> syntax_error_code \<Rightarrow> unit parse" where
  "need_byte cx index code =
     (if index = length (cx_bytes cx) \<and> cx_extent cx = MayContinue
      then p_fail (PIncomplete code (absolute cx index)) else p_return ())"

section \<open>Whitespace and comments\<close>

text \<open>The two inner loops return the bytes that are left.\<close>

fun whitespace_run :: "syntax_context \<Rightarrow> u8 list \<Rightarrow> u8 list parse" where
  "whitespace_run cx [] = p_return []"
| "whitespace_run cx (b # rest) =
     (if is_whitespace b
      then p_bind (probe_position cx) (\<lambda>_.
           p_bind (p_modify (\<lambda>s. s\<lparr>ps_cursor := ps_cursor s + 1\<rparr>)) (\<lambda>_. whitespace_run cx rest))
      else p_return (b # rest))"

fun comment_run :: "syntax_context \<Rightarrow> nat \<Rightarrow> u8 list \<Rightarrow> u8 list parse" where
  "comment_run cx start [] = p_return []"
| "comment_run cx start (b # rest) =
     (if b = 13 \<or> b = 10 then p_return (b # rest)
      else p_bind (probe_position cx) (\<lambda>_.
           p_bind (p_modify (\<lambda>s. s\<lparr>ps_cursor := ps_cursor s + 1\<rparr>)) (\<lambda>_.
           p_bind (p_gets ps_cursor) (\<lambda>cursor.
           p_bind (check_single_limit LimCommentBytes (syn_max_comment_bytes (cx_limits cx)) (cursor - start)
             (absolute cx start)) (\<lambda>_.
             comment_run cx start rest)))))"

lemma whitespace_run_length: "whitespace_run cx rest s = (Inr rest', s') \<Longrightarrow> length rest' \<le> length rest"
proof (induction rest arbitrary: s)
  case (Cons b rest)
  then show ?case by (fastforce simp: p_bind_Inr split: if_splits)
qed simp

lemma comment_run_length: "comment_run cx start rest s = (Inr rest', s') \<Longrightarrow> length rest' \<le> length rest"
proof (induction rest arbitrary: s)
  case (Cons b rest)
  then show ?case by (fastforce simp: p_bind_Inr split: if_splits)
qed simp

function trivia_loop :: "syntax_context \<Rightarrow> u8 list \<Rightarrow> unit parse" where
  "trivia_loop cx rest =
     p_bind (probe_position cx) (\<lambda>_.
     p_bind (whitespace_run cx rest) (\<lambda>rest1.
       case rest1 of
         [] \<Rightarrow> p_return ()
       | b # rest2 \<Rightarrow>
         if b \<noteq> 37 then p_return ()
         else p_bind (p_gets ps_cursor) (\<lambda>start.
              p_bind (p_seek (start + 1)) (\<lambda>_.
              p_bind (comment_run cx start rest2) (\<lambda>rest3.
                if rest3 = []
                then if cx_extent cx = KnownSourceEnd then p_return ()
                     else p_bind (p_gets ps_cursor) (\<lambda>cursor.
                            p_fail (PIncomplete XUnexpectedEndOfInput (absolute cx cursor)))
                else trivia_loop cx rest3)))))"
  by pat_completeness auto

termination
  by (relation "measure (\<lambda>(cx, rest). length rest)")
    (auto dest!: whitespace_run_length comment_run_length)

declare trivia_loop.simps [simp del]

definition skip_trivia :: "syntax_context \<Rightarrow> unit parse" where
  "skip_trivia cx = p_bind (p_gets ps_cursor) (\<lambda>cursor. trivia_loop cx (drop cursor (cx_bytes cx)))"

section \<open>Numbers\<close>

fun digit_run :: "syntax_context \<Rightarrow> nat \<Rightarrow> u8 list \<Rightarrow> nat \<Rightarrow> nat parse" where
  "digit_run cx offset [] index = p_return index"
| "digit_run cx offset (b # rest) index =
     (if is_ascii_digit b
      then p_bind (probe_iteration cx offset) (\<lambda>_. digit_run cx offset rest (index + 1))
      else p_return index)"

definition shift_digit :: "nat \<Rightarrow> u8 \<Rightarrow> nat option" where
  "shift_digit magnitude b =
     (case checked_mul magnitude 10 of None \<Rightarrow> None | Some v \<Rightarrow> checked_add v (unat (b - 48)))"

fun magnitude_loop :: "syntax_context \<Rightarrow> nat \<Rightarrow> u8 list \<Rightarrow> nat \<Rightarrow> nat parse" where
  "magnitude_loop cx offset [] magnitude = p_return magnitude"
| "magnitude_loop cx offset (b # rest) magnitude =
     p_bind (probe_iteration cx offset) (\<lambda>_.
     p_bind (p_some (shift_digit magnitude b) XIntegerOutOfRange offset) (magnitude_loop cx offset rest))"

definition signed_value :: "bool \<Rightarrow> nat \<Rightarrow> int option" where
  "signed_value negative magnitude =
     (if negative
      then if magnitude = 2 ^ 63 then Some (- (2 ^ 63))
           else if magnitude < 2 ^ 63 then Some (- int magnitude) else None
      else if magnitude < 2 ^ 63 then Some (int magnitude) else None)"

text \<open>The exponent whose letter is at \<open>fraction_end\<close>.\<close>

definition exponent_run :: "syntax_context \<Rightarrow> u8 list \<Rightarrow> nat \<Rightarrow> nat \<Rightarrow> nat parse" where
  "exponent_run cx raw offset fraction_end =
     (let exponent_start =
        (if peek_byte raw (fraction_end + 1) = Some 43 \<or> peek_byte raw (fraction_end + 1) = Some 45
         then fraction_end + 2 else fraction_end + 1) in
      p_bind (digit_run cx offset (drop exponent_start raw) exponent_start) (\<lambda>exponent_end.
        if exponent_end = exponent_start then p_error XInvalidNumber offset else p_return exponent_end))"

text \<open>The token of a number whose fraction ends at \<open>fraction_end\<close>.\<close>

definition number_kind :: "syntax_context \<Rightarrow> u8 list \<Rightarrow> nat \<Rightarrow> bool \<Rightarrow> nat \<Rightarrow> bool \<Rightarrow> nat \<Rightarrow> token_kind parse" where
  "number_kind cx raw offset negative integer_start has_dot fraction_end =
     (let has_exponent = (peek_byte raw fraction_end = Some 101 \<or> peek_byte raw fraction_end = Some 69) in
      p_bind (if has_exponent then exponent_run cx raw offset fraction_end else p_return fraction_end) (\<lambda>index.
        if index \<noteq> length raw then p_error XInvalidNumber offset
        else if has_dot \<or> has_exponent
        then p_bind (copy_owned cx raw offset) (\<lambda>owned.
               p_return (RealTok \<lparr>real_raw = owned,
                 real_notation = (if has_exponent then ExponentNotation else DecimalNotation)\<rparr>))
        else p_bind (magnitude_loop cx offset (drop integer_start raw) 0) (\<lambda>magnitude.
             p_bind (p_some (signed_value negative magnitude) XIntegerOutOfRange offset) (\<lambda>v.
               p_return (IntegerTok v)))))"

definition parse_number :: "syntax_context \<Rightarrow> u8 list \<Rightarrow> nat \<Rightarrow> token_kind parse" where
  "parse_number cx raw offset =
     (let negative = (peek_byte raw 0 = Some 45);
          integer_start = (if peek_byte raw 0 = Some 45 \<or> peek_byte raw 0 = Some 43 then 1 else 0) in
      p_bind (digit_run cx offset (drop integer_start raw) integer_start) (\<lambda>integer_end.
      let has_dot = (peek_byte raw integer_end = Some 46) in
      p_bind (if has_dot then digit_run cx offset (drop (integer_end + 1) raw) (integer_end + 1)
              else p_return integer_end) (\<lambda>fraction_end.
        let integer_digits = integer_end - integer_start;
            fractional_digits = (if has_dot then fraction_end - (integer_end + 1) else 0) in
        if integer_digits = 0 \<and> fractional_digits = 0 then p_error XInvalidNumber offset
        else number_kind cx raw offset negative integer_start has_dot fraction_end)))"

section \<open>Regular tokens\<close>

fun regular_loop :: "syntax_context \<Rightarrow> nat \<Rightarrow> u8 list \<Rightarrow> nat \<Rightarrow> nat parse" where
  "regular_loop cx start [] index = p_return index"
| "regular_loop cx start (b # rest) index =
     (if is_delimiter b then p_return index
      else p_bind (probe_iteration cx (absolute cx index)) (\<lambda>_.
           p_bind (check_token_len cx start (index + 1)) (\<lambda>_. regular_loop cx start rest (index + 1))))"

definition scan_regular :: "syntax_context \<Rightarrow> nat \<Rightarrow> token parse" where
  "scan_regular cx start =
     p_bind (regular_loop cx start (drop start (cx_bytes cx)) start) (\<lambda>stop.
       if stop = start then p_error XUnexpectedByte (absolute cx start)
       else
         let raw = window_bytes cx start stop; numeric = is_number_start (raw ! 0) in
         p_bind (need_byte cx stop (if numeric then XInvalidNumber else XUnexpectedEndOfInput)) (\<lambda>_.
         p_bind (if numeric then parse_number cx raw (absolute cx start) else p_return (KeywordTok raw)) (\<lambda>kind.
         p_bind (p_seek stop) (\<lambda>_. p_return (make_token cx start stop kind)))))"

text \<open>The look-ahead for the generation of a reference: \<open>None\<close> when the bytes are not an integer.\<close>

fun probe_digits :: "syntax_context \<Rightarrow> nat \<Rightarrow> u8 list \<Rightarrow> nat \<Rightarrow> nat \<Rightarrow> bool \<Rightarrow> (nat \<times> nat \<times> bool) parse" where
  "probe_digits cx start [] index magnitude overflowed = p_return (index, magnitude, overflowed)"
| "probe_digits cx start (b # rest) index magnitude overflowed =
     (if is_ascii_digit b
      then p_bind (probe_iteration cx (absolute cx index)) (\<lambda>_.
           let shifted = shift_digit magnitude b in
           p_bind (check_token_len cx start (index + 1)) (\<lambda>_.
             probe_digits cx start rest (index + 1) (case shifted of None \<Rightarrow> magnitude | Some v \<Rightarrow> v)
               (overflowed \<or> shifted = None)))
      else p_return (index, magnitude, overflowed))"

definition probe_integer_token :: "syntax_context \<Rightarrow> int option parse" where
  "probe_integer_token cx =
     p_bind (p_gets ps_cursor) (\<lambda>start.
     let bytes = cx_bytes cx; first = peek_byte bytes start; negative = (first = Some 45);
         signed = (first = Some 45 \<or> first = Some 43) in
     if \<not> signed \<and> \<not> (case first of None \<Rightarrow> False | Some b \<Rightarrow> is_ascii_digit b) then p_return None
     else
       let index = (if signed then start + 1 else start) in
       p_bind (check_token_len cx start index) (\<lambda>_.
       p_bind (need_byte cx index XInvalidNumber) (\<lambda>_.
       case peek_byte bytes index of
         None \<Rightarrow> p_return None
       | Some b \<Rightarrow>
         if \<not> is_ascii_digit b then p_return None
         else p_bind (probe_digits cx start (drop index bytes) index 0 False) (\<lambda>(stop, magnitude, overflowed).
              p_bind (need_byte cx stop XInvalidNumber) (\<lambda>_.
                if (case peek_byte bytes stop of None \<Rightarrow> False | Some c \<Rightarrow> \<not> is_delimiter c) \<or> overflowed
                then p_return None
                else case signed_value negative magnitude of
                    None \<Rightarrow> p_return None
                  | Some v \<Rightarrow>
                    p_bind (charge_token cx (absolute cx start)) (\<lambda>_.
                    p_bind (p_seek stop) (\<lambda>_. p_return (Some v))))))))"

section \<open>Names\<close>

text \<open>The index after one byte or escape of a name, whose first byte is \<open>b\<close>.\<close>

definition name_step :: "syntax_context \<Rightarrow> u8 \<Rightarrow> u8 list \<Rightarrow> nat \<Rightarrow> nat parse" where
  "name_step cx b rest index =
     (if b = 35
      then case rest of
          high # low # _ \<Rightarrow>
            if hex_value high = None \<or> hex_value low = None then p_error XInvalidNameEscape (absolute cx index)
            else p_return (index + 3)
        | _ \<Rightarrow>
            if cx_extent cx = MayContinue then p_fail (PIncomplete XInvalidNameEscape (absolute cx index))
            else p_error XInvalidNameEscape (absolute cx index)
      else p_return (index + 1))"

fun name_loop :: "syntax_context \<Rightarrow> nat \<Rightarrow> u8 list \<Rightarrow> nat \<Rightarrow> nat \<Rightarrow> (nat \<times> nat) parse" where
  "name_loop cx start [] index decoded_len = p_return (index, decoded_len)"
| "name_loop cx start (b # rest) index decoded_len =
     (if is_delimiter b then p_return (index, decoded_len)
      else p_bind (probe_iteration cx (absolute cx index)) (\<lambda>_.
           p_bind (name_step cx b rest index) (\<lambda>index'.
           p_bind (check_token_len cx start index') (\<lambda>_.
           p_bind (check_single_limit LimNameBytes (syn_max_name_bytes (cx_limits cx)) (decoded_len + 1)
             (absolute cx start)) (\<lambda>_.
             name_loop cx start (drop (index' - Suc index) rest) index' (decoded_len + 1))))))"

definition hex_pair :: "u8 \<Rightarrow> u8 \<Rightarrow> u8" where
  "hex_pair high low = push_bit 4 high OR low"

fun name_decode :: "syntax_context \<Rightarrow> u8 list \<Rightarrow> nat \<Rightarrow> nat \<Rightarrow> u8 list \<Rightarrow> u8 list parse" where
  "name_decode cx [] source stop decoded = (if source < stop then p_fail PPanic else p_return decoded)"
| "name_decode cx (b # rest) source stop decoded =
     (if source < stop
      then p_bind (probe_iteration cx (absolute cx source)) (\<lambda>_.
        if b = 35
        then case rest of
            h # l # rest2 \<Rightarrow>
              (case (hex_value h, hex_value l) of
                 (Some high, Some low) \<Rightarrow> name_decode cx rest2 (source + 3) stop (decoded @ [hex_pair high low])
               | _ \<Rightarrow> p_fail PPanic)
          | _ \<Rightarrow> p_fail PPanic
        else name_decode cx rest (source + 1) stop (decoded @ [b]))
      else p_return decoded)"

definition name_of_bytes :: "u8 list \<Rightarrow> pdf_name" where
  "name_of_bytes bytes = map (\<lambda>b. char_of (unat b)) bytes"

definition scan_name :: "syntax_context \<Rightarrow> nat \<Rightarrow> token parse" where
  "scan_name cx start =
     p_bind (name_loop cx start (drop (start + 1) (cx_bytes cx)) (start + 1) 0) (\<lambda>(index, decoded_len).
     p_bind (need_byte cx index XUnexpectedEndOfInput) (\<lambda>_.
     p_bind (check_token_len cx start index) (\<lambda>_.
     p_bind (allocate_owned cx decoded_len (absolute cx start)) (\<lambda>_.
     p_bind (name_decode cx (drop (start + 1) (cx_bytes cx)) (start + 1) index []) (\<lambda>decoded.
     p_bind (p_seek index) (\<lambda>_.
       p_return (make_token cx start index (NameTok (name_of_bytes decoded)))))))))"

section \<open>Literal strings\<close>

text \<open>How many octal digits follow, at most \<open>n\<close>.\<close>

fun octal_run :: "nat \<Rightarrow> u8 list \<Rightarrow> nat" where
  "octal_run 0 bytes = 0"
| "octal_run (Suc n) bytes =
     (case bytes of [] \<Rightarrow> 0 | b # rest \<Rightarrow> if is_octal_digit b then Suc (octal_run n rest) else 0)"

definition starts_newline :: "u8 list \<Rightarrow> bool" where
  "starts_newline bytes = (peek_byte bytes 0 = Some 10)"

text \<open>The escape whose byte after the backslash is \<open>e\<close>, at \<open>index\<close>: the index after it and the number of
  decoded bytes.\<close>

definition literal_escape :: "syntax_context \<Rightarrow> nat \<Rightarrow> u8 \<Rightarrow> u8 list \<Rightarrow> nat \<Rightarrow> (nat \<times> nat) parse" where
  "literal_escape cx start e rest index =
     (if e = 13
      then if starts_newline rest
           then p_bind (check_string_source cx start (index + 2)) (\<lambda>_. p_return (index + 2, 0))
           else p_return (index + 1, 0)
      else if e = 10 then p_return (index + 1, 0)
      else if is_octal_digit e then p_return (index + 1 + octal_run 2 rest, 1)
      else p_return (index + 1, 1))"

text \<open>One turn of the first pass on the byte \<open>b\<close> at \<open>index\<close>: whether the string ends, the index, the
  nesting and the number of decoded bytes after it.\<close>

definition literal_step ::
  "syntax_context \<Rightarrow> nat \<Rightarrow> u8 \<Rightarrow> u8 list \<Rightarrow> nat \<Rightarrow> nat \<Rightarrow> nat \<Rightarrow> (bool \<times> nat \<times> nat \<times> nat) parse" where
  "literal_step cx start b rest index nesting decoded_len =
     (let limit = syn_max_container_depth (cx_limits cx) in
      if b = 40
      then if nesting + 1 > 65535 then p_resource LimContainerDepth limit nesting 1 (absolute cx index)
           else if nesting + 1 > limit then p_resource LimContainerDepth limit nesting 1 (absolute cx index)
           else p_return (False, index + 1, nesting + 1, decoded_len + 1)
      else if b = 41
      then if nesting = 0 then p_fail PPanic
           else if nesting = 1 then p_return (True, index + 1, 0, decoded_len)
           else p_return (False, index + 1, nesting - 1, decoded_len + 1)
      else if b = 92
      then case rest of
          [] \<Rightarrow> p_fail (PIncomplete XUnterminatedLiteralString (absolute cx (index + 1)))
        | e # rest2 \<Rightarrow>
          p_bind (check_string_source cx start (index + 2)) (\<lambda>_.
          p_bind (literal_escape cx start e rest2 (index + 1)) (\<lambda>(index', added).
          p_bind (check_string_source cx start index') (\<lambda>_.
            p_return (False, index', nesting, decoded_len + added))))
      else if b = 13
      then p_return (False, if starts_newline rest then index + 2 else index + 1, nesting, decoded_len + 1)
      else p_return (False, index + 1, nesting, decoded_len + 1))"

fun literal_loop :: "syntax_context \<Rightarrow> nat \<Rightarrow> u8 list \<Rightarrow> nat \<Rightarrow> nat \<Rightarrow> nat \<Rightarrow> (nat \<times> nat) parse" where
  "literal_loop cx start [] index nesting decoded_len =
     p_bind (probe_iteration cx (absolute cx index)) (\<lambda>_.
       p_fail (PIncomplete XUnterminatedLiteralString (absolute cx index)))"
| "literal_loop cx start (b # rest) index nesting decoded_len =
     p_bind (probe_iteration cx (absolute cx index)) (\<lambda>_.
     p_bind (check_string_source cx start (index + 1)) (\<lambda>_.
     p_bind (literal_step cx start b rest index nesting decoded_len) (\<lambda>(finished, index', nesting', decoded_len').
       if finished then p_return (index', decoded_len')
       else p_bind (check_single_limit LimStringDecodedBytes (syn_max_string_decoded_bytes (cx_limits cx)) decoded_len'
              (absolute cx start)) (\<lambda>_.
              literal_loop cx start (drop (index' - Suc index) rest) index' nesting' decoded_len'))))"

fun octal_value :: "nat \<Rightarrow> u8 list \<Rightarrow> 16 word \<Rightarrow> 16 word" where
  "octal_value 0 bytes v = v"
| "octal_value (Suc n) bytes v =
     (case bytes of
        [] \<Rightarrow> v
      | b # rest \<Rightarrow> if is_octal_digit b then octal_value n rest (push_bit 3 v OR ucast (b - 48)) else v)"

definition escape_byte :: "u8 \<Rightarrow> u8" where
  "escape_byte e = (if e = 110 then 10 else if e = 114 then 13 else if e = 116 then 9 else if e = 98 then 8
     else if e = 102 then 12 else e)"

text \<open>One turn of the second pass on the byte \<open>b\<close>: whether it stops, how many bytes it consumes, the depth
  and the decoded bytes.\<close>

definition literal_decode_step ::
  "u8 \<Rightarrow> u8 list \<Rightarrow> nat \<Rightarrow> (bool \<times> nat \<times> nat \<times> u8 list) option" where
  "literal_decode_step b rest depth =
     (if b = 40 then if depth + 1 > 65535 then None else Some (False, 1, depth + 1, [40])
      else if b = 41
      then if depth = 0 then None
           else if depth = 1 then Some (True, 1, 0, []) else Some (False, 1, depth - 1, [41])
      else if b = 92
      then case rest of
          [] \<Rightarrow> None
        | e # rest2 \<Rightarrow>
          Some (if e = 13 then (False, if starts_newline rest2 then 3 else 2, depth, [])
                else if e = 10 then (False, 2, depth, [])
                else if is_octal_digit e
                then (False, 1 + octal_run 3 rest, depth, [ucast (octal_value 3 rest 0 AND 0xff)])
                else (False, 2, depth, [escape_byte e]))
      else if b = 13 then Some (False, if starts_newline rest then 2 else 1, depth, [10])
      else Some (False, 1, depth, [b]))"

fun literal_decode :: "syntax_context \<Rightarrow> u8 list \<Rightarrow> nat \<Rightarrow> nat \<Rightarrow> nat \<Rightarrow> u8 list \<Rightarrow> u8 list parse" where
  "literal_decode cx [] source stop depth decoded = (if source < stop then p_fail PPanic else p_return decoded)"
| "literal_decode cx (b # rest) source stop depth decoded =
     (if source < stop
      then p_bind (probe_iteration cx (absolute cx source)) (\<lambda>_.
        case literal_decode_step b rest depth of
          None \<Rightarrow> p_fail PPanic
        | Some (finished, used, depth', added) \<Rightarrow>
          if finished then p_return decoded
          else literal_decode cx (drop (used - 1) rest) (source + used) stop depth' (decoded @ added))
      else p_return decoded)"

definition scan_literal_string :: "syntax_context \<Rightarrow> nat \<Rightarrow> token parse" where
  "scan_literal_string cx start =
     p_bind (literal_loop cx start (drop (start + 1) (cx_bytes cx)) (start + 1) 1 0) (\<lambda>(stop, decoded_len).
     p_bind (check_single_limit LimStringDecodedBytes (syn_max_string_decoded_bytes (cx_limits cx)) decoded_len
       (absolute cx start)) (\<lambda>_.
     p_bind (allocate_owned cx decoded_len (absolute cx start)) (\<lambda>_.
     p_bind (literal_decode cx (drop (start + 1) (cx_bytes cx)) (start + 1) stop 1 []) (\<lambda>decoded.
     p_bind (p_seek stop) (\<lambda>_.
       p_return (make_token cx start stop
         (StringTok \<lparr>string_bytes = decoded, string_kind = LiteralString\<rparr>)))))))"

section \<open>Hexadecimal strings\<close>

fun hex_scan_loop :: "syntax_context \<Rightarrow> nat \<Rightarrow> u8 list \<Rightarrow> nat \<Rightarrow> nat \<Rightarrow> (nat \<times> nat) parse" where
  "hex_scan_loop cx start [] index nibbles =
     p_bind (probe_iteration cx (absolute cx index)) (\<lambda>_.
       p_fail (PIncomplete XInvalidHexString (absolute cx index)))"
| "hex_scan_loop cx start (b # rest) index nibbles =
     p_bind (probe_iteration cx (absolute cx index)) (\<lambda>_.
     p_bind (check_string_source cx start (index + 1)) (\<lambda>_.
       if b = 62 then p_return (index + 1, nibbles)
       else if is_whitespace b then hex_scan_loop cx start rest (index + 1) nibbles
       else if hex_value b = None then p_error XInvalidHexString (absolute cx index)
       else hex_scan_loop cx start rest (index + 1) (nibbles + 1)))"

fun hex_decode :: "syntax_context \<Rightarrow> u8 list \<Rightarrow> nat \<Rightarrow> nat \<Rightarrow> u8 option \<Rightarrow> u8 list \<Rightarrow> u8 list parse" where
  "hex_decode cx [] source stop high decoded =
     (if source < stop then p_fail PPanic
      else p_return (case high of None \<Rightarrow> decoded | Some h \<Rightarrow> decoded @ [push_bit 4 h]))"
| "hex_decode cx (b # rest) source stop high decoded =
     (if source < stop
      then p_bind (probe_iteration cx (absolute cx source)) (\<lambda>_.
        if is_whitespace b then hex_decode cx rest (source + 1) stop high decoded
        else case hex_value b of
            None \<Rightarrow> p_fail PPanic
          | Some nibble \<Rightarrow>
            (case high of
               Some h \<Rightarrow> hex_decode cx rest (source + 1) stop None (decoded @ [hex_pair h nibble])
             | None \<Rightarrow> hex_decode cx rest (source + 1) stop (Some nibble) decoded))
      else p_return (case high of None \<Rightarrow> decoded | Some h \<Rightarrow> decoded @ [push_bit 4 h]))"

definition scan_hex_string :: "syntax_context \<Rightarrow> nat \<Rightarrow> token parse" where
  "scan_hex_string cx start =
     p_bind (hex_scan_loop cx start (drop (start + 1) (cx_bytes cx)) (start + 1) 0) (\<lambda>(stop, nibbles).
     let decoded_len = (nibbles + 1) div 2 in
     p_bind (check_single_limit LimStringDecodedBytes (syn_max_string_decoded_bytes (cx_limits cx)) decoded_len
       (absolute cx start)) (\<lambda>_.
     p_bind (allocate_owned cx decoded_len (absolute cx start)) (\<lambda>_.
     p_bind (hex_decode cx (drop (start + 1) (cx_bytes cx)) (start + 1) (stop - 1) None []) (\<lambda>decoded.
     p_bind (p_seek stop) (\<lambda>_.
       p_return (make_token cx start stop
         (StringTok \<lparr>string_bytes = decoded, string_kind = HexadecimalString\<rparr>)))))))"

section \<open>Tokens\<close>

definition fixed_token :: "syntax_context \<Rightarrow> nat \<Rightarrow> nat \<Rightarrow> token_kind \<Rightarrow> token parse" where
  "fixed_token cx start len kind =
     p_bind (check_token_len cx start (start + len)) (\<lambda>_.
     p_bind (p_seek (start + len)) (\<lambda>_. p_return (make_token cx start (start + len) kind)))"

definition token_at :: "syntax_context \<Rightarrow> nat \<Rightarrow> token parse" where
  "token_at cx start =
     (case peek_byte (cx_bytes cx) start of
        None \<Rightarrow> p_fail PPanic
      | Some b \<Rightarrow>
        if b = 91 then fixed_token cx start 1 ArrayOpen
        else if b = 93 then fixed_token cx start 1 ArrayClose
        else if b = 40 then scan_literal_string cx start
        else if b = 47 then scan_name cx start
        else if b = 60
        then p_bind (need_byte cx (start + 1) XInvalidHexString) (\<lambda>_.
               if peek_byte (cx_bytes cx) (start + 1) = Some 60 then fixed_token cx start 2 DictionaryOpen
               else scan_hex_string cx start)
        else if b = 62
        then p_bind (need_byte cx (start + 1) XUnexpectedByte) (\<lambda>_.
               if peek_byte (cx_bytes cx) (start + 1) = Some 62 then fixed_token cx start 2 DictionaryClose
               else p_error XUnexpectedByte (absolute cx start))
        else if b = 41 \<or> b = 123 \<or> b = 125 then p_error XUnexpectedByte (absolute cx start)
        else scan_regular cx start)"

definition next_token :: "syntax_context \<Rightarrow> token parse" where
  "next_token cx =
     p_bind (skip_trivia cx) (\<lambda>_.
     p_bind (p_gets ps_cursor) (\<lambda>start.
       if start = length (cx_bytes cx) then p_fail PEnd
       else p_bind (charge_token cx (absolute cx start)) (\<lambda>_. token_at cx start)))"

definition next_required_token :: "syntax_context \<Rightarrow> syntax_error_code \<Rightarrow> token parse" where
  "next_required_token cx final_code s =
     (case next_token cx s of
        (Inl PEnd, s') \<Rightarrow> (Inl (PIncomplete final_code (absolute cx (length (cx_bytes cx)))), s')
      | result \<Rightarrow> result)"

end
