(* ===== verification/Syn_Parser.thy ===== *)
theory Syn_Parser
  imports Syn_Lex
begin

text \<open>
  The object parser and the public operations (\<open>pdf-rs/syntax/src/parser.rs\<close>). Objects nest, so the recursion
  has fuel; \<open>object_fuel\<close> steps are enough, because every turn of a container and every nested object
  consumes a byte of the window. A call answers with \<open>None\<close> where the code would panic or the fuel run out.
\<close>

section \<open>Objects\<close>

definition located_object :: "syntax_context \<Rightarrow> nat \<Rightarrow> nat \<Rightarrow> 'a \<Rightarrow> 'a located parse" where
  "located_object cx start stop v =
     p_bind (p_result (from_bounds start stop)) (\<lambda>span. p_return (Located (in_source (cx_input cx)) span v))"

text \<open>The byte at the cursor, which is not at the end of the window.\<close>

definition byte_at_cursor :: "syntax_context \<Rightarrow> u8 parse" where
  "byte_at_cursor cx =
     p_bind (p_gets (\<lambda>s. peek_byte (cx_bytes cx) (ps_cursor s))) (\<lambda>b.
       case b of None \<Rightarrow> p_fail PPanic | Some b \<Rightarrow> p_return b)"

definition checked_reference :: "int \<Rightarrow> int \<Rightarrow> object_ref option" where
  "checked_reference number generation =
     (if 0 < number \<and> number < 2 ^ 32 \<and> 0 \<le> generation \<and> generation < 2 ^ 16
      then Some \<lparr>ref_number = nat number, ref_generation = nat generation\<rparr> else None)"

text \<open>Back to the checkpoint: the number stands alone.\<close>

definition plain_integer :: "syntax_context \<Rightarrow> token \<Rightarrow> int \<Rightarrow> nat \<Rightarrow> syntax_object located parse" where
  "plain_integer cx first first_value checkpoint =
     p_bind (p_seek checkpoint) (\<lambda>_. located_object cx (tk_start first) (tk_end first) (SynInteger first_value))"

definition finish_reference :: "syntax_context \<Rightarrow> token \<Rightarrow> int \<Rightarrow> int \<Rightarrow> syntax_object located parse" where
  "finish_reference cx first first_value second_value =
     p_bind (next_token cx) (\<lambda>third.
       if tk_kind third \<noteq> KeywordTok [82] then p_error XInternalState (tk_start third)
       else p_bind (p_some (checked_reference first_value second_value) XInvalidReference (tk_start first)) (\<lambda>r.
              located_object cx (tk_start first) (tk_end third) (SynReference r)))"

text \<open>After two integers: the cursor is behind the second one.\<close>

definition reference_keyword ::
  "syntax_context \<Rightarrow> token \<Rightarrow> int \<Rightarrow> int \<Rightarrow> nat \<Rightarrow> syntax_object located parse" where
  "reference_keyword cx first first_value second_value checkpoint =
     p_bind (skip_trivia cx) (\<lambda>_.
     p_bind (p_gets ps_cursor) (\<lambda>cursor.
       if cursor = length (cx_bytes cx)
       then p_bind (need_byte cx cursor XUnexpectedEndOfInput) (\<lambda>_. plain_integer cx first first_value checkpoint)
       else p_bind (byte_at_cursor cx) (\<lambda>b.
         if b \<noteq> 82 then plain_integer cx first first_value checkpoint
         else p_bind (need_byte cx (cursor + 1) XUnexpectedEndOfInput) (\<lambda>_.
           if (case peek_byte (cx_bytes cx) (cursor + 1) of None \<Rightarrow> False | Some c \<Rightarrow> \<not> is_delimiter c)
           then plain_integer cx first first_value checkpoint
           else finish_reference cx first first_value second_value))))"

definition integer_or_reference :: "syntax_context \<Rightarrow> token \<Rightarrow> int \<Rightarrow> syntax_object located parse" where
  "integer_or_reference cx first first_value =
     p_bind (p_gets ps_cursor) (\<lambda>checkpoint.
     p_bind (skip_trivia cx) (\<lambda>_.
     p_bind (p_gets ps_cursor) (\<lambda>cursor.
       if cursor = length (cx_bytes cx)
       then p_bind (need_byte cx cursor XUnexpectedEndOfInput) (\<lambda>_. plain_integer cx first first_value checkpoint)
       else p_bind (byte_at_cursor cx) (\<lambda>b.
         if \<not> is_number_start b then plain_integer cx first first_value checkpoint
         else p_bind (probe_integer_token cx) (\<lambda>second.
           case second of
             None \<Rightarrow> plain_integer cx first first_value checkpoint
           | Some second_value \<Rightarrow> reference_keyword cx first first_value second_value checkpoint)))))"

text \<open>The values of keywords: \<open>null\<close>, \<open>true\<close> and \<open>false\<close>.\<close>

definition keyword_object :: "u8 list \<Rightarrow> syntax_object option" where
  "keyword_object raw =
     (if raw = [110, 117, 108, 108] then Some SynNull
      else if raw = [116, 114, 117, 101] then Some (SynBoolean True)
      else if raw = [102, 97, 108, 115, 101] then Some (SynBoolean False)
      else None)"

definition key_of_token :: "token \<Rightarrow> pdf_name parse" where
  "key_of_token t =
     (case tk_kind t of
        ArrayClose \<Rightarrow> p_error XMismatchedDelimiter (tk_start t)
      | NameTok key \<Rightarrow> p_return key
      | _ \<Rightarrow> p_error XUnexpectedToken (tk_start t))"

text \<open>The head of a turn of a container: past the trivia, at a byte of the window.\<close>

definition container_turn :: "syntax_context \<Rightarrow> nat parse" where
  "container_turn cx =
     p_bind (probe_position cx) (\<lambda>_.
     p_bind (skip_trivia cx) (\<lambda>_.
     p_bind (p_gets ps_cursor) (\<lambda>cursor.
       if cursor = length (cx_bytes cx) then p_fail (PIncomplete XUnexpectedEndOfInput (absolute cx cursor))
       else p_return cursor)))"

definition reserve_item :: "syntax_context \<Rightarrow> nat \<Rightarrow> nat \<Rightarrow> nat \<Rightarrow> nat \<Rightarrow> nat parse" where
  "reserve_item cx element_size len capacity offset =
     p_bind (charge_container_entry cx offset) (\<lambda>_. reserve_container_entry cx element_size len capacity offset)"

fun object_from_token :: "nat \<Rightarrow> syntax_context \<Rightarrow> token \<Rightarrow> nat \<Rightarrow> syntax_object located parse"
and array_loop :: "nat \<Rightarrow> syntax_context \<Rightarrow> token \<Rightarrow> nat \<Rightarrow> syntax_object located list \<Rightarrow> nat \<Rightarrow> syntax_object located parse"
and dictionary_loop :: "nat \<Rightarrow> syntax_context \<Rightarrow> token \<Rightarrow> nat \<Rightarrow> pdf_dictionary \<Rightarrow> nat \<Rightarrow> syntax_object located parse"
where
  "object_from_token 0 cx token depth = p_fail POutOfFuel"
| "object_from_token (Suc fuel) cx token depth =
     (case tk_kind token of
        IntegerTok v \<Rightarrow> integer_or_reference cx token v
      | RealTok v \<Rightarrow> located_object cx (tk_start token) (tk_end token) (SynReal v)
      | NameTok v \<Rightarrow> located_object cx (tk_start token) (tk_end token) (SynName v)
      | StringTok v \<Rightarrow> located_object cx (tk_start token) (tk_end token) (SynString v)
      | KeywordTok raw \<Rightarrow>
          (case keyword_object raw of
             Some v \<Rightarrow> located_object cx (tk_start token) (tk_end token) v
           | None \<Rightarrow> p_error XUnexpectedToken (tk_start token))
      | ArrayOpen \<Rightarrow> p_bind (enter_container cx depth (tk_start token)) (\<lambda>depth'. array_loop fuel cx token depth' [] 0)
      | DictionaryOpen \<Rightarrow>
          p_bind (enter_container cx depth (tk_start token)) (\<lambda>depth'. dictionary_loop fuel cx token depth' [] 0)
      | _ \<Rightarrow> p_error XMismatchedDelimiter (tk_start token))"
| "array_loop 0 cx open depth values capacity = p_fail POutOfFuel"
| "array_loop (Suc fuel) cx open depth values capacity =
     p_bind (container_turn cx) (\<lambda>cursor.
     p_bind (byte_at_cursor cx) (\<lambda>b.
       if b = 93
       then p_bind (next_token cx) (\<lambda>close. located_object cx (tk_start open) (tk_end close) (SynArray values))
       else p_bind (reserve_item cx (sy_item_size (cx_host cx)) (length values) capacity (absolute cx cursor)) (\<lambda>capacity'.
            p_bind (next_required_token cx XUnexpectedEndOfInput) (\<lambda>token.
            p_bind (object_from_token fuel cx token depth) (\<lambda>v.
              array_loop fuel cx open depth (values @ [v]) capacity')))))"
| "dictionary_loop 0 cx open depth entries capacity = p_fail POutOfFuel"
| "dictionary_loop (Suc fuel) cx open depth entries capacity =
     p_bind (container_turn cx) (\<lambda>cursor.
     p_bind (byte_at_cursor cx) (\<lambda>b.
       if b = 62 \<and> peek_byte (cx_bytes cx) (cursor + 1) = Some 62
       then p_bind (next_token cx) (\<lambda>close. located_object cx (tk_start open) (tk_end close) (SynDictionary entries))
       else p_bind (if b = 62 then need_byte cx (cursor + 1) XUnexpectedByte else p_return ()) (\<lambda>_.
            p_bind (reserve_item cx (sy_entry_size (cx_host cx)) (length entries) capacity (absolute cx cursor)) (\<lambda>capacity'.
            p_bind (next_required_token cx XUnexpectedEndOfInput) (\<lambda>key_token.
            p_bind (key_of_token key_token) (\<lambda>key.
            p_bind (located_object cx (tk_start key_token) (tk_end key_token) key) (\<lambda>located_key.
            p_bind (next_required_token cx XUnexpectedEndOfInput) (\<lambda>token.
            p_bind (object_from_token fuel cx token depth) (\<lambda>v.
              dictionary_loop fuel cx open depth (entries @ [(located_key, v)]) capacity')))))))))"

definition object_fuel :: "syntax_context \<Rightarrow> nat" where
  "object_fuel cx = 2 * length (cx_bytes cx) + 2"

definition parse_object_at :: "syntax_context \<Rightarrow> nat \<Rightarrow> syntax_object located parse" where
  "parse_object_at cx depth =
     p_bind (next_token cx) (\<lambda>token. object_from_token (object_fuel cx) cx token depth)"

section \<open>Header, keywords and stream boundaries\<close>

text \<open>\<open>%PDF-\<close>\<close>

definition header_prefix :: "u8 list" where
  "header_prefix = [37, 80, 68, 70, 45]"

definition supported_version :: "u8 \<Rightarrow> u8 \<Rightarrow> u8 \<Rightarrow> bool" where
  "supported_version major dot minor \<longleftrightarrow>
     dot = 46 \<and> (major = 49 \<and> 48 \<le> minor \<and> minor \<le> 55 \<or> major = 50 \<and> minor = 48)"

definition parse_header_inner :: "syntax_context \<Rightarrow> pdf_header located parse" where
  "parse_header_inner cx =
     p_bind (p_gets ps_cursor) (\<lambda>start.
     p_bind (charge_token cx (absolute cx start)) (\<lambda>_.
     p_bind (check_single_limit LimTokenBytes (syn_max_token_bytes (cx_limits cx)) 8 (absolute cx start)) (\<lambda>_.
       if start > length (cx_bytes cx) then p_fail PPanic
       else
         let available = drop start (cx_bytes cx); prefix_len = min (length available) (length header_prefix) in
         if take prefix_len available \<noteq> take prefix_len header_prefix
         then p_error XInvalidHeader (absolute cx start)
         else if length available < 8 then p_fail (PIncomplete XInvalidHeader (absolute cx start))
         else
           let major = available ! 5; dot = available ! 6; minor = available ! 7 in
           if \<not> supported_version major dot minor then p_error XInvalidHeader (absolute cx start)
           else p_bind (p_seek (start + 8)) (\<lambda>_.
             located_object cx (absolute cx start) (absolute cx (start + 8))
               \<lparr>header_major = unat (major - 48), header_minor = unat (minor - 48)\<rparr>))))"

definition parse_keyword_inner :: "syntax_context \<Rightarrow> raw_bytes parse" where
  "parse_keyword_inner cx =
     p_bind (skip_trivia cx) (\<lambda>_.
     p_bind (p_gets ps_cursor) (\<lambda>start.
       if start = length (cx_bytes cx)
       then p_fail (PIncomplete XUnexpectedEndOfInput (absolute cx (length (cx_bytes cx))))
       else
         p_bind (charge_token cx (absolute cx start)) (\<lambda>_.
         p_bind (byte_at_cursor cx) (\<lambda>first.
           if is_delimiter first \<or> is_number_start first then p_error XUnexpectedToken (absolute cx start)
           else
             p_bind (regular_loop cx start (drop start (cx_bytes cx)) start) (\<lambda>stop.
             p_bind (need_byte cx stop XUnexpectedEndOfInput) (\<lambda>_.
             p_bind (p_result (from_bounds (absolute cx start) (absolute cx stop))) (\<lambda>span.
             p_bind (p_seek stop) (\<lambda>_.
               p_return \<lparr>raw_source = in_source (cx_input cx), raw_span = span,
                 raw_slice = window_bytes cx start stop\<rparr>))))))))"

definition expect_keyword_inner :: "syntax_context \<Rightarrow> u8 list \<Rightarrow> byte_span parse" where
  "expect_keyword_inner cx expected =
     p_bind (parse_keyword_inner cx) (\<lambda>keyword.
       if raw_slice keyword = expected then p_return (raw_span keyword)
       else p_error XUnexpectedToken (span_start (raw_span keyword)))"

definition consume_stream_line_ending_inner :: "syntax_context \<Rightarrow> byte_span parse" where
  "consume_stream_line_ending_inner cx =
     p_bind (p_gets ps_cursor) (\<lambda>start.
     p_bind (need_byte cx start XInvalidStreamBoundary) (\<lambda>_.
     p_bind
       (if peek_byte (cx_bytes cx) start = Some 10 then p_return (start + 1)
        else if peek_byte (cx_bytes cx) start = Some 13
        then if peek_byte (cx_bytes cx) (start + 1) = Some 10 then p_return (start + 2)
             else p_bind (need_byte cx (start + 1) XInvalidStreamBoundary) (\<lambda>_.
                    p_error XInvalidStreamBoundary (absolute cx start))
        else p_error XInvalidStreamBoundary (absolute cx start)) (\<lambda>stop.
     p_bind (p_seek stop) (\<lambda>_. p_result (from_bounds (absolute cx start) (absolute cx stop))))))"

section \<open>Public operations\<close>

datatype 'a syntax_poll =
  SynReady 'a
| SynNeedMore nat
| SynEndOfInput
| SynFailed syntax_error

type_synonym 'a polled = "'a syntax_poll option \<times> parser_state"

definition need_more_or_failure :: "syntax_context \<Rightarrow> 'a syntax_poll" where
  "need_more_or_failure cx =
     (let current_len = length (cx_bytes cx); here = Some (absolute cx (length (cx_bytes cx)));
          max_input = syn_max_input_bytes (cx_limits cx) in
      case checked_add current_len 1 of
        None \<Rightarrow> SynFailed (syntax_error_for_code XInternalState here)
      | Some required_len \<Rightarrow>
        if required_len > max_input
        then SynFailed (syntax_error_resource LimInputBytes max_input 0 required_len here)
        else case checked_add (in_base (cx_input cx)) required_len of
            Some minimum_end \<Rightarrow> SynNeedMore minimum_end
          | None \<Rightarrow> SynFailed (syntax_error_for_code XInternalState here))"

fun poll_failure :: "syntax_context \<Rightarrow> bool \<Rightarrow> parse_failure \<Rightarrow> 'a syntax_poll option" where
  "poll_failure cx clean_end PEnd =
     (if clean_end \<and> cx_extent cx = KnownSourceEnd then Some SynEndOfInput else Some (need_more_or_failure cx))"
| "poll_failure cx clean_end (PIncomplete final_code offset) =
     (if cx_extent cx = KnownSourceEnd then Some (SynFailed (syntax_error_for_code final_code (Some offset)))
      else Some (need_more_or_failure cx))"
| "poll_failure cx clean_end (PFailed e) = Some (SynFailed e)"
| "poll_failure cx clean_end PPanic = None"
| "poll_failure cx clean_end POutOfFuel = None"

definition run_operation :: "syntax_context \<Rightarrow> bool \<Rightarrow> 'a parse \<Rightarrow> parser_state \<Rightarrow> 'a polled" where
  "run_operation cx clean_end m s =
     (case p_bind (begin_operation cx) (\<lambda>_. m) s of
        (Inr v, s') \<Rightarrow> (Some (SynReady v), s')
      | (Inl failure, s') \<Rightarrow> (poll_failure cx clean_end failure, s'))"

definition parse_header :: "syntax_context \<Rightarrow> parser_state \<Rightarrow> pdf_header located polled" where
  "parse_header cx = run_operation cx False (parse_header_inner cx)"

definition parse_object :: "syntax_context \<Rightarrow> parser_state \<Rightarrow> syntax_object located polled" where
  "parse_object cx = run_operation cx True (parse_object_at cx 0)"

definition parse_keyword :: "syntax_context \<Rightarrow> parser_state \<Rightarrow> raw_bytes polled" where
  "parse_keyword cx = run_operation cx False (parse_keyword_inner cx)"

definition expect_keyword :: "syntax_context \<Rightarrow> u8 list \<Rightarrow> parser_state \<Rightarrow> byte_span polled" where
  "expect_keyword cx expected = run_operation cx False (expect_keyword_inner cx expected)"

definition consume_stream_line_ending :: "syntax_context \<Rightarrow> parser_state \<Rightarrow> byte_span polled" where
  "consume_stream_line_ending cx = run_operation cx False (consume_stream_line_ending_inner cx)"

text \<open>The outcome of \<open>take_raw_bytes\<close> after the cancellation probe.\<close>

definition take_raw_bytes_inner :: "syntax_context \<Rightarrow> nat \<Rightarrow> parser_state \<Rightarrow> raw_bytes polled" where
  "take_raw_bytes_inner cx len s =
     (let start = ps_cursor s; max_input = syn_max_input_bytes (cx_limits cx); here = parser_position cx s in
      case checked_add start len of
        None \<Rightarrow> (Some (SynFailed (syntax_error_resource LimInputBytes max_input 0 u64_max (Some here))), s)
      | Some stop \<Rightarrow>
        if stop > max_input
        then (Some (SynFailed (syntax_error_resource LimInputBytes max_input 0 stop (Some here))), s)
        else if stop > length (cx_bytes cx)
        then if cx_extent cx = KnownSourceEnd
             then (Some (SynFailed (syntax_error_for_code XUnexpectedEndOfInput
                    (Some (absolute cx (length (cx_bytes cx)))))), s)
             else (case checked_add here len of
                 None \<Rightarrow> (Some (SynFailed (syntax_error_for_code XInternalState (Some here))), s)
               | Some minimum_end \<Rightarrow> (Some (SynNeedMore minimum_end), s))
        else case from_bounds (absolute cx start) (absolute cx stop) of
            Inl e \<Rightarrow> (Some (SynFailed e), s)
          | Inr span \<Rightarrow>
            (Some (SynReady \<lparr>raw_source = in_source (cx_input cx), raw_span = span,
               raw_slice = window_bytes cx start stop\<rparr>), s\<lparr>ps_cursor := stop\<rparr>))"

definition take_raw_bytes :: "syntax_context \<Rightarrow> nat \<Rightarrow> parser_state \<Rightarrow> raw_bytes polled" where
  "take_raw_bytes cx len s =
     (case begin_operation cx s of
        (Inl failure, s') \<Rightarrow> (poll_failure cx False failure, s')
      | (Inr _, s') \<Rightarrow> take_raw_bytes_inner cx len s')"

end
