(* ===== verification/Syn_Grammar.thy ===== *)
theory Syn_Grammar
  imports Syn_Parser Pdf_Chars
begin

text \<open>
  A reference grammar of direct objects, independent of cursors, limits and passes and of the character tests
  of the parser, whose classes are the tables of \<open>Pdf_Chars\<close>: what the bytes of a
  scalar denote, which bytes are trivia, and \<open>object_at\<close>, which says that a located object is spelled by a
  part of the window, with the spans of its children in order inside its own and only trivia between them.
\<close>

section \<open>Scalars\<close>

definition digits_value :: "u8 list \<Rightarrow> nat" where
  "digits_value ds = foldl (\<lambda>m d. 10 * m + unat (d - 48)) 0 ds"

definition digits :: "u8 list \<Rightarrow> bool" where
  "digits ds \<longleftrightarrow> set ds \<subseteq> set digit_bytes"

definition natural_text :: "u8 list \<Rightarrow> nat option" where
  "natural_text ds = (if ds \<noteq> [] \<and> digits ds then Some (digits_value ds) else None)"

definition integer_text :: "u8 list \<Rightarrow> int option" where
  "integer_text raw =
     (case raw of
        [] \<Rightarrow> None
      | b # ds \<Rightarrow>
        if b = 45 then map_option (\<lambda>n. - int n) (natural_text ds)
        else if b = 43 then map_option int (natural_text ds)
        else map_option int (natural_text raw))"

definition i64_range :: "int \<Rightarrow> bool" where
  "i64_range i \<longleftrightarrow> - (2 ^ 63) \<le> i \<and> i < 2 ^ 63"

definition exponent_text :: "u8 list \<Rightarrow> bool" where
  "exponent_text ex \<longleftrightarrow>
     (\<exists>e sgn ds. ex = e # sgn @ ds \<and> (e = 101 \<or> e = 69) \<and> sgn \<in> {[], [43], [45]} \<and> ds \<noteq> [] \<and> digits ds)"

definition real_text :: "u8 list \<Rightarrow> real_notation \<Rightarrow> bool" where
  "real_text raw form \<longleftrightarrow>
     (\<exists>sgn whole fraction ex. raw = sgn @ whole @ fraction @ ex \<and> sgn \<in> {[], [43], [45]} \<and> digits whole \<and>
        (fraction = [] \<and> whole \<noteq> [] \<or>
          (\<exists>ds. fraction = 46 # ds \<and> digits ds \<and> (whole \<noteq> [] \<or> ds \<noteq> []))) \<and>
        (ex = [] \<and> fraction \<noteq> [] \<and> form = DecimalNotation \<or>
          exponent_text ex \<and> form = ExponentNotation))"

fun name_text :: "u8 list \<Rightarrow> u8 list option" where
  "name_text [] = Some []"
| "name_text (b # rest) =
     (if b \<in> set white_bytes \<union> set special_bytes then None
      else if b = 35
      then case rest of
          h # l # rest2 \<Rightarrow>
            (case (map_of hex_table h, map_of hex_table l) of
               (Some high, Some low) \<Rightarrow> map_option ((#) (16 * high + low)) (name_text rest2)
             | _ \<Rightarrow> None)
        | _ \<Rightarrow> None
      else map_option ((#) b) (name_text rest))"

text \<open>The text of a literal string behind its first parenthesis, with \<open>n\<close> parentheses open. A line ending
  stands for one line feed, and an escaped one for nothing.\<close>

definition octal_byte :: "u8 list \<Rightarrow> u8" where
  "octal_byte ds = word_of_nat (foldl (\<lambda>m d. 8 * m + unat (d - 48)) 0 ds)"

fun literal_text :: "nat \<Rightarrow> u8 list \<Rightarrow> u8 list option" where
  "literal_text n [] = None"
| "literal_text n (b # rest) =
     (if b = 40 then map_option ((#) 40) (literal_text (n + 1) rest)
      else if b = 41
      then if n \<le> 1 then if rest = [] then Some [] else None
           else map_option ((#) 41) (literal_text (n - 1) rest)
      else if b = 92
      then case rest of
          [] \<Rightarrow> None
        | e # rest2 \<Rightarrow>
          if e = 13 then literal_text n (if take 1 rest2 = [10] then drop 1 rest2 else rest2)
          else if e = 10 then literal_text n rest2
          else if e \<in> set octal_bytes
          then map_option ((#) (octal_byte (takeWhile (\<lambda>d. d \<in> set octal_bytes) (take 3 rest))))
                 (literal_text n (drop (length (takeWhile (\<lambda>d. d \<in> set octal_bytes) (take 3 rest))) rest))
          else map_option ((#) (case map_of escape_table e of None \<Rightarrow> e | Some c \<Rightarrow> c)) (literal_text n rest2)
      else if b = 13
      then map_option ((#) 10) (literal_text n (if take 1 rest = [10] then drop 1 rest else rest))
      else map_option ((#) b) (literal_text n rest))"

fun pair_nibbles :: "u8 list \<Rightarrow> u8 list" where
  "pair_nibbles [] = []"
| "pair_nibbles [h] = [16 * h]"
| "pair_nibbles (h # l # rest) = (16 * h + l) # pair_nibbles rest"

definition hex_text :: "u8 list \<Rightarrow> u8 list option" where
  "hex_text body =
     (let nibbles = map (map_of hex_table) (filter (\<lambda>b. b \<notin> set white_bytes) body) in
      if None \<in> set nibbles then None else Some (pair_nibbles (map the nibbles)))"

section \<open>Trivia\<close>

inductive trivia_text :: "u8 list \<Rightarrow> bool" where
  trivia_nil: "trivia_text []"
| trivia_white: "b \<in> set white_bytes \<Longrightarrow> trivia_text w \<Longrightarrow> trivia_text (b # w)"
| trivia_comment: "list_all (\<lambda>b. b \<noteq> 13 \<and> b \<noteq> 10) c \<Longrightarrow> b = 13 \<or> b = 10 \<Longrightarrow> trivia_text (b # w) \<Longrightarrow>
    trivia_text (37 # c @ b # w)"

definition trivia_at :: "syntax_context \<Rightarrow> nat \<Rightarrow> nat \<Rightarrow> bool" where
  "trivia_at cx i j \<longleftrightarrow> i \<le> j \<and> j \<le> length (cx_bytes cx) \<and> trivia_text (window_bytes cx i j)"

section \<open>Objects\<close>

definition reference_text :: "u8 list \<Rightarrow> object_ref \<Rightarrow> bool" where
  "reference_text raw r \<longleftrightarrow>
     (\<exists>t1 w1 t2 w2. raw = t1 @ w1 @ t2 @ w2 @ [82] \<and> integer_text t1 = Some (int (ref_number r)) \<and>
        integer_text t2 = Some (int (ref_generation r)) \<and> trivia_text w1 \<and> trivia_text w2 \<and>
        0 < ref_number r \<and> ref_number r < 2 ^ 32 \<and> ref_generation r < 2 ^ 16)"

fun scalar_text :: "u8 list \<Rightarrow> syntax_object \<Rightarrow> bool" where
  "scalar_text raw SynNull = (raw = [0x6E, 0x75, 0x6C, 0x6C])"
| "scalar_text raw (SynBoolean b) =
     (raw = (if b then [0x74, 0x72, 0x75, 0x65] else [0x66, 0x61, 0x6C, 0x73, 0x65]))"
| "scalar_text raw (SynInteger i) = (integer_text raw = Some i \<and> i64_range i)"
| "scalar_text raw (SynReal r) = (real_raw r = raw \<and> real_text raw (real_notation r))"
| "scalar_text raw (SynName n) =
     (\<exists>body decoded. raw = 47 # body \<and> name_text body = Some decoded \<and> n = name_of_bytes decoded)"
| "scalar_text raw (SynString str) =
     (case string_kind str of
        LiteralString \<Rightarrow> \<exists>body. raw = 40 # body \<and> literal_text 1 body = Some (string_bytes str)
      | HexadecimalString \<Rightarrow> \<exists>body. raw = 60 # body @ [62] \<and> hex_text body = Some (string_bytes str))"
| "scalar_text raw (SynReference r) = reference_text raw r"
| "scalar_text raw (SynArray vs) = False"
| "scalar_text raw (SynDictionary es) = False"

definition located_at :: "syntax_context \<Rightarrow> nat \<Rightarrow> nat \<Rightarrow> 'a \<Rightarrow> 'a located" where
  "located_at cx i j v = Located (in_source (cx_input cx)) \<lparr>span_start = absolute cx i, span_len = j - i\<rparr> v"

inductive object_at :: "syntax_context \<Rightarrow> nat \<Rightarrow> nat \<Rightarrow> syntax_object located \<Rightarrow> bool"
  and items_at :: "syntax_context \<Rightarrow> nat \<Rightarrow> nat \<Rightarrow> syntax_object located list \<Rightarrow> bool"
  and entries_at :: "syntax_context \<Rightarrow> nat \<Rightarrow> nat \<Rightarrow> pdf_dictionary \<Rightarrow> bool"
for cx where
  at_scalar: "i < j \<Longrightarrow> j \<le> length (cx_bytes cx) \<Longrightarrow> scalar_text (window_bytes cx i j) v \<Longrightarrow>
    object_at cx i j (located_at cx i j v)"
| at_array: "window_bytes cx i (i + 1) = [91] \<Longrightarrow> items_at cx (i + 1) k vs \<Longrightarrow> trivia_at cx k j \<Longrightarrow>
    window_bytes cx j (j + 1) = [93] \<Longrightarrow> object_at cx i (j + 1) (located_at cx i (j + 1) (SynArray vs))"
| at_dictionary: "window_bytes cx i (i + 2) = [60, 60] \<Longrightarrow> entries_at cx (i + 2) k es \<Longrightarrow> trivia_at cx k j \<Longrightarrow>
    window_bytes cx j (j + 2) = [62, 62] \<Longrightarrow> object_at cx i (j + 2) (located_at cx i (j + 2) (SynDictionary es))"
| items_none: "items_at cx i i []"
| items_snoc: "items_at cx i j vs \<Longrightarrow> trivia_at cx j k \<Longrightarrow> object_at cx k l v \<Longrightarrow> items_at cx i l (vs @ [v])"
| entries_none: "entries_at cx i i []"
| entries_snoc: "entries_at cx i j es \<Longrightarrow> trivia_at cx j k \<Longrightarrow> k < l \<Longrightarrow> l \<le> length (cx_bytes cx) \<Longrightarrow>
    scalar_text (window_bytes cx k l) (SynName key) \<Longrightarrow> trivia_at cx l m \<Longrightarrow> object_at cx m n v \<Longrightarrow>
    entries_at cx i n (es @ [(located_at cx k l key, v)])"

section \<open>The character tests of the parser\<close>

lemma is_whitespace_table: "is_whitespace b \<longleftrightarrow> b \<in> set white_bytes"
  by (auto simp: is_whitespace_def white_bytes_def)

lemma is_delimiter_table: "is_delimiter b \<longleftrightarrow> b \<in> set white_bytes \<union> set special_bytes"
  by (auto simp: is_delimiter_def is_whitespace_table special_bytes_def)

lemma is_ascii_digit_table: "is_ascii_digit b \<longleftrightarrow> b \<in> set digit_bytes"
  by (simp add: is_ascii_digit_def digit_ranges digit_bytes_def)

lemma is_octal_digit_table: "is_octal_digit b \<longleftrightarrow> b \<in> set octal_bytes"
  by (simp add: is_octal_digit_def digit_ranges octal_bytes_def)

lemma hex_value_table: "hex_value b = map_of hex_table b"
  unfolding hex_value_def by (rule hex_ranges_table)

lemma escape_byte_table: "escape_byte e = (case map_of escape_table e of None \<Rightarrow> e | Some c \<Rightarrow> c)"
  by (simp add: escape_byte_def escape_table_def)

lemma starts_newline_table: "starts_newline xs \<longleftrightarrow> take 1 xs = [10]"
  by (cases xs) (simp_all add: starts_newline_def peek_byte_def)

lemma octal_run_takeWhile:
  "take (octal_run n xs) xs = takeWhile is_octal_digit (take n xs)"
  "octal_run n xs = length (takeWhile is_octal_digit (take n xs))"
  by (induction n xs rule: octal_run.induct) (simp_all split: list.split)

lemmas char_tables =
  is_whitespace_table is_delimiter_table is_ascii_digit_table is_octal_digit_table hex_value_table
  escape_byte_table starts_newline_table

lemma digits_code: "digits ds = list_all is_ascii_digit ds"
  by (auto simp: digits_def list_all_iff is_ascii_digit_table)

lemma name_text_code [simp]:
  "name_text (b # rest) =
     (if is_delimiter b then None
      else if b = 35
      then case rest of
          h # l # rest2 \<Rightarrow>
            (case (hex_value h, hex_value l) of
               (Some high, Some low) \<Rightarrow> map_option ((#) (16 * high + low)) (name_text rest2)
             | _ \<Rightarrow> None)
        | _ \<Rightarrow> None
      else map_option ((#) b) (name_text rest))"
  unfolding char_tables by (rule name_text.simps)

lemma literal_text_code [simp]:
  "literal_text n (b # rest) =
     (if b = 40 then map_option ((#) 40) (literal_text (n + 1) rest)
      else if b = 41
      then if n \<le> 1 then if rest = [] then Some [] else None
           else map_option ((#) 41) (literal_text (n - 1) rest)
      else if b = 92
      then case rest of
          [] \<Rightarrow> None
        | e # rest2 \<Rightarrow>
          if e = 13 then literal_text n (if starts_newline rest2 then drop 1 rest2 else rest2)
          else if e = 10 then literal_text n rest2
          else if is_octal_digit e
          then map_option ((#) (octal_byte (take (octal_run 3 rest) rest)))
                 (literal_text n (drop (octal_run 3 rest) rest))
          else map_option ((#) (escape_byte e)) (literal_text n rest2)
      else if b = 13
      then map_option ((#) 10) (literal_text n (if starts_newline rest then drop 1 rest else rest))
      else map_option ((#) b) (literal_text n rest))"
  unfolding octal_run_takeWhile(1) unfolding octal_run_takeWhile(2) char_tables by (rule literal_text.simps)

declare name_text.simps(2) [simp del] literal_text.simps(2) [simp del]

lemma hex_text_code:
  "hex_text body =
     (let nibbles = map hex_value (filter (\<lambda>b. \<not> is_whitespace b) body) in
      if None \<in> set nibbles then None else Some (pair_nibbles (map the nibbles)))"
  unfolding char_tables by (rule hex_text_def)

lemma trivia_space: "is_whitespace b \<Longrightarrow> trivia_text w \<Longrightarrow> trivia_text (b # w)"
  by (rule trivia_white) (simp_all add: is_whitespace_table)

lemmas trivia_intros = trivia_nil trivia_space trivia_comment

lemma trivia_cases [consumes 1, case_names trivia_nil trivia_space trivia_comment]:
  assumes "trivia_text w"
  obtains "w = []"
  | b v where "w = b # v" "is_whitespace b" "trivia_text v"
  | c b v where "w = 37 # c @ b # v" "list_all (\<lambda>b. b \<noteq> 13 \<and> b \<noteq> 10) c" "b = 13 \<or> b = 10" "trivia_text (b # v)"
  using assms by (cases rule: trivia_text.cases) (auto simp: is_whitespace_table)

lemma keyword_scalar: "keyword_object raw = Some v \<Longrightarrow> scalar_text raw v"
  by (auto simp: keyword_object_def split: if_splits)

lemma length_window_bytes [simp]: "length (window_bytes cx i j) = min (j - i) (length (cx_bytes cx) - i)"
  by (simp add: window_bytes_def min.commute)

lemma window_bytes_end: "window_bytes cx i j = bs \<Longrightarrow> length bs = j - i \<Longrightarrow> bs \<noteq> [] \<Longrightarrow> j \<le> length (cx_bytes cx)"
  using length_window_bytes [of cx i j] by (cases bs) auto

lemma object_at_bounds:
  "object_at cx i j v \<Longrightarrow> i < j \<and> j \<le> length (cx_bytes cx) \<and> span_start (located_span v) = absolute cx i \<and>
     span_end (located_span v) = absolute cx j \<and> located_source v = in_source (cx_input cx)"
  "items_at cx i j vs \<Longrightarrow> i \<le> j"
  "entries_at cx i j es \<Longrightarrow> i \<le> j"
proof (induction rule: object_at_items_at_entries_at.inducts)
  case (at_array i k vs j)
  then have "j + 1 \<le> length (cx_bytes cx)" by (intro window_bytes_end [of _ j]) auto
  with at_array show ?case by (auto simp: located_at_def span_end_def absolute_def trivia_at_def)
next
  case (at_dictionary i k es j)
  then have "j + 2 \<le> length (cx_bytes cx)" by (intro window_bytes_end [of _ j]) auto
  with at_dictionary show ?case by (auto simp: located_at_def span_end_def absolute_def trivia_at_def)
qed (auto simp: located_at_def span_end_def absolute_def trivia_at_def)

end
