(* ===== verification/Syn_Run.thy ===== *)
theory Syn_Run
  imports Syn_Grammar
begin

text \<open>
  The program logic of the parser: \<open>runs cx c m P\<close> says that the step \<open>m\<close>, started with the cursor at \<open>c\<close> in a
  state within the limits, neither panics nor runs out of fuel, ends in such a state, and when it succeeds
  its value and the new cursor satisfy \<open>P\<close>. The rules work backwards from \<open>P\<close>.
\<close>

definition retained_ok :: "syntax_context \<Rightarrow> parser_state \<Rightarrow> bool" where
  "retained_ok cx s =
     (case cx_max_retained cx of None \<Rightarrow> True | Some cap \<Rightarrow> ps_owned_bytes s + ps_container_bytes s \<le> cap)"

definition parser_ok :: "syntax_context \<Rightarrow> parser_state \<Rightarrow> bool" where
  "parser_ok cx s \<longleftrightarrow> ps_cursor s \<le> length (cx_bytes cx) \<and> ps_tokens s \<le> syn_max_total_tokens (cx_limits cx) \<and>
     ps_owned_bytes s \<le> syn_max_owned_bytes (cx_limits cx) \<and>
     ps_container_entries s \<le> syn_max_container_entries (cx_limits cx) \<and>
     ps_max_depth s \<le> syn_max_container_depth (cx_limits cx) \<and> retained_ok cx s"

definition container_ok :: "syntax_context \<Rightarrow> parser_state \<Rightarrow> bool" where
  "container_ok cx s \<longleftrightarrow> ps_container_bytes s \<le> syn_max_container_bytes (cx_limits cx)"

definition proper_failure :: "parse_failure \<Rightarrow> bool" where
  "proper_failure f \<longleftrightarrow> f \<noteq> PPanic \<and> f \<noteq> POutOfFuel"

definition runs :: "syntax_context \<Rightarrow> nat \<Rightarrow> 'a parse \<Rightarrow> ('a \<Rightarrow> nat \<Rightarrow> bool) \<Rightarrow> bool" where
  "runs cx c m P \<longleftrightarrow> (\<forall>s. parser_ok cx s \<and> ps_cursor s = c \<longrightarrow>
     (case m s of
        (Inr v, s') \<Rightarrow> parser_ok cx s' \<and> (container_ok cx s \<longrightarrow> container_ok cx s') \<and> P v (ps_cursor s')
      | (Inl f, s') \<Rightarrow> parser_ok cx s' \<and> proper_failure f))"

named_theorems run

lemma proper_failure_simps [simp]:
  "proper_failure PEnd" "proper_failure (PIncomplete code offset)" "proper_failure (PFailed e)"
  by (simp_all add: proper_failure_def)

lemma runsI:
  assumes "\<And>s v s'. parser_ok cx s \<Longrightarrow> ps_cursor s = c \<Longrightarrow> m s = (Inr v, s') \<Longrightarrow>
      parser_ok cx s' \<and> (container_ok cx s \<longrightarrow> container_ok cx s') \<and> P v (ps_cursor s')"
    and "\<And>s f s'. parser_ok cx s \<Longrightarrow> ps_cursor s = c \<Longrightarrow> m s = (Inl f, s') \<Longrightarrow> parser_ok cx s' \<and> proper_failure f"
  shows "runs cx c m P"
  unfolding runs_def
proof (intro allI impI)
  fix s
  assume s: "parser_ok cx s \<and> ps_cursor s = c"
  obtain r s' where "m s = (r, s')" by force
  with s assms(1) [of s "projr r" s'] assms(2) [of s "projl r" s'] show "case m s of
      (Inr v, s') \<Rightarrow> parser_ok cx s' \<and> (container_ok cx s \<longrightarrow> container_ok cx s') \<and> P v (ps_cursor s')
    | (Inl f, s') \<Rightarrow> parser_ok cx s' \<and> proper_failure f"
    by (cases r) simp_all
qed

lemma runsD:
  assumes "runs cx c m P" "parser_ok cx s" "ps_cursor s = c"
  shows "m s = (Inr v, s') \<Longrightarrow> parser_ok cx s' \<and> (container_ok cx s \<longrightarrow> container_ok cx s') \<and> P v (ps_cursor s')"
    and "m s = (Inl f, s') \<Longrightarrow> parser_ok cx s' \<and> proper_failure f"
  using assms by (auto simp: runs_def)

lemma parser_ok_cursor: "parser_ok cx s \<Longrightarrow> ps_cursor s \<le> length (cx_bytes cx)"
  by (simp add: parser_ok_def)

lemma runs_mono:
  assumes m: "runs cx c m P" and "\<And>v c'. c' \<le> length (cx_bytes cx) \<Longrightarrow> P v c' \<Longrightarrow> Q v c'"
  shows "runs cx c m Q"
  by (rule runsI) (use runsD [OF m] assms(2) parser_ok_cursor in blast)+

lemma p_bind_cases:
  "p_bind m k s = (r, s'') \<Longrightarrow>
     (\<exists>f. m s = (Inl f, s'') \<and> r = Inl f) \<or> (\<exists>v s'. m s = (Inr v, s') \<and> k v s' = (r, s''))"
  by (cases "m s"; cases "fst (m s)") (auto simp: p_bind_def)

lemma runs_bind [run]:
  assumes m: "runs cx c m (\<lambda>v c'. c' \<le> length (cx_bytes cx) \<longrightarrow> runs cx c' (k v) P)"
  shows "runs cx c (p_bind m k) P"
proof (rule runsI)
  fix s v s'
  assume s: "parser_ok cx s" "ps_cursor s = c" and "p_bind m k s = (Inr v, s')"
  then obtain x s1 where 1: "m s = (Inr x, s1)" "k x s1 = (Inr v, s')" by (auto simp: p_bind_Inr)
  then have ok: "parser_ok cx s1" "container_ok cx s \<longrightarrow> container_ok cx s1" "runs cx (ps_cursor s1) (k x) P"
    using runsD(1) [OF m s 1(1)] parser_ok_cursor by blast+
  show "parser_ok cx s' \<and> (container_ok cx s \<longrightarrow> container_ok cx s') \<and> P v (ps_cursor s')"
    using runsD(1) [OF ok(3,1) refl 1(2)] ok(2) by blast
next
  fix s f s'
  assume s: "parser_ok cx s" "ps_cursor s = c" and "p_bind m k s = (Inl f, s')"
  then consider "m s = (Inl f, s')" | x s1 where "m s = (Inr x, s1)" "k x s1 = (Inl f, s')"
    by (auto dest: p_bind_cases)
  then show "parser_ok cx s' \<and> proper_failure f"
  proof cases
    case 1
    then show ?thesis using runsD(2) [OF m s] by blast
  next
    case 2
    then have "parser_ok cx s1" "runs cx (ps_cursor s1) (k x) P"
      using runsD(1) [OF m s 2(1)] parser_ok_cursor by blast+
    then show ?thesis using runsD(2) [OF _ _ refl] 2(2) by blast
  qed
qed

lemma runs_return [run]: "P v c \<Longrightarrow> runs cx c (p_return v) P"
  by (simp add: runs_def p_return_def)

lemma runs_fail: "proper_failure f \<Longrightarrow> runs cx c (p_fail f) P"
  by (simp add: runs_def p_fail_def)

lemma runs_fails [run]:
  "runs cx c (p_fail PEnd) P" "runs cx c (p_fail (PIncomplete code offset)) P" "runs cx c (p_fail (PFailed e)) P"
  by (simp_all add: runs_fail)

lemma runs_gets: "(\<And>s. ps_cursor s = c \<Longrightarrow> P (f s) c) \<Longrightarrow> runs cx c (p_gets f) P"
  by (simp add: runs_def p_gets_def)

lemma runs_cursor [run]: "P c c \<Longrightarrow> runs cx c (p_gets ps_cursor) P"
  by (rule runs_gets) simp

lemma runs_position [run]: "P (absolute cx c) c \<Longrightarrow> runs cx c (p_gets (parser_position cx)) P"
  by (rule runs_gets) (simp add: parser_position_def)

lemma runs_seek [run]: "P () c' \<Longrightarrow> c' \<le> length (cx_bytes cx) \<Longrightarrow> runs cx c (p_seek c') P"
  by (simp add: runs_def p_seek_def p_modify_def parser_ok_def container_ok_def retained_ok_def split: option.splits)

lemma runs_advance [run]:
  "P () (c + 1) \<Longrightarrow> c + 1 \<le> length (cx_bytes cx) \<Longrightarrow> runs cx c (p_modify (\<lambda>s. s\<lparr>ps_cursor := ps_cursor s + 1\<rparr>)) P"
  by (simp add: runs_def p_modify_def parser_ok_def container_ok_def retained_ok_def split: option.splits)

lemma runs_result [run]:
  "(\<And>v. r = Inr v \<Longrightarrow> P v c) \<Longrightarrow> runs cx c (p_result r) P"
  by (cases r) (simp_all add: p_result_def run)

lemma runs_some [run]: "(\<And>v. x = Some v \<Longrightarrow> P v c) \<Longrightarrow> runs cx c (p_some x code offset) P"
  by (cases x) (simp_all add: p_some_def run)

section \<open>Accounting\<close>

text \<open>Steps that neither move the cursor nor return anything of interest.\<close>

lemma runs_check_cancelled [run]: "P () c \<Longrightarrow> runs cx c (check_cancelled cx offset) P"
  by (simp add: runs_def check_cancelled_def p_bind_def p_gets_def p_modify_def p_fail_def p_return_def
      parser_ok_def container_ok_def retained_ok_def split: option.splits)

lemma runs_probe [run]: "P () c \<Longrightarrow> runs cx c (probe_iteration cx offset) P"
  by (simp add: runs_def probe_iteration_def check_cancelled_def p_bind_def p_gets_def p_modify_def p_fail_def
      p_return_def parser_ok_def container_ok_def retained_ok_def split: option.splits)

lemma runs_probe_position [run]: "P () c \<Longrightarrow> runs cx c (probe_position cx) P"
  unfolding probe_position_def by (intro run impI)

lemma runs_begin [run]: "P () c \<Longrightarrow> runs cx c (begin_operation cx) P"
  by (simp add: runs_def begin_operation_def check_cancelled_def p_bind_def p_gets_def p_modify_def p_fail_def
      p_return_def parser_ok_def container_ok_def retained_ok_def split: option.splits)

lemma runs_check_single_limit [run]:
  "(attempted \<le> limit \<Longrightarrow> P () c) \<Longrightarrow> runs cx c (check_single_limit kind limit attempted offset) P"
  by (simp add: check_single_limit_def run)

lemma runs_check_token_len [run]: "P () c \<Longrightarrow> runs cx c (check_token_len cx start stop) P"
  by (simp add: check_token_len_def run)

lemma runs_check_string_source [run]: "P () c \<Longrightarrow> runs cx c (check_string_source cx start stop) P"
  unfolding check_string_source_def by (intro run impI)

lemma charge_total_cases:
  "charge_total kind limit consumed attempted offset =
     (if consumed + attempted \<le> u64_max \<and> consumed + attempted \<le> limit then p_return ()
      else p_resource kind limit consumed attempted offset)"
  by (simp add: charge_total_def checked_add_def not_le)

definition retained_room :: "syntax_context \<Rightarrow> parser_state \<Rightarrow> nat \<Rightarrow> bool" where
  "retained_room cx s attempted =
     (case cx_max_retained cx of
        None \<Rightarrow> True
      | Some cap \<Rightarrow> ps_owned_bytes s + ps_container_bytes s + attempted \<le> min cap u64_max)"

lemma charge_retained_outcome:
  obtains e where "charge_retained cx =
    (\<lambda>attempted offset s. if retained_room cx s attempted then (Inr (), s)
      else (Inl (PFailed (e attempted offset s)), s))"
proof
  show "charge_retained cx =
    (\<lambda>attempted offset s. if retained_room cx s attempted then (Inr (), s)
         else (Inl (PFailed
           (if ps_owned_bytes s + ps_container_bytes s \<le> u64_max
            then syntax_error_resource LimRetainedBytes (the (cx_max_retained cx))
              (ps_owned_bytes s + ps_container_bytes s) attempted (Some offset)
            else syntax_error_for_code XInternalState (Some offset))), s))"
    by (intro ext) (auto simp: charge_retained_def retained_room_def charge_total_cases checked_add_def p_bind_def
        p_gets_def p_return_def p_fail_def split: option.splits)
qed

lemma runs_charge_token [run]: "P () c \<Longrightarrow> runs cx c (charge_token cx offset) P"
  by (auto simp: runs_def charge_token_def charge_total_cases p_bind_def p_gets_def p_modify_def p_fail_def p_return_def
      parser_ok_def container_ok_def retained_ok_def split: option.splits)

lemma runs_charge_container_entry [run]: "P () c \<Longrightarrow> runs cx c (charge_container_entry cx offset) P"
  by (auto simp: runs_def charge_container_entry_def charge_total_cases p_bind_def p_gets_def p_modify_def p_fail_def
      p_return_def parser_ok_def container_ok_def retained_ok_def split: option.splits)

lemma runs_enter_container [run]:
  "(\<And>d. P d c) \<Longrightarrow> runs cx c (enter_container cx depth offset) P"
  by (auto simp: runs_def enter_container_def Let_def p_bind_def p_modify_def p_fail_def p_return_def
      parser_ok_def container_ok_def retained_ok_def split: option.splits)


lemma runs_charge_total [run]: "P () c \<Longrightarrow> runs cx c (charge_total kind limit consumed attempted offset) P"
  by (simp add: charge_total_cases run)

lemma runs_charge_retained [run]: "P () c \<Longrightarrow> runs cx c (charge_retained cx attempted offset) P"
  by (rule charge_retained_outcome [of cx]) (simp add: runs_def)

lemma runs_alloc [run]: "(\<And>granted. P granted c) \<Longrightarrow> runs cx c (p_alloc cx n) P"
  by (auto simp: runs_def p_alloc_def p_bind_def p_gets_def p_modify_def p_return_def parser_ok_def container_ok_def
      retained_ok_def split: option.splits)

lemma runs_option [run]:
  "(x = None \<Longrightarrow> runs cx c m P) \<Longrightarrow> (\<And>v. x = Some v \<Longrightarrow> runs cx c (k v) P) \<Longrightarrow>
     runs cx c (case x of None \<Rightarrow> m | Some v \<Rightarrow> k v) P"
  by (cases x) simp_all

lemma runs_if [run]:
  "(b \<Longrightarrow> runs cx c m P) \<Longrightarrow> (\<not> b \<Longrightarrow> runs cx c k P) \<Longrightarrow> runs cx c (if b then m else k) P"
  by simp

lemma runs_gets_any [run]: "(\<And>v. P v c) \<Longrightarrow> runs cx c (p_gets f) P"
  by (rule runs_gets) simp

lemma runs_grow_container [run]: "(\<And>n. P n c) \<Longrightarrow> runs cx c (grow_container cx element_size capacity offset) P"
  unfolding grow_container_def Let_def by (intro run impI) simp_all

lemma runs_reserve_container_entry [run]:
  assumes "\<And>n. P n c"
  shows "runs cx c (reserve_container_entry cx element_size len capacity offset) P"
proof -
  have account: "runs cx c
    (p_bind (p_gets ps_container_bytes) (\<lambda>consumed.
     p_bind (p_some (checked_add consumed added) XInternalState offset) (\<lambda>total_container_bytes.
     p_bind (charge_retained cx added offset) (\<lambda>_.
     p_bind (p_modify (\<lambda>s. s\<lparr>ps_container_bytes := total_container_bytes\<rparr>)) (\<lambda>_.
       if total_container_bytes > syn_max_container_bytes (cx_limits cx)
       then p_resource LimContainerBytes (syn_max_container_bytes (cx_limits cx))
              (saturating_sub total_container_bytes added) added offset
       else p_return n))))) P" for added n
    by (rule charge_retained_outcome [of cx])
      (auto simp: runs_def p_bind_def p_gets_def p_some_def p_modify_def p_return_def p_fail_def checked_add_def
        parser_ok_def container_ok_def retained_ok_def retained_room_def assms split: option.splits)
  show ?thesis
    unfolding reserve_container_entry_def Let_def by (intro run impI account)
qed

lemma runs_allocate_owned [run]: "P () c \<Longrightarrow> runs cx c (allocate_owned cx len offset) P"
  by (rule charge_retained_outcome [of cx])
    (auto simp: runs_def allocate_owned_def Let_def charge_total_cases p_alloc_def p_bind_def p_gets_def p_some_def
      p_modify_def p_return_def p_fail_def checked_add_def parser_ok_def container_ok_def retained_ok_def
      retained_room_def split: option.splits)

lemma runs_copy_owned [run]: "P source c \<Longrightarrow> runs cx c (copy_owned cx source offset) P"
  unfolding copy_owned_def by (intro run impI)

end
