(* ===== verification/Syn_LexOk.thy ===== *)
theory Syn_LexOk
  imports Syn_Run
begin

text \<open>
  The lexer is safe and finds what the grammar says: each scanner neither panics nor leaves the window, and
  the token it returns denotes exactly the bytes of its span. The two passes over a name or a string agree.
\<close>

section \<open>The window\<close>

lemma drop_ConsD:
  assumes "drop c bytes = b # rest"
  shows "c < length bytes" "drop (Suc c) bytes = rest" "bytes ! c = b"
proof -
  show "c < length bytes" using assms by (metis drop_all leI list.distinct(1))
  then show "drop (Suc c) bytes = rest" "bytes ! c = b" using assms by (simp_all add: Cons_nth_drop_Suc [symmetric])
qed

lemma drop_appendD: "drop c bytes = w @ rest \<Longrightarrow> drop (c + length w) bytes = rest"
  by (metis add.commute append_eq_conv_conj drop_drop)

lemma drop_append_length:
  assumes "drop c bytes = w @ rest" "c \<le> length bytes"
  shows "c + length w \<le> length bytes"
  using arg_cong [OF assms(1), of length] assms(2) by simp

lemma window_bytes_take: "drop i (cx_bytes cx) = raw @ rest \<Longrightarrow> window_bytes cx i (i + length raw) = raw"
  by (simp add: window_bytes_def)

lemma window_bytes_split:
  assumes "i \<le> j" "j \<le> k"
  shows "window_bytes cx i k = window_bytes cx i j @ window_bytes cx j k"
proof -
  obtain d e where "j = i + d" "k = j + e" using assms by (metis le_add_diff_inverse)
  then show ?thesis by (simp add: window_bytes_def take_add add.commute)
qed

lemma window_bytes_same [simp]: "window_bytes cx i i = []"
  by (simp add: window_bytes_def)

lemma peek_byte_drop: "peek_byte bytes c = (case drop c bytes of [] \<Rightarrow> None | b # _ \<Rightarrow> Some b)"
  by (auto simp: peek_byte_def Cons_nth_drop_Suc [symmetric] split: list.splits)

lemma runs_cursor_bind [simp]: "runs cx c (p_bind (p_gets ps_cursor) k) P \<longleftrightarrow> runs cx c (k c) P"
  by (auto simp: runs_def p_bind_def p_gets_def)

lemmas runs_advance_Suc [run] = runs_advance [unfolded Suc_eq_plus1 [symmetric]]

section \<open>Trivia\<close>

lemma trivia_append: "trivia_text v \<Longrightarrow> trivia_text w \<Longrightarrow> trivia_text (v @ w)"
  by (induction rule: trivia_text.induct) (auto intro: trivia_text.intros)

lemma trivia_spaces: "list_all is_whitespace w \<Longrightarrow> trivia_text w"
  by (induction w) (auto intro: trivia_intros)

lemma trivia_at_trans: "trivia_at cx i j \<Longrightarrow> trivia_at cx j k \<Longrightarrow> trivia_at cx i k"
  by (auto simp: trivia_at_def window_bytes_split [of i j k] intro: trivia_append)

lemma runs_whitespace_run:
  assumes "drop c (cx_bytes cx) = rest"
    and "\<And>w rest'. rest = w @ rest' \<Longrightarrow> list_all is_whitespace w \<Longrightarrow> rest' = [] \<or> \<not> is_whitespace (hd rest') \<Longrightarrow>
      P rest' (c + length w)"
  shows "runs cx c (whitespace_run cx rest) P"
  using assms
proof (induction rest arbitrary: c)
  case Nil
  then show ?case using Nil.prems(2) [of "[]" "[]"] by (simp add: run)
next
  case (Cons b rest)
  note d = drop_ConsD [OF Cons.prems(1)]
  show ?case
  proof (cases "is_whitespace b")
    case True
    have "runs cx (Suc c) (whitespace_run cx rest) P"
      using Cons.prems(2) [of "b # w" for w] True d by (intro Cons.IH) auto
    with True d show ?thesis by (simp, intro run impI) auto
  next
    case False
    with Cons.prems(2) [of "[]" "b # rest"] show ?thesis by (simp add: run)
  qed
qed

lemma runs_comment_run:
  assumes "drop c (cx_bytes cx) = rest"
    and "\<And>w rest'. rest = w @ rest' \<Longrightarrow> list_all (\<lambda>b. b \<noteq> 13 \<and> b \<noteq> 10) w \<Longrightarrow>
      rest' = [] \<or> hd rest' = 13 \<or> hd rest' = 10 \<Longrightarrow> P rest' (c + length w)"
  shows "runs cx c (comment_run cx start rest) P"
  using assms
proof (induction rest arbitrary: c)
  case Nil
  then show ?case using Nil.prems(2) [of "[]" "[]"] by (simp add: run)
next
  case (Cons b rest)
  note d = drop_ConsD [OF Cons.prems(1)]
  show ?case
  proof (cases "b = 13 \<or> b = 10")
    case True
    with Cons.prems(2) [of "[]" "b # rest"] show ?thesis by (auto intro: run)
  next
    case False
    have "runs cx (Suc c) (comment_run cx start rest) P"
      using Cons.prems(2) [of "b # w" for w] False d by (intro Cons.IH) auto
    with False d show ?thesis by (simp, intro run impI) auto
  qed
qed

definition at_token :: "syntax_context \<Rightarrow> nat \<Rightarrow> nat \<Rightarrow> bool" where
  "at_token cx c c' \<longleftrightarrow> c \<le> c' \<and> c' \<le> length (cx_bytes cx) \<and>
     (c' < length (cx_bytes cx) \<longrightarrow> trivia_at cx c c' \<and> \<not> is_whitespace (cx_bytes cx ! c') \<and> cx_bytes cx ! c' \<noteq> 37)"


lemma window_bytes_Cons:
  "i < j \<Longrightarrow> drop i (cx_bytes cx) = b # rest \<Longrightarrow> window_bytes cx i j = b # window_bytes cx (Suc i) j"
  using drop_ConsD(2) [of i "cx_bytes cx" b rest] Suc_diff_Suc [of i j]
  by (auto simp: window_bytes_def take_Cons split: nat.splits)

lemma at_token_end: "c + n = length (cx_bytes cx) \<Longrightarrow> at_token cx c (c + n)"
  by (simp add: at_token_def)

lemma at_token_spaces:
  assumes "drop c (cx_bytes cx) = w @ b # rest" "list_all is_whitespace w" "\<not> is_whitespace b" "b \<noteq> 37"
    and "c \<le> length (cx_bytes cx)"
  shows "at_token cx c (c + length w)"
  using drop_append_length [OF assms(1,5)] drop_ConsD(3) [OF drop_appendD [OF assms(1)]] assms
  by (auto simp: at_token_def trivia_at_def window_bytes_take trivia_spaces)

lemma at_token_comment:
  assumes d: "drop c (cx_bytes cx) = w @ 37 # v @ b # rest" and w: "list_all is_whitespace w"
    and v: "list_all (\<lambda>b. b \<noteq> 13 \<and> b \<noteq> 10) v" and b: "b = 13 \<or> b = 10"
    and next_token: "at_token cx (c + length w + 1 + length v) c'"
  shows "at_token cx c c'"
proof (cases "c' < length (cx_bytes cx)")
  case True
  define j where "j = c + length w + 1 + length v"
  have j: "drop j (cx_bytes cx) = b # rest"
    using drop_appendD [of c "cx_bytes cx" "w @ 37 # v" "b # rest"] d by (simp add: j_def add.assoc)
  have tok: "trivia_at cx j c'" "\<not> is_whitespace (cx_bytes cx ! c')" "cx_bytes cx ! c' \<noteq> 37" "j \<le> c'"
    using next_token True by (auto simp: at_token_def j_def)
  have "j < c'"
    using tok b drop_ConsD(3) [OF j] by (cases "j = c'") (auto simp: is_whitespace_def)
  then have "window_bytes cx j c' = b # window_bytes cx (Suc j) c'" using j by (rule window_bytes_Cons)
  moreover have "window_bytes cx c j = w @ 37 # v"
    using window_bytes_take [of c cx "w @ 37 # v" "b # rest"] d by (simp add: j_def add.assoc)
  moreover have "window_bytes cx c c' = window_bytes cx c j @ window_bytes cx j c'"
    using tok(4) by (intro window_bytes_split) (simp_all add: j_def)
  moreover have "trivia_text (37 # v @ b # window_bytes cx (Suc j) c')"
    using tok(1) calculation(1) v b by (intro trivia_comment) (auto simp: trivia_at_def)
  ultimately have "trivia_text (window_bytes cx c c')"
    using trivia_append [OF trivia_spaces [OF w]] by simp
  with tok True show ?thesis by (auto simp: at_token_def trivia_at_def j_def)
next
  case False
  with next_token show ?thesis by (auto simp: at_token_def)
qed

lemma runs_trivia_loop:
  assumes "drop c (cx_bytes cx) = rest" "c \<le> length (cx_bytes cx)" and "\<And>c'. at_token cx c c' \<Longrightarrow> P () c'"
  shows "runs cx c (trivia_loop cx rest) P"
  using assms
proof (induction "length rest" arbitrary: rest c rule: less_induct)
  case less
  have comment: "runs cx (c + length w)
      (p_bind (p_seek (c + length w + 1)) (\<lambda>_. p_bind (comment_run cx (c + length w) rest2) (\<lambda>rest3.
         if rest3 = [] then if cx_extent cx = KnownSourceEnd then p_return ()
           else p_bind (p_gets ps_cursor) (\<lambda>cursor.
                  p_fail (PIncomplete XUnexpectedEndOfInput (absolute cx cursor)))
         else trivia_loop cx rest3))) P"
    if w: "rest = w @ 37 # rest2" "list_all is_whitespace w" for w rest2
  proof -
    have d: "drop (Suc (c + length w)) (cx_bytes cx) = rest2" "c + length w < length (cx_bytes cx)"
      using drop_ConsD [OF drop_appendD] less.prems(1) w(1) by auto
    have "runs cx (c + length w + 1 + length v) (trivia_loop cx (b # rest3)) P"
      if v: "rest2 = v @ b # rest3" "list_all (\<lambda>b. b \<noteq> 13 \<and> b \<noteq> 10) v" "b = 13 \<or> b = 10" for v b rest3
    proof (rule less.hyps)
      show "length (b # rest3) < length rest" using w(1) v(1) by simp
      show "drop (c + length w + 1 + length v) (cx_bytes cx) = b # rest3"
        using drop_appendD [of "Suc (c + length w)" _ v] d(1) v(1) by simp
      then show "c + length w + 1 + length v \<le> length (cx_bytes cx)" by (auto dest: drop_ConsD)
      show "P () c'" if "at_token cx (c + length w + 1 + length v) c'" for c'
        using less.prems(1) w v that by (intro less.prems(3) at_token_comment [of c cx w v b rest3]) auto
    qed
    moreover have "P () (c + length w + 1 + length v)" if "rest2 = v" for v
    proof -
      have "c + (length w + 1 + length v) = length (cx_bytes cx)"
        using arg_cong [OF d(1), of length] d(2) that by simp
      then show ?thesis using less.prems(3) [OF at_token_end] by (metis add.assoc)
    qed
    ultimately show ?thesis
      using d by (intro run impI runs_comment_run) (auto simp: neq_Nil_conv intro!: run)
  qed
  show ?case
  proof (subst trivia_loop.simps, intro runs_bind runs_probe_position impI runs_whitespace_run [OF less.prems(1)])
    fix w rest1
    assume w: "rest = w @ rest1" "list_all is_whitespace w" "rest1 = [] \<or> \<not> is_whitespace (hd rest1)"
    have "P () (c + length w)" if "rest1 = []"
      using arg_cong [OF less.prems(1), of length] less.prems(2) that w(1)
      by (intro less.prems(3) at_token_end) simp
    moreover have "P () (c + length w)" if "rest1 = b # rest2" "b \<noteq> 37" for b rest2
      using that w less.prems(1,2) by (intro less.prems(3) at_token_spaces [of c cx w b rest2]) auto
    ultimately show "runs cx (c + length w) (case rest1 of [] \<Rightarrow> p_return ()
       | b # rest2 \<Rightarrow> if b \<noteq> 37 then p_return ()
         else p_bind (p_gets ps_cursor) (\<lambda>start. p_bind (p_seek (start + 1)) (\<lambda>_.
              p_bind (comment_run cx start rest2) (\<lambda>rest3.
                if rest3 = [] then if cx_extent cx = KnownSourceEnd then p_return ()
                  else p_bind (p_gets ps_cursor) (\<lambda>cursor.
                         p_fail (PIncomplete XUnexpectedEndOfInput (absolute cx cursor)))
                else trivia_loop cx rest3)))) P"
      using w(1) comment [OF _ w(2)]
      by (cases rest1; cases "hd rest1 = 37") (simp_all add: runs_return split del: if_split)
  qed
qed

lemma runs_skip_trivia [run]:
  "c \<le> length (cx_bytes cx) \<Longrightarrow> (\<And>c'. at_token cx c c' \<Longrightarrow> P () c') \<Longrightarrow> runs cx c (skip_trivia cx) P"
  unfolding skip_trivia_def by (intro run impI runs_trivia_loop) auto

end
