(* ===== verification/Syn_NumOk.thy ===== *)
theory Syn_NumOk
  imports Syn_LexOk
begin

text \<open>
  Numbers: \<open>parse_number\<close> and the look-ahead \<open>probe_integer_token\<close> accept only the numbers of the grammar and
  compute their values within the bounds of \<open>i64\<close>.
\<close>

fun kind_text :: "u8 list \<Rightarrow> token_kind \<Rightarrow> bool" where
  "kind_text raw ArrayOpen = (raw = [91])"
| "kind_text raw ArrayClose = (raw = [93])"
| "kind_text raw DictionaryOpen = (raw = [60, 60])"
| "kind_text raw DictionaryClose = (raw = [62, 62])"
| "kind_text raw (IntegerTok i) = scalar_text raw (SynInteger i)"
| "kind_text raw (RealTok r) = scalar_text raw (SynReal r)"
| "kind_text raw (NameTok n) = scalar_text raw (SynName n)"
| "kind_text raw (StringTok str) = scalar_text raw (SynString str)"
| "kind_text raw (KeywordTok k) = (raw = k \<and> k \<noteq> [] \<and> list_all (\<lambda>b. \<not> is_delimiter b) k)"

lemma peek_byte_append:
  "peek_byte (pre @ r) (length pre) = (case r of [] \<Rightarrow> None | b # _ \<Rightarrow> Some b)"
  "peek_byte (pre @ r) (Suc (length pre)) = (case r of _ # b # _ \<Rightarrow> Some b | _ \<Rightarrow> None)"
  by (auto simp: peek_byte_drop split: list.split)

lemma runs_digit_run:
  assumes "\<And>ds rest'. rest = ds @ rest' \<Longrightarrow> digits ds \<Longrightarrow> rest' = [] \<or> \<not> is_ascii_digit (hd rest') \<Longrightarrow>
      P (index + length ds) c"
  shows "runs cx c (digit_run cx offset rest index) P"
  using assms
proof (induction rest arbitrary: index)
  case Nil
  then show ?case using Nil.prems [of "[]" "[]"] by (simp add: run digits_code)
next
  case (Cons b rest)
  show ?case
  proof (cases "is_ascii_digit b")
    case True
    have "runs cx c (digit_run cx offset rest (Suc index)) P"
      using Cons.prems [of "b # ds" for ds] True by (intro Cons.IH) (auto simp: digits_code)
    with True show ?thesis by (simp, intro run impI) auto
  next
    case False
    with Cons.prems [of "[]" "b # rest"] show ?thesis by (simp add: run digits_code)
  qed
qed

lemma shift_digit_value: "shift_digit m b = Some v \<Longrightarrow> v = 10 * m + unat (b - 48)"
  by (auto simp: shift_digit_def checked_mul_def dest: checked_add_SomeD split: option.splits if_splits)

lemma runs_magnitude_loop:
  assumes "P (foldl (\<lambda>m d. 10 * m + unat (d - 48)) m ds) c"
  shows "runs cx c (magnitude_loop cx offset ds m) P"
  using assms
proof (induction ds arbitrary: m)
  case (Cons b ds)
  show ?case
    using Cons.prems by (simp, intro run impI, blast dest: shift_digit_value intro: Cons.IH) 
qed (simp add: run)

lemma runs_exponent_run:
  assumes "raw = pre @ e # r" "e = 101 \<or> e = 69" and "\<And>i. i = length raw \<longrightarrow> exponent_text (e # r) \<Longrightarrow> P i c"
  shows "runs cx c (exponent_run cx raw offset (length pre)) P"
proof -
  obtain sg body where b: "r = sg @ body" "sg \<in> {[], [43], [45]}"
    and sg: "sg \<noteq> [] \<longleftrightarrow> peek_byte raw (length pre + 1) = Some 43 \<or> peek_byte raw (length pre + 1) = Some 45"
  proof (cases r)
    case Nil
    then show ?thesis using that [of "[]" "[]"] assms(1) by (simp add: peek_byte_append)
  next
    case (Cons x xs)
    then show ?thesis
      using that [of "[x]" xs] that [of "[]" r] assms(1) by (cases "x = 43 \<or> x = 45") (auto simp: peek_byte_append)
  qed
  have start: "(if peek_byte raw (length pre + 1) = Some 43 \<or> peek_byte raw (length pre + 1) = Some 45
      then length pre + 2 else length pre + 1) = length (pre @ e # sg)"
    using b(2) sg by auto
  have body: "drop (length (pre @ e # sg)) raw = body"
    using assms(1) b(1) by (simp del: append_assoc add: append_assoc [symmetric]) 
  show ?thesis
    unfolding exponent_run_def Let_def start body
    using assms(1,2) b
    by (intro run impI runs_digit_run assms(3))
      (auto simp: exponent_text_def)
qed

lemma signed_value_integer:
  assumes "signed_value (sg = [45]) (digits_value ds) = Some i" "sg \<in> {[], [43], [45]}" "ds \<noteq> []" "digits ds"
  shows "integer_text (sg @ ds) = Some i \<and> i64_range i"
proof -
  have "ds = b # r \<Longrightarrow> b \<noteq> 45 \<and> b \<noteq> 43" for b r
    using assms(4) by (auto simp: digits_code is_ascii_digit_def)
  then show ?thesis
    using assms
    by (cases ds) (auto simp: integer_text_def natural_text_def signed_value_def i64_range_def split: if_splits)
qed

lemma sign_split:
  obtains sg body where "raw = sg @ body" "sg \<in> {[], [43], [45]}" "peek_byte raw 0 = Some 45 \<longleftrightarrow> sg = [45]"
    "(if peek_byte raw 0 = Some 45 \<or> peek_byte raw 0 = Some 43 then 1 else 0) = length sg"
proof (cases raw)
  case Nil
  then show ?thesis using that [of "[]" "[]"] by (simp add: peek_byte_def)
next
  case (Cons b r)
  then show ?thesis
    using that [of "[b]" r] that [of "[]" raw] by (cases "b = 43 \<or> b = 45") (auto simp: peek_byte_def)
qed

lemma real_textI:
  assumes "raw = sg @ whole @ fraction @ ex" "sg \<in> {[], [43], [45]}" "digits whole"
    and "fraction = [] \<and> whole \<noteq> [] \<or> (\<exists>ds. fraction = 46 # ds \<and> digits ds \<and> (whole \<noteq> [] \<or> ds \<noteq> []))"
    and "ex = [] \<and> fraction \<noteq> [] \<and> form = DecimalNotation \<or> exponent_text ex \<and> form = ExponentNotation"
  shows "real_text raw form"
  unfolding real_text_def using assms by blast

text \<open>The part of \<open>parse_number\<close> behind the fraction.\<close>

lemma runs_number_kind:
  assumes raw: "raw = sg @ whole @ fraction @ r" and sg: "sg \<in> {[], [43], [45]}" and whole: "digits whole"
    and fraction: "has_dot \<and> (\<exists>ds. fraction = 46 # ds \<and> digits ds \<and> (whole \<noteq> [] \<or> ds \<noteq> [])) \<or>
      \<not> has_dot \<and> fraction = [] \<and> whole \<noteq> []"
    and P: "\<And>kind. kind_text raw kind \<Longrightarrow> P kind c"
    and fraction_end: "fraction_end = length sg + length whole + length fraction"
  shows "runs cx c (number_kind cx raw offset (sg = [45]) (length sg) has_dot fraction_end) P"
proof -
  define pre where "pre = sg @ whole @ fraction"
  have raw': "raw = pre @ r" and end': "fraction_end = length pre" using raw fraction_end by (simp_all add: pre_def)
  consider e r' where "r = e # r'" "e = 101 \<or> e = 69" | "\<not> (\<exists>e r'. r = e # r' \<and> (e = 101 \<or> e = 69))" by blast
  then show ?thesis
  proof cases
    case 1
    then have he: "peek_byte raw (length pre) = Some 101 \<or> peek_byte raw (length pre) = Some 69"
      using raw' by (auto simp: peek_byte_append)
    have "kind_text raw (RealTok \<lparr>real_raw = raw, real_notation = ExponentNotation\<rparr>)" if "exponent_text (e # r')"
      using real_textI [of raw sg whole fraction "e # r'"] that raw sg whole fraction 1(1) by auto
    then have real: "P (RealTok \<lparr>real_raw = raw, real_notation = ExponentNotation\<rparr>) c" if "exponent_text (e # r')"
      using that by (intro P)
    have e: "raw = pre @ e # r'" using raw' 1(1) by simp
    show ?thesis
      unfolding number_kind_def Let_def end' if_P [OF he]
      by (intro run impI runs_exponent_run [OF e 1(2)]) (simp_all add: he real)
  next
    case 2
    then have he: "\<not> (peek_byte raw (length pre) = Some 101 \<or> peek_byte raw (length pre) = Some 69)"
      using raw' by (auto simp: peek_byte_append split: list.splits)
    show ?thesis
    proof (cases has_dot)
      case True
      then have "kind_text raw (RealTok \<lparr>real_raw = raw, real_notation = DecimalNotation\<rparr>)" if "r = []"
        using real_textI [of raw sg whole fraction "[]"] that raw sg whole fraction by auto
      with he raw' True show ?thesis unfolding number_kind_def Let_def end' by (auto intro!: run P)
    next
      case False
      then have w: "fraction = []" "whole \<noteq> []" using fraction by auto
      have "kind_text raw (IntegerTok v)" if "r = []" "signed_value (sg = [45]) (digits_value whole) = Some v" for v
        using that signed_value_integer [OF that(2) sg w(2) whole] raw w(1) by simp
      with he raw raw' False w show ?thesis
        unfolding number_kind_def Let_def end'
        by (auto intro!: run runs_magnitude_loop P simp: digits_value_def pre_def)
    qed
  qed
qed

lemma runs_parse_number:
  assumes P: "\<And>kind. kind_text raw kind \<Longrightarrow> P kind c"
  shows "runs cx c (parse_number cx raw offset) P"
proof -
  obtain sg body where s: "raw = sg @ body" "sg \<in> {[], [43], [45]}" "peek_byte raw 0 = Some 45 \<longleftrightarrow> sg = [45]"
    "(if peek_byte raw 0 = Some 45 \<or> peek_byte raw 0 = Some 43 then 1 else 0) = length sg"
    by (rule sign_split)
  have rest_at: "peek_byte raw (length sg + length ds) = Some 46 \<longleftrightarrow> (\<exists>r. rest = 46 # r)"
      "drop (length sg + length ds + 1) raw = tl rest" if "body = ds @ rest" for ds rest
    using that s(1) peek_byte_append(1) [of "sg @ ds" rest] tl_drop [of "length sg + length ds" raw]
    by (auto split: list.splits simp: drop_Suc)
  show ?thesis
    unfolding parse_number_def s(4) unfolding s(3) Let_def
  proof (intro runs_bind runs_digit_run impI, goal_cases)
    case (1 ds rest)
    then have body: "body = ds @ rest" using s(1) by simp
    have kind: "runs cx c (number_kind cx raw offset (sg = [45]) (length sg) has_dot
        (length sg + length ds + length fraction)) P"
      if "raw = sg @ ds @ fraction @ r" "has_dot \<and> (\<exists>fs. fraction = 46 # fs \<and> digits fs \<and> (ds \<noteq> [] \<or> fs \<noteq> [])) \<or>
        \<not> has_dot \<and> fraction = [] \<and> ds \<noteq> []" for has_dot fraction r
      by (rule runs_number_kind [where whole = ds and fraction = fraction and r = r]) (use that s(2) 1(2) P in auto)
    show ?case
    proof (cases "\<exists>r. rest = 46 # r")
      case True
      then obtain r where r: "rest = 46 # r" by blast
      show ?thesis
        unfolding rest_at [OF body] if_P [OF True] r list.sel
      proof (intro runs_digit_run impI runs_if runs_fails, goal_cases)
        case (1 fs r')
        then show ?case using kind [of "46 # fs" r' True] s(1) body r by auto
      qed simp
    next
      case False
      then show ?thesis
        unfolding rest_at [OF body] if_not_P [OF False]
        using kind [of "[]" rest False] s(1) body
        by (intro runs_return impI runs_if runs_fails) auto
    qed
  qed
qed

end
