(* ===== verification/Syn_ScanOk.thy ===== *)
theory Syn_ScanOk
  imports Syn_NumOk
begin

text \<open>
  Regular tokens, names and strings, and the tokens as a whole: a token denotes the bytes between its start
  and the new cursor.
\<close>

definition scanned :: "syntax_context \<Rightarrow> nat \<Rightarrow> token \<Rightarrow> nat \<Rightarrow> bool" where
  "scanned cx i t j \<longleftrightarrow> i < j \<and> j \<le> length (cx_bytes cx) \<and> t = make_token cx i j (tk_kind t) \<and>
     kind_text (window_bytes cx i j) (tk_kind t)"

lemma scannedI:
  "i < j \<Longrightarrow> j \<le> length (cx_bytes cx) \<Longrightarrow> kind_text (window_bytes cx i j) kind \<Longrightarrow>
     scanned cx i (make_token cx i j kind) j"
  by (simp add: scanned_def make_token_def)

lemma runs_need_byte [run]: "P () c \<Longrightarrow> runs cx c (need_byte cx index code) P"
  by (simp add: need_byte_def run)

lemma runs_pair [run]: "runs cx c (f a b) P \<Longrightarrow> runs cx c (case (a, b) of (x, y) \<Rightarrow> f x y) P"
  by simp

section \<open>Regular tokens\<close>

lemma runs_regular_loop:
  assumes "drop index (cx_bytes cx) = rest" "index \<le> length (cx_bytes cx)"
    and "\<And>j. index \<le> j \<Longrightarrow> j \<le> length (cx_bytes cx) \<Longrightarrow>
      list_all (\<lambda>b. \<not> is_delimiter b) (window_bytes cx index j) \<Longrightarrow>
      j < length (cx_bytes cx) \<longrightarrow> is_delimiter (cx_bytes cx ! j) \<Longrightarrow> P j c"
  shows "runs cx c (regular_loop cx start rest index) P"
  using assms
proof (induction rest arbitrary: index)
  case Nil
  then show ?case using Nil.prems(3) [of index] by (simp add: run)
next
  case (Cons b rest)
  note d = drop_ConsD [OF Cons.prems(1)]
  show ?case
  proof (cases "is_delimiter b")
    case True
    then show ?thesis using Cons.prems(2,3) d(3) by (simp add: run)
  next
    case False
    have "P j c" if "Suc index \<le> j" "j \<le> length (cx_bytes cx)"
      "list_all (\<lambda>b. \<not> is_delimiter b) (window_bytes cx (Suc index) j)"
      "j < length (cx_bytes cx) \<longrightarrow> is_delimiter (cx_bytes cx ! j)" for j
      using that False window_bytes_Cons [OF _ Cons.prems(1), of j] by (intro Cons.prems(3)) auto
    then have "runs cx c (regular_loop cx start rest (Suc index)) P"
      using d by (intro Cons.IH) auto
    with False show ?thesis by (simp, intro run impI)
  qed
qed

lemma runs_scan_regular:
  assumes "start < length (cx_bytes cx)" and "\<And>t j. scanned cx start t j \<Longrightarrow> P t j"
  shows "runs cx c (scan_regular cx start) P"
  unfolding scan_regular_def Let_def
proof (intro run impI runs_regular_loop runs_parse_number)
  show "P (make_token cx start j kind) j"
    if "start \<le> j" "j \<le> length (cx_bytes cx)" "j \<noteq> start" "kind_text (window_bytes cx start j) kind" for j kind
    using that by (intro assms(2) scannedI) auto
  show "P (make_token cx start j (KeywordTok (window_bytes cx start j))) j"
    if j: "start \<le> j" "j \<le> length (cx_bytes cx)" "j \<noteq> start"
      "list_all (\<lambda>b. \<not> is_delimiter b) (window_bytes cx start j)" for j
  proof -
    have "0 < length (window_bytes cx start j)" using j(1-3) by simp
    then have "window_bytes cx start j \<noteq> []" by blast
    then show ?thesis using j by (intro assms(2) scannedI) auto
  qed
qed (use assms(1) in auto)

lemma runs_probe_digits:
  assumes "\<And>ds rest' m' o'. rest = ds @ rest' \<Longrightarrow> digits ds \<Longrightarrow> rest' = [] \<or> \<not> is_ascii_digit (hd rest') \<Longrightarrow>
      \<not> o' \<longrightarrow> \<not> overflowed \<and> m' = foldl (\<lambda>m d. 10 * m + unat (d - 48)) m ds \<Longrightarrow> P (index + length ds, m', o') c"
  shows "runs cx c (probe_digits cx start rest index m overflowed) P"
  using assms
proof (induction rest arbitrary: index m overflowed)
  case Nil
  then show ?case using Nil.prems [of "[]" "[]"] by (simp add: run digits_code)
next
  case (Cons b rest)
  show ?case
  proof (cases "is_ascii_digit b")
    case True
    define m1 where "m1 = (case shift_digit m b of None \<Rightarrow> m | Some v \<Rightarrow> v)"
    have "runs cx c (probe_digits cx start rest (Suc index) m1 (overflowed \<or> shift_digit m b = None)) P"
    proof (rule Cons.IH)
      fix ds rest' m' o'
      assume "rest = ds @ rest'" "digits ds" "rest' = [] \<or> \<not> is_ascii_digit (hd rest')"
        "\<not> o' \<longrightarrow> \<not> (overflowed \<or> shift_digit m b = None) \<and> m' = foldl (\<lambda>m d. 10 * m + unat (d - 48)) m1 ds"
      then show "P (Suc index + length ds, m', o') c"
        using Cons.prems [of "b # ds" rest' o' m'] True
        by (auto simp: digits_code m1_def split: option.splits dest!: shift_digit_value)
    qed
    with True show ?thesis by (simp add: Let_def m1_def, intro run impI) auto
  next
    case False
    with Cons.prems [of "[]" "b # rest"] show ?thesis by (simp add: run digits_code)
  qed
qed

lemma peek_byte_drop_0: "peek_byte bytes c = peek_byte (drop c bytes) 0"
  by (simp add: peek_byte_drop [of bytes] peek_byte_drop [of "drop c bytes"])

lemma runs_probe_integer_token [run]:
  assumes c: "c \<le> length (cx_bytes cx)" and none: "P None c"
    and some: "\<And>v j. c < j \<Longrightarrow> j \<le> length (cx_bytes cx) \<Longrightarrow> integer_text (window_bytes cx c j) = Some v \<Longrightarrow>
      i64_range v \<Longrightarrow> P (Some v) j"
  shows "runs cx c (probe_integer_token cx) P"
proof -
  define first where "first = peek_byte (cx_bytes cx) c"
  obtain sg body where s: "drop c (cx_bytes cx) = sg @ body" "sg \<in> {[], [43], [45]}" "first = Some 45 \<longleftrightarrow> sg = [45]"
    "(if first = Some 45 \<or> first = Some 43 then 1 else 0) = length sg"
    unfolding first_def peek_byte_drop_0 [of "cx_bytes cx" c] by (rule sign_split)
  have index: "(if first = Some 45 \<or> first = Some 43 then c + 1 else c) = c + length sg" using s(4) by auto
  have body: "drop (c + length sg) (cx_bytes cx) = body" using drop_appendD [OF s(1)] .
  have digits_end: "P (Some v) (c + length sg + length ds) \<and> c + length sg + length ds \<le> length (cx_bytes cx)"
    if "body = ds @ rest" "digits ds" "rest = [] \<or> \<not> is_ascii_digit (hd rest)"
      "peek_byte (cx_bytes cx) (c + length sg) = Some b" "is_ascii_digit b"
      "signed_value (sg = [45]) (digits_value ds) = Some v" for ds rest b v
  proof -
    have "ds \<noteq> []" using that(1,3,4,5) body by (auto simp: peek_byte_drop split: list.splits)
    moreover have "drop c (cx_bytes cx) = (sg @ ds) @ rest" using s(1) that(1) by simp
    moreover note window_bytes_take [OF this] drop_append_length [OF this c]
      signed_value_integer [OF that(6) s(2) calculation(1) that(2)]
    ultimately show ?thesis by (intro conjI some) (auto simp: add.assoc)
  qed
  show ?thesis
    unfolding probe_integer_token_def Let_def runs_cursor_bind first_def [symmetric] unfolding index body
    unfolding s(3) using none
    by (intro run impI runs_probe_digits) (auto simp: digits_value_def dest: digits_end)
qed

section \<open>Names\<close>

lemma hex_value_bound: "hex_value b = Some v \<Longrightarrow> v < 16"
  unfolding hex_value_def
  by (auto split: if_splits simp: word_less_nat_alt word_le_nat_alt unat_sub unat_word_ariths)

lemma hex_pair_value: "low < 16 \<Longrightarrow> hex_pair high low = 16 * high + low" for high low :: u8
proof -
  assume "low < 16"
  then have "take_bit 4 low = low" by (simp add: take_bit_eq_mod mod_word_less)
  then have "bit low n \<Longrightarrow> n < 4" for n by (metis bit_take_bit_iff)
  then have "push_bit 4 high AND low = 0" by (intro bit_word_eqI) (fastforce simp: bit_simps dest: not_less [THEN iffD2])
  then show ?thesis unfolding hex_pair_def
    by (subst disjunctive_add_eq_or [symmetric]) (simp_all add: push_bit_eq_mult mult.commute)
qed

lemma name_text_Cons:
  "\<not> is_delimiter b \<Longrightarrow> b \<noteq> 35 \<Longrightarrow> name_text (b # raw) = map_option ((#) b) (name_text raw)"
  "hex_value h = Some high \<Longrightarrow> hex_value l = Some low \<Longrightarrow>
     name_text (35 # h # l # raw) = map_option ((#) (16 * high + low)) (name_text raw)"
  by (simp_all add: is_delimiter_def is_whitespace_def)

lemma runs_name_loop:
  assumes "\<And>raw rest' decoded. rest = raw @ rest' \<Longrightarrow> name_text raw = Some decoded \<Longrightarrow>
      P (index + length raw, n + length decoded) c"
  shows "runs cx c (name_loop cx start rest index n) P"
  using assms
proof (induction "length rest" arbitrary: rest index n rule: less_induct)
  case less
  show ?case
  proof (cases rest)
    case Nil
    then show ?thesis using less.prems [of "[]" "[]"] by (simp add: run)
  next
    case (Cons b rest1)
    have plain: "runs cx c (name_loop cx start rest1 (Suc index) (Suc n)) P" if "\<not> is_delimiter b" "b \<noteq> 35"
    proof (rule less.hyps)
      show "length rest1 < length rest" using Cons by simp
      fix raw rest' decoded
      assume "rest1 = raw @ rest'" "name_text raw = Some decoded"
      then show "P (Suc index + length raw, Suc n + length decoded) c"
        using less.prems [of "b # raw" rest' "b # decoded"] Cons that by (simp add: name_text_Cons)
    qed
    have escape: "runs cx c (name_loop cx start rest2 (index + 3) (Suc n)) P"
      if "b = 35" "rest1 = h # l # rest2" "hex_value h = Some high" "hex_value l = Some low" for h l rest2 high low
    proof (rule less.hyps)
      show "length rest2 < length rest" using Cons that by simp
      fix raw rest' decoded
      assume "rest2 = raw @ rest'" "name_text raw = Some decoded"
      then show "P (index + 3 + length raw, Suc n + length decoded) c"
        using less.prems [of "35 # h # l # raw" rest' "(16 * high + low) # decoded"] Cons that
        by (simp add: name_text_Cons(2) add.assoc [symmetric] eval_nat_numeral del: name_text_code)
    qed
    have stop: "P (index, n) c" using less.prems [of "[]" rest "[]"] by simp
    show ?thesis
      using plain escape stop unfolding Cons name_loop.simps name_step_def
      by (intro run impI) (auto split: list.split intro!: run)
  qed
qed

lemma runs_name_decode:
  assumes "name_text raw = Some out" "P (decoded @ out) c" "stop = source + length raw"
  shows "runs cx c (name_decode cx (raw @ rest) source stop decoded) P"
  using assms
proof (induction "length raw" arbitrary: raw source decoded out rule: less_induct)
  case less
  show ?case
  proof (cases raw)
    case Nil
    then show ?thesis using less.prems by (cases rest) (auto intro: run)
  next
    case (Cons b raw1)
    show ?thesis
    proof (cases "b = 35")
      case True
      then obtain h l raw2 high low out' where e: "raw1 = h # l # raw2" "hex_value h = Some high"
          "hex_value l = Some low" "name_text raw2 = Some out'" "out = (16 * high + low) # out'"
        using less.prems(1) Cons by (auto split: list.splits option.splits if_splits)
      have "runs cx c (name_decode cx (raw2 @ rest) (source + 3) stop (decoded @ [hex_pair high low])) P"
        using less.prems(2,3) e Cons hex_value_bound [of l low]
        by (intro less.hyps) (auto simp: hex_pair_value)
      then show ?thesis using Cons True e less.prems(3) by (auto intro!: run simp: eval_nat_numeral)
    next
      case False
      then obtain out' where e: "name_text raw1 = Some out'" "out = b # out'"
        using less.prems(1) Cons by (auto split: if_splits)
      have "runs cx c (name_decode cx (raw1 @ rest) (source + 1) stop (decoded @ [b])) P"
        using less.prems(2,3) e Cons by (intro less.hyps) auto
      then show ?thesis using Cons False less.prems(3) by (auto intro!: run)
    qed
  qed
qed

lemma runs_scan_name:
  assumes start: "drop start (cx_bytes cx) = 47 # rest" and P: "\<And>t j. scanned cx start t j \<Longrightarrow> P t j"
  shows "runs cx c (scan_name cx start) P"
proof -
  note d = drop_ConsD [OF start]
  have "P (make_token cx start (start + 1 + length raw) (NameTok (name_of_bytes decoded))) (start + 1 + length raw) \<and>
      start + 1 + length raw \<le> length (cx_bytes cx)"
    if "rest = raw @ rest'" "name_text raw = Some decoded" for raw rest' decoded
    using that start window_bytes_take [of start cx "47 # raw" rest'] drop_append_length [of start _ "47 # raw" rest'] d(1)
    by (intro conjI P scannedI) auto
  then show ?thesis
    unfolding scan_name_def using d
    by (intro run impI runs_name_loop) (auto intro!: run runs_name_decode)
qed

end
