(* ===== verification/Syn_StringOk.thy ===== *)
theory Syn_StringOk
  imports Syn_ScanOk
begin

text \<open>
  Strings: the first pass of a literal string finds its end and the number of decoded bytes, the second
  pass writes exactly that many, and they are what the grammar says.
\<close>

section \<open>Octal escapes\<close>

lemma octal_run_le: "octal_run n bytes \<le> length bytes"
  by (induction n arbitrary: bytes) (auto split: list.split)

lemma octal_run_append:
  "octal_run n (xs @ ys) < length xs \<Longrightarrow> octal_run n (xs @ ys) = octal_run n xs"
  by (induction n arbitrary: xs) (auto split: list.split simp: Cons_eq_append_conv)

lemma octal_shift: "is_octal_digit b \<Longrightarrow> push_bit 3 v OR ucast (b - 48) = 8 * v + word_of_nat (unat (b - 48))"
  for v :: "16 word"
proof -
  assume "is_octal_digit b"
  then have "unat (b - 48) < 8"
    by (auto simp: is_octal_digit_def word_le_nat_alt unat_sub)
  then have "word_of_nat (unat (b - 48)) < (8 :: 16 word)" 
    by (simp add: word_less_nat_alt unsigned_ucast_eq take_bit_nat_eq_self)
  then have "take_bit 3 (word_of_nat (unat (b - 48)) :: 16 word) = word_of_nat (unat (b - 48))"
    by (simp add: take_bit_eq_mod mod_word_less)
  then have "bit (word_of_nat (unat (b - 48)) :: 16 word) n \<Longrightarrow> n < 3" for n by (metis bit_take_bit_iff)
  then have "push_bit 3 v AND word_of_nat (unat (b - 48)) = 0"
    by (intro bit_word_eqI) (fastforce simp: bit_simps dest: not_less [THEN iffD2])
  then show ?thesis
    by (subst disjunctive_add_eq_or [symmetric]) (simp_all add: push_bit_eq_mult mult.commute)
qed

lemma octal_value_foldl:
  "octal_value n bytes (word_of_nat m) =
     word_of_nat (foldl (\<lambda>m d. 8 * m + unat (d - 48)) m (take (octal_run n bytes) bytes))"
proof (induction n arbitrary: bytes m)
  case (Suc n)
  show ?case
  proof (cases bytes)
    case (Cons b rest)
    then show ?thesis
      using Suc.IH [of rest "8 * m + unat (b - 48)"] by (simp add: octal_shift)
  qed simp
qed simp

lemma octal_byte_value: "ucast (octal_value n bytes 0 AND 0xff) = octal_byte (take (octal_run n bytes) bytes)"
proof -
  have "ucast (w AND 0xff) = (ucast w :: u8)" for w :: "16 word"
  proof -
    have "w AND 0xff = take_bit 8 w" by (simp add: take_bit_eq_mask mask_eq_exp_minus_1)
    then show ?thesis by (auto intro!: bit_word_eqI simp: bit_simps)
  qed
  moreover have "ucast (word_of_nat m :: 16 word) = (word_of_nat m :: u8)" for m
    by (intro bit_word_eqI) (auto simp: bit_simps)
  ultimately show ?thesis
    using octal_value_foldl [of n bytes 0] by (simp add: octal_byte_def)
qed

section \<open>Literal strings\<close>

text \<open>\<open>literal_decodes n bytes k out\<close>: with \<open>n\<close> parentheses open, the turns of the second pass consume \<open>k\<close> of
  the bytes and write \<open>out\<close>.\<close>

inductive literal_decodes :: "nat \<Rightarrow> u8 list \<Rightarrow> nat \<Rightarrow> u8 list \<Rightarrow> bool" where
  decodes_last: "literal_decode_step b rest n = Some (True, used, n', added) \<Longrightarrow> literal_decodes n (b # rest) used []"
| decodes_more: "literal_decode_step b rest n = Some (False, used, n', added) \<Longrightarrow>
    literal_decodes n' (drop (used - 1) rest) k out \<Longrightarrow> literal_decodes n (b # rest) (used + k) (added @ out)"

lemma decode_step_bounds:
  "literal_decode_step b rest n = Some (fin, used, n', added) \<Longrightarrow>
     1 \<le> used \<and> used \<le> Suc (length rest) \<and> (fin \<longrightarrow> used = 1 \<and> b = 41 \<and> n = 1)"
  using octal_run_le [of 3 rest]
  by (auto simp: literal_decode_step_def starts_newline_def peek_byte_drop split: if_splits list.splits)

lemma literal_decodes_length: "literal_decodes n bytes k out \<Longrightarrow> 1 \<le> k \<and> k \<le> length bytes"
  by (induction rule: literal_decodes.induct) (auto dest: decode_step_bounds)

lemma runs_literal_step:
  assumes n: "1 \<le> n"
    and P: "\<And>fin used n' added. literal_decode_step b rest n = Some (fin, used, n', added) \<Longrightarrow> fin \<or> 1 \<le> n' \<Longrightarrow>
      P (fin, index + used, n', m + length added) c"
  shows "runs cx c (literal_step cx start b rest index n m) P"
proof -
  have step: "case literal_decode_step b rest n of None \<Rightarrow> True
    | Some (fin, used, n', added) \<Rightarrow> fin \<or> 1 \<le> n' \<longrightarrow> P (fin, index + used, n', m + length added) c"
    using P by (auto split: option.split)
  consider (other) "b \<noteq> 92" | (none) "b = 92" "rest = []" | (escape) e rest2 where "b = 92" "rest = e # rest2"
    by (cases rest) auto
  then show ?thesis
  proof cases
    case other
    then show ?thesis
      using n step unfolding literal_step_def literal_decode_step_def Let_def
      by (intro run impI) (auto split: if_splits)
  next
    case none
    then show ?thesis by (simp add: literal_step_def Let_def run)
  next
    case escape
    then have eq: "literal_step cx start b rest index n m =
      p_bind (check_string_source cx start (index + 2)) (\<lambda>_.
      p_bind (literal_escape cx start e rest2 (index + 1)) (\<lambda>(index', added).
      p_bind (check_string_source cx start index') (\<lambda>_. p_return (False, index', n, m + added))))"
      by (simp add: literal_step_def Let_def)
    have accept: "P (False, index + used, n, m + length added) c"
      if "literal_decode_step b rest n = Some (False, used, n, added)" for used added
      using P [OF that] n by simp
    have octal: "octal_run 3 rest = 1 + octal_run 2 rest2" if "is_octal_digit e"
      using that by (simp add: escape numeral_3_eq_3 numeral_2_eq_2)
    have 1: "P (False, index + 1 + 2, n, m + 0) c" if "e = 13" "starts_newline rest2"
      using accept [of 3 "[]"] that by (simp add: escape literal_decode_step_def numeral_3_eq_3)
    have 2: "P (False, index + 1 + 1, n, m + 0) c" if "e = 13 \<and> \<not> starts_newline rest2 \<or> e = 10"
      using accept [of 2 "[]"] that by (auto simp: escape literal_decode_step_def)
    have 3: "P (False, index + 1 + 1 + octal_run 2 rest2, n, m + 1) c" if "e \<noteq> 13" "e \<noteq> 10" "is_octal_digit e"
      using accept [of "2 + octal_run 2 rest2" "[ucast (octal_value 3 rest 0 AND 0xff)]"] that octal
      by (simp add: escape literal_decode_step_def)
    have 4: "P (False, index + 1 + 1, n, m + 1) c" if "e \<noteq> 13" "e \<noteq> 10" "\<not> is_octal_digit e"
      using accept [of 2 "[escape_byte e]"] that by (simp add: escape literal_decode_step_def)
    show ?thesis
      unfolding eq literal_escape_def by (intro run impI 1 2 3 4) auto
  qed
qed

lemma runs_literal_loop:
  assumes "1 \<le> n" and P: "\<And>k out. literal_decodes n rest k out \<Longrightarrow> P (index + k, m + length out) c"
  shows "runs cx c (literal_loop cx start rest index n m) P"
  using assms
proof (induction "length rest" arbitrary: rest index n m rule: less_induct)
  case less
  show ?case
  proof (cases rest)
    case Nil
    then show ?thesis by (simp, intro run impI)
  next
    case (Cons b rest1)
    have more: "runs cx c (literal_loop cx start (drop (used - 1) rest1) (index + used) n' (m + length added)) P"
      if "literal_decode_step b rest1 n = Some (False, used, n', added)" "1 \<le> n'" for used n' added
    proof (rule less.hyps)
      fix k out
      assume "literal_decodes n' (drop (used - 1) rest1) k out"
      then have "literal_decodes n rest (used + k) (added @ out)" using that(1) Cons by (simp add: decodes_more)
      from less.prems(2) [OF this] show "P (index + used + k, m + length added + length out) c" by (simp add: add.assoc)
    qed (use Cons that(2) in auto)
    have last: "P (index + used, m + length added) c"
      if "literal_decode_step b rest1 n = Some (True, used, n', added)" for used n' added
      using less.prems(2) [of used "[]"] decodes_last [OF that] that Cons
      by (auto simp: literal_decode_step_def split: if_splits list.splits)
    show ?thesis
      unfolding Cons literal_loop.simps
      using more last decode_step_bounds [of b rest1 n]
      by (intro run impI runs_literal_step less.prems(1)) (auto simp: Suc_diff_le)
  qed
qed

lemma runs_literal_decode:
  assumes "literal_decodes n rest k out" "P (decoded @ out) c" "stop = source + k"
  shows "runs cx c (literal_decode cx rest source stop n decoded) P"
  using assms
proof (induction arbitrary: source decoded rule: literal_decodes.induct)
  case (decodes_last b rest n used n' added)
  moreover have "1 \<le> used" using decodes_last.hyps decode_step_bounds by blast
  ultimately show ?case by (auto intro!: run)
next
  case (decodes_more b rest n used n' added k out)
  moreover have "1 \<le> used" using decodes_more.hyps(1) decode_step_bounds by blast
  moreover have "runs cx c (literal_decode cx (drop (used - 1) rest) (source + used) stop n' (decoded @ added)) P"
    using decodes_more.prems by (intro decodes_more.IH) auto
  ultimately show ?case by (auto intro!: run)
qed

lemma starts_newline_append: "xs \<noteq> [] \<Longrightarrow> starts_newline (xs @ ys) = starts_newline xs"
  by (cases xs) (simp_all add: starts_newline_def peek_byte_def)

text \<open>The turns look at no byte behind the string: what they write is the text of the grammar.\<close>

lemma decode_step_text:
  assumes "literal_decode_step b (raw @ junk) n = Some (False, used, n', added)" "used \<le> length raw"
    and "literal_text n' (drop (used - 1) raw) = Some out"
  shows "literal_text n (b # raw) = Some (added @ out)"
proof (cases "b = 92")
  case True
  then obtain e raw2 where raw: "raw = e # raw2"
    using assms by (cases raw) (auto simp: literal_decode_step_def split: list.splits if_splits)
  have "raw2 \<noteq> []"
    using assms(1,2) True raw by (auto simp: literal_decode_step_def numeral_3_eq_3 split: if_splits)
  note newline = starts_newline_append [OF this, of junk]
  show ?thesis
  proof (cases "is_octal_digit e \<and> e \<noteq> 13 \<and> e \<noteq> 10")
    case octal: True
    define run where "run = octal_run 3 (raw @ junk)"
    have "run < length raw" "n' = n" "used = 1 + run" "added = [octal_byte (take run (raw @ junk))]"
      using assms(1,2) True raw octal by (auto simp: literal_decode_step_def run_def octal_byte_value)
    moreover have "take run (raw @ junk) = take run raw" using calculation(1) by simp
    moreover have "octal_run 3 raw = run" using calculation(1) octal_run_append run_def by metis
    moreover have "run \<noteq> 0" using octal raw by (simp add: run_def numeral_3_eq_3)
    ultimately show ?thesis using assms(3) True raw octal by (auto simp: drop_Cons' )
  next
    case False
    then show ?thesis
      using assms True raw newline by (auto simp: literal_decode_step_def split: if_splits)
  qed
next
  case False
  moreover have "raw \<noteq> []" using assms(1,2) by (auto dest: decode_step_bounds)
  ultimately show ?thesis
    using assms starts_newline_append [of raw junk]
    by (auto simp: literal_decode_step_def split: if_splits)
qed

lemma literal_decodes_text:
  assumes "literal_decodes n bytes k out" "bytes = raw @ junk" "k = length raw"
  shows "literal_text n raw = Some out"
  using assms
proof (induction arbitrary: raw rule: literal_decodes.induct)
  case (decodes_last b rest n used n' added)
  then have "used = 1" "b = 41" "n = 1" using decode_step_bounds by blast+
  with decodes_last show ?case by (cases raw) auto
next
  case (decodes_more b rest n used n' added k out)
  have used: "1 \<le> used" "1 \<le> k" using decodes_more.hyps decode_step_bounds literal_decodes_length by blast+
  with decodes_more.prems obtain raw' where raw: "raw = b # raw'" "rest = raw' @ junk" "used + k = Suc (length raw')"
    by (cases raw) auto
  have "literal_text n' (drop (used - 1) raw') = Some out"
    using raw used by (intro decodes_more.IH) auto
  with decodes_more.hyps(1) raw used show ?case using decode_step_text [of b raw' junk] by simp
qed

lemma runs_scan_literal_string:
  assumes start: "drop start (cx_bytes cx) = 40 # rest" and P: "\<And>t j. scanned cx start t j \<Longrightarrow> P t j"
  shows "runs cx c (scan_literal_string cx start) P"
proof -
  note d = drop_ConsD [OF start]
  have accept: "P (make_token cx start (start + 1 + k) (StringTok \<lparr>string_bytes = out, string_kind = LiteralString\<rparr>))
      (start + 1 + k) \<and> start + 1 + k \<le> length (cx_bytes cx)"
    if k: "literal_decodes 1 rest k out" for k out
  proof -
    define raw where "raw = take k rest"
    have raw: "rest = raw @ drop k rest" "k = length raw" using literal_decodes_length [OF k] by (auto simp: raw_def)
    then have "drop start (cx_bytes cx) = (40 # raw) @ drop k rest" using start by simp
    moreover have "literal_text 1 raw = Some out" using literal_decodes_text [OF k raw] .
    moreover note window_bytes_take [OF calculation(1)] drop_append_length [OF calculation(1)]
    ultimately show ?thesis using d(1) raw(2) by (intro conjI P scannedI) auto
  qed
  show ?thesis
    unfolding scan_literal_string_def
  proof (intro run impI runs_literal_loop, goal_cases)
    case (2 k out)
    then have k: "literal_decodes 1 rest k out" using d(2) by simp
    show ?case
      using accept [OF k] d(2) by (intro runs_literal_decode [OF 2(1)] impI run) auto
  qed simp
qed

section \<open>Hexadecimal strings\<close>

definition hex_body_ok :: "u8 list \<Rightarrow> bool" where
  "hex_body_ok body = list_all (\<lambda>b. is_whitespace b \<or> hex_value b \<noteq> None) body"

definition hex_nibbles :: "u8 list \<Rightarrow> u8 list" where
  "hex_nibbles body = map (\<lambda>b. the (hex_value b)) (filter (\<lambda>b. \<not> is_whitespace b) body)"

lemma hex_text_body: "hex_body_ok body \<Longrightarrow> hex_text body = Some (pair_nibbles (hex_nibbles body))"
  by (auto simp: hex_text_code hex_body_ok_def hex_nibbles_def Let_def list_all_iff comp_def)

lemma runs_hex_scan_loop:
  assumes "\<And>body rest'. rest = body @ 62 # rest' \<Longrightarrow> hex_body_ok body \<Longrightarrow>
      P (index + length body + 1, n + length (hex_nibbles body)) c"
  shows "runs cx c (hex_scan_loop cx start rest index n) P"
  using assms
proof (induction rest arbitrary: index n)
  case Nil
  then show ?case by (simp, intro run impI)
next
  case (Cons b rest)
  have close: "P (index + 1, n) c" if "b = 62"
    using Cons.prems [of "[]" rest] that by (simp add: hex_body_ok_def hex_nibbles_def)
  have space: "runs cx c (hex_scan_loop cx start rest (index + 1) n) P" if "is_whitespace b"
    using Cons.prems [of "b # body" for body] that
    by (intro Cons.IH) (auto simp: hex_body_ok_def hex_nibbles_def)
  have nibble: "runs cx c (hex_scan_loop cx start rest (index + 1) (n + 1)) P"
    if "\<not> is_whitespace b" "hex_value b \<noteq> None"
    using Cons.prems [of "b # body" for body] that
    by (intro Cons.IH) (auto simp: hex_body_ok_def hex_nibbles_def)
  show ?case
    unfolding hex_scan_loop.simps by (intro run impI close space nibble) auto
qed

lemma push_bit_nibble: "push_bit 4 h = 16 * h" for h :: u8
  by (simp add: push_bit_eq_mult mult.commute)

lemma runs_hex_decode:
  assumes "hex_body_ok body"
    and "P (decoded @ pair_nibbles ((case high of None \<Rightarrow> [] | Some h \<Rightarrow> [h]) @ hex_nibbles body)) c"
    and "stop = source + length body"
  shows "runs cx c (hex_decode cx (body @ rest) source stop high decoded) P"
  using assms
proof (induction body arbitrary: source high decoded)
  case Nil
  then show ?case
    by (cases rest; cases high) (auto simp: hex_nibbles_def push_bit_nibble intro!: run)
next
  case (Cons b body)
  have ok: "hex_body_ok body" and stop: "stop = Suc source + length body"
    using Cons.prems by (auto simp: hex_body_ok_def)
  show ?case
  proof (cases "is_whitespace b")
    case True
    with Cons.prems(2) have "runs cx c (hex_decode cx (body @ rest) (Suc source) stop high decoded) P"
      by (intro Cons.IH ok stop) (simp add: hex_nibbles_def)
    with True stop show ?thesis by (auto intro!: run)
  next
    case False
    then obtain v where v: "hex_value b = Some v" using Cons.prems(1) by (auto simp: hex_body_ok_def)
    show ?thesis
    proof (cases high)
      case None
      with Cons.prems(2) v False have "runs cx c (hex_decode cx (body @ rest) (Suc source) stop (Some v) decoded) P"
        by (intro Cons.IH ok stop) (simp add: hex_nibbles_def)
      with False v None stop show ?thesis by (auto intro!: run)
    next
      case (Some h)
      with Cons.prems(2) v False have
        "runs cx c (hex_decode cx (body @ rest) (Suc source) stop None (decoded @ [hex_pair h v])) P"
        using hex_value_bound [OF v] by (intro Cons.IH ok stop) (simp add: hex_nibbles_def hex_pair_value)
      with False v Some stop show ?thesis by (auto intro!: run)
    qed
  qed
qed

lemma runs_scan_hex_string:
  assumes start: "drop start (cx_bytes cx) = 60 # rest" and P: "\<And>t j. scanned cx start t j \<Longrightarrow> P t j"
  shows "runs cx c (scan_hex_string cx start) P"
  unfolding scan_hex_string_def Let_def
proof (intro run impI runs_hex_scan_loop, goal_cases)
  case (1 body rest')
  note d = drop_ConsD [OF start]
  have body: "drop start (cx_bytes cx) = (60 # body @ [62]) @ rest'" using 1(1) d(2) start by simp
  have "P (make_token cx start (start + 1 + length body + 1)
      (StringTok \<lparr>string_bytes = pair_nibbles (hex_nibbles body), string_kind = HexadecimalString\<rparr>))
      (start + 1 + length body + 1) \<and> start + 1 + length body + 1 \<le> length (cx_bytes cx)"
    using window_bytes_take [OF body] drop_append_length [OF body] d(1) hex_text_body [OF 1(2)]
    by (intro conjI P scannedI) auto
  then show ?case
    unfolding 1(1) by (intro runs_hex_decode 1(2) impI run) auto
qed

end
