(* ===== verification/Syn_Sound.thy ===== *)
theory Syn_Sound
  imports Syn_StringOk
begin

text \<open>
  Objects: with \<open>object_fuel\<close> steps the parser never runs out of fuel, and the object it returns is spelled by
  the bytes between its start and the new cursor in the sense of \<open>object_at\<close>.
\<close>

section \<open>Tokens\<close>

lemma runs_fixed_token:
  assumes raw: "window_bytes cx start (start + n) = raw" "length raw = n" "raw \<noteq> []" "kind_text raw kind"
    and P: "\<And>t j. scanned cx start t j \<Longrightarrow> P t j"
  shows "runs cx c (fixed_token cx start n kind) P"
proof -
  have "0 < n" using raw(2,3) by auto
  moreover have "start + n \<le> length (cx_bytes cx)" using raw by (intro window_bytes_end [OF raw(1)]) auto
  moreover have "scanned cx start (make_token cx start (start + n) kind) (start + n)"
    using raw calculation by (intro scannedI) auto
  ultimately show ?thesis unfolding fixed_token_def by (intro run impI P)
qed

lemma window_bytes_peek:
  "peek_byte (cx_bytes cx) i = Some b \<Longrightarrow> window_bytes cx i (Suc i) = [b]"
  "peek_byte (cx_bytes cx) i = Some b \<Longrightarrow> peek_byte (cx_bytes cx) (Suc i) = Some b' \<Longrightarrow>
     window_bytes cx i (Suc (Suc i)) = [b, b']"
  by (auto simp: window_bytes_def peek_byte_def numeral_2_eq_2 Cons_nth_drop_Suc [symmetric] split: if_splits)

lemma runs_token_at:
  assumes start: "start < length (cx_bytes cx)" and P: "\<And>t j. scanned cx start t j \<Longrightarrow> P t j"
  shows "runs cx c (token_at cx start) P"
proof -
  obtain b rest where d: "drop start (cx_bytes cx) = b # rest" using start by (metis Cons_nth_drop_Suc)
  have b: "peek_byte (cx_bytes cx) start = Some b" by (simp add: peek_byte_drop d)
  note fixed = runs_fixed_token [OF _ _ _ _ P]
  show ?thesis
    unfolding token_at_def b option.case
    by (intro run impI runs_scan_regular P start)
      (use d P in \<open>auto intro!: fixed runs_scan_literal_string runs_scan_name runs_scan_hex_string
         simp: window_bytes_peek b\<close>)
qed

definition tokenized :: "syntax_context \<Rightarrow> nat \<Rightarrow> token \<Rightarrow> nat \<Rightarrow> bool" where
  "tokenized cx c t j \<longleftrightarrow> (\<exists>i. trivia_at cx c i \<and> scanned cx i t j)"

lemma tokenized_less: "tokenized cx c t j \<Longrightarrow> c < j \<and> j \<le> length (cx_bytes cx)"
  by (auto simp: tokenized_def trivia_at_def scanned_def)

lemma runs_next_token [run]:
  assumes "c \<le> length (cx_bytes cx)" "\<And>t j. tokenized cx c t j \<Longrightarrow> P t j"
  shows "runs cx c (next_token cx) P"
  unfolding next_token_def
  by (intro run impI runs_token_at assms(1)) (use assms(2) in \<open>auto simp: at_token_def tokenized_def\<close>)

lemma runs_next_required_token [run]:
  assumes "c \<le> length (cx_bytes cx)" "\<And>t j. tokenized cx c t j \<Longrightarrow> P t j"
  shows "runs cx c (next_required_token cx code) P"
proof -
  have m: "runs cx c (next_token cx) P" using assms by (intro run)
  show ?thesis
  proof (rule runsI)
    fix s v s'
    assume s: "parser_ok cx s" "ps_cursor s = c" and r: "next_required_token cx code s = (Inr v, s')"
    then have "next_token cx s = (Inr v, s')"
      by (auto simp: next_required_token_def split: prod.splits sum.splits parse_failure.splits)
    with runsD(1) [OF m s] show "parser_ok cx s' \<and> (container_ok cx s \<longrightarrow> container_ok cx s') \<and> P v (ps_cursor s')"
      by blast
  next
    fix s f s'
    assume s: "parser_ok cx s" "ps_cursor s = c" and r: "next_required_token cx code s = (Inl f, s')"
    then obtain f' where "next_token cx s = (Inl f', s')" "f' = PEnd \<and> proper_failure f \<or> f' = f"
      by (auto simp: next_required_token_def split: prod.splits sum.splits parse_failure.splits)
    with runsD(2) [OF m s] show "parser_ok cx s' \<and> proper_failure f" by blast
  qed
qed

section \<open>Scalars and references\<close>

lemma runs_byte_at_cursor [run]:
  "c < length (cx_bytes cx) \<Longrightarrow> P (cx_bytes cx ! c) c \<Longrightarrow> runs cx c (byte_at_cursor cx) P"
  unfolding byte_at_cursor_def
  by (rule runs_bind, rule runs_gets) (simp add: peek_byte_def run)

lemma runs_located_object:
  assumes "i \<le> j" "P (located_at cx i j v) c"
  shows "runs cx c (located_object cx (absolute cx i) (absolute cx j) v) P"
  using assms unfolding located_object_def
  by (intro run impI)
    (auto simp: from_bounds_def byte_span_new_def checked_sub_def absolute_def located_at_def and_then_Inr_iff
      ok_or_Inr_iff split: if_splits)

lemma scanned_simps:
  "scanned cx i t j \<Longrightarrow> tk_start t = absolute cx i \<and> tk_end t = absolute cx j \<and> i < j \<and> j \<le> length (cx_bytes cx)"
  by (metis make_token_def scanned_def token.select_convs(1,2))

lemma scanned_text: "scanned cx i t j \<Longrightarrow> kind_text (window_bytes cx i j) (tk_kind t)"
  by (simp add: scanned_def)

lemma runs_scalar:
  assumes "scanned cx i t j" "kind_text (window_bytes cx i j) (tk_kind t) \<Longrightarrow> scalar_text (window_bytes cx i j) v"
    and "object_at cx i j (located_at cx i j v) \<Longrightarrow> P (located_at cx i j v) c"
  shows "runs cx c (located_object cx (tk_start t) (tk_end t) v) P"
  using assms scanned_simps [OF assms(1)]
  by (auto simp: scanned_def intro!: runs_located_object at_scalar)

lemma runs_plain_integer:
  assumes t: "scanned cx i t c0" "tk_kind t = IntegerTok v" and P: "\<And>x. object_at cx i c0 x \<Longrightarrow> P x c0"
  shows "runs cx c (plain_integer cx t v c0) P"
  unfolding plain_integer_def
  using t scanned_simps [OF t(1)] by (intro run impI runs_scalar [OF t(1)] P) auto

lemma checked_reference_range:
  "checked_reference n g = Some r \<Longrightarrow>
     n = int (ref_number r) \<and> g = int (ref_generation r) \<and> 0 < ref_number r \<and> ref_number r < 2 ^ 32 \<and>
     ref_generation r < 2 ^ 16"
  by (auto simp: checked_reference_def split: if_splits)

lemma runs_finish_reference:
  assumes t: "scanned cx i t c0" "tk_kind t = IntegerTok v" and w1: "trivia_at cx c0 k"
    and second: "k < l" "l \<le> length (cx_bytes cx)" "integer_text (window_bytes cx k l) = Some g"
    and w2: "trivia_at cx l c" and P: "\<And>x j. object_at cx i j x \<Longrightarrow> c0 \<le> j \<Longrightarrow> P x j"
  shows "runs cx c (finish_reference cx t v g) P"
proof -
  have c: "c \<le> length (cx_bytes cx)" using w2 by (simp add: trivia_at_def)
  have reference: "P (located_at cx i j (SynReference r)) j" "i \<le> j"
    if third: "trivia_at cx c m" "scanned cx m t' j" "tk_kind t' = KeywordTok [82]" and r: "checked_reference v g = Some r"
    for m t' j r
  proof -
    have ends: "window_bytes cx i c0 @ window_bytes cx c0 k @ window_bytes cx k l @ window_bytes cx l m @ [82] =
        window_bytes cx i j" "i < c0" "c0 < j" "j \<le> length (cx_bytes cx)"
    proof -
      have "window_bytes cx m j = [82]" "i < c0" "c0 \<le> k" "l \<le> c" "c \<le> m" "m < j" "j \<le> length (cx_bytes cx)"
        using t(1) w1 w2 third by (auto simp: scanned_def trivia_at_def)
      then show "window_bytes cx i c0 @ window_bytes cx c0 k @ window_bytes cx k l @ window_bytes cx l m @ [82] =
          window_bytes cx i j" "i < c0" "c0 < j" "j \<le> length (cx_bytes cx)"
        using second(1) window_bytes_split [of i c0 j cx] window_bytes_split [of c0 k j cx]
          window_bytes_split [of k l j cx] window_bytes_split [of l m j cx] by auto
    qed
    have "reference_text (window_bytes cx i j) r"
      unfolding reference_text_def
      using t w1 second(3) trivia_at_trans [OF w2 third(1)] checked_reference_range [OF r] ends(1)
      by (intro exI [of _ "window_bytes cx i c0"] exI [of _ "window_bytes cx c0 k"] exI [of _ "window_bytes cx k l"]
          exI [of _ "window_bytes cx l m"]) (auto simp: scanned_def trivia_at_def)
    then show "P (located_at cx i j (SynReference r)) j" "i \<le> j"
      using ends by (auto intro!: P at_scalar)
  qed
  show ?thesis
    unfolding finish_reference_def
    using c reference scanned_simps
    by (intro run impI) (auto simp: tokenized_def scanned_simps [OF t(1)] intro!: runs_located_object)
qed

lemma runs_reference_keyword:
  assumes t: "scanned cx i t c0" "tk_kind t = IntegerTok v" and w1: "trivia_at cx c0 k"
    and second: "k < c" "c \<le> length (cx_bytes cx)" "integer_text (window_bytes cx k c) = Some g"
    and P: "\<And>x j. object_at cx i j x \<Longrightarrow> c0 \<le> j \<Longrightarrow> P x j"
  shows "runs cx c (reference_keyword cx t v g c0) P"
proof -
  note plain = runs_plain_integer [OF t P]
  show ?thesis
    unfolding reference_keyword_def
    by (intro run impI runs_plain_integer [OF t] P runs_finish_reference [OF t w1 second])
      (auto simp: at_token_def second(2))
qed

lemma runs_integer_or_reference:
  assumes t: "scanned cx i t c" "tk_kind t = IntegerTok v" and P: "\<And>x j. object_at cx i j x \<Longrightarrow> c \<le> j \<Longrightarrow> P x j"
  shows "runs cx c (integer_or_reference cx t v) P"
proof -
  have c: "c \<le> length (cx_bytes cx)" using scanned_simps [OF t(1)] by simp
  have second: "runs cx j (reference_keyword cx t v g c) P"
    if "at_token cx c k" "k < length (cx_bytes cx)" "k < j" "j \<le> length (cx_bytes cx)"
      "integer_text (window_bytes cx k j) = Some g" for k j g
    using that t P by (intro runs_reference_keyword [of cx i t c v k]) (auto simp: at_token_def)
  show ?thesis
    unfolding integer_or_reference_def
    by (intro run impI runs_plain_integer [OF t] P c second) (auto simp: at_token_def)
qed

section \<open>Containers\<close>

lemma runs_reserve_item [run]: "(\<And>n. P n c) \<Longrightarrow> runs cx c (reserve_item cx element_size len capacity offset) P"
  unfolding reserve_item_def by (intro run impI)

lemma runs_container_turn [run]:
  assumes "c \<le> length (cx_bytes cx)" "\<And>i. trivia_at cx c i \<Longrightarrow> i < length (cx_bytes cx) \<Longrightarrow> P i i"
  shows "runs cx c (container_turn cx) P"
  unfolding container_turn_def
  by (intro run impI assms) (auto simp: at_token_def)

lemma runs_key_of_token [run]: "(\<And>key. tk_kind t = NameTok key \<Longrightarrow> P key c) \<Longrightarrow> runs cx c (key_of_token t) P"
  unfolding key_of_token_def by (auto split: token_kind.split intro!: run)

text \<open>A closing token found by the byte at the cursor starts there: its first byte is no trivia.\<close>

lemma trivia_at_token:
  assumes "trivia_at cx i j" "i < length (cx_bytes cx)" "\<not> is_whitespace (cx_bytes cx ! i)" "cx_bytes cx ! i \<noteq> 37"
  shows "j = i"
proof (rule ccontr)
  assume "j \<noteq> i"
  then have "i < j" using assms(1) by (simp add: trivia_at_def)
  moreover have "drop i (cx_bytes cx) = cx_bytes cx ! i # drop (Suc i) (cx_bytes cx)"
    using assms(2) by (simp add: Cons_nth_drop_Suc)
  ultimately have "trivia_text (cx_bytes cx ! i # window_bytes cx (Suc i) j)"
    using assms(1) window_bytes_Cons by (metis trivia_at_def)
  then show False using assms(3,4) by (cases rule: trivia_cases) auto
qed

lemma number_first_byte:
  "integer_text (b # raw) = Some i \<Longrightarrow> is_number_start b"
  "real_text (b # raw) form \<Longrightarrow> is_number_start b"
proof -
  show "integer_text (b # raw) = Some i \<Longrightarrow> is_number_start b"
    by (auto simp: integer_text_def natural_text_def is_number_start_def digits_code split: if_splits)
  assume "real_text (b # raw) form"
  then obtain sg whole fraction ex where "b # raw = sg @ whole @ fraction @ ex" "sg \<in> {[], [43], [45]}" "digits whole"
      "fraction = [] \<and> whole \<noteq> [] \<or> (\<exists>ds. fraction = 46 # ds)"
    unfolding real_text_def by blast
  then show "is_number_start b"
    by (cases sg; cases whole; cases fraction) (auto simp: is_number_start_def digits_code)
qed

text \<open>The first byte of a token decides which delimiter it is.\<close>

lemma closing_kind:
  "kind_text (93 # raw) kind \<Longrightarrow> raw = []" "kind_text (62 # raw) kind \<Longrightarrow> raw = [62]"
  using number_first_byte [of 93 raw] number_first_byte [of 62 raw]
  by (cases kind; auto simp: is_number_start_def is_ascii_digit_def is_delimiter_def word_le_nat_alt
      split: string_kind.splits)+

lemma window_bytes_exact: "window_bytes cx i j = raw \<Longrightarrow> i \<le> j \<Longrightarrow> j \<le> length (cx_bytes cx) \<Longrightarrow> j = i + length raw"
  using length_window_bytes [of cx i j] by auto

lemma tokenized_close:
  assumes "tokenized cx i t j" "i < length (cx_bytes cx)" "cx_bytes cx ! i = b" "b = 93 \<or> b = 62"
  shows "b = 93 \<longrightarrow> j = i + 1 \<and> window_bytes cx i (i + 1) = [93]" "b = 62 \<longrightarrow> j = i + 2 \<and> window_bytes cx i (i + 2) = [62, 62]"
    "tk_end t = absolute cx j"
proof -
  obtain m where m: "trivia_at cx i m" "scanned cx m t j" using assms(1) by (auto simp: tokenized_def)
  have "m = i" using m(1) assms by (intro trivia_at_token) (auto simp: is_whitespace_def)
  then have s: "scanned cx i t j" using m(2) by simp
  have len: "i < j" "j \<le> length (cx_bytes cx)" using s by (auto simp: scanned_def)
  have "window_bytes cx i j = b # window_bytes cx (Suc i) j"
    using len(1) assms(2,3) by (intro window_bytes_Cons [where rest = "drop (Suc i) (cx_bytes cx)"]) (auto simp: Cons_nth_drop_Suc)
  then have "b = 93 \<longrightarrow> window_bytes cx i j = [93]" "b = 62 \<longrightarrow> window_bytes cx i j = [62, 62]"
    using s by (auto simp: scanned_def dest: closing_kind)
  moreover from this len window_bytes_exact [of cx i j "[93]"] window_bytes_exact [of cx i j "[62, 62]"]
  have "b = 93 \<longrightarrow> j = i + 1" "b = 62 \<longrightarrow> j = i + 2" by auto
  ultimately show "b = 93 \<longrightarrow> j = i + 1 \<and> window_bytes cx i (i + 1) = [93]"
    "b = 62 \<longrightarrow> j = i + 2 \<and> window_bytes cx i (i + 2) = [62, 62]" by auto
  show "tk_end t = absolute cx j" using scanned_simps [OF s] by simp
qed

definition opens :: "syntax_context \<Rightarrow> nat \<Rightarrow> u8 list \<Rightarrow> token \<Rightarrow> bool" where
  "opens cx i raw t \<longleftrightarrow> tk_start t = absolute cx i \<and> window_bytes cx i (i + length raw) = raw"

lemma scanned_opens:
  "scanned cx i t c \<Longrightarrow> tk_kind t = ArrayOpen \<Longrightarrow> opens cx i [91] t \<and> c = i + 1"
  "scanned cx i t c \<Longrightarrow> tk_kind t = DictionaryOpen \<Longrightarrow> opens cx i [60, 60] t \<and> c = i + 2"
  using scanned_text [of cx i t c] scanned_simps [of cx i t c] window_bytes_exact [of cx i c "[91]"]
    window_bytes_exact [of cx i c "[60, 60]"]
  by (auto simp: opens_def)

lemma runs_array_close:
  assumes "opens cx i [91] open" "items_at cx (i + 1) k vs" "trivia_at cx k c" "c < length (cx_bytes cx)"
    "cx_bytes cx ! c = 93" and P: "\<And>v j. object_at cx i j v \<Longrightarrow> c \<le> j \<Longrightarrow> P v j"
  shows "runs cx c (p_bind (next_token cx) (\<lambda>close. located_object cx (tk_start open) (tk_end close) (SynArray vs))) P"
proof (intro run impI)
  fix t j
  assume t: "tokenized cx c t j"
  note close = tokenized_close [OF t assms(4) refl]
  have j: "j = c + 1" "window_bytes cx c (c + 1) = [93]" "tk_end t = absolute cx j" using close assms(5) by auto
  have "i \<le> j" using assms(3) object_at_bounds(2) [OF assms(2)] j(1) by (simp add: trivia_at_def)
  moreover have "object_at cx i j (located_at cx i j (SynArray vs))"
    unfolding j(1) using assms(1-3) j(2) by (intro at_array [of cx i k vs c]) (auto simp: opens_def)
  ultimately show "runs cx j (located_object cx (tk_start open) (tk_end t) (SynArray vs)) P"
    unfolding j(3) using assms(1) j(1) P by (auto simp: opens_def intro!: runs_located_object)
qed (use assms(4) in simp)

lemma runs_dictionary_close:
  assumes "opens cx i [60, 60] open" "entries_at cx (i + 2) k es" "trivia_at cx k c" "c < length (cx_bytes cx)"
    "cx_bytes cx ! c = 62" and P: "\<And>v j. object_at cx i j v \<Longrightarrow> c \<le> j \<Longrightarrow> P v j"
  shows "runs cx c (p_bind (next_token cx) (\<lambda>close. located_object cx (tk_start open) (tk_end close) (SynDictionary es))) P"
proof (intro run impI)
  fix t j
  assume t: "tokenized cx c t j"
  note close = tokenized_close [OF t assms(4) refl]
  have j: "j = c + 2" "window_bytes cx c (c + 2) = [62, 62]" "tk_end t = absolute cx j" using close assms(5) by auto
  have "i \<le> j" using assms(3) object_at_bounds(3) [OF assms(2)] j(1) by (simp add: trivia_at_def)
  moreover have "object_at cx i j (located_at cx i j (SynDictionary es))"
    unfolding j(1) using assms(1-3) j(2) by (intro at_dictionary [of cx i k es c]) (auto simp: opens_def)
  ultimately show "runs cx j (located_object cx (tk_start open) (tk_end t) (SynDictionary es)) P"
    unfolding j(3) using assms(1) j(1) P by (auto simp: opens_def intro!: runs_located_object)
qed (use assms(4) in simp)

lemma runs_objects:
  shows "2 * (length (cx_bytes cx) - c) + 2 \<le> fuel \<Longrightarrow> scanned cx i t c \<Longrightarrow>
      runs cx c (object_from_token fuel cx t depth) (\<lambda>v j. object_at cx i j v \<and> c \<le> j)"
    and "2 * (length (cx_bytes cx) - c) + 1 \<le> fuel \<Longrightarrow> c \<le> length (cx_bytes cx) \<Longrightarrow> opens cx i [91] opn \<Longrightarrow>
      items_at cx (i + 1) c vs \<Longrightarrow>
      runs cx c (array_loop fuel cx opn depth vs capacity) (\<lambda>v j. object_at cx i j v \<and> c \<le> j)"
    and "2 * (length (cx_bytes cx) - c) + 1 \<le> fuel \<Longrightarrow> c \<le> length (cx_bytes cx) \<Longrightarrow> opens cx i [60, 60] opn \<Longrightarrow>
      entries_at cx (i + 2) c es \<Longrightarrow>
      runs cx c (dictionary_loop fuel cx opn depth es capacity) (\<lambda>v j. object_at cx i j v \<and> c \<le> j)"
proof (induction fuel arbitrary: c i t depth opn vs es capacity)
  case 0
  {
    case 1
    then show ?case by simp
  next
    case 2
    then show ?case by simp
  next
    case 3
    then show ?case by simp
  }
next
  case (Suc fuel)
  have item: "runs cx m (p_bind (object_from_token fuel cx t depth) k) Q"
    if x: "tokenized cx c t m" "2 * (length (cx_bytes cx) - c) \<le> fuel"
      "\<And>i v j. trivia_at cx c i \<Longrightarrow> object_at cx i j v \<Longrightarrow> m \<le> j \<Longrightarrow> j \<le> length (cx_bytes cx) \<Longrightarrow> runs cx j (k v) Q"
    for m t depth c Q and k :: "syntax_object located \<Rightarrow> syntax_object located parse"
  proof -
    obtain i where i: "trivia_at cx c i" "scanned cx i t m" using x(1) by (auto simp: tokenized_def)
    have "2 * (length (cx_bytes cx) - m) + 2 \<le> fuel" using x(2) tokenized_less [OF x(1)] by linarith
    then show ?thesis by (intro runs_bind runs_mono [OF Suc.IH(1) [OF _ i(2)]] impI) (auto intro: x(3) [OF i(1)])
  qed
  {
    case 1
    show ?case
    proof (cases "tk_kind t")
      case ArrayOpen
      with scanned_opens(1) [OF 1(2)] have "runs cx c (array_loop fuel cx t d [] 0) (\<lambda>v j. object_at cx i j v \<and> c \<le> j)" for d
        using 1(1) scanned_simps [OF 1(2)] by (intro Suc.IH(2)) (auto intro: items_none)
      with ArrayOpen show ?thesis by (simp, intro run impI)
    next
      case DictionaryOpen
      with scanned_opens(2) [OF 1(2)]
      have "runs cx c (dictionary_loop fuel cx t d [] 0) (\<lambda>v j. object_at cx i j v \<and> c \<le> j)" for d
        using 1(1) scanned_simps [OF 1(2)] by (intro Suc.IH(3)) (auto intro: entries_none)
      with DictionaryOpen show ?thesis by (simp, intro run impI)
    next
      case (IntegerTok v)
      with 1(2) show ?thesis by (auto intro!: runs_integer_or_reference)
    next
      case (KeywordTok raw)
      then show ?thesis
        using 1(2) by (auto split: option.split intro!: run runs_scalar [OF 1(2)] simp: keyword_object_def split: if_splits)
    qed (use 1(2) in \<open>auto intro!: run runs_scalar [OF 1(2)]\<close>)
  next
    case 2
    have fuel: "2 * (length (cx_bytes cx) - c) \<le> fuel" using 2(1) by simp
    have next_item: "runs cx m (p_bind (object_from_token fuel cx t depth)
        (\<lambda>v. array_loop fuel cx opn depth (vs @ [v]) n)) (\<lambda>v j. object_at cx i j v \<and> c \<le> j)"
      if k: "trivia_at cx c k" and t: "tokenized cx k t m" for k t m n
    proof (rule item [OF t])
      have km: "c \<le> k" "k < m" using k tokenized_less [OF t] by (auto simp: trivia_at_def)
      show "2 * (length (cx_bytes cx) - k) \<le> fuel" using fuel km by simp
      fix i' v j
      assume v: "trivia_at cx k i'" "object_at cx i' j v" "m \<le> j" "j \<le> length (cx_bytes cx)"
      have "items_at cx (i + 1) j (vs @ [v])"
        using items_snoc [OF 2(4) trivia_at_trans [OF k v(1)] v(2)] .
      then have "runs cx j (array_loop fuel cx opn depth (vs @ [v]) n) (\<lambda>v j'. object_at cx i j' v \<and> j \<le> j')"
        using 2(3) v(3,4) km fuel by (intro Suc.IH(2)) auto
      then show "runs cx j (array_loop fuel cx opn depth (vs @ [v]) n) (\<lambda>v j. object_at cx i j v \<and> c \<le> j)"
        by (rule runs_mono) (use v(3) km in auto)
    qed
    show ?case
      unfolding array_loop.simps using 2(2)
      by (intro run impI runs_array_close [OF 2(3,4)] next_item) (auto simp: trivia_at_def)
  next
    case 3
    have fuel: "2 * (length (cx_bytes cx) - c) \<le> fuel" using 3(1) by simp
    have next_entry: "runs cx m (p_bind (object_from_token fuel cx t depth)
        (\<lambda>v. dictionary_loop fuel cx opn depth (es @ [(located_at cx a b key, v)]) n)) (\<lambda>v j. object_at cx i j v \<and> c \<le> j)"
      if k: "trivia_at cx c k" "trivia_at cx k a" and key: "scanned cx a kt b" "tk_kind kt = NameTok key"
        and t: "tokenized cx b t m" for k a kt b key t m n
    proof (rule item [OF t])
      have km: "c \<le> k" "k < b" "b < m" "a < b" "b \<le> length (cx_bytes cx)"
        using k tokenized_less [OF t] scanned_simps [OF key(1)] by (auto simp: trivia_at_def)
      show "2 * (length (cx_bytes cx) - b) \<le> fuel" using fuel km by simp
      fix i' v j
      assume v: "trivia_at cx b i'" "object_at cx i' j v" "m \<le> j" "j \<le> length (cx_bytes cx)"
      have "entries_at cx (i + 2) j (es @ [(located_at cx a b key, v)])"
        using scanned_text [OF key(1)] km key(2)
        by (intro entries_snoc [OF 3(4) trivia_at_trans [OF k] _ _ _ v(1,2)]) auto
      then have "runs cx j (dictionary_loop fuel cx opn depth (es @ [(located_at cx a b key, v)]) n)
          (\<lambda>v j'. object_at cx i j' v \<and> j \<le> j')"
        using 3(3) v(3,4) km fuel by (intro Suc.IH(3)) auto
      then show "runs cx j (dictionary_loop fuel cx opn depth (es @ [(located_at cx a b key, v)]) n)
          (\<lambda>v j. object_at cx i j v \<and> c \<le> j)"
        by (rule runs_mono) (use v(3) km in auto)
    qed
    have located_key: "runs cx b (p_bind (located_object cx (tk_start kt) (tk_end kt) key) (\<lambda>located_key.
        p_bind (next_required_token cx XUnexpectedEndOfInput) (\<lambda>t. p_bind (object_from_token fuel cx t depth) (\<lambda>v.
          dictionary_loop fuel cx opn depth (es @ [(located_key, v)]) n)))) (\<lambda>v j. object_at cx i j v \<and> c \<le> j)"
      if k: "trivia_at cx c k" and kt: "tokenized cx k kt b" "tk_kind kt = NameTok key" for k kt b key n
    proof -
      obtain a where a: "trivia_at cx k a" "scanned cx a kt b" using kt(1) by (auto simp: tokenized_def)
      have kb: "tk_start kt = absolute cx a" "tk_end kt = absolute cx b" "a \<le> b" "b \<le> length (cx_bytes cx)"
        using scanned_simps [OF a(2)] by auto
      show ?thesis
        unfolding kb(1,2) using kb(3,4)
        by (intro runs_bind runs_located_object impI runs_next_required_token next_entry [OF k a kt(2)])
    qed
    show ?case
      unfolding dictionary_loop.simps using 3(2)
      by (intro run impI runs_dictionary_close [OF 3(3,4)] located_key) (auto simp: trivia_at_def)
  }
qed

end
