(* ===== verification/Syn_Ops.thy ===== *)
theory Syn_Ops
  imports Syn_Sound
begin

text \<open>
  The public operations of a parser, one at a time and as sequences of calls: a call always answers, leaves
  the parser within its limits whatever the answer, and what it hands out is what the window spells.
\<close>

section \<open>One operation\<close>

lemma runs_parse_object_at:
  assumes "c \<le> length (cx_bytes cx)"
  shows "runs cx c (parse_object_at cx depth) (\<lambda>v j. \<exists>i. trivia_at cx c i \<and> object_at cx i j v)"
  unfolding parse_object_at_def
proof (intro runs_bind runs_next_token assms impI)
  fix t j
  assume t: "tokenized cx c t j"
  then obtain i where i: "trivia_at cx c i" "scanned cx i t j" by (auto simp: tokenized_def)
  have "2 * (length (cx_bytes cx) - j) + 2 \<le> object_fuel cx" by (simp add: object_fuel_def)
  from runs_objects(1) [OF this i(2)]
  show "runs cx j (object_from_token (object_fuel cx) cx t depth) (\<lambda>v j. \<exists>i. trivia_at cx c i \<and> object_at cx i j v)"
    by (rule runs_mono) (use i(1) in auto)
qed

lemma runs_parse_header_inner:
  assumes "c \<le> length (cx_bytes cx)"
  shows "runs cx c (parse_header_inner cx) (\<lambda>h j. j = c + 8 \<and>
    (\<exists>major minor. window_bytes cx c j = header_prefix @ [major, 46, minor] \<and> supported_version major 46 minor \<and>
       h = located_at cx c j \<lparr>header_major = unat (major - 48), header_minor = unat (minor - 48)\<rparr>))"
proof -
  have accept: "window_bytes cx c (c + 8) = header_prefix @ [drop c (cx_bytes cx) ! 5, 46, drop c (cx_bytes cx) ! 7]"
    if "take (min (length (drop c (cx_bytes cx))) (length header_prefix)) (drop c (cx_bytes cx)) =
        take (min (length (drop c (cx_bytes cx))) (length header_prefix)) header_prefix"
      "\<not> length (drop c (cx_bytes cx)) < 8" "drop c (cx_bytes cx) ! 6 = 46"
  proof -
    define available where "available = drop c (cx_bytes cx)"
    have "take 5 available = header_prefix" "8 \<le> length available"
      using that(1,2) by (auto simp: available_def header_prefix_def min_def eval_nat_numeral split: if_splits)
    moreover have "take 8 available = take 5 available @ [available ! 5, available ! 6, available ! 7]"
      using calculation(2) by (simp add: take_Suc_conv_app_nth eval_nat_numeral)
    ultimately show ?thesis using that(3) by (simp add: window_bytes_def available_def)
  qed
  show ?thesis
    unfolding parse_header_inner_def Let_def
    by (intro run impI runs_located_object)
      (use assms accept in \<open>auto simp: supported_version_def\<close>)
qed

definition keyword_bytes :: "syntax_context \<Rightarrow> nat \<Rightarrow> raw_bytes \<Rightarrow> nat \<Rightarrow> bool" where
  "keyword_bytes cx c k j \<longleftrightarrow> (\<exists>i. trivia_at cx c i \<and> i < j \<and> j \<le> length (cx_bytes cx) \<and>
     raw_slice k = window_bytes cx i j \<and> list_all (\<lambda>b. \<not> is_delimiter b) (raw_slice k) \<and>
     raw_span k = \<lparr>span_start = absolute cx i, span_len = j - i\<rparr> \<and> raw_source k = in_source (cx_input cx))"

lemma from_bounds_absolute:
  "from_bounds (absolute cx i) (absolute cx j) = Inr span \<Longrightarrow> i \<le> j \<Longrightarrow> span = \<lparr>span_start = absolute cx i, span_len = j - i\<rparr>"
  by (auto simp: from_bounds_def byte_span_new_def checked_sub_def absolute_def and_then_Inr_iff ok_or_Inr_iff
      split: if_splits)

lemma runs_parse_keyword_inner:
  assumes "c \<le> length (cx_bytes cx)"
  shows "runs cx c (parse_keyword_inner cx) (keyword_bytes cx c)"
proof -
  have accept: "keyword_bytes cx c \<lparr>raw_source = in_source (cx_input cx), raw_span = span, raw_slice = window_bytes cx i j\<rparr> j"
    if "at_token cx c i" "i \<noteq> length (cx_bytes cx)" "i \<le> j" "j \<le> length (cx_bytes cx)"
      "list_all (\<lambda>b. \<not> is_delimiter b) (window_bytes cx i j)"
      "j < length (cx_bytes cx) \<longrightarrow> is_delimiter (cx_bytes cx ! j)" "\<not> is_delimiter (cx_bytes cx ! i)"
      "from_bounds (absolute cx i) (absolute cx j) = Inr span" for i j span
  proof -
    have "i < j" using that by (cases "i = j") (auto simp: at_token_def)
    then show ?thesis
      using that from_bounds_absolute [OF that(8)] by (auto simp: keyword_bytes_def at_token_def)
  qed
  show ?thesis
    unfolding parse_keyword_inner_def
    by (intro run impI runs_regular_loop assms accept) (auto simp: at_token_def)
qed

lemma runs_expect_keyword_inner:
  assumes "c \<le> length (cx_bytes cx)"
  shows "runs cx c (expect_keyword_inner cx expected)
    (\<lambda>span j. \<exists>k. keyword_bytes cx c k j \<and> raw_slice k = expected \<and> raw_span k = span)"
  unfolding expect_keyword_inner_def
  by (intro runs_bind runs_mono [OF runs_parse_keyword_inner [OF assms]] impI runs_if run) auto

lemma runs_consume_stream_line_ending_inner:
  assumes "c \<le> length (cx_bytes cx)"
  shows "runs cx c (consume_stream_line_ending_inner cx) (\<lambda>span j.
    span = \<lparr>span_start = absolute cx c, span_len = j - c\<rparr> \<and> (window_bytes cx c j = [10] \<or> window_bytes cx c j = [13, 10]))"
proof -
  have accept: "span = \<lparr>span_start = absolute cx c, span_len = j - c\<rparr>"
    if "from_bounds (absolute cx c) (absolute cx j) = Inr span" "c \<le> j" for span j
    using from_bounds_absolute [OF that] .
  show ?thesis
    unfolding consume_stream_line_ending_inner_def
    by (intro run impI conjI accept)
      (auto simp: window_bytes_peek peek_byte_def split: if_splits)
qed

section \<open>Calls\<close>

text \<open>What a call answers, when its body runs as \<open>runs\<close> says.\<close>

definition answers :: "syntax_context \<Rightarrow> parser_state \<Rightarrow> 'a polled \<Rightarrow> ('a \<Rightarrow> nat \<Rightarrow> bool) \<Rightarrow> bool" where
  "answers cx s r P \<longleftrightarrow> parser_ok cx (snd r) \<and>
     (case fst r of
        None \<Rightarrow> False
      | Some (SynReady v) \<Rightarrow> P v (ps_cursor (snd r)) \<and> (container_ok cx s \<longrightarrow> container_ok cx (snd r))
      | _ \<Rightarrow> True)"

lemma poll_failure_answers:
  "proper_failure f \<Longrightarrow> parser_ok cx s' \<Longrightarrow> answers cx s (poll_failure cx clean_end f, s') P"
  by (cases f) (auto simp: answers_def proper_failure_def need_more_or_failure_def Let_def split: option.splits)

lemma run_operation_answers:
  assumes m: "runs cx (ps_cursor s) m P" and s: "parser_ok cx s"
  shows "answers cx s (run_operation cx clean_end m s) P"
proof -
  have "runs cx (ps_cursor s) (p_bind (begin_operation cx) (\<lambda>_. m)) P" using m by (intro run impI)
  note d = runsD [OF this s refl]
  obtain r s' where r: "p_bind (begin_operation cx) (\<lambda>_. m) s = (r, s')" by force
  show ?thesis
  proof (cases r)
    case (Inl f)
    with d(2) [of f s'] r show ?thesis by (simp add: run_operation_def poll_failure_answers)
  next
    case (Inr v)
    with d(1) [of v s'] r show ?thesis by (simp add: answers_def run_operation_def)
  qed
qed

lemma take_raw_bytes_answers:
  assumes "parser_ok cx s"
  shows "answers cx s (take_raw_bytes cx n s) (\<lambda>raw j. j = ps_cursor s + n \<and> j \<le> length (cx_bytes cx) \<and>
    raw_slice raw = window_bytes cx (ps_cursor s) j \<and>
    raw_span raw = \<lparr>span_start = absolute cx (ps_cursor s), span_len = n\<rparr>)"
proof -
  have "runs cx (ps_cursor s) (begin_operation cx) (\<lambda>_ c. c = ps_cursor s)" by (intro run) simp
  note d = runsD [OF this assms refl]
  obtain r s' where r: "begin_operation cx s = (r, s')" by force
  show ?thesis
  proof (cases r)
    case (Inl f)
    with d(2) [of f s'] r show ?thesis by (simp add: take_raw_bytes_def poll_failure_answers)
  next
    case (Inr v)
    with d(1) [of v s'] r have s': "parser_ok cx s'" "container_ok cx s \<longrightarrow> container_ok cx s'" "ps_cursor s' = ps_cursor s"
      by auto
    then have moved: "parser_ok cx (s'\<lparr>ps_cursor := j\<rparr>) \<and> (container_ok cx s \<longrightarrow> container_ok cx (s'\<lparr>ps_cursor := j\<rparr>))"
      if "j \<le> length (cx_bytes cx)" for j
      using that by (auto simp: parser_ok_def container_ok_def retained_ok_def split: option.splits)
    show ?thesis
      using r Inr s' moved from_bounds_absolute [of cx "ps_cursor s" "ps_cursor s + n"]
      by (auto simp: answers_def take_raw_bytes_def take_raw_bytes_inner_def Let_def checked_add_def
          split: option.split sum.split)
  qed
qed

section \<open>Sequences of calls\<close>

datatype parser_call =
  CallHeader | CallObject | CallKeyword | CallExpect "u8 list" | CallLineEnding | CallTake nat

text \<open>A call on a parser: the new state, and whether the call answered.\<close>

fun syntax_call :: "syntax_context \<Rightarrow> parser_state \<Rightarrow> parser_call \<Rightarrow> parser_state \<times> bool" where
  "syntax_call cx s CallHeader = (case parse_header cx s of (r, s') \<Rightarrow> (s', r \<noteq> None))"
| "syntax_call cx s CallObject = (case parse_object cx s of (r, s') \<Rightarrow> (s', r \<noteq> None))"
| "syntax_call cx s CallKeyword = (case parse_keyword cx s of (r, s') \<Rightarrow> (s', r \<noteq> None))"
| "syntax_call cx s (CallExpect expected) = (case expect_keyword cx expected s of (r, s') \<Rightarrow> (s', r \<noteq> None))"
| "syntax_call cx s CallLineEnding = (case consume_stream_line_ending cx s of (r, s') \<Rightarrow> (s', r \<noteq> None))"
| "syntax_call cx s (CallTake n) = (case take_raw_bytes cx n s of (r, s') \<Rightarrow> (s', r \<noteq> None))"

lemma answers_call: "answers cx s r P \<Longrightarrow> parser_ok cx (snd r) \<and> fst r \<noteq> None"
  by (cases "fst r") (simp_all add: answers_def)

lemma parse_object_answers:
  "parser_ok cx s \<Longrightarrow> answers cx s (parse_object cx s) (\<lambda>v j. \<exists>i. trivia_at cx (ps_cursor s) i \<and> object_at cx i j v)"
  unfolding parse_object_def by (rule run_operation_answers [OF runs_parse_object_at]) (auto simp: parser_ok_cursor)

lemma syntax_call_ok:
  assumes s: "parser_ok cx s"
  shows "parser_ok cx (fst (syntax_call cx s call)) \<and> snd (syntax_call cx s call)"
proof -
  note answer = answers_call [OF run_operation_answers [OF _ s]]
  note c = parser_ok_cursor [OF s]
  show ?thesis
  proof (cases call)
    case CallHeader
    then show ?thesis
      using answer [OF runs_parse_header_inner [OF c], of False] by (simp add: parse_header_def case_prod_beta)
  next
    case CallObject
    then show ?thesis using answers_call [OF parse_object_answers [OF s]] by (simp add: case_prod_beta)
  next
    case CallKeyword
    then show ?thesis
      using answer [OF runs_parse_keyword_inner [OF c], of False] by (simp add: parse_keyword_def case_prod_beta)
  next
    case (CallExpect expected)
    then show ?thesis
      using answer [OF runs_expect_keyword_inner [OF c], of False expected]
      by (simp add: expect_keyword_def case_prod_beta)
  next
    case CallLineEnding
    then show ?thesis
      using answer [OF runs_consume_stream_line_ending_inner [OF c], of False]
      by (simp add: consume_stream_line_ending_def case_prod_beta)
  next
    case (CallTake n)
    then show ?thesis using answers_call [OF take_raw_bytes_answers [OF s]] by (simp add: case_prod_beta)
  qed
qed

text \<open>The contract of a machine that keeps an invariant and only ever gives good outputs.\<close>

locale reliable_machine =
  fixes step :: "'s \<Rightarrow> 'e \<Rightarrow> 's \<times> 'o"
    and inv :: "'s \<Rightarrow> bool"
    and good :: "'o \<Rightarrow> bool"
  assumes step_reliable: "inv s \<Longrightarrow> inv (fst (step s e)) \<and> good (snd (step s e))"
begin

lemma run_reliable:
  "inv s \<Longrightarrow> inv (fst (run_machine step s es)) \<and> list_all good (snd (run_machine step s es))"
  by (induction es arbitrary: s) (auto dest: step_reliable)

end

interpretation calls: reliable_machine "syntax_call cx" "parser_ok cx" "\<lambda>answered. answered" for cx
  by unfold_locales (rule syntax_call_ok)

lemma new_internal_ok:
  assumes "new_internal inp limits host cap = Inr (cx, s)"
  shows "parser_ok cx s \<and> container_ok cx s \<and> ps_cursor s = 0 \<and> length (cx_bytes cx) \<le> syn_max_input_bytes (cx_limits cx)"
  using assms by (auto simp: new_internal_def Let_def parser_ok_def container_ok_def retained_ok_def split: if_splits option.splits)

end
