(* ===== verification/Syn_Window.thy ===== *)
theory Syn_Window
  imports Syn_Ops
begin

text \<open>
  A window that may continue and a longer window of the same source. \<open>agrees cx c m m' E\<close> says that the step
  \<open>m'\<close> of the parser on the longer window does what the step \<open>m\<close> on the shorter one does, when \<open>m\<close> succeeds (and
  its outcome is not in \<open>E\<close>, the provisional ones) or fails for good. The one exception are failures of
  limits and of cancellation: the step on the longer window then fails for such a reason as well.
\<close>

definition limit_failure :: "syntax_error \<Rightarrow> bool" where
  "limit_failure e \<longleftrightarrow> xe_code e = XResourceLimit \<or> xe_code e = XCancelled"

definition agrees ::
  "syntax_context \<Rightarrow> nat \<Rightarrow> 'a parse \<Rightarrow> 'a parse \<Rightarrow> ('a \<Rightarrow> nat \<Rightarrow> bool) \<Rightarrow> bool" where
  "agrees cx c m m' E \<longleftrightarrow> (\<forall>s. parser_ok cx s \<and> ps_cursor s = c \<longrightarrow>
     (\<forall>v s'. m s = (Inr v, s') \<longrightarrow> E v (ps_cursor s') \<or> m' s = m s) \<and>
     (\<forall>e s'. m s = (Inl (PFailed e), s') \<longrightarrow>
        m' s = m s \<or> limit_failure e \<and> (\<exists>e' s''. m' s = (Inl (PFailed e'), s'') \<and> limit_failure e')))"

definition doomed :: "syntax_context \<Rightarrow> nat \<Rightarrow> 'a parse \<Rightarrow> bool" where
  "doomed cx c m \<longleftrightarrow> (\<forall>s. parser_ok cx s \<and> ps_cursor s = c \<longrightarrow>
     (\<exists>f s'. m s = (Inl f, s') \<and> (f = PEnd \<or> (\<exists>code offset. f = PIncomplete code offset))))"

named_theorems agree

lemma agrees_refl [agree]: "agrees cx c m m E"
  by (simp add: agrees_def)

lemma agreesD:
  assumes "agrees cx c m m' E" "parser_ok cx s" "ps_cursor s = c"
  shows "m s = (Inr v, s') \<Longrightarrow> E v (ps_cursor s') \<or> m' s = (Inr v, s')"
    and "m s = (Inl (PFailed e), s') \<Longrightarrow>
      m' s = (Inl (PFailed e), s') \<or> limit_failure e \<and> (\<exists>e' s''. m' s = (Inl (PFailed e'), s'') \<and> limit_failure e')"
  using assms by (auto simp: agrees_def)

lemma p_bind_Inl: "m s = (Inl f, s') \<Longrightarrow> p_bind m k s = (Inl f, s')"
  by (simp add: p_bind_def)

lemma p_bind_step: "m s = (Inr v, s') \<Longrightarrow> p_bind m k s = k v s'"
  by (simp add: p_bind_def)

lemma agrees_bind:
  assumes run: "runs cx c m (\<lambda>v c'. c' \<le> length (cx_bytes cx) \<longrightarrow>
      (if D v c' then doomed cx c' (k v) else agrees cx c' (k v) (k' v) E))"
    and m: "agrees cx c m m' D"
  shows "agrees cx c (p_bind m k) (p_bind m' k') E"
  unfolding agrees_def
proof (intro allI impI)
  fix s
  assume "parser_ok cx s \<and> ps_cursor s = c"
  then have s: "parser_ok cx s" "ps_cursor s = c" by auto
  obtain r s1 where r: "m s = (r, s1)" by force
  show "(\<forall>v s'. p_bind m k s = (Inr v, s') \<longrightarrow> E v (ps_cursor s') \<or> p_bind m' k' s = p_bind m k s) \<and>
    (\<forall>e s'. p_bind m k s = (Inl (PFailed e), s') \<longrightarrow> p_bind m' k' s = p_bind m k s \<or>
       limit_failure e \<and> (\<exists>e' s''. p_bind m' k' s = (Inl (PFailed e'), s'') \<and> limit_failure e'))"
  proof (cases r)
    case (Inl f)
    then show ?thesis
      using agreesD(2) [OF m s] r by (auto simp: p_bind_Inl)
  next
    case (Inr v)
    with r have ok: "parser_ok cx s1" using runsD(1) [OF run s] by blast
    show ?thesis
    proof (cases "D v (ps_cursor s1)")
      case True
      then have "doomed cx (ps_cursor s1) (k v)"
        using runsD(1) [OF run s] r Inr ok parser_ok_cursor by fastforce
      with ok show ?thesis using r Inr by (auto simp: doomed_def p_bind_step)
    next
      case False
      then have "agrees cx (ps_cursor s1) (k v) (k' v) E" "m' s = (Inr v, s1)"
        using runsD(1) [OF run s] agreesD(1) [OF m s] r Inr ok parser_ok_cursor by fastforce+
      with ok r Inr show ?thesis by (auto simp: agrees_def p_bind_step)
    qed
  qed
qed

lemma agrees_bind_same [agree]:
  fixes m :: "'a parse"
  assumes "runs cx c m (\<lambda>v c'. c' \<le> length (cx_bytes cx) \<longrightarrow> agrees cx c' (k v) (k' v) E)"
  shows "agrees cx c (p_bind m k) (p_bind m k') E"
  by (rule agrees_bind [where D = "\<lambda>(_ :: 'a) _. False"]) (use assms in \<open>simp_all add: agrees_refl\<close>)

lemma agrees_cursor_bind [simp]:
  "agrees cx c (p_bind (p_gets ps_cursor) k) (p_bind (p_gets ps_cursor) k') E \<longleftrightarrow> agrees cx c (k c) (k' c) E"
  by (simp add: agrees_def p_bind_def p_gets_def)

lemma agrees_cursor [agree]:
  "agrees cx c (k c) (k' c) E \<Longrightarrow> agrees cx c (p_bind (p_gets ps_cursor) k) (p_bind (p_gets ps_cursor) k') E"
  by simp

lemma agrees_fail [agree]:
  "agrees cx c (p_fail PEnd) m E" "agrees cx c (p_fail (PIncomplete code offset)) m E"
  by (simp_all add: agrees_def p_fail_def)

lemma agrees_if [agree]:
  "(b \<Longrightarrow> agrees cx c m m' E) \<Longrightarrow> (\<not> b \<Longrightarrow> agrees cx c k k' E) \<Longrightarrow>
     agrees cx c (if b then m else k) (if b then m' else k') E"
  by simp

lemma agrees_return_provisional: "E v c \<Longrightarrow> agrees cx c (p_return v) m E"
  by (simp add: agrees_def p_return_def)

lemma doomed_fail:
  "doomed cx c (p_fail PEnd)" "doomed cx c (p_fail (PIncomplete code offset))"
  by (simp_all add: doomed_def p_fail_def)

lemma doomed_cursor: "doomed cx c (k c) \<Longrightarrow> doomed cx c (p_bind (p_gets ps_cursor) k)"
  by (simp add: doomed_def p_bind_def p_gets_def)

text \<open>Steps whose values are related by \<open>g\<close>, such as the bytes that are left.\<close>

lemma agrees_bind_map:
  assumes run: "runs cx c m (\<lambda>v c'. c' \<le> length (cx_bytes cx) \<longrightarrow>
      (if D v then \<forall>n. agrees cx c' (k v) n E else agrees cx c' (k v) (k' (g v)) E))"
    and inl: "\<And>s f s'. m s = (Inl f, s') \<Longrightarrow> m' s = (Inl f, s')"
    and inr: "\<And>s v s'. m s = (Inr v, s') \<Longrightarrow> \<not> D v \<Longrightarrow> m' s = (Inr (g v), s')"
  shows "agrees cx c (p_bind m k) (p_bind m' k') E"
  unfolding agrees_def
proof (intro allI impI)
  fix s
  assume "parser_ok cx s \<and> ps_cursor s = c"
  then have s: "parser_ok cx s" "ps_cursor s = c" by auto
  obtain r s1 where r: "m s = (r, s1)" by force
  show "(\<forall>v s'. p_bind m k s = (Inr v, s') \<longrightarrow> E v (ps_cursor s') \<or> p_bind m' k' s = p_bind m k s) \<and>
    (\<forall>e s'. p_bind m k s = (Inl (PFailed e), s') \<longrightarrow> p_bind m' k' s = p_bind m k s \<or>
       limit_failure e \<and> (\<exists>e' s''. p_bind m' k' s = (Inl (PFailed e'), s'') \<and> limit_failure e'))"
  proof (cases r)
    case (Inl f)
    then show ?thesis using inl r by (auto simp: p_bind_Inl)
  next
    case (Inr v)
    with r have ok: "parser_ok cx s1" using runsD(1) [OF run s] by blast
    have "agrees cx (ps_cursor s1) (k v) (\<lambda>_. p_bind m' k' s) E" if "D v"
      using runsD(1) [OF run s] r Inr ok parser_ok_cursor that by fastforce
    moreover have "agrees cx (ps_cursor s1) (k v) (k' (g v)) E" if "\<not> D v"
      using runsD(1) [OF run s] r Inr ok parser_ok_cursor that by fastforce
    moreover have "p_bind m' k' s = k' (g v) s1" if "\<not> D v"
      using inr [of s v s1] r Inr that by (simp add: p_bind_step)
    ultimately show ?thesis using ok r Inr by (cases "D v") (auto simp: agrees_def p_bind_step)
  qed
qed

lemma whitespace_run_more:
  "whitespace_run cx rest s = (Inl f, s') \<Longrightarrow> whitespace_run cx (rest @ extra) s = (Inl f, s')"
  "whitespace_run cx rest s = (Inr left, s') \<Longrightarrow> left \<noteq> [] \<Longrightarrow> whitespace_run cx (rest @ extra) s = (Inr (left @ extra), s')"
  by (induction rest arbitrary: s)
    (auto simp: p_return_def p_bind_def split: prod.splits sum.splits if_splits)

lemma comment_run_more:
  "comment_run cx start rest s = (Inl f, s') \<Longrightarrow> comment_run cx start (rest @ extra) s = (Inl f, s')"
  "comment_run cx start rest s = (Inr left, s') \<Longrightarrow> left \<noteq> [] \<Longrightarrow> comment_run cx start (rest @ extra) s = (Inr (left @ extra), s')"
  by (induction rest arbitrary: s)
    (auto simp: p_return_def p_bind_def split: prod.splits sum.splits if_splits)

lemma name_decode_more:
  "name_text raw = Some out \<Longrightarrow> stop = source + length raw \<Longrightarrow>
     name_decode cx (raw @ r1) source stop decoded = name_decode cx (raw @ r2) source stop decoded"
proof (induction "length raw" arbitrary: raw source decoded out rule: less_induct)
  case less
  show ?case
  proof (cases raw)
    case Nil
    then show ?thesis using less.prems by (cases r1; cases r2) auto
  next
    case (Cons b raw1)
    show ?thesis
    proof (cases "b = 35")
      case True
      then obtain h l raw2 high low out' where e: "raw1 = h # l # raw2" "hex_value h = Some high"
          "hex_value l = Some low" "name_text raw2 = Some out'"
        using less.prems(1) Cons by (auto split: list.splits option.splits if_splits)
      have "name_decode cx (raw2 @ r1) (source + 3) stop acc = name_decode cx (raw2 @ r2) (source + 3) stop acc" for acc
        using e Cons less.prems(2) by (intro less.hyps) auto
      with Cons True e show ?thesis by simp
    next
      case False
      then obtain out' where e: "name_text raw1 = Some out'" using less.prems(1) Cons by (auto split: if_splits)
      have "name_decode cx (raw1 @ r1) (source + 1) stop acc = name_decode cx (raw1 @ r2) (source + 1) stop acc" for acc
        using e Cons less.prems(2) by (intro less.hyps) auto
      with Cons False show ?thesis by simp
    qed
  qed
qed

lemma hex_decode_more:
  "stop = source + length body \<Longrightarrow>
     hex_decode cx (body @ r1) source stop high decoded = hex_decode cx (body @ r2) source stop high decoded"
proof (induction body arbitrary: source high decoded)
  case Nil
  then show ?case by (cases r1; cases r2) auto
next
  case (Cons b body)
  then have "hex_decode cx (body @ r1) (source + 1) stop h acc = hex_decode cx (body @ r2) (source + 1) stop h acc" for h acc
    by (intro Cons.IH) simp
  then show ?case by (simp cong: option.case_cong if_cong)
qed

section \<open>Two windows\<close>

locale window_pair =
  fixes cx cx' :: syntax_context and extra :: "u8 list"
  assumes bytes: "cx_bytes cx' = cx_bytes cx @ extra"
    and source: "in_source (cx_input cx') = in_source (cx_input cx)"
    and base: "in_base (cx_input cx') = in_base (cx_input cx)"
    and limits: "cx_limits cx' = cx_limits cx"
    and retained: "cx_max_retained cx' = cx_max_retained cx"
    and host: "cx_host cx' = cx_host cx"
    and open_end: "cx_extent cx = MayContinue"
begin

lemma absolute_same [simp]: "absolute cx' = absolute cx"
  by (simp add: absolute_def base fun_eq_iff)

lemma position_same [simp]: "parser_position cx' = parser_position cx"
  by (simp add: parser_position_def fun_eq_iff)

lemma check_cancelled_same [simp]: "check_cancelled cx' = check_cancelled cx"
  by (simp add: check_cancelled_def host fun_eq_iff)

lemma probe_same [simp]: "probe_iteration cx' = probe_iteration cx"
  by (simp add: probe_iteration_def fun_eq_iff cong: if_cong)

lemma probe_position_same [simp]: "probe_position cx' = probe_position cx"
  by (simp add: probe_position_def)

lemma begin_same [simp]: "begin_operation cx' = begin_operation cx"
  by (simp add: begin_operation_def)

lemma check_token_len_same [simp]: "check_token_len cx' = check_token_len cx"
  by (simp add: check_token_len_def limits fun_eq_iff)

lemma check_string_source_same [simp]: "check_string_source cx' = check_string_source cx"
  by (simp add: check_string_source_def limits fun_eq_iff)

lemma charge_retained_same [simp]: "charge_retained cx' = charge_retained cx"
  by (simp add: charge_retained_def retained fun_eq_iff)

lemma charge_token_same [simp]: "charge_token cx' = charge_token cx"
  by (simp add: charge_token_def limits fun_eq_iff)

lemma alloc_same [simp]: "p_alloc cx' = p_alloc cx"
  by (simp add: p_alloc_def host fun_eq_iff)

lemma allocate_owned_same [simp]: "allocate_owned cx' = allocate_owned cx"
  by (simp add: allocate_owned_def limits fun_eq_iff)

lemma copy_owned_same [simp]: "copy_owned cx' = copy_owned cx"
  by (simp add: copy_owned_def fun_eq_iff)

lemma enter_container_same [simp]: "enter_container cx' = enter_container cx"
  by (simp add: enter_container_def limits fun_eq_iff)

lemma reserve_item_same [simp]: "reserve_item cx' = reserve_item cx"
  by (simp add: reserve_item_def charge_container_entry_def reserve_container_entry_def grow_container_def limits
      fun_eq_iff)

lemma make_token_same [simp]: "make_token cx' = make_token cx"
  by (simp add: make_token_def fun_eq_iff)

lemma located_object_same [simp]: "located_object cx' = located_object cx"
  by (simp add: located_object_def source fun_eq_iff)

lemma digit_run_same [simp]: "digit_run cx' offset rest index = digit_run cx offset rest index"
  by (induction rest arbitrary: index) simp_all

lemma magnitude_loop_same [simp]: "magnitude_loop cx' offset ds m = magnitude_loop cx offset ds m"
  by (induction ds arbitrary: m) (simp_all add: fun_eq_iff p_bind_def split: prod.split sum.split)

lemma parse_number_same [simp]: "parse_number cx' = parse_number cx"
  by (intro ext) (simp add: parse_number_def number_kind_def exponent_run_def Let_def cong: if_cong)

lemma whitespace_run_same [simp]: "whitespace_run cx' rest = whitespace_run cx rest"
  by (induction rest) simp_all

lemma comment_run_same [simp]: "comment_run cx' start rest = comment_run cx start rest"
  by (induction rest) (simp_all add: limits cong: if_cong)

lemma drop_more: "i \<le> length (cx_bytes cx) \<Longrightarrow> drop i (cx_bytes cx') = drop i (cx_bytes cx) @ extra"
  by (simp add: bytes)

lemma peek_more: "i < length (cx_bytes cx) \<Longrightarrow> peek_byte (cx_bytes cx') i = peek_byte (cx_bytes cx) i"
  by (simp add: peek_byte_def bytes nth_append)

lemma window_more: "j \<le> length (cx_bytes cx) \<Longrightarrow> window_bytes cx' i j = window_bytes cx i j"
  by (cases "i \<le> j") (auto simp: window_bytes_def bytes)

lemma agrees_need_byte [agree]:
  assumes "j \<le> length (cx_bytes cx)" "j < length (cx_bytes cx) \<Longrightarrow> agrees cx c (k ()) (k' ()) E"
  shows "agrees cx c (p_bind (need_byte cx j code) k) (p_bind (need_byte cx' j code) k') E"
  using assms by (cases "j = length (cx_bytes cx)") (simp_all add: need_byte_def open_end bytes agree)

lemma agrees_trivia_loop:
  assumes "drop c (cx_bytes cx) = rest" "c \<le> length (cx_bytes cx)"
  shows "agrees cx c (trivia_loop cx rest) (trivia_loop cx' (rest @ extra)) (\<lambda>_ c'. c' = length (cx_bytes cx))"
  using assms
proof (induction "length rest" arbitrary: rest c rule: less_induct)
  case less
  let ?E = "\<lambda>_ c'. c' = length (cx_bytes cx)"
  let ?cut = "\<lambda>cx. if cx_extent cx = KnownSourceEnd then p_return ()
      else p_bind (p_gets ps_cursor) (\<lambda>cursor. p_fail (PIncomplete XUnexpectedEndOfInput (absolute cx cursor)))"
  have spaces: "runs cx c (whitespace_run cx rest) (\<lambda>left c'. left = drop c' (cx_bytes cx) \<and> length left \<le> length rest)"
    using less.prems drop_appendD by (intro runs_whitespace_run [OF less.prems(1)]) fastforce
  have comment: "runs cx c' (comment_run cx start left) (\<lambda>left' c'. left' = drop c' (cx_bytes cx) \<and> length left' \<le> length left)"
    if "drop c' (cx_bytes cx) = left" for c' start left
    using that drop_appendD by (intro runs_comment_run [OF that]) fastforce
  have end_agrees: "agrees cx c' (?cut cx) n ?E" for c' n
    by (simp add: open_end agrees_def p_bind_def p_gets_def p_fail_def)
  have comment_agrees: "agrees cx (c' + 1)
      (p_bind (comment_run cx c' left) (\<lambda>rest3. if rest3 = [] then ?cut cx else trivia_loop cx rest3))
      (p_bind (comment_run cx c' (left @ extra)) (\<lambda>rest3. if rest3 = [] then ?cut cx' else trivia_loop cx' rest3)) ?E"
    if left: "drop (c' + 1) (cx_bytes cx) = left" "length left < length rest" for c' left
  proof (rule agrees_bind_map [where D = "\<lambda>r. r = []" and g = "\<lambda>r. r @ extra"])
    show "runs cx (c' + 1) (comment_run cx c' left) (\<lambda>v c''. c'' \<le> length (cx_bytes cx) \<longrightarrow>
      (if v = [] then \<forall>n. agrees cx c'' (if v = [] then ?cut cx else trivia_loop cx v) n ?E
       else agrees cx c'' (if v = [] then ?cut cx else trivia_loop cx v)
              (if v @ extra = [] then ?cut cx' else trivia_loop cx' (v @ extra)) ?E))"
      by (rule runs_mono [OF comment [OF left(1)]])
        (use left(2) end_agrees in \<open>auto intro!: less.hyps\<close>)
  qed (auto intro: comment_run_more)
  have body: "agrees cx c' (case left of [] \<Rightarrow> p_return () | b # rest2 \<Rightarrow>
         if b \<noteq> 37 then p_return ()
         else p_bind (p_gets ps_cursor) (\<lambda>start. p_bind (p_seek (start + 1)) (\<lambda>_.
              p_bind (comment_run cx start rest2) (\<lambda>rest3. if rest3 = [] then ?cut cx else trivia_loop cx rest3))))
       (case left @ extra of [] \<Rightarrow> p_return () | b # rest2 \<Rightarrow>
         if b \<noteq> 37 then p_return ()
         else p_bind (p_gets ps_cursor) (\<lambda>start. p_bind (p_seek (start + 1)) (\<lambda>_.
              p_bind (comment_run cx start rest2) (\<lambda>rest3. if rest3 = [] then ?cut cx' else trivia_loop cx' rest3)))) ?E"
    if x: "left = drop c' (cx_bytes cx)" "length left \<le> length rest" "left \<noteq> []" for c' left
  proof -
    obtain b rest2 where b: "left = b # rest2" using x(3) by (cases left) auto
    note d = drop_ConsD [OF x(1) [symmetric, unfolded b]]
    have "agrees cx (c' + 1)
      (p_bind (comment_run cx c' rest2) (\<lambda>rest3. if rest3 = [] then ?cut cx else trivia_loop cx rest3))
      (p_bind (comment_run cx c' (rest2 @ extra)) (\<lambda>rest3. if rest3 = [] then ?cut cx' else trivia_loop cx' rest3)) ?E"
      using d x(2) b by (intro comment_agrees) auto
    then show ?thesis
      using d(1) unfolding b by (cases "b = 37") (auto intro!: agrees_bind_same agrees_refl run split del: if_split)
  qed
  show ?case
    unfolding trivia_loop.simps [of cx rest] trivia_loop.simps [of cx' "rest @ extra"] probe_position_same
      whitespace_run_same comment_run_same
  proof (intro agrees_bind_same runs_probe_position impI
      agrees_bind_map [where D = "\<lambda>r. r = []" and g = "\<lambda>r. r @ extra"])
    show "runs cx c (whitespace_run cx rest) (\<lambda>left c'. c' \<le> length (cx_bytes cx) \<longrightarrow>
      (if left = [] then \<forall>n. agrees cx c' (case left of [] \<Rightarrow> p_return () | b # rest2 \<Rightarrow>
         if b \<noteq> 37 then p_return ()
         else p_bind (p_gets ps_cursor) (\<lambda>start. p_bind (p_seek (start + 1)) (\<lambda>_.
              p_bind (comment_run cx start rest2) (\<lambda>rest3. if rest3 = [] then ?cut cx else trivia_loop cx rest3)))) n ?E
       else agrees cx c' (case left of [] \<Rightarrow> p_return () | b # rest2 \<Rightarrow>
         if b \<noteq> 37 then p_return ()
         else p_bind (p_gets ps_cursor) (\<lambda>start. p_bind (p_seek (start + 1)) (\<lambda>_.
              p_bind (comment_run cx start rest2) (\<lambda>rest3. if rest3 = [] then ?cut cx else trivia_loop cx rest3))))
       (case left @ extra of [] \<Rightarrow> p_return () | b # rest2 \<Rightarrow>
         if b \<noteq> 37 then p_return ()
         else p_bind (p_gets ps_cursor) (\<lambda>start. p_bind (p_seek (start + 1)) (\<lambda>_.
              p_bind (comment_run cx start rest2) (\<lambda>rest3. if rest3 = [] then ?cut cx' else trivia_loop cx' rest3)))) ?E))"
      by (rule runs_mono [OF spaces]) (use body in \<open>auto intro!: agrees_return_provisional\<close>)
  qed (auto intro: whitespace_run_more)
qed

lemma agrees_skip_trivia:
  "c \<le> length (cx_bytes cx) \<Longrightarrow> agrees cx c (skip_trivia cx) (skip_trivia cx') (\<lambda>_ c'. c' = length (cx_bytes cx))"
  unfolding skip_trivia_def using agrees_trivia_loop by (simp add: drop_more)

text \<open>Every use of \<open>skip_trivia\<close> looks next whether the window ends.\<close>

lemma agrees_after_trivia [agree]:
  assumes c: "c \<le> length (cx_bytes cx)"
    and k: "\<And>i. at_token cx c i \<Longrightarrow> i < length (cx_bytes cx) \<Longrightarrow> agrees cx i (k i) (k' i) E"
    and d: "doomed cx (length (cx_bytes cx)) (d (length (cx_bytes cx)))"
  shows "agrees cx c
    (p_bind (skip_trivia cx) (\<lambda>_. p_bind (p_gets ps_cursor) (\<lambda>i. if i = length (cx_bytes cx) then d i else k i)))
    (p_bind (skip_trivia cx') (\<lambda>_. p_bind (p_gets ps_cursor) (\<lambda>i. if i = length (cx_bytes cx') then d' i else k' i))) E"
proof (rule agrees_bind [OF _ agrees_skip_trivia [OF c]], rule runs_skip_trivia [OF c], rule impI)
  fix i
  assume i: "at_token cx c i" "i \<le> length (cx_bytes cx)"
  then show "if i = length (cx_bytes cx)
      then doomed cx i (p_bind (p_gets ps_cursor) (\<lambda>i. if i = length (cx_bytes cx) then d i else k i))
      else agrees cx i (p_bind (p_gets ps_cursor) (\<lambda>i. if i = length (cx_bytes cx) then d i else k i))
        (p_bind (p_gets ps_cursor) (\<lambda>i. if i = length (cx_bytes cx') then d' i else k' i)) E"
    using k [OF i(1)] d by (auto simp: bytes intro: doomed_cursor)
qed

lemma doomed_need_byte: "doomed cx c (p_bind (need_byte cx (length (cx_bytes cx)) code) k)"
  by (simp add: need_byte_def open_end doomed_fail)

section \<open>Scanners\<close>

lemma regular_loop_same [simp]: "regular_loop cx' start rest index = regular_loop cx start rest index"
  by (induction rest arbitrary: index) (simp_all cong: if_cong)

lemma agrees_regular_loop:
  assumes "drop index (cx_bytes cx) = rest" "index \<le> length (cx_bytes cx)"
  shows "agrees cx c (regular_loop cx start rest index) (regular_loop cx start (rest @ extra) index)
    (\<lambda>j _. j = length (cx_bytes cx))"
  using assms
proof (induction rest arbitrary: index)
  case Nil
  then show ?case by (simp add: agrees_return_provisional)
next
  case (Cons b rest)
  note d = drop_ConsD [OF Cons.prems(1)]
  have "agrees cx c (regular_loop cx start rest (Suc index)) (regular_loop cx start (rest @ extra) (Suc index))
    (\<lambda>j _. j = length (cx_bytes cx))" using d by (intro Cons.IH) auto
  then show ?case by (cases "is_delimiter b") (auto intro!: agree run)
qed

lemma agrees_scan_regular:
  assumes start: "start < length (cx_bytes cx)"
  shows "agrees cx c (scan_regular cx start) (scan_regular cx' start) (\<lambda>_ _. False)"
proof -
  note loop = agrees_regular_loop [OF refl less_imp_le [OF start], of c start]
  show ?thesis
    unfolding scan_regular_def Let_def regular_loop_same drop_more [OF less_imp_le [OF start]]
  proof (rule agrees_bind [OF _ loop], rule runs_regular_loop [OF refl less_imp_le [OF start]], rule impI,
      goal_cases)
    case (1 j)
    then show ?case
      using start by (auto simp: doomed_need_byte window_more intro!: agree)
  qed
qed

lemma agrees_name_step:
  "agrees cx c (name_step cx b rest index) (name_step cx' b (rest @ extra) index) E"
  by (cases rest; cases "tl rest") (auto simp: name_step_def open_end intro: agree)

lemma runs_name_step:
  "(\<And>j. index < j \<Longrightarrow> j \<le> Suc (index + length rest) \<Longrightarrow> P j c) \<Longrightarrow> runs cx c (name_step cx b rest index) P"
  unfolding name_step_def by (cases rest; cases "tl rest") (auto intro!: run)

lemma agrees_name_loop:
  assumes "drop index (cx_bytes cx) = rest" "index \<le> length (cx_bytes cx)"
  shows "agrees cx c (name_loop cx start rest index n) (name_loop cx' start (rest @ extra) index n)
    (\<lambda>v _. fst v = length (cx_bytes cx))"
  using assms
proof (induction "length rest" arbitrary: rest index n rule: less_induct)
  case less
  show ?case
  proof (cases rest)
    case Nil
    then show ?thesis using less.prems by (simp add: agrees_return_provisional)
  next
    case (Cons b rest1)
    have d: "index + length rest1 < length (cx_bytes cx)" "drop (Suc index) (cx_bytes cx) = rest1"
      using arg_cong [OF less.prems(1), of length] drop_ConsD(1,2) [OF trans [OF less.prems(1) Cons]] Cons by auto
    have next_unit: "agrees cx c (name_loop cx start (drop (j - Suc index) rest1) j (Suc n))
        (name_loop cx' start (drop (j - Suc index) rest1 @ extra) j (Suc n)) (\<lambda>v _. fst v = length (cx_bytes cx))"
      if j: "index < j" "j \<le> Suc (index + length rest1)" for j
    proof -
      have "drop j (cx_bytes cx) = drop (j - Suc index) rest1" unfolding d(2) [symmetric] using j by simp
      then show ?thesis using j d Cons by (auto intro!: less.hyps)
    qed
    show ?thesis
    proof (cases "is_delimiter b")
      case False
      then show ?thesis
        unfolding Cons append_Cons name_loop.simps
        by (auto simp: limits intro!: agrees_bind_same run next_unit runs_name_step
            agrees_bind [OF _ agrees_name_step [where E = "\<lambda>_ _. False"]])
    qed (simp add: Cons agree)
  qed
qed

lemma name_decode_same [simp]: "name_decode cx' rest source stop decoded = name_decode cx rest source stop decoded"
proof (induction "length rest" arbitrary: rest source decoded rule: less_induct)
  case less
  show ?case
  proof (cases rest)
    case (Cons b rest1)
    have hyp: "name_decode cx' r i stop acc = name_decode cx r i stop acc" if "length r < length rest" for r i acc
      using that by (rule less.hyps)
    have tail: "name_decode cx' rest1 i stop acc = name_decode cx rest1 i stop acc" for i acc
      using Cons by (intro hyp) simp
    have escape: "(case rest1 of h # l # rest2 \<Rightarrow>
          (case (hex_value h, hex_value l) of
             (Some high, Some low) \<Rightarrow> name_decode cx' rest2 (source + 3) stop (decoded @ [hex_pair high low])
           | _ \<Rightarrow> p_fail PPanic)
        | _ \<Rightarrow> p_fail PPanic) =
        (case rest1 of h # l # rest2 \<Rightarrow>
          (case (hex_value h, hex_value l) of
             (Some high, Some low) \<Rightarrow> name_decode cx rest2 (source + 3) stop (decoded @ [hex_pair high low])
           | _ \<Rightarrow> p_fail PPanic)
        | _ \<Rightarrow> p_fail PPanic)"
      using Cons by (auto split: list.split option.split intro: hyp)
    show ?thesis
      unfolding Cons name_decode.simps probe_same absolute_same tail escape by (rule refl)
  qed simp
qed

lemma agrees_scan_name:
  assumes start: "start < length (cx_bytes cx)"
  shows "agrees cx c (scan_name cx start) (scan_name cx' start) (\<lambda>_ _. False)"
proof -
  have le: "start + 1 \<le> length (cx_bytes cx)" using start by simp
  show ?thesis
    unfolding scan_name_def drop_more [OF le]
  proof (rule agrees_bind [OF _ agrees_name_loop [OF refl le]], rule runs_name_loop, rule impI, goal_cases)
    case (1 raw rest' decoded)
    then have len: "start + 1 + length raw \<le> length (cx_bytes cx)" using drop_append_length [OF _ le] by metis
    have "name_decode cx (drop (start + 1) (cx_bytes cx) @ extra) (start + 1) (start + 1 + length raw) [] =
        name_decode cx (drop (start + 1) (cx_bytes cx)) (start + 1) (start + 1 + length raw) []"
      unfolding 1(1) using name_decode_more [OF 1(2) refl, of cx "rest' @ extra" "start + 1" _ rest'] by simp
    with len show ?case by (auto simp: doomed_need_byte intro!: agree)
  qed
qed

lemma hex_scan_loop_same [simp]: "hex_scan_loop cx' start rest index n = hex_scan_loop cx start rest index n"
  by (induction rest arbitrary: index n) (simp_all cong: if_cong)

lemma hex_decode_same [simp]: "hex_decode cx' rest source stop high decoded = hex_decode cx rest source stop high decoded"
  by (induction rest arbitrary: source high decoded) (auto cong: if_cong option.case_cong)

lemma agrees_hex_scan_loop:
  "agrees cx c (hex_scan_loop cx start rest index n) (hex_scan_loop cx start (rest @ extra) index n) (\<lambda>_ _. False)"
proof (induction rest arbitrary: index n)
  case Nil
  then show ?case by (cases extra) (auto intro!: agree run)
next
  case (Cons b rest)
  then show ?case by (auto intro!: agree run)
qed

lemma agrees_scan_hex_string:
  assumes start: "start < length (cx_bytes cx)"
  shows "agrees cx c (scan_hex_string cx start) (scan_hex_string cx' start) (\<lambda>_ _. False)"
proof -
  have le: "start + 1 \<le> length (cx_bytes cx)" using start by simp
  show ?thesis
    unfolding scan_hex_string_def drop_more [OF le] hex_scan_loop_same
  proof (rule agrees_bind [OF _ agrees_hex_scan_loop], rule runs_hex_scan_loop, rule impI, goal_cases)
    case (1 body rest')
    have "hex_decode cx (drop (start + 1) (cx_bytes cx) @ extra) (start + 1) (start + 1 + length body) None [] =
        hex_decode cx (drop (start + 1) (cx_bytes cx)) (start + 1) (start + 1 + length body) None []"
      unfolding 1(1) using hex_decode_more [OF refl, of cx body "62 # rest' @ extra" "start + 1" None "[]" "62 # rest'"] by simp
    then show ?case by (simp add: limits Let_def agree)
  qed
qed

end

end
