(* ===== verification/Syn_WindowString.thy ===== *)
theory Syn_WindowString
  imports Syn_Window
begin

text \<open>
  Literal strings on a window and on a longer one. A turn of the first pass that sees all the bytes it may
  look at does the same on both; a turn at the very end of the window may take more on the longer one, but
  then the shorter window ends inside the string.
\<close>

section \<open>Checks\<close>

text \<open>Steps that change nothing, and fail, if they fail, on a limit.\<close>

definition check_step :: "unit parse \<Rightarrow> bool" where
  "check_step m \<longleftrightarrow> (\<forall>s. m s = (Inr (), s) \<or> (\<exists>e. m s = (Inl (PFailed e), s) \<and> limit_failure e))"

text \<open>A check that fails wherever another one does.\<close>

definition stricter :: "unit parse \<Rightarrow> unit parse \<Rightarrow> bool" where
  "stricter m m' \<longleftrightarrow> (\<forall>s. m' s = (Inr (), s) \<longrightarrow> m s = (Inr (), s))"

lemma limit_failure_resource [simp]: "limit_failure (syntax_error_resource kind limit consumed attempted offset)"
  by (simp add: limit_failure_def syntax_error_resource_def)

lemma limit_failure_cancelled [simp]: "limit_failure (syntax_error_for_code XCancelled offset)"
  by (simp add: limit_failure_def syntax_error_for_code_def)

lemma check_step_simps [simp]:
  "check_step (p_return ())"
  "check_step (check_single_limit kind limit attempted offset)"
  "check_step (check_string_source cx start stop)"
  by (auto simp: check_step_def check_string_source_def check_token_len_def check_single_limit_def p_bind_def
      p_return_def p_fail_def)

lemma check_step_bind [simp]: "check_step m \<Longrightarrow> check_step m' \<Longrightarrow> check_step (p_bind m (\<lambda>_. m'))"
proof -
  assume m: "check_step m" "check_step m'"
  have "p_bind m (\<lambda>_. m') s = (Inr (), s) \<or> (\<exists>e. p_bind m (\<lambda>_. m') s = (Inl (PFailed e), s) \<and> limit_failure e)" for s
    using m by (cases "m s = (Inr (), s)") (auto simp: check_step_def p_bind_def)
  then show ?thesis by (simp add: check_step_def)
qed

lemma stricter_refl [simp]: "stricter m m"
  by (simp add: stricter_def)

lemma stricter_return [simp]: "stricter (p_return ()) m"
  by (simp add: stricter_def p_return_def)

lemma stricter_both:
  assumes "check_step m" "check_step m'" "stricter m m'" "stricter k k'"
  shows "stricter (p_bind m (\<lambda>_. k)) (p_bind m' (\<lambda>_. k'))"
proof -
  have "p_bind m (\<lambda>_. k) s = (Inr (), s)" if "p_bind m' (\<lambda>_. k') s = (Inr (), s)" for s
    using assms that by (cases "m' s = (Inr (), s)") (auto simp: check_step_def stricter_def p_bind_def)
  then show ?thesis by (simp add: stricter_def)
qed

lemma stricter_after: "check_step m \<Longrightarrow> stricter k (p_bind m (\<lambda>_. k))"
  using stricter_both [of "p_return ()" m k k] by simp

lemma stricter_string_source:
  "stop \<le> stop' \<Longrightarrow> stricter (check_string_source cx start stop) (check_string_source cx start stop')"
  by (auto simp: stricter_def check_string_source_def check_token_len_def check_single_limit_def p_bind_def
      p_return_def p_fail_def)

lemma p_bind_assoc: "p_bind (p_bind m k) h = p_bind m (\<lambda>x. p_bind (k x) h)"
  by (auto simp: p_bind_def fun_eq_iff split: prod.splits sum.splits)

lemma probe_iteration_offset:
  "probe_iteration cx i s = (Inl f, s') \<Longrightarrow>
     \<exists>e. f = PFailed e \<and> limit_failure e \<and>
       probe_iteration cx j s = (Inl (PFailed (syntax_error_for_code XCancelled (Some j))), s')"
  by (auto simp: probe_iteration_def check_cancelled_def p_bind_def p_gets_def p_modify_def p_fail_def p_return_def
      split: if_splits)

lemma literal_loop_probe:
  "probe_iteration cx (absolute cx index) s = (Inl f, s') \<Longrightarrow> literal_loop cx start rest index n d s = (Inl f, s')"
  by (cases rest) (simp_all add: p_bind_def)

text \<open>The end of the window inside a string: what is left of the turn are checks and the next probe.\<close>

lemma agrees_unterminated:
  assumes "check_step m" "check_step m'" "stricter m m'"
  shows "agrees cx c (p_bind m (\<lambda>_. literal_loop cx start [] index n d)) (p_bind m' (\<lambda>_. literal_loop cx start rest index' n' d')) E"
  unfolding agrees_def
proof (intro allI impI conjI)
  fix s e s'
  assume short: "p_bind m (\<lambda>_. literal_loop cx start [] index n d) s = (Inl (PFailed e), s')"
  let ?long = "p_bind m' (\<lambda>_. literal_loop cx start rest index' n' d') s"
  have "limit_failure e"
  proof (cases "m s = (Inr (), s)")
    case True
    with short have "probe_iteration cx (absolute cx index) s = (Inl (PFailed e), s')"
      by (auto simp: p_bind_def p_fail_def split: prod.splits sum.splits)
    then show ?thesis using probe_iteration_offset by blast
  next
    case False
    then show ?thesis using short assms(1) by (auto simp: check_step_def p_bind_def)
  qed
  moreover have "\<exists>e' s''. ?long = (Inl (PFailed e'), s'') \<and> limit_failure e'"
  proof (cases "m' s = (Inr (), s)")
    case True
    then have "m s = (Inr (), s)" using assms(3) by (simp add: stricter_def)
    with short have "probe_iteration cx (absolute cx index) s = (Inl (PFailed e), s')"
      by (auto simp: p_bind_def p_fail_def split: prod.splits sum.splits)
    from probe_iteration_offset [OF this, of "absolute cx index'"] True show ?thesis
      by (auto simp: p_bind_def dest!: literal_loop_probe [where rest = rest])
  next
    case False
    then show ?thesis using assms(2) by (auto simp: check_step_def p_bind_def)
  qed
  ultimately show "?long = p_bind m (\<lambda>_. literal_loop cx start [] index n d) s \<or>
      limit_failure e \<and> (\<exists>e' s''. ?long = (Inl (PFailed e'), s'') \<and> limit_failure e')" by blast
next
  fix s v s'
  assume "p_bind m (\<lambda>_. literal_loop cx start [] index n d) s = (Inr v, s')"
  then show "E v (ps_cursor s') \<or> p_bind m' (\<lambda>_. literal_loop cx start rest index' n' d') s =
      p_bind m (\<lambda>_. literal_loop cx start [] index n d) s"
    by (simp add: p_bind_Inr)
qed

lemma agrees_unterminated_loop:
  "agrees cx c (literal_loop cx start [] index n d) (literal_loop cx start rest index' n' d') E"
  using agrees_unterminated [of "p_return ()" "p_return ()" cx c start index n d rest index' n' d' E] by simp

lemma agrees_unterminated_checks:
  assumes "i \<le> i'" "check_step k" "check_step k'" "stricter k k'"
  shows "agrees cx c
    (p_bind (check_string_source cx start i) (\<lambda>_. p_bind k (\<lambda>_. literal_loop cx start [] index n d)))
    (p_bind (check_string_source cx start i') (\<lambda>_. p_bind k' (\<lambda>_. literal_loop cx start rest index' n' d'))) E"
  using assms
    agrees_unterminated [of "p_bind (check_string_source cx start i) (\<lambda>_. k)" "p_bind (check_string_source cx start i') (\<lambda>_. k')"]
  by (simp add: p_bind_assoc stricter_both stricter_string_source)

section \<open>Complete turns\<close>

fun turn_complete :: "u8 \<Rightarrow> u8 list \<Rightarrow> bool" where
  "turn_complete b [] = (b \<noteq> 13 \<and> b \<noteq> 92)"
| "turn_complete b (e # rest) =
     (b = 92 \<longrightarrow> (e = 13 \<longrightarrow> rest \<noteq> []) \<and> (is_octal_digit e \<longrightarrow> octal_run 2 rest = 2 \<or> octal_run 2 rest < length rest))"

lemma octal_run_more:
  "octal_run n rest = n \<or> octal_run n rest < length rest \<Longrightarrow> octal_run n (rest @ extra) = octal_run n rest"
  by (induction n arbitrary: rest) (auto split: list.splits)

lemma octal_run_grows: "octal_run n rest \<le> octal_run n (rest @ extra)"
  by (induction n arbitrary: rest) (auto split: list.split)

lemma starts_newline_Cons: "starts_newline (b # rest) \<longleftrightarrow> b = 10"
  by (simp add: starts_newline_def peek_byte_def)

lemma literal_step_more:
  "turn_complete b rest \<Longrightarrow> literal_step cx start b (rest @ extra) index n d = literal_step cx start b rest index n d"
  by (cases rest)
    (auto simp: literal_step_def literal_escape_def Let_def starts_newline_append starts_newline_Cons octal_run_more
      cong: if_cong)

lemma octal_run_Cons: "octal_run 3 (b # rest) = (if is_octal_digit b then Suc (octal_run 2 rest) else 0)"
  by (simp add: numeral_3_eq_3 numeral_2_eq_2)

lemma literal_decode_step_more:
  assumes "turn_complete b rest"
  shows "literal_decode_step b (rest @ extra) n = literal_decode_step b rest n"
proof (cases rest)
  case (Cons e rest1)
  have "octal_run 3 (e # rest1 @ extra) = octal_run 3 (e # rest1) \<and>
      take (octal_run 3 (e # rest1 @ extra)) (e # rest1 @ extra) = take (octal_run 3 (e # rest1)) (e # rest1)"
    if "is_octal_digit e" "b = 92"
    using that assms Cons octal_run_le [of 2 rest1] by (simp add: octal_run_Cons octal_run_more)
  with assms Cons show ?thesis
    by (auto simp: literal_decode_step_def octal_byte_value starts_newline_append starts_newline_Cons)
qed (use assms in \<open>simp add: literal_decode_step_def\<close>)

lemma octal_digit_newline: "\<not> is_octal_digit 13" "\<not> is_octal_digit 10"
  by (simp_all add: is_octal_digit_def)

lemma decode_step_complete:
  assumes "literal_decode_step b rest n = Some (fin, used, n', added)" "fin \<or> used \<le> length rest"
  shows "turn_complete b rest"
proof (cases rest)
  case Nil
  with assms decode_step_bounds [OF assms(1)] show ?thesis by auto
next
  case (Cons e rest1)
  with assms decode_step_bounds [OF assms(1)] octal_run_le [of 2 rest1] show ?thesis
    by (auto simp: literal_decode_step_def octal_run_Cons octal_digit_newline split: if_splits)
qed

lemma literal_decode_more:
  assumes "literal_decodes n rest k out"
  shows "literal_decode cx (rest @ extra) source stop n decoded = literal_decode cx rest source stop n decoded"
  using assms
proof (induction arbitrary: source decoded rule: literal_decodes.induct)
  case (decodes_last b rest n used n' added)
  then show ?case using literal_decode_step_more [OF decode_step_complete [OF decodes_last.hyps]] by simp
next
  case (decodes_more b rest n used n' added k out)
  have used: "used \<le> length rest" "1 \<le> used"
    using literal_decodes_length [OF decodes_more.hyps(2)] decode_step_bounds [OF decodes_more.hyps(1)] by auto
  then have "literal_decode_step b (rest @ extra) n = literal_decode_step b rest n"
    using decodes_more.hyps(1) by (intro literal_decode_step_more decode_step_complete) auto
  moreover have "drop (used - 1) (rest @ extra) = drop (used - 1) rest @ extra" using used by simp
  ultimately show ?case using decodes_more.hyps(1) decodes_more.IH by simp
qed

section \<open>The scanner\<close>

context window_pair
begin

lemma literal_step_same [simp]: "literal_step cx' start b rest index n d = literal_step cx start b rest index n d"
  by (cases rest) (simp_all add: literal_step_def literal_escape_def limits Let_def cong: if_cong)

lemma literal_loop_same [simp]: "literal_loop cx' start rest index n d = literal_loop cx start rest index n d"
proof (induction "length rest" arbitrary: rest index n d rule: less_induct)
  case less
  show ?case
  proof (cases rest)
    case (Cons b rest1)
    then have "literal_loop cx' start (drop i rest1) j n' d' = literal_loop cx start (drop i rest1) j n' d'" for i j n' d'
      by (intro less.hyps) simp
    with Cons show ?thesis by (simp add: limits cong: if_cong)
  qed simp
qed

lemma literal_decode_same [simp]:
  "literal_decode cx' rest source stop n decoded = literal_decode cx rest source stop n decoded"
proof (induction "length rest" arbitrary: rest source n decoded rule: less_induct)
  case less
  show ?case
  proof (cases rest)
    case (Cons b rest1)
    then have "literal_decode cx' (drop i rest1) j stop n' d' = literal_decode cx (drop i rest1) j stop n' d'" for i j n' d'
      by (intro less.hyps) simp
    with Cons show ?thesis by (simp cong: if_cong option.case_cong prod.case_cong)
  qed simp
qed

text \<open>The last turn of the window, where the byte is cut off from the bytes that it looks at.\<close>

lemma agrees_cut_turn:
  assumes "\<not> turn_complete b rest"
  shows "agrees cx c (literal_loop cx start (b # rest) index n d) (literal_loop cx start (b # rest @ extra) index n d) E"
proof -
  consider "b = 13" "rest = []" | "b = 92" "rest = []" | "b = 92" "rest = [13]"
    | e ds where "b = 92" "rest = e # ds" "is_octal_digit e" "e \<noteq> 13" "e \<noteq> 10" "octal_run 2 ds = length ds"
    using assms octal_run_le [of 2 "tl rest"] octal_digit_newline
    by (cases rest) (auto split: if_splits)
  then show ?thesis
  proof cases
    case 1
    then show ?thesis
      by (auto simp: literal_step_def simp del: literal_loop.simps(1) intro!: agrees_bind_same run agrees_unterminated_loop)
  next
    case 2
    then show ?thesis by (auto simp: literal_step_def intro!: agree run)
  next
    case 3
    have "agrees cx c
        (p_bind (check_string_source cx start (Suc (Suc index))) (\<lambda>_. p_bind k (\<lambda>_. literal_loop cx start [] i n d)))
        (p_bind (check_string_source cx start (Suc (Suc (Suc index)))) (\<lambda>_.
          p_bind (check_string_source cx start (Suc (Suc (Suc index)))) (\<lambda>_. p_bind k (\<lambda>_. literal_loop cx start r i' n d)))) E"
      if "check_step k" for k i r i'
      using agrees_unterminated_checks [of "Suc (Suc index)" "Suc (Suc (Suc index))" k
          "p_bind (check_string_source cx start (Suc (Suc (Suc index)))) (\<lambda>_. k)"] that
      by (simp add: p_bind_assoc stricter_after)
    with 3 show ?thesis
      by (auto simp: literal_step_def literal_escape_def p_bind_assoc starts_newline_def peek_byte_def
          simp del: literal_loop.simps(1)
          intro!: agrees_bind_same run agrees_unterminated_checks agrees_unterminated_loop)
  next
    case 4
    then show ?thesis
      using octal_run_grows [of 2 ds extra]
      by (auto simp: literal_step_def literal_escape_def p_bind_assoc simp del: literal_loop.simps(1)
          intro!: agrees_bind_same run agrees_unterminated_checks)
  qed
qed

lemma agrees_literal_loop:
  assumes "1 \<le> n"
  shows "agrees cx c (literal_loop cx start rest index n d) (literal_loop cx start (rest @ extra) index n d) E"
  using assms
proof (induction "length rest" arbitrary: rest index n d rule: less_induct)
  case less
  show ?case
  proof (cases rest)
    case Nil
    then show ?thesis by (simp add: agrees_unterminated_loop del: literal_loop.simps(1))
  next
    case (Cons b rest1)
    show ?thesis
    proof (cases "turn_complete b rest1")
      case False
      then show ?thesis using agrees_cut_turn Cons by simp
    next
      case True
      have tail: "agrees cx c (literal_loop cx start (drop (used - Suc 0) rest1) (index + used) n' d')
          (literal_loop cx start (drop (used - Suc 0) (rest1 @ extra)) (index + used) n' d') E"
        if "literal_decode_step b rest1 n = Some (fin, used, n', added)" "fin \<or> 1 \<le> n'" "\<not> fin" for fin used n' added d'
      proof -
        have "drop (used - Suc 0) (rest1 @ extra) = drop (used - Suc 0) rest1 @ extra"
          using decode_step_bounds [OF that(1)] by simp
        then show ?thesis using that Cons by (auto intro!: less.hyps)
      qed
      show ?thesis
        unfolding Cons append_Cons literal_loop.simps literal_step_more [OF True]
        using tail
        by (auto intro!: agrees_bind_same run runs_literal_step less.prems agrees_refl)
    qed
  qed
qed

end

end
