(* ===== verification/Syn_WindowParse.thy ===== *)
theory Syn_WindowParse
  imports Syn_WindowString
begin

text \<open>
  Tokens and objects on a window and on a longer one.
\<close>

context window_pair
begin

section \<open>Tokens\<close>

lemma agrees_scan_literal_string:
  assumes start: "start < length (cx_bytes cx)"
  shows "agrees cx c (scan_literal_string cx start) (scan_literal_string cx' start) (\<lambda>_ _. False)"
proof -
  have le: "start + 1 \<le> length (cx_bytes cx)" using start by simp
  show ?thesis
    unfolding scan_literal_string_def drop_more [OF le] literal_loop_same
  proof (rule agrees_bind [OF _ agrees_literal_loop [where E = "\<lambda>_ _. False"]], rule runs_literal_loop, simp, rule impI, goal_cases)
    case (1 k out)
    then show ?case using literal_decode_more [OF 1(1)] by (simp add: limits agree)
  qed simp
qed

lemma agrees_fixed_token:
  "agrees cx c (fixed_token cx start len kind) (fixed_token cx' start len kind) E"
  by (simp add: fixed_token_def agree)

lemma agrees_token_at:
  assumes start: "start < length (cx_bytes cx)"
  shows "agrees cx c (token_at cx start) (token_at cx' start) (\<lambda>_ _. False)"
proof -
  obtain b where b: "peek_byte (cx_bytes cx) start = Some b" "peek_byte (cx_bytes cx') start = Some b"
    using start peek_more [OF start] by (auto simp: peek_byte_def)
  show ?thesis
    unfolding token_at_def b option.case
    using start
    by (intro agrees_if agrees_need_byte agrees_fixed_token agrees_scan_literal_string agrees_scan_name
        agrees_scan_hex_string agrees_scan_regular)
      (auto simp: peek_more intro!: agree agrees_fixed_token agrees_scan_hex_string)
qed

lemma agrees_next_token:
  "c \<le> length (cx_bytes cx) \<Longrightarrow> agrees cx c (next_token cx) (next_token cx') (\<lambda>_ _. False)"
  unfolding next_token_def
  by (rule agrees_after_trivia) (auto simp: doomed_fail intro!: agrees_bind_same run agrees_token_at)

lemma agrees_next_required_token:
  assumes c: "c \<le> length (cx_bytes cx)"
  shows "agrees cx c (next_required_token cx code) (next_required_token cx' code) (\<lambda>_ _. False)"
  unfolding agrees_def
proof (intro allI impI)
  fix s
  assume s: "parser_ok cx s \<and> ps_cursor s = c"
  note d = agreesD [OF agrees_next_token [OF c], of s]
  obtain r s1 where r: "next_token cx s = (r, s1)" by force
  show "(\<forall>v s'. next_required_token cx code s = (Inr v, s') \<longrightarrow>
        False \<or> next_required_token cx' code s = next_required_token cx code s) \<and>
     (\<forall>e s'. next_required_token cx code s = (Inl (PFailed e), s') \<longrightarrow>
        next_required_token cx' code s = next_required_token cx code s \<or>
        limit_failure e \<and> (\<exists>e' s''. next_required_token cx' code s = (Inl (PFailed e'), s'') \<and> limit_failure e'))"
    using d [of _ s1] s r
    by (auto simp: next_required_token_def split: sum.splits parse_failure.splits)
qed

lemma agrees_after_token:
  assumes "c \<le> length (cx_bytes cx)" "\<And>t j. tokenized cx c t j \<Longrightarrow> agrees cx j (k t) (k' t) E"
  shows "agrees cx c (p_bind (next_token cx) k) (p_bind (next_token cx') k') E"
    and "agrees cx c (p_bind (next_required_token cx code) k) (p_bind (next_required_token cx' code) k') E"
proof -
  show "agrees cx c (p_bind (next_token cx) k) (p_bind (next_token cx') k') E"
    by (rule agrees_bind [OF _ agrees_next_token [OF assms(1)]]) (auto intro!: run assms)
  show "agrees cx c (p_bind (next_required_token cx code) k) (p_bind (next_required_token cx' code) k') E"
    by (rule agrees_bind [OF _ agrees_next_required_token [OF assms(1)]]) (auto intro!: run assms)
qed

lemma agrees_byte_at_cursor:
  assumes "c < length (cx_bytes cx)" "agrees cx c (k (cx_bytes cx ! c)) (k' (cx_bytes cx ! c)) E"
  shows "agrees cx c (p_bind (byte_at_cursor cx) k) (p_bind (byte_at_cursor cx') k') E"
  using assms
  by (simp add: agrees_def byte_at_cursor_def p_bind_def p_gets_def p_return_def peek_byte_def bytes nth_append)

section \<open>References\<close>

lemma probe_digits_same [simp]:
  "probe_digits cx' start rest index magnitude overflowed = probe_digits cx start rest index magnitude overflowed"
  by (induction rest arbitrary: index magnitude overflowed) (simp_all add: Let_def cong: if_cong)

lemma agrees_probe_digits:
  assumes "drop index (cx_bytes cx) = rest" "index \<le> length (cx_bytes cx)"
  shows "agrees cx c (probe_digits cx start rest index m ovf) (probe_digits cx start (rest @ extra) index m ovf)
    (\<lambda>v _. fst v = length (cx_bytes cx))"
  using assms
proof (induction rest arbitrary: index m ovf)
  case Nil
  then show ?case by (simp add: agrees_return_provisional)
next
  case (Cons b rest)
  note d = drop_ConsD [OF Cons.prems(1)]
  have "agrees cx c (probe_digits cx start rest (Suc index) m' ovf') (probe_digits cx start (rest @ extra) (Suc index) m' ovf')
    (\<lambda>v _. fst v = length (cx_bytes cx))" for m' ovf' using d by (intro Cons.IH) auto
  then show ?case by (cases "is_ascii_digit b") (auto simp: Let_def intro!: agree run)
qed

lemma plain_integer_same [simp]: "plain_integer cx' = plain_integer cx"
  by (simp add: plain_integer_def fun_eq_iff)

lemma agrees_finish_reference:
  "c \<le> length (cx_bytes cx) \<Longrightarrow>
     agrees cx c (finish_reference cx t v g) (finish_reference cx' t v g) (\<lambda>_ _. False)"
  unfolding finish_reference_def by (rule agrees_after_token) (simp_all add: agrees_refl)

lemma agrees_reference_keyword:
  assumes "c \<le> length (cx_bytes cx)"
  shows "agrees cx c (reference_keyword cx t v g checkpoint) (reference_keyword cx' t v g checkpoint) (\<lambda>_ _. False)"
  unfolding reference_keyword_def
proof (rule agrees_after_trivia [OF assms])
  fix i
  assume i: "i < length (cx_bytes cx)"
  then show "agrees cx i
     (p_bind (byte_at_cursor cx) (\<lambda>b.
        if b \<noteq> 82 then plain_integer cx t v checkpoint
        else p_bind (need_byte cx (i + 1) XUnexpectedEndOfInput) (\<lambda>_.
          if (case peek_byte (cx_bytes cx) (i + 1) of None \<Rightarrow> False | Some c \<Rightarrow> \<not> is_delimiter c)
          then plain_integer cx t v checkpoint else finish_reference cx t v g)))
     (p_bind (byte_at_cursor cx') (\<lambda>b.
        if b \<noteq> 82 then plain_integer cx' t v checkpoint
        else p_bind (need_byte cx' (i + 1) XUnexpectedEndOfInput) (\<lambda>_.
          if (case peek_byte (cx_bytes cx') (i + 1) of None \<Rightarrow> False | Some c \<Rightarrow> \<not> is_delimiter c)
          then plain_integer cx' t v checkpoint else finish_reference cx' t v g))) (\<lambda>_ _. False)"
    by (intro agrees_byte_at_cursor agrees_if agrees_need_byte)
      (auto simp: peek_more intro: agrees_refl agrees_finish_reference)
qed (simp_all add: doomed_need_byte)

lemma agrees_probe_digits_then:
  assumes index: "index < length (cx_bytes cx)"
    and k: "\<And>j m' o' c. j < length (cx_bytes cx) \<Longrightarrow> agrees cx c (k j m' o') (k' j m' o') E"
  shows "agrees cx c
    (p_bind (probe_digits cx start (drop index (cx_bytes cx)) index m ovf) (\<lambda>(j, m', o').
       p_bind (need_byte cx j code) (\<lambda>_. k j m' o')))
    (p_bind (probe_digits cx start (drop index (cx_bytes cx')) index m ovf) (\<lambda>(j, m', o').
       p_bind (need_byte cx' j code) (\<lambda>_. k' j m' o'))) E"
  unfolding drop_more [OF less_imp_le [OF index]]
proof (rule agrees_bind [OF _ agrees_probe_digits [OF refl less_imp_le [OF index]]], rule runs_probe_digits, rule impI,
    goal_cases)
  case (1 ds rest' m' o')
  have "index + length ds \<le> length (cx_bytes cx)" using drop_append_length [OF 1(1)] index by simp
  then show ?case by (auto simp: doomed_need_byte intro!: agrees_need_byte k)
qed

lemma agrees_probe_integer_token:
  assumes c: "c < length (cx_bytes cx)"
  shows "agrees cx c (probe_integer_token cx) (probe_integer_token cx') (\<lambda>_ _. False)"
proof -
  have tail: "agrees cx c
      (p_bind (check_token_len cx c i) (\<lambda>_. p_bind (need_byte cx i XInvalidNumber) (\<lambda>_.
        case peek_byte (cx_bytes cx) i of None \<Rightarrow> p_return None | Some b \<Rightarrow>
          if \<not> is_ascii_digit b then p_return None
          else p_bind (probe_digits cx c (drop i (cx_bytes cx)) i 0 False) (\<lambda>(j, m, o').
            p_bind (need_byte cx j XInvalidNumber) (\<lambda>_. k (peek_byte (cx_bytes cx) j) j m o')))))
      (p_bind (check_token_len cx c i) (\<lambda>_. p_bind (need_byte cx' i XInvalidNumber) (\<lambda>_.
        case peek_byte (cx_bytes cx') i of None \<Rightarrow> p_return None | Some b \<Rightarrow>
          if \<not> is_ascii_digit b then p_return None
          else p_bind (probe_digits cx' c (drop i (cx_bytes cx')) i 0 False) (\<lambda>(j, m, o').
            p_bind (need_byte cx' j XInvalidNumber) (\<lambda>_. k (peek_byte (cx_bytes cx') j) j m o'))))) (\<lambda>_ _. False)"
    if i: "i \<le> length (cx_bytes cx)" for i and k :: "u8 option \<Rightarrow> nat \<Rightarrow> nat \<Rightarrow> bool \<Rightarrow> int option parse"
  proof (intro agrees_bind_same run impI agrees_need_byte i, goal_cases)
    case 1
    then obtain b where "peek_byte (cx_bytes cx) i = Some b" "peek_byte (cx_bytes cx') i = Some b"
      using peek_more [OF 1(2)] by (auto simp: peek_byte_def)
    with 1 show ?case by (auto simp: peek_more intro!: agree agrees_probe_digits_then)
  qed
  show ?thesis
    unfolding probe_integer_token_def Let_def check_token_len_same absolute_same charge_token_same
    by (rule agrees_cursor, unfold peek_more [OF c], intro agrees_if tail agrees_refl) (use c in auto)
qed

lemma agrees_integer_or_reference:
  assumes "c \<le> length (cx_bytes cx)"
  shows "agrees cx c (integer_or_reference cx t v) (integer_or_reference cx' t v) (\<lambda>_ _. False)"
  unfolding integer_or_reference_def
proof (rule agrees_cursor, rule agrees_after_trivia [OF assms])
  fix i
  assume i: "i < length (cx_bytes cx)"
  have second: "agrees cx i
      (p_bind (probe_integer_token cx) (\<lambda>second. case second of
         None \<Rightarrow> plain_integer cx t v c | Some g \<Rightarrow> reference_keyword cx t v g c))
      (p_bind (probe_integer_token cx') (\<lambda>second. case second of
         None \<Rightarrow> plain_integer cx' t v c | Some g \<Rightarrow> reference_keyword cx' t v g c)) (\<lambda>_ _. False)"
    by (rule agrees_bind [OF _ agrees_probe_integer_token [OF i]])
      (auto simp: agrees_refl intro!: run agrees_reference_keyword less_imp_le [OF i])
  show "agrees cx i
     (p_bind (byte_at_cursor cx) (\<lambda>b. if \<not> is_number_start b then plain_integer cx t v c
        else p_bind (probe_integer_token cx) (\<lambda>second. case second of
          None \<Rightarrow> plain_integer cx t v c | Some g \<Rightarrow> reference_keyword cx t v g c)))
     (p_bind (byte_at_cursor cx') (\<lambda>b. if \<not> is_number_start b then plain_integer cx' t v c
        else p_bind (probe_integer_token cx') (\<lambda>second. case second of
          None \<Rightarrow> plain_integer cx' t v c | Some g \<Rightarrow> reference_keyword cx' t v g c))) (\<lambda>_ _. False)"
    by (intro agrees_byte_at_cursor agrees_if second i) (simp add: agrees_refl)
qed (simp add: doomed_need_byte)

section \<open>Containers\<close>

lemma agrees_after_turn:
  assumes c: "c \<le> length (cx_bytes cx)"
    and k: "\<And>i. trivia_at cx c i \<Longrightarrow> i < length (cx_bytes cx) \<Longrightarrow> agrees cx i (k i) (k' i) E"
  shows "agrees cx c (p_bind (container_turn cx) k) (p_bind (container_turn cx') k') E"
proof -
  have "agrees cx c (container_turn cx) (container_turn cx') (\<lambda>_ _. False)"
    unfolding container_turn_def probe_position_same
    by (intro agrees_bind_same run impI agrees_after_trivia c) (auto simp: agrees_refl doomed_fail)
  then show ?thesis by (rule agrees_bind [rotated]) (auto intro!: run c k)
qed

lemma runs_located_key: "(\<And>v. P v c) \<Longrightarrow> runs cx c (located_object cx start stop key) P"
  unfolding located_object_def by (intro run impI)

text \<open>The key of an entry, and the token its value begins with.\<close>

lemma agrees_entry:
  assumes k: "k \<le> length (cx_bytes cx)"
    and item: "\<And>b key t m. k < b \<Longrightarrow> tokenized cx b t m \<Longrightarrow> agrees cx m (value_of key t) (value_of' key t) E"
  shows "agrees cx k
    (p_bind (next_required_token cx XUnexpectedEndOfInput) (\<lambda>key_token. p_bind (key_of_token key_token) (\<lambda>key.
     p_bind (located_object cx (tk_start key_token) (tk_end key_token) key) (\<lambda>located_key.
     p_bind (next_required_token cx XUnexpectedEndOfInput) (value_of located_key)))))
    (p_bind (next_required_token cx' XUnexpectedEndOfInput) (\<lambda>key_token. p_bind (key_of_token key_token) (\<lambda>key.
     p_bind (located_object cx (tk_start key_token) (tk_end key_token) key) (\<lambda>located_key.
     p_bind (next_required_token cx' XUnexpectedEndOfInput) (value_of' located_key))))) E"
  by (intro agrees_after_token agrees_bind_same run impI item runs_located_key k) (auto dest: tokenized_less)

text \<open>The end of a dictionary: on one \<open>>\<close> at the end of the window nothing is decided.\<close>

lemma agrees_close_or:
  assumes k: "k < length (cx_bytes cx)"
    and close: "\<And>t c. agrees cx c (close_of t) (close_of' t) E" and body: "agrees cx k body body' E"
  shows "agrees cx k
    (if cx_bytes cx ! k = 62 \<and> peek_byte (cx_bytes cx) (k + 1) = Some 62 then p_bind (next_token cx) close_of
     else p_bind (if cx_bytes cx ! k = 62 then need_byte cx (k + 1) XUnexpectedByte else p_return ()) (\<lambda>_. body))
    (if cx_bytes cx ! k = 62 \<and> peek_byte (cx_bytes cx') (k + 1) = Some 62 then p_bind (next_token cx') close_of'
     else p_bind (if cx_bytes cx ! k = 62 then need_byte cx' (k + 1) XUnexpectedByte else p_return ()) (\<lambda>_. body')) E"
proof -
  have inside: "need_byte cx (Suc k) XUnexpectedByte = p_return ()" "need_byte cx' (Suc k) XUnexpectedByte = p_return ()"
      "peek_byte (cx_bytes cx') (Suc k) = peek_byte (cx_bytes cx) (Suc k)" if "Suc k < length (cx_bytes cx)"
    using that peek_more [OF that] by (simp_all add: need_byte_def bytes)
  consider "cx_bytes cx ! k \<noteq> 62" | "cx_bytes cx ! k = 62" "Suc k = length (cx_bytes cx)"
    | "cx_bytes cx ! k = 62" "Suc k < length (cx_bytes cx)" "peek_byte (cx_bytes cx) (Suc k) = Some 62"
    | "cx_bytes cx ! k = 62" "Suc k < length (cx_bytes cx)" "peek_byte (cx_bytes cx) (Suc k) \<noteq> Some 62"
    using k by linarith
  then show ?thesis
  proof cases
    case 1
    with body show ?thesis by simp
  next
    case 2
    then show ?thesis by (simp add: peek_byte_def need_byte_def open_end agree)
  next
    case 3
    then show ?thesis using k by (simp add: inside) (intro agrees_after_token close, simp)
  next
    case 4
    with body show ?thesis by (simp add: inside)
  qed
qed

lemma agrees_objects:
  shows "2 * (length (cx_bytes cx) - c) + 2 \<le> fuel \<Longrightarrow> fuel \<le> fuel' \<Longrightarrow> scanned cx i t c \<Longrightarrow>
      agrees cx c (object_from_token fuel cx t depth) (object_from_token fuel' cx' t depth) (\<lambda>_ _. False)"
    and "2 * (length (cx_bytes cx) - c) + 1 \<le> fuel \<Longrightarrow> fuel \<le> fuel' \<Longrightarrow> c \<le> length (cx_bytes cx) \<Longrightarrow>
      agrees cx c (array_loop fuel cx opn depth vs capacity) (array_loop fuel' cx' opn depth vs capacity) (\<lambda>_ _. False)"
    and "2 * (length (cx_bytes cx) - c) + 1 \<le> fuel \<Longrightarrow> fuel \<le> fuel' \<Longrightarrow> c \<le> length (cx_bytes cx) \<Longrightarrow>
      agrees cx c (dictionary_loop fuel cx opn depth es capacity) (dictionary_loop fuel' cx' opn depth es capacity)
        (\<lambda>_ _. False)"
proof (induction fuel arbitrary: fuel' c i t depth opn vs es capacity)
  case 0
  {
    case 1
    then show ?case by simp
  next
    case 2
    then show ?case by simp
  next
    case 3
    then show ?case by simp
  }
next
  case (Suc fuel)
  have item: "agrees cx m (p_bind (object_from_token fuel cx t depth) k) (p_bind (object_from_token f cx' t depth) k')
      (\<lambda>_ _. False)"
    if x: "tokenized cx c t m" "2 * (length (cx_bytes cx) - c) \<le> fuel" "fuel \<le> f"
      "\<And>v j. m \<le> j \<Longrightarrow> j \<le> length (cx_bytes cx) \<Longrightarrow> agrees cx j (k v) (k' v) (\<lambda>_ _. False)"
    for m t depth c f and k k' :: "syntax_object located \<Rightarrow> syntax_object located parse"
  proof -
    obtain i where i: "scanned cx i t m" using x(1) by (auto simp: tokenized_def)
    have fuel: "2 * (length (cx_bytes cx) - m) + 2 \<le> fuel" using x(2) tokenized_less [OF x(1)] by linarith
    show ?thesis
      by (rule agrees_bind [OF _ Suc.IH(1) [OF fuel x(3) i]], rule runs_mono [OF runs_objects(1) [OF fuel i]])
        (use x(4) in auto)
  qed
  {
    case 1
    then obtain f where f: "fuel' = Suc f" "fuel \<le> f" by (cases fuel') auto
    have c: "c \<le> length (cx_bytes cx)" using scanned_simps [OF 1(3)] by simp
    have loops: "agrees cx c (array_loop fuel cx t d [] 0) (array_loop f cx' t d [] 0) (\<lambda>_ _. False)"
      "agrees cx c (dictionary_loop fuel cx t d [] 0) (dictionary_loop f cx' t d [] 0) (\<lambda>_ _. False)" for d
      using 1(1) c f(2) by (auto intro!: Suc.IH(2,3))
    show ?case
      unfolding f(1) object_from_token.simps located_object_same enter_container_same
      by (cases "tk_kind t")
        (auto intro!: agrees_bind_same run loops agrees_integer_or_reference c agrees_refl)
  next
    case 2
    then obtain f where f: "fuel' = Suc f" "fuel \<le> f" by (cases fuel') auto
    have fuel: "2 * (length (cx_bytes cx) - c) \<le> fuel" using 2(1) by simp
    have next_item: "agrees cx m
        (p_bind (object_from_token fuel cx t depth) (\<lambda>v. array_loop fuel cx opn depth (vs @ [v]) n))
        (p_bind (object_from_token f cx' t depth) (\<lambda>v. array_loop f cx' opn depth (vs @ [v]) n)) (\<lambda>_ _. False)"
      if k: "trivia_at cx c k" and t: "tokenized cx k t m" for k t m n
    proof (rule item [OF t _ f(2)])
      have km: "c \<le> k" "k < m" using k tokenized_less [OF t] by (auto simp: trivia_at_def)
      show "2 * (length (cx_bytes cx) - k) \<le> fuel" using fuel km by simp
      show "agrees cx j (array_loop fuel cx opn depth (vs @ [v]) n) (array_loop f cx' opn depth (vs @ [v]) n) (\<lambda>_ _. False)"
        if "m \<le> j" "j \<le> length (cx_bytes cx)" for v j
        using that km fuel f(2) by (intro Suc.IH(2)) auto
    qed
    show ?case
      unfolding f(1) array_loop.simps reserve_item_same host located_object_same absolute_same
      by (intro agrees_after_turn agrees_byte_at_cursor agrees_if agrees_bind_same run impI agrees_after_token next_item
          agrees_refl 2(3)) auto
  next
    case 3
    then obtain f where f: "fuel' = Suc f" "fuel \<le> f" by (cases fuel') auto
    have fuel: "2 * (length (cx_bytes cx) - c) \<le> fuel" using 3(1) by simp
    have next_entry: "agrees cx m
        (p_bind (object_from_token fuel cx t depth) (\<lambda>v. dictionary_loop fuel cx opn depth (es @ [(key, v)]) n))
        (p_bind (object_from_token f cx' t depth) (\<lambda>v. dictionary_loop f cx' opn depth (es @ [(key, v)]) n)) (\<lambda>_ _. False)"
      if k: "trivia_at cx c k" "k < b" and t: "tokenized cx b t m" for k b key t m n
    proof (rule item [OF t _ f(2)])
      have km: "c \<le> k" "b < m" using k tokenized_less [OF t] by (auto simp: trivia_at_def)
      show "2 * (length (cx_bytes cx) - b) \<le> fuel" using fuel km k(2) by simp
      show "agrees cx j (dictionary_loop fuel cx opn depth (es @ [(key, v)]) n)
          (dictionary_loop f cx' opn depth (es @ [(key, v)]) n) (\<lambda>_ _. False)"
        if "m \<le> j" "j \<le> length (cx_bytes cx)" for v j
        using that km k(2) fuel f(2) by (intro Suc.IH(3)) auto
    qed
    show ?case
      unfolding f(1) dictionary_loop.simps reserve_item_same host located_object_same absolute_same
      by (rule agrees_after_turn [OF 3(3)], rule agrees_byte_at_cursor, assumption, rule agrees_close_or)
        (auto intro!: agrees_refl agrees_bind_same run agrees_entry intro: next_entry)
  }
qed

lemma agrees_parse_object_at:
  assumes c: "c \<le> length (cx_bytes cx)"
  shows "agrees cx c (parse_object_at cx depth) (parse_object_at cx' depth) (\<lambda>_ _. False)"
  unfolding parse_object_at_def
proof (rule agrees_after_token(1) [OF c])
  fix t j
  assume "tokenized cx c t j"
  then obtain i where i: "scanned cx i t j" by (auto simp: tokenized_def)
  have "2 * (length (cx_bytes cx) - j) + 2 \<le> object_fuel cx" "object_fuel cx \<le> object_fuel cx'"
    by (simp_all add: object_fuel_def bytes)
  then show "agrees cx j (object_from_token (object_fuel cx) cx t depth) (object_from_token (object_fuel cx') cx' t depth)
      (\<lambda>_ _. False)"
    using i by (rule agrees_objects(1))
qed

end

end
