(* ===== verification/Syn_WindowOps.thy ===== *)
theory Syn_WindowOps
  imports Syn_WindowParse
begin

text \<open>
  The public operations on a window that may continue and on a longer window: what is ready stays ready with
  the same value, cursor and statistics, and what failed stays failed. The pair of windows is the locale
  \<open>window_pair\<close>, interpreted here by a context and the context that extends its bytes.
\<close>

context window_pair
begin

lemma agrees_parse_keyword_inner:
  assumes c: "c \<le> length (cx_bytes cx)"
  shows "agrees cx c (parse_keyword_inner cx) (parse_keyword_inner cx') (\<lambda>_ _. False)"
  unfolding parse_keyword_inner_def absolute_same charge_token_same source regular_loop_same
proof (rule agrees_after_trivia [OF c])
  fix i
  assume i: "i < length (cx_bytes cx)"
  note le = less_imp_le [OF i]
  have word: "agrees cx i
      (p_bind (regular_loop cx i (drop i (cx_bytes cx)) i) (\<lambda>j. p_bind (need_byte cx j XUnexpectedEndOfInput) (\<lambda>_.
        k j (window_bytes cx i j))))
      (p_bind (regular_loop cx i (drop i (cx_bytes cx')) i) (\<lambda>j. p_bind (need_byte cx' j XUnexpectedEndOfInput) (\<lambda>_.
        k j (window_bytes cx' i j)))) (\<lambda>_ _. False)" for k :: "nat \<Rightarrow> u8 list \<Rightarrow> raw_bytes parse"
    unfolding drop_more [OF le]
  proof (rule agrees_bind [OF _ agrees_regular_loop [OF refl le]], rule runs_regular_loop [OF refl le], rule impI,
      goal_cases)
    case (1 j)
    then show ?case by (auto simp: doomed_need_byte window_more intro!: agrees_need_byte agrees_refl)
  qed
  show "agrees cx i
     (p_bind (charge_token cx (absolute cx i)) (\<lambda>_. p_bind (byte_at_cursor cx) (\<lambda>first.
        if is_delimiter first \<or> is_number_start first then p_error XUnexpectedToken (absolute cx i)
        else p_bind (regular_loop cx i (drop i (cx_bytes cx)) i) (\<lambda>stop.
          p_bind (need_byte cx stop XUnexpectedEndOfInput) (\<lambda>_.
          p_bind (p_result (from_bounds (absolute cx i) (absolute cx stop))) (\<lambda>span. p_bind (p_seek stop) (\<lambda>_.
            p_return \<lparr>raw_source = in_source (cx_input cx), raw_span = span, raw_slice = window_bytes cx i stop\<rparr>)))))))
     (p_bind (charge_token cx (absolute cx i)) (\<lambda>_. p_bind (byte_at_cursor cx') (\<lambda>first.
        if is_delimiter first \<or> is_number_start first then p_error XUnexpectedToken (absolute cx i)
        else p_bind (regular_loop cx i (drop i (cx_bytes cx')) i) (\<lambda>stop.
          p_bind (need_byte cx' stop XUnexpectedEndOfInput) (\<lambda>_.
          p_bind (p_result (from_bounds (absolute cx i) (absolute cx stop))) (\<lambda>span. p_bind (p_seek stop) (\<lambda>_.
            p_return \<lparr>raw_source = in_source (cx_input cx), raw_span = span, raw_slice = window_bytes cx' i stop\<rparr>)))))))
     (\<lambda>_ _. False)"
    by (intro agrees_bind_same run impI agrees_byte_at_cursor i agrees_if agrees_refl word)
qed (simp add: doomed_fail)

lemma agrees_expect_keyword_inner:
  assumes c: "c \<le> length (cx_bytes cx)"
  shows "agrees cx c (expect_keyword_inner cx expected) (expect_keyword_inner cx' expected) (\<lambda>_ _. False)"
  unfolding expect_keyword_inner_def
  by (rule agrees_bind [OF _ agrees_parse_keyword_inner [OF c]])
    (rule runs_mono [OF runs_parse_keyword_inner [OF c]], simp add: agrees_refl)

lemma header_prefix_more:
  "take (min (length xs) 5) xs \<noteq> take (min (length xs) 5) header_prefix \<Longrightarrow>
     take (min (length (xs @ ys)) 5) (xs @ ys) \<noteq> take (min (length (xs @ ys)) 5) header_prefix"
proof
  assume "take (min (length (xs @ ys)) 5) (xs @ ys) = take (min (length (xs @ ys)) 5) header_prefix"
  from arg_cong [OF this, where f = "take (min (length xs) 5)"]
  have "take (min (length xs) 5) xs = take (min (length xs) 5) header_prefix" by (simp add: min_def split: if_splits)
  then show "take (min (length xs) 5) xs \<noteq> take (min (length xs) 5) header_prefix \<Longrightarrow> False" by simp
qed

lemma agrees_parse_header_inner:
  assumes c: "c \<le> length (cx_bytes cx)"
  shows "agrees cx c (parse_header_inner cx) (parse_header_inner cx') (\<lambda>_ _. False)"
proof -
  let ?rest = "drop c (cx_bytes cx)"
  have len: "length header_prefix = 5" by (simp add: header_prefix_def)
  have c': "c \<le> length (cx_bytes cx')" using c by (simp add: bytes)
  have same: "take 5 (?rest @ extra) = take 5 ?rest" "(?rest @ extra) ! 5 = ?rest ! 5" "(?rest @ extra) ! 6 = ?rest ! 6"
      "(?rest @ extra) ! 7 = ?rest ! 7" "min (length ?rest) 5 = 5" "min (length (?rest @ extra)) 5 = 5"
      "\<not> length (?rest @ extra) < 8"
    if "8 \<le> length ?rest" using that by (auto simp: nth_append)
  consider "take (min (length ?rest) 5) ?rest \<noteq> take (min (length ?rest) 5) header_prefix"
    | "take (min (length ?rest) 5) ?rest = take (min (length ?rest) 5) header_prefix" "length ?rest < 8"
    | "8 \<le> length ?rest" by linarith
  then show ?thesis
    unfolding parse_header_inner_def absolute_same charge_token_same limits located_object_same Let_def len
  proof (cases, goal_cases)
    case 1
    note header_prefix_more [OF 1, of extra]
    with 1 c c' show ?case
      by (auto simp: drop_more [OF c] simp del: length_append length_drop intro!: agrees_cursor agrees_bind_same run agrees_refl)
  next
    case 2
    with c show ?case
      by (auto simp del: length_drop intro!: agrees_cursor agrees_bind_same run agree)
  next
    case 3
    with c c' show ?case
      by (auto simp: drop_more [OF c] same simp del: length_append take_append length_drop intro!: agrees_cursor agrees_bind_same run agrees_refl)
  qed
qed

lemma agrees_consume_stream_line_ending_inner:
  assumes c: "c \<le> length (cx_bytes cx)"
  shows "agrees cx c (consume_stream_line_ending_inner cx) (consume_stream_line_ending_inner cx') (\<lambda>_ _. False)"
proof -
  have kind: "agrees cx c
      (if peek_byte (cx_bytes cx) c = Some 10 then p_return (c + 1)
       else if peek_byte (cx_bytes cx) c = Some 13
       then if peek_byte (cx_bytes cx) (c + 1) = Some 10 then p_return (c + 2)
            else p_bind (need_byte cx (c + 1) XInvalidStreamBoundary) (\<lambda>_. p_error XInvalidStreamBoundary (absolute cx c))
       else p_error XInvalidStreamBoundary (absolute cx c))
      (if peek_byte (cx_bytes cx') c = Some 10 then p_return (c + 1)
       else if peek_byte (cx_bytes cx') c = Some 13
       then if peek_byte (cx_bytes cx') (c + 1) = Some 10 then p_return (c + 2)
            else p_bind (need_byte cx' (c + 1) XInvalidStreamBoundary) (\<lambda>_. p_error XInvalidStreamBoundary (absolute cx c))
       else p_error XInvalidStreamBoundary (absolute cx c)) (\<lambda>_ _. False)"
    if inside: "c < length (cx_bytes cx)"
  proof (cases "Suc c = length (cx_bytes cx)")
    case True
    then show ?thesis
      unfolding peek_more [OF inside] by (auto simp: peek_byte_def need_byte_def open_end intro!: agree)
  next
    case False
    then have "Suc c < length (cx_bytes cx)" using inside by simp
    from peek_more [OF this] this show ?thesis
      unfolding peek_more [OF inside] by (auto simp: need_byte_def bytes agrees_refl)
  qed
  show ?thesis
    unfolding consume_stream_line_ending_inner_def absolute_same
  proof (rule agrees_cursor, rule agrees_need_byte [OF c], rule agrees_bind [OF _ kind])
    show "runs cx c
      (if peek_byte (cx_bytes cx) c = Some 10 then p_return (c + 1)
       else if peek_byte (cx_bytes cx) c = Some 13
       then if peek_byte (cx_bytes cx) (c + 1) = Some 10 then p_return (c + 2)
            else p_bind (need_byte cx (c + 1) XInvalidStreamBoundary) (\<lambda>_. p_error XInvalidStreamBoundary (absolute cx c))
       else p_error XInvalidStreamBoundary (absolute cx c))
      (\<lambda>v c'. c' \<le> length (cx_bytes cx) \<longrightarrow>
        (if False then doomed cx c' (p_bind (p_seek v) (\<lambda>_. p_result (from_bounds (absolute cx c) (absolute cx v))))
         else agrees cx c' (p_bind (p_seek v) (\<lambda>_. p_result (from_bounds (absolute cx c) (absolute cx v))))
           (p_bind (p_seek v) (\<lambda>_. p_result (from_bounds (absolute cx c) (absolute cx v)))) (\<lambda>_ _. False)))"
      by (intro run impI) (auto simp: agrees_refl)
  qed simp
qed

section \<open>Answers\<close>

lemma run_operation_same_start:
  "agrees cx (ps_cursor s) m m' (\<lambda>_ _. False) \<Longrightarrow>
     agrees cx (ps_cursor s) (p_bind (begin_operation cx) (\<lambda>_. m)) (p_bind (begin_operation cx') (\<lambda>_. m')) (\<lambda>_ _. False)"
  unfolding begin_same by (intro agrees_bind_same run impI)

end

text \<open>What the answer on the longer window is, by the answer on the shorter one.\<close>

definition poll_stable :: "nat \<Rightarrow> 'a polled \<Rightarrow> 'a polled \<Rightarrow> bool" where
  "poll_stable minimum_end shorter longer =
     (case shorter of
        (Some (SynReady v), s) \<Rightarrow> longer = (Some (SynReady v), s)
      | (Some (SynFailed e), s) \<Rightarrow>
          \<exists>e' s'. longer = (Some (SynFailed e'), s') \<and> (e' = e \<and> s' = s \<or> limit_failure e \<and> limit_failure e')
      | (Some (SynNeedMore n), s) \<Rightarrow> n = minimum_end
      | _ \<Rightarrow> False)"

definition open_window :: "syntax_context \<Rightarrow> syntax_context" where
  "open_window cx = cx\<lparr>cx_input := (cx_input cx)\<lparr>in_extent := MayContinue\<rparr>\<rparr>"

definition extend_window :: "syntax_context \<Rightarrow> u8 list \<Rightarrow> input_extent \<Rightarrow> syntax_context" where
  "extend_window cx extra extent = cx\<lparr>cx_input := (cx_input cx)\<lparr>in_bytes := cx_bytes cx @ extra, in_extent := extent\<rparr>\<rparr>"

interpretation windows: window_pair "open_window cx" "extend_window cx extra extent" extra for cx extra extent
  by unfold_locales (simp_all add: open_window_def extend_window_def)

text \<open>The window may grow by a byte.\<close>

definition may_grow :: "syntax_context \<Rightarrow> bool" where
  "may_grow cx \<longleftrightarrow> length (cx_bytes cx) < syn_max_input_bytes (cx_limits cx) \<and>
     in_base (cx_input cx) + length (cx_bytes cx) < u64_max"

lemma need_more_open: "may_grow cx \<Longrightarrow> need_more_or_failure cx = SynNeedMore (in_base (cx_input cx) + length (cx_bytes cx) + 1)"
  by (auto simp: need_more_or_failure_def may_grow_def checked_add_def Let_def)

lemma run_operation_stable:
  assumes runs: "runs (open_window cx) (ps_cursor s) m P"
    and agrees: "agrees (open_window cx) (ps_cursor s) m m' (\<lambda>_ _. False)"
    and s: "parser_ok (open_window cx) s" and grow: "may_grow cx"
  shows "poll_stable (in_base (cx_input cx) + length (cx_bytes cx) + 1)
    (run_operation (open_window cx) clean_end m s) (run_operation (extend_window cx extra extent) clean_end m' s)"
proof -
  let ?cx = "open_window cx" and ?cx' = "extend_window cx extra extent"
  have more: "need_more_or_failure ?cx = SynNeedMore (in_base (cx_input cx) + length (cx_bytes cx) + 1)"
    using need_more_open [of ?cx] grow by (simp add: may_grow_def open_window_def)
  have extent: "cx_extent ?cx = MayContinue" by (simp add: open_window_def)
  note d = agreesD [OF windows.run_operation_same_start [OF agrees, of extra extent] s refl]
  have "runs ?cx (ps_cursor s) (p_bind (begin_operation ?cx) (\<lambda>_. m)) P" using runs by (intro run impI)
  note r = runsD(2) [OF this s refl]
  obtain x s1 where x: "p_bind (begin_operation ?cx) (\<lambda>_. m) s = (x, s1)" by force
  show ?thesis
  proof (cases x)
    case (Inr v)
    with d(1) [of v s1] x show ?thesis by (simp add: poll_stable_def run_operation_def)
  next
    case (Inl f)
    show ?thesis
    proof (cases f)
      case (PFailed e)
      with d(2) [of e s1] x Inl show ?thesis by (auto simp: poll_stable_def run_operation_def)
    qed (use x Inl r [of f s1] extent in \<open>auto simp: poll_stable_def run_operation_def proper_failure_def more\<close>)
  qed
qed

lemma operations_stable:
  fixes cx :: syntax_context
  defines "least \<equiv> in_base (cx_input cx) + length (cx_bytes cx) + 1"
  assumes s: "parser_ok (open_window cx) s" and grow: "may_grow cx"
  shows "poll_stable least (parse_object (open_window cx) s) (parse_object (extend_window cx extra extent) s)"
    and "poll_stable least (parse_header (open_window cx) s) (parse_header (extend_window cx extra extent) s)"
    and "poll_stable least (parse_keyword (open_window cx) s) (parse_keyword (extend_window cx extra extent) s)"
    and "poll_stable least (expect_keyword (open_window cx) expected s) (expect_keyword (extend_window cx extra extent) expected s)"
    and "poll_stable least (consume_stream_line_ending (open_window cx) s)
      (consume_stream_line_ending (extend_window cx extra extent) s)"
  unfolding least_def parse_object_def parse_header_def parse_keyword_def expect_keyword_def consume_stream_line_ending_def
proof -
  note c = parser_ok_cursor [OF s]
  note stable = run_operation_stable [OF _ _ s grow]
  show "poll_stable (in_base (cx_input cx) + length (cx_bytes cx) + 1)
      (run_operation (open_window cx) True (parse_object_at (open_window cx) 0) s)
      (run_operation (extend_window cx extra extent) True (parse_object_at (extend_window cx extra extent) 0) s)"
    by (rule stable [OF runs_parse_object_at [OF c] windows.agrees_parse_object_at [OF c]])
  show "poll_stable (in_base (cx_input cx) + length (cx_bytes cx) + 1)
      (run_operation (open_window cx) False (parse_header_inner (open_window cx)) s)
      (run_operation (extend_window cx extra extent) False (parse_header_inner (extend_window cx extra extent)) s)"
    by (rule stable [OF runs_parse_header_inner [OF c] windows.agrees_parse_header_inner [OF c]])
  show "poll_stable (in_base (cx_input cx) + length (cx_bytes cx) + 1)
      (run_operation (open_window cx) False (parse_keyword_inner (open_window cx)) s)
      (run_operation (extend_window cx extra extent) False (parse_keyword_inner (extend_window cx extra extent)) s)"
    by (rule stable [OF runs_parse_keyword_inner [OF c] windows.agrees_parse_keyword_inner [OF c]])
  show "poll_stable (in_base (cx_input cx) + length (cx_bytes cx) + 1)
      (run_operation (open_window cx) False (expect_keyword_inner (open_window cx) expected) s)
      (run_operation (extend_window cx extra extent) False (expect_keyword_inner (extend_window cx extra extent) expected) s)"
    by (rule stable [OF runs_expect_keyword_inner [OF c] windows.agrees_expect_keyword_inner [OF c]])
  show "poll_stable (in_base (cx_input cx) + length (cx_bytes cx) + 1)
      (run_operation (open_window cx) False (consume_stream_line_ending_inner (open_window cx)) s)
      (run_operation (extend_window cx extra extent) False (consume_stream_line_ending_inner (extend_window cx extra extent)) s)"
    by (rule stable [OF runs_consume_stream_line_ending_inner [OF c]
          windows.agrees_consume_stream_line_ending_inner [OF c]])
qed

end
