(* ===== verification/Syn_Props.thy ===== *)
theory Syn_Props
  imports Syn_WindowOps
begin

text \<open>
  Properties of the syntax parser: soundness of the object parser against the reference grammar, safety of
  every sequence of calls, and stability of the answers when the window grows. The concrete inputs are small windows with generous limits.
\<close>

section \<open>Concrete inputs\<close>

definition small_host :: syntax_host where
  "small_host = \<lparr>sy_cancelled = (\<lambda>_. False), sy_alloc = (\<lambda>_ n. Some n), sy_item_size = 4, sy_entry_size = 8\<rparr>"

definition small_limits :: syntax_limits where
  "small_limits =
     \<lparr>syn_max_input_bytes = 64, syn_max_token_bytes = 32, syn_max_comment_bytes = 16, syn_max_name_bytes = 16,
      syn_max_string_source_bytes = 32, syn_max_string_decoded_bytes = 16, syn_max_owned_bytes = 64,
      syn_max_total_tokens = 20, syn_max_container_entries = 10, syn_max_container_bytes = 100,
      syn_max_container_depth = 4\<rparr>"

definition small_input :: "u8 list \<Rightarrow> input_extent \<Rightarrow> syntax_input" where
  "small_input bytes extent =
     \<lparr>in_source = \<lparr>stable_id = [], source_revision = 1\<rparr>, in_base = 10, in_bytes = bytes, in_extent = extent\<rparr>"

definition small_context :: "u8 list \<Rightarrow> input_extent \<Rightarrow> syntax_context" where
  "small_context bytes extent =
     \<lparr>cx_input = small_input bytes extent, cx_limits = small_limits, cx_max_retained = None, cx_host = small_host\<rparr>"

definition small_state :: parser_state where
  "small_state =
     \<lparr>ps_countdown = 256, ps_cursor = 0, ps_tokens = 0, ps_owned_bytes = 0, ps_container_bytes = 0,
      ps_container_entries = 0, ps_max_depth = 0, ps_probes = 0, ps_requests = 0\<rparr>"

lemma small_ok: "parser_ok (small_context bytes extent) small_state"
  by (simp add: parser_ok_def small_context_def small_state_def small_limits_def retained_ok_def)

lemmas step_defs =
  p_bind_def p_return_def p_fail_def p_gets_def p_modify_def p_result_def p_seek_def p_some_def p_alloc_def
  parser_position_def absolute_def check_cancelled_def probe_iteration_def probe_interval_def begin_operation_def
  check_single_limit_def charge_total_def charge_retained_def check_token_len_def charge_token_def
  charge_container_entry_def enter_container_def grow_container_def reserve_container_entry_def checked_add_def
  checked_mul_def checked_sub_def u64_max_def from_bounds_def byte_span_new_def
  peek_byte_def window_bytes_def probe_position_def need_byte_def and_then_def ok_or_def

lemmas lexer_defs =
  is_whitespace_def is_delimiter_def is_ascii_digit_def is_number_start_def skip_trivia_def
  shift_digit_def signed_value_def number_kind_def parse_number_def scan_regular_def fixed_token_def token_at_def
  next_token_def next_required_token_def make_token_def probe_integer_token_def

lemmas object_defs =
  located_object_def byte_at_cursor_def plain_integer_def integer_or_reference_def container_turn_def reserve_item_def
  object_fuel_def parse_object_at_def run_operation_def parse_object_def

lemma small_context_simps:
  "in_bytes (cx_input (small_context bytes extent)) = bytes"
  "in_extent (cx_input (small_context bytes extent)) = extent"
  "in_base (cx_input (small_context bytes extent)) = 10"
  "in_source (cx_input (small_context bytes extent)) = \<lparr>stable_id = [], source_revision = 1\<rparr>"
  "cx_limits (small_context bytes extent) = small_limits"
  "cx_max_retained (small_context bytes extent) = None"
  "sy_cancelled (cx_host (small_context bytes extent)) k = False"
  "sy_alloc (cx_host (small_context bytes extent)) k n = Some n"
  "sy_item_size (cx_host (small_context bytes extent)) = 4"
  by (simp_all add: small_context_def small_input_def small_host_def)

lemmas small_defs = small_context_simps small_limits_def small_state_def

text \<open>Only the step that runs is evaluated, never a continuation.\<close>

lemma p_bind_step_cong: "m = m' \<Longrightarrow> p_bind m k = p_bind m' k"
  by simp

lemma if_step: "(if b then m else m') s = (if b then m s else m' s)"
  by simp

lemmas loop_steps =
  fun_cong [OF trivia_loop.simps]
  fun_cong [OF object_from_token.simps(2) [of "pred_numeral k" for k, folded numeral_eq_Suc]]
  fun_cong [OF array_loop.simps(2) [of "pred_numeral k" for k, folded numeral_eq_Suc]]

text \<open>The window \<open>[1]\<close>, and what it denotes.\<close>

lemma small_parse:
  "parse_object (small_context [32, 91, 49, 93] extent) small_state =
     (Some (SynReady (Located \<lparr>stable_id = [], source_revision = 1\<rparr> \<lparr>span_start = 11, span_len = 3\<rparr>
        (SynArray [Located \<lparr>stable_id = [], source_revision = 1\<rparr> \<lparr>span_start = 12, span_len = 1\<rparr> (SynInteger 1)]))),
      \<lparr>ps_countdown = 244, ps_cursor = 4, ps_tokens = 3, ps_owned_bytes = 0, ps_container_bytes = 16,
       ps_container_entries = 1, ps_max_depth = 1, ps_probes = 1, ps_requests = 1\<rparr>)"
  by (simp add: step_defs lexer_defs object_defs small_defs loop_steps if_step Let_def
      del: object_from_token.simps array_loop.simps dictionary_loop.simps cong: p_bind_step_cong)

section \<open>Properties\<close>

text \<open>C38: Soundness of the object parser: an object handed out by \<open>parse_object\<close> is spelled, in the reference
  grammar, by the bytes between the trivia at the old cursor and the new cursor, children and spans included;
  the parser stays within its limits on input, tokens, owned and retained bytes, container entries and depth, and
  within the container-byte limit when it was within it before.\<close>

theorem parse_object_sound:
  assumes "parser_ok cx s" "parse_object cx s = (Some (SynReady v), s')"
  shows "(\<exists>i. trivia_at cx (ps_cursor s) i \<and> object_at cx i (ps_cursor s') v) \<and> parser_ok cx s' \<and>
    (container_ok cx s \<longrightarrow> container_ok cx s')"
  using parse_object_answers [OF assms(1)] assms(2) by (simp add: answers_def)

lemma parse_object_sound_witness:
  "\<exists>i. trivia_at (small_context [32, 91, 49, 93] KnownSourceEnd) 0 i \<and>
     object_at (small_context [32, 91, 49, 93] KnownSourceEnd) i 4
       (Located \<lparr>stable_id = [], source_revision = 1\<rparr> \<lparr>span_start = 11, span_len = 3\<rparr>
         (SynArray [Located \<lparr>stable_id = [], source_revision = 1\<rparr> \<lparr>span_start = 12, span_len = 1\<rparr> (SynInteger 1)]))"
  using parse_object_sound [OF small_ok small_parse] by (simp add: small_state_def)

text \<open>C39: Safety of the parser: whatever operations are called on a new parser, in any order and after any
  failures, every call answers (it neither panics nor runs out of fuel), and cursor, tokens, owned and
  retained bytes, container entries and depth stay within their limits.\<close>

theorem parser_calls_safe:
  assumes "new_internal inp limits host cap = Inr (cx, s)"
  shows "parser_ok cx (fst (run_machine (syntax_call cx) s calls)) \<and>
    list_all (\<lambda>answered. answered) (snd (run_machine (syntax_call cx) s calls))"
  using calls.run_reliable new_internal_ok [OF assms] by blast

lemma parser_calls_safe_witness:
  "parser_ok (small_context [49, 32, 37] MayContinue)
     (fst (run_machine (syntax_call (small_context [49, 32, 37] MayContinue)) small_state
       [CallObject, CallTake 2, CallHeader]))"
proof -
  have "new_internal (small_input [49, 32, 37] MayContinue) small_limits small_host None =
      Inr (small_context [49, 32, 37] MayContinue, small_state)"
    by (simp add: new_internal_def small_input_def small_limits_def small_context_def small_state_def
        probe_interval_def)
  from parser_calls_safe [OF this] show ?thesis by blast
qed

text \<open>C40: Stability of the answers: on a window of the source that may continue and on a longer window, every
  operation but the raw copy answers alike. What is ready on the shorter window is ready on the longer one with
  the same value, cursor and counters (the input length in the statistics is that of the window); what failed fails with the same error, or both fail on a limit or by
  cancellation; otherwise the shorter window asks for exactly one more byte. No answer depends on where the
  window was cut.\<close>

theorem window_stable:
  assumes "syntax_input_new source base bytes MayContinue = Inr inp"
    "syntax_input_new source base (bytes @ extra) extent = Inr inp'" "extra \<noteq> []"
    "new_internal inp limits host cap = Inr (cx, s0)" "new_internal inp' limits host cap = Inr (cx', s0')"
    "parser_ok cx s"
  shows "poll_stable (base + length bytes + 1) (parse_object cx s) (parse_object cx' s) \<and>
    poll_stable (base + length bytes + 1) (parse_header cx s) (parse_header cx' s) \<and>
    poll_stable (base + length bytes + 1) (parse_keyword cx s) (parse_keyword cx' s) \<and>
    poll_stable (base + length bytes + 1) (expect_keyword cx expected s) (expect_keyword cx' expected s) \<and>
    poll_stable (base + length bytes + 1) (consume_stream_line_ending cx s) (consume_stream_line_ending cx' s)"
proof -
  have inp: "inp = \<lparr>in_source = source, in_base = base, in_bytes = bytes, in_extent = MayContinue\<rparr>"
      "inp' = \<lparr>in_source = source, in_base = base, in_bytes = bytes @ extra, in_extent = extent\<rparr>"
      "base + length (bytes @ extra) \<le> u64_max"
    using assms(1,2) by (auto simp: syntax_input_new_def and_then_Inr_iff ok_or_Inr_iff checked_add_def split: if_splits)
  then have cx: "open_window cx = cx" "extend_window cx extra extent = cx'" "in_base (cx_input cx) = base" "cx_bytes cx = bytes"
      "cx_limits cx = limits" "length (bytes @ extra) \<le> syn_max_input_bytes limits"
    using assms(4,5) by (auto simp: new_internal_def Let_def open_window_def extend_window_def split: if_splits)
  have grow: "may_grow cx" using cx(3-6) inp(3) assms(3) by (cases extra) (simp_all add: may_grow_def)
  have "parser_ok (open_window cx) s" using assms(6) cx(1) by simp
  from operations_stable [OF this grow, where extra = extra and extent = extent] show ?thesis unfolding cx by blast
qed

lemma window_stable_witness:
  "parse_object (small_context [32, 91, 49, 93, 32, 50] KnownSourceEnd) small_state =
     parse_object (small_context [32, 91, 49, 93] MayContinue) small_state"
proof -
  have "poll_stable 15 (parse_object (small_context [32, 91, 49, 93] MayContinue) small_state)
      (parse_object (small_context ([32, 91, 49, 93] @ [32, 50]) KnownSourceEnd) small_state)"
    using window_stable [of "\<lparr>stable_id = [], source_revision = 1\<rparr>" 10 "[32, 91, 49, 93]"
        "small_input [32, 91, 49, 93] MayContinue" "[32, 50]" KnownSourceEnd
        "small_input ([32, 91, 49, 93] @ [32, 50]) KnownSourceEnd" small_limits small_host None
        "small_context [32, 91, 49, 93] MayContinue" small_state
        "small_context ([32, 91, 49, 93] @ [32, 50]) KnownSourceEnd" small_state small_state, OF _ _ _ _ _ small_ok]
    by (simp add: syntax_input_new_def new_internal_def small_input_def small_limits_def small_context_def
        small_state_def probe_interval_def checked_add_def u64_max_def)
  then show ?thesis by (simp add: poll_stable_def small_parse)
qed

end
