(* ===== verification/Spec2Isabelle.thy ===== *)
theory Spec2Isabelle
  imports Sched_Live Filt_Props Bytes_Props Syn_Props
begin

text \<open>
  A verification development for PDF.rs, a PDF engine written in Rust.

  The program is a workspace of crates. \<open>pdf-rs/*\<close> reads documents: a byte source hands out
  verified ranges (\<open>bytes\<close>), stream filters decode them under a resource budget (\<open>filters\<close>), and
  the syntax parser reads objects from a window of such a range (\<open>syntax\<close>), and objects, cross
  references, document, content, fonts and scene are built on top.
  \<open>runtime/*\<close> turns documents into pixels for a host: a scheduler decides which tile is worked
  on, caches keep results, surfaces own pixel memory, a wire protocol carries commands. A job polls
  the byte source; a poll that misses bytes leaves a ticket, the host supplies the bytes, the runtime
  requeues the subscribed jobs, and a decoded stream is built from slices of the source.

  \<^bold>\<open>Shared theories.\<close>
  \<^item> \<open>Prelude\<close>: checked and saturating machine arithmetic, results, ordered maps as association
    lists, machines driven by command lists, and the interface of one-shot events (locale
    \<open>one_shot\<close>, interpreted by the arbiter and by the range store).
  \<^item> \<open>Pdf_Chars\<close>: the character classes of PDF as tables of bytes, for the specifications; the tests of the
    code (\<open>is_pdf_whitespace\<close>, \<open>hex_nibble\<close>, \<open>is_delimiter\<close>, \<open>hex_value\<close>, \<open>escape_byte\<close> and their like) are
    proved equal to them.

  \<^bold>\<open>Scheduler\<close> (crate \<open>runtime/scheduler\<close>).
  \<^item> \<open>Sched_Types\<close>, \<open>Sched_Arbiter\<close>, \<open>Sched_Queue\<close>: every operation of \<open>TerminalArbiter\<close> and
    \<open>ViewportScheduler\<close> with its error branches.
  \<^item> \<open>Sched_Inv\<close>: the scheduler's invariant and its preservation by every method.
  \<^item> \<open>Sched_Run\<close>, \<open>Sched_Props\<close>, \<open>Sched_Live\<close>: runs of commands and the properties of
    reachable states: bounds, total dispatch, selection, reservations, coalescing, generations,
    exactly-once identities, aging inside the fairness window, bounded bypass and shutdown.

  \<^bold>\<open>Filters\<close> (crate \<open>pdf-rs/filters\<close>).
  \<^item> \<open>Filt_Types\<close>, \<open>Filt_Budget\<close>: errors, limits, fuel, output and retained-capacity accounting. The
    cancellation probe and the allocator are the record \<open>host\<close>; the sizes of Rust types are the record
    \<open>layout\<close>.
  \<^item> \<open>Filt_Ascii\<close>, \<open>Filt_RunLength\<close>, \<open>Filt_Predictor\<close>, \<open>Filt_Tiff\<close>: the ASCII, run-length and
    predictor layers, each with a budget-free reference and a round trip or a grammar.
  \<^item> \<open>Filt_Prefix\<close>, \<open>Filt_Huffman\<close>, \<open>Filt_Canonical\<close>: prefix codes, the node array of
    \<open>Huffman::build\<close>, and that it holds the canonical code exactly of the complete code lengths.
  \<^item> \<open>Filt_Flate\<close>, \<open>Filt_Deflate\<close>, \<open>Filt_FlateSim\<close>, \<open>Filt_FlateCost\<close>, \<open>Filt_FlateRefine\<close>,
    \<open>Filt_Stored\<close>: the Flate decoder, Deflate over lists of bits as its reference, and the refinement.
    The model of the decoder needs no fuel parameter: its loops end because each round consumes input or
    budget. The cost theorems use \<open>bit_fuel\<close> (2000 steps) and \<open>bit_output\<close> (300 bytes) per bit of input:
    a symbol may copy 258 bytes and a block may build three tables, and both are paid for by the bits
    that announce them.
  \<^item> \<open>Filt_Plan\<close>, \<open>Filt_PlanSpec\<close>, \<open>Filt_Declared\<close>: filter plans from stream dictionaries; the same reading
    without cancellation probes and allocation; and the reading of the PDF rules (filter names, the four
    predictor keys with their defaults and accepted values), to which it is proved equal.
  \<^item> \<open>Filt_Decode\<close>, \<open>Filt_Complete\<close>, \<open>Filt_Props\<close>: the pipeline over the stages, completeness under a
    budget of a stated multiple of the input (locale \<open>bounded_layer\<close>, interpreted by every layer), and
    the properties.

  \<^bold>\<open>Byte source\<close> (crate \<open>pdf-rs/bytes\<close>) and the values of \<open>pdf-rs/syntax/src/model.rs\<close>.
  \<^item> \<open>Bytes_Types\<close>, \<open>Syn_Types\<close>: ranges, identities, snapshots, requests, slices, responses; the object
    tree that the parser builds and filter plans read.
  \<^item> \<open>Bytes_Segs\<close>: the cached segments and the functions on them (coverage, gaps, conflicts, merging),
    as facts about the set of cached addresses and the byte at an address.
  \<^item> \<open>Bytes_Store\<close>: limits, tickets, resident accounting and every operation of \<open>RangeStore\<close>. \<open>supply\<close>
    is cut at the state lock, because the code reserves resident bytes before it waits for the lock:
    \<open>supply_begin\<close> queues a response and \<open>supply_commit\<close> runs under the lock, with any calls between
    them. A signal of another thread, seen at any of the probes of the flag, and the allocator are the
    record \<open>store_host\<close>. The backings that slices keep alive are part of the state, so that the resident
    counter can be related to what is live.
  \<^item> \<open>Bytes_Inv\<close>, \<open>Bytes_Supply\<close>, \<open>Bytes_Machine\<close>: the invariant and its preservation by every operation;
    the store as a machine.
  \<^item> \<open>Bytes_Evolve\<close>: what no sequence of calls undoes, as a preorder on stores.
  \<^item> \<open>Bytes_Props\<close>: the properties: the invariant, the refinement of a partial map from addresses to
    bytes, polling, waking, source changes, one delivery of subscriptions, progress, agreement of reads.

  \<^bold>\<open>Syntax parser\<close> (crate \<open>pdf-rs/syntax\<close>).
  \<^item> \<open>Syn_Input\<close>: errors, limits, the input window, the parser's state and its accounting. A step takes the
    state and returns a result and a state, also when it fails. The input, the limits and the host (the
    answers of the cancellation probe, the capacities that the allocator grants) are the record
    \<open>syntax_context\<close>.
  \<^item> \<open>Syn_Lex\<close>, \<open>Syn_Parser\<close>: every scanner, the object parser and every public operation of
    \<open>SyntaxParser\<close>. The scanning loops recurse on the bytes that are left. Nested objects recurse with
    fuel; \<open>object_fuel\<close>, two steps per byte of the window and two more, is enough, because every turn of a
    container and every nested object consumes a byte. A panic of the code and a lack of fuel are failures
    of the model, and they are proved never to happen.
  \<^item> \<open>Syn_Grammar\<close>: a reference grammar of direct objects, over the bytes of a window and the tables of
    \<open>Pdf_Chars\<close> only: what a number, a
    name, a string, a reference denotes, what trivia is, and which part of a window spells an object.
  \<^item> \<open>Syn_Run\<close>: a program logic for steps of the parser (judgement \<open>runs\<close>: no panic, no lack of fuel, limits
    kept, and a postcondition on the value and the cursor), whose rules are the collection \<open>run\<close>.
  \<^item> \<open>Syn_LexOk\<close>, \<open>Syn_NumOk\<close>, \<open>Syn_ScanOk\<close>, \<open>Syn_StringOk\<close>, \<open>Syn_Sound\<close>: every scanner and the object
    parser against the grammar in that logic.
  \<^item> \<open>Syn_Ops\<close>: the operations as a machine (locale \<open>reliable_machine\<close>, interpreted by the parser).
  \<^item> \<open>Syn_Window\<close>, \<open>Syn_WindowString\<close>, \<open>Syn_WindowParse\<close>, \<open>Syn_WindowOps\<close>: the parser on a window that may
    continue and on a longer one (locale \<open>window_pair\<close>, interpreted by a context and its extension). The
    judgement \<open>agrees\<close> relates a step on the one with the step on the other; a byte that the shorter window
    cannot see is never decided on.
  \<^item> \<open>Syn_Props\<close>: the properties: soundness of the object parser against the grammar, safety of every
    sequence of calls, and stability of the answers when the window grows.

  \<^bold>\<open>Conventions.\<close> \<open>u64\<close> and \<open>usize\<close> are natural numbers below \<open>u64_max\<close> and every checked operation of
  the code is a checked operation of the model; the one wrapping subtraction (the resident counter) is
  written out modulo \<open>2 ^ 64\<close>. The position of a byte (\<open>absolute\<close>) is a plain sum: \<open>syntax_input_new\<close> accepts
  a window only when base plus length fits u64, so the addition of the code cannot overflow. The input length
  in the parser's statistics is the length of its window and not a field of \<open>parser_state\<close>. Bytes and bit
  buffers are words. An error leaves the function at once and
  drops what it owned.

  \<^bold>\<open>Not modelled.\<close> Debug formatting and accessors that only read a field; poisoning of a lock by a panic;
  that \<open>supply_commit\<close>, while it stages a merge, claims the whole resident budget for a moment, which another
  thread's \<open>supply_begin\<close> could see (the commit is one step of the model);
  the object, cross-reference, document, content, font, scene and raster crates, which are far larger and
  stand on the crates above; session, engine and viewer, which orchestrate threads around the scheduler;
  the hosts and the developer tools, which are input and output.
\<close>

end
